(* ===== verification/Prelude.thy ===== *)
theory Prelude
  imports Main "HOL-Library.Word" "HOL-Library.Monad_Syntax"
begin

text \<open>
  Shared vocabulary of the development: the C integer types as words, the reading of a buffer that
  is only defined inside its bounds, assertions (\<open>ENV_BUG_ON\<close>) as \<open>option\<close> values, and the
  lemmas on words and lists that several components use.
\<close>

unbundle bit_operations_syntax

section \<open>C types and effects\<close>

type_synonym u8 = "8 word"
type_synonym u16 = "16 word"
type_synonym u32 = "32 word"
type_synonym u64 = "64 word"

text \<open>
  The collections that carry the component proofs: \<open>model_defs\<close> holds the straight-line operations
  that proofs unfold, \<open>store_laws\<close> the read-over-write equations of the metadata stores.
\<close>

named_theorems model_defs
named_theorems store_laws

text \<open>
  \<open>p[i]\<close> for a C buffer \<open>p\<close> of \<open>length p\<close> bytes and a signed index \<open>i\<close>: \<open>None\<close> is the
  undefined behaviour of an access outside the buffer.
\<close>

definition rd :: "'a list \<Rightarrow> int \<Rightarrow> 'a option" where
  "rd p i = (if 0 \<le> i \<and> i < int (length p) then Some (p ! nat i) else None)"

text \<open>
  \<open>ENV_BUG_ON(b)\<close>: a failed assertion stops the program (\<open>None\<close>); otherwise execution goes on.
\<close>

definition bug_on :: "bool \<Rightarrow> unit option" where
  "bug_on b = (if b then None else Some ())"

lemma bug_on_simps [simp]: "bug_on False = Some ()" "bug_on True = None"
  by (simp_all add: bug_on_def)

lemma bug_on_Some [simp]: "bug_on b = Some u \<longleftrightarrow> \<not> b"
  by (simp add: bug_on_def)

lemma bug_on_bind: "bug_on b \<bind> f = (if b then None else f ())"
  by (simp add: bug_on_def)

lemma rd_in [simp]: "0 \<le> i \<Longrightarrow> i < int (length p) \<Longrightarrow> rd p i = Some (p ! nat i)"
  by (simp add: rd_def)

lemma rd_Some_iff: "rd p i = Some x \<longleftrightarrow> 0 \<le> i \<and> i < int (length p) \<and> x = p ! nat i"
  by (auto simp: rd_def)

section \<open>Words\<close>

text \<open>The conversion of a (signed) \<open>int\<close> to \<open>uint32_t\<close> that C's mixed comparisons apply.\<close>

definition to_u32 :: "int \<Rightarrow> u32" where
  "to_u32 n = word_of_int n"

lemma uint_to_u32 [simp]: "0 \<le> n \<Longrightarrow> n < 2 ^ 32 \<Longrightarrow> uint (to_u32 n) = n"
  by (simp add: to_u32_def unsigned_of_int take_bit_int_eq_self)

lemma sint_eq_uint_small: "uint (w :: u32) < 2 ^ 31 \<Longrightarrow> sint w = uint w"
proof -
  assume "uint w < 2 ^ 31"
  moreover have "- (2 ^ 31) \<le> uint w"
    by (rule order_trans [OF _ uint_ge_0]) simp
  ultimately show ?thesis
    by (simp add: sint_uint signed_take_bit_int_eq_self)
qed

lemma push_bit_one_eq_0_iff:
  fixes x :: "'a::len word"
  assumes "\<not> bit x (LENGTH('a) - 1)"
  shows "push_bit 1 x = 0 \<longleftrightarrow> x = 0"
proof
  assume z: "push_bit 1 x = 0"
  show "x = 0"
  proof (rule bit_word_eqI)
    fix n assume n: "n < LENGTH('a)"
    show "bit x n \<longleftrightarrow> bit 0 n"
    proof (cases "n = LENGTH('a) - 1")
      case True
      with assms show ?thesis by simp
    next
      case False
      with n have "bit x n \<longleftrightarrow> bit (push_bit 1 x) (Suc n)"
        unfolding bit_push_bit_iff by auto
      with z show ?thesis by simp
    qed
  qed
qed simp

text \<open>
  Testing a doubled fingerprint against a doubled mask is testing the fingerprint against the mask,
  as long as the mask's top bit is clear: no bit is lost by the shift.
\<close>

lemma shifted_mask_test:
  fixes x m :: "'a::len word"
  assumes "\<not> bit m (LENGTH('a) - 1)"
  shows "push_bit 1 x AND push_bit 1 m = 0 \<longleftrightarrow> x AND m = 0"
proof -
  have "\<not> bit (x AND m) (LENGTH('a) - 1)"
    using assms by (simp add: bit_and_iff)
  then show ?thesis
    using push_bit_one_eq_0_iff [of "x AND m"] by (simp add: push_bit_and)
qed

lemma unat_add_one [simp]: "unat (w :: 'a::len word) + 1 < 2 ^ LENGTH('a) \<Longrightarrow> unat (w + 1) = unat w + 1"
  by (simp add: unat_word_ariths)

lemma unat_sub_one [simp]: "0 < unat (w :: 'a::len word) \<Longrightarrow> unat (w - 1) = unat w - 1"
  by (metis One_nat_def unat_minus_one unsigned_eq_0_iff not_gr_zero)

end
