(* ===== verification/FastCDC.thy ===== *)
theory FastCDC
  imports Prelude
begin

text \<open>
  FastCDC content-defined chunking: \<open>FastCDC-c/fastcdc.c\<close> and the C++ class
  \<open>ZFile::FastCDCChunker\<close> (\<open>zfile/fastcdc_wrapper.cpp\<close>) through which \<open>zfile\<close> uses it.
  The chunkers take the library's global variables, a buffer and a signed length; \<open>None\<close> is a read
  outside the buffer. The theory shows that the chunkers stay inside the buffer and respect the
  minimum and maximum size, that they return the first position whose Gear fingerprint matches the
  mask, that the fingerprint only depends on the last 64 bytes, and that the routines rolling two
  bytes at a time compute the same cut points.
\<close>

section \<open>Tables, masks and globals\<close>

definition GEARv2 :: "u64 list" where
  "GEARv2 =
    [0xdc377e207d3c5d43, 0x626790b237a4ab52, 0xfad9bf3a472cfe4d,
     0xa2a6bc5395bbce52, 0xce0a8e4ef2f3ee3f, 0xb4b5b36cf31b4d66,
     0x468f4da9d12660f7, 0x9005e918384c13d0, 0x29ba77f861e74697,
     0x8237cf1734b2c668, 0xee06f9f1df6ced7b, 0x142936b9399add6a,
     0xcb3c0a27878d6de5, 0x49b827acbe6d77ac, 0x65903aad1d6c1e9f,
     0x7a7c66f221cf20ca, 0x9a0f5565415a795, 0xbe5a882391e5527e,
     0x14d2a06077f8339d, 0xcad2bce34bf19652, 0x5541cc588464c621,
     0xc44d981a4aa21e70, 0xb5f4dbb200e75029, 0xa0fc23f2eef70334,
     0xfe36dbfaed334ef3, 0xdd1b785765b2bb6, 0xcc3461a160502f47,
     0x64b1c122c7083b1a, 0x388e6a418b6fd359, 0x65809585f16ab490,
     0x3eb1ec4b9577e4c7, 0xd80e411261617dd8, 0x7da08fd8df71e169,
     0xa20af93edb933a86, 0x59fb1b86e1ff5415, 0x5b596e7a23e7af9a,
     0x50a905ffc0a402c3, 0x3a8cefabefd9dbbe, 0xc9762597ccab4a09,
     0xd8de3774872f3efe, 0xc9f1075d9ebc3c51, 0x3b55ac8bfcf8f51e,
     0xe4e88fb0fa555bd1, 0xfa725ab5e019900a, 0x4be7597f3fcb499d,
     0xe108b91410eb4788, 0xb9f7fc4896cbf4c3, 0x8cdaddac2fc852ee,
     0x5c1d3439307f3d03, 0x60e5ae5e93c82d50, 0x340d48d6be8c5b09,
     0x9a02c3be5b6c05e8, 0x56014afc31084d83, 0x85b888f604ea56f2,
     0x5cb1a8a10079cb23, 0xc52b57c63ff9a0ca, 0xf35659fc64e0143,
     0xbdf325035c594f38, 0xd1f8101a35320afd, 0xe899458626d703f8,
     0xbf97f530ac049837, 0x895021a6620ae70, 0x948596cd24280401,
     0x471f6accca7627f4, 0x4a129ff1164598bd, 0x71405c568bef229e,
     0x4fda2755c3737887, 0x909a3cc70ee44b32, 0xd1a8a3c3dc9fd44d,
     0x5ebb36a043ede1ca, 0xf6a89a10d5e68b53, 0xd9bf7a1aaa5016b2,
     0x71030478353d66cb, 0x6806d8ba045b5ae0, 0xa7672b4808466f67,
     0xf93e0da0d5011f0a, 0xa8aeeeec63465029, 0xe958e539a532a76e,
     0xfd8bf78ab9628da1, 0xca1eb1fe8a769e6a, 0x2a96875d6c8f9257,
     0x501c523d559d7d12, 0x9b7e72aa3d7f1a65, 0x25554c1d398077a,
     0xcdd8af6cd9c471e1, 0x39bea30bd9a49e, 0x233b737e0eeee721,
     0xd6d57c6896b14ed4, 0x8dabe80e8c70e265, 0x1b859ed8c291ddbc,
     0x6b3385f41e0a598b, 0xcf05250d14390e94, 0xc58d5e7d9c8b9f73,
     0x49a5c7a9ba27febc, 0x4841a129f0804005, 0xe7ffa313ce3144a,
     0x13d8768f158b32cb, 0x5d4a2c0fe9cd7afe, 0xe5d0ae6ab568df33,
     0xd5e94a4243d9b506, 0xc6dc1d3da6a23d23, 0xf3b4295d0dd364f2,
     0x57750173991256b5, 0x119097313522fa6a, 0xbeecd02c90273c43,
     0xef69efdc30e9077e, 0xcf28f3bbba364c83, 0xc8b80c742bfdd966,
     0x83f12924c9400e15, 0xa35b3222d11d583e, 0x9c9a9d426cde5fdd,
     0xf298ed021e76023a, 0xb9e8b29602ced7f3, 0x853af80c4f919742,
     0x505b7d96bf01b253, 0xa318b2bff19ed50c, 0x5308029ce76f358f,
     0x9a398f26b33f24a, 0x74595977a450ca7b, 0x4e8468ce85680390,
     0x2436fba706b7bf67, 0xfc0923f5563e8424, 0x5fcbfacf4f88506b,
     0xbe722684e90680f2, 0x1119ab5f71bd737d, 0xc739c71894e34ba8,
     0xcd822b0cb4e2e159, 0x67b583610a0410e0, 0xae18b6eb024bdfdb,
     0x865951f3e76f5834, 0x18eebfb065ebcb59, 0xd35f0999dd5e5b00,
     0x241ad24ae452fe07, 0x942b4c3c79dd1dbe, 0x99b14f06198c22a7,
     0xe2987fcf99376312, 0x844daa9a945c9067, 0xfa234ecf470184dc,
     0x6d97ccd39c1eb593, 0x8bf12e40249118d0, 0x923f72bcdb934d2f,
     0x69bd5c907fc76c8e, 0xe5827868949fc4f3, 0x4f5d13c3d6e20e0a,
     0xb3646a9d0111233, 0xf0af68353b17c0c8, 0xc920f56447f90673,
     0x8960c8168641fe16, 0xfee91d454a19219, 0xb25b446e135cf6b2,
     0x761b04f2362314f9, 0xa151afe2fb1ff5be, 0x2e973d6af5de4037,
     0x485c4501258ab54c, 0xf21bd1e05d869951, 0xd79097aaa1050314,
     0x2b5e8c12e04ff4f9, 0x4e43a881e78d9764, 0x16d02eca685abdab,
     0x7913757d06ccfaec, 0x513242305e9af1ef, 0xc847965583801b62,
     0x8862452b0de8c5e5, 0xce5ae051740dea5a, 0x1a028ca4bb2875a3,
     0x5680bba4aad7ffa6, 0x324d2adfb43a331b, 0xe456b7b1c0301b68,
     0x7801a00c795d859d, 0x41bdd48db6ae14a, 0x5fa8107e14c841fb,
     0xd0e4bdea28bef85c, 0x77bdb5eb30614b89, 0xdefa9fd302bbd858,
     0x8a54bfa54688dad, 0x682ec11a915f0980, 0xc4af0b1c0ffec719,
     0xf76fd41604e89104, 0xeb01bf3d9ced6817, 0xa87180c091474c6e,
     0x351bdb3557277969, 0xee81b4ce09b723aa, 0x3bd353a36b05adb,
     0x7bcb44892055af78, 0xadfb4e960a0ca951, 0x2273bad9b4ac3d74,
     0xebb4454444aaa94b, 0xe686846acad641a8, 0x6a6c096404d1c7a3,
     0x3d857f91fc5f6232, 0x5c63557a89fa3a27, 0x3ee7bc50de6d3e04,
     0x2490253782ef8a57, 0xad4d59ff8fa5f4c, 0x1c01a62b4c726533,
     0x9ef66ba35cb5ab2e, 0x4c47d62317d71cdf, 0x2a40c557d5a3f2a0,
     0xf758338d53442abd, 0x1eaefcd073bcdd10, 0xb9833e0eb50e8fd7,
     0x8c966374151a67b6, 0x3edf7efe33cdfd7b, 0x5a2c4a1a310be558,
     0x69e43fcb628fbeb7, 0x99bd77ef54c90d36, 0xbab1c4f59f066e65,
     0x797fd05581e14764, 0x75de5603975e3ea9, 0x11ef41165111c73c,
     0xb7ddf0821a4031f5, 0x3eec9e62cf45d24c, 0xcda86289d51cd2c7,
     0x127483edee743fae, 0x4c62baba754703cf, 0xcd8d463bb2e9583a,
     0xaa38a80cc6c609f3, 0x5f97356ca50a5986, 0x220a1b6bc88caeb,
     0x20420bdd061f48c4, 0xb0e0c20838c35c57, 0xeddd78004259c3d2,
     0xb7b854be9806aa3b, 0xa2256b1fc3bd00fe, 0x3ea3e4597d23917d,
     0xd952cb1a7656852e, 0x89e052b4e095f921, 0x4be913d1c4f79a82,
     0x9d36a507aa427257, 0x69b7818b57dbbf8, 0x21102213d2cae2cd,
     0x27ec5888afbdb47e, 0x4f16a4e8c63e27f9, 0x250a3857af744546,
     0x3e97bbeec0fcabdd, 0x4b6c65f8ca7fd632, 0xa91fce0f23e1be61,
     0x5050c5a688052206, 0x9e2e3f1a6b85328f, 0xe09ec18b956f5fea,
     0x4000f41b1b5b25e7, 0x3fbea3faba569084, 0xe471347f40647f65,
     0xda7abaa5f3caf2c8, 0x189201a4940001f9, 0x29e183e37d7da328,
     0xd2ae28418f093e67, 0x8e5cb797039be80e, 0x41604277260a071d,
     0x11edac1b01696b0e, 0x6e27fc4394cebee3, 0xeeffd1b2b382a2c0,
     0x2443385d4c4e195, 0x2ee724f1ad94f68e, 0xa4491e380c5cf7b,
     0xeb48a728aaf18d2e]"

definition FING_GEAR_08KB_ls_64 :: u64 where "FING_GEAR_08KB_ls_64 = push_bit 1 0x0000d93003530000"
definition FING_GEAR_02KB_ls_64 :: u64 where "FING_GEAR_02KB_ls_64 = push_bit 1 0x0000d90003530000"
definition FING_GEAR_32KB_ls_64 :: u64 where "FING_GEAR_32KB_ls_64 = push_bit 1 0x0000d9f003530000"
definition FING_GEAR_08KB_64 :: u64 where "FING_GEAR_08KB_64 = 0x0000d93003530000"
definition FING_GEAR_02KB_64 :: u64 where "FING_GEAR_02KB_64 = 0x0000d90003530000"
definition FING_GEAR_32KB_64 :: u64 where "FING_GEAR_32KB_64 = 0x0000d9f003530000"

text \<open>
  The library's mutable globals; C zero-initialises them (\<open>globals0\<close>).
\<close>

record fastcdc_globals =
  LEARv2 :: "u64 list"
  g_global_matrix :: "u32 list"
  g_global_matrix_left :: "u32 list"
  expectCS :: u32
  Mask_15 :: u32
  Mask_11 :: u32
  Mask_11_64 :: u64
  Mask_15_64 :: u64
  MinSize :: u32
  MinSize_divide_by_2 :: u32
  MaxSize :: u32

definition globals0 :: fastcdc_globals where
  "globals0 = \<lparr>LEARv2 = replicate 256 0, g_global_matrix = replicate 256 0,
     g_global_matrix_left = replicate 256 0, expectCS = 0, Mask_15 = 0, Mask_11 = 0,
     Mask_11_64 = 0, Mask_15_64 = 0, MinSize = 0, MinSize_divide_by_2 = 0, MaxSize = 0\<rparr>"

text \<open>
  \<open>fastCDC_init\<close>. OpenSSL's \<open>MD5\<close> is the parameter \<open>MD5\<close> (seed to digest); \<open>memcpy\<close> of four
  digest bytes into a \<open>uint32_t\<close> is the little-endian load of the supported hosts.
\<close>

definition load_le32 :: "u8 list \<Rightarrow> u32" where
  "load_le32 d = ucast (d ! 0) OR push_bit 8 (ucast (d ! 1)) OR
     push_bit 16 (ucast (d ! 2)) OR push_bit 24 (ucast (d ! 3))"

definition fastCDC_init :: "(u8 list \<Rightarrow> u8 list) \<Rightarrow> fastcdc_globals \<Rightarrow> fastcdc_globals" where
  "fastCDC_init MD5 g =
     (let matrix = map (\<lambda>i. load_le32 (MD5 (replicate 64 (of_nat i)))) [0..<256]
      in g\<lparr>g_global_matrix := matrix,
           g_global_matrix_left := map (push_bit 1) matrix,
           LEARv2 := map (push_bit 1) GEARv2,
           MinSize := 8192 div 4,
           MaxSize := 8192 * 4,
           Mask_15 := 0xf9070353,
           Mask_11 := 0xd9000353,
           Mask_11_64 := 0x0000d90003530000,
           Mask_15_64 := 0x0000f90703530000,
           MinSize_divide_by_2 := (8192 div 4) div 2\<rparr>)"

section \<open>The scanning loops\<close>

text \<open>
  One pass of a \<open>while\<close> loop either returns from the function with an index or falls through with the
  fingerprint and the index it reached.
\<close>

datatype scan = Return int | Fall u64 int

definition gear_step :: "u64 \<Rightarrow> u8 \<Rightarrow> u64" where
  "gear_step fingerprint b = push_bit 1 fingerprint + GEARv2 ! unat b"

text \<open>\<open>while (i < lim)\<close> with one byte per step (\<open>cdc_origin_64\<close>, \<open>normalized_chunking_64\<close>).\<close>

function scan1 :: "u64 \<Rightarrow> u8 list \<Rightarrow> int \<Rightarrow> int \<Rightarrow> u64 \<Rightarrow> scan option" where
  "scan1 msk p lim i fingerprint =
     (if i < lim then
        (case rd p i of
           None \<Rightarrow> None
         | Some b \<Rightarrow>
             if gear_step fingerprint b AND msk = 0 then Some (Return i)
             else scan1 msk p lim (i + 1) (gear_step fingerprint b))
      else Some (Fall fingerprint i))"
  by pat_completeness auto
termination
  by (relation "measure (\<lambda>(msk, p, lim, i, fp). nat (lim - i))") auto

declare scan1.simps [simp del]

text \<open>
  \<open>while (i < lim)\<close> with two bytes per step (\<open>rolling_data_2byes_64\<close>,
  \<open>normalized_chunking_2byes_64\<close>); \<open>lear\<close> is the table \<open>LEARv2\<close>.
\<close>

function scan2 :: "u64 list \<Rightarrow> u64 \<Rightarrow> u64 \<Rightarrow> u8 list \<Rightarrow> int \<Rightarrow> int \<Rightarrow> u64 \<Rightarrow> scan option" where
  "scan2 lear mls msk p lim i fingerprint =
     (if i < lim then
        (case rd p (i * 2) of
           None \<Rightarrow> None
         | Some b0 \<Rightarrow>
             let fp1 = push_bit 2 fingerprint + lear ! unat b0
             in if fp1 AND mls = 0 then Some (Return (i * 2))
                else (case rd p (i * 2 + 1) of
                        None \<Rightarrow> None
                      | Some b1 \<Rightarrow>
                          let fp2 = fp1 + GEARv2 ! unat b1
                          in if fp2 AND msk = 0 then Some (Return (i * 2 + 1))
                             else scan2 lear mls msk p lim (i + 1) fp2))
      else Some (Fall fingerprint i))"
  by pat_completeness auto
termination
  by (relation "measure (\<lambda>(lear, mls, msk, p, lim, i, fp). nat (lim - i))") auto

declare scan2.simps [simp del]

section \<open>The chunking functions\<close>

definition cdc_origin_64 :: "fastcdc_globals \<Rightarrow> u8 list \<Rightarrow> int \<Rightarrow> int option" where
  "cdc_origin_64 g p n =
     (if to_u32 n \<le> MinSize g then Some n
      else let n = (if to_u32 n > MaxSize g then sint (MaxSize g) else n)
        in case scan1 FING_GEAR_08KB_64 p n (sint (MinSize g)) 0 of
             None \<Rightarrow> None
           | Some (Return k) \<Rightarrow> Some k
           | Some (Fall _ _) \<Rightarrow> Some n)"

definition rolling_data_2byes_64 :: "fastcdc_globals \<Rightarrow> u8 list \<Rightarrow> int \<Rightarrow> int option" where
  "rolling_data_2byes_64 g p n =
     (if to_u32 n \<le> MinSize g then Some n
      else let n = (if to_u32 n > MaxSize g then sint (MaxSize g) else n)
        in case scan2 (LEARv2 g) FING_GEAR_08KB_ls_64 FING_GEAR_08KB_64 p (n div 2)
                  (sint (MinSize_divide_by_2 g)) 0 of
             None \<Rightarrow> None
           | Some (Return k) \<Rightarrow> Some k
           | Some (Fall _ _) \<Rightarrow> Some n)"

text \<open>
  The normalized chunkers first overwrite the global \<open>MinSize\<close>, so they return the new globals too.
\<close>

definition norm_clamp :: "fastcdc_globals \<Rightarrow> int \<Rightarrow> int \<Rightarrow> int \<times> int" where
  "norm_clamp g n Mid =
     (if to_u32 n > MaxSize g then (sint (MaxSize g), Mid)
      else if n < Mid then (n, n) else (n, Mid))"

definition normalized_chunking_64 ::
  "fastcdc_globals \<Rightarrow> u8 list \<Rightarrow> int \<Rightarrow> (fastcdc_globals \<times> int) option" where
  "normalized_chunking_64 g0 p n0 =
     (let g = g0\<lparr>MinSize := 6 * 1024\<rparr>; i = sint (MinSize g)
      in if to_u32 n0 \<le> MinSize g then Some (g, n0)
         else
           let (n, Mid) = norm_clamp g n0 (8 * 1024)
           in case scan1 FING_GEAR_32KB_64 p Mid i 0 of
                None \<Rightarrow> None
              | Some (Return k) \<Rightarrow> Some (g, k)
              | Some (Fall fp i) \<Rightarrow>
                  (case scan1 FING_GEAR_02KB_64 p n i fp of
                     None \<Rightarrow> None
                   | Some (Return k) \<Rightarrow> Some (g, k)
                   | Some (Fall _ _) \<Rightarrow> Some (g, n)))"

definition normalized_chunking_2byes_64 ::
  "fastcdc_globals \<Rightarrow> u8 list \<Rightarrow> int \<Rightarrow> (fastcdc_globals \<times> int) option" where
  "normalized_chunking_2byes_64 g0 p n0 =
     (let g = g0\<lparr>MinSize := 6 * 1024\<rparr>; i = sint (MinSize g div 2)
      in if to_u32 n0 \<le> MinSize g then Some (g, n0)
         else
           let (n, Mid) = norm_clamp g n0 (8 * 1024)
           in case scan2 (LEARv2 g) FING_GEAR_32KB_ls_64 FING_GEAR_32KB_64 p (Mid div 2) i 0 of
                None \<Rightarrow> None
              | Some (Return k) \<Rightarrow> Some (g, k)
              | Some (Fall fp i) \<Rightarrow>
                  (case scan2 (LEARv2 g) FING_GEAR_02KB_ls_64 FING_GEAR_02KB_64 p (n div 2) i fp of
                     None \<Rightarrow> None
                   | Some (Return k) \<Rightarrow> Some (g, k)
                   | Some (Fall _ _) \<Rightarrow> Some (g, n)))"

section \<open>What a scan computes\<close>

text \<open>
  \<open>slice p i j\<close> is the byte sequence \<open>p[i..j)\<close>; \<open>gear_hash\<close> is the Gear fingerprint of a byte
  sequence, the reference against which the loops are stated.
\<close>

definition slice :: "u8 list \<Rightarrow> int \<Rightarrow> int \<Rightarrow> u8 list" where
  "slice p i j = map ((!) p) [nat i..<nat j]"

definition gear_hash :: "u8 list \<Rightarrow> u64" where
  "gear_hash bs = foldl gear_step 0 bs"

definition cut_at :: "u64 \<Rightarrow> u64 \<Rightarrow> u8 list \<Rightarrow> int \<Rightarrow> int \<Rightarrow> bool" where
  "cut_at msk fp p i k \<longleftrightarrow> foldl gear_step fp (slice p i (k + 1)) AND msk = 0"

lemma slice_Nil [simp]: "j \<le> i \<Longrightarrow> slice p i j = []"
  by (simp add: slice_def)

lemma slice_Cons: "0 \<le> i \<Longrightarrow> i < j \<Longrightarrow> slice p i j = p ! nat i # slice p (i + 1) j"
  by (simp add: slice_def upt_conv_Cons Suc_nat_eq_nat_zadd1 add.commute)

lemma slice_append:
  "0 \<le> i \<Longrightarrow> i \<le> j \<Longrightarrow> j \<le> k \<Longrightarrow> slice p i k = slice p i j @ slice p j k"
  by (metis le_nat_iff map_append nat_mono slice_def upt_add_eq_append nat_le_eq_zle le_add_diff_inverse)

lemma length_slice [simp]: "length (slice p i j) = nat j - nat i"
  by (simp add: slice_def)

lemma cut_at_Cons:
  "0 \<le> i \<Longrightarrow> i < k \<Longrightarrow> cut_at msk fp p i k = cut_at msk (gear_step fp (p ! nat i)) p (i + 1) k"
  by (simp add: cut_at_def slice_Cons [of i "k + 1"])

lemma cut_at_self: "0 \<le> i \<Longrightarrow> cut_at msk fp p i i \<longleftrightarrow> gear_step fp (p ! nat i) AND msk = 0"
  by (simp add: cut_at_def slice_Cons [of i "i + 1"])

text \<open>\<open>k\<close> is the first position of \<open>[i, n)\<close> that satisfies \<open>P\<close>, and \<open>n\<close> if there is none.\<close>

definition first_hit :: "(int \<Rightarrow> bool) \<Rightarrow> int \<Rightarrow> int \<Rightarrow> int \<Rightarrow> bool" where
  "first_hit P i n k \<longleftrightarrow>
     i \<le> k \<and> k \<le> n \<and> (\<forall>j. i \<le> j \<and> j < k \<longrightarrow> \<not> P j) \<and> (k < n \<longrightarrow> P k)"

fun scan_spec :: "u64 \<Rightarrow> u8 list \<Rightarrow> int \<Rightarrow> int \<Rightarrow> u64 \<Rightarrow> scan \<Rightarrow> bool" where
  "scan_spec msk p lim i fp (Return k) \<longleftrightarrow>
     i \<le> k \<and> k < lim \<and> cut_at msk fp p i k \<and> (\<forall>j. i \<le> j \<and> j < k \<longrightarrow> \<not> cut_at msk fp p i j)"
| "scan_spec msk p lim i fp (Fall fp' i') \<longleftrightarrow>
     i' = max i lim \<and> fp' = foldl gear_step fp (slice p i lim) \<and>
     (\<forall>j. i \<le> j \<and> j < lim \<longrightarrow> \<not> cut_at msk fp p i j)"

lemma scan1_spec:
  assumes "0 \<le> i" "lim \<le> int (length p)"
  shows "\<exists>r. scan1 msk p lim i fp = Some r \<and> scan_spec msk p lim i fp r"
  using assms
proof (induction msk p lim i fp rule: scan1.induct)
  case (1 msk p lim i fp)
  show ?case
  proof (cases "i < lim")
    case False
    then show ?thesis
      by (auto simp: scan1.simps [of msk p lim i fp])
  next
    case lim: True
    let ?fp = "gear_step fp (p ! nat i)"
    from lim "1.prems" have rd: "rd p i = Some (p ! nat i)" by simp
    show ?thesis
    proof (cases "?fp AND msk = 0")
      case True
      with lim rd "1.prems" show ?thesis
        by (auto simp: scan1.simps [of msk p lim i fp] cut_at_self)
    next
      case False
      with lim rd "1.prems" obtain r where r: "scan1 msk p lim (i + 1) ?fp = Some r"
        and spec: "scan_spec msk p lim (i + 1) ?fp r"
        using "1.IH" [OF lim rd False] by auto
      have step: "\<And>j. i < j \<Longrightarrow> cut_at msk fp p i j = cut_at msk ?fp p (i + 1) j"
        using "1.prems" by (simp add: cut_at_Cons)
      have here: "\<not> cut_at msk fp p i i"
        using False "1.prems" by (simp add: cut_at_self)
      have "scan_spec msk p lim i fp r"
      proof (cases r)
        case (Return k)
        with spec have "i < k" "cut_at msk fp p i k" "k < lim"
          by (auto simp: step)
        moreover have "\<not> cut_at msk fp p i j" if "i \<le> j" "j < k" for j
          using that spec here step Return by (cases "j = i") auto
        ultimately show ?thesis using Return by auto
      next
        case (Fall fp' i')
        have "\<not> cut_at msk fp p i j" if "i \<le> j" "j < lim" for j
          using that spec here step Fall by (cases "j = i") auto
        with Fall spec lim "1.prems" show ?thesis
          by (auto simp: slice_Cons)
      qed
      with r rd False lim show ?thesis
        by (simp add: scan1.simps [of msk p lim i fp])
    qed
  qed
qed

text \<open>
  Two bytes per step is one byte per step: the doubled table and the doubled mask make up for the
  shift that the first half of the step leaves out.
\<close>

fun double_index :: "scan \<Rightarrow> scan" where
  "double_index (Return k) = Return k"
| "double_index (Fall fp i) = Fall fp (i * 2)"

definition lear_ok :: "u64 list \<Rightarrow> bool" where
  "lear_ok lear \<longleftrightarrow> lear = map (push_bit 1) GEARv2"

lemma length_GEARv2 [simp]: "length GEARv2 = 256"
  by (simp add: GEARv2_def)

lemma unat_u8_lt [simp]: "unat (b :: u8) < 256"
  using unsigned_less [of b] by simp

lemma two_byte_first: "lear_ok lear \<Longrightarrow> push_bit 2 fp + lear ! unat (b :: u8) = push_bit 1 (gear_step fp b)"
  by (simp add: lear_ok_def gear_step_def push_bit_eq_mult algebra_simps)

lemma two_byte_second: "push_bit 1 fp + GEARv2 ! unat b = gear_step fp b"
  by (simp add: gear_step_def)

lemma scan2_eq_scan1:
  assumes "lear_ok lear" "\<not> bit msk 63" "mls = push_bit 1 msk"
  shows "map_option double_index (scan2 lear mls msk p lim i fp) = scan1 msk p (lim * 2) (i * 2) fp"
  using assms
proof (induction lear mls msk p lim i fp rule: scan2.induct)
  case (1 lear mls msk p lim i fp)
  note unfold1 = scan1.simps [of msk p "lim * 2"] and unfold2 = scan2.simps [of lear mls msk p lim i fp]
  show ?case
  proof (cases "i < lim")
    case False
    then show ?thesis by (simp add: unfold1 unfold2)
  next
    case lim: True
    show ?thesis
    proof (cases "rd p (i * 2)")
      case None
      with lim show ?thesis by (simp add: unfold1 [of "i * 2"] unfold2)
    next
      case (Some b0)
      let ?fp1 = "gear_step fp b0"
      have test: "push_bit 1 ?fp1 AND mls = 0 \<longleftrightarrow> ?fp1 AND msk = 0"
        using shifted_mask_test [of msk ?fp1] "1.prems" by simp
      have first: "push_bit 2 fp + lear ! unat b0 = push_bit 1 ?fp1"
        using "1.prems" by (simp add: two_byte_first)
      show ?thesis
      proof (cases "?fp1 AND msk = 0")
        case True
        with lim Some test first show ?thesis
          by (simp add: unfold1 [of "i * 2"] unfold2 Let_def)
      next
        case hit: False
        have one: "scan1 msk p (lim * 2) (i * 2) fp = scan1 msk p (lim * 2) (i * 2 + 1) ?fp1"
          using lim Some hit by (simp add: unfold1 [of "i * 2"])
        show ?thesis
        proof (cases "rd p (i * 2 + 1)")
          case None
          with lim Some test first hit one show ?thesis
            by (simp add: unfold1 [of "i * 2 + 1"] unfold2 Let_def)
        next
          case Some1: (Some b1)
          have idx: "i * 2 + 1 + 1 = (i + 1) * 2" by simp
          have second: "push_bit 1 ?fp1 + GEARv2 ! unat b1 = gear_step ?fp1 b1"
            by (rule two_byte_second)
          have "scan2 lear mls msk p lim i fp =
             (if gear_step ?fp1 b1 AND msk = 0 then Some (Return (i * 2 + 1))
              else scan2 lear mls msk p lim (i + 1) (gear_step ?fp1 b1))"
            using lim Some Some1 test first second hit
            by (simp only: unfold2 Let_def option.case if_True if_False)
          moreover have "scan1 msk p (lim * 2) (i * 2) fp =
             (if gear_step ?fp1 b1 AND msk = 0 then Some (Return (i * 2 + 1))
              else scan1 msk p (lim * 2) ((i + 1) * 2) (gear_step ?fp1 b1))"
            unfolding one unfold1 [of "i * 2 + 1"] idx using lim Some1 by simp
          ultimately show ?thesis
            using "1.IH" [OF lim Some first [symmetric] _ Some1 second [symmetric]] test hit "1.prems"
            by (cases "gear_step ?fp1 b1 AND msk = 0") simp_all
        qed
      qed
    qed
  qed
qed

section \<open>The fingerprint forgets old bytes\<close>

lemma foldl_gear_step: "foldl gear_step fp bs = push_bit (length bs) fp + gear_hash bs"
proof (induction bs rule: rev_induct)
  case Nil
  show ?case by (simp add: gear_hash_def)
next
  case (snoc b bs)
  have "foldl gear_step fp (bs @ [b]) = push_bit 1 (push_bit (length bs) fp + gear_hash bs) + GEARv2 ! unat b"
    by (simp only: foldl_append foldl.simps snoc.IH gear_step_def)
  also have "\<dots> = push_bit (length (bs @ [b])) fp + (push_bit 1 (gear_hash bs) + GEARv2 ! unat b)"
    by (simp add: push_bit_add add.commute)
  also have "push_bit 1 (gear_hash bs) + GEARv2 ! unat b = gear_hash (bs @ [b])"
    by (simp add: gear_hash_def gear_step_def)
  finally show ?case .
qed

lemma gear_hash_append: "gear_hash (xs @ ys) = push_bit (length ys) (gear_hash xs) + gear_hash ys"
  using foldl_gear_step [of "gear_hash xs" ys] by (simp add: gear_hash_def)

text \<open>
  Content-defined locality: whether position \<open>k\<close> is a cut point only depends on the 64
  bytes up to \<open>k\<close>, wherever the scan started and whatever came before, so equal windows in two
  different buffers (at different positions) give the same decision.
\<close>

theorem gear_cut_depends_on_window:
  assumes "0 \<le> i" "i \<le> k - 63" "0 \<le> i'" "i' \<le> k' - 63"
    and "slice p (k - 63) (k + 1) = slice q (k' - 63) (k' + 1)"
  shows "cut_at msk fp p i k = cut_at msk fp' q i' k'"
proof -
  have window: "foldl gear_step fp (slice p i (k + 1)) = gear_hash (slice p (k - 63) (k + 1))"
    if "0 \<le> i" "i \<le> k - 63" for p fp i k
  proof -
    have "slice p i (k + 1) = slice p i (k - 63) @ slice p (k - 63) (k + 1)"
      using that by (intro slice_append) auto
    moreover have "length (slice p (k - 63) (k + 1)) = 64"
      using that by simp
    ultimately show ?thesis
      using push_bit_word_beyond [where 'a = 64]
      by (simp add: foldl_gear_step gear_hash_append)
  qed
  show ?thesis
    using assms window [of i k fp p] window [of i' k' fp' q] by (simp add: cut_at_def)
qed

section \<open>Cut points of the chunkers\<close>

definition globals_ok :: "fastcdc_globals \<Rightarrow> bool" where
  "globals_ok g \<longleftrightarrow> uint (MinSize g) \<le> uint (MaxSize g) \<and> uint (MaxSize g) < 2 ^ 31"

lemma scan_spec_first_hit:
  assumes "scan_spec msk p n i 0 r" "i \<le> n"
  shows "first_hit (cut_at msk 0 p i) i n (case r of Return k \<Rightarrow> k | Fall _ _ \<Rightarrow> n)"
  using assms by (cases r) (auto simp: first_hit_def)

text \<open>
  \<open>cdc_origin_64\<close> on a buffer of at least \<open>n\<close> bytes never reads outside it. A short
  input is one chunk; otherwise the result is the first position at or after \<open>MinSize\<close> where the Gear
  fingerprint of the bytes since \<open>MinSize\<close> vanishes under the 8 KB mask, and \<open>min n MaxSize\<close> if
  there is no such position.
\<close>

theorem cdc_origin_first_cut:
  assumes "globals_ok g" "0 \<le> n" "n < 2 ^ 31" "n \<le> int (length p)"
  shows "\<exists>k. cdc_origin_64 g p n = Some k \<and>
    (if n \<le> uint (MinSize g) then k = n
     else first_hit (cut_at FING_GEAR_08KB_64 0 p (uint (MinSize g))) (uint (MinSize g))
            (min n (uint (MaxSize g))) k)"
proof (cases "n \<le> uint (MinSize g)")
  case True
  with assms show ?thesis
    by (simp add: cdc_origin_64_def word_le_def)
next
  case False
  let ?m = "uint (MinSize g)" and ?n = "min n (uint (MaxSize g))"
  have sint: "sint (MinSize g) = ?m" "sint (MaxSize g) = uint (MaxSize g)"
    using assms by (auto simp: globals_ok_def intro!: sint_eq_uint_small)
  have n: "(if to_u32 n > MaxSize g then sint (MaxSize g) else n) = ?n"
    using assms sint by (simp add: word_less_def)
  obtain r where r: "scan1 FING_GEAR_08KB_64 p ?n ?m 0 = Some r"
    and "scan_spec FING_GEAR_08KB_64 p ?n ?m 0 r"
    using scan1_spec [of ?m ?n p FING_GEAR_08KB_64 0] assms by force
  then have "first_hit (cut_at FING_GEAR_08KB_64 0 p ?m) ?m ?n (case r of Return k \<Rightarrow> k | Fall _ _ \<Rightarrow> ?n)"
    using False assms by (intro scan_spec_first_hit) (auto simp: globals_ok_def)
  moreover have "cdc_origin_64 g p n = Some (case r of Return k \<Rightarrow> k | Fall _ _ \<Rightarrow> ?n)"
    using False assms r n sint by (simp add: cdc_origin_64_def word_le_def Let_def split: scan.split)
  ultimately show ?thesis
    using False by auto
qed

text \<open>A scan that resumes at \<open>m\<close> with the fingerprint of \<open>p[i..m)\<close> decides as one that started at \<open>i\<close>.\<close>

lemma cut_at_resume:
  assumes "0 \<le> i" "i \<le> m" "m \<le> j + 1"
  shows "cut_at msk (foldl gear_step 0 (slice p i m)) p m j = cut_at msk 0 p i j"
  using slice_append [of i m "j + 1" p] assms by (simp add: cut_at_def)

definition norm_cut :: "u8 list \<Rightarrow> int \<Rightarrow> bool" where
  "norm_cut p j \<longleftrightarrow> cut_at (if j < 8192 then FING_GEAR_32KB_64 else FING_GEAR_02KB_64) 0 p 6144 j"

lemma normalized_scans:
  assumes "6144 < n" "n \<le> int (length p)"
  shows "\<exists>r. scan1 FING_GEAR_32KB_64 p (min n 8192) 6144 0 = Some r \<and>
    (case r of
       Return k \<Rightarrow> k < n \<and> first_hit (norm_cut p) 6144 n k
     | Fall fp i \<Rightarrow> (\<exists>r'. scan1 FING_GEAR_02KB_64 p n i fp = Some r' \<and>
         first_hit (norm_cut p) 6144 n (case r' of Return k \<Rightarrow> k | Fall _ _ \<Rightarrow> n)))"
proof -
  let ?mid = "min n 8192"
  obtain r where r: "scan1 FING_GEAR_32KB_64 p ?mid 6144 0 = Some r"
    and spec: "scan_spec FING_GEAR_32KB_64 p ?mid 6144 0 r"
    using scan1_spec [of 6144 ?mid p FING_GEAR_32KB_64 0] assms by force
  show ?thesis
  proof (cases r)
    case (Return k)
    with spec have "first_hit (norm_cut p) 6144 n k" "k < n"
      by (auto simp: first_hit_def norm_cut_def)
    with r Return show ?thesis by simp
  next
    case (Fall fp i)
    with spec assms have i: "i = ?mid" and fp: "fp = foldl gear_step 0 (slice p 6144 ?mid)"
      and low: "\<And>j. 6144 \<le> j \<Longrightarrow> j < ?mid \<Longrightarrow> \<not> norm_cut p j"
      by (auto simp: norm_cut_def)
    obtain r' where r': "scan1 FING_GEAR_02KB_64 p n i fp = Some r'"
      and spec': "scan_spec FING_GEAR_02KB_64 p n i fp r'"
      using scan1_spec [of i n p FING_GEAR_02KB_64 fp] assms i by force
    have high: "\<And>j. ?mid \<le> j \<Longrightarrow> j < n \<Longrightarrow> cut_at FING_GEAR_02KB_64 fp p i j = norm_cut p j"
      using assms fp i by (auto simp: norm_cut_def cut_at_resume)
    have "first_hit (norm_cut p) 6144 n (case r' of Return k \<Rightarrow> k | Fall _ _ \<Rightarrow> n)"
    proof (cases r')
      case (Return k)
      with spec' high i have "?mid \<le> k" "k < n" "norm_cut p k"
        and "\<And>j. ?mid \<le> j \<Longrightarrow> j < k \<Longrightarrow> \<not> norm_cut p j"
        by auto
      with low assms Return show ?thesis
        by (auto simp: first_hit_def not_less) (metis min_less_iff_conj not_less)
    next
      case (Fall fp'' i'')
      with spec' high i have "\<And>j. ?mid \<le> j \<Longrightarrow> j < n \<Longrightarrow> \<not> norm_cut p j"
        by auto
      with low assms Fall show ?thesis
        by (auto simp: first_hit_def not_less) (metis min_less_iff_conj not_less)
    qed
    with r r' Fall show ?thesis by auto
  qed
qed

lemma normalized_chunking_spec:
  assumes "uint (MaxSize g) < 2 ^ 31" "n \<le> uint (MaxSize g) \<or> 8192 \<le> uint (MaxSize g)"
    and "0 \<le> n" "n < 2 ^ 31" "n \<le> int (length p)"
  shows "\<exists>k. normalized_chunking_64 g p n = Some (g\<lparr>MinSize := 6144\<rparr>, k) \<and>
    (if n \<le> 6144 then k = n else first_hit (norm_cut p) 6144 (min n (uint (MaxSize g))) k)"
proof (cases "n \<le> 6144")
  case True
  with assms show ?thesis
    by (simp add: normalized_chunking_64_def word_le_def)
next
  case False
  let ?n = "min n (uint (MaxSize g))"
  have clamp: "norm_clamp (g\<lparr>MinSize := 6144\<rparr>) n 8192 = (?n, min ?n 8192)"
    using assms sint_eq_uint_small [of "MaxSize g"] by (auto simp: norm_clamp_def word_less_def)
  have eq: "normalized_chunking_64 g p n =
     (case scan1 FING_GEAR_32KB_64 p (min ?n 8192) 6144 0 of
        None \<Rightarrow> None
      | Some (Return k) \<Rightarrow> Some (g\<lparr>MinSize := 6144\<rparr>, k)
      | Some (Fall fp i) \<Rightarrow>
          (case scan1 FING_GEAR_02KB_64 p ?n i fp of
             None \<Rightarrow> None
           | Some (Return k) \<Rightarrow> Some (g\<lparr>MinSize := 6144\<rparr>, k)
           | Some (Fall _ _) \<Rightarrow> Some (g\<lparr>MinSize := 6144\<rparr>, ?n)))"
    using False assms by (simp add: normalized_chunking_64_def word_le_def Let_def clamp)
  from False assms have "6144 < ?n" "?n \<le> int (length p)" by auto
  from normalized_scans [OF this] obtain r where
    r: "scan1 FING_GEAR_32KB_64 p (min ?n 8192) 6144 0 = Some r"
    and spec: "case r of Return k \<Rightarrow> k < ?n \<and> first_hit (norm_cut p) 6144 ?n k
     | Fall fp i \<Rightarrow> (\<exists>r'. scan1 FING_GEAR_02KB_64 p ?n i fp = Some r' \<and>
         first_hit (norm_cut p) 6144 ?n (case r' of Return k \<Rightarrow> k | Fall _ _ \<Rightarrow> ?n))"
    by blast
  show ?thesis
  proof (cases r)
    case (Return k)
    with eq r spec False show ?thesis by auto
  next
    case (Fall fp i)
    with spec obtain r' where "scan1 FING_GEAR_02KB_64 p ?n i fp = Some r'"
      "first_hit (norm_cut p) 6144 ?n (case r' of Return k \<Rightarrow> k | Fall _ _ \<Rightarrow> ?n)" by auto
    with eq r Fall False show ?thesis by (cases r') auto
  qed
qed


text \<open>
  With \<open>MaxSize\<close> below 8 KB and a longer input the first loop still runs up to 8 KB:
  \<open>normalized_chunking_64\<close> then reads past the end of the buffer it was given.
\<close>

theorem normalized_chunking_overrun:
  "normalized_chunking_64 (globals0\<lparr>MaxSize := 6145\<rparr>) (replicate 6146 1) 6146 = None"
proof -
  have rd: "rd (replicate 6146 (1 :: u8)) 6144 = Some 1" "rd (replicate 6146 (1 :: u8)) 6145 = Some 1"
    "rd (replicate 6146 (1 :: u8)) 6146 = None"
    by (simp_all add: rd_def)
  have gear: "GEARv2 ! Suc 0 = 0x626790b237a4ab52"
    by (simp add: GEARv2_def)
  have "gear_step 0 1 AND FING_GEAR_32KB_64 \<noteq> 0" "gear_step (gear_step 0 1) 1 AND FING_GEAR_32KB_64 \<noteq> 0"
    by (simp_all add: gear_step_def gear FING_GEAR_32KB_64_def)
  then have "scan1 FING_GEAR_32KB_64 (replicate 6146 1) 8192 6144 0 = None"
    by (simp add: scan1.simps [of _ _ 8192 6144] scan1.simps [of _ _ 8192 6145]
        scan1.simps [of _ _ 8192 6146] rd)
  then show ?thesis
    by (simp add: normalized_chunking_64_def norm_clamp_def globals0_def Let_def to_u32_def)
qed

section \<open>Rolling two bytes at a time\<close>

lemma masks_top_clear:
  "\<not> bit FING_GEAR_08KB_64 63" "\<not> bit FING_GEAR_02KB_64 63" "\<not> bit FING_GEAR_32KB_64 63"
  by (simp_all add: FING_GEAR_08KB_64_def FING_GEAR_02KB_64_def FING_GEAR_32KB_64_def)

lemma masks_ls:
  "FING_GEAR_08KB_ls_64 = push_bit 1 FING_GEAR_08KB_64"
  "FING_GEAR_02KB_ls_64 = push_bit 1 FING_GEAR_02KB_64"
  "FING_GEAR_32KB_ls_64 = push_bit 1 FING_GEAR_32KB_64"
  by (simp_all only: FING_GEAR_08KB_64_def FING_GEAR_02KB_64_def FING_GEAR_32KB_64_def
      FING_GEAR_08KB_ls_64_def FING_GEAR_02KB_ls_64_def FING_GEAR_32KB_ls_64_def)

lemmas scan2_08KB = scan2_eq_scan1 [OF _ masks_top_clear(1) masks_ls(1)]
lemmas scan2_02KB = scan2_eq_scan1 [OF _ masks_top_clear(2) masks_ls(2)]
lemmas scan2_32KB = scan2_eq_scan1 [OF _ masks_top_clear(3) masks_ls(3)]

lemma rolling_eq_origin:
  assumes "lear_ok (LEARv2 g)" "globals_ok g" "2 * uint (MinSize_divide_by_2 g) = uint (MinSize g)"
    and "even n" "even (uint (MaxSize g))"
  shows "rolling_data_2byes_64 g p n = cdc_origin_64 g p n"
proof -
  define m where "m = (if to_u32 n > MaxSize g then sint (MaxSize g) else n)"
  have sint: "sint (MaxSize g) = uint (MaxSize g)" "sint (MinSize g) = uint (MinSize g)"
    "sint (MinSize_divide_by_2 g) = uint (MinSize_divide_by_2 g)"
    using assms uint_ge_0 [of "MinSize_divide_by_2 g"]
    by (auto simp: globals_ok_def intro!: sint_eq_uint_small)
  have "m div 2 * 2 = m" using assms sint by (auto simp: m_def)
  moreover have "sint (MinSize_divide_by_2 g) * 2 = sint (MinSize g)"
    using sint assms(3) by simp
  ultimately have "map_option double_index
      (scan2 (LEARv2 g) FING_GEAR_08KB_ls_64 FING_GEAR_08KB_64 p (m div 2) (sint (MinSize_divide_by_2 g)) 0) =
    scan1 FING_GEAR_08KB_64 p m (sint (MinSize g)) 0"
    using scan2_08KB [OF assms(1), of p "m div 2" "sint (MinSize_divide_by_2 g)" 0] by simp
  then show ?thesis
    unfolding rolling_data_2byes_64_def cdc_origin_64_def Let_def m_def [symmetric]
    by (auto split: option.splits scan.splits)
qed

text \<open>
  After \<open>fastCDC_init\<close> the two-byte routine \<open>rolling_data_2byes_64\<close> returns exactly the
  cut points of \<open>cdc_origin_64\<close> on every buffer, for every even length (with an odd length the
  two-byte loop leaves the last byte out).
\<close>

theorem rolling_2bytes_equiv:
  assumes "even n"
  shows "rolling_data_2byes_64 (fastCDC_init MD5 g) p n = cdc_origin_64 (fastCDC_init MD5 g) p n"
  by (rule rolling_eq_origin)
    (simp_all add: fastCDC_init_def lear_ok_def globals_ok_def Let_def assms)

theorem rolling_2bytes_equiv_witness:
  "rolling_data_2byes_64 (fastCDC_init (\<lambda>_. replicate 16 0) globals0) [7, 8] 2 =
   cdc_origin_64 (fastCDC_init (\<lambda>_. replicate 16 0) globals0) [7, 8] 2"
  by (rule rolling_2bytes_equiv) simp

lemma norm_clamp_even:
  assumes "even n" "even Mid" "norm_clamp g n Mid = (m, mid)"
    and "even (uint (MaxSize g))" "uint (MaxSize g) < 2 ^ 31"
  shows "m div 2 * 2 = m \<and> mid div 2 * 2 = mid"
  using assms sint_eq_uint_small [of "MaxSize g"]
  by (auto simp: norm_clamp_def split: if_splits)

text \<open>
  Property C20. The normalized chunker that rolls two bytes at a time agrees with
  \<open>normalized_chunking_64\<close>, in its result and in the globals it leaves, on even lengths and an even
  \<open>MaxSize\<close>.
\<close>

theorem normalized_2bytes_equiv:
  assumes "lear_ok (LEARv2 g)" "even n" "even (uint (MaxSize g))" "uint (MaxSize g) < 2 ^ 31"
  shows "normalized_chunking_2byes_64 g p n = normalized_chunking_64 g p n"
proof -
  let ?g = "g\<lparr>MinSize := 6144\<rparr>"
  obtain m mid where cl: "norm_clamp ?g n 8192 = (m, mid)" by fastforce
  with assms have ev: "m div 2 * 2 = m" "mid div 2 * 2 = mid"
    using norm_clamp_even [of n 8192 ?g m mid] by auto
  have lear: "lear_ok (LEARv2 g)" by (rule assms(1))
  have s1: "scan1 FING_GEAR_32KB_64 p mid 6144 0 =
      map_option double_index
        (scan2 (LEARv2 g) FING_GEAR_32KB_ls_64 FING_GEAR_32KB_64 p (mid div 2) 3072 0)"
    using scan2_32KB [OF lear, of p "mid div 2" 3072 0] ev by simp
  have s2: "scan1 FING_GEAR_02KB_64 p m (i * 2) fp =
      map_option double_index
        (scan2 (LEARv2 g) FING_GEAR_02KB_ls_64 FING_GEAR_02KB_64 p (m div 2) i fp)" for i fp
    using scan2_02KB [OF lear, of p "m div 2" i fp] ev by simp
  show ?thesis
    unfolding normalized_chunking_64_def normalized_chunking_2byes_64_def
    by (auto simp: Let_def cl s1 s2 split: option.splits scan.splits)
qed

theorem normalized_2bytes_equiv_witness:
  "normalized_chunking_2byes_64 (fastCDC_init (\<lambda>_. replicate 16 0) globals0) [7, 8] 2 =
   normalized_chunking_64 (fastCDC_init (\<lambda>_. replicate 16 0) globals0) [7, 8] 2"
  by (rule normalized_2bytes_equiv)
    (simp_all add: fastCDC_init_def lear_ok_def Let_def)

section \<open>FastCDCChunker\<close>

record FastCDCChunker =
  m_min_size :: u32
  m_avg_size :: u32
  m_max_size :: u32

text \<open>The constructor: initialises the library once per process, then sets its globals.\<close>

definition new_FastCDCChunker ::
  "(u8 list \<Rightarrow> u8 list) \<Rightarrow> u32 \<Rightarrow> u32 \<Rightarrow> u32 \<Rightarrow> bool \<times> fastcdc_globals \<Rightarrow>
   FastCDCChunker \<times> (bool \<times> fastcdc_globals)" where
  "new_FastCDCChunker MD5 min_size avg_size max_size st =
     (let (s_initialized, g) = st;
          g = (if \<not> s_initialized then fastCDC_init MD5 g else g)
      in (\<lparr>m_min_size = min_size, m_avg_size = avg_size, m_max_size = max_size\<rparr>,
          True, g\<lparr>MinSize := min_size, MaxSize := max_size, expectCS := avg_size\<rparr>))"

text \<open>
  \<open>next_chunk\<close>: \<open>data\<close> is \<open>None\<close> for a null pointer; \<open>len\<close> is the \<open>size_t\<close> argument. The outer
  \<open>None\<close> of the result is an out-of-bounds read.
\<close>

definition next_chunk ::
  "FastCDCChunker \<Rightarrow> fastcdc_globals \<Rightarrow> u8 list option \<Rightarrow> nat \<Rightarrow> (fastcdc_globals \<times> nat) option" where
  "next_chunk c g data len =
     (case data of
        None \<Rightarrow> Some (g, 0)
      | Some p \<Rightarrow>
          if len = 0 then Some (g, 0)
          else
            let actual_length = (if len > unat (m_max_size c) then unat (m_max_size c) else len);
                actual_length = (if actual_length > 2147483647 then 2147483647 else actual_length)
            in case normalized_chunking_64 g p (int actual_length) of
                 None \<Rightarrow> None
               | Some (g', chunk_size) \<Rightarrow>
                   Some (g',
                     if chunk_size \<le> 0 then (if unat (m_min_size c) < len then unat (m_min_size c) else len)
                     else if nat chunk_size < unat (m_min_size c)
                     then (if len < unat (m_min_size c) then len else unat (m_min_size c))
                     else if nat chunk_size > unat (m_max_size c) then unat (m_max_size c)
                     else nat chunk_size))"

lemma next_chunk_laws:
  assumes "MaxSize g = m_max_size c" "0 < unat (m_max_size c)" "unat (m_max_size c) < 2 ^ 31"
    and "unat (m_min_size c) \<le> unat (m_max_size c)" "0 < len" "len \<le> length p"
  shows "\<exists>g' k. next_chunk c g (Some p) len = Some (g', k) \<and> MaxSize g' = m_max_size c \<and>
    0 < k \<and> k \<le> len \<and> k \<le> unat (m_max_size c) \<and> (k < len \<longrightarrow> unat (m_min_size c) \<le> k)"
proof -
  let ?max = "unat (m_max_size c)"
  define n where "n = min len ?max"
  have n: "0 < n" "n \<le> len" "n \<le> ?max" "n \<le> length p" "n < 2 ^ 31"
    using assms by (auto simp: n_def)
  have "uint (MaxSize g) = int ?max" using assms(1) by simp
  then have max: "uint (MaxSize g) < 2 ^ 31" "int n \<le> uint (MaxSize g)"
    using assms(3) n(3) by (simp_all del: of_nat_unat)
  obtain k where k: "normalized_chunking_64 g p (int n) = Some (g\<lparr>MinSize := 6144\<rparr>, k)"
    and spec: "if int n \<le> 6144 then k = int n
      else first_hit (norm_cut p) 6144 (min (int n) (uint (MaxSize g))) k"
    using normalized_chunking_spec [OF max(1) disjI1 [OF max(2)], of p] n by auto
  then have kn: "0 < k" "k \<le> int n"
    using n by (auto simp: first_hit_def split: if_splits)
  have len: "(if len > ?max then ?max else len) = n" "\<not> n > 2147483647"
    using n by (auto simp: n_def)
  show ?thesis
    using k kn n assms len by (auto simp: next_chunk_def Let_def n_def split: if_splits)
qed



text \<open>
  The configured minimum does not lower the real one: with the default parameters (2 KB,
  8 KB, 64 KB) every chunk that does not end the buffer has at least 6 KB, because
  \<open>normalized_chunking_64\<close> overwrites the \<open>MinSize\<close> the constructor set.
\<close>

theorem next_chunk_real_minimum:
  assumes "MaxSize g = 65536" "0 < len" "len \<le> length p"
  shows "\<exists>g' k. next_chunk \<lparr>m_min_size = 2048, m_avg_size = 8192, m_max_size = 65536\<rparr> g (Some p) len =
      Some (g', k) \<and> MinSize g' = 6144 \<and> (6144 \<le> k \<or> k = len)"
proof -
  define n where "n = min len 65536"
  have n: "int n \<le> int (length p)" "0 < n" "int n < 2 ^ 31" "int n \<le> uint (MaxSize g)"
    using assms by (auto simp: n_def)
  obtain j where j: "normalized_chunking_64 g p (int n) = Some (g\<lparr>MinSize := 6144\<rparr>, j)"
    and spec: "if int n \<le> 6144 then j = int n
      else first_hit (norm_cut p) 6144 (min (int n) (uint (MaxSize g))) j"
    using normalized_chunking_spec [OF _ disjI1 [OF n(4)], of p] n(1-3) assms(1) by auto
  have len: "(if len > 65536 then 65536 else len) = n" "\<not> n > 2147483647"
    by (auto simp: n_def)
  show ?thesis
  proof (cases "int n \<le> 6144")
    case True
    with spec j assms len n show ?thesis
      by (auto simp: next_chunk_def Let_def n_def split: if_splits)
  next
    case False
    with spec have "6144 \<le> j" by (simp add: first_hit_def)
    with j assms len n show ?thesis
      by (auto simp: next_chunk_def Let_def n_def split: if_splits)
  qed
qed

theorem next_chunk_real_minimum_witness:
  "\<exists>g' k. next_chunk \<lparr>m_min_size = 2048, m_avg_size = 8192, m_max_size = 65536\<rparr>
      (globals0\<lparr>MaxSize := 65536\<rparr>) (Some (replicate 9000 1)) 9000 = Some (g', k) \<and>
    MinSize g' = 6144 \<and> (6144 \<le> k \<or> k = 9000)"
  by (rule next_chunk_real_minimum) simp_all

section \<open>Witnesses\<close>

theorem cdc_origin_first_cut_witness:
  "\<exists>k. cdc_origin_64 (globals0\<lparr>MinSize := 1, MaxSize := 4\<rparr>) [1, 2, 3] 3 = Some k \<and>
    first_hit (cut_at FING_GEAR_08KB_64 0 [1, 2, 3] 1) 1 3 k"
  using cdc_origin_first_cut [of "globals0\<lparr>MinSize := 1, MaxSize := 4\<rparr>" 3 "[1, 2, 3]"]
  by (simp add: globals_ok_def)


theorem gear_cut_depends_on_window_witness:
  "cut_at FING_GEAR_08KB_64 0 (replicate 70 1) 0 64 = cut_at FING_GEAR_08KB_64 5 (replicate 80 1) 3 72"
proof (rule gear_cut_depends_on_window)
  show "slice (replicate 70 1) (64 - 63) (64 + 1) = slice (replicate 80 1) (72 - 63) (72 + 1)"
    by (simp add: slice_def upt_rec)
qed simp_all

end
