(* ===== verification/Index_Lists.thy ===== *)
theory Index_Lists
  imports Prelude
begin

text \<open>
  Doubly linked lists threaded through arrays by index, the structure that the LRU lists, the
  collision lists of the hash table and the nhit ring buffer share. The theory states the shape
  (\<open>dll\<close>), the effect of linking a node at the front and of unlinking a node, and, as the locale
  \<open>link_store\<close>, the interface through which a component's metadata array provides such links.
\<close>

section \<open>Segments and lists\<close>

definition hd_or :: "'i \<Rightarrow> 'i list \<Rightarrow> 'i" where
  "hd_or e xs = (case xs of [] \<Rightarrow> e | x # _ \<Rightarrow> x)"

definition last_or :: "'i \<Rightarrow> 'i list \<Rightarrow> 'i" where
  "last_or e xs = (if xs = [] then e else last xs)"

lemma hd_or_simps [simp]: "hd_or e [] = e" "hd_or e (x # xs) = x"
  by (simp_all add: hd_or_def)

lemma last_or_simps [simp]: "last_or e [] = e" "last_or e (x # xs) = last_or x xs" "last_or e (xs @ [x]) = x"
  by (simp_all add: last_or_def)

lemma hd_or_append [simp]: "hd_or e (xs @ ys) = hd_or (hd_or e ys) xs"
  by (cases xs) simp_all

lemma last_or_append [simp]: "last_or e (xs @ ys) = last_or (last_or e xs) ys"
  by (simp add: last_or_def)

lemma hd_or_in: "xs \<noteq> [] \<Longrightarrow> hd_or e xs \<in> set xs"
  by (cases xs) simp_all

lemma last_or_in: "xs \<noteq> [] \<Longrightarrow> last_or e xs \<in> set xs"
  by (simp add: last_or_def)

lemma hd_or_eq_end [simp]: "e \<notin> set xs \<Longrightarrow> hd_or e xs = e \<longleftrightarrow> xs = []"
  by (cases xs) auto

lemma last_or_eq_end [simp]: "e \<notin> set xs \<Longrightarrow> last_or e xs = e \<longleftrightarrow> xs = []"
  by (metis last_or_def last_in_set)

text \<open>
  \<open>dseg n p b xs a\<close>: following \<open>n\<close> visits exactly \<open>xs\<close> and then \<open>a\<close>; following \<open>p\<close> visits
  \<open>xs\<close> backwards and then \<open>b\<close>.
\<close>

fun dseg :: "('i \<Rightarrow> 'i) \<Rightarrow> ('i \<Rightarrow> 'i) \<Rightarrow> 'i \<Rightarrow> 'i list \<Rightarrow> 'i \<Rightarrow> bool" where
  "dseg n p b [] a = True"
| "dseg n p b (x # xs) a = (p x = b \<and> n x = hd_or a xs \<and> dseg n p x xs a)"

lemma dseg_append:
  "dseg n p b (xs @ ys) a \<longleftrightarrow> dseg n p b xs (hd_or a ys) \<and> dseg n p (last_or b xs) ys a"
  by (induction xs arbitrary: b) auto

lemma dseg_frame:
  assumes "\<And>x. x \<in> set xs \<Longrightarrow> n x = n' x" "\<And>x. x \<in> set xs \<Longrightarrow> p x = p' x"
  shows "dseg n p b xs a = dseg n' p' b xs a"
  using assms by (induction xs arbitrary: b) auto

text \<open>The outermost links of a segment can be redirected.\<close>

lemma dseg_set_last:
  assumes "dseg n p b xs a" "distinct xs"
    and "\<And>x. x \<in> set xs \<Longrightarrow> p' x = p x" "\<And>x. x \<in> set xs \<Longrightarrow> x \<noteq> last_or a xs \<Longrightarrow> n' x = n x"
    and "xs \<noteq> [] \<Longrightarrow> n' (last_or a xs) = a'"
  shows "dseg n' p' b xs a'"
  using assms
proof (induction xs arbitrary: b rule: rev_induct)
  case Nil
  show ?case by simp
next
  case (snoc x xs)
  then have "dseg n p b xs x" by (simp add: dseg_append)
  then have "dseg n' p' b xs x"
    using snoc.prems by (subst dseg_frame [of xs n' n p' p]) auto
  with snoc.prems show ?case by (auto simp: dseg_append)
qed

lemma dseg_set_first:
  assumes "dseg n p b xs a" "distinct xs"
    and "\<And>x. x \<in> set xs \<Longrightarrow> n' x = n x" "\<And>x. x \<in> set xs \<Longrightarrow> x \<noteq> hd_or b xs \<Longrightarrow> p' x = p x"
    and "xs \<noteq> [] \<Longrightarrow> p' (hd_or b xs) = b'"
  shows "dseg n' p' b' xs a"
proof (cases xs)
  case Nil
  then show ?thesis by simp
next
  case (Cons x ys)
  with assms have "dseg n' p' x ys a"
    by (subst dseg_frame [of ys n' n p' p]) auto
  with Cons assms show ?thesis by auto
qed

definition dll :: "('i \<Rightarrow> 'i) \<Rightarrow> ('i \<Rightarrow> 'i) \<Rightarrow> 'i \<Rightarrow> 'i list \<Rightarrow> bool" where
  "dll n p e xs \<longleftrightarrow> dseg n p e xs e \<and> distinct xs \<and> e \<notin> set xs"

lemma dll_Nil [simp]: "dll n p e []"
  by (simp add: dll_def)

lemma dll_distinct: "dll n p e xs \<Longrightarrow> distinct xs"
  by (simp add: dll_def)

lemma dll_end: "dll n p e xs \<Longrightarrow> e \<notin> set xs"
  by (simp add: dll_def)

lemma dll_frame:
  assumes "dll n p e xs" "\<And>x. x \<in> set xs \<Longrightarrow> n' x = n x" "\<And>x. x \<in> set xs \<Longrightarrow> p' x = p x"
  shows "dll n' p' e xs"
  using assms dseg_frame [of xs n' n p' p] by (auto simp: dll_def)

lemma dll_links:
  assumes "dll n p e (xs @ x # ys)"
  shows "n x = hd_or e ys" "p x = last_or e xs"
  using assms by (auto simp: dll_def dseg_append)

lemma dll_push:
  assumes "dll n p e xs" "x \<notin> set xs" "x \<noteq> e"
    and "n' x = hd_or e xs" "p' x = e" "xs \<noteq> [] \<Longrightarrow> p' (hd_or e xs) = x"
    and "\<And>y. y \<in> set xs \<Longrightarrow> n' y = n y" "\<And>y. y \<in> set xs \<Longrightarrow> y \<noteq> hd_or e xs \<Longrightarrow> p' y = p y"
  shows "dll n' p' e (x # xs)"
  using assms dseg_set_first [of n p e xs e n' p' x] by (auto simp: dll_def)

lemma dll_unlink:
  assumes "dll n p e (xs @ x # ys)"
    and "xs \<noteq> [] \<Longrightarrow> n' (last_or e xs) = hd_or e ys" "ys \<noteq> [] \<Longrightarrow> p' (hd_or e ys) = last_or e xs"
    and "\<And>y. y \<in> set xs \<union> set ys \<Longrightarrow> y \<noteq> last_or e xs \<Longrightarrow> n' y = n y"
    and "\<And>y. y \<in> set xs \<union> set ys \<Longrightarrow> y \<noteq> hd_or e ys \<Longrightarrow> p' y = p y"
  shows "dll n' p' e (xs @ ys)"
proof -
  from assms(1) have d: "dseg n p e xs x" "dseg n p x ys e" "distinct (xs @ x # ys)" "e \<notin> set (xs @ x # ys)"
    by (auto simp: dll_def dseg_append)
  have "dseg n' p' e xs (hd_or e ys)"
  proof (rule dseg_set_last [OF d(1)])
    show "p' y = p y" if "y \<in> set xs" for y
      using that assms(5) d hd_or_in [of ys e] by (cases "ys = []") auto
    show "n' y = n y" if "y \<in> set xs" "y \<noteq> last_or x xs" for y
      using that assms(4) by (auto simp: last_or_def split: if_splits)
  qed (use assms d in \<open>auto simp: last_or_def\<close>)
  moreover have "dseg n' p' (last_or e xs) ys e"
  proof (rule dseg_set_first [OF d(2)])
    show "n' y = n y" if "y \<in> set ys" for y
      using that assms(4) d last_or_in [of xs e] by (cases "xs = []") auto
    show "p' y = p y" if "y \<in> set ys" "y \<noteq> hd_or x ys" for y
      using that assms(5) by (cases ys) auto
    show "p' (hd_or x ys) = last_or e xs" if "ys \<noteq> []"
      using that assms(3) by (cases ys) auto
  qed (use d in auto)
  ultimately show ?thesis
    using d by (auto simp: dll_def dseg_append)
qed

lemma dll_length_less:
  fixes xs :: "'a::len word list"
  assumes "dll n p e xs"
  shows "length xs < 2 ^ LENGTH('a)"
proof -
  have "length xs = card (set xs)"
    using assms by (simp add: dll_distinct distinct_card)
  also have "\<dots> < card (UNIV :: 'a word set)"
    using dll_end [OF assms] by (intro psubset_card_mono) auto
  finally show ?thesis by (simp add: card_word)
qed

section \<open>The interface of a link array\<close>

text \<open>
  A store with a \<open>next\<close> and a \<open>prev\<close> link per index, which are written independently of each other
  and of the links of other indices. \<open>push_front\<close> and \<open>unlink\<close> are then correct whatever the store.
\<close>

locale link_store =
  fixes nxt :: "'s \<Rightarrow> 'i \<Rightarrow> 'i" and prv :: "'s \<Rightarrow> 'i \<Rightarrow> 'i"
    and set_nxt :: "'i \<Rightarrow> 'i \<Rightarrow> 's \<Rightarrow> 's" and set_prv :: "'i \<Rightarrow> 'i \<Rightarrow> 's \<Rightarrow> 's"
  assumes nxt_set_nxt: "nxt (set_nxt i v s) = (nxt s)(i := v)"
    and prv_set_nxt: "prv (set_nxt i v s) = prv s"
    and nxt_set_prv: "nxt (set_prv i v s) = nxt s"
    and prv_set_prv: "prv (set_prv i v s) = (prv s)(i := v)"
begin

lemmas links = nxt_set_nxt prv_set_nxt nxt_set_prv prv_set_prv

lemma push_front:
  assumes "dll (nxt s) (prv s) e xs" "x \<notin> set xs" "x \<noteq> e" "h = hd_or e xs"
    and "nxt s' = (nxt s)(x := h)" "prv s' = (prv s)(x := e)"
  shows "dll (nxt (if h = e then s' else set_prv h x s')) (prv (if h = e then s' else set_prv h x s')) e (x # xs)"
proof (rule dll_push [OF assms(1-3)])
  have "xs \<noteq> [] \<Longrightarrow> h \<in> set xs" "h = e \<longleftrightarrow> xs = []"
    using assms(1,4) by (auto simp: hd_or_in dll_end)
  then show "xs \<noteq> [] \<Longrightarrow> prv (if h = e then s' else set_prv h x s') (hd_or e xs) = x"
    using assms by (simp add: links)
  show "prv (if h = e then s' else set_prv h x s') x = e"
    using assms \<open>xs \<noteq> [] \<Longrightarrow> h \<in> set xs\<close> \<open>h = e \<longleftrightarrow> xs = []\<close> by (auto simp: links)
qed (use assms in \<open>auto simp: links\<close>)

lemma unlink:
  assumes "dll (nxt s) (prv s) e (xs @ x # ys)" "n = hd_or e ys" "p = last_or e xs"
    and "s1 = (if p = e then s else set_nxt p n s)" "s2 = (if n = e then s1 else set_prv n p s1)"
  shows "dll (nxt s2) (prv s2) e (xs @ ys)"
proof -
  have "p = e \<longleftrightarrow> xs = []" "n = e \<longleftrightarrow> ys = []"
    using assms(1-3) by (auto simp: dll_def)
  with assms show ?thesis
    by (intro dll_unlink [OF assms(1)]) (auto simp: links)
qed

lemma unlink_frame:
  assumes "s1 = (if p = e then s else set_nxt p n s)" "s2 = (if n = e then s1 else set_prv n p s1)"
    and "dll (nxt s) (prv s) e zs" "p \<notin> set zs" "n \<notin> set zs"
  shows "dll (nxt s2) (prv s2) e zs"
  by (rule dll_frame [OF assms(3)]) (use assms in \<open>auto simp: links\<close>)

end

end
