(* ===== verification/OCF_Lru.thy ===== *)
theory OCF_Lru
  imports Index_Lists
begin

text \<open>
  OCF's LRU lists (\<open>ocf/src/ocf_lru.c\<close>). A list is threaded by cache line number through the
  per-line metadata \<open>ocf_lru_meta\<close>; half of it, at the head, is kept marked hot. An assertion
  (\<open>ENV_BUG_ON\<close>) that fails is the result \<open>None\<close>. The theory shows that the list operations
  implement the abstract list operations (insert at the head, remove, move to the head), keep the
  hot half exact, never fail an assertion and never wrap a counter.
\<close>

section \<open>Data\<close>

record ocf_lru_meta =
  lru_prev :: u32
  lru_next :: u32
  lru_hot :: bool

record ocf_lru_list =
  num_nodes :: u32
  head :: u32
  tail :: u32
  num_hot :: u32
  last_hot :: u32
  track_hot :: bool

type_synonym lru_store = "u32 \<Rightarrow> ocf_lru_meta"

definition end_marker :: u32 where
  "end_marker = - 1"

definition OCF_LRU_HOT_RATIO :: u32 where
  "OCF_LRU_HOT_RATIO = 2"

definition set_next :: "u32 \<Rightarrow> u32 \<Rightarrow> lru_store \<Rightarrow> lru_store" where
  "set_next i v m = m(i := (m i)\<lparr>lru_next := v\<rparr>)"

definition set_prev :: "u32 \<Rightarrow> u32 \<Rightarrow> lru_store \<Rightarrow> lru_store" where
  "set_prev i v m = m(i := (m i)\<lparr>lru_prev := v\<rparr>)"

definition set_hot :: "u32 \<Rightarrow> bool \<Rightarrow> lru_store \<Rightarrow> lru_store" where
  "set_hot i v m = m(i := (m i)\<lparr>lru_hot := v\<rparr>)"

section \<open>Operations on one list\<close>

text \<open>Returns the list with its new \<open>last_hot\<close> and the pivot element.\<close>

definition balance_update_last_hot :: "lru_store \<Rightarrow> ocf_lru_list \<Rightarrow> int \<Rightarrow> (ocf_lru_list \<times> u32) option" where
  "balance_update_last_hot m list change = do {
     let last_hot_old = last_hot list;
     last_hot_new \<leftarrow>
       (if change > 0 then do {
          bug_on (change \<noteq> 1);
          if last_hot list = end_marker then Some (head list)
          else do {
            let n = lru_next (m (last_hot list));
            bug_on (n = end_marker);
            Some n
          }
        }
        else if change < 0 then do {
          bug_on (change \<noteq> -1);
          bug_on (last_hot list = end_marker);
          Some (lru_prev (m (last_hot list)))
        }
        else Some (last_hot list));
     let list = list\<lparr>last_hot := last_hot_new\<rparr>;
     if change = 0 then Some (list, end_marker)
     else Some (list, if change > 0 then last_hot list else last_hot_old)
   }"

definition balance_lru_list :: "lru_store \<Rightarrow> ocf_lru_list \<Rightarrow> (lru_store \<times> ocf_lru_list) option" where
  "balance_lru_list m list =
     (let target_hot_count = num_nodes list div OCF_LRU_HOT_RATIO;
          change = sint (target_hot_count - num_hot list)
      in if \<not> track_hot list then Some (m, list)
         else do {
           (list, pivot) \<leftarrow> balance_update_last_hot m (list\<lparr>num_hot := target_hot_count\<rparr>) change;
           Some (if pivot \<noteq> end_marker then set_hot pivot (change \<ge> 0) m else m, list)
         })"

definition add_lru_head_nobalance :: "lru_store \<Rightarrow> ocf_lru_list \<Rightarrow> u32 \<Rightarrow> (lru_store \<times> ocf_lru_list) option" where
  "add_lru_head_nobalance m list collision_index = do {
     bug_on (collision_index = end_marker);
     let m = set_hot collision_index False m;
     if num_nodes list = 0 then
       Some (set_prev collision_index end_marker (set_next collision_index end_marker m),
             list\<lparr>head := collision_index, tail := collision_index, num_nodes := 1\<rparr>)
     else do {
       let curr_head_index = head list;
       bug_on (curr_head_index = end_marker);
       let m = set_next collision_index curr_head_index m;
       let m = set_prev collision_index end_marker m;
       let m = set_prev curr_head_index collision_index m;
       let (m, list) =
         (if track_hot list then
            let m = set_hot collision_index True m;
                list = (if \<not> lru_hot (m curr_head_index) then list\<lparr>last_hot := collision_index\<rparr> else list)
            in (m, list\<lparr>num_hot := num_hot list + 1\<rparr>)
          else (m, list));
       Some (m, list\<lparr>head := collision_index, num_nodes := num_nodes list + 1\<rparr>)
     }
   }"

definition add_lru_head :: "lru_store \<Rightarrow> ocf_lru_list \<Rightarrow> u32 \<Rightarrow> (lru_store \<times> ocf_lru_list) option" where
  "add_lru_head m list collision_index = do {
     (m, list) \<leftarrow> add_lru_head_nobalance m list collision_index;
     balance_lru_list m list
   }"

definition remove_update_ptrs :: "lru_store \<Rightarrow> ocf_lru_list \<Rightarrow> u32 \<Rightarrow> lru_store \<times> ocf_lru_list" where
  "remove_update_ptrs m list collision_index =
     (let node = m collision_index;
          next_lru_node = lru_next node;
          prev_lru_node = lru_prev node;
          is_head = (lru_prev node = end_marker);
          is_tail = (lru_next node = end_marker);
          (m, list) =
            (if is_head \<and> is_tail then (m, list\<lparr>head := end_marker, tail := end_marker\<rparr>)
             else if is_head then
               (set_prev next_lru_node end_marker m, list\<lparr>head := next_lru_node\<rparr>)
             else if is_tail then
               (set_next prev_lru_node end_marker m, list\<lparr>tail := prev_lru_node\<rparr>)
             else
               (set_prev next_lru_node prev_lru_node (set_next prev_lru_node next_lru_node m), list))
      in (m, if last_hot list = collision_index then list\<lparr>last_hot := prev_lru_node\<rparr> else list))"

definition remove_lru_list_nobalance :: "lru_store \<Rightarrow> ocf_lru_list \<Rightarrow> u32 \<Rightarrow> (lru_store \<times> ocf_lru_list) option" where
  "remove_lru_list_nobalance m list collision_index = do {
     bug_on (collision_index = end_marker);
     let node = m collision_index;
     let is_head = (head list = collision_index);
     let is_tail = (tail list = collision_index);
     bug_on (is_head = (lru_prev node \<noteq> end_marker));
     bug_on (is_tail = (lru_next node \<noteq> end_marker));
     let (m, list) = remove_update_ptrs m list collision_index;
     let list = list\<lparr>num_nodes := num_nodes list - 1\<rparr>;
     let list = (if lru_hot (m collision_index) then list\<lparr>num_hot := num_hot list - 1\<rparr> else list);
     Some (set_hot collision_index False
             (set_prev collision_index end_marker (set_next collision_index end_marker m)), list)
   }"

definition remove_lru_list :: "lru_store \<Rightarrow> ocf_lru_list \<Rightarrow> u32 \<Rightarrow> (lru_store \<times> ocf_lru_list) option" where
  "remove_lru_list m list cline = do {
     (m, list) \<leftarrow> remove_lru_list_nobalance m list cline;
     balance_lru_list m list
   }"

definition ocf_lru_set_hot :: "lru_store \<Rightarrow> ocf_lru_list \<Rightarrow> u32 \<Rightarrow> (lru_store \<times> ocf_lru_list) option" where
  "ocf_lru_set_hot m list cline = do {
     (m, list) \<leftarrow> remove_lru_list_nobalance m list cline;
     (m, list) \<leftarrow> add_lru_head_nobalance m list cline;
     balance_lru_list m list
   }"

definition ocf_lru_init_cline :: "lru_store \<Rightarrow> u32 \<Rightarrow> lru_store" where
  "ocf_lru_init_cline m cline =
     set_next cline end_marker (set_prev cline end_marker (set_hot cline False m))"

definition lru_init :: "bool \<Rightarrow> ocf_lru_list" where
  "lru_init track = \<lparr>num_nodes = 0, head = end_marker, tail = end_marker, num_hot = 0,
     last_hot = end_marker, track_hot = track\<rparr>"

section \<open>The representation invariant\<close>

text \<open>
  \<open>lru_split m l hs cs\<close>: the list holds the lines \<open>hs @ cs\<close>, of which exactly the first part \<open>hs\<close>
  is hot. \<open>lru_list m l xs\<close> adds that the hot part is the balanced one.
\<close>

definition lru_split :: "lru_store \<Rightarrow> ocf_lru_list \<Rightarrow> u32 list \<Rightarrow> u32 list \<Rightarrow> bool" where
  "lru_split m l hs cs \<longleftrightarrow>
     dll (lru_next \<circ> m) (lru_prev \<circ> m) end_marker (hs @ cs) \<and>
     head l = hd_or end_marker (hs @ cs) \<and> tail l = last_or end_marker (hs @ cs) \<and>
     unat (num_nodes l) = length (hs @ cs) \<and> unat (num_hot l) = length hs \<and>
     last_hot l = last_or end_marker hs \<and>
     (\<forall>x \<in> set hs. lru_hot (m x)) \<and> (\<forall>x \<in> set cs. \<not> lru_hot (m x))"

definition hot_target :: "ocf_lru_list \<Rightarrow> u32 list \<Rightarrow> nat" where
  "hot_target l xs = (if track_hot l then length xs div 2 else 0)"

definition lru_list :: "lru_store \<Rightarrow> ocf_lru_list \<Rightarrow> u32 list \<Rightarrow> bool" where
  "lru_list m l xs \<longleftrightarrow> lru_split m l (take (hot_target l xs) xs) (drop (hot_target l xs) xs)"

section \<open>Link and hot-bit laws\<close>

interpretation lru_links: link_store "\<lambda>m. lru_next \<circ> m" "\<lambda>m. lru_prev \<circ> m" set_next set_prev
  by unfold_locales (auto simp: set_next_def set_prev_def fun_eq_iff)

lemma lru_store_laws [store_laws]:
  "lru_next (set_next i v m j) = (if j = i then v else lru_next (m j))"
  "lru_prev (set_next i v m j) = lru_prev (m j)"
  "lru_hot (set_next i v m j) = lru_hot (m j)"
  "lru_next (set_prev i v m j) = lru_next (m j)"
  "lru_prev (set_prev i v m j) = (if j = i then v else lru_prev (m j))"
  "lru_hot (set_prev i v m j) = lru_hot (m j)"
  "lru_next (set_hot i b m j) = lru_next (m j)"
  "lru_prev (set_hot i b m j) = lru_prev (m j)"
  "lru_hot (set_hot i b m j) = (if j = i then b else lru_hot (m j))"
  by (simp_all add: set_next_def set_prev_def set_hot_def)

lemma lru_store_other [store_laws]:
  "j \<noteq> i \<Longrightarrow> set_next i v m j = m j" "j \<noteq> i \<Longrightarrow> set_prev i v m j = m j" "j \<noteq> i \<Longrightarrow> set_hot i b m j = m j"
  by (simp_all add: set_next_def set_prev_def set_hot_def)

lemma lru_next_prev_set_hot [simp]:
  "lru_next \<circ> set_hot i b m = lru_next \<circ> m" "lru_prev \<circ> set_hot i b m = lru_prev \<circ> m"
  by (simp_all add: fun_eq_iff store_laws)

lemma lru_split_dll: "lru_split m l hs cs \<Longrightarrow> dll (lru_next \<circ> m) (lru_prev \<circ> m) end_marker (hs @ cs)"
  by (simp add: lru_split_def)

lemma lru_split_distinct:
  "lru_split m l hs cs \<Longrightarrow> distinct (hs @ cs)" "lru_split m l hs cs \<Longrightarrow> end_marker \<notin> set (hs @ cs)"
  by (auto simp: lru_split_def dll_def)

lemma num_nodes_0: "lru_split m l hs cs \<Longrightarrow> num_nodes l = 0 \<longleftrightarrow> hs = [] \<and> cs = []"
  by (auto simp: lru_split_def unat_eq_0 [symmetric])

text \<open>There are fewer list members than indices, so a counter of members cannot wrap.\<close>

lemma lru_counter_room:
  assumes "dll n p (e :: u32) xs" "x \<notin> set xs" "x \<noteq> e"
  shows "length xs + 1 < 2 ^ 32"
proof -
  have "length (x # xs) = card (set (x # xs))"
    using assms by (intro distinct_card [symmetric]) (auto simp: dll_distinct)
  also have "\<dots> < card (UNIV :: u32 set)"
    using assms dll_end [OF assms(1)] by (intro psubset_card_mono) auto
  finally show ?thesis by (simp add: card_word)
qed

section \<open>Inserting at the head\<close>

definition add_split :: "bool \<Rightarrow> u32 \<Rightarrow> u32 list \<Rightarrow> u32 list \<Rightarrow> u32 list \<times> u32 list" where
  "add_split track x hs cs = (if track \<and> hs @ cs \<noteq> [] then (x # hs, cs) else (hs, x # cs))"

lemma add_lru_head_nobalance_split:
  assumes inv: "lru_split m l hs cs" and x: "x \<notin> set (hs @ cs)" "x \<noteq> end_marker"
    and track: "track_hot l \<or> hs = []"
  shows "\<exists>m' l'. add_lru_head_nobalance m l x = Some (m', l') \<and> track_hot l' = track_hot l \<and>
    (\<forall>y. y \<notin> set (x # hs @ cs) \<longrightarrow> m' y = m y) \<and>
    (case add_split (track_hot l) x hs cs of (hs', cs') \<Rightarrow> lru_split m' l' hs' cs')"
proof (cases "hs @ cs = []")
  case True
  then have "num_nodes l = 0" "num_hot l = 0" using inv by (auto simp: lru_split_def unat_eq_0)
  with True x inv show ?thesis
    by (auto simp: add_lru_head_nobalance_def add_split_def lru_split_def dll_def store_laws Let_def)
next
  case False
  let ?xs = "hs @ cs" and ?h = "head l"
  have d: "dll (lru_next \<circ> m) (lru_prev \<circ> m) end_marker ?xs" using inv by (rule lru_split_dll)
  have h: "?h = hd_or end_marker ?xs" "?h \<in> set ?xs" "?h \<noteq> end_marker" "?h \<noteq> x"
    using inv False x hd_or_in [of ?xs end_marker] dll_end [OF d] by (auto simp: lru_split_def)
  have nz: "num_nodes l \<noteq> 0" using num_nodes_0 [OF inv] False by simp
  have room: "unat (num_nodes l) + 1 < 2 ^ 32" "unat (num_hot l) + 1 < 2 ^ 32"
    using lru_counter_room [OF d x] inv by (auto simp: lru_split_def)
  let ?m1 = "set_prev x end_marker (set_next x ?h (set_hot x False m))"
  let ?m = "set_prev ?h x ?m1"
  have dll: "dll (lru_next \<circ> ?m) (lru_prev \<circ> ?m) end_marker (x # ?xs)"
    using lru_links.push_front [OF d x h(1), of ?m1] h by (auto simp: lru_links.links)
  have hot_h: "lru_hot (m ?h) \<longleftrightarrow> hs \<noteq> []"
    using inv False by (cases hs; cases cs) (auto simp: lru_split_def)
  have other: "\<And>y. y \<notin> set (x # ?xs) \<Longrightarrow> set_hot x b ?m y = m y" "\<And>y. y \<notin> set (x # ?xs) \<Longrightarrow> ?m y = m y" for b
    using h(2,4) by (auto simp: set_next_def set_prev_def set_hot_def)
  show ?thesis
  proof (cases "track_hot l")
    case True
    let ?l = "(if \<not> lru_hot (m ?h) then l\<lparr>last_hot := x\<rparr> else l)\<lparr>num_hot := num_hot l + 1,
      head := x, num_nodes := num_nodes l + 1\<rparr>"
    have "add_lru_head_nobalance m l x = Some (set_hot x True ?m, ?l)"
      using True nz h x by (auto simp: add_lru_head_nobalance_def Let_def store_laws)
    moreover have "lru_split (set_hot x True ?m) ?l (x # hs) cs"
      using inv dll hot_h room x h
      by (auto simp: lru_split_def store_laws last_or_def)
    ultimately show ?thesis
      using True False other by (auto simp: add_split_def)
  next
    case nt: False
    let ?l = "l\<lparr>head := x, num_nodes := num_nodes l + 1\<rparr>"
    have "add_lru_head_nobalance m l x = Some (?m, ?l)"
      using nt nz h x by (auto simp: add_lru_head_nobalance_def Let_def)
    moreover have "lru_split ?m ?l hs (x # cs)"
      using inv dll room x h nt track
      by (auto simp: lru_split_def store_laws last_or_def)
    ultimately show ?thesis
      using nt other by (auto simp: add_split_def)
  qed
qed

section \<open>Removing\<close>

lemma remove_update_ptrs_unlink:
  assumes "dll (lru_next \<circ> m) (lru_prev \<circ> m) end_marker (as @ x # bs)"
    and "p = last_or end_marker as" "n = hd_or end_marker bs"
  shows "remove_update_ptrs m l x =
    ((let m = (if p = end_marker then m else set_next p n m)
      in if n = end_marker then m else set_prev n p m),
     (let l = (if p = end_marker then l\<lparr>head := n\<rparr> else l);
          l = (if n = end_marker then l\<lparr>tail := p\<rparr> else l)
      in if last_hot l = x then l\<lparr>last_hot := p\<rparr> else l))"
  using dll_links [OF assms(1)] assms(2,3)
  by (auto simp: remove_update_ptrs_def Let_def)

text \<open>The metadata after a removal: the neighbours of \<open>x\<close> are linked and \<open>x\<close> is reset.\<close>

definition unlinked :: "lru_store \<Rightarrow> u32 \<Rightarrow> u32 \<Rightarrow> u32 \<Rightarrow> lru_store" where
  "unlinked m p x n =
     set_hot x False (set_prev x end_marker (set_next x end_marker
       (let m = (if p = end_marker then m else set_next p n m)
        in if n = end_marker then m else set_prev n p m)))"

lemma unlinked_dll:
  assumes d: "dll (lru_next \<circ> m) (lru_prev \<circ> m) end_marker (as @ x # bs)"
    and pn: "p = last_or end_marker as" "n = hd_or end_marker bs"
  shows "dll (lru_next \<circ> unlinked m p x n) (lru_prev \<circ> unlinked m p x n) end_marker (as @ bs)"
proof -
  let ?m = "let m = (if p = end_marker then m else set_next p n m)
     in if n = end_marker then m else set_prev n p m"
  have "dll (lru_next \<circ> ?m) (lru_prev \<circ> ?m) end_marker (as @ bs)"
    using lru_links.unlink [OF d pn(2,1) refl refl] by (simp add: Let_def)
  then show ?thesis
    by (rule dll_frame) (use d in \<open>auto simp: unlinked_def dll_def store_laws\<close>)
qed

lemma unlinked_hot: "lru_hot (unlinked m p x n y) = (y \<noteq> x \<and> lru_hot (m y))"
  by (simp add: unlinked_def store_laws Let_def)

lemma unlinked_other:
  assumes "p = last_or end_marker as" "n = hd_or end_marker bs" "y \<notin> set (as @ x # bs)"
  shows "unlinked m p x n y = m y"
proof -
  have "y = p \<Longrightarrow> p = end_marker" "y = n \<Longrightarrow> n = end_marker"
    using assms last_or_in [of as end_marker] hd_or_in [of bs end_marker] by (cases "as = []"; cases "bs = []"; force)+
  with assms(3) show ?thesis
    by (auto simp: unlinked_def Let_def set_next_def set_prev_def set_hot_def)
qed

lemma remove_lru_list_nobalance_eq:
  assumes inv: "lru_split m l hs cs" and split: "hs @ cs = as @ x # bs"
    and pn: "p = last_or end_marker as" "n = hd_or end_marker bs"
  shows "remove_lru_list_nobalance m l x = Some (unlinked m p x n,
    l\<lparr>head := hd_or end_marker (as @ bs), tail := last_or end_marker (as @ bs),
      num_nodes := num_nodes l - 1,
      num_hot := (if lru_hot (m x) then num_hot l - 1 else num_hot l),
      last_hot := (if last_hot l = x then p else last_hot l)\<rparr>)"
proof -
  have d: "dll (lru_next \<circ> m) (lru_prev \<circ> m) end_marker (as @ x # bs)"
    and ends: "head l = hd_or end_marker (as @ x # bs)" "tail l = last_or end_marker (as @ x # bs)"
    using inv unfolding lru_split_def split by blast+
  have e: "x \<noteq> end_marker" "x \<notin> set as" "x \<notin> set bs" "end_marker \<notin> set as" "end_marker \<notin> set bs"
    using d by (auto simp: dll_def)
  have pn_end: "p = end_marker \<longleftrightarrow> as = []" "n = end_marker \<longleftrightarrow> bs = []"
    using e pn by auto
  have bugs: "head l = x \<longleftrightarrow> as = []" "tail l = x \<longleftrightarrow> bs = []"
    using ends e hd_or_in [of as x] last_or_in [of bs x] by (cases "as = []"; cases "bs = []"; force)+
  have hot: "lru_hot (set_prev i v m y) = lru_hot (m y)" "lru_hot (set_next i v m y) = lru_hot (m y)" for i v m y
    by (simp_all add: store_laws)
  have fields: "l\<lparr>head := head l\<rparr> = l" "l\<lparr>tail := tail l\<rparr> = l" by simp_all
  show ?thesis
    using dll_links [OF d] bugs pn pn_end e(1) ends remove_update_ptrs_unlink [OF d pn, of l]
    by (cases as rule: rev_cases; cases bs)
      (simp_all add: remove_lru_list_nobalance_def unlinked_def hot Let_def)
qed

lemma remove_lru_list_nobalance_split:
  assumes inv: "lru_split m l hs cs" and x: "x \<in> set (hs @ cs)"
  shows "\<exists>m' l'. remove_lru_list_nobalance m l x = Some (m', l') \<and> track_hot l' = track_hot l \<and>
    (\<forall>y. y \<notin> set (hs @ cs) \<longrightarrow> m' y = m y) \<and> lru_split m' l' (remove1 x hs) (remove1 x cs)"
proof (cases "x \<in> set hs")
  case True
  then obtain as bs' where hs: "hs = as @ x # bs'" by (meson split_list)
  define bs where "bs = bs' @ cs"
  have split: "hs @ cs = as @ x # bs" by (simp add: hs bs_def)
  note eq = remove_lru_list_nobalance_eq [OF inv split refl refl]
    and d = unlinked_dll [OF lru_split_dll [OF inv, unfolded split] refl refl]
  have frame: "\<forall>y. y \<notin> set (hs @ cs) \<longrightarrow>
      unlinked m (last_or end_marker as) x (hd_or end_marker bs) y = m y"
    unfolding split using unlinked_other [OF refl refl, of _ as x bs m] by blast
  have dist: "distinct (as @ x # bs' @ cs)" "end_marker \<notin> set (as @ x # bs' @ cs)"
    using lru_split_distinct [OF inv] hs by auto
  have rm: "remove1 x hs = as @ bs'" "remove1 x cs = cs"
    using dist by (auto simp: hs remove1_append remove1_idem)
  have lh: "(if last_hot l = x then last_or end_marker as else last_hot l) = last_or end_marker (as @ bs')"
  proof (cases bs' rule: rev_cases)
    case Nil
    with inv hs show ?thesis by (simp add: lru_split_def)
  next
    case (snoc zs z)
    with inv hs dist show ?thesis by (auto simp: lru_split_def)
  qed
  have f: "unat (num_nodes l) = length (hs @ cs)" "unat (num_hot l) = length hs"
    "\<forall>y \<in> set hs. lru_hot (m y)" "\<forall>y \<in> set cs. \<not> lru_hot (m y)"
    using inv unfolding lru_split_def by blast+
  have "lru_hot (m x)" "0 < unat (num_nodes l)" "0 < unat (num_hot l)" using f by (simp_all add: hs)
  with f d dist have res: "lru_split (unlinked m (last_or end_marker as) x (hd_or end_marker bs))
     (l\<lparr>head := hd_or end_marker (as @ bs), tail := last_or end_marker (as @ bs),
       num_nodes := num_nodes l - 1,
       num_hot := (if lru_hot (m x) then num_hot l - 1 else num_hot l),
       last_hot := last_or end_marker (as @ bs')\<rparr>) (as @ bs') cs"
    unfolding lru_split_def by (simp add: unlinked_hot bs_def hs) blast
  show ?thesis
    unfolding rm by (intro exI conjI, rule eq [unfolded lh], simp, rule frame, rule res)
next
  case False
  with x have "x \<in> set cs" by simp
  then obtain as' bs where cs: "cs = as' @ x # bs" by (meson split_list)
  define as where "as = hs @ as'"
  have split: "hs @ cs = as @ x # bs" by (simp add: cs as_def)
  note eq = remove_lru_list_nobalance_eq [OF inv split refl refl]
    and d = unlinked_dll [OF lru_split_dll [OF inv, unfolded split] refl refl]
  have frame: "\<forall>y. y \<notin> set (hs @ cs) \<longrightarrow>
      unlinked m (last_or end_marker as) x (hd_or end_marker bs) y = m y"
    unfolding split using unlinked_other [OF refl refl, of _ as x bs m] by blast
  have dist: "distinct (hs @ as' @ x # bs)" "end_marker \<notin> set (hs @ as' @ x # bs)"
    using lru_split_distinct [OF inv] cs by auto
  have "remove1 x hs = hs" "remove1 x cs = as' @ bs"
    using dist by (auto simp: cs remove1_append remove1_idem)
  moreover have "last_or end_marker hs \<noteq> x"
    using dist last_or_in [of hs end_marker] by (cases "hs = []") auto
  moreover have f: "unat (num_nodes l) = length (hs @ cs)" "unat (num_hot l) = length hs"
    "last_hot l = last_or end_marker hs"
    "\<forall>y \<in> set hs. lru_hot (m y)" "\<forall>y \<in> set cs. \<not> lru_hot (m y)"
    using inv unfolding lru_split_def by blast+
  moreover have "\<not> lru_hot (m x)" "0 < unat (num_nodes l)" using f by (simp_all add: cs)
  ultimately have res: "lru_split (unlinked m (last_or end_marker as) x (hd_or end_marker bs))
     (l\<lparr>head := hd_or end_marker (as @ bs), tail := last_or end_marker (as @ bs),
       num_nodes := num_nodes l - 1,
       num_hot := (if lru_hot (m x) then num_hot l - 1 else num_hot l),
       last_hot := (if last_hot l = x then last_or end_marker as else last_hot l)\<rparr>)
     (remove1 x hs) (remove1 x cs)"
    unfolding lru_split_def using d dist by (simp add: unlinked_hot as_def cs) blast
  show ?thesis
    by (intro exI conjI, rule eq, simp, rule frame, rule res)
qed

section \<open>Balancing\<close>

lemma u32_diff_cases:
  fixes a b :: u32
  shows "unat a = unat b \<Longrightarrow> a - b = 0"
    and "unat a = unat b + 1 \<Longrightarrow> a - b = 1"
    and "unat a + 1 = unat b \<Longrightarrow> a - b = - 1"
proof -
  show "unat a = unat b \<Longrightarrow> a - b = 0" by (metis diff_self word_unat_eq_iff)
  have "a = b + 1" if "unat a = unat b + 1" for a b :: u32
    using that unsigned_less [of a, where 'a = nat] by (simp add: word_unat_eq_iff unat_word_ariths)
  then show "unat a = unat b + 1 \<Longrightarrow> a - b = 1" "unat a + 1 = unat b \<Longrightarrow> a - b = - 1"
    by (metis add_diff_cancel_left', metis add_diff_cancel_left' minus_diff_eq)
qed

lemma balance_lru_list_split:
  assumes inv: "lru_split m l hs cs" and track: "track_hot l"
    and t: "t = length (hs @ cs) div 2" "t = length hs \<or> t = length hs + 1 \<or> t + 1 = length hs"
  shows "\<exists>m' l'. balance_lru_list m l = Some (m', l') \<and> track_hot l' \<and>
    (\<forall>y. y \<notin> set (hs @ cs) \<longrightarrow> m' y = m y) \<and> lru_split m' l' (take t (hs @ cs)) (drop t (hs @ cs))"
proof -
  let ?w = "num_nodes l div OCF_LRU_HOT_RATIO"
  have w: "unat ?w = t"
    using inv t(1) by (simp add: lru_split_def unat_div OCF_LRU_HOT_RATIO_def)
  have h: "unat (num_hot l) = length hs" using inv by (simp add: lru_split_def)
  from t(2) consider (same) "t = length hs" | (more) "t = length hs + 1" | (less) "t + 1 = length hs" by blast
  then show ?thesis
  proof cases
    case same
    with w h have "?w = num_hot l" by (simp add: word_unat_eq_iff)
    with same inv track show ?thesis
      by (simp add: balance_lru_list_def balance_update_last_hot_def lru_split_def)
  next
    case more
    with w h have change: "?w - num_hot l = 1" by (intro u32_diff_cases(2)) simp
    from more t(1) obtain c cs' where cs: "cs = c # cs'" by (cases cs) auto
    have nxt: "hs \<noteq> [] \<Longrightarrow> lru_next (m (last_or end_marker hs)) = c"
    proof -
      assume "hs \<noteq> []"
      then obtain as y where "hs = as @ [y]" by (metis rev_exhaust)
      with dll_links(1) [of "lru_next \<circ> m" "lru_prev \<circ> m" end_marker as y cs] inv cs show ?thesis
        by (simp add: lru_split_def)
    qed
    have e: "distinct (hs @ cs)" "end_marker \<notin> set (hs @ cs)" using lru_split_distinct [OF inv] by auto
    have "balance_lru_list m l = Some (set_hot c True m, l\<lparr>num_hot := ?w, last_hot := c\<rparr>)"
      using change track nxt inv e cs
      by (cases "hs = []") (auto simp: balance_lru_list_def balance_update_last_hot_def Let_def lru_split_def)
    moreover have "lru_split (set_hot c True m) (l\<lparr>num_hot := ?w, last_hot := c\<rparr>) (hs @ [c]) cs'"
      using inv w more e cs by (auto simp: lru_split_def store_laws)
    ultimately show ?thesis
      using more track cs by (auto simp: store_laws)
  next
    case less
    with w h have change: "?w - num_hot l = - 1" by (intro u32_diff_cases(3)) simp
    from less obtain hs' y where hs: "hs = hs' @ [y]" by (metis Suc_eq_plus1 length_0_conv nat.distinct(1) rev_exhaust)
    have prv: "lru_prev (m y) = last_or end_marker hs'"
      using dll_links(2) [of "lru_next \<circ> m" "lru_prev \<circ> m" end_marker hs' y cs] inv hs
      by (simp add: lru_split_def)
    have e: "distinct (hs @ cs)" "end_marker \<notin> set (hs @ cs)" using lru_split_distinct [OF inv] by auto
    have last: "last_hot l = y" using inv hs by (simp add: lru_split_def)
    have "balance_lru_list m l = Some (set_hot y False m, l\<lparr>num_hot := ?w, last_hot := last_or end_marker hs'\<rparr>)"
      using change track prv e hs last
      by (auto simp: balance_lru_list_def balance_update_last_hot_def Let_def)
    moreover have "lru_split (set_hot y False m) (l\<lparr>num_hot := ?w, last_hot := last_or end_marker hs'\<rparr>) hs' (y # cs)"
      using inv w less e hs by (auto simp: lru_split_def store_laws)
    ultimately show ?thesis
      using less track hs by (auto simp: store_laws)
  qed
qed

lemma balance_lru_list_untracked: "\<not> track_hot l \<Longrightarrow> balance_lru_list m l = Some (m, l)"
  by (simp add: balance_lru_list_def)

section \<open>The list operations implement a list\<close>

text \<open>Balancing restores \<open>lru_list\<close> when the hot part is off by at most one.\<close>

lemma balance_restores:
  assumes inv: "lru_split m l hs cs" and untracked: "\<not> track_hot l \<Longrightarrow> hs = []"
    and t: "track_hot l \<Longrightarrow> t = length (hs @ cs) div 2 \<and> (t = length hs \<or> t = length hs + 1 \<or> t + 1 = length hs)"
  shows "\<exists>m' l'. balance_lru_list m l = Some (m', l') \<and> track_hot l' = track_hot l \<and>
    (\<forall>y. y \<notin> set (hs @ cs) \<longrightarrow> m' y = m y) \<and> lru_list m' l' (hs @ cs)"
proof (cases "track_hot l")
  case True
  with balance_lru_list_split [OF inv True] t show ?thesis
    by (auto simp: lru_list_def hot_target_def)
next
  case False
  with inv untracked show ?thesis
    by (simp add: balance_lru_list_untracked lru_list_def hot_target_def)
qed

lemma lru_listD:
  assumes "lru_list m l xs"
  obtains hs cs where "xs = hs @ cs" "lru_split m l hs cs" "\<not> track_hot l \<longrightarrow> hs = []"
    "track_hot l \<longrightarrow> length hs = length xs div 2" "distinct xs"
proof
  let ?t = "hot_target l xs"
  show "lru_split m l (take ?t xs) (drop ?t xs)" using assms by (simp add: lru_list_def)
  then show "distinct xs" by (metis append_take_drop_id lru_split_distinct(1))
qed (auto simp: hot_target_def)

lemma remove1_parts: "distinct (hs @ cs) \<Longrightarrow> remove1 x hs @ remove1 x cs = remove1 x (hs @ cs)"
  by (auto simp: remove1_append remove1_idem disjoint_iff)

lemma add_lru_head_list:
  assumes "lru_list m l xs" "x \<notin> set xs" "x \<noteq> end_marker"
  shows "\<exists>m' l'. add_lru_head m l x = Some (m', l') \<and> lru_list m' l' (x # xs) \<and>
    track_hot l' = track_hot l \<and> (\<forall>y. y \<notin> set (x # xs) \<longrightarrow> m' y = m y)"
proof -
  from assms(1) obtain hs cs where xs: "xs = hs @ cs" and inv: "lru_split m l hs cs"
    and hot: "\<not> track_hot l \<longrightarrow> hs = []" "track_hot l \<longrightarrow> length hs = length xs div 2"
    and "distinct xs"
    by (rule lru_listD)
  obtain hs' cs' where split: "add_split (track_hot l) x hs cs = (hs', cs')" by fastforce
  with add_lru_head_nobalance_split [OF inv, of x] assms xs hot(1) obtain m1 l1 where
    add: "add_lru_head_nobalance m l x = Some (m1, l1)" "track_hot l1 = track_hot l"
    "\<forall>y. y \<notin> set (x # xs) \<longrightarrow> m1 y = m y" and inv1: "lru_split m1 l1 hs' cs'"
    by fastforce
  have xs': "hs' @ cs' = x # xs" "\<not> track_hot l \<Longrightarrow> hs' = []"
    using split xs hot(1) by (auto simp: add_split_def split: if_splits)
  let ?t = "length (hs' @ cs') div 2"
  have "track_hot l1 \<Longrightarrow> ?t = length hs' \<or> ?t = length hs' + 1 \<or> ?t + 1 = length hs'"
    using split xs hot(2) add(2) by (auto simp: add_split_def split: if_splits)
  then have "\<exists>m' l'. balance_lru_list m1 l1 = Some (m', l') \<and> track_hot l' = track_hot l1 \<and>
    (\<forall>y. y \<notin> set (hs' @ cs') \<longrightarrow> m' y = m1 y) \<and> lru_list m' l' (hs' @ cs')"
    using inv1 xs'(2) add(2) by (intro balance_restores [where t = ?t]) auto
  with add xs' show ?thesis
    by (auto simp: add_lru_head_def)
qed

lemma remove_half:
  "h = n div 2 \<Longrightarrow> 0 < n \<Longrightarrow> d \<le> 1 \<Longrightarrow> d \<le> (h :: nat) \<Longrightarrow>
   (n - 1) div 2 = h - d \<or> (n - 1) div 2 = h - d + 1 \<or> (n - 1) div 2 + 1 = h - d"
  by linarith

lemma remove_lru_list_list:
  assumes "lru_list m l xs" "x \<in> set xs"
  shows "\<exists>m' l'. remove_lru_list m l x = Some (m', l') \<and> lru_list m' l' (remove1 x xs) \<and>
    track_hot l' = track_hot l \<and> (\<forall>y. y \<notin> set xs \<longrightarrow> m' y = m y)"
proof -
  from assms(1) obtain hs cs where xs: "xs = hs @ cs" and inv: "lru_split m l hs cs"
    and hot: "\<not> track_hot l \<longrightarrow> hs = []" "track_hot l \<longrightarrow> length hs = length xs div 2"
    and dist: "distinct xs"
    by (rule lru_listD)
  from remove_lru_list_nobalance_split [OF inv, of x] assms(2) xs obtain m1 l1 where
    rem: "remove_lru_list_nobalance m l x = Some (m1, l1)" "track_hot l1 = track_hot l"
    "\<forall>y. y \<notin> set xs \<longrightarrow> m1 y = m y" and inv1: "lru_split m1 l1 (remove1 x hs) (remove1 x cs)"
    by auto
  let ?hs = "remove1 x hs" and ?cs = "remove1 x cs"
  have parts: "?hs @ ?cs = remove1 x xs" using dist xs by (simp add: remove1_parts)
  let ?t = "length (?hs @ ?cs) div 2"
  have "track_hot l1 \<Longrightarrow> ?t = length ?hs \<or> ?t = length ?hs + 1 \<or> ?t + 1 = length ?hs"
    using remove_half [of "length hs" "length xs" "if x \<in> set hs then 1 else 0"] hot(2) rem(2)
      assms(2) parts length_pos_if_in_set [of x hs] length_pos_if_in_set [of x xs]
    by (auto simp: length_remove1 split: if_splits)
  then have "\<exists>m' l'. balance_lru_list m1 l1 = Some (m', l') \<and> track_hot l' = track_hot l1 \<and>
    (\<forall>y. y \<notin> set (?hs @ ?cs) \<longrightarrow> m' y = m1 y) \<and> lru_list m' l' (?hs @ ?cs)"
    using inv1 hot(1) rem(2) by (intro balance_restores [where t = ?t]) auto
  with rem parts notin_set_remove1 [of _ xs x] show ?thesis
    by (auto simp: remove_lru_list_def)
qed

lemma ocf_lru_set_hot_list:
  assumes "lru_list m l xs" "x \<in> set xs"
  shows "\<exists>m' l'. ocf_lru_set_hot m l x = Some (m', l') \<and> lru_list m' l' (x # remove1 x xs) \<and>
    track_hot l' = track_hot l \<and> (\<forall>y. y \<notin> set xs \<longrightarrow> m' y = m y)"
proof -
  from assms(1) obtain hs cs where xs: "xs = hs @ cs" and inv: "lru_split m l hs cs"
    and hot: "\<not> track_hot l \<longrightarrow> hs = []" "track_hot l \<longrightarrow> length hs = length xs div 2"
    and dist: "distinct xs"
    by (rule lru_listD)
  from remove_lru_list_nobalance_split [OF inv, of x] assms(2) xs obtain m1 l1 where
    rem: "remove_lru_list_nobalance m l x = Some (m1, l1)" "track_hot l1 = track_hot l"
    "\<forall>y. y \<notin> set xs \<longrightarrow> m1 y = m y" and inv1: "lru_split m1 l1 (remove1 x hs) (remove1 x cs)"
    by auto
  let ?hs = "remove1 x hs" and ?cs = "remove1 x cs"
  have parts: "?hs @ ?cs = remove1 x xs" using dist xs by (simp add: remove1_parts)
  have x: "x \<notin> set (?hs @ ?cs)" "x \<noteq> end_marker"
    using dist parts assms(2) lru_split_distinct(2) [OF inv] xs by auto
  obtain hs' cs' where split: "add_split (track_hot l1) x ?hs ?cs = (hs', cs')" by fastforce
  with add_lru_head_nobalance_split [OF inv1 x] hot(1) rem(2) obtain m2 l2 where
    add: "add_lru_head_nobalance m1 l1 x = Some (m2, l2)" "track_hot l2 = track_hot l1"
    "\<forall>y. y \<notin> set (x # ?hs @ ?cs) \<longrightarrow> m2 y = m1 y" and inv2: "lru_split m2 l2 hs' cs'"
    by fastforce
  have xs': "hs' @ cs' = x # remove1 x xs" "\<not> track_hot l \<Longrightarrow> hs' = []"
    using split parts hot(1) rem(2) by (auto simp: add_split_def split: if_splits)
  let ?t = "length (hs' @ cs') div 2"
  have n: "length (hs' @ cs') = length xs"
    using xs' assms(2) length_pos_if_in_set [of x xs] by (simp add: length_remove1)
  have "length hs' = length xs div 2 \<or> length hs' = length xs div 2 + 1" if track: "track_hot l2"
  proof (cases "?hs @ ?cs = []")
    case True
    with split have "hs' = []" "cs' = [x]" by (auto simp: add_split_def)
    with n show ?thesis by (simp flip: n)
  next
    case False
    with split track add(2) have "hs' = x # ?hs" by (auto simp: add_split_def)
    moreover have "length ?hs + 1 = length hs \<or> length ?hs = length hs"
      using length_pos_if_in_set [of x hs] by (auto simp: length_remove1)
    ultimately show ?thesis using hot(2) track rem(2) add(2) by auto
  qed
  with n have "track_hot l2 \<Longrightarrow> ?t = length hs' \<or> ?t = length hs' + 1 \<or> ?t + 1 = length hs'"
    by auto
  then have "\<exists>m' l'. balance_lru_list m2 l2 = Some (m', l') \<and> track_hot l' = track_hot l2 \<and>
    (\<forall>y. y \<notin> set (hs' @ cs') \<longrightarrow> m' y = m2 y) \<and> lru_list m' l' (hs' @ cs')"
    using inv2 xs'(2) rem(2) add(2) by (intro balance_restores [where t = ?t]) auto
  moreover have "\<forall>y. y \<notin> set xs \<longrightarrow> y \<noteq> x \<and> y \<notin> set (remove1 x xs)"
    using assms(2) notin_set_remove1 [of _ xs x] by auto
  ultimately show ?thesis
    using rem add xs' parts by (auto simp: ocf_lru_set_hot_def)
qed

section \<open>Runs of operations\<close>

text \<open>
  The operations as commands, and their meaning on the abstract list: \<open>None\<close> where the caller breaks
  the contract (inserting a line twice, removing or touching a line that is not in the list).
\<close>

datatype lru_op = Insert u32 | Delete u32 | Touch u32

fun lru_exec :: "lru_op \<Rightarrow> lru_store \<Rightarrow> ocf_lru_list \<Rightarrow> (lru_store \<times> ocf_lru_list) option" where
  "lru_exec (Insert x) m l = add_lru_head m l x"
| "lru_exec (Delete x) m l = remove_lru_list m l x"
| "lru_exec (Touch x) m l = ocf_lru_set_hot m l x"

fun lru_run :: "lru_op list \<Rightarrow> lru_store \<Rightarrow> ocf_lru_list \<Rightarrow> (lru_store \<times> ocf_lru_list) option" where
  "lru_run [] m l = Some (m, l)"
| "lru_run (c # cs) m l = (case lru_exec c m l of None \<Rightarrow> None | Some (m, l) \<Rightarrow> lru_run cs m l)"

fun abs_exec :: "lru_op \<Rightarrow> u32 list \<Rightarrow> u32 list option" where
  "abs_exec (Insert x) xs = (if x = end_marker \<or> x \<in> set xs then None else Some (x # xs))"
| "abs_exec (Delete x) xs = (if x \<in> set xs then Some (remove1 x xs) else None)"
| "abs_exec (Touch x) xs = (if x \<in> set xs then Some (x # remove1 x xs) else None)"

fun abs_run :: "lru_op list \<Rightarrow> u32 list \<Rightarrow> u32 list option" where
  "abs_run [] xs = Some xs"
| "abs_run (c # cs) xs = (case abs_exec c xs of None \<Rightarrow> None | Some xs \<Rightarrow> abs_run cs xs)"

lemma lru_exec_refines:
  assumes "lru_list m l xs" "abs_exec c xs = Some ys"
  shows "\<exists>m' l'. lru_exec c m l = Some (m', l') \<and> lru_list m' l' ys \<and> track_hot l' = track_hot l"
  using assms add_lru_head_list [of m l xs] remove_lru_list_list [of m l xs] ocf_lru_set_hot_list [of m l xs]
  by (cases c) (force split: if_splits)+

lemma lru_run_refines:
  assumes "lru_list m l xs" "abs_run cs xs = Some ys"
  shows "\<exists>m' l'. lru_run cs m l = Some (m', l') \<and> lru_list m' l' ys \<and> track_hot l' = track_hot l"
  using assms
proof (induction cs arbitrary: m l xs)
  case Nil
  then show ?case by simp
next
  case (Cons c cs)
  then obtain zs where "abs_exec c xs = Some zs" "abs_run cs zs = Some ys"
    by (auto split: option.splits)
  with lru_exec_refines [OF Cons.prems(1)] Cons.IH show ?case
    by fastforce
qed

lemma lru_init_list: "lru_list m (lru_init track) []"
  by (simp add: lru_list_def lru_split_def lru_init_def hot_target_def)

lemma dll_nth:
  assumes "dll n p e xs" "i < length xs"
  shows "n (xs ! i) = (if Suc i < length xs then xs ! Suc i else e)"
    and "p (xs ! i) = (if i = 0 then e else xs ! (i - 1))"
proof -
  have "dll n p e (take i xs @ xs ! i # drop (Suc i) xs)"
    using assms by (simp add: id_take_nth_drop [symmetric])
  note links = dll_links [OF this]
  show "n (xs ! i) = (if Suc i < length xs then xs ! Suc i else e)"
    using links(1) by (simp add: hd_or_def hd_drop_conv_nth split: list.splits)
      (metis Cons_nth_drop_Suc list.inject)
  show "p (xs ! i) = (if i = 0 then e else xs ! (i - 1))"
    using links(2) assms(2) by (auto simp: last_or_def last_conv_nth min_def)
qed

text \<open>
  Property C18. Any sequence of inserts, removals and touches that respects the contract runs on an
  initially empty list without a failed assertion, and the result is the list that the abstract
  operations give: the head is the most recently inserted or touched line and the tail the least
  recent one, the links connect the lines in that order, the node counter is exact, and, when the list
  tracks hot lines, exactly the first half is hot.
\<close>

theorem lru_run_correct:
  assumes "abs_run cs [] = Some ys"
  shows "\<exists>m' l'. lru_run cs m (lru_init track) = Some (m', l') \<and>
    head l' = (if ys = [] then end_marker else hd ys) \<and>
    tail l' = (if ys = [] then end_marker else last ys) \<and>
    unat (num_nodes l') = length ys \<and>
    unat (num_hot l') = (if track then length ys div 2 else 0) \<and>
    (\<forall>i < length ys.
       lru_next (m' (ys ! i)) = (if Suc i < length ys then ys ! Suc i else end_marker) \<and>
       lru_prev (m' (ys ! i)) = (if i = 0 then end_marker else ys ! (i - 1)) \<and>
       lru_hot (m' (ys ! i)) = (track \<and> i < length ys div 2))"
proof -
  obtain m' l' where run: "lru_run cs m (lru_init track) = Some (m', l')"
    and inv: "lru_list m' l' ys" and "track_hot l' = track"
    using lru_run_refines [OF lru_init_list assms, of m track] by (auto simp: lru_init_def)
  then have t: "hot_target l' ys = (if track then length ys div 2 else 0)"
    by (simp add: hot_target_def)
  let ?t = "hot_target l' ys"
  have s: "lru_split m' l' (take ?t ys) (drop ?t ys)" using inv by (simp add: lru_list_def)
  then have d: "dll (lru_next \<circ> m') (lru_prev \<circ> m') end_marker ys" by (simp add: lru_split_def)
  have "lru_hot (m' (ys ! i)) = (track \<and> i < length ys div 2)" if "i < length ys" for i
  proof (cases "i < ?t")
    case True
    then have "ys ! i \<in> set (take ?t ys)" using that by (auto simp: in_set_conv_nth)
    with s True t show ?thesis by (auto simp: lru_split_def split: if_splits)
  next
    case False
    then have "ys ! i \<in> set (drop ?t ys)" using that
      by (auto simp: in_set_conv_nth intro!: exI [of _ "i - ?t"])
    with s False t show ?thesis by (auto simp: lru_split_def split: if_splits)
  qed
  moreover have "head l' = (if ys = [] then end_marker else hd ys)"
    "tail l' = (if ys = [] then end_marker else last ys)" "unat (num_nodes l') = length ys"
    "unat (num_hot l') = (if track then length ys div 2 else 0)"
    using s t by (auto simp: lru_split_def hd_or_def last_or_def hd_conv_nth split: list.splits)
  ultimately show ?thesis
    using run dll_nth [OF d] by auto
qed

theorem lru_run_correct_witness:
  "\<exists>m' l'. lru_run [Insert 1, Insert 2, Insert 3, Touch 1, Delete 2] (\<lambda>_. \<lparr>lru_prev = 0, lru_next = 0, lru_hot = True\<rparr>)
       (lru_init True) = Some (m', l') \<and> head l' = 1 \<and> tail l' = 3 \<and> unat (num_nodes l') = 2 \<and>
     unat (num_hot l') = 1"
proof -
  have "abs_run [Insert 1, Insert 2, Insert 3, Touch 1, Delete 2] [] = Some [1, 3]"
    by (simp add: end_marker_def)
  from lru_run_correct [OF this, of _ True] show ?thesis by fastforce
qed

end
