(* ===== verification/OCF_Alock.thy ===== *)
theory OCF_Alock
  imports Prelude
begin

text \<open>
  OCF's asynchronous cache line locks (\<open>ocf/src/utils/utils_alock.c\<close> and their client
  \<open>ocf/src/concurrency/ocf_cache_line_concurrency.c\<close>). An entry is locked through an atomic counter
  (0 idle, \<open>INT_MAX\<close> one writer, otherwise the number of readers); a request that cannot get a lock
  leaves a waiter on a hashed waiters list and is resumed when its last lock is granted.

  Every operation is one atomic section of the code: a single \<open>cmpxchg\<close>, or a region under the
  spinlock of a waiters list. The sections are composed in any order by a step relation, so the
  invariants below hold for every interleaving of requests.
\<close>

section \<open>Data\<close>

datatype rw = OCF_READ | OCF_WRITE

datatype lookup_status = LOOKUP_HIT | LOOKUP_MISS | LOOKUP_REMAPPED

record ocf_map_info =
  map_hash :: u32
  coll_idx :: u32
  map_core_line :: u64
  map_core_id :: u16
  status :: lookup_status
  invalid :: bool
  re_part :: bool

text \<open>The part of a request the locks use; \<open>alock_status\<close> has a byte per core line, addressed by bit.\<close>

record alock_req =
  lock_remaining :: int
  alock_rw :: rw
  alock_status :: "bool list"
  req_map :: "ocf_map_info list"
  resumed :: nat

record ocf_alock_waiter =
  w_entry :: u32
  w_idx :: nat
  w_req :: nat
  w_rw :: rw

text \<open>
  \<open>nbuckets\<close> is \<open>_WAITERS_LIST_ENTRIES\<close>, which depends on the size of a spinlock. \<open>allocs\<close> are the
  outcomes of the next calls of \<open>env_allocator_new\<close> (no entry: the allocation succeeds). \<open>reqs\<close> are
  the requests, by address; a completion callback \<open>cmpl(req)\<close> is counted in \<open>resumed\<close>.
\<close>

record ocf_alock =
  waiting :: int
  num_entries :: u32
  acc :: "u32 \<Rightarrow> int"
  waiters_lsts :: "nat \<Rightarrow> ocf_alock_waiter list"
  nbuckets :: nat
  allocs :: "bool list"
  reqs :: "nat \<Rightarrow> alock_req"

definition OCF_CACHE_LINE_ACCESS_WR :: int where
  "OCF_CACHE_LINE_ACCESS_WR = 2147483647"

definition OCF_CACHE_LINE_ACCESS_IDLE :: int where
  "OCF_CACHE_LINE_ACCESS_IDLE = 0"

definition OCF_CACHE_LINE_ACCESS_ONE_RD :: int where
  "OCF_CACHE_LINE_ACCESS_ONE_RD = 1"

lemmas access_defs = OCF_CACHE_LINE_ACCESS_WR_def OCF_CACHE_LINE_ACCESS_IDLE_def OCF_CACHE_LINE_ACCESS_ONE_RD_def

definition WAITERS_LIST_ITEM :: "ocf_alock \<Rightarrow> u32 \<Rightarrow> nat" where
  "WAITERS_LIST_ITEM a entry = unat entry mod nbuckets a"

definition set_acc :: "u32 \<Rightarrow> int \<Rightarrow> ocf_alock \<Rightarrow> ocf_alock" where
  "set_acc e v a = a\<lparr>acc := (acc a)(e := v)\<rparr>"

definition set_waiters :: "nat \<Rightarrow> ocf_alock_waiter list \<Rightarrow> ocf_alock \<Rightarrow> ocf_alock" where
  "set_waiters i ws a = a\<lparr>waiters_lsts := (waiters_lsts a)(i := ws)\<rparr>"

definition upd_req :: "nat \<Rightarrow> (alock_req \<Rightarrow> alock_req) \<Rightarrow> ocf_alock \<Rightarrow> ocf_alock" where
  "upd_req r f a = a\<lparr>reqs := (reqs a)(r := f (reqs a r))\<rparr>"

section \<open>Locked indices of a request\<close>

text \<open>A bit outside the status array is undefined behaviour (\<open>None\<close>).\<close>

definition ocf_alock_mark_index_locked :: "nat \<Rightarrow> nat \<Rightarrow> bool \<Rightarrow> ocf_alock \<Rightarrow> ocf_alock option" where
  "ocf_alock_mark_index_locked r i locked a =
     (if i < length (alock_status (reqs a r))
      then Some (upd_req r (\<lambda>q. q\<lparr>alock_status := (alock_status q)[i := locked]\<rparr>) a) else None)"

definition ocf_alock_is_index_locked :: "ocf_alock \<Rightarrow> nat \<Rightarrow> nat \<Rightarrow> bool option" where
  "ocf_alock_is_index_locked a r i =
     (if i < length (alock_status (reqs a r)) then Some (alock_status (reqs a r) ! i) else None)"

section \<open>Creation\<close>

text \<open>
  The successful path of \<open>ocf_alock_init_inplace\<close>; each of its resources may fail to be created,
  in which case it returns \<open>-1\<close> (\<open>None\<close>) after releasing what it had created.
\<close>

datatype resource = Mutex | Access | Allocator | Spinlock nat

fun spinlock_inits :: "(resource \<Rightarrow> bool) \<Rightarrow> nat \<Rightarrow> nat \<Rightarrow> (nat list, nat) sum" where
  "spinlock_inits ok i 0 = Inl []"
| "spinlock_inits ok i (Suc n) =
     (if ok (Spinlock i) then (case spinlock_inits ok (Suc i) n of Inl xs \<Rightarrow> Inl (i # xs) | Inr k \<Rightarrow> Inr k)
      else Inr i)"

text \<open>
  Result: the resources held at the end, in the order of creation, and whether the initialisation
  succeeded.
\<close>

definition ocf_alock_init_inplace :: "(resource \<Rightarrow> bool) \<Rightarrow> nat \<Rightarrow> resource list \<times> bool" where
  "ocf_alock_init_inplace ok n =
     (if \<not> ok Mutex then ([], False)
      else if \<not> ok Access then (removeAll Mutex [Mutex], False)
      else if \<not> ok Allocator then (removeAll Mutex (removeAll Access [Mutex, Access]), False)
      else case spinlock_inits ok 0 n of
             Inl is \<Rightarrow> ([Mutex, Access, Allocator] @ map Spinlock is, True)
           | Inr i \<Rightarrow>
               (let held = [Mutex, Access, Allocator] @ map Spinlock [0..<i];
                    held = foldr (\<lambda>j. removeAll (Spinlock j)) [0..<i] held
                in (removeAll Mutex (removeAll Access (removeAll Allocator held)), False)))"

section \<open>Waiters lists\<close>

fun waitlist_has :: "u32 \<Rightarrow> ocf_alock_waiter list \<Rightarrow> bool" where
  "waitlist_has entry [] = False"
| "waitlist_has entry (w # ws) = (if w_entry w = entry then True else waitlist_has entry ws)"

definition ocf_alock_waitlist_is_empty_locked :: "ocf_alock \<Rightarrow> u32 \<Rightarrow> bool" where
  "ocf_alock_waitlist_is_empty_locked a entry =
     (let lst = waiters_lsts a (WAITERS_LIST_ITEM a entry)
      in if lst = [] then True else \<not> waitlist_has entry lst)"

definition ocf_alock_waitlist_add :: "u32 \<Rightarrow> ocf_alock_waiter \<Rightarrow> ocf_alock \<Rightarrow> ocf_alock" where
  "ocf_alock_waitlist_add entry waiter a =
     (let idx = WAITERS_LIST_ITEM a entry in set_waiters idx (waiters_lsts a idx @ [waiter]) a)"

section \<open>Locking and unlocking the counter\<close>

text \<open>\<open>env_atomic_cmpxchg\<close> and \<open>env_atomic_add_unless\<close> on the counter of an entry.\<close>

definition cmpxchg :: "u32 \<Rightarrow> int \<Rightarrow> int \<Rightarrow> ocf_alock \<Rightarrow> int \<times> ocf_alock" where
  "cmpxchg e old v a = (acc a e, if acc a e = old then set_acc e v a else a)"

definition add_unless :: "u32 \<Rightarrow> int \<Rightarrow> int \<Rightarrow> ocf_alock \<Rightarrow> bool \<times> ocf_alock" where
  "add_unless e i u a = (if acc a e = u then (False, a) else (True, set_acc e (acc a e + i) a))"

definition ocf_alock_trylock_entry_wr :: "u32 \<Rightarrow> ocf_alock \<Rightarrow> bool \<times> ocf_alock" where
  "ocf_alock_trylock_entry_wr entry a =
     (let (prev, a) = cmpxchg entry OCF_CACHE_LINE_ACCESS_IDLE OCF_CACHE_LINE_ACCESS_WR a
      in (prev = OCF_CACHE_LINE_ACCESS_IDLE, a))"

definition ocf_alock_trylock_entry_rd_idle :: "u32 \<Rightarrow> ocf_alock \<Rightarrow> bool \<times> ocf_alock" where
  "ocf_alock_trylock_entry_rd_idle entry a =
     (let (prev, a) = cmpxchg entry OCF_CACHE_LINE_ACCESS_IDLE OCF_CACHE_LINE_ACCESS_ONE_RD a
      in (prev = OCF_CACHE_LINE_ACCESS_IDLE, a))"

definition ocf_alock_trylock_entry_rd :: "u32 \<Rightarrow> ocf_alock \<Rightarrow> bool \<times> ocf_alock" where
  "ocf_alock_trylock_entry_rd entry a = add_unless entry 1 OCF_CACHE_LINE_ACCESS_WR a"

definition ocf_alock_unlock_entry_wr :: "u32 \<Rightarrow> ocf_alock \<Rightarrow> ocf_alock option" where
  "ocf_alock_unlock_entry_wr entry a = do {
     bug_on (acc a entry \<noteq> OCF_CACHE_LINE_ACCESS_WR);
     Some (set_acc entry OCF_CACHE_LINE_ACCESS_IDLE a)
   }"

definition ocf_alock_unlock_entry_rd :: "u32 \<Rightarrow> ocf_alock \<Rightarrow> ocf_alock option" where
  "ocf_alock_unlock_entry_rd entry a = do {
     let v = acc a entry;
     bug_on (v = 0);
     bug_on (v = OCF_CACHE_LINE_ACCESS_WR);
     Some (set_acc entry (acc a entry - 1) a)
   }"

definition ocf_alock_trylock_entry_wr2wr :: "u32 \<Rightarrow> ocf_alock \<Rightarrow> (bool \<times> ocf_alock) option" where
  "ocf_alock_trylock_entry_wr2wr entry a = do {
     bug_on (acc a entry \<noteq> OCF_CACHE_LINE_ACCESS_WR);
     Some (True, a)
   }"

definition ocf_alock_trylock_entry_wr2rd :: "u32 \<Rightarrow> ocf_alock \<Rightarrow> (bool \<times> ocf_alock) option" where
  "ocf_alock_trylock_entry_wr2rd entry a = do {
     bug_on (acc a entry \<noteq> OCF_CACHE_LINE_ACCESS_WR);
     Some (True, set_acc entry OCF_CACHE_LINE_ACCESS_ONE_RD a)
   }"

definition ocf_alock_trylock_entry_rd2wr :: "u32 \<Rightarrow> ocf_alock \<Rightarrow> (bool \<times> ocf_alock) option" where
  "ocf_alock_trylock_entry_rd2wr entry a = do {
     let v = acc a entry;
     bug_on (v = OCF_CACHE_LINE_ACCESS_IDLE);
     bug_on (v = OCF_CACHE_LINE_ACCESS_WR);
     let (v, a) = cmpxchg entry OCF_CACHE_LINE_ACCESS_ONE_RD OCF_CACHE_LINE_ACCESS_WR a;
     Some (v = OCF_CACHE_LINE_ACCESS_ONE_RD, a)
   }"

definition ocf_alock_trylock_entry_rd2rd :: "u32 \<Rightarrow> ocf_alock \<Rightarrow> (bool \<times> ocf_alock) option" where
  "ocf_alock_trylock_entry_rd2rd entry a = do {
     let v = acc a entry;
     bug_on (v = OCF_CACHE_LINE_ACCESS_IDLE);
     bug_on (v = OCF_CACHE_LINE_ACCESS_WR);
     Some (True, a)
   }"

text \<open>A lock of a request is granted: the last one resumes the request.\<close>

definition ocf_alock_entry_locked :: "nat \<Rightarrow> ocf_alock \<Rightarrow> ocf_alock" where
  "ocf_alock_entry_locked r a =
     (let a = upd_req r (\<lambda>q. q\<lparr>lock_remaining := lock_remaining q - 1\<rparr>) a
      in if lock_remaining (reqs a r) = 0
         then upd_req r (\<lambda>q. q\<lparr>resumed := resumed q + 1\<rparr>) (a\<lparr>waiting := waiting a - 1\<rparr>)
         else a)"

definition env_allocator_new :: "ocf_alock \<Rightarrow> bool \<times> ocf_alock" where
  "env_allocator_new a = (case allocs a of [] \<Rightarrow> (True, a) | b # bs \<Rightarrow> (b, a\<lparr>allocs := bs\<rparr>))"

section \<open>Locking one entry\<close>

text \<open>
  Both lock functions have two atomic sections: a first attempt without the spinlock, and, when it
  fails and a waiter could be allocated, a second attempt or the registration of the waiter under the
  spinlock of the entry's waiters list. The result tells whether the lock is held or waited for
  (\<open>false\<close>: no memory for the waiter).
\<close>

definition grant :: "nat \<Rightarrow> nat \<Rightarrow> ocf_alock \<Rightarrow> ocf_alock option" where
  "grant r idx a = do {
     a \<leftarrow> ocf_alock_mark_index_locked r idx True a;
     Some (ocf_alock_entry_locked r a)
   }"

definition lock_wr_attempt :: "u32 \<Rightarrow> nat \<Rightarrow> nat \<Rightarrow> ocf_alock \<Rightarrow> (bool \<times> ocf_alock) option" where
  "lock_wr_attempt entry r idx a =
     (case ocf_alock_trylock_entry_wr entry a of
        (True, a) \<Rightarrow> do { a \<leftarrow> grant r idx a; Some (True, a) }
      | (False, a) \<Rightarrow> Some (False, a))"

definition lock_wr_wait :: "u32 \<Rightarrow> nat \<Rightarrow> nat \<Rightarrow> ocf_alock \<Rightarrow> (bool \<times> ocf_alock) option" where
  "lock_wr_wait entry r idx a =
     (case env_allocator_new a of
        (False, a) \<Rightarrow> Some (False, a)
      | (True, a) \<Rightarrow>
          (case ocf_alock_trylock_entry_wr entry a of
             (True, a) \<Rightarrow> do { a \<leftarrow> grant r idx a; Some (True, a) }
           | (False, a) \<Rightarrow>
               Some (True, ocf_alock_waitlist_add entry
                 \<lparr>w_entry = entry, w_idx = idx, w_req = r, w_rw = OCF_WRITE\<rparr> a)))"

definition ocf_alock_lock_one_wr :: "u32 \<Rightarrow> nat \<Rightarrow> nat \<Rightarrow> ocf_alock \<Rightarrow> (bool \<times> ocf_alock) option" where
  "ocf_alock_lock_one_wr entry r idx a = do {
     (locked, a) \<leftarrow> lock_wr_attempt entry r idx a;
     if locked then Some (True, a) else lock_wr_wait entry r idx a
   }"

definition lock_rd_attempt :: "u32 \<Rightarrow> nat \<Rightarrow> nat \<Rightarrow> ocf_alock \<Rightarrow> (bool \<times> ocf_alock) option" where
  "lock_rd_attempt entry r idx a =
     (case ocf_alock_trylock_entry_rd_idle entry a of
        (True, a) \<Rightarrow> do { a \<leftarrow> grant r idx a; Some (True, a) }
      | (False, a) \<Rightarrow> Some (False, a))"

definition lock_rd_wait :: "u32 \<Rightarrow> nat \<Rightarrow> nat \<Rightarrow> ocf_alock \<Rightarrow> (bool \<times> ocf_alock) option" where
  "lock_rd_wait entry r idx a =
     (case env_allocator_new a of
        (False, a) \<Rightarrow> Some (False, a)
      | (True, a) \<Rightarrow>
          (case (if ocf_alock_waitlist_is_empty_locked a entry
                 then ocf_alock_trylock_entry_rd entry a else (False, a)) of
             (True, a) \<Rightarrow> do { a \<leftarrow> grant r idx a; Some (True, a) }
           | (False, a) \<Rightarrow>
               Some (True, ocf_alock_waitlist_add entry
                 \<lparr>w_entry = entry, w_idx = idx, w_req = r, w_rw = OCF_READ\<rparr> a)))"

definition ocf_alock_lock_one_rd :: "u32 \<Rightarrow> nat \<Rightarrow> nat \<Rightarrow> ocf_alock \<Rightarrow> (bool \<times> ocf_alock) option" where
  "ocf_alock_lock_one_rd entry r idx a = do {
     (locked, a) \<leftarrow> lock_rd_attempt entry r idx a;
     if locked then Some (True, a) else lock_rd_wait entry r idx a
   }"

section \<open>Unlocking one entry\<close>

text \<open>
  The loop both unlock functions run over the waiters of the list. The first waiter of the entry is
  offered the lock that is being released (\<open>exchange\<close>), the following ones a lock of their own. The
  loop ends with the first waiter that cannot be served. Its results are the waiters that stay, and
  whether the released lock is still to be dropped.
\<close>

definition trylock_again :: "rw \<Rightarrow> u32 \<Rightarrow> ocf_alock \<Rightarrow> bool \<times> ocf_alock" where
  "trylock_again m entry a =
     (case m of OCF_WRITE \<Rightarrow> ocf_alock_trylock_entry_wr entry a | OCF_READ \<Rightarrow> ocf_alock_trylock_entry_rd entry a)"

fun wake_loop :: "(rw \<Rightarrow> u32 \<Rightarrow> ocf_alock \<Rightarrow> (bool \<times> ocf_alock) option) \<Rightarrow> u32 \<Rightarrow> ocf_alock_waiter list \<Rightarrow> bool \<Rightarrow>
    ocf_alock \<Rightarrow> (ocf_alock_waiter list \<times> bool \<times> ocf_alock) option" where
  "wake_loop exchange entry [] exchanged a = Some ([], exchanged, a)"
| "wake_loop exchange entry (w # ws) exchanged a =
     (if w_entry w \<noteq> entry then do {
        (ws', exchanged, a) \<leftarrow> wake_loop exchange entry ws exchanged a;
        Some (w # ws', exchanged, a)
      }
      else do {
        (locked, a) \<leftarrow> (if exchanged then exchange (w_rw w) entry a else Some (trylock_again (w_rw w) entry a));
        if locked then do {
          a \<leftarrow> grant (w_req w) (w_idx w) a;
          wake_loop exchange entry ws False a
        }
        else Some (w # ws, exchanged, a)
      })"

definition exchange_rd :: "rw \<Rightarrow> u32 \<Rightarrow> ocf_alock \<Rightarrow> (bool \<times> ocf_alock) option" where
  "exchange_rd m entry a =
     (case m of OCF_WRITE \<Rightarrow> ocf_alock_trylock_entry_rd2wr entry a | OCF_READ \<Rightarrow> ocf_alock_trylock_entry_rd2rd entry a)"

definition exchange_wr :: "rw \<Rightarrow> u32 \<Rightarrow> ocf_alock \<Rightarrow> (bool \<times> ocf_alock) option" where
  "exchange_wr m entry a =
     (case m of OCF_WRITE \<Rightarrow> ocf_alock_trylock_entry_wr2wr entry a | OCF_READ \<Rightarrow> ocf_alock_trylock_entry_wr2rd entry a)"

definition ocf_alock_unlock_one_rd :: "u32 \<Rightarrow> ocf_alock \<Rightarrow> ocf_alock option" where
  "ocf_alock_unlock_one_rd entry a = do {
     let idx = WAITERS_LIST_ITEM a entry;
     (ws, exchanged, a) \<leftarrow> wake_loop exchange_rd entry (waiters_lsts a idx) True a;
     let a = set_waiters idx ws a;
     if exchanged then ocf_alock_unlock_entry_rd entry a else Some a
   }"

definition ocf_alock_unlock_one_wr :: "u32 \<Rightarrow> ocf_alock \<Rightarrow> ocf_alock option" where
  "ocf_alock_unlock_one_wr entry a = do {
     let idx = WAITERS_LIST_ITEM a entry;
     (ws, exchanged, a) \<leftarrow> wake_loop exchange_wr entry (waiters_lsts a idx) True a;
     let a = set_waiters idx ws a;
     if exchanged then ocf_alock_unlock_entry_wr entry a else Some a
   }"

fun remove_waiter :: "nat \<Rightarrow> ocf_alock_waiter list \<Rightarrow> ocf_alock_waiter list" where
  "remove_waiter r [] = []"
| "remove_waiter r (w # ws) = (if w_req w = r then ws else w # remove_waiter r ws)"

definition ocf_alock_waitlist_remove_entry :: "nat \<Rightarrow> u32 \<Rightarrow> nat \<Rightarrow> rw \<Rightarrow> ocf_alock \<Rightarrow> ocf_alock option" where
  "ocf_alock_waitlist_remove_entry r entry i m a = do {
     let idx = WAITERS_LIST_ITEM a entry;
     locked \<leftarrow> ocf_alock_is_index_locked a r i;
     if locked then do {
       a \<leftarrow> (if m = OCF_READ then ocf_alock_unlock_one_rd entry a else ocf_alock_unlock_one_wr entry a);
       ocf_alock_mark_index_locked r i False a
     }
     else Some (set_waiters idx (remove_waiter r (waiters_lsts a idx)) a)
   }"

definition ocf_alock_waitlist_is_empty :: "ocf_alock \<Rightarrow> u32 \<Rightarrow> bool option" where
  "ocf_alock_waitlist_is_empty a entry = do {
     bug_on (entry \<ge> num_entries a);
     Some (ocf_alock_waitlist_is_empty_locked a entry)
   }"

definition ocf_cache_line_is_used :: "ocf_alock \<Rightarrow> u32 \<Rightarrow> bool option" where
  "ocf_cache_line_is_used a entry = do {
     bug_on (entry \<ge> num_entries a);
     if acc a entry \<noteq> 0 then Some True
     else do { e \<leftarrow> ocf_alock_waitlist_is_empty a entry; Some (\<not> e) }
   }"

definition ocf_alock_waitlist_count :: "ocf_alock \<Rightarrow> int" where
  "ocf_alock_waitlist_count a = waiting a"

section \<open>Locking all cache lines of a request\<close>

datatype lock_result = OCF_LOCK_ACQUIRED | OCF_LOCK_NOT_ACQUIRED | OCF_ERR_NO_MEM

definition core_line_count :: "ocf_alock \<Rightarrow> nat \<Rightarrow> nat" where
  "core_line_count a r = length (req_map (reqs a r))"

definition ocf_cl_lock_line_needs_lock :: "ocf_alock \<Rightarrow> nat \<Rightarrow> nat \<Rightarrow> bool" where
  "ocf_cl_lock_line_needs_lock a r i =
     (status (req_map (reqs a r) ! i) \<noteq> LOOKUP_MISS \<and> status (req_map (reqs a r) ! i) \<noteq> LOOKUP_REMAPPED)"

definition ocf_cl_lock_line_is_acting :: "ocf_alock \<Rightarrow> nat \<Rightarrow> nat \<Rightarrow> bool" where
  "ocf_cl_lock_line_is_acting a r i = (status (req_map (reqs a r) ! i) \<noteq> LOOKUP_MISS)"

definition ocf_cl_lock_line_get_entry :: "ocf_alock \<Rightarrow> nat \<Rightarrow> nat \<Rightarrow> u32" where
  "ocf_cl_lock_line_get_entry a r i = coll_idx (req_map (reqs a r) ! i)"

definition unlock_one :: "rw \<Rightarrow> u32 \<Rightarrow> ocf_alock \<Rightarrow> ocf_alock option" where
  "unlock_one m entry a = (if m = OCF_WRITE then ocf_alock_unlock_one_wr entry a else ocf_alock_unlock_one_rd entry a)"

text \<open>
  The fast path tries every line in turn (lines \<open>i\<close> to \<open>i + n - 1\<close> below) and, when one cannot be
  locked, gives back the locks of the lines up to and including that one.
\<close>

fun fast_loop :: "rw \<Rightarrow> nat \<Rightarrow> nat \<Rightarrow> nat \<Rightarrow> ocf_alock \<Rightarrow> (nat option \<times> ocf_alock) option" where
  "fast_loop m r i 0 a = Some (None, a)"
| "fast_loop m r i (Suc n) a =
     (if \<not> ocf_cl_lock_line_needs_lock a r i then fast_loop m r (Suc i) n a
      else do {
        let entry = ocf_cl_lock_line_get_entry a r i;
        locked \<leftarrow> ocf_alock_is_index_locked a r i;
        bug_on locked;
        let (got, a) = (if m = OCF_WRITE then ocf_alock_trylock_entry_wr entry a
                        else ocf_alock_trylock_entry_rd_idle entry a);
        if got then do {
          a \<leftarrow> ocf_alock_mark_index_locked r i True a;
          fast_loop m r (Suc i) n a
        }
        else Some (Some i, a)
      })"

text \<open>Lines \<open>n - 1\<close> down to \<open>0\<close>.\<close>

fun fast_discard :: "rw \<Rightarrow> nat \<Rightarrow> nat \<Rightarrow> ocf_alock \<Rightarrow> ocf_alock option" where
  "fast_discard m r 0 a = Some a"
| "fast_discard m r (Suc i) a =
     (if \<not> ocf_cl_lock_line_needs_lock a r i then fast_discard m r i a
      else do {
        let entry = ocf_cl_lock_line_get_entry a r i;
        locked \<leftarrow> ocf_alock_is_index_locked a r i;
        if locked then do {
          a \<leftarrow> unlock_one m entry a;
          a \<leftarrow> ocf_alock_mark_index_locked r i False a;
          fast_discard m r i a
        }
        else fast_discard m r i a
      })"

definition ocf_cl_lock_line_fast :: "rw \<Rightarrow> nat \<Rightarrow> ocf_alock \<Rightarrow> (lock_result \<times> ocf_alock) option" where
  "ocf_cl_lock_line_fast m r a = do {
     (stuck, a) \<leftarrow> fast_loop m r 0 (core_line_count a r) a;
     (case stuck of
        None \<Rightarrow> Some (OCF_LOCK_ACQUIRED, a)
      | Some i \<Rightarrow> do {
          a \<leftarrow> fast_discard m r (Suc i) a;
          Some (OCF_LOCK_NOT_ACQUIRED, a)
        })
   }"

fun slow_loop :: "rw \<Rightarrow> nat \<Rightarrow> nat \<Rightarrow> nat \<Rightarrow> ocf_alock \<Rightarrow> (nat option \<times> ocf_alock) option" where
  "slow_loop m r i 0 a = Some (None, a)"
| "slow_loop m r i (Suc n) a =
     (if \<not> ocf_cl_lock_line_needs_lock a r i then
        slow_loop m r (Suc i) n (upd_req r (\<lambda>q. q\<lparr>lock_remaining := lock_remaining q - 1\<rparr>) a)
      else do {
        let entry = ocf_cl_lock_line_get_entry a r i;
        locked \<leftarrow> ocf_alock_is_index_locked a r i;
        bug_on locked;
        (ok, a) \<leftarrow> (if m = OCF_WRITE then ocf_alock_lock_one_wr entry r i a else ocf_alock_lock_one_rd entry r i a);
        if ok then slow_loop m r (Suc i) n a else Some (Some i, a)
      })"

text \<open>
  The error path. The call in the source passes \<open>(i, entry)\<close> to the parameters \<open>(entry, i)\<close> of
  \<open>ocf_alock_waitlist_remove_entry\<close>, with the implicit conversions of C between \<open>uint32_t\<close> and \<open>int\<close>.
\<close>

fun slow_undo :: "rw \<Rightarrow> nat \<Rightarrow> nat \<Rightarrow> ocf_alock \<Rightarrow> ocf_alock option" where
  "slow_undo m r 0 a = Some a"
| "slow_undo m r (Suc i) a =
     (if \<not> ocf_cl_lock_line_needs_lock a r i then slow_undo m r i a
      else do {
        let entry = ocf_cl_lock_line_get_entry a r i;
        a \<leftarrow> ocf_alock_waitlist_remove_entry r (of_nat i) (unat entry) m a;
        slow_undo m r i a
      })"

definition ocf_cl_lock_line_slow :: "rw \<Rightarrow> nat \<Rightarrow> ocf_alock \<Rightarrow> (lock_result \<times> ocf_alock) option" where
  "ocf_cl_lock_line_slow m r a = do {
     (stuck, a) \<leftarrow> slow_loop m r 0 (core_line_count a r) a;
     (case stuck of
        None \<Rightarrow> Some (OCF_LOCK_ACQUIRED, a)
      | Some i \<Rightarrow> do {
          a \<leftarrow> slow_undo m r (Suc i) a;
          Some (OCF_ERR_NO_MEM, a)
        })
   }"

text \<open>\<open>ocf_alock_lock_rd\<close> and \<open>ocf_alock_lock_wr\<close> differ in the mode only.\<close>

definition ocf_alock_lock :: "rw \<Rightarrow> nat \<Rightarrow> ocf_alock \<Rightarrow> (lock_result \<times> ocf_alock) option" where
  "ocf_alock_lock m r a = do {
     bug_on (lock_remaining (reqs a r) \<noteq> 0);
     let a = upd_req r (\<lambda>q. q\<lparr>alock_rw := m\<rparr>) a;
     (lck, a) \<leftarrow> ocf_cl_lock_line_fast m r a;
     if lck \<noteq> OCF_LOCK_ACQUIRED then do {
       bug_on (lock_remaining (reqs a r) \<noteq> 0);
       let a = a\<lparr>waiting := waiting a + 1\<rparr>;
       let a = upd_req r (\<lambda>q. q\<lparr>lock_remaining := int (length (req_map q))\<rparr>) a;
       let a = upd_req r (\<lambda>q. q\<lparr>lock_remaining := lock_remaining q + 1\<rparr>) a;
       (st, a) \<leftarrow> ocf_cl_lock_line_slow m r a;
       if st = OCF_LOCK_ACQUIRED then do {
         let a = upd_req r (\<lambda>q. q\<lparr>lock_remaining := lock_remaining q - 1\<rparr>) a;
         if lock_remaining (reqs a r) = 0 then Some (OCF_LOCK_ACQUIRED, a\<lparr>waiting := waiting a - 1\<rparr>)
         else Some (lck, a)
       }
       else do {
         let a = upd_req r (\<lambda>q. q\<lparr>lock_remaining := 0\<rparr>) a;
         Some (st, a\<lparr>waiting := waiting a - 1\<rparr>)
       }
     }
     else Some (lck, a)
   }"

definition ocf_alock_lock_rd :: "nat \<Rightarrow> ocf_alock \<Rightarrow> (lock_result \<times> ocf_alock) option" where
  "ocf_alock_lock_rd r a = ocf_alock_lock OCF_READ r a"

definition ocf_alock_lock_wr :: "nat \<Rightarrow> ocf_alock \<Rightarrow> (lock_result \<times> ocf_alock) option" where
  "ocf_alock_lock_wr r a = ocf_alock_lock OCF_WRITE r a"

fun req_unlock_loop :: "rw \<Rightarrow> nat \<Rightarrow> nat \<Rightarrow> nat \<Rightarrow> ocf_alock \<Rightarrow> ocf_alock option" where
  "req_unlock_loop m r i 0 a = Some a"
| "req_unlock_loop m r i (Suc n) a =
     (if \<not> ocf_cl_lock_line_is_acting a r i then req_unlock_loop m r (Suc i) n a
      else do {
        locked \<leftarrow> ocf_alock_is_index_locked a r i;
        if \<not> locked then req_unlock_loop m r (Suc i) n a
        else do {
          let entry = ocf_cl_lock_line_get_entry a r i;
          a \<leftarrow> unlock_one m entry a;
          a \<leftarrow> ocf_alock_mark_index_locked r i False a;
          req_unlock_loop m r (Suc i) n a
        }
      })"

definition ocf_req_unlock_rd :: "nat \<Rightarrow> ocf_alock \<Rightarrow> ocf_alock option" where
  "ocf_req_unlock_rd r a = req_unlock_loop OCF_READ r 0 (core_line_count a r) a"

definition ocf_req_unlock_wr :: "nat \<Rightarrow> ocf_alock \<Rightarrow> ocf_alock option" where
  "ocf_req_unlock_wr r a = req_unlock_loop OCF_WRITE r 0 (core_line_count a r) a"

definition ocf_req_unlock :: "nat \<Rightarrow> ocf_alock \<Rightarrow> ocf_alock option" where
  "ocf_req_unlock r a =
     (if alock_rw (reqs a r) = OCF_WRITE then ocf_req_unlock_wr r a else ocf_req_unlock_rd r a)"

definition ocf_cache_line_are_waiters :: "ocf_alock \<Rightarrow> u32 \<Rightarrow> bool option" where
  "ocf_cache_line_are_waiters a line = do { e \<leftarrow> ocf_alock_waitlist_is_empty a line; Some (\<not> e) }"

section \<open>Read-over-write laws\<close>

lemma alock_store_laws [store_laws]:
  "acc (set_acc e v a) = (acc a)(e := v)" "waiters_lsts (set_acc e v a) = waiters_lsts a"
  "nbuckets (set_acc e v a) = nbuckets a" "num_entries (set_acc e v a) = num_entries a"
  "reqs (set_acc e v a) = reqs a"
  "acc (set_waiters i ws a) = acc a" "waiters_lsts (set_waiters i ws a) = (waiters_lsts a)(i := ws)"
  "nbuckets (set_waiters i ws a) = nbuckets a" "num_entries (set_waiters i ws a) = num_entries a"
  "reqs (set_waiters i ws a) = reqs a"
  "acc (upd_req r f a) = acc a" "waiters_lsts (upd_req r f a) = waiters_lsts a"
  "nbuckets (upd_req r f a) = nbuckets a" "num_entries (upd_req r f a) = num_entries a"
  "reqs (upd_req r f a) = (reqs a)(r := f (reqs a r))"
  by (simp_all add: set_acc_def set_waiters_def upd_req_def)

text \<open>
  \<open>framed E a a'\<close>: \<open>a'\<close> differs from \<open>a\<close> at most in the counters of the entries in \<open>E\<close>, in the status
  bits and counters of requests, and in the allocator.
\<close>

definition framed :: "u32 set \<Rightarrow> ocf_alock \<Rightarrow> ocf_alock \<Rightarrow> bool" where
  "framed E a a' \<longleftrightarrow> (\<forall>e. e \<notin> E \<longrightarrow> acc a' e = acc a e) \<and> waiters_lsts a' = waiters_lsts a \<and>
     nbuckets a' = nbuckets a \<and> num_entries a' = num_entries a \<and>
     (\<forall>r. length (alock_status (reqs a' r)) = length (alock_status (reqs a r)) \<and>
          req_map (reqs a' r) = req_map (reqs a r))"

lemma framed_refl [simp, intro]: "framed E a a"
  by (simp add: framed_def)

lemma framed_trans: "framed E a b \<Longrightarrow> framed E b c \<Longrightarrow> framed E a c"
  by (simp add: framed_def)

lemma framed_set_acc: "framed {e} a (set_acc e v a)"
  by (simp add: framed_def store_laws)

lemma framed_mono: "framed E a b \<Longrightarrow> E \<subseteq> F \<Longrightarrow> framed F a b"
  by (auto simp: framed_def)

lemma grant_Some:
  assumes "idx < length (alock_status (reqs a r))"
  shows "\<exists>a'. grant r idx a = Some a' \<and> framed {} a a'"
  using assms
  by (auto simp: grant_def ocf_alock_mark_index_locked_def ocf_alock_entry_locked_def framed_def Let_def store_laws)

lemma framed_acc: "framed {} a b \<Longrightarrow> acc b = acc a"
  by (auto simp: framed_def)

section \<open>The counter and the holders of an entry\<close>

text \<open>
  \<open>cnt_ok v hr hw\<close>: the counter value \<open>v\<close> of an entry held by \<open>hr\<close> readers and \<open>hw\<close> writers. The
  second definition counts the waiters of an entry.
\<close>

definition cnt_ok :: "int \<Rightarrow> nat \<Rightarrow> nat \<Rightarrow> bool" where
  "cnt_ok v hr hw \<longleftrightarrow>
     (hw = 1 \<and> hr = 0 \<and> v = OCF_CACHE_LINE_ACCESS_WR) \<or>
     (hw = 0 \<and> v = int hr \<and> v < OCF_CACHE_LINE_ACCESS_WR)"

definition cnt :: "rw \<Rightarrow> u32 \<Rightarrow> ocf_alock_waiter list \<Rightarrow> nat" where
  "cnt m e ws = length (filter (\<lambda>w. w_entry w = e \<and> w_rw w = m) ws)"

lemma cnt_simps [simp]:
  "cnt m e [] = 0"
  "cnt m e (w # ws) = (if w_entry w = e \<and> w_rw w = m then 1 else 0) + cnt m e ws"
  "cnt m e (ws @ ws') = cnt m e ws + cnt m e ws'"
  by (simp_all add: cnt_def)

definition exchange :: "rw \<Rightarrow> rw \<Rightarrow> u32 \<Rightarrow> ocf_alock \<Rightarrow> (bool \<times> ocf_alock) option" where
  "exchange m = (case m of OCF_READ \<Rightarrow> exchange_rd | OCF_WRITE \<Rightarrow> exchange_wr)"

text \<open>The number of locks of mode \<open>m'\<close> that the release of a lock of mode \<open>m\<close> takes away.\<close>

definition one :: "rw \<Rightarrow> rw \<Rightarrow> nat" where
  "one m m' = (if m = m' then 1 else 0)"

lemma one_simps [simp]: "one m m = 1" "m \<noteq> m' \<Longrightarrow> one m m' = 0"
  by (simp_all add: one_def)

lemma exchange_spec:
  assumes "cnt_ok (acc a e) hr hw" and held: "m = OCF_READ \<Longrightarrow> hr > 0" "m = OCF_WRITE \<Longrightarrow> hw > 0"
  shows "\<exists>b a'. exchange m m' e a = Some (b, a') \<and> framed {e} a a' \<and>
    (\<not> b \<longrightarrow> a' = a \<and> m = OCF_READ \<and> hr > 1) \<and>
    (b \<longrightarrow> (\<exists>hr' hw'. cnt_ok (acc a' e) hr' hw' \<and> hr' + one m OCF_READ = hr + one m' OCF_READ \<and>
       hw' + one m OCF_WRITE = hw + one m' OCF_WRITE))"
proof (cases m)
  case OCF_READ
  then have v: "acc a e = int hr" "hr > 0" "hw = 0" "int hr < 2147483647"
    using assms by (auto simp: cnt_ok_def access_defs)
  show ?thesis
  proof (cases m')
    case rd: OCF_READ
    with v OCF_READ have "exchange m m' e a = Some (True, a)"
      by (simp add: exchange_def exchange_rd_def ocf_alock_trylock_entry_rd2rd_def access_defs)
    with assms(1) OCF_READ rd show ?thesis by auto
  next
    case wr: OCF_WRITE
    show ?thesis
    proof (cases "hr = 1")
      case True
      then have "exchange m m' e a = Some (True, set_acc e OCF_CACHE_LINE_ACCESS_WR a)"
        using v OCF_READ wr
        by (simp add: exchange_def exchange_rd_def ocf_alock_trylock_entry_rd2wr_def access_defs cmpxchg_def)
      with True OCF_READ wr v(3) show ?thesis
        by (auto simp: framed_set_acc store_laws cnt_ok_def intro!: exI [of _ 0] exI [of _ 1])
    next
      case False
      then have "exchange m m' e a = Some (False, a)"
        using v OCF_READ wr
        by (simp add: exchange_def exchange_rd_def ocf_alock_trylock_entry_rd2wr_def access_defs cmpxchg_def)
      with False OCF_READ v(2) show ?thesis by auto
    qed
  qed
next
  case OCF_WRITE
  then have v: "acc a e = 2147483647" "hr = 0" "hw = 1"
    using assms by (auto simp: cnt_ok_def access_defs)
  show ?thesis
  proof (cases m')
    case wr: OCF_WRITE
    with v OCF_WRITE have "exchange m m' e a = Some (True, a)"
      by (simp add: exchange_def exchange_wr_def ocf_alock_trylock_entry_wr2wr_def access_defs)
    with assms(1) OCF_WRITE wr show ?thesis by auto
  next
    case rd: OCF_READ
    with v OCF_WRITE have "exchange m m' e a = Some (True, set_acc e 1 a)"
      by (simp add: exchange_def exchange_wr_def ocf_alock_trylock_entry_wr2rd_def access_defs)
    with OCF_WRITE rd v show ?thesis
      by (auto simp: framed_set_acc store_laws cnt_ok_def access_defs)
  qed
qed

lemma trylock_again_spec:
  assumes "cnt_ok (acc a e) hr hw" "hr + hw > 0" "m = OCF_READ \<Longrightarrow> int hr + 1 < OCF_CACHE_LINE_ACCESS_WR"
  shows "\<exists>b a'. trylock_again m e a = (b, a') \<and> framed {e} a a' \<and> (\<not> b \<longrightarrow> a' = a) \<and>
    (b \<longrightarrow> m = OCF_READ \<and> hw = 0 \<and> cnt_ok (acc a' e) (hr + 1) hw)"
proof (cases m)
  case OCF_WRITE
  have "acc a e \<noteq> 0" using assms by (auto simp: cnt_ok_def access_defs)
  with OCF_WRITE have "trylock_again m e a = (False, a)"
    by (simp add: trylock_again_def ocf_alock_trylock_entry_wr_def cmpxchg_def access_defs)
  then show ?thesis by auto
next
  case OCF_READ
  show ?thesis
  proof (cases "hw = 0")
    case True
    with assms OCF_READ have v: "acc a e = int hr" "int hr + 1 < 2147483647" by (auto simp: cnt_ok_def access_defs)
    with OCF_READ have "trylock_again m e a = (True, set_acc e (int hr + 1) a)"
      by (simp add: trylock_again_def ocf_alock_trylock_entry_rd_def add_unless_def access_defs)
    with True OCF_READ v(2) show ?thesis
      by (auto simp: framed_set_acc store_laws cnt_ok_def access_defs)
  next
    case False
    with assms have "acc a e = OCF_CACHE_LINE_ACCESS_WR" by (auto simp: cnt_ok_def)
    with OCF_READ have "trylock_again m e a = (False, a)"
      by (simp add: trylock_again_def ocf_alock_trylock_entry_rd_def add_unless_def)
    then show ?thesis by auto
  qed
qed


text \<open>The offer of a lock to one waiter of mode \<open>m'\<close>.\<close>

lemma offer_spec:
  assumes ok: "cnt_ok (acc a e) hr hw"
    and held: "exchanged \<longrightarrow> (m = OCF_READ \<longrightarrow> hr > 0) \<and> (m = OCF_WRITE \<longrightarrow> hw > 0)"
    and others: "\<not> exchanged \<longrightarrow> hr + hw > 0"
    and room: "m' = OCF_READ \<longrightarrow> int hr + 1 < OCF_CACHE_LINE_ACCESS_WR"
  obtains b a1 where "(if exchanged then exchange m m' e a else Some (trylock_again m' e a)) = Some (b, a1)"
    "framed {e} a a1" "\<not> b \<longrightarrow> a1 = a \<and> (exchanged \<longrightarrow> m = OCF_READ \<and> hr > 1)"
    "b \<longrightarrow> (\<exists>hr1 hw1. cnt_ok (acc a1 e) hr1 hw1 \<and> hr1 + hw1 > 0 \<and>
       hr1 + (if exchanged then one m OCF_READ else 0) = hr + one m' OCF_READ \<and>
       hw1 + (if exchanged then one m OCF_WRITE else 0) = hw + one m' OCF_WRITE)"
proof (cases exchanged)
  case True
  with held exchange_spec [OF ok, of m m'] obtain b a1 where
    e: "exchange m m' e a = Some (b, a1)" "framed {e} a a1" "\<not> b \<longrightarrow> a1 = a \<and> m = OCF_READ \<and> hr > 1"
    "b \<longrightarrow> (\<exists>hr' hw'. cnt_ok (acc a1 e) hr' hw' \<and> hr' + one m OCF_READ = hr + one m' OCF_READ \<and>
       hw' + one m OCF_WRITE = hw + one m' OCF_WRITE)"
    by auto
  have "hr' + hw' > 0" if "hr' + one m OCF_READ = hr + one m' OCF_READ"
    "hw' + one m OCF_WRITE = hw + one m' OCF_WRITE" for hr' hw'
    using that held True by (cases m; cases m') auto
  with e True that [of b a1] show ?thesis by auto
next
  case False
  have "\<exists>b a'. trylock_again m' e a = (b, a') \<and> framed {e} a a' \<and> (\<not> b \<longrightarrow> a' = a) \<and>
    (b \<longrightarrow> m' = OCF_READ \<and> hw = 0 \<and> cnt_ok (acc a' e) (hr + 1) hw)"
    using others False room by (intro trylock_again_spec [OF ok]) auto
  then obtain b a1 where t: "trylock_again m' e a = (b, a1)" "framed {e} a a1" "\<not> b \<longrightarrow> a1 = a"
    "b \<longrightarrow> m' = OCF_READ \<and> hw = 0 \<and> cnt_ok (acc a1 e) (hr + 1) hw"
    by blast
  with False show ?thesis by (intro that [of b a1]) auto
qed

text \<open>What the release of a lock of mode \<open>m\<close> leaves behind, by the outcome of the loop.\<close>

definition woken :: "rw \<Rightarrow> u32 \<Rightarrow> bool \<Rightarrow> nat \<Rightarrow> nat \<Rightarrow> ocf_alock_waiter list \<Rightarrow> ocf_alock_waiter list \<Rightarrow> ocf_alock \<Rightarrow> bool" where
  "woken m e exchanged hr hw ws ws' a' \<longleftrightarrow>
     (\<exists>hr' hw'. cnt_ok (acc a' e) hr' hw' \<and> hr' + hw' > 0 \<and>
        hr' + cnt OCF_READ e ws' + (if exchanged then one m OCF_READ else 0) = hr + cnt OCF_READ e ws \<and>
        hw' + cnt OCF_WRITE e ws' + (if exchanged then one m OCF_WRITE else 0) = hw + cnt OCF_WRITE e ws)"

lemma wake_loop_spec:
  assumes "cnt_ok (acc a e) hr hw"
    and "exchanged \<longrightarrow> (m = OCF_READ \<longrightarrow> hr > 0) \<and> (m = OCF_WRITE \<longrightarrow> hw > 0)"
    and "\<not> exchanged \<longrightarrow> hr + hw > 0"
    and "int hr + int (cnt OCF_READ e ws) < OCF_CACHE_LINE_ACCESS_WR"
    and "\<forall>w \<in> set ws. w_idx w < length (alock_status (reqs a (w_req w)))"
  shows "\<exists>ws' ex' a'. wake_loop (exchange m) e ws exchanged a = Some (ws', ex', a') \<and> framed {e} a a' \<and>
    set ws' \<subseteq> set ws \<and> (\<forall>m' e'. e' \<noteq> e \<longrightarrow> cnt m' e' ws' = cnt m' e' ws) \<and>
    (ex' \<longrightarrow> exchanged \<and> a' = a \<and> ws' = ws \<and>
       (cnt OCF_READ e ws + cnt OCF_WRITE e ws > 0 \<longrightarrow> m = OCF_READ \<and> hr > 1)) \<and>
    (\<not> ex' \<longrightarrow> woken m e exchanged hr hw ws ws' a')"
  using assms
proof (induction ws arbitrary: exchanged a hr hw)
  case Nil
  then show ?case by (cases exchanged) (auto simp: woken_def)
next
  case (Cons w ws)
  show ?case
  proof (cases "w_entry w = e")
    case False
    have c: "cnt m' e (w # ws) = cnt m' e ws" for m' using False by simp
    have "\<exists>ws' ex' a'. wake_loop (exchange m) e ws exchanged a = Some (ws', ex', a') \<and> framed {e} a a' \<and>
      set ws' \<subseteq> set ws \<and> (\<forall>m' e'. e' \<noteq> e \<longrightarrow> cnt m' e' ws' = cnt m' e' ws) \<and>
      (ex' \<longrightarrow> exchanged \<and> a' = a \<and> ws' = ws \<and>
         (cnt OCF_READ e ws + cnt OCF_WRITE e ws > 0 \<longrightarrow> m = OCF_READ \<and> hr > 1)) \<and>
      (\<not> ex' \<longrightarrow> woken m e exchanged hr hw ws ws' a')"
      using Cons.prems unfolding c by (intro Cons.IH) simp_all
    then obtain ws' ex' a' where r: "wake_loop (exchange m) e ws exchanged a = Some (ws', ex', a')"
      "framed {e} a a'" "set ws' \<subseteq> set ws" "\<forall>m' e'. e' \<noteq> e \<longrightarrow> cnt m' e' ws' = cnt m' e' ws"
      "ex' \<longrightarrow> exchanged \<and> a' = a \<and> ws' = ws \<and>
         (cnt OCF_READ e ws + cnt OCF_WRITE e ws > 0 \<longrightarrow> m = OCF_READ \<and> hr > 1)"
      "\<not> ex' \<longrightarrow> woken m e exchanged hr hw ws ws' a'"
      by (elim exE conjE) (rule that)
    have "wake_loop (exchange m) e (w # ws) exchanged a = Some (w # ws', ex', a')"
      using r(1) False by simp
    moreover have "woken m e exchanged hr hw (w # ws) (w # ws') a' = woken m e exchanged hr hw ws ws' a'"
      using False by (simp add: woken_def)
    ultimately show ?thesis using r(2-6) c by fastforce
  next
    case True
    let ?offer = "if exchanged then exchange m (w_rw w) e a else Some (trylock_again (w_rw w) e a)"
    have "exchanged \<longrightarrow> (m = OCF_READ \<longrightarrow> hr > 0) \<and> (m = OCF_WRITE \<longrightarrow> hw > 0)" "\<not> exchanged \<longrightarrow> hr + hw > 0"
      "w_rw w = OCF_READ \<longrightarrow> int hr + 1 < OCF_CACHE_LINE_ACCESS_WR"
      using Cons.prems(2-4) True by auto
    with Cons.prems(1) obtain b a1 where offer: "?offer = Some (b, a1)" and fr: "framed {e} a a1"
      and no: "\<not> b \<longrightarrow> a1 = a \<and> (exchanged \<longrightarrow> m = OCF_READ \<and> hr > 1)"
      and yes: "b \<longrightarrow> (\<exists>hr1 hw1. cnt_ok (acc a1 e) hr1 hw1 \<and> hr1 + hw1 > 0 \<and>
         hr1 + (if exchanged then one m OCF_READ else 0) = hr + one (w_rw w) OCF_READ \<and>
         hw1 + (if exchanged then one m OCF_WRITE else 0) = hw + one (w_rw w) OCF_WRITE)"
      by (rule offer_spec)
    have step: "wake_loop (exchange m) e (w # ws) exchanged a =
      (if b then grant (w_req w) (w_idx w) a1 \<bind> wake_loop (exchange m) e ws False
       else Some (w # ws, exchanged, a1))"
      using True offer by (cases exchanged) auto
    show ?thesis
    proof (cases b)
      case False
      have "\<not> exchanged \<Longrightarrow> woken m e exchanged hr hw (w # ws) (w # ws) a"
        using Cons.prems(1,3) by (auto simp: woken_def)
      with False step no show ?thesis by auto
    next
      case b: True
      from yes b obtain hr1 hw1 where h1: "cnt_ok (acc a1 e) hr1 hw1" "hr1 + hw1 > 0"
         "hr1 + (if exchanged then one m OCF_READ else 0) = hr + one (w_rw w) OCF_READ"
         "hw1 + (if exchanged then one m OCF_WRITE else 0) = hw + one (w_rw w) OCF_WRITE"
        by blast
      have len: "\<forall>w \<in> set (w # ws). w_idx w < length (alock_status (reqs a1 (w_req w)))"
        using Cons.prems(5) fr by (auto simp: framed_def)
      then obtain a2 where g: "grant (w_req w) (w_idx w) a1 = Some a2" "framed {} a1 a2"
        using grant_Some [of "w_idx w" a1 "w_req w"] by auto
      have "int hr1 + int (cnt OCF_READ e ws) \<le> int hr + int (cnt OCF_READ e (w # ws))"
        using h1(3) True by (cases "w_rw w") auto
      then have bound: "int hr1 + int (cnt OCF_READ e ws) < OCF_CACHE_LINE_ACCESS_WR"
        using Cons.prems(4) by linarith
      have "\<forall>w \<in> set ws. w_idx w < length (alock_status (reqs a2 (w_req w)))"
        using len g(2) by (auto simp: framed_def)
      with h1(1,2) bound Cons.IH [of a2 hr1 hw1 False] framed_acc [OF g(2)]
      obtain ws' ex' a' where r: "wake_loop (exchange m) e ws False a2 = Some (ws', ex', a')" "framed {e} a2 a'"
        "set ws' \<subseteq> set ws" "\<forall>m' e'. e' \<noteq> e \<longrightarrow> cnt m' e' ws' = cnt m' e' ws"
        "\<not> ex'" "woken m e False hr1 hw1 ws ws' a'"
        by auto
      have "framed {e} a a'"
        using fr framed_mono [OF g(2), of "{e}"] r(2) by (blast intro: framed_trans)
      moreover have "woken m e exchanged hr hw (w # ws) ws' a'"
      proof -
        from r(6) obtain hr' hw' where "cnt_ok (acc a' e) hr' hw'" "hr' + hw' > 0"
          "hr' + cnt OCF_READ e ws' = hr1 + cnt OCF_READ e ws" "hw' + cnt OCF_WRITE e ws' = hw1 + cnt OCF_WRITE e ws"
          by (auto simp: woken_def)
        with h1(3,4) True show ?thesis
          unfolding woken_def by (intro exI [of _ hr'] exI [of _ hw']) (cases "w_rw w"; auto)
      qed
      ultimately show ?thesis
        using step b g(1) r True by auto
    qed
  qed
qed

lemma wake_loop_cnt:
  "wake_loop x e ws ex a = Some (ws', ex', a') \<Longrightarrow> cnt m' e' ws' \<le> cnt m' e' ws"
  by (induction x e ws ex a arbitrary: ws' ex' a' rule: wake_loop.induct)
    (fastforce split: if_splits bind_splits prod.splits)+

section \<open>The lock invariant\<close>

text \<open>
  \<open>H e m\<close> is the number of locks of mode \<open>m\<close> that are currently granted on entry \<open>e\<close>. It is not a
  program variable: the program only has the counter. The invariant says that the counter encodes
  the holders (one writer or any number of readers), that an entry with waiters is held by somebody,
  who will serve them when unlocking, and that registered waiters refer to existing status bits.
\<close>

type_synonym holders = "u32 \<Rightarrow> rw \<Rightarrow> nat"

definition nwait :: "ocf_alock \<Rightarrow> rw \<Rightarrow> u32 \<Rightarrow> nat" where
  "nwait a m e = cnt m e (waiters_lsts a (WAITERS_LIST_ITEM a e))"

definition lock_inv :: "nat \<Rightarrow> ocf_alock \<Rightarrow> holders \<Rightarrow> bool" where
  "lock_inv n a H \<longleftrightarrow>
     (\<forall>e. cnt_ok (acc a e) (H e OCF_READ) (H e OCF_WRITE)) \<and>
     (\<forall>e. nwait a OCF_READ e + nwait a OCF_WRITE e > 0 \<longrightarrow> H e OCF_READ + H e OCF_WRITE > 0) \<and>
     (\<forall>e. H e OCF_READ + nwait a OCF_READ e \<le> n) \<and>
     (\<forall>i. \<forall>w \<in> set (waiters_lsts a i). w_idx w < length (alock_status (reqs a (w_req w))))"

definition acquired :: "u32 \<Rightarrow> rw \<Rightarrow> holders \<Rightarrow> holders" where
  "acquired e m H = H(e := (H e)(m := H e m + 1))"

definition released :: "u32 \<Rightarrow> rw \<Rightarrow> ocf_alock \<Rightarrow> ocf_alock \<Rightarrow> holders \<Rightarrow> holders" where
  "released e m a a' H = H(e := (\<lambda>m'. H e m' - one m m' + (nwait a m' e - nwait a' m' e)))"

lemma lock_inv_framed:
  assumes "lock_inv n a H" "framed {} a a'"
  shows "lock_inv n a' H"
proof -
  have "acc a' = acc a" "waiters_lsts a' = waiters_lsts a" "nbuckets a' = nbuckets a"
    "\<And>r. length (alock_status (reqs a' r)) = length (alock_status (reqs a r))"
    using assms(2) by (auto simp: framed_def)
  with assms(1) show ?thesis by (simp add: lock_inv_def nwait_def WAITERS_LIST_ITEM_def)
qed

lemma lock_inv_mono: "lock_inv n a H \<Longrightarrow> n \<le> n' \<Longrightarrow> lock_inv n' a H"
  unfolding lock_inv_def by (meson order_trans)

lemma unlock_one_eq:
  "unlock_one m entry a = do {
     let idx = WAITERS_LIST_ITEM a entry;
     (ws, exchanged, a) \<leftarrow> wake_loop (exchange m) entry (waiters_lsts a idx) True a;
     let a = set_waiters idx ws a;
     if exchanged then (if m = OCF_WRITE then ocf_alock_unlock_entry_wr entry a else ocf_alock_unlock_entry_rd entry a)
     else Some a
   }"
  by (cases m; hypsubst) (simp_all add: unlock_one_def exchange_def ocf_alock_unlock_one_rd_def ocf_alock_unlock_one_wr_def Let_def cong: if_cong)

lemma nwait_set_waiters:
  assumes "framed E a a'" "\<And>m' e'. e' \<noteq> e \<Longrightarrow> cnt m' e' ws = cnt m' e' (waiters_lsts a (WAITERS_LIST_ITEM a e))"
  shows "e' \<noteq> e \<Longrightarrow> nwait (set_waiters (WAITERS_LIST_ITEM a e) ws a') m e' = nwait a m e'"
    and "nwait (set_waiters (WAITERS_LIST_ITEM a e) ws a') m e = cnt m e ws"
  using assms by (auto simp: nwait_def WAITERS_LIST_ITEM_def store_laws framed_def)

lemma nwait_set_acc [simp]: "nwait (set_acc e v a) = nwait a"
  by (simp add: fun_eq_iff nwait_def WAITERS_LIST_ITEM_def store_laws)

text \<open>Dropping a lock that no waiter took over.\<close>

lemma unlock_entry_spec:
  assumes inv: "lock_inv n a H" and held: "H e m > 0"
    and w: "nwait a OCF_READ e + nwait a OCF_WRITE e > 0 \<longrightarrow> m = OCF_READ \<and> H e OCF_READ > 1"
  shows "\<exists>a'. (if m = OCF_WRITE then ocf_alock_unlock_entry_wr e a else ocf_alock_unlock_entry_rd e a) = Some a' \<and>
    lock_inv n a' (released e m a a' H) \<and> nwait a' = nwait a"
proof -
  have ok: "cnt_ok (acc a e) (H e OCF_READ) (H e OCF_WRITE)" using inv by (simp add: lock_inv_def)
  define v where "v = (if m = OCF_WRITE then 0 else acc a e - 1)"
  have ok': "cnt_ok v (H e OCF_READ - one m OCF_READ) (H e OCF_WRITE - one m OCF_WRITE)"
    using ok held by (cases m) (auto simp: cnt_ok_def v_def access_defs)
  have "(if m = OCF_WRITE then ocf_alock_unlock_entry_wr e a else ocf_alock_unlock_entry_rd e a) = Some (set_acc e v a)"
    using ok held
    by (cases m) (auto simp: ocf_alock_unlock_entry_wr_def ocf_alock_unlock_entry_rd_def cnt_ok_def v_def access_defs)
  moreover have "lock_inv n (set_acc e v a) (released e m a (set_acc e v a) H)"
  proof -
    have "H e OCF_READ - one m OCF_READ + nwait a OCF_READ e \<le> n"
      using inv unfolding lock_inv_def by (metis add_le_mono1 diff_le_self le_trans)
    with inv ok' w show ?thesis unfolding lock_inv_def by (auto simp: released_def store_laws)
  qed
  ultimately show ?thesis by simp
qed

text \<open>Releasing a lock that is held never fails an assertion and keeps the invariant.\<close>

lemma unlock_one_spec:
  assumes inv: "lock_inv n a H" and n: "int n < OCF_CACHE_LINE_ACCESS_WR" and held: "H e m > 0"
  shows "\<exists>a'. unlock_one m e a = Some a' \<and> lock_inv n a' (released e m a a' H) \<and>
    (\<forall>m'. nwait a' m' e \<le> nwait a m' e)"
proof -
  let ?ws = "waiters_lsts a (WAITERS_LIST_ITEM a e)" and ?hr = "H e OCF_READ" and ?hw = "H e OCF_WRITE"
  have i1: "cnt_ok (acc a e) ?hr ?hw" and i2: "?hr + cnt OCF_READ e ?ws \<le> n"
    and i3: "\<forall>w \<in> set ?ws. w_idx w < length (alock_status (reqs a (w_req w)))"
    using inv by (auto simp: lock_inv_def nwait_def)
  have b: "int ?hr + int (cnt OCF_READ e ?ws) < OCF_CACHE_LINE_ACCESS_WR" using i2 n by linarith
  have held': "True \<longrightarrow> (m = OCF_READ \<longrightarrow> ?hr > 0) \<and> (m = OCF_WRITE \<longrightarrow> ?hw > 0)" "\<not> True \<longrightarrow> ?hr + ?hw > 0"
    using held by (cases m; simp)+
  obtain ws' ex' a1 where loop: "wake_loop (exchange m) e ?ws True a = Some (ws', ex', a1)"
    and fr: "framed {e} a a1" and sub: "set ws' \<subseteq> set ?ws"
    and oth: "\<forall>m' e'. e' \<noteq> e \<longrightarrow> cnt m' e' ws' = cnt m' e' ?ws"
    and ex: "ex' \<longrightarrow> a1 = a \<and> ws' = ?ws \<and>
       (cnt OCF_READ e ?ws + cnt OCF_WRITE e ?ws > 0 \<longrightarrow> m = OCF_READ \<and> ?hr > 1)"
    and wk: "\<not> ex' \<longrightarrow> woken m e True ?hr ?hw ?ws ws' a1"
    using wake_loop_spec [OF i1 held' b i3] by (elim exE conjE) (rule that, simp_all)
  show ?thesis
  proof (cases ex')
    case True
    with ex have "a1 = a" "ws' = ?ws" by auto
    then have "set_waiters (WAITERS_LIST_ITEM a e) ws' a1 = a" by (simp add: set_waiters_def)
    with loop True have "unlock_one m e a =
        (if m = OCF_WRITE then ocf_alock_unlock_entry_wr e a else ocf_alock_unlock_entry_rd e a)"
      by (simp add: unlock_one_eq Let_def)
    with unlock_entry_spec [OF inv held] True ex show ?thesis by (fastforce simp: nwait_def)
  next
    case False
    let ?a = "set_waiters (WAITERS_LIST_ITEM a e) ws' a1"
    from wk False obtain hr' hw' where w: "cnt_ok (acc a1 e) hr' hw'" "hr' + hw' > 0"
      "hr' + cnt OCF_READ e ws' + one m OCF_READ = ?hr + cnt OCF_READ e ?ws"
      "hw' + cnt OCF_WRITE e ws' + one m OCF_WRITE = ?hw + cnt OCF_WRITE e ?ws"
      by (auto simp: woken_def)
    have nw: "nwait ?a m' e = cnt m' e ws'" "e' \<noteq> e \<Longrightarrow> nwait ?a m' e' = nwait a m' e'" for m' e'
      using nwait_set_waiters [OF fr] oth by auto
    have le: "cnt m' e ws' \<le> cnt m' e ?ws" for m'
      by (rule wake_loop_cnt [OF loop])
    have rel: "released e m a ?a H e OCF_READ = hr'" "released e m a ?a H e OCF_WRITE = hw'"
      unfolding released_def nw(1) unfolding nwait_def fun_upd_same
      using w(3,4) le [of OCF_READ] le [of OCF_WRITE] held by (cases m; simp)+
    have same: "e' \<noteq> e \<Longrightarrow> released e m a ?a H e' = H e'" "e' \<noteq> e \<Longrightarrow> acc ?a e' = acc a e'" "acc ?a e = acc a1 e" for e'
      using fr by (auto simp: released_def store_laws framed_def)
    have st: "\<forall>i. \<forall>w \<in> set (waiters_lsts ?a i). w_idx w < length (alock_status (reqs ?a (w_req w)))"
      using inv fr sub by (auto simp: lock_inv_def framed_def store_laws)
    have "cnt_ok (acc ?a e') (released e m a ?a H e' OCF_READ) (released e m a ?a H e' OCF_WRITE) \<and>
      (nwait ?a OCF_READ e' + nwait ?a OCF_WRITE e' > 0 \<longrightarrow>
         released e m a ?a H e' OCF_READ + released e m a ?a H e' OCF_WRITE > 0) \<and>
      released e m a ?a H e' OCF_READ + nwait ?a OCF_READ e' \<le> n" for e'
      using inv w rel same nw i2 by (cases "e' = e") (auto simp: lock_inv_def)
    with st have "lock_inv n ?a (released e m a ?a H)" by (simp add: lock_inv_def)
    moreover have "\<forall>m'. nwait ?a m' e \<le> nwait a m' e" unfolding nw(1) unfolding nwait_def using le by simp
    ultimately show ?thesis using loop False by (simp add: unlock_one_eq Let_def)
  qed
qed

lemma lock_inv_idle:
  assumes "lock_inv n a H" "acc a e = 0"
  shows "H e m = 0" "nwait a m e = 0"
proof -
  have "cnt_ok (acc a e) (H e OCF_READ) (H e OCF_WRITE)"
    and w: "nwait a OCF_READ e + nwait a OCF_WRITE e > 0 \<longrightarrow> H e OCF_READ + H e OCF_WRITE > 0"
    using assms(1) by (auto simp: lock_inv_def)
  with assms(2) have h: "H e OCF_READ = 0" "H e OCF_WRITE = 0" by (auto simp: cnt_ok_def access_defs)
  with w show "H e m = 0" "nwait a m e = 0" by (cases m; simp)+
qed

lemma lock_inv_not_idle: "lock_inv n a H \<Longrightarrow> acc a e \<noteq> 0 \<Longrightarrow> H e OCF_READ + H e OCF_WRITE > 0"
proof -
  assume "lock_inv n a H" "acc a e \<noteq> 0"
  then have "cnt_ok (acc a e) (H e OCF_READ) (H e OCF_WRITE)" "acc a e \<noteq> 0" by (auto simp: lock_inv_def)
  then show ?thesis by (auto simp: cnt_ok_def)
qed

text \<open>A lock taken through the counter: \<open>v\<close> is its new value.\<close>

lemma lock_inv_acquire:
  assumes inv: "lock_inv n a H" and n: "int (Suc n) < OCF_CACHE_LINE_ACCESS_WR"
    and v: "m = OCF_WRITE \<longrightarrow> acc a e = 0 \<and> v = OCF_CACHE_LINE_ACCESS_WR"
      "m = OCF_READ \<longrightarrow> acc a e \<noteq> OCF_CACHE_LINE_ACCESS_WR \<and> v = acc a e + 1"
  shows "lock_inv (Suc n) (set_acc e v a) (acquired e m H)"
proof -
  have e: "cnt_ok (acc a e') (H e' OCF_READ) (H e' OCF_WRITE)" "H e' OCF_READ + nwait a OCF_READ e' \<le> n" for e'
    using inv by (auto simp: lock_inv_def)
  have "cnt_ok v (acquired e m H e OCF_READ) (acquired e m H e OCF_WRITE)"
  proof (cases m)
    case OCF_WRITE
    with v lock_inv_idle [OF inv, of e] show ?thesis by (simp add: acquired_def cnt_ok_def)
  next
    case OCF_READ
    with v(2) e(1) [of e] have "H e OCF_WRITE = 0" "v = int (H e OCF_READ) + 1" by (auto simp: cnt_ok_def)
    with OCF_READ e(2) [of e] n show ?thesis by (simp add: acquired_def cnt_ok_def)
  qed
  then have "cnt_ok (acc (set_acc e v a) e') (acquired e m H e' OCF_READ) (acquired e m H e' OCF_WRITE)" for e'
    using e(1) by (cases "e' = e") (simp_all add: store_laws acquired_def)
  moreover have "acquired e m H e' OCF_READ + nwait a OCF_READ e' \<le> Suc n" for e'
    using e(2) [of e'] by (auto simp: acquired_def)
  moreover have "nwait a OCF_READ e' + nwait a OCF_WRITE e' > 0 \<longrightarrow>
      acquired e m H e' OCF_READ + acquired e m H e' OCF_WRITE > 0" for e'
    using inv by (cases m) (auto simp: lock_inv_def acquired_def)
  ultimately show ?thesis
    using inv unfolding lock_inv_def nwait_set_acc by (simp add: store_laws)
qed

lemma nwait_add:
  "nwait (ocf_alock_waitlist_add e w a) m e' =
     nwait a m e' + (if WAITERS_LIST_ITEM a e' = WAITERS_LIST_ITEM a e \<and> w_entry w = e' \<and> w_rw w = m then 1 else 0)"
  by (simp add: nwait_def ocf_alock_waitlist_add_def WAITERS_LIST_ITEM_def store_laws Let_def)

lemma lock_inv_enqueue:
  assumes inv: "lock_inv n a H" and busy: "acc a e \<noteq> 0"
    and w: "w_entry w = e" "w_idx w < length (alock_status (reqs a (w_req w)))"
  shows "lock_inv (Suc n) (ocf_alock_waitlist_add e w a) H"
proof -
  let ?a = "ocf_alock_waitlist_add e w a"
  have fields: "acc ?a = acc a" "reqs ?a = reqs a"
    by (simp_all add: ocf_alock_waitlist_add_def Let_def store_laws)
  have "set (waiters_lsts ?a i) \<subseteq> insert w (set (waiters_lsts a i))" for i
    by (auto simp: ocf_alock_waitlist_add_def Let_def store_laws)
  then have "\<forall>i. \<forall>w \<in> set (waiters_lsts ?a i). w_idx w < length (alock_status (reqs ?a (w_req w)))"
    using inv w(2) unfolding lock_inv_def fields by blast
  moreover have "H e' OCF_READ + nwait ?a OCF_READ e' \<le> Suc n" for e'
  proof -
    have "H e' OCF_READ + nwait a OCF_READ e' \<le> n" using inv by (simp add: lock_inv_def)
    then show ?thesis by (auto simp: nwait_add)
  qed
  moreover have "nwait ?a OCF_READ e' + nwait ?a OCF_WRITE e' > 0 \<longrightarrow> H e' OCF_READ + H e' OCF_WRITE > 0" for e'
    using inv lock_inv_not_idle [OF inv busy] w(1) by (cases "e' = e") (auto simp: lock_inv_def nwait_add)
  ultimately show ?thesis
    using inv unfolding lock_inv_def fields by blast
qed

lemma cnt_remove_waiter: "cnt m e (remove_waiter r ws) \<le> cnt m e ws" "set (remove_waiter r ws) \<subseteq> set ws"
  by (induction ws) auto

lemma lock_inv_cancel:
  assumes inv: "lock_inv n a H"
  shows "lock_inv n (set_waiters i (remove_waiter r (waiters_lsts a i)) a) H"
proof -
  let ?a = "set_waiters i (remove_waiter r (waiters_lsts a i)) a"
  have le: "nwait ?a m e \<le> nwait a m e" for m e
    using cnt_remove_waiter(1) by (simp add: nwait_def WAITERS_LIST_ITEM_def store_laws)
  have "\<forall>j. \<forall>w \<in> set (waiters_lsts ?a j). w_idx w < length (alock_status (reqs ?a (w_req w)))"
    using inv cnt_remove_waiter(2) [of r "waiters_lsts a i"] by (auto simp: lock_inv_def store_laws)
  moreover have "H e OCF_READ + nwait ?a OCF_READ e \<le> n" for e
    using inv le [of OCF_READ e] unfolding lock_inv_def by (meson add_le_mono le_trans order_refl)
  moreover have "nwait ?a OCF_READ e + nwait ?a OCF_WRITE e > 0 \<longrightarrow> H e OCF_READ + H e OCF_WRITE > 0" for e
    using inv le [of OCF_READ e] le [of OCF_WRITE e] by (auto simp: lock_inv_def)
  ultimately show ?thesis
    using inv by (simp add: lock_inv_def store_laws)
qed

section \<open>All interleavings\<close>

text \<open>
  One atomic section of any thread. \<open>try_wr\<close> and \<open>try_rd\<close> are the lock-free attempts of the fast path,
  of the first section of \<open>ocf_alock_lock_one_wr/rd\<close> and of the eviction code; \<open>wait_wr\<close> and
  \<open>wait_rd\<close> are the sections under the waiters' spinlock; \<open>unlock\<close> and \<open>cancel\<close> are the two branches
  of \<open>ocf_alock_waitlist_remove_entry\<close>, the first one being also the unlock operation itself; \<open>local\<close>
  stands for everything that touches neither counters nor waiters (status bits, request counters,
  allocation). A thread only releases a lock that is held.
\<close>

inductive alock_step :: "ocf_alock \<times> holders \<Rightarrow> ocf_alock \<times> holders \<Rightarrow> bool" where
  try_wr: "ocf_alock_trylock_entry_wr e a = (True, a') \<Longrightarrow> alock_step (a, H) (a', acquired e OCF_WRITE H)"
| try_rd: "ocf_alock_trylock_entry_rd_idle e a = (True, a') \<Longrightarrow> alock_step (a, H) (a', acquired e OCF_READ H)"
| wait_wr: "lock_wr_wait e r i a = Some (ok, a') \<Longrightarrow> i < length (alock_status (reqs a r)) \<Longrightarrow>
    alock_step (a, H) (a', if ok \<and> waiters_lsts a' = waiters_lsts a then acquired e OCF_WRITE H else H)"
| wait_rd: "lock_rd_wait e r i a = Some (ok, a') \<Longrightarrow> i < length (alock_status (reqs a r)) \<Longrightarrow>
    alock_step (a, H) (a', if ok \<and> waiters_lsts a' = waiters_lsts a then acquired e OCF_READ H else H)"
| unlock: "H e m > 0 \<Longrightarrow> unlock_one m e a = Some a' \<Longrightarrow> alock_step (a, H) (a', released e m a a' H)"
| cancel: "alock_step (a, H) (set_waiters i (remove_waiter r (waiters_lsts a i)) a, H)"
| local: "framed {} a a' \<Longrightarrow> alock_step (a, H) (a', H)"

text \<open>\<open>alock_reach n s\<close>: \<open>s\<close> is reached in \<open>n\<close> steps from a state in which nothing is locked.\<close>

inductive alock_reach :: "nat \<Rightarrow> ocf_alock \<times> holders \<Rightarrow> bool" where
  start: "(\<forall>e. acc a e = 0) \<Longrightarrow> (\<forall>i. waiters_lsts a i = []) \<Longrightarrow> alock_reach 0 (a, \<lambda>_ _. 0)"
| step: "alock_reach n s \<Longrightarrow> alock_step s s' \<Longrightarrow> alock_reach (Suc n) s'"

lemma trylock_wr_Some: "ocf_alock_trylock_entry_wr e a = (b, a') \<longleftrightarrow>
    (if acc a e = 0 then b \<and> a' = set_acc e OCF_CACHE_LINE_ACCESS_WR a else \<not> b \<and> a' = a)"
  by (auto simp: ocf_alock_trylock_entry_wr_def cmpxchg_def access_defs)

lemma trylock_rd_idle_Some: "ocf_alock_trylock_entry_rd_idle e a = (b, a') \<longleftrightarrow>
    (if acc a e = 0 then b \<and> a' = set_acc e 1 a else \<not> b \<and> a' = a)"
  by (auto simp: ocf_alock_trylock_entry_rd_idle_def cmpxchg_def access_defs)

lemma env_allocator_new_framed: "env_allocator_new a = (b, a') \<Longrightarrow> framed {} a a'"
  by (auto simp: env_allocator_new_def framed_def split: list.splits)

lemma grant_framed: "grant r i a = Some a' \<Longrightarrow> framed {} a a'"
  by (auto simp: grant_def ocf_alock_mark_index_locked_def ocf_alock_entry_locked_def framed_def Let_def store_laws
      split: if_splits)

lemma waitlist_add_neq: "waiters_lsts (ocf_alock_waitlist_add e w a) \<noteq> waiters_lsts a"
proof
  assume "waiters_lsts (ocf_alock_waitlist_add e w a) = waiters_lsts a"
  from fun_cong [OF this, of "WAITERS_LIST_ITEM a e"] show False
    by (simp add: ocf_alock_waitlist_add_def Let_def store_laws)
qed

text \<open>The shape shared by the two \<open>wait\<close> sections after the allocation.\<close>

lemma lock_inv_wait:
  assumes inv: "lock_inv n a H" and n: "int (Suc n) < OCF_CACHE_LINE_ACCESS_WR"
    and i: "i < length (alock_status (reqs a r))"
    and run: "(if got then grant r i (set_acc e v a) \<bind> (\<lambda>a. Some (True, a))
       else Some (True, ocf_alock_waitlist_add e \<lparr>w_entry = e, w_idx = i, w_req = r, w_rw = m\<rparr> a)) = Some (ok, a')"
    and v: "got \<longrightarrow> m = OCF_WRITE \<longrightarrow> acc a e = 0 \<and> v = OCF_CACHE_LINE_ACCESS_WR"
      "got \<longrightarrow> m = OCF_READ \<longrightarrow> acc a e \<noteq> OCF_CACHE_LINE_ACCESS_WR \<and> v = acc a e + 1"
      "\<not> got \<longrightarrow> acc a e \<noteq> 0"
  shows "lock_inv (Suc n) a' (if ok \<and> waiters_lsts a' = waiters_lsts a then acquired e m H else H)"
proof (cases got)
  case True
  with run obtain a1 where g: "grant r i (set_acc e v a) = Some a1" and r: "ok" "a' = a1"
    by (cases "grant r i (set_acc e v a)") auto
  have "waiters_lsts a1 = waiters_lsts a"
    using grant_framed [OF g] by (simp add: framed_def store_laws)
  with True r lock_inv_framed [OF lock_inv_acquire [OF inv n] grant_framed [OF g]] v show ?thesis by simp
next
  case False
  with run have "ok" "a' = ocf_alock_waitlist_add e \<lparr>w_entry = e, w_idx = i, w_req = r, w_rw = m\<rparr> a" by auto
  with waitlist_add_neq False v(3) i show ?thesis
    by (auto intro!: lock_inv_enqueue [OF inv])
qed

lemma trylock_wr_eq: "ocf_alock_trylock_entry_wr e a =
    (if acc a e = 0 then (True, set_acc e OCF_CACHE_LINE_ACCESS_WR a) else (False, a))"
  by (simp add: trylock_wr_Some)

lemma waitlist_has_iff: "waitlist_has e ws \<longleftrightarrow> cnt OCF_READ e ws + cnt OCF_WRITE e ws > 0"
proof (induction ws)
  case (Cons w ws)
  then show ?case by (cases "w_rw w"; cases "w_entry w = e") simp_all
qed simp

lemma waitlist_is_empty_iff:
  "ocf_alock_waitlist_is_empty_locked a e \<longleftrightarrow> nwait a OCF_READ e + nwait a OCF_WRITE e = 0"
  by (auto simp: ocf_alock_waitlist_is_empty_locked_def nwait_def waitlist_has_iff Let_def)

lemma lock_wr_wait_inv:
  assumes inv: "lock_inv n a H" and n: "int (Suc n) < OCF_CACHE_LINE_ACCESS_WR"
    and i: "i < length (alock_status (reqs a r))" and run: "lock_wr_wait e r i a = Some (ok, a')"
  shows "lock_inv (Suc n) a' (if ok \<and> waiters_lsts a' = waiters_lsts a then acquired e OCF_WRITE H else H)"
proof -
  obtain b a1 where al: "env_allocator_new a = (b, a1)" by fastforce
  note fr = env_allocator_new_framed [OF al]
  note inv1 = lock_inv_framed [OF inv fr]
  have i1: "i < length (alock_status (reqs a1 r))" and w: "waiters_lsts a1 = waiters_lsts a"
    using i fr by (auto simp: framed_def)
  show ?thesis
  proof (cases b)
    case False
    with run al have "\<not> ok" "a' = a1" by (auto simp: lock_wr_wait_def)
    with lock_inv_mono [OF inv1, of "Suc n"] show ?thesis by simp
  next
    case True
    let ?got = "acc a1 e = 0"
    have "(if ?got then grant r i (set_acc e OCF_CACHE_LINE_ACCESS_WR a1) \<bind> (\<lambda>a. Some (True, a))
      else Some (True, ocf_alock_waitlist_add e \<lparr>w_entry = e, w_idx = i, w_req = r, w_rw = OCF_WRITE\<rparr> a1)) = Some (ok, a')"
      using run al True by (cases "acc a1 e = 0") (simp_all add: lock_wr_wait_def trylock_wr_eq)
    from lock_inv_wait [OF inv1 n i1 this] show ?thesis unfolding w by auto
  qed
qed

lemma lock_rd_wait_inv:
  assumes inv: "lock_inv n a H" and n: "int (Suc n) < OCF_CACHE_LINE_ACCESS_WR"
    and i: "i < length (alock_status (reqs a r))" and run: "lock_rd_wait e r i a = Some (ok, a')"
  shows "lock_inv (Suc n) a' (if ok \<and> waiters_lsts a' = waiters_lsts a then acquired e OCF_READ H else H)"
proof -
  obtain b a1 where al: "env_allocator_new a = (b, a1)" by fastforce
  note fr = env_allocator_new_framed [OF al]
  note inv1 = lock_inv_framed [OF inv fr]
  have i1: "i < length (alock_status (reqs a1 r))" and w: "waiters_lsts a1 = waiters_lsts a"
    using i fr by (auto simp: framed_def)
  show ?thesis
  proof (cases b)
    case False
    with run al have "\<not> ok" "a' = a1" by (auto simp: lock_rd_wait_def)
    with lock_inv_mono [OF inv1, of "Suc n"] show ?thesis by simp
  next
    case True
    let ?got = "ocf_alock_waitlist_is_empty_locked a1 e \<and> acc a1 e \<noteq> OCF_CACHE_LINE_ACCESS_WR"
    have *: "(if ?got then grant r i (set_acc e (acc a1 e + 1) a1) \<bind> (\<lambda>a. Some (True, a))
      else Some (True, ocf_alock_waitlist_add e \<lparr>w_entry = e, w_idx = i, w_req = r, w_rw = OCF_READ\<rparr> a1)) = Some (ok, a')"
      using run al True
      by (cases "ocf_alock_waitlist_is_empty_locked a1 e"; cases "acc a1 e = OCF_CACHE_LINE_ACCESS_WR")
        (simp_all add: lock_rd_wait_def ocf_alock_trylock_entry_rd_def add_unless_def)
    have "\<not> ?got \<longrightarrow> acc a1 e \<noteq> 0"
      using lock_inv_idle [OF inv1, of e] by (auto simp: waitlist_is_empty_iff access_defs)
    then show ?thesis using lock_inv_wait [OF inv1 n i1 *] unfolding w by auto
  qed
qed

lemma alock_step_inv:
  assumes "alock_step (a, H) (a', H')" "lock_inv n a H" "int (Suc n) < OCF_CACHE_LINE_ACCESS_WR"
  shows "lock_inv (Suc n) a' H'"
  using assms
proof cases
  case (try_wr e)
  with assms(2,3) trylock_wr_Some [of e a True a'] show ?thesis
    by (auto intro!: lock_inv_acquire split: if_splits)
next
  case (try_rd e)
  with assms(2,3) trylock_rd_idle_Some [of e a True a'] show ?thesis
    by (auto intro!: lock_inv_acquire simp: access_defs split: if_splits)
next
  case (wait_wr e r i ok)
  with assms(2,3) show ?thesis by (simp only:) (rule lock_wr_wait_inv)
next
  case (wait_rd e r i ok)
  with assms(2,3) show ?thesis by (simp only:) (rule lock_rd_wait_inv)
next
  case (unlock e m)
  with unlock_one_spec [OF assms(2), of e m] assms(3) show ?thesis
    by (auto intro: lock_inv_mono)
next
  case cancel
  with assms(2) show ?thesis by (auto intro: lock_inv_cancel lock_inv_mono)
next
  case local
  with assms(2) show ?thesis by (auto intro: lock_inv_framed lock_inv_mono)
qed

lemma alock_reach_inv:
  assumes "alock_reach n s" "int n < OCF_CACHE_LINE_ACCESS_WR"
  shows "lock_inv n (fst s) (snd s)"
  using assms
proof (induction n s rule: alock_reach.induct)
  case (start a)
  then show ?case by (simp add: lock_inv_def nwait_def cnt_ok_def access_defs)
next
  case (step n s s')
  then show ?case using alock_step_inv [of "fst s" "snd s" "fst s'" "snd s'" n] by simp
qed

section \<open>Properties of the locks\<close>

lemma alock_reach_holders:
  assumes "alock_reach n (a, H)" "int n < OCF_CACHE_LINE_ACCESS_WR"
  shows "cnt_ok (acc a e) (H e OCF_READ) (H e OCF_WRITE)"
    and "nwait a m e > 0 \<Longrightarrow> H e OCF_READ + H e OCF_WRITE > 0"
  using alock_reach_inv [OF assms] by (cases m; force simp: lock_inv_def)+


lemma nwait_pos: "w \<in> set (waiters_lsts a (WAITERS_LIST_ITEM a (w_entry w))) \<Longrightarrow> nwait a (w_rw w) (w_entry w) > 0"
  by (auto simp: nwait_def cnt_def filter_empty_conv)

lemma unlock_hands_over_aux:
  assumes r: "alock_reach n (a, H)" "int n < OCF_CACHE_LINE_ACCESS_WR" and held: "H e m > 0"
  shows "\<exists>a'. unlock_one m e a = Some a' \<and>
    (H e OCF_READ + H e OCF_WRITE = 1 \<and> nwait a OCF_READ e + nwait a OCF_WRITE e > 0 \<longrightarrow>
     (\<exists>m'. nwait a' m' e < nwait a m' e \<and> released e m a a' H e m' > 0))"
proof -
  have inv: "lock_inv n a H" using alock_reach_inv [OF r] by simp
  from unlock_one_spec [where e = e and m = m, OF inv r(2) held] obtain a' where u: "unlock_one m e a = Some a'"
    and inv': "lock_inv n a' (released e m a a' H)" and le: "\<forall>m'. nwait a' m' e \<le> nwait a m' e" by blast
  have "\<exists>m'. nwait a' m' e < nwait a m' e \<and> released e m a a' H e m' > 0"
    if one: "H e OCF_READ + H e OCF_WRITE = 1" and w: "nwait a OCF_READ e + nwait a OCF_WRITE e > 0"
  proof (rule ccontr)
    assume no: "\<not> ?thesis"
    have z: "H e m' - one m m' = 0" for m' using held one by (cases m; cases m') auto
    have eq: "nwait a' m' e = nwait a m' e" for m'
    proof (rule ccontr)
      assume "nwait a' m' e \<noteq> nwait a m' e"
      with le have "nwait a' m' e < nwait a m' e" by (simp add: le_neq_implies_less)
      with no show False by (auto simp: released_def)
    qed
    then have "released e m a a' H e m' = 0" for m' using z by (simp add: released_def)
    moreover have "nwait a' OCF_READ e + nwait a' OCF_WRITE e > 0 \<longrightarrow>
        released e m a a' H e OCF_READ + released e m a a' H e OCF_WRITE > 0"
      using inv' by (simp add: lock_inv_def)
    ultimately show False using w eq by simp
  qed
  with u show ?thesis by (intro exI [of _ a'] conjI impI) auto
qed


definition hit_entry :: "u32 \<Rightarrow> ocf_map_info" where
  "hit_entry line = \<lparr>map_hash = 0, coll_idx = line, map_core_line = 0, map_core_id = 0, status = LOOKUP_HIT,
     invalid = False, re_part = False\<rparr>"

lemma hit_entry_sel [simp]: "coll_idx (hit_entry line) = line" "status (hit_entry line) = LOOKUP_HIT"
  by (simp_all add: hit_entry_def)

definition demo_req :: "ocf_map_info list \<Rightarrow> alock_req" where
  "demo_req ms = \<lparr>lock_remaining = 0, alock_rw = OCF_READ, alock_status = replicate (8 * length ms) False,
     req_map = ms, resumed = 0\<rparr>"

definition demo_alock :: "bool list \<Rightarrow> (nat \<Rightarrow> alock_req) \<Rightarrow> ocf_alock" where
  "demo_alock al rs = \<lparr>waiting = 0, num_entries = 10, acc = (\<lambda>_. 0), waiters_lsts = (\<lambda>_. []), nbuckets = 4,
     allocs = al, reqs = rs\<rparr>"

lemma demo_start: "alock_reach 0 (demo_alock al rs, \<lambda>_ _. 0)"
  by (rule alock_reach.start) (simp_all add: demo_alock_def)



section \<open>The fast path is all or nothing\<close>

definition locked_value :: "rw \<Rightarrow> int" where
  "locked_value m = (if m = OCF_WRITE then OCF_CACHE_LINE_ACCESS_WR else OCF_CACHE_LINE_ACCESS_ONE_RD)"

text \<open>The state after the first \<open>k\<close> lines have been locked.\<close>

definition lock_line :: "rw \<Rightarrow> nat \<Rightarrow> nat \<Rightarrow> ocf_alock \<Rightarrow> ocf_alock" where
  "lock_line m r k b = upd_req r (\<lambda>q. q\<lparr>alock_status := (alock_status q)[k := True]\<rparr>)
     (set_acc (ocf_cl_lock_line_get_entry b r k) (locked_value m) b)"

fun fast_state :: "rw \<Rightarrow> nat \<Rightarrow> nat \<Rightarrow> ocf_alock \<Rightarrow> ocf_alock" where
  "fast_state m r 0 a = a"
| "fast_state m r (Suc k) a =
     (let b = fast_state m r k a in if ocf_cl_lock_line_needs_lock a r k then lock_line m r k b else b)"

lemma fast_state_same:
  "nwait (fast_state m r k a) = nwait a" "waiters_lsts (fast_state m r k a) = waiters_lsts a"
  "nbuckets (fast_state m r k a) = nbuckets a"
  "req_map (reqs (fast_state m r k a) r') = req_map (reqs a r')"
  "length (alock_status (reqs (fast_state m r k a) r')) = length (alock_status (reqs a r'))"
  by (induction k) (auto simp: lock_line_def store_laws Let_def nwait_def WAITERS_LIST_ITEM_def fun_eq_iff)

lemma fast_state_needs [simp]:
  "ocf_cl_lock_line_needs_lock (fast_state m r k a) r i = ocf_cl_lock_line_needs_lock a r i"
  "ocf_cl_lock_line_get_entry (fast_state m r k a) r i = ocf_cl_lock_line_get_entry a r i"
  by (simp_all add: ocf_cl_lock_line_needs_lock_def ocf_cl_lock_line_get_entry_def fast_state_same)

lemma fast_state_status:
  "k \<le> i \<Longrightarrow> alock_status (reqs (fast_state m r k a) r) ! i = alock_status (reqs a r) ! i"
  by (induction k) (auto simp: lock_line_def store_laws Let_def)

lemma fast_state_acc:
  "acc (fast_state m r k a) e = (if \<exists>j < k. ocf_cl_lock_line_needs_lock a r j \<and> ocf_cl_lock_line_get_entry a r j = e
     then locked_value m else acc a e)"
  by (induction k) (auto simp: lock_line_def store_laws Let_def less_Suc_eq)

lemma locked_value_not_0 [simp]: "locked_value m \<noteq> 0"
  by (simp add: locked_value_def access_defs)

lemma wake_loop_none: "nwait a OCF_READ e + nwait a OCF_WRITE e = 0 \<Longrightarrow>
    wake_loop x e (waiters_lsts a (WAITERS_LIST_ITEM a e)) True b = Some (waiters_lsts a (WAITERS_LIST_ITEM a e), True, b)"
proof -
  have "\<not> waitlist_has e ws \<Longrightarrow> wake_loop x e ws True b = Some (ws, True, b)" for ws
    by (induction ws) (auto split: if_splits)
  then show "nwait a OCF_READ e + nwait a OCF_WRITE e = 0 \<Longrightarrow> ?thesis" by (simp add: nwait_def waitlist_has_iff)
qed

lemma unlock_lock_line:
  assumes idle: "acc b (ocf_cl_lock_line_get_entry b r k) = 0"
    and nw: "nwait b OCF_READ (ocf_cl_lock_line_get_entry b r k) + nwait b OCF_WRITE (ocf_cl_lock_line_get_entry b r k) = 0"
    and st: "k < length (alock_status (reqs b r))" "\<not> alock_status (reqs b r) ! k"
  shows "unlock_one m (ocf_cl_lock_line_get_entry b r k) (lock_line m r k b) \<bind> ocf_alock_mark_index_locked r k False = Some b"
proof -
  let ?e = "ocf_cl_lock_line_get_entry b r k" and ?c = "lock_line m r k b"
  have nw': "nwait ?c OCF_READ ?e + nwait ?c OCF_WRITE ?e = 0"
    using nw by (simp add: nwait_def lock_line_def store_laws WAITERS_LIST_ITEM_def)
  have "acc ?c ?e = locked_value m" by (simp add: lock_line_def store_laws)
  then have "unlock_one m ?e ?c = Some (set_acc ?e 0 ?c)"
    using wake_loop_none [OF nw']
    by (cases m) (simp_all add: unlock_one_eq Let_def set_waiters_def locked_value_def access_defs
        ocf_alock_unlock_entry_wr_def ocf_alock_unlock_entry_rd_def)
  moreover have "ocf_alock_mark_index_locked r k False (set_acc ?e 0 ?c) = Some b"
  proof -
    have "(acc b)(?e := 0) = acc b" using idle by auto
    moreover have "(alock_status (reqs b r))[k := False] = alock_status (reqs b r)"
      using st by (metis (full_types) list_update_id)
    moreover have "(reqs b)(r := reqs b r) = reqs b" by simp
    ultimately show ?thesis
      using st(1) by (simp add: ocf_alock_mark_index_locked_def lock_line_def set_acc_def upd_req_def)
  qed
  ultimately show ?thesis by simp
qed

lemma fast_state_marked:
  "i < k \<Longrightarrow> k \<le> length (alock_status (reqs a r)) \<Longrightarrow> ocf_cl_lock_line_needs_lock a r i \<Longrightarrow>
   alock_status (reqs (fast_state m r k a) r) ! i"
  by (induction k) (auto simp: lock_line_def store_laws Let_def less_Suc_eq nth_list_update fast_state_same)

text \<open>The hypotheses on the request and its entries: status bits clear, idle entries without waiters.\<close>

definition fresh_req :: "nat \<Rightarrow> ocf_alock \<Rightarrow> bool" where
  "fresh_req r a \<longleftrightarrow> core_line_count a r \<le> length (alock_status (reqs a r)) \<and>
     (\<forall>i < core_line_count a r. \<not> alock_status (reqs a r) ! i)"

definition quiet :: "ocf_alock \<Rightarrow> bool" where
  "quiet a \<longleftrightarrow> (\<forall>e. acc a e = 0 \<longrightarrow> nwait a OCF_READ e + nwait a OCF_WRITE e = 0)"

lemma fast_discard_state:
  assumes "fresh_req r a" "quiet a" "k \<le> core_line_count a r"
    and "\<forall>j < k. ocf_cl_lock_line_needs_lock a r j \<longrightarrow> acc (fast_state m r j a) (ocf_cl_lock_line_get_entry a r j) = 0"
  shows "fast_discard m r k (fast_state m r k a) = Some a"
  using assms(3,4)
proof (induction k)
  case (Suc k)
  let ?b = "fast_state m r k a" and ?e = "ocf_cl_lock_line_get_entry a r k"
  have IH: "fast_discard m r k ?b = Some a" using Suc by auto
  show ?case
  proof (cases "ocf_cl_lock_line_needs_lock a r k")
    case False
    with IH show ?thesis by (simp add: Let_def)
  next
    case True
    let ?c = "lock_line m r k ?b"
    have idle: "acc ?b ?e = 0" using Suc.prems True by simp
    then have "acc a ?e = 0" by (auto simp: fast_state_acc split: if_splits)
    then have nw: "nwait ?b OCF_READ ?e + nwait ?b OCF_WRITE ?e = 0"
      using assms(2) by (simp add: quiet_def fast_state_same)
    have st: "k < length (alock_status (reqs ?b r))" "\<not> alock_status (reqs ?b r) ! k"
      using assms(1) Suc.prems(1) by (auto simp: fresh_req_def fast_state_same fast_state_status)
    have c: "ocf_cl_lock_line_needs_lock ?c r k" "ocf_cl_lock_line_get_entry ?c r k = ?e"
      "ocf_alock_is_index_locked ?c r k = Some True"
      using True st fast_state_needs [of m r k a k]
      by (simp_all add: lock_line_def ocf_cl_lock_line_needs_lock_def ocf_cl_lock_line_get_entry_def
          ocf_alock_is_index_locked_def store_laws)
    have "unlock_one m ?e ?c \<bind> ocf_alock_mark_index_locked r k False = Some ?b"
      using unlock_lock_line [of ?b r k m] idle nw st by simp
    then obtain d where "unlock_one m ?e ?c = Some d" "ocf_alock_mark_index_locked r k False d = Some ?b"
      by (auto split: bind_splits)
    with c True IH show ?thesis by (simp add: Let_def)
  qed
qed simp

lemma fast_loop_state:
  assumes "fresh_req r a" "i + n \<le> core_line_count a r"
    and "\<forall>j < i. ocf_cl_lock_line_needs_lock a r j \<longrightarrow> acc (fast_state m r j a) (ocf_cl_lock_line_get_entry a r j) = 0"
  shows "\<exists>k. fast_loop m r i n (fast_state m r i a) =
      Some (if k < i + n then Some k else None, fast_state m r k a) \<and> k \<le> i + n \<and>
    (\<forall>j < k. ocf_cl_lock_line_needs_lock a r j \<longrightarrow> acc (fast_state m r j a) (ocf_cl_lock_line_get_entry a r j) = 0)"
  using assms(2,3)
proof (induction n arbitrary: i)
  case 0
  then show ?case by (intro exI [of _ i]) simp
next
  case (Suc n)
  let ?b = "fast_state m r i a" and ?e = "ocf_cl_lock_line_get_entry a r i"
  show ?case
  proof (cases "ocf_cl_lock_line_needs_lock a r i")
    case False
    with Suc.IH [of "Suc i"] Suc.prems show ?thesis by (simp add: Let_def less_Suc_eq)
  next
    case True
    have st: "ocf_alock_is_index_locked ?b r i = Some False"
      using assms(1) Suc.prems(1)
      by (simp add: ocf_alock_is_index_locked_def fresh_req_def fast_state_same fast_state_status)
    have mark: "ocf_alock_mark_index_locked r i True (set_acc ?e (locked_value m) ?b) = Some (lock_line m r i ?b)"
      using assms(1) Suc.prems(1)
      by (simp add: ocf_alock_mark_index_locked_def lock_line_def fresh_req_def fast_state_same store_laws)
    have lock: "(if m = OCF_WRITE then ocf_alock_trylock_entry_wr ?e ?b else ocf_alock_trylock_entry_rd_idle ?e ?b) =
      (if acc ?b ?e = 0 then (True, set_acc ?e (locked_value m) ?b) else (False, ?b))"
      by (auto simp: trylock_wr_eq trylock_rd_idle_Some locked_value_def access_defs)
    show ?thesis
    proof (cases "acc ?b ?e = 0")
      case idle: True
      with True st mark lock have "fast_loop m r i (Suc n) ?b = fast_loop m r (Suc i) n (fast_state m r (Suc i) a)"
        by (simp add: Let_def)
      with Suc.IH [of "Suc i"] Suc.prems idle show ?thesis by (simp add: less_Suc_eq)
    next
      case False
      with True st lock have "fast_loop m r i (Suc n) ?b = Some (Some i, ?b)" by (simp add: Let_def)
      with Suc.prems(2) show ?thesis by (intro exI [of _ i]) simp
    qed
  qed
qed

text \<open>
  Property C34. The fast path of a request lock is all or nothing. On a lock whose idle entries have
  no waiters (which the invariant guarantees), with no line of the request locked yet, it passes all
  assertions; if it reports failure, then the whole lock state is exactly what it was before; if it
  reports success, then every line that needs a lock was idle, is now locked in the requested mode,
  and is marked as locked.
\<close>

theorem cl_lock_line_fast_atomic:
  assumes "fresh_req r a" "quiet a"
  shows "\<exists>res a'. ocf_cl_lock_line_fast m r a = Some (res, a') \<and>
    (res = OCF_LOCK_NOT_ACQUIRED \<longrightarrow> a' = a) \<and> res \<noteq> OCF_ERR_NO_MEM \<and>
    (res = OCF_LOCK_ACQUIRED \<longrightarrow>
      (\<forall>i < core_line_count a r. ocf_cl_lock_line_needs_lock a r i \<longrightarrow>
         acc a (ocf_cl_lock_line_get_entry a r i) = 0 \<and>
         acc a' (ocf_cl_lock_line_get_entry a r i) = locked_value m \<and>
         alock_status (reqs a' r) ! i))"
proof -
  let ?n = "core_line_count a r"
  from fast_loop_state [OF assms(1), of 0 ?n m] obtain k where
    loop: "fast_loop m r 0 ?n a = Some (if k < ?n then Some k else None, fast_state m r k a)" and k: "k \<le> ?n"
    and ok: "\<forall>j < k. ocf_cl_lock_line_needs_lock a r j \<longrightarrow> acc (fast_state m r j a) (ocf_cl_lock_line_get_entry a r j) = 0"
    by auto
  show ?thesis
  proof (cases "k < ?n")
    case True
    have "ocf_alock_is_index_locked (fast_state m r k a) r k = Some False"
      using assms(1) True
      by (simp add: ocf_alock_is_index_locked_def fresh_req_def fast_state_same fast_state_status)
    with fast_discard_state [OF assms k ok] have "fast_discard m r (Suc k) (fast_state m r k a) = Some a"
      by simp
    with loop True show ?thesis by (simp add: ocf_cl_lock_line_fast_def)
  next
    case False
    with k have [simp]: "k = ?n" by simp
    have "acc a (ocf_cl_lock_line_get_entry a r i) = 0" if "i < ?n" "ocf_cl_lock_line_needs_lock a r i" for i
      using that ok by (auto simp: fast_state_acc split: if_splits)
    moreover have "alock_status (reqs (fast_state m r ?n a) r) ! i" if "i < ?n" "ocf_cl_lock_line_needs_lock a r i" for i
      using that assms(1) by (intro fast_state_marked) (auto simp: fresh_req_def)
    ultimately show ?thesis using loop by (auto simp: ocf_cl_lock_line_fast_def fast_state_acc)
  qed
qed

theorem cl_lock_line_fast_atomic_witness:
  "\<exists>a'. ocf_cl_lock_line_fast OCF_WRITE 0
       (demo_alock [] (\<lambda>_. demo_req [hit_entry 5])) = Some (OCF_LOCK_ACQUIRED, a') \<and>
     acc a' 5 = OCF_CACHE_LINE_ACCESS_WR"
proof -
  let ?a = "demo_alock [] (\<lambda>_. demo_req [hit_entry 5])"
  have f: "fresh_req 0 ?a" by (simp add: fresh_req_def core_line_count_def demo_alock_def demo_req_def)
  have q: "quiet ?a" by (simp add: quiet_def nwait_def demo_alock_def)
  have "\<exists>a'. ocf_cl_lock_line_fast OCF_WRITE 0 ?a = Some (OCF_LOCK_ACQUIRED, a')"
    by (simp add: ocf_cl_lock_line_fast_def core_line_count_def demo_alock_def demo_req_def
        ocf_cl_lock_line_needs_lock_def ocf_alock_is_index_locked_def trylock_wr_eq ocf_alock_mark_index_locked_def
        store_laws)
  with cl_lock_line_fast_atomic [OF f q, of OCF_WRITE] show ?thesis
    by (auto simp: core_line_count_def demo_alock_def demo_req_def ocf_cl_lock_line_needs_lock_def
        ocf_cl_lock_line_get_entry_def locked_value_def)
qed

section \<open>Error paths\<close>

text \<open>
  The error path of the slow lock leaks locks. A request for the lines 5 (idle) and 6
  (write-locked by somebody else), for which no waiter can be allocated, is refused with
  \<open>-OCF_ERR_NO_MEM\<close>; but line 5, idle before, stays write-locked: the roll-back looks for entry 0 and
  entry 1, because the arguments of \<open>ocf_alock_waitlist_remove_entry\<close> are swapped in the call.
\<close>

theorem slow_lock_error_leaks:
  "\<exists>a a'. acc a 5 = 0 \<and> quiet a \<and> fresh_req 0 a \<and> lock_remaining (reqs a 0) = 0 \<and>
     ocf_alock_lock_wr 0 a = Some (OCF_ERR_NO_MEM, a') \<and>
     acc a' 5 = OCF_CACHE_LINE_ACCESS_WR \<and> alock_status (reqs a' 0) ! 0"
proof -
  let ?a = "set_acc 6 OCF_CACHE_LINE_ACCESS_WR (demo_alock [False] (\<lambda>_. demo_req
     [hit_entry 5, hit_entry 6]))"
  have q: "quiet ?a" by (simp add: quiet_def nwait_def demo_alock_def store_laws)
  have f: "fresh_req 0 ?a"
    by (auto simp: fresh_req_def core_line_count_def demo_alock_def demo_req_def store_laws less_Suc_eq)
  have "map_option (\<lambda>(res, a'). (res, acc a' 5, alock_status (reqs a' 0) ! 0)) (ocf_alock_lock_wr 0 ?a) =
    Some (OCF_ERR_NO_MEM, OCF_CACHE_LINE_ACCESS_WR, True)"
    by code_simp
  then obtain a' where "ocf_alock_lock_wr 0 ?a = Some (OCF_ERR_NO_MEM, a')"
    "acc a' 5 = OCF_CACHE_LINE_ACCESS_WR" "alock_status (reqs a' 0) ! 0"
    by auto
  moreover have "acc ?a 5 = 0" "lock_remaining (reqs ?a 0) = 0"
    by (simp_all add: demo_alock_def demo_req_def store_laws)
  ultimately show ?thesis using q f by blast
qed

lemma spinlock_inits_Inl:
  "spinlock_inits ok i n = Inl ks \<Longrightarrow> ks = [i..<i + n] \<and> (\<forall>k. i \<le> k \<and> k < i + n \<longrightarrow> ok (Spinlock k))"
proof (induction n arbitrary: i ks)
  case (Suc n)
  then obtain js where js: "ok (Spinlock i)" "spinlock_inits ok (Suc i) n = Inl js" "ks = i # js"
    by (auto split: if_splits sum.splits)
  with Suc.IH [OF js(2)] show ?case
    by (simp add: upt_conv_Cons del: upt_Suc) (metis le_eq_less_or_eq Suc_leI)
qed auto

lemma spinlock_inits_Inr: "spinlock_inits ok i n = Inr k \<Longrightarrow> \<not> ok (Spinlock k) \<and> i \<le> k \<and> k < i + n"
proof (induction n arbitrary: i)
  case (Suc n)
  show ?case
  proof (cases "ok (Spinlock i)")
    case True
    with Suc.prems have "spinlock_inits ok (Suc i) n = Inr k" by (auto split: sum.splits)
    from Suc.IH [OF this] show ?thesis by simp
  next
    case False
    with Suc.prems show ?thesis by simp
  qed
qed simp

lemma foldr_removeAll: "set (foldr (\<lambda>j. removeAll (Spinlock j)) ks xs) = set xs - Spinlock ` set ks"
  by (induction ks) auto

text \<open>
  \<open>ocf_alock_init_inplace\<close> succeeds exactly when all resources can be created, and then
  holds all of them; when it fails, it holds none: every error label releases what was created.
\<close>

theorem alock_init_no_leak:
  "\<exists>held b. ocf_alock_init_inplace ok n = (held, b) \<and>
     b = (ok Mutex \<and> ok Access \<and> ok Allocator \<and> (\<forall>k < n. ok (Spinlock k))) \<and>
     set held = (if b then {Mutex, Access, Allocator} \<union> Spinlock ` {..<n} else {})"
proof (cases "ok Mutex \<and> ok Access \<and> ok Allocator")
  case False
  then show ?thesis by (auto simp: ocf_alock_init_inplace_def)
next
  case True
  show ?thesis
  proof (cases "spinlock_inits ok 0 n")
    case (Inl ks)
    with True have "ocf_alock_init_inplace ok n = ([Mutex, Access, Allocator] @ map Spinlock ks, True)"
      by (simp add: ocf_alock_init_inplace_def)
    with spinlock_inits_Inl [OF Inl] True show ?thesis by (auto simp: atLeast0LessThan)
  next
    case (Inr k)
    let ?held = "foldr (\<lambda>j. removeAll (Spinlock j)) [0..<k] ([Mutex, Access, Allocator] @ map Spinlock [0..<k])"
    have "ocf_alock_init_inplace ok n = (removeAll Mutex (removeAll Access (removeAll Allocator ?held)), False)"
      using True Inr by (simp add: ocf_alock_init_inplace_def Let_def)
    moreover have "set (removeAll Mutex (removeAll Access (removeAll Allocator ?held))) = {}"
      unfolding set_removeAll foldr_removeAll by auto
    ultimately show ?thesis using spinlock_inits_Inr [OF Inr] True by auto
  qed
qed


theorem alock_init_no_leak_witness:
  "\<exists>held. ocf_alock_init_inplace (\<lambda>x. x \<noteq> Spinlock 1) 2 = (held, False) \<and> set held = {}"
proof -
  obtain held b where h: "ocf_alock_init_inplace (\<lambda>x. x \<noteq> Spinlock 1) 2 = (held, b)"
    "b = (\<forall>k < 2. Spinlock k \<noteq> Spinlock 1)" "set held = (if b then {Mutex, Access, Allocator} \<union> Spinlock ` {..<2} else {})"
    using alock_init_no_leak [of "\<lambda>x. x \<noteq> Spinlock 1" 2] by auto
  have "\<not> b" unfolding h(2) by auto
  with h show ?thesis by simp
qed

end
