(* ===== verification/OCF_Status.thy ===== *)
theory OCF_Status
  imports Prelude
begin

text \<open>
  The per-sector status bits of a cache line (\<open>ocf/src/metadata/metadata_bit.h\<close> and
  \<open>ocf/src/metadata/metadata_status.h\<close>). The C code is generated by macros for the five widths 8, 16,
  32, 64 and 128; here the width is a type variable. A failed assertion is \<open>None\<close>. The theory shows
  that the masks are exact and that every operation acts on the set of valid and dirty sectors as its
  name says, and that a dirty sector stays valid.
\<close>

section \<open>Masks\<close>

definition get_mask :: "u8 \<Rightarrow> u8 \<Rightarrow> u64 option" where
  "get_mask start stop = do {
     bug_on (start \<ge> 64);
     bug_on (stop \<ge> 64);
     bug_on (stop < start);
     let msk = NOT 0;
     let msk = drop_bit (unat start + (63 - unat stop)) msk;
     Some (push_bit (unat start) msk)
   }"

definition get_mask_u128 :: "u8 \<Rightarrow> u8 \<Rightarrow> 128 word option" where
  "get_mask_u128 start stop = do {
     bug_on (start \<ge> 128);
     bug_on (stop \<ge> 128);
     bug_on (stop < start);
     let msk = NOT 0;
     let msk = drop_bit (unat start + (127 - unat stop)) msk;
     Some (push_bit (unat start) msk)
   }"

text \<open>The mask at the width of the status word: \<open>_get_mask_u8\<close> to \<open>_get_mask_u128\<close>.\<close>

definition get_mask_type :: "u8 \<Rightarrow> u8 \<Rightarrow> 'w::len word option" where
  "get_mask_type start stop =
     (if LENGTH('w) = 128 then map_option ucast (get_mask_u128 start stop)
      else map_option ucast (get_mask start stop))"

section \<open>Status words\<close>

record 'b status_bits =
  valid :: 'b
  dirty :: 'b

definition set_valid_bits :: "'w::len word \<Rightarrow> 'w word status_bits \<Rightarrow> 'w word status_bits" where
  "set_valid_bits v s = s\<lparr>valid := v\<rparr>"

definition set_dirty_bits :: "'w::len word \<Rightarrow> 'w word status_bits \<Rightarrow> 'w word status_bits" where
  "set_dirty_bits v s = s\<lparr>dirty := v\<rparr>"

text \<open>
  The macro \<open>ocf_metadata_bit_func(what, type)\<close>, with the field \<open>what\<close> as a pair of functions that read
  and write it.
\<close>

definition bit_test :: "('w word status_bits \<Rightarrow> 'w::len word) \<Rightarrow> 'w word status_bits \<Rightarrow> u8 \<Rightarrow> u8 \<Rightarrow> bool \<Rightarrow> bool option" where
  "bit_test what s start stop all = do {
     msk \<leftarrow> get_mask_type start stop;
     Some (if all then msk = (what s AND msk) else what s AND msk \<noteq> 0)
   }"

definition bit_test_out :: "('w word status_bits \<Rightarrow> 'w::len word) \<Rightarrow> 'w word status_bits \<Rightarrow> u8 \<Rightarrow> u8 \<Rightarrow> bool option" where
  "bit_test_out what s start stop = do {
     msk \<leftarrow> get_mask_type start stop;
     Some (what s AND NOT msk \<noteq> 0)
   }"

definition bit_clear :: "('w word status_bits \<Rightarrow> 'w::len word) \<Rightarrow> ('w word \<Rightarrow> 'w word status_bits \<Rightarrow> 'w word status_bits) \<Rightarrow>
    'w word status_bits \<Rightarrow> u8 \<Rightarrow> u8 \<Rightarrow> (bool \<times> 'w word status_bits) option" where
  "bit_clear what upd s start stop = do {
     msk \<leftarrow> get_mask_type start stop;
     let s = upd (what s AND NOT msk) s;
     Some (what s \<noteq> 0, s)
   }"

definition bit_set :: "('w word status_bits \<Rightarrow> 'w::len word) \<Rightarrow> ('w word \<Rightarrow> 'w word status_bits \<Rightarrow> 'w word status_bits) \<Rightarrow>
    'w word status_bits \<Rightarrow> u8 \<Rightarrow> u8 \<Rightarrow> (bool \<times> 'w word status_bits) option" where
  "bit_set what upd s start stop = do {
     msk \<leftarrow> get_mask_type start stop;
     let result = (what s \<noteq> 0);
     Some (result, upd (what s OR msk) s)
   }"

definition bit_test_and_set :: "('w word status_bits \<Rightarrow> 'w::len word) \<Rightarrow> ('w word \<Rightarrow> 'w word status_bits \<Rightarrow> 'w word status_bits) \<Rightarrow>
    'w word status_bits \<Rightarrow> u8 \<Rightarrow> u8 \<Rightarrow> bool \<Rightarrow> (bool \<times> 'w word status_bits) option" where
  "bit_test_and_set what upd s start stop all = do {
     msk \<leftarrow> get_mask_type start stop;
     let test = (if all then msk = (what s AND msk) else what s AND msk \<noteq> 0);
     Some (test, upd (what s OR msk) s)
   }"

definition bit_test_and_clear :: "('w word status_bits \<Rightarrow> 'w::len word) \<Rightarrow> ('w word \<Rightarrow> 'w word status_bits \<Rightarrow> 'w word status_bits) \<Rightarrow>
    'w word status_bits \<Rightarrow> u8 \<Rightarrow> u8 \<Rightarrow> bool \<Rightarrow> (bool \<times> 'w word status_bits) option" where
  "bit_test_and_clear what upd s start stop all = do {
     msk \<leftarrow> get_mask_type start stop;
     let test = (if all then msk = (what s AND msk) else what s AND msk \<noteq> 0);
     Some (test, upd (what s AND NOT msk) s)
   }"

definition ocf_metadata_check :: "'w::len word status_bits \<Rightarrow> bool" where
  "ocf_metadata_check s = (dirty s AND NOT (valid s) = 0)"

section \<open>Operations of the status interface\<close>

definition metadata_clear_dirty_sec_changed :: "'w::len word status_bits \<Rightarrow> u8 \<Rightarrow> u8 \<Rightarrow> (bool \<times> bool \<times> 'w word status_bits) option" where
  "metadata_clear_dirty_sec_changed s start stop = do {
     sec_changed \<leftarrow> bit_test dirty s start stop False;
     (still_dirty, s) \<leftarrow> bit_clear dirty set_dirty_bits s start stop;
     let line_is_clean = (\<not> still_dirty);
     Some (sec_changed, line_is_clean, s)
   }"

definition metadata_set_dirty_sec_changed :: "'w::len word status_bits \<Rightarrow> u8 \<Rightarrow> u8 \<Rightarrow> (bool \<times> bool \<times> 'w word status_bits) option" where
  "metadata_set_dirty_sec_changed s start stop = do {
     all_dirty \<leftarrow> bit_test dirty s start stop True;
     let sec_changed = (\<not> all_dirty);
     (line_was_dirty, s) \<leftarrow> bit_set dirty set_dirty_bits s start stop;
     Some (sec_changed, line_was_dirty, s)
   }"

definition metadata_set_valid_sec_changed :: "'w::len word status_bits \<Rightarrow> u8 \<Rightarrow> u8 \<Rightarrow> (bool \<times> 'w word status_bits) option" where
  "metadata_set_valid_sec_changed s start stop = do {
     (was, s) \<leftarrow> bit_set valid set_valid_bits s start stop;
     Some (\<not> was, s)
   }"

definition metadata_clear_valid_sec_changed ::
    "u8 \<Rightarrow> u8 \<Rightarrow> 'w::len word status_bits \<Rightarrow> u8 \<Rightarrow> u8 \<Rightarrow> (bool \<times> bool \<times> 'w word status_bits) option" where
  "metadata_clear_valid_sec_changed sector_start sector_end s start stop = do {
     was_any_valid \<leftarrow> bit_test valid s sector_start sector_end False;
     (is_valid, s) \<leftarrow> bit_clear valid set_valid_bits s start stop;
     Some (was_any_valid \<and> \<not> is_valid, is_valid, s)
   }"

section \<open>The masks are exact\<close>

lemma shifted_ones_bit:
  fixes m :: "'a::len word"
  assumes "s \<le> e" "e < LENGTH('a)" "m = push_bit s (drop_bit (s + (LENGTH('a) - 1 - e)) (NOT 0))"
  shows "bit m i \<longleftrightarrow> s \<le> i \<and> i \<le> e"
  using assms(1,2) unfolding assms(3) by (auto simp: bit_push_bit_iff bit_mask_iff)

lemma get_mask_Some_iff:
  "get_mask start stop = Some m \<longleftrightarrow> unat stop < 64 \<and> start \<le> stop \<and>
     m = push_bit (unat start) (drop_bit (unat start + (64 - 1 - unat stop)) (NOT 0))"
  by (auto simp: get_mask_def bug_on_bind Let_def word_le_nat_alt word_less_nat_alt)

lemma get_mask_u128_Some_iff:
  "get_mask_u128 start stop = Some m \<longleftrightarrow> unat stop < 128 \<and> start \<le> stop \<and>
     m = push_bit (unat start) (drop_bit (unat start + (128 - 1 - unat stop)) (NOT 0))"
  by (auto simp: get_mask_u128_def bug_on_bind Let_def word_le_nat_alt word_less_nat_alt)

text \<open>A range of sectors of a line whose status words have width \<open>'w\<close>.\<close>

definition sector_range :: "'w::len itself \<Rightarrow> u8 \<Rightarrow> u8 \<Rightarrow> bool" where
  "sector_range w start stop \<longleftrightarrow> start \<le> stop \<and> unat stop < LENGTH('w) \<and> (LENGTH('w) \<le> 64 \<or> LENGTH('w) = 128)"

definition secs :: "'w::len word \<Rightarrow> nat set" where
  "secs w = {i. bit w i}"

lemma secs_ucast:
  fixes m :: "'v::len word"
  assumes "sector_range TYPE('w::len) start stop" "\<And>i. bit m i \<longleftrightarrow> unat start \<le> i \<and> i \<le> unat stop"
  shows "secs (ucast m :: 'w word) = {unat start..unat stop}"
proof -
  have "secs (ucast m :: 'w word) = {i. i < LENGTH('w) \<and> bit m i}"
    by (simp add: secs_def bit_unsigned_iff possible_bit_word)
  also have "\<dots> = {unat start..unat stop}"
    using assms(1) unfolding assms(2) sector_range_def by auto
  finally show ?thesis .
qed

lemma get_mask_type_secs:
  assumes "sector_range TYPE('w::len) start stop"
  shows "\<exists>m. get_mask_type start stop = Some (m :: 'w word) \<and> secs m = {unat start..unat stop}"
proof (cases "LENGTH('w) = 128")
  case True
  define m :: "128 word" where "m = push_bit (unat start) (drop_bit (unat start + (128 - 1 - unat stop)) (NOT 0))"
  have "get_mask_u128 start stop = Some m"
    using assms True by (simp only: get_mask_u128_Some_iff sector_range_def m_def)
  moreover have b: "bit m i \<longleftrightarrow> unat start \<le> i \<and> i \<le> unat stop" for i
    using assms True unfolding m_def by (intro shifted_ones_bit) (auto simp: sector_range_def word_le_nat_alt)
  moreover have "secs (ucast m :: 'w word) = {unat start..unat stop}"
    by (rule secs_ucast [OF assms b])
  ultimately show ?thesis
    using True unfolding get_mask_type_def by simp
next
  case False
  define m :: "u64" where "m = push_bit (unat start) (drop_bit (unat start + (64 - 1 - unat stop)) (NOT 0))"
  have "get_mask start stop = Some m"
    using assms False by (auto simp only: get_mask_Some_iff sector_range_def m_def)
  moreover have b: "bit m i \<longleftrightarrow> unat start \<le> i \<and> i \<le> unat stop" for i
    using assms False unfolding m_def by (intro shifted_ones_bit) (auto simp: sector_range_def word_le_nat_alt)
  moreover have "secs (ucast m :: 'w word) = {unat start..unat stop}"
    by (rule secs_ucast [OF assms b])
  ultimately show ?thesis
    using False unfolding get_mask_type_def by simp
qed

lemma secs_simps:
  "secs (a AND NOT b) = secs a - secs b" "secs (a AND b) = secs a \<inter> secs b" "secs (a OR b) = secs a \<union> secs b"
  by (auto simp: secs_def bit_and_iff bit_or_iff bit_not_iff possible_bit_word dest: bit_imp_le_length)

lemma secs_eq_iff: "secs a = secs b \<longleftrightarrow> a = b"
  by (metis (no_types, lifting) bit_word_eqI mem_Collect_eq secs_def)

lemma secs_0: "secs (0 :: 'w::len word) = {}"
  by (simp add: secs_def)

lemma zero_iff: "a = 0 \<longleftrightarrow> secs a = {}"
  by (metis secs_0 secs_eq_iff)

section \<open>The operations on a field\<close>

text \<open>
  A status field that is read and written. Every operation of the macro, seen on the set of sectors
  whose bit is set in the field.
\<close>

locale sector_field =
  fixes what :: "'w::len word status_bits \<Rightarrow> 'w word"
    and upd :: "'w word \<Rightarrow> 'w word status_bits \<Rightarrow> 'w word status_bits"
  assumes get_upd: "what (upd v s) = v"
begin

lemma bit_ops_secs:
  assumes r: "sector_range TYPE('w) start stop" and R: "R = {unat start..unat stop}"
  shows "bit_test what s start stop True = Some (R \<subseteq> secs (what s))"
    and "bit_test what s start stop False = Some (R \<inter> secs (what s) \<noteq> {})"
    and "bit_test_out what s start stop = Some (secs (what s) - R \<noteq> {})"
    and "\<exists>v. bit_clear what upd s start stop = Some (v \<noteq> 0, upd v s) \<and> secs v = secs (what s) - R"
    and "\<exists>v. bit_set what upd s start stop = Some (what s \<noteq> 0, upd v s) \<and> secs v = secs (what s) \<union> R"
    and "\<exists>v. bit_test_and_set what upd s start stop all =
           Some (if all then R \<subseteq> secs (what s) else R \<inter> secs (what s) \<noteq> {}, upd v s) \<and> secs v = secs (what s) \<union> R"
    and "\<exists>v. bit_test_and_clear what upd s start stop all =
           Some (if all then R \<subseteq> secs (what s) else R \<inter> secs (what s) \<noteq> {}, upd v s) \<and> secs v = secs (what s) - R"
proof -
  from get_mask_type_secs [OF r] obtain m :: "'w word" where
    m: "get_mask_type start stop = Some m" "secs m = R" unfolding R by blast
  have all: "m = what s AND m \<longleftrightarrow> R \<subseteq> secs (what s)"
    unfolding secs_eq_iff [symmetric] secs_simps m(2) by auto
  have any: "what s AND m \<noteq> 0 \<longleftrightarrow> R \<inter> secs (what s) \<noteq> {}"
    by (simp add: zero_iff secs_simps m(2) Int_commute)
  have out: "what s AND NOT m \<noteq> 0 \<longleftrightarrow> secs (what s) - R \<noteq> {}"
    by (simp add: zero_iff secs_simps(1) m(2))
  show "bit_test what s start stop True = Some (R \<subseteq> secs (what s))"
    "bit_test what s start stop False = Some (R \<inter> secs (what s) \<noteq> {})"
    "bit_test_out what s start stop = Some (secs (what s) - R \<noteq> {})"
    unfolding bit_test_def bit_test_out_def m(1) using all any out by simp_all
  show "\<exists>v. bit_clear what upd s start stop = Some (v \<noteq> 0, upd v s) \<and> secs v = secs (what s) - R"
    unfolding bit_clear_def m(1) using m(2)
    by (intro exI [of _ "what s AND NOT m"]) (simp add: get_upd secs_simps(1))
  show "\<exists>v. bit_set what upd s start stop = Some (what s \<noteq> 0, upd v s) \<and> secs v = secs (what s) \<union> R"
    unfolding bit_set_def m(1) using m(2)
    by (intro exI [of _ "what s OR m"]) (simp add: get_upd secs_simps(3))
  show "\<exists>v. bit_test_and_set what upd s start stop all =
      Some (if all then R \<subseteq> secs (what s) else R \<inter> secs (what s) \<noteq> {}, upd v s) \<and> secs v = secs (what s) \<union> R"
    unfolding bit_test_and_set_def m(1) using m(2) all any by (intro exI [of _ "what s OR m"]) (simp add: secs_simps)
  show "\<exists>v. bit_test_and_clear what upd s start stop all =
      Some (if all then R \<subseteq> secs (what s) else R \<inter> secs (what s) \<noteq> {}, upd v s) \<and> secs v = secs (what s) - R"
    unfolding bit_test_and_clear_def m(1) using m(2) all any by (intro exI [of _ "what s AND NOT m"]) (simp add: secs_simps(1))
qed

end

interpretation valid_field: sector_field valid set_valid_bits
  by unfold_locales (simp add: set_valid_bits_def)

interpretation dirty_field: sector_field dirty set_dirty_bits
  by unfold_locales (simp add: set_dirty_bits_def)

lemma status_laws [store_laws]:
  "valid (set_dirty_bits v s) = valid s" "dirty (set_valid_bits v s) = dirty s"
  "valid (set_valid_bits v s) = v" "dirty (set_dirty_bits v s) = v"
  by (simp_all add: set_valid_bits_def set_dirty_bits_def)

lemma check_iff: "ocf_metadata_check s \<longleftrightarrow> secs (dirty s) \<subseteq> secs (valid s)"
  by (simp add: ocf_metadata_check_def zero_iff secs_simps(1))

lemma status_sec_changed_parts:
  fixes s :: "'w::len word status_bits"
  assumes "sector_range TYPE('w) start stop" "R = {unat start..unat stop}"
  shows "\<exists>s1. metadata_set_dirty_sec_changed s start stop = Some (\<not> R \<subseteq> secs (dirty s), dirty s \<noteq> 0, s1) \<and>
      secs (dirty s1) = secs (dirty s) \<union> R \<and> valid s1 = valid s \<and>
      (ocf_metadata_check s \<and> R \<subseteq> secs (valid s) \<longrightarrow> ocf_metadata_check s1)"
    and "\<exists>s2. metadata_clear_dirty_sec_changed s start stop = Some (R \<inter> secs (dirty s) \<noteq> {}, dirty s2 = 0, s2) \<and>
      secs (dirty s2) = secs (dirty s) - R \<and> valid s2 = valid s \<and>
      (ocf_metadata_check s \<longrightarrow> ocf_metadata_check s2)"
    and "\<exists>s3. metadata_set_valid_sec_changed s start stop = Some (valid s = 0, s3) \<and>
      secs (valid s3) = secs (valid s) \<union> R \<and> dirty s3 = dirty s \<and>
      (ocf_metadata_check s \<longrightarrow> ocf_metadata_check s3)"
proof -
  note d = dirty_field.bit_ops_secs [OF assms, of s] and v = valid_field.bit_ops_secs [OF assms, of s]
  from d(5) obtain w where w: "bit_set dirty set_dirty_bits s start stop = Some (dirty s \<noteq> 0, set_dirty_bits w s)"
    "secs w = secs (dirty s) \<union> R" by blast
  show "\<exists>s1. metadata_set_dirty_sec_changed s start stop = Some (\<not> R \<subseteq> secs (dirty s), dirty s \<noteq> 0, s1) \<and>
      secs (dirty s1) = secs (dirty s) \<union> R \<and> valid s1 = valid s \<and>
      (ocf_metadata_check s \<and> R \<subseteq> secs (valid s) \<longrightarrow> ocf_metadata_check s1)"
    using d(1) w by (auto simp: metadata_set_dirty_sec_changed_def store_laws check_iff)
  from d(4) obtain w where w: "bit_clear dirty set_dirty_bits s start stop = Some (w \<noteq> 0, set_dirty_bits w s)"
    "secs w = secs (dirty s) - R" by blast
  show "\<exists>s2. metadata_clear_dirty_sec_changed s start stop = Some (R \<inter> secs (dirty s) \<noteq> {}, dirty s2 = 0, s2) \<and>
      secs (dirty s2) = secs (dirty s) - R \<and> valid s2 = valid s \<and>
      (ocf_metadata_check s \<longrightarrow> ocf_metadata_check s2)"
    using d(2) w by (auto simp: metadata_clear_dirty_sec_changed_def store_laws check_iff)
  from v(5) obtain w where w: "bit_set valid set_valid_bits s start stop = Some (valid s \<noteq> 0, set_valid_bits w s)"
    "secs w = secs (valid s) \<union> R" by blast
  show "\<exists>s3. metadata_set_valid_sec_changed s start stop = Some (valid s = 0, s3) \<and>
      secs (valid s3) = secs (valid s) \<union> R \<and> dirty s3 = dirty s \<and>
      (ocf_metadata_check s \<longrightarrow> ocf_metadata_check s3)"
    using w by (auto simp: metadata_set_valid_sec_changed_def store_laws check_iff)
qed

text \<open>
  The functional behaviour of the three operations that change the status of a range of
  sectors: exactly the sectors of the range change, in the named field only, and the flags they return
  describe the line before or after the change. On a line that satisfies \<open>ocf_metadata_check\<close> (no dirty
  sector is invalid), marking sectors clean or valid keeps the check, and so does marking sectors dirty
  that are valid.
\<close>

theorem status_sec_changed_spec:
  fixes s :: "'w::len word status_bits"
  assumes "sector_range TYPE('w) start stop" "R = {unat start..unat stop}"
  shows "(\<exists>s1. metadata_set_dirty_sec_changed s start stop = Some (\<not> R \<subseteq> secs (dirty s), dirty s \<noteq> 0, s1) \<and>
      secs (dirty s1) = secs (dirty s) \<union> R \<and> valid s1 = valid s \<and>
      (ocf_metadata_check s \<and> R \<subseteq> secs (valid s) \<longrightarrow> ocf_metadata_check s1)) \<and>
    (\<exists>s2. metadata_clear_dirty_sec_changed s start stop = Some (R \<inter> secs (dirty s) \<noteq> {}, dirty s2 = 0, s2) \<and>
      secs (dirty s2) = secs (dirty s) - R \<and> valid s2 = valid s \<and>
      (ocf_metadata_check s \<longrightarrow> ocf_metadata_check s2)) \<and>
    (\<exists>s3. metadata_set_valid_sec_changed s start stop = Some (valid s = 0, s3) \<and>
      secs (valid s3) = secs (valid s) \<union> R \<and> dirty s3 = dirty s \<and>
      (ocf_metadata_check s \<longrightarrow> ocf_metadata_check s3))"
  by (intro conjI status_sec_changed_parts [OF assms])

theorem status_sec_changed_spec_witness:
  "\<exists>s3. metadata_set_valid_sec_changed \<lparr>valid = 0, dirty = 0 :: 8 word\<rparr> 2 5 = Some (True, s3) \<and>
     secs (valid s3) = {2..5} \<and> ocf_metadata_check s3"
proof -
  have r: "sector_range TYPE(8) 2 5" by (simp add: sector_range_def)
  from status_sec_changed_spec [OF r refl, of "\<lparr>valid = 0, dirty = 0\<rparr>"] show ?thesis
    by (auto simp: secs_0 ocf_metadata_check_def)
qed

text \<open>
  With the sectors of the line as settings, \<open>metadata_clear_valid_sec_changed\<close> reports that the line
  became invalid exactly when some sector was valid before and none is after.
\<close>

lemma clear_valid_parts:
  fixes s :: "'w::len word status_bits"
  assumes "sector_range TYPE('w) start stop" "sector_range TYPE('w) s0 s1" "secs (valid s) \<subseteq> {unat s0..unat s1}"
  shows "\<exists>s'. metadata_clear_valid_sec_changed s0 s1 s start stop =
      Some (secs (valid s) \<noteq> {} \<and> secs (valid s') = {}, secs (valid s') \<noteq> {}, s') \<and>
    secs (valid s') = secs (valid s) - {unat start..unat stop} \<and> dirty s' = dirty s"
proof -
  from valid_field.bit_ops_secs(4) [OF assms(1) refl, of s] obtain w where
    w: "bit_clear valid set_valid_bits s start stop = Some (w \<noteq> 0, set_valid_bits w s)"
    "secs w = secs (valid s) - {unat start..unat stop}" by blast
  have "{unat s0..unat s1} \<inter> secs (valid s) = secs (valid s)" using assms(3) by blast
  with valid_field.bit_ops_secs(2) [OF assms(2) refl, of s] w show ?thesis
    by (intro exI [of _ "set_valid_bits w s"])
      (simp add: metadata_clear_valid_sec_changed_def store_laws zero_iff)
qed

end
