(* ===== verification/OCF_Metadata.thy ===== *)
theory OCF_Metadata
  imports Index_Lists OCF_Status
begin

text \<open>
  OCF's cache line metadata: the mapping between logical and physical cache lines and the collision
  lists of the hash table (\<open>ocf/src/metadata/metadata_collision.c\<close>, \<open>metadata_misc.h\<close>, \<open>metadata_core.c\<close>,
  \<open>metadata_partition.c\<close>). The metadata segments live in memory, so an access to a line below the
  number of entries always succeeds; the segments are functions of the line. The theory shows that
  the striping map is a bijection whose inverse is the other function, that the hash function sends
  consecutive core lines to consecutive buckets, and that the collision lists implement a set of core
  lines: what was added is found, what was removed is not.
\<close>

section \<open>Data\<close>

datatype ocf_metadata_layout = Layout_striping | Layout_seq

record ocf_metadata_list_info =
  prev_col :: u32
  next_col :: u32
  partition_id :: u8

record 'b ocf_metadata_map =
  core_line :: u64
  core_id :: u16
  status_word :: "'b status_bits"

text \<open>
  The geometry of the collision segment (\<open>entries_in_page\<close>, \<open>ssd_pages\<close>, \<open>entries\<close> of its descriptor),
  the table sizes, the settings of a cache line (its size in bytes, its number of sectors and their
  range), and the segments.
\<close>

record 'b ocf_metadata =
  layout :: ocf_metadata_layout
  entries_in_page :: u32
  ssd_pages :: u64
  raw_entries :: u64
  collision_table_entries :: u32
  hash_table_entries :: u32
  line_size :: u64
  sector_count :: u64
  sector_start :: u8
  sector_end :: u8
  hash_tbl :: "u32 \<Rightarrow> u32"
  list_info :: "u32 \<Rightarrow> ocf_metadata_list_info"
  map_info :: "u32 \<Rightarrow> 'b ocf_metadata_map"

definition OCF_CORE_MAX :: u16 where
  "OCF_CORE_MAX = 4096"

section \<open>Logical and physical lines\<close>

definition ocf_metadata_map_lg2phy_striping :: "'b ocf_metadata \<Rightarrow> u32 \<Rightarrow> u32" where
  "ocf_metadata_map_lg2phy_striping md coll_idx =
     (let epp = entries_in_page md;
          pages = ucast (ssd_pages md) :: u32;
          delta = epp * pages - collision_table_entries md;
          row = coll_idx mod epp;
          offset = (if row > epp - delta then row - (epp - delta) else 0)
      in row * pages + coll_idx div epp - offset)"

definition ocf_metadata_map_phy2lg_striping :: "'b ocf_metadata \<Rightarrow> u32 \<Rightarrow> u32" where
  "ocf_metadata_map_phy2lg_striping md cache_line =
     (let pages = ucast (ssd_pages md) :: u32;
          epp = entries_in_page md;
          rest = raw_entries md mod ucast epp;
          entries_in_last_page = (if rest \<noteq> 0 then ucast rest else epp) :: u32;
          last_line = entries_in_last_page * pages;
          (row, coll) =
            (if cache_line < last_line then (cache_line mod pages, cache_line div pages)
             else let cache_line = cache_line - last_line
                  in (cache_line mod (pages - 1), cache_line div (pages - 1) + entries_in_last_page))
      in row * epp + coll)"

definition ocf_metadata_map_lg2phy :: "'b ocf_metadata \<Rightarrow> u32 \<Rightarrow> u32" where
  "ocf_metadata_map_lg2phy md coll_idx =
     (case layout md of
        Layout_striping \<Rightarrow> ocf_metadata_map_lg2phy_striping md coll_idx
      | Layout_seq \<Rightarrow> coll_idx)"

definition ocf_metadata_map_phy2lg :: "'b ocf_metadata \<Rightarrow> u32 \<Rightarrow> u32" where
  "ocf_metadata_map_phy2lg md cache_line =
     (case layout md of
        Layout_striping \<Rightarrow> ocf_metadata_map_phy2lg_striping md cache_line
      | Layout_seq \<Rightarrow> cache_line)"

section \<open>Accessors\<close>

definition ocf_metadata_hash_func :: "'b ocf_metadata \<Rightarrow> u64 \<Rightarrow> u16 \<Rightarrow> u32" where
  "ocf_metadata_hash_func md core_line_num core =
     (let entries = hash_table_entries md
      in ucast ((core_line_num + ucast (ucast core * (entries div 32) :: u32)) mod ucast entries))"

definition ocf_metadata_get_hash :: "'b ocf_metadata \<Rightarrow> u32 \<Rightarrow> u32" where
  "ocf_metadata_get_hash md i = hash_tbl md i"

definition ocf_metadata_set_hash :: "u32 \<Rightarrow> u32 \<Rightarrow> 'b ocf_metadata \<Rightarrow> 'b ocf_metadata" where
  "ocf_metadata_set_hash i line md = md\<lparr>hash_tbl := (hash_tbl md)(i := line)\<rparr>"

definition ocf_metadata_set_collision_info :: "u32 \<Rightarrow> u32 \<Rightarrow> u32 \<Rightarrow> 'b ocf_metadata \<Rightarrow> 'b ocf_metadata" where
  "ocf_metadata_set_collision_info line nxt prv md =
     md\<lparr>list_info := (list_info md)(line := (list_info md line)\<lparr>next_col := nxt, prev_col := prv\<rparr>)\<rparr>"

definition ocf_metadata_set_collision_next :: "u32 \<Rightarrow> u32 \<Rightarrow> 'b ocf_metadata \<Rightarrow> 'b ocf_metadata" where
  "ocf_metadata_set_collision_next line nxt md =
     md\<lparr>list_info := (list_info md)(line := (list_info md line)\<lparr>next_col := nxt\<rparr>)\<rparr>"

definition ocf_metadata_set_collision_prev :: "u32 \<Rightarrow> u32 \<Rightarrow> 'b ocf_metadata \<Rightarrow> 'b ocf_metadata" where
  "ocf_metadata_set_collision_prev line prv md =
     md\<lparr>list_info := (list_info md)(line := (list_info md line)\<lparr>prev_col := prv\<rparr>)\<rparr>"

definition ocf_metadata_get_collision_info :: "'b ocf_metadata \<Rightarrow> u32 \<Rightarrow> u32 \<times> u32" where
  "ocf_metadata_get_collision_info md line = (next_col (list_info md line), prev_col (list_info md line))"

definition ocf_metadata_get_core_info :: "'b ocf_metadata \<Rightarrow> u32 \<Rightarrow> u16 \<times> u64" where
  "ocf_metadata_get_core_info md line = (core_id (map_info md line), core_line (map_info md line))"

definition ocf_metadata_set_core_info :: "u32 \<Rightarrow> u16 \<Rightarrow> u64 \<Rightarrow> 'b ocf_metadata \<Rightarrow> 'b ocf_metadata" where
  "ocf_metadata_set_core_info line core sector md =
     md\<lparr>map_info := (map_info md)(line := (map_info md line)\<lparr>core_id := core, core_line := sector\<rparr>)\<rparr>"

text \<open>The partition of a line is a bit field of eight bits.\<close>

definition ocf_metadata_get_partition_id :: "'b ocf_metadata \<Rightarrow> u32 \<Rightarrow> u16" where
  "ocf_metadata_get_partition_id md line = ucast (partition_id (list_info md line))"

definition ocf_metadata_set_partition_id :: "u32 \<Rightarrow> u16 \<Rightarrow> 'b ocf_metadata \<Rightarrow> 'b ocf_metadata" where
  "ocf_metadata_set_partition_id line part md =
     md\<lparr>list_info := (list_info md)(line := (list_info md line)\<lparr>partition_id := ucast part\<rparr>)\<rparr>"

section \<open>Collision lists\<close>

definition ocf_metadata_add_to_collision ::
    "u16 \<Rightarrow> u64 \<Rightarrow> u32 \<Rightarrow> u32 \<Rightarrow> 'b ocf_metadata \<Rightarrow> 'b ocf_metadata option" where
  "ocf_metadata_add_to_collision core cline hash cache_line md = do {
     let prev_cache_line = ocf_metadata_get_hash md hash;
     let line_entries = collision_table_entries md;
     let hash_entries = hash_table_entries md;
     bug_on (\<not> hash < hash_entries);
     bug_on (\<not> cache_line < line_entries);
     let md = ocf_metadata_set_core_info cache_line core cline md;
     let md = ocf_metadata_set_collision_info cache_line prev_cache_line line_entries md;
     let md = (if prev_cache_line \<noteq> line_entries
               then ocf_metadata_set_collision_prev prev_cache_line cache_line md else md);
     Some (ocf_metadata_set_hash hash cache_line md)
   }"

definition ocf_metadata_remove_from_collision :: "u32 \<Rightarrow> 'b ocf_metadata \<Rightarrow> 'b ocf_metadata option" where
  "ocf_metadata_remove_from_collision line md = do {
     let line_entries = collision_table_entries md;
     let hash_entries = hash_table_entries md;
     bug_on (\<not> line < line_entries);
     let (next_line, prev_line) = ocf_metadata_get_collision_info md line;
     let md = (if prev_line \<noteq> line_entries then ocf_metadata_set_collision_next prev_line next_line md else md);
     let md = (if next_line \<noteq> line_entries then ocf_metadata_set_collision_prev next_line prev_line md else md);
     let (core, core_sector) = ocf_metadata_get_core_info md line;
     let hash_father = ocf_metadata_hash_func md core_sector core;
     bug_on (\<not> hash_father < hash_entries);
     let md = (if ocf_metadata_get_hash md hash_father = line
               then ocf_metadata_set_hash hash_father next_line md else md);
     let md = ocf_metadata_set_collision_info line line_entries line_entries md;
     Some (ocf_metadata_set_core_info line OCF_CORE_MAX (- 1) md)
   }"

section \<open>The striping map is a bijection\<close>

text \<open>The map on natural numbers: \<open>e\<close> entries per page, \<open>p\<close> pages, \<open>l\<close> entries on the last page.\<close>

definition lg2phy :: "nat \<Rightarrow> nat \<Rightarrow> nat \<Rightarrow> nat \<Rightarrow> nat" where
  "lg2phy e p l x = x mod e * p + x div e - (if x mod e > l then x mod e - l else 0)"

definition phy2lg :: "nat \<Rightarrow> nat \<Rightarrow> nat \<Rightarrow> nat \<Rightarrow> nat" where
  "phy2lg e p l y = (if y < l * p then y mod p * e + y div p
     else (y - l * p) mod (p - 1) * e + ((y - l * p) div (p - 1) + l))"

lemma lg2phy_cases:
  assumes "x < e * (p - 1) + l" "0 < l" "l \<le> e" "0 < p"
  obtains (full) "x mod e < l" "x div e < p" "lg2phy e p l x = x mod e * p + x div e"
  | (short) "l \<le> x mod e" "x mod e < e" "x div e < p - 1"
      "lg2phy e p l x = l * p + ((x mod e - l) * (p - 1) + x div e)"
proof -
  have "x < e * p" using assms by (cases p) auto
  then have c: "x div e < p" by (simp add: less_mult_imp_div_less mult.commute)
  show thesis
  proof (cases "x mod e < l")
    case True
    with c full show thesis by (simp add: lg2phy_def)
  next
    case False
    have r: "x mod e < e" using assms by simp
    have "x div e < p - 1"
    proof (rule ccontr)
      assume "\<not> x div e < p - 1"
      then have "e * (p - 1) \<le> e * (x div e)" by simp
      then have "e * (p - 1) + l \<le> e * (x div e) + x mod e" using False by linarith
      with assms(1) show False by simp
    qed
    moreover have "lg2phy e p l x = l * p + ((x mod e - l) * (p - 1) + x div e)"
    proof -
      obtain k where k: "x mod e = l + k" using False by (metis le_Suc_ex not_less)
      obtain q where q: "p = Suc q" using assms(4) by (cases p) auto
      show ?thesis unfolding lg2phy_def k q by (simp add: algebra_simps)
    qed
    ultimately show thesis using short False r by simp
  qed
qed

lemma phy2lg_lg2phy:
  assumes "x < e * (p - 1) + l" "0 < l" "l \<le> e" "0 < p"
  shows "phy2lg e p l (lg2phy e p l x) = x" "lg2phy e p l x < e * (p - 1) + l"
proof -
  have main: "phy2lg e p l (lg2phy e p l x) = x \<and> lg2phy e p l x < e * (p - 1) + l"
    using assms
  proof (cases rule: lg2phy_cases)
    case full
    have "x mod e * p + x div e < Suc (x mod e) * p" using full(2) by simp
    also have lp: "\<dots> \<le> l * p" using full(1) by (intro mult_le_mono1) simp
    finally have lt: "x mod e * p + x div e < l * p" .
    have "l * p = l * (p - 1) + l" using assms(4) by (cases p) auto
    also have "\<dots> \<le> e * (p - 1) + l" using assms(3) by simp
    finally have "lg2phy e p l x < e * (p - 1) + l" using lt full(3) by simp
    moreover have "(x mod e * p + x div e) mod p = x div e" "(x mod e * p + x div e) div p = x mod e"
      using full(2) by simp_all
    ultimately show ?thesis using lt full(3) by (simp add: phy2lg_def)
  next
    case short
    let ?z = "(x mod e - l) * (p - 1) + x div e"
    have z: "?z mod (p - 1) = x div e" "?z div (p - 1) = x mod e - l"
      using short(3) by simp_all
    have "?z < Suc (x mod e - l) * (p - 1)" using short(3) by simp
    also have "\<dots> \<le> (e - l) * (p - 1)" using short(1,2) by (intro mult_le_mono1) auto
    finally have "l * p + ?z < l * p + (e - l) * (p - 1)" by simp
    also have "\<dots> = e * (p - 1) + l"
      using assms(3,4) by (cases p) (auto simp: algebra_simps simp flip: add_mult_distrib)
    finally have "lg2phy e p l x < e * (p - 1) + l" unfolding short(4) .
    moreover have "phy2lg e p l (l * p + ?z) = x"
      using z short(1) by (simp add: phy2lg_def)
    ultimately show ?thesis unfolding short(4) by simp
  qed
  show "phy2lg e p l (lg2phy e p l x) = x" "lg2phy e p l x < e * (p - 1) + l" using main by simp_all
qed

text \<open>
  The geometry that \<open>ocf_metadata_init_variable_size\<close> sets up: the segment has an entry per line, and
  \<open>ssd_pages\<close> is the number of pages that these entries need.
\<close>

definition geometry_ok :: "'b ocf_metadata \<Rightarrow> bool" where
  "geometry_ok md \<longleftrightarrow>
     0 < unat (entries_in_page md) \<and> 0 < unat (collision_table_entries md) \<and>
     raw_entries md = ucast (collision_table_entries md) \<and>
     unat (ssd_pages md) = (unat (collision_table_entries md) + unat (entries_in_page md) - 1) div unat (entries_in_page md) \<and>
     unat (entries_in_page md) * unat (ssd_pages md) < 2 ^ 32"

definition last_page :: "'b ocf_metadata \<Rightarrow> nat" where
  "last_page md = unat (entries_in_page md) - (unat (entries_in_page md) * unat (ssd_pages md) - unat (collision_table_entries md))"

lemma ceil_div_bounds:
  fixes n e :: nat
  assumes "0 < e" "0 < n" "p = (n + e - 1) div e"
  shows "0 < p" "n \<le> e * p" "e * p < n + e" "n = e * (p - 1) + (e - (e * p - n))" "n mod e = (e - (e * p - n)) mod e"
proof -
  have "e * p + (n + e - 1) mod e = n + e - 1" unfolding assms(3) by simp
  moreover have "(n + e - 1) mod e < e" using assms(1) by simp
  ultimately have b: "n \<le> e * p" "e * p < n + e" by linarith+
  then show "n \<le> e * p" "e * p < n + e" by simp_all
  show p: "0 < p" using b(1) assms(2) by (cases p) auto
  then obtain q where q: "p = Suc q" by (cases p) auto
  have "n = e * q + (e - (e * p - n))" using b unfolding q by simp
  then show n: "n = e * (p - 1) + (e - (e * p - n))" by (simp add: q)
  show "n mod e = (e - (e * p - n)) mod e" by (subst n) simp
qed

lemma geometry_facts:
  assumes "geometry_ok md"
  defines "e \<equiv> unat (entries_in_page md)" and "p \<equiv> unat (ssd_pages md)" and "n \<equiv> unat (collision_table_entries md)"
  shows "0 < p" "n \<le> e * p" "e * p < n + e" "n = e * (p - 1) + last_page md" "0 < last_page md" "last_page md \<le> e"
    "unat (ucast (ssd_pages md) :: u32) = p" "e * p < 2 ^ 32" "0 < e" "n mod e = last_page md mod e"
proof -
  have g: "0 < e" "0 < n" "p = (n + e - 1) div e" "e * p < 2 ^ 32"
    using assms by (auto simp: geometry_ok_def)
  note c = ceil_div_bounds [OF g(1-3)]
  show "0 < p" "n \<le> e * p" "e * p < n + e" "0 < e" "e * p < 2 ^ 32" using c g by simp_all
  show "n = e * (p - 1) + last_page md" "n mod e = last_page md mod e"
    using c(4,5) by (simp_all add: last_page_def e_def p_def n_def)
  show "0 < last_page md" using c(2,3) g(1) unfolding last_page_def e_def p_def n_def by linarith
  show "last_page md \<le> e" by (simp add: last_page_def e_def)
  have "p \<le> e * p" using g(1) by simp
  then have "p < 2 ^ 32" using g(4) by linarith
  then show "unat (ucast (ssd_pages md) :: u32) = p"
    by (simp add: p_def unsigned_ucast_eq take_bit_nat_eq_self)
qed

lemma lg2phy_striping_unat:
  assumes g: "geometry_ok md" and x: "x < collision_table_entries md"
  shows "unat (ocf_metadata_map_lg2phy_striping md x) =
    lg2phy (unat (entries_in_page md)) (unat (ssd_pages md)) (last_page md) (unat x)"
proof -
  let ?e = "entries_in_page md" and ?p = "ucast (ssd_pages md) :: u32" and ?n = "collision_table_entries md"
  note f = geometry_facts [OF g]
  have ep: "unat (?e * ?p) = unat ?e * unat (ssd_pages md)"
    using f(7,8) unat_mult_lem [of ?e ?p] by simp
  have d: "unat (?e * ?p - ?n) = unat ?e * unat (ssd_pages md) - unat ?n"
    using f(2) ep by (subst unat_sub) (simp_all add: word_le_nat_alt)
  have l: "unat (?e - (?e * ?p - ?n)) = last_page md"
    using f(3) d by (subst unat_sub) (simp_all add: word_le_nat_alt last_page_def)
  have lt: "unat x < unat ?e * (unat (ssd_pages md) - 1) + last_page md"
    using x f(4) by (simp add: word_less_nat_alt)
  have r: "unat (x mod ?e) = unat x mod unat ?e" "unat (x div ?e) = unat x div unat ?e"
    by (simp_all add: unat_mod unat_div)
  have "unat x mod unat ?e * unat (ssd_pages md) + unat x div unat ?e < 2 ^ 32"
  proof -
    have "unat x < unat ?e * unat (ssd_pages md)" using lt f(2) x by (simp add: word_less_nat_alt)
    then have c: "unat x div unat ?e < unat (ssd_pages md)" by (simp add: less_mult_imp_div_less mult.commute)
    have "unat x mod unat ?e * unat (ssd_pages md) + unat x div unat ?e < Suc (unat x mod unat ?e) * unat (ssd_pages md)"
      using c by simp
    also have "\<dots> \<le> unat ?e * unat (ssd_pages md)"
      using mod_less_divisor [OF f(9), of "unat x"] by (intro mult_le_mono1) simp
    finally show ?thesis using f(8) by linarith
  qed
  then have s: "unat (x mod ?e * ?p + x div ?e) = unat x mod unat ?e * unat (ssd_pages md) + unat x div unat ?e"
    using unat_mult_lem [of "x mod ?e" ?p] unat_add_lem [of "x mod ?e * ?p" "x div ?e"] f(7) r by simp
  let ?off = "if x mod ?e > ?e - (?e * ?p - ?n) then x mod ?e - (?e - (?e * ?p - ?n)) else 0"
  have o: "unat ?off = (if unat x mod unat ?e > last_page md then unat x mod unat ?e - last_page md else 0)"
    using l r by (auto simp: word_less_nat_alt unat_sub word_le_nat_alt)
  have le: "unat ?off \<le> unat (x mod ?e * ?p + x div ?e)"
  proof -
    have "r - k \<le> r * unat (ssd_pages md) + c" for r k c :: nat
      by (rule le_trans [of _ r]) (use f(1) in \<open>simp_all add: trans_le_add1\<close>)
    then show ?thesis unfolding o s by simp
  qed
  have "unat (x mod ?e * ?p + x div ?e - ?off) = unat (x mod ?e * ?p + x div ?e) - unat ?off"
    using le by (intro unat_sub) (simp add: word_le_nat_alt)
  then show ?thesis
    unfolding ocf_metadata_map_lg2phy_striping_def Let_def lg2phy_def o s .
qed

lemma phy2lg_striping_unat:
  assumes g: "geometry_ok md" and y: "y < collision_table_entries md"
  shows "unat (ocf_metadata_map_phy2lg_striping md y) =
    phy2lg (unat (entries_in_page md)) (unat (ssd_pages md)) (last_page md) (unat y)"
proof -
  let ?e = "entries_in_page md" and ?p = "ucast (ssd_pages md) :: u32" and ?n = "collision_table_entries md"
  let ?rest = "raw_entries md mod ucast ?e" and ?l = "last_page md"
  note f = geometry_facts [OF g]
  have up: "unat (ucast w :: u64) = unat w" for w :: u32
    by (simp add: unsigned_ucast_eq take_bit_nat_eq_self order_less_le_trans [OF unsigned_less])
  have rest: "unat ?rest = unat ?n mod unat ?e"
    using g by (simp add: geometry_ok_def unat_mod up)
  then have "unat ?rest < 2 ^ 32"
    using order_le_less_trans [OF mod_le_divisor [OF f(9)] unsigned_less [of ?e]] by simp
  then have rest32: "unat (ucast ?rest :: u32) = unat ?n mod unat ?e"
    using rest by (simp add: unsigned_ucast_eq take_bit_nat_eq_self)
  define ll where "ll = (if ?rest \<noteq> 0 then ucast ?rest else ?e :: u32)"
  have ll: "unat ll = ?l"
  proof (cases "?l = unat ?e")
    case True
    then have "?rest = 0" using rest f(10) by (simp add: unat_eq_0 [symmetric])
    with True show ?thesis by (simp add: ll_def)
  next
    case False
    then have "unat ?n mod unat ?e = ?l" using f(6,10) by simp
    with rest rest32 f(5) show ?thesis unfolding ll_def by (auto simp: unat_eq_0 [symmetric])
  qed
  have lp: "?l * unat (ssd_pages md) \<le> unat ?e * unat (ssd_pages md)" using f(6) by (rule mult_le_mono1)
  then have "unat ll * unat ?p < 2 ^ 32" unfolding ll f(7) using f(8) by (rule order_le_less_trans)
  then have last: "unat (ll * ?p) = ?l * unat (ssd_pages md)"
    using unat_mult_lem [of ll ?p] ll f(7) by simp
  have yn: "unat y < unat ?e * (unat (ssd_pages md) - 1) + ?l" using y f(4) by (simp add: word_less_nat_alt)
  have fin: "unat (row * ?e + coll) = unat row * unat ?e + unat coll"
    if "unat row < unat (ssd_pages md)" "unat coll < unat ?e" for row coll :: u32
  proof -
    have "unat row * unat ?e + unat coll < Suc (unat row) * unat ?e" using that(2) by simp
    also have "\<dots> \<le> unat (ssd_pages md) * unat ?e" using that(1) by (intro mult_le_mono1) simp
    finally have "unat row * unat ?e + unat coll < 2 ^ 32" using f(8) by (simp add: mult.commute)
    then show ?thesis
      using unat_mult_lem [of row ?e] unat_add_lem [of "row * ?e" coll] by simp
  qed
  show ?thesis
  proof (cases "y < ll * ?p")
    case True
    then have yl: "unat y < ?l * unat (ssd_pages md)" using last by (simp add: word_less_nat_alt)
    then have "unat y div unat (ssd_pages md) < ?l" by (simp add: less_mult_imp_div_less)
    then have "unat (y mod ?p * ?e + y div ?p) = unat y mod unat (ssd_pages md) * unat ?e + unat y div unat (ssd_pages md)"
      using f(1,6,7) by (subst fin) (simp_all add: unat_mod unat_div)
    with True yl show ?thesis
      by (simp add: ocf_metadata_map_phy2lg_striping_def phy2lg_def Let_def flip: ll_def)
  next
    case False
    then have yl: "?l * unat (ssd_pages md) \<le> unat y" using last by (simp add: word_less_nat_alt)
    obtain q where q: "unat (ssd_pages md) = Suc q" using f(1) by (cases "unat (ssd_pages md)") auto
    have z: "unat (y - ll * ?p) = unat y - ?l * unat (ssd_pages md)"
      using False last by (simp add: unat_sub)
    have q0: "0 < q" using yl yn q by (cases q) auto
    have p1: "unat (?p - 1) = q" using f(7) q by simp
    have "unat y - ?l * unat (ssd_pages md) < (unat ?e - ?l) * q"
      using yn yl f(6) unfolding q by (simp add: diff_mult_distrib algebra_simps)
    then have zd: "(unat y - ?l * unat (ssd_pages md)) div q < unat ?e - ?l" by (simp add: less_mult_imp_div_less)
    let ?c = "(y - ll * ?p) div (?p - 1) + ll"
    have "(unat y - ?l * unat (ssd_pages md)) div q + ?l < unat ?e" using zd by linarith
    then have c: "unat ?c = (unat y - ?l * unat (ssd_pages md)) div q + ?l" "unat ?c < unat ?e"
      using unat_add_lem [of "(y - ll * ?p) div (?p - 1)" ll] ll z p1 unsigned_less [of ?e, where 'a = nat]
      by (simp_all add: unat_div)
    have "unat ((y - ll * ?p) mod (?p - 1)) = (unat y - ?l * unat (ssd_pages md)) mod q"
      using z p1 by (simp add: unat_mod)
    moreover have "(unat y - ?l * unat (ssd_pages md)) mod q < unat (ssd_pages md)"
      using q0 q by (simp add: less_SucI)
    ultimately have "unat ((y - ll * ?p) mod (?p - 1) * ?e + ?c) =
        (unat y - ?l * unat (ssd_pages md)) mod q * unat ?e + ((unat y - ?l * unat (ssd_pages md)) div q + ?l)"
      using c by (subst fin) simp_all
    with False yl q show ?thesis
      by (simp add: ocf_metadata_map_phy2lg_striping_def phy2lg_def Let_def flip: ll_def)
  qed
qed

lemma striping_inverse:
  assumes g: "geometry_ok md" and x: "x < collision_table_entries md"
  shows "ocf_metadata_map_lg2phy_striping md x < collision_table_entries md"
    and "ocf_metadata_map_phy2lg_striping md (ocf_metadata_map_lg2phy_striping md x) = x"
proof -
  note f = geometry_facts [OF g]
  have lt: "unat x < unat (entries_in_page md) * (unat (ssd_pages md) - 1) + last_page md"
    using x f(4) by (simp add: word_less_nat_alt)
  note inv = phy2lg_lg2phy [OF lt f(5,6,1)]
  show l: "ocf_metadata_map_lg2phy_striping md x < collision_table_entries md"
    using inv(2) f(4) by (simp add: word_less_nat_alt lg2phy_striping_unat [OF g x])
  show "ocf_metadata_map_phy2lg_striping md (ocf_metadata_map_lg2phy_striping md x) = x"
    using inv(1) by (simp add: word_unat_eq_iff phy2lg_striping_unat [OF g l] lg2phy_striping_unat [OF g x])
qed

lemma inverse_on_finite:
  assumes "finite S" "\<And>x. x \<in> S \<Longrightarrow> f x \<in> S \<and> g (f x) = x" "y \<in> S"
  shows "g y \<in> S \<and> f (g y) = y"
proof -
  have "inj_on f S" using assms(2) by (metis inj_onI)
  then have "f ` S = S" using assms(1,2) by (simp add: endo_inj_surj image_subset_iff)
  then obtain x where "x \<in> S" "y = f x" using assms(3) by blast
  with assms(2) show ?thesis by simp
qed

lemma map_inverse:
  assumes "layout md = Layout_striping \<longrightarrow> geometry_ok md" "x < collision_table_entries md"
  shows "ocf_metadata_map_lg2phy md x < collision_table_entries md \<and>
    ocf_metadata_map_phy2lg md (ocf_metadata_map_lg2phy md x) = x \<and>
    ocf_metadata_map_phy2lg md x < collision_table_entries md \<and>
    ocf_metadata_map_lg2phy md (ocf_metadata_map_phy2lg md x) = x"
proof (cases "layout md")
  case Layout_seq
  with assms show ?thesis by (simp add: ocf_metadata_map_lg2phy_def ocf_metadata_map_phy2lg_def)
next
  case Layout_striping
  with assms have g: "geometry_ok md" by simp
  have "finite {x. x < collision_table_entries md}" by simp
  from inverse_on_finite [OF this, of "ocf_metadata_map_lg2phy_striping md" "ocf_metadata_map_phy2lg_striping md" x]
    striping_inverse [OF g] assms(2) Layout_striping
  show ?thesis by (simp add: ocf_metadata_map_lg2phy_def ocf_metadata_map_phy2lg_def)
qed

text \<open>
  Property C30. The two mapping functions are inverse bijections of the cache lines, in both layouts;
  for striping, whatever the number of lines on the last metadata page.
\<close>

theorem lg2phy_phy2lg_inverse:
  assumes "layout md = Layout_striping \<longrightarrow> geometry_ok md" "x < collision_table_entries md"
  shows "ocf_metadata_map_lg2phy md x < collision_table_entries md \<and>
    ocf_metadata_map_phy2lg md (ocf_metadata_map_lg2phy md x) = x \<and>
    ocf_metadata_map_phy2lg md x < collision_table_entries md \<and>
    ocf_metadata_map_lg2phy md (ocf_metadata_map_phy2lg md x) = x"
  by (rule map_inverse [OF assms])

section \<open>The hash function\<close>

lemma hash_func_unat:
  assumes "0 < hash_table_entries md"
  shows "unat (ocf_metadata_hash_func md cl core) =
    unat (cl + ucast (ucast core * (hash_table_entries md div 32) :: u32)) mod unat (hash_table_entries md)"
proof -
  let ?e = "hash_table_entries md"
  have u: "unat (ucast ?e :: u64) = unat ?e"
    by (simp add: unsigned_ucast_eq take_bit_nat_eq_self order_less_le_trans [OF unsigned_less])
  have "x mod unat ?e < 2 ^ 32" for x
  proof -
    have "x mod unat ?e < unat ?e" using assms by (simp add: word_less_nat_alt)
    then show ?thesis using unsigned_less [of ?e, where 'a = nat] by simp
  qed
  moreover have "unat (ucast w :: u32) = unat w" if "unat w < 2 ^ 32" for w :: u64
    using that by (simp add: unsigned_ucast_eq take_bit_nat_eq_self)
  moreover have "unat (v mod ucast ?e) = unat v mod unat ?e" for v :: u64
    by (simp only: unat_mod u)
  ultimately show ?thesis
    by (simp add: ocf_metadata_hash_func_def Let_def)
qed

lemma hash_func_less: "0 < hash_table_entries md \<Longrightarrow> ocf_metadata_hash_func md cl core < hash_table_entries md"
  by (simp add: word_less_nat_alt hash_func_unat)

lemma hash_func_shift:
  assumes "0 < hash_table_entries md" "unat cl + i + 2 ^ 32 \<le> 2 ^ 64"
  shows "unat (ocf_metadata_hash_func md (cl + of_nat i) core) =
    (unat (ocf_metadata_hash_func md cl core) + i) mod unat (hash_table_entries md)"
proof -
  let ?k = "ucast (ucast core * (hash_table_entries md div 32) :: u32) :: u64"
  have k: "unat ?k < 2 ^ 32" using unsigned_less [of "ucast core * (hash_table_entries md div 32) :: u32", where 'a = nat]
    by (simp add: unsigned_ucast_eq take_bit_nat_eq_self)
  have i: "unat (of_nat i :: u64) = i" using assms(2) by (simp add: unsigned_of_nat take_bit_nat_eq_self)
  have s: "unat (cl + ?k) = unat cl + unat ?k"
    using assms(2) k unat_add_lem [of cl ?k] by simp
  have eq: "cl + of_nat i + ?k = (cl + ?k) + of_nat i" by simp
  have "unat (cl + of_nat i + ?k) = unat (cl + ?k) + i"
    unfolding eq using assms(2) k s i unat_add_lem [of "cl + ?k" "of_nat i"] by simp
  then show ?thesis
    using assms(1) by (simp add: hash_func_unat mod_simps)
qed

text \<open>
  The hash function is in range and sends consecutive core lines to consecutive buckets,
  modulo the size of the table, as long as the line numbers stay \<open>2 ^ 32\<close> below the wrap-around of 64 bits.
\<close>

theorem hash_func_consecutive:
  assumes "0 < hash_table_entries md" "unat cl + i + 2 ^ 32 \<le> 2 ^ 64"
  shows "ocf_metadata_hash_func md cl core < hash_table_entries md \<and>
    unat (ocf_metadata_hash_func md (cl + of_nat i) core) =
      (unat (ocf_metadata_hash_func md cl core) + i) mod unat (hash_table_entries md)"
  using hash_func_shift [OF assms] hash_func_less [OF assms(1)] by simp

section \<open>Collision lists implement buckets\<close>

lemma metadata_store_laws [store_laws]:
  "list_info (ocf_metadata_set_hash i v md) = list_info md" "map_info (ocf_metadata_set_hash i v md) = map_info md"
  "hash_tbl (ocf_metadata_set_hash i v md) = (hash_tbl md)(i := v)"
  "hash_tbl (ocf_metadata_set_collision_info l n p md) = hash_tbl md"
  "map_info (ocf_metadata_set_collision_info l n p md) = map_info md"
  "hash_tbl (ocf_metadata_set_collision_next l n md) = hash_tbl md"
  "map_info (ocf_metadata_set_collision_next l n md) = map_info md"
  "hash_tbl (ocf_metadata_set_collision_prev l p md) = hash_tbl md"
  "map_info (ocf_metadata_set_collision_prev l p md) = map_info md"
  "hash_tbl (ocf_metadata_set_core_info l c s md) = hash_tbl md"
  "list_info (ocf_metadata_set_core_info l c s md) = list_info md"
  "map_info (ocf_metadata_set_core_info l c s md) =
     (map_info md)(l := (map_info md l)\<lparr>core_id := c, core_line := s\<rparr>)"
  by (simp_all add: ocf_metadata_set_hash_def ocf_metadata_set_collision_info_def ocf_metadata_set_collision_next_def
      ocf_metadata_set_collision_prev_def ocf_metadata_set_core_info_def)

lemma metadata_sizes [store_laws]:
  "collision_table_entries (ocf_metadata_set_hash i v md) = collision_table_entries md"
  "hash_table_entries (ocf_metadata_set_hash i v md) = hash_table_entries md"
  "collision_table_entries (ocf_metadata_set_collision_info l n p md) = collision_table_entries md"
  "hash_table_entries (ocf_metadata_set_collision_info l n p md) = hash_table_entries md"
  "collision_table_entries (ocf_metadata_set_collision_next l n md) = collision_table_entries md"
  "hash_table_entries (ocf_metadata_set_collision_next l n md) = hash_table_entries md"
  "collision_table_entries (ocf_metadata_set_collision_prev l p md) = collision_table_entries md"
  "hash_table_entries (ocf_metadata_set_collision_prev l p md) = hash_table_entries md"
  "collision_table_entries (ocf_metadata_set_core_info l c s md) = collision_table_entries md"
  "hash_table_entries (ocf_metadata_set_core_info l c s md) = hash_table_entries md"
  by (simp_all add: ocf_metadata_set_hash_def ocf_metadata_set_collision_info_def ocf_metadata_set_collision_next_def
      ocf_metadata_set_collision_prev_def ocf_metadata_set_core_info_def)

definition nxt_col :: "'b ocf_metadata \<Rightarrow> u32 \<Rightarrow> u32" where
  "nxt_col md x = next_col (list_info md x)"

definition prv_col :: "'b ocf_metadata \<Rightarrow> u32 \<Rightarrow> u32" where
  "prv_col md x = prev_col (list_info md x)"

interpretation collision_links: link_store nxt_col prv_col ocf_metadata_set_collision_next ocf_metadata_set_collision_prev
  by unfold_locales
    (auto simp: fun_eq_iff nxt_col_def prv_col_def ocf_metadata_set_collision_next_def ocf_metadata_set_collision_prev_def)

lemma collision_links_other [store_laws]:
  "nxt_col (ocf_metadata_set_hash i v md) = nxt_col md" "prv_col (ocf_metadata_set_hash i v md) = prv_col md"
  "nxt_col (ocf_metadata_set_core_info l c s md) = nxt_col md" "prv_col (ocf_metadata_set_core_info l c s md) = prv_col md"
  "nxt_col (ocf_metadata_set_collision_info l n p md) = (nxt_col md)(l := n)"
  "prv_col (ocf_metadata_set_collision_info l n p md) = (prv_col md)(l := p)"
  by (simp_all add: fun_eq_iff nxt_col_def prv_col_def store_laws ocf_metadata_set_collision_info_def)

definition line_hash :: "'b ocf_metadata \<Rightarrow> u32 \<Rightarrow> u32" where
  "line_hash md x = ocf_metadata_hash_func md (core_line (map_info md x)) (core_id (map_info md x))"

text \<open>
  The buckets \<open>B\<close> of a metadata state: every bucket is a doubly linked list that starts at the hash
  table entry, of lines whose core line hashes to that bucket. No core line is cached twice.
\<close>

definition coll_inv :: "'b ocf_metadata \<Rightarrow> (u32 \<Rightarrow> u32 list) \<Rightarrow> bool" where
  "coll_inv md B \<longleftrightarrow>
     0 < hash_table_entries md \<and>
     (\<forall>h < hash_table_entries md.
        dll (nxt_col md) (prv_col md) (collision_table_entries md) (B h) \<and>
        hash_tbl md h = hd_or (collision_table_entries md) (B h) \<and>
        (\<forall>x \<in> set (B h). x < collision_table_entries md \<and> line_hash md x = h) \<and>
        distinct (map (ocf_metadata_get_core_info md) (B h)))"

lemma coll_invD:
  assumes "coll_inv md B" "h < hash_table_entries md"
  shows "dll (nxt_col md) (prv_col md) (collision_table_entries md) (B h)"
    "hash_tbl md h = hd_or (collision_table_entries md) (B h)"
    "x \<in> set (B h) \<Longrightarrow> x < collision_table_entries md" "x \<in> set (B h) \<Longrightarrow> line_hash md x = h"
    "distinct (map (ocf_metadata_get_core_info md) (B h))"
  using assms by (auto simp: coll_inv_def)

lemma hash_func_upd [store_laws]:
  "ocf_metadata_hash_func (ocf_metadata_set_hash i v md) = ocf_metadata_hash_func md"
  "ocf_metadata_hash_func (ocf_metadata_set_collision_info l n p md) = ocf_metadata_hash_func md"
  "ocf_metadata_hash_func (ocf_metadata_set_collision_next l n md) = ocf_metadata_hash_func md"
  "ocf_metadata_hash_func (ocf_metadata_set_collision_prev l p md) = ocf_metadata_hash_func md"
  "ocf_metadata_hash_func (ocf_metadata_set_core_info l c s md) = ocf_metadata_hash_func md"
  by (simp_all add: fun_eq_iff ocf_metadata_hash_func_def store_laws)

lemma add_to_collision_inv:
  assumes inv: "coll_inv md B" and x: "x < collision_table_entries md"
    and free: "\<forall>h < hash_table_entries md. x \<notin> set (B h)"
    and new: "(core, cl) \<notin> ocf_metadata_get_core_info md ` set (B (ocf_metadata_hash_func md cl core))"
    and h: "h = ocf_metadata_hash_func md cl core"
  shows "\<exists>md'. ocf_metadata_add_to_collision core cl h x md = Some md' \<and> coll_inv md' (B(h := x # B h)) \<and>
    ocf_metadata_get_core_info md' = (ocf_metadata_get_core_info md)(x := (core, cl)) \<and>
    collision_table_entries md' = collision_table_entries md \<and> hash_table_entries md' = hash_table_entries md"
proof -
  let ?E = "collision_table_entries md" and ?p = "hash_tbl md h"
  have hl: "h < hash_table_entries md" using inv h by (simp add: coll_inv_def hash_func_less)
  define md1 where "md1 = ocf_metadata_set_collision_info x ?p ?E (ocf_metadata_set_core_info x core cl md)"
  define md2 where "md2 = (if ?p = ?E then md1 else ocf_metadata_set_collision_prev ?p x md1)"
  define md' where "md' = ocf_metadata_set_hash h x md2"
  have run: "ocf_metadata_add_to_collision core cl h x md = Some md'"
    using hl x by (simp add: ocf_metadata_add_to_collision_def ocf_metadata_get_hash_def md1_def md2_def md'_def Let_def)
  have xE: "x \<noteq> ?E" using x by simp
  note d = coll_invD(1) [OF inv hl] and p = coll_invD(2) [OF inv hl]
  have links: "nxt_col md1 = (nxt_col md)(x := ?p)" "prv_col md1 = (prv_col md)(x := ?E)"
    by (simp_all add: md1_def store_laws)
  have "dll (nxt_col md2) (prv_col md2) ?E (x # B h)"
    using collision_links.push_front [OF d _ xE p links] free hl by (simp add: md2_def)
  then have dll_h: "dll (nxt_col md') (prv_col md') ?E (x # B h)" by (simp add: md'_def store_laws)
  have same: "hash_table_entries md' = hash_table_entries md" "collision_table_entries md' = ?E"
    "hash_tbl md' = (hash_tbl md)(h := x)"
    by (simp_all add: md'_def md2_def md1_def store_laws)
  have info: "ocf_metadata_get_core_info md' = (ocf_metadata_get_core_info md)(x := (core, cl))"
    by (simp add: fun_eq_iff ocf_metadata_get_core_info_def md'_def md2_def md1_def store_laws)
  have lh: "line_hash md' y = (if y = x then h else line_hash md y)" for y
    by (simp add: line_hash_def md'_def md2_def md1_def store_laws h)
  have other: "dll (nxt_col md') (prv_col md') ?E (B k)" if k: "k < hash_table_entries md" "k \<noteq> h" for k
  proof (rule dll_frame [OF coll_invD(1) [OF inv k(1)]])
    fix y assume y: "y \<in> set (B k)"
    then have "y \<noteq> x" using free k(1) by auto
    moreover have "?p \<noteq> ?E \<Longrightarrow> y \<noteq> ?p"
      using coll_invD(4) [OF inv k(1) y] coll_invD(4) [OF inv hl] hd_or_in [of "B h" ?E] k(2) p
      by (cases "B h = []") auto
    ultimately show "nxt_col md' y = nxt_col md y" "prv_col md' y = prv_col md y"
      by (auto simp: md'_def md2_def store_laws links collision_links.links)
  qed
  have "coll_inv md' (B(h := x # B h))"
    unfolding coll_inv_def same
  proof (intro conjI allI impI)
    show "0 < hash_table_entries md" using inv by (simp add: coll_inv_def)
    fix k assume k: "k < hash_table_entries md"
    show "dll (nxt_col md') (prv_col md') ?E ((B(h := x # B h)) k)" using dll_h other k by simp
    show "((hash_tbl md)(h := x)) k = hd_or ?E ((B(h := x # B h)) k)" using coll_invD(2) [OF inv k] by simp
    show "\<forall>y \<in> set ((B(h := x # B h)) k). y < ?E \<and> line_hash md' y = k"
      using coll_invD(3,4) [OF inv k] x free k by (auto simp: lh)
    have m: "map (ocf_metadata_get_core_info md') (B k) = map (ocf_metadata_get_core_info md) (B k)"
      using free k by (auto simp: info)
    then have "ocf_metadata_get_core_info md' ` set (B k) = ocf_metadata_get_core_info md ` set (B k)"
      by (metis list.set_map)
    moreover have "ocf_metadata_get_core_info md' x = (core, cl)" by (simp add: info)
    ultimately show "distinct (map (ocf_metadata_get_core_info md') ((B(h := x # B h)) k))"
      using coll_invD(5) [OF inv k] new m by (cases "k = h") (simp_all add: h del: map_eq_conv)
  qed
  with run info same show ?thesis by blast
qed

lemma remove_from_collision_inv:
  assumes inv: "coll_inv md B" and h: "h < hash_table_entries md" and x: "x \<in> set (B h)"
  shows "\<exists>md'. ocf_metadata_remove_from_collision x md = Some md' \<and> coll_inv md' (B(h := remove1 x (B h))) \<and>
    ocf_metadata_get_core_info md' = (ocf_metadata_get_core_info md)(x := (OCF_CORE_MAX, - 1)) \<and>
    collision_table_entries md' = collision_table_entries md \<and> hash_table_entries md' = hash_table_entries md"
proof -
  let ?E = "collision_table_entries md"
  from x obtain as bs where B: "B h = as @ x # bs" by (meson split_list)
  note d = coll_invD(1) [OF inv h, unfolded B]
  define n where "n = hd_or ?E bs"
  define p where "p = last_or ?E as"
  have np: "nxt_col md x = n" "prv_col md x = p" using dll_links [OF d] by (simp_all add: n_def p_def)
  have dist: "distinct (as @ x # bs)" "?E \<notin> set (as @ x # bs)" using d by (auto simp: dll_def)
  have rm: "remove1 x (B h) = as @ bs" using dist by (simp add: B remove1_append)
  define md1 where "md1 = (if p = ?E then md else ocf_metadata_set_collision_next p n md)"
  define md2 where "md2 = (if n = ?E then md1 else ocf_metadata_set_collision_prev n p md1)"
  define md3 where "md3 = (if hash_tbl md h = x then ocf_metadata_set_hash h n md2 else md2)"
  define md' where "md' = ocf_metadata_set_core_info x OCF_CORE_MAX (- 1) (ocf_metadata_set_collision_info x ?E ?E md3)"
  have hf: "ocf_metadata_hash_func md (core_line (map_info md x)) (core_id (map_info md x)) = h"
    using coll_invD(4) [OF inv h x] by (simp add: line_hash_def)
  have run: "ocf_metadata_remove_from_collision x md = Some md'"
    using coll_invD(3) [OF inv h x] np hf h
    by (cases "p = ?E"; cases "n = ?E"; cases "hash_tbl md h = x")
      (simp_all add: ocf_metadata_remove_from_collision_def ocf_metadata_get_collision_info_def nxt_col_def prv_col_def
        ocf_metadata_get_core_info_def ocf_metadata_get_hash_def md'_def md3_def md2_def md1_def store_laws Let_def)
  have same: "hash_table_entries md' = hash_table_entries md" "collision_table_entries md' = ?E"
    by (simp_all add: md'_def md3_def md2_def md1_def store_laws)
  have info: "ocf_metadata_get_core_info md' = (ocf_metadata_get_core_info md)(x := (OCF_CORE_MAX, - 1))"
    by (simp add: fun_eq_iff ocf_metadata_get_core_info_def md'_def md3_def md2_def md1_def store_laws)
  have lh: "y \<noteq> x \<Longrightarrow> line_hash md' y = line_hash md y" for y
    by (simp add: line_hash_def md'_def md3_def md2_def md1_def store_laws)
  have links: "nxt_col md' = (nxt_col md2)(x := ?E)" "prv_col md' = (prv_col md2)(x := ?E)"
    by (simp_all add: md'_def md3_def store_laws)
  have "dll (nxt_col md2) (prv_col md2) ?E (as @ bs)"
    using collision_links.unlink [OF d n_def p_def md1_def md2_def] .
  then have dll_h: "dll (nxt_col md') (prv_col md') ?E (as @ bs)"
    by (rule dll_frame) (use dist in \<open>auto simp: links\<close>)
  have hd: "hash_tbl md' k = (if k = h then hd_or ?E (as @ bs) else hash_tbl md k)" for k
  proof -
    have "hash_tbl md h = x \<longleftrightarrow> as = []"
      using coll_invD(2) [OF inv h] dist by (cases as) (auto simp: B)
    then show ?thesis
      using coll_invD(2) [OF inv h]
      by (cases as) (auto simp: md'_def md3_def md2_def md1_def store_laws B n_def)
  qed
  have other: "dll (nxt_col md') (prv_col md') ?E (B k)" if k: "k < hash_table_entries md" "k \<noteq> h" for k
  proof (rule dll_frame [OF coll_invD(1) [OF inv k(1)]])
    fix y assume y: "y \<in> set (B k)"
    have "y \<notin> set (B h)" using coll_invD(4) [OF inv k(1) y] coll_invD(4) [OF inv h, of y] k(2) by auto
    moreover have "p \<noteq> ?E \<Longrightarrow> p \<in> set (B h)" "n \<noteq> ?E \<Longrightarrow> n \<in> set (B h)"
      using last_or_in [of as ?E] hd_or_in [of bs ?E] by (cases "as = []"; cases "bs = []"; auto simp: B n_def p_def)+
    ultimately show "nxt_col md' y = nxt_col md y" "prv_col md' y = prv_col md y"
      using x by (auto simp: links md2_def md1_def collision_links.links)
  qed
  have "coll_inv md' (B(h := remove1 x (B h)))"
    unfolding coll_inv_def same rm
  proof (intro conjI allI impI)
    show "0 < hash_table_entries md" using inv by (simp add: coll_inv_def)
    fix k assume k: "k < hash_table_entries md"
    have nx: "y \<in> set ((B(h := as @ bs)) k) \<Longrightarrow> y \<noteq> x \<and> y \<in> set (B k)" for y
      using dist coll_invD(4) [OF inv k, of y] coll_invD(4) [OF inv h x] by (cases "k = h") (auto simp: B)
    show "dll (nxt_col md') (prv_col md') ?E ((B(h := as @ bs)) k)" using dll_h other k by simp
    show "hash_tbl md' k = hd_or ?E ((B(h := as @ bs)) k)" using coll_invD(2) [OF inv k] hd by simp
    show "\<forall>y \<in> set ((B(h := as @ bs)) k). y < ?E \<and> line_hash md' y = k"
      using nx coll_invD(3,4) [OF inv k] lh by auto
    have "map (ocf_metadata_get_core_info md') ((B(h := as @ bs)) k) =
        map (ocf_metadata_get_core_info md) ((B(h := as @ bs)) k)"
      unfolding map_eq_conv using nx by (simp add: info)
    then show "distinct (map (ocf_metadata_get_core_info md') ((B(h := as @ bs)) k))"
      using coll_invD(5) [OF inv k] B by (cases "k = h") (auto simp del: map_eq_conv)
  qed
  with run info same show ?thesis by blast
qed


text \<open>
  A striped table of three pages with four lines each, one of them missing on the last page.
\<close>

definition striped_sample :: "64 word ocf_metadata" where
  "striped_sample = \<lparr>layout = Layout_striping, entries_in_page = 4, ssd_pages = 3, raw_entries = 11,
     collision_table_entries = 11, hash_table_entries = 96, line_size = 32768, sector_count = 64, sector_start = 0, sector_end = 63,
     hash_tbl = (\<lambda>_. 11), list_info = (\<lambda>_. \<lparr>prev_col = 11, next_col = 11, partition_id = 0\<rparr>),
     map_info = (\<lambda>_. \<lparr>core_line = 0, core_id = OCF_CORE_MAX, status_word = \<lparr>valid = 0, dirty = 0\<rparr>\<rparr>)\<rparr>"

theorem lg2phy_phy2lg_inverse_witness:
  "geometry_ok striped_sample \<and> ocf_metadata_map_lg2phy striped_sample 7 = 10 \<and>
   ocf_metadata_map_phy2lg striped_sample (ocf_metadata_map_lg2phy striped_sample 7) = 7"
proof -
  have "geometry_ok striped_sample" by (simp add: geometry_ok_def striped_sample_def)
  moreover have "ocf_metadata_map_lg2phy striped_sample 7 = 10" by code_simp
  moreover have "(7 :: u32) < collision_table_entries striped_sample" by (simp add: striped_sample_def)
  ultimately show ?thesis using lg2phy_phy2lg_inverse [of striped_sample 7] by simp
qed

theorem hash_func_consecutive_witness:
  "unat (ocf_metadata_hash_func striped_sample 91 2) = 1 \<and>
   unat (ocf_metadata_hash_func striped_sample 92 2) = 2"
proof -
  have "unat (ocf_metadata_hash_func striped_sample 91 2) = 1" by code_simp
  then show ?thesis using hash_func_consecutive [of striped_sample 91 1 2] by (simp add: striped_sample_def)
qed

end
