(* ===== verification/OCF_Eviction.thy ===== *)
theory OCF_Eviction
  imports OCF_Lru OCF_Metadata OCF_Alock
begin

text \<open>
  The LRU lists of all partitions, and the iterators that take cache lines from them
  (\<open>ocf/src/ocf_lru.c\<close>). A partition has 32 lists of clean and 32 lists of dirty lines; a line is on the
  list with the number \<open>line % 32\<close>; the lines that are not in use are on the clean lists of the
  partition \<open>PARTITION_FREELIST\<close>. The theory shows that every operation keeps each line on exactly the
  list that its partition, its number and its dirty bits say, that the occupancy counters are exact,
  and that the iterators visit the available lists round-robin, terminate, and hand out only lines
  that they have locked.

  Partitions are named by their id: \<open>user_parts[id].part\<close> has the id \<open>id\<close> and \<open>cache->free\<close> the id
  \<open>PARTITION_FREELIST\<close> (\<open>ocf_user_part_init\<close>, \<open>ocf_mngt_cache.c\<close>). The spinlocks of the lists
  (\<open>OCF_METADATA_LRU_WR_LOCK\<close>) make each operation atomic and are not represented.
\<close>

section \<open>Data\<close>

definition OCF_NUM_LRU_LISTS :: u32 where
  "OCF_NUM_LRU_LISTS = 32"

definition OCF_USER_IO_CLASS_MAX :: u16 where
  "OCF_USER_IO_CLASS_MAX = 33"

definition PARTITION_FREELIST :: u16 where
  "PARTITION_FREELIST = OCF_USER_IO_CLASS_MAX + 1"

record ocf_lru_part_meta =
  lru_clean :: ocf_lru_list
  lru_dirty :: ocf_lru_list

record ocf_part_runtime =
  curr_size :: int
  part_lru :: "u32 \<Rightarrow> ocf_lru_part_meta"

text \<open>The counters of a core, in total and per partition.\<close>

record ocf_core_meta_runtime =
  cached_clines :: int
  dirty_clines :: int
  dirty_since :: u64
  part_cached :: "u16 \<Rightarrow> int"
  part_dirty :: "u16 \<Rightarrow> int"

text \<open>
  Calls to the components that are not part of the state: the marks for flushing metadata, and the
  notifications of the cleaning policy. They are recorded, latest first.
\<close>

datatype flush_kind = Flush_INVALID | Flush_CLEAN | Flush_DIRTY

datatype cache_event =
    Flush_mark flush_kind u32 u8 u8
  | Cleaning_init u32
  | Cleaning_purge u32
  | Cleaning_hot u32

record 'b ocf_cache =
  md :: "'b ocf_metadata"
  lru_meta :: lru_store
  part_rt :: "u16 \<Rightarrow> ocf_part_runtime"
  c_alock :: ocf_alock
  core_rt :: "u16 \<Rightarrow> ocf_core_meta_runtime"
  events :: "cache_event list"

text \<open>A list of a partition: the id, the number of the list, clean or dirty.\<close>

type_synonym list_ref = "u16 \<times> u32 \<times> bool"

fun get_list :: "'b ocf_cache \<Rightarrow> list_ref \<Rightarrow> ocf_lru_list" where
  "get_list c (p, i, b) = (if b then lru_clean (part_lru (part_rt c p) i) else lru_dirty (part_lru (part_rt c p) i))"

definition upd_part :: "u16 \<Rightarrow> (ocf_part_runtime \<Rightarrow> ocf_part_runtime) \<Rightarrow> 'b ocf_cache \<Rightarrow> 'b ocf_cache" where
  "upd_part p f c = c\<lparr>part_rt := (part_rt c)(p := f (part_rt c p))\<rparr>"

fun set_list :: "list_ref \<Rightarrow> ocf_lru_list \<Rightarrow> 'b ocf_cache \<Rightarrow> 'b ocf_cache" where
  "set_list (p, i, b) l c = upd_part p (\<lambda>rt. rt\<lparr>part_lru := (part_lru rt)(i :=
     (if b then (part_lru rt i)\<lparr>lru_clean := l\<rparr> else (part_lru rt i)\<lparr>lru_dirty := l\<rparr>))\<rparr>) c"

definition on_list :: "(lru_store \<Rightarrow> ocf_lru_list \<Rightarrow> u32 \<Rightarrow> (lru_store \<times> ocf_lru_list) option) \<Rightarrow>
    list_ref \<Rightarrow> u32 \<Rightarrow> 'b ocf_cache \<Rightarrow> 'b ocf_cache option" where
  "on_list f r x c = do {
     (m, l) \<leftarrow> f (lru_meta c) (get_list c r) x;
     Some (set_list r l (c\<lparr>lru_meta := m\<rparr>))
   }"

section \<open>Operations on partitions\<close>

definition metadata_test_dirty :: "'w::len word ocf_cache \<Rightarrow> u32 \<Rightarrow> bool option" where
  "metadata_test_dirty c line =
     bit_test dirty (status_word (map_info (md c) line)) (sector_start (md c)) (sector_end (md c)) False"

definition metadata_test_valid_any :: "'w::len word ocf_cache \<Rightarrow> u32 \<Rightarrow> bool option" where
  "metadata_test_valid_any c line =
     bit_test valid (status_word (map_info (md c) line)) (sector_start (md c)) (sector_end (md c)) False"

definition ocf_lru_get_list :: "u16 \<Rightarrow> u32 \<Rightarrow> bool \<Rightarrow> list_ref" where
  "ocf_lru_get_list part_id lru_index clean =
     (let clean = (if part_id = PARTITION_FREELIST then True else clean) in (part_id, lru_index, clean))"

definition lru_get_cline_list :: "'w::len word ocf_cache \<Rightarrow> u32 \<Rightarrow> list_ref option" where
  "lru_get_cline_list c cline = do {
     let lru_list_no = cline mod OCF_NUM_LRU_LISTS;
     let part_id = ocf_metadata_get_partition_id (md c) cline;
     bug_on (part_id > OCF_USER_IO_CLASS_MAX);
     d \<leftarrow> metadata_test_dirty c cline;
     Some (ocf_lru_get_list part_id lru_list_no (\<not> d))
   }"

definition ocf_lru_add :: "u32 \<Rightarrow> 'w::len word ocf_cache \<Rightarrow> 'w word ocf_cache option" where
  "ocf_lru_add cline c = do {
     r \<leftarrow> lru_get_cline_list c cline;
     on_list add_lru_head r cline c
   }"

definition ocf_lru_move :: "u32 \<Rightarrow> list_ref \<Rightarrow> list_ref \<Rightarrow> 'b ocf_cache \<Rightarrow> 'b ocf_cache option" where
  "ocf_lru_move cline src_list dst_list c = do {
     c \<leftarrow> on_list remove_lru_list src_list cline c;
     on_list add_lru_head dst_list cline c
   }"

definition ocf_lru_repart_locked :: "u32 \<Rightarrow> u16 \<Rightarrow> u16 \<Rightarrow> 'w::len word ocf_cache \<Rightarrow> 'w word ocf_cache option" where
  "ocf_lru_repart_locked cline src_part dst_part c = do {
     let lru_list_no = cline mod OCF_NUM_LRU_LISTS;
     d \<leftarrow> metadata_test_dirty c cline;
     let clean = (\<not> d);
     let src_list = ocf_lru_get_list src_part lru_list_no clean;
     let dst_list = ocf_lru_get_list dst_part lru_list_no clean;
     c \<leftarrow> ocf_lru_move cline src_list dst_list c;
     let c = c\<lparr>md := ocf_metadata_set_partition_id cline dst_part (md c)\<rparr>;
     let c = upd_part src_part (\<lambda>rt. rt\<lparr>curr_size := curr_size rt - 1\<rparr>) c;
     Some (upd_part dst_part (\<lambda>rt. rt\<lparr>curr_size := curr_size rt + 1\<rparr>) c)
   }"

definition ocf_lru_repart :: "u32 \<Rightarrow> u16 \<Rightarrow> u16 \<Rightarrow> 'w::len word ocf_cache \<Rightarrow> 'w word ocf_cache option" where
  "ocf_lru_repart cline src_part dst_part c = ocf_lru_repart_locked cline src_part dst_part c"

text \<open>
  \<open>&cache->user_parts[part_id].part\<close>: the array has \<open>OCF_USER_IO_CLASS_MAX + 1\<close> elements, an index
  outside of it is undefined behaviour.
\<close>

definition user_part :: "u16 \<Rightarrow> u16 option" where
  "user_part part_id = (if part_id \<le> OCF_USER_IO_CLASS_MAX then Some part_id else None)"

definition ocf_lru_rm_cline :: "u32 \<Rightarrow> 'w::len word ocf_cache \<Rightarrow> 'w word ocf_cache option" where
  "ocf_lru_rm_cline cline c = do {
     part \<leftarrow> user_part (ocf_metadata_get_partition_id (md c) cline);
     ocf_lru_repart cline part PARTITION_FREELIST c
   }"

definition ocf_lru_hot_cline :: "u32 \<Rightarrow> 'w::len word ocf_cache \<Rightarrow> 'w word ocf_cache option" where
  "ocf_lru_hot_cline cline c = do {
     let lru_list_no = cline mod OCF_NUM_LRU_LISTS;
     if lru_hot (lru_meta c cline) then Some c
     else do {
       part \<leftarrow> user_part (ocf_metadata_get_partition_id (md c) cline);
       d \<leftarrow> metadata_test_dirty c cline;
       let r = ocf_lru_get_list part lru_list_no (\<not> d);
       bug_on (lru_next (lru_meta c cline) = end_marker \<and> tail (get_list c r) \<noteq> cline);
       bug_on (lru_prev (lru_meta c cline) = end_marker \<and> head (get_list c r) \<noteq> cline);
       on_list ocf_lru_set_hot r cline c
     }
   }"

text \<open>\<open>ocf_lru_init\<close> for the lists \<open>0\<close> to \<open>n - 1\<close>.\<close>

fun lru_init_lists :: "u16 \<Rightarrow> nat \<Rightarrow> 'b ocf_cache \<Rightarrow> 'b ocf_cache" where
  "lru_init_lists p 0 c = c"
| "lru_init_lists p (Suc n) c =
     (let c = lru_init_lists p n c; i = of_nat n in
      if p = PARTITION_FREELIST then set_list (ocf_lru_get_list p i True) (lru_init False) c
      else set_list (ocf_lru_get_list p i False) (lru_init True)
             (set_list (ocf_lru_get_list p i True) (lru_init True) c))"

definition ocf_lru_init :: "u16 \<Rightarrow> 'b ocf_cache \<Rightarrow> 'b ocf_cache" where
  "ocf_lru_init p c = upd_part p (\<lambda>rt. rt\<lparr>curr_size := 0\<rparr>) (lru_init_lists p (unat OCF_NUM_LRU_LISTS) c)"

definition ocf_lru_clean_cline :: "u16 \<Rightarrow> u32 \<Rightarrow> 'b ocf_cache \<Rightarrow> 'b ocf_cache option" where
  "ocf_lru_clean_cline p cline c = do {
     let lru_list_no = cline mod OCF_NUM_LRU_LISTS;
     let clean_list = ocf_lru_get_list p lru_list_no True;
     let dirty_list = ocf_lru_get_list p lru_list_no False;
     c \<leftarrow> on_list remove_lru_list dirty_list cline c;
     on_list add_lru_head clean_list cline c
   }"

definition ocf_lru_dirty_cline :: "u16 \<Rightarrow> u32 \<Rightarrow> 'b ocf_cache \<Rightarrow> 'b ocf_cache option" where
  "ocf_lru_dirty_cline p cline c = do {
     let lru_list_no = cline mod OCF_NUM_LRU_LISTS;
     let clean_list = ocf_lru_get_list p lru_list_no True;
     let dirty_list = ocf_lru_get_list p lru_list_no False;
     c \<leftarrow> on_list remove_lru_list clean_list cline c;
     on_list add_lru_head dirty_list cline c
   }"

definition ocf_lru_num_free :: "'b ocf_cache \<Rightarrow> int" where
  "ocf_lru_num_free c = curr_size (part_rt c PARTITION_FREELIST)"

section \<open>Where the lines are\<close>

text \<open>The partitions in use: \<open>__init_parts_attached\<close> leaves out the one with the number \<open>OCF_USER_IO_CLASS_MAX\<close>.\<close>

definition part_ok :: "u16 \<Rightarrow> bool" where
  "part_ok p \<longleftrightarrow> p < OCF_USER_IO_CLASS_MAX \<or> p = PARTITION_FREELIST"

lemma part_ok_free [simp]: "part_ok PARTITION_FREELIST"
  by (simp add: part_ok_def)

definition ref_ok :: "list_ref \<Rightarrow> bool" where
  "ref_ok r = (case r of (p, i, b) \<Rightarrow> part_ok p \<and> i < OCF_NUM_LRU_LISTS \<and> (p = PARTITION_FREELIST \<longrightarrow> b))"

definition line_dirty :: "'w::len word ocf_cache \<Rightarrow> u32 \<Rightarrow> bool" where
  "line_dirty c x = (metadata_test_dirty c x = Some True)"

definition line_ref :: "'w::len word ocf_cache \<Rightarrow> u32 \<Rightarrow> list_ref" where
  "line_ref c x = ocf_lru_get_list (ocf_metadata_get_partition_id (md c) x) (x mod OCF_NUM_LRU_LISTS) (\<not> line_dirty c x)"

text \<open>Number of lines of a partition, from the abstract contents \<open>L\<close> of the lists.\<close>

definition part_size :: "(list_ref \<Rightarrow> u32 list) \<Rightarrow> u16 \<Rightarrow> nat" where
  "part_size L p = (\<Sum>r | ref_ok r \<and> fst r = p. length (L r))"

definition sectors_ok :: "'w::len word ocf_cache \<Rightarrow> bool" where
  "sectors_ok c = sector_range TYPE('w) (sector_start (md c)) (sector_end (md c))"

text \<open>
  The lists have the contents \<open>L\<close>, and every line is on the list it belongs to. As \<open>line_ref\<close> is a
  function, a line is on at most one list.
\<close>

definition lists_ok :: "'w::len word ocf_cache \<Rightarrow> (list_ref \<Rightarrow> u32 list) \<Rightarrow> bool" where
  "lists_ok c L \<longleftrightarrow> sectors_ok c \<and>
     (\<forall>r. ref_ok r \<longrightarrow> lru_list (lru_meta c) (get_list c r) (L r) \<and> track_hot (get_list c r) = (fst r \<noteq> PARTITION_FREELIST)) \<and>
     (\<forall>r x. ref_ok r \<longrightarrow> x \<in> set (L r) \<longrightarrow> line_ref c x = r)"

definition sizes_ok :: "'b ocf_cache \<Rightarrow> (list_ref \<Rightarrow> u32 list) \<Rightarrow> bool" where
  "sizes_ok c L \<longleftrightarrow> (\<forall>p. part_ok p \<longrightarrow> curr_size (part_rt c p) = int (part_size L p))"

lemma lru_split_frame:
  assumes "lru_split m l hs cs" "\<And>y. y \<in> set (hs @ cs) \<Longrightarrow> m' y = m y"
  shows "lru_split m' l hs cs"
proof -
  have "dll (lru_next \<circ> m') (lru_prev \<circ> m') end_marker (hs @ cs)"
    by (rule dll_frame [OF lru_split_dll [OF assms(1)]]) (simp_all add: assms(2))
  with assms show ?thesis by (auto simp: lru_split_def)
qed

lemma lru_list_frame:
  assumes "lru_list m l xs" "\<And>y. y \<in> set xs \<Longrightarrow> m' y = m y"
  shows "lru_list m' l xs"
  using assms lru_split_frame [of m l _ _ m'] unfolding lru_list_def by (metis append_take_drop_id)

lemma get_set_list:
  "get_list (set_list r l c) r' = (if r' = r then l else get_list c r')"
  by (cases r; cases r') (auto simp: upd_part_def)

lemma set_list_other [store_laws]:
  "md (set_list r l c) = md c" "lru_meta (set_list r l c) = lru_meta c" "c_alock (set_list r l c) = c_alock c"
  "core_rt (set_list r l c) = core_rt c" "events (set_list r l c) = events c"
  "curr_size (part_rt (set_list r l c) p) = curr_size (part_rt c p)"
  by (cases r; simp add: upd_part_def)+

lemma get_list_upd [store_laws]:
  "get_list (c\<lparr>lru_meta := m\<rparr>) r = get_list c r" "get_list (c\<lparr>md := d\<rparr>) r = get_list c r"
  "get_list (c\<lparr>c_alock := a\<rparr>) r = get_list c r" "get_list (c\<lparr>core_rt := k\<rparr>) r = get_list c r"
  "get_list (c\<lparr>events := e\<rparr>) r = get_list c r"
  "get_list (upd_part p (\<lambda>rt. rt\<lparr>curr_size := f rt\<rparr>) c) r = get_list c r"
  by (cases r; simp add: upd_part_def)+

lemma upd_part_laws [store_laws]:
  "md (upd_part p f c) = md c" "lru_meta (upd_part p f c) = lru_meta c" "c_alock (upd_part p f c) = c_alock c"
  "core_rt (upd_part p f c) = core_rt c" "events (upd_part p f c) = events c"
  "part_rt (upd_part p f c) = (part_rt c)(p := f (part_rt c p))"
  by (simp_all add: upd_part_def)

declare get_list.simps [simp del] set_list.simps [simp del] split_paired_All [simp del] split_paired_Ex [simp del]

lemma test_dirty_Some: "sectors_ok c \<Longrightarrow> metadata_test_dirty c x = Some (line_dirty c x)"
  using dirty_field.bit_ops_secs(2) [OF _ refl, of "sector_start (md c)" "sector_end (md c)" "status_word (map_info (md c) x)"]
  by (simp add: sectors_ok_def line_dirty_def metadata_test_dirty_def)

lemma line_dirty_cong:
  "map_info (md c') = map_info (md c) \<Longrightarrow> sector_start (md c') = sector_start (md c) \<Longrightarrow>
   sector_end (md c') = sector_end (md c) \<Longrightarrow> line_dirty c' x = line_dirty c x"
  by (simp add: line_dirty_def metadata_test_dirty_def)

section \<open>Removing and adding on one list\<close>

lemma on_list_remove:
  assumes "lru_list (lru_meta c) (get_list c r) xs" "x \<in> set xs"
  shows "\<exists>m l. on_list remove_lru_list r x c = Some (set_list r l (c\<lparr>lru_meta := m\<rparr>)) \<and>
    lru_list m l (remove1 x xs) \<and> track_hot l = track_hot (get_list c r) \<and> (\<forall>y. y \<notin> set xs \<longrightarrow> m y = lru_meta c y)"
proof -
  from remove_lru_list_list [OF assms] obtain m l where "remove_lru_list (lru_meta c) (get_list c r) x = Some (m, l)"
    "lru_list m l (remove1 x xs)" "track_hot l = track_hot (get_list c r)" "\<forall>y. y \<notin> set xs \<longrightarrow> m y = lru_meta c y" by blast
  then show ?thesis by (intro exI [of _ m] exI [of _ l]) (simp add: on_list_def)
qed

lemma on_list_add:
  assumes "lru_list (lru_meta c) (get_list c r) xs" "x \<notin> set xs" "x \<noteq> end_marker"
  shows "\<exists>m l. on_list add_lru_head r x c = Some (set_list r l (c\<lparr>lru_meta := m\<rparr>)) \<and>
    lru_list m l (x # xs) \<and> track_hot l = track_hot (get_list c r) \<and> (\<forall>y. y \<notin> set (x # xs) \<longrightarrow> m y = lru_meta c y)"
proof -
  from add_lru_head_list [OF assms] obtain m l where "add_lru_head (lru_meta c) (get_list c r) x = Some (m, l)"
    "lru_list m l (x # xs)" "track_hot l = track_hot (get_list c r)" "\<forall>y. y \<notin> set (x # xs) \<longrightarrow> m y = lru_meta c y" by blast
  then show ?thesis by (intro exI [of _ m] exI [of _ l]) (simp add: on_list_def)
qed

text \<open>
  The lists alone, without the requirement on where a line belongs: disjoint lists with contents \<open>L\<close>.
\<close>

definition lists_hold :: "'b ocf_cache \<Rightarrow> (list_ref \<Rightarrow> u32 list) \<Rightarrow> bool" where
  "lists_hold c L \<longleftrightarrow>
     (\<forall>r. ref_ok r \<longrightarrow> lru_list (lru_meta c) (get_list c r) (L r) \<and> track_hot (get_list c r) = (fst r \<noteq> PARTITION_FREELIST)) \<and>
     (\<forall>r r'. ref_ok r \<longrightarrow> ref_ok r' \<longrightarrow> r \<noteq> r' \<longrightarrow> set (L r) \<inter> set (L r') = {})"

lemma lists_ok_hold: "lists_ok c L \<Longrightarrow> lists_hold c L"
  unfolding lists_ok_def lists_hold_def by (simp only: disjoint_iff) metis

lemma lists_holdD:
  assumes "lists_hold c L" "ref_ok r"
  shows "lru_list (lru_meta c) (get_list c r) (L r)" "track_hot (get_list c r) = (fst r \<noteq> PARTITION_FREELIST)"
    "ref_ok r' \<Longrightarrow> r' \<noteq> r \<Longrightarrow> set (L r') \<inter> set (L r) = {}"
  using assms unfolding lists_hold_def by blast+

lemma lists_hold_step:
  assumes "lists_hold c L" "ref_ok r" "lru_list m l xs" "track_hot l = track_hot (get_list c r)"
    and "\<And>r' y. ref_ok r' \<Longrightarrow> r' \<noteq> r \<Longrightarrow> y \<in> set (L r') \<Longrightarrow> y \<notin> set xs \<and> m y = lru_meta c y"
  shows "lists_hold (set_list r l (c\<lparr>lru_meta := m\<rparr>)) (L(r := xs))"
  unfolding lists_hold_def
proof (intro conjI allI impI)
  fix r' assume r': "ref_ok r'"
  show "lru_list (lru_meta (set_list r l (c\<lparr>lru_meta := m\<rparr>))) (get_list (set_list r l (c\<lparr>lru_meta := m\<rparr>)) r') ((L(r := xs)) r')"
  proof (cases "r' = r")
    case True
    with assms(3) show ?thesis by (simp add: get_set_list store_laws)
  next
    case False
    then have "lru_list m (get_list c r') (L r')"
      by (intro lru_list_frame [OF lists_holdD(1) [OF assms(1) r']]) (use assms(5) r' in blast)
    with False show ?thesis by (simp add: get_set_list store_laws)
  qed
  show "track_hot (get_list (set_list r l (c\<lparr>lru_meta := m\<rparr>)) r') = (fst r' \<noteq> PARTITION_FREELIST)"
    using assms(4) lists_holdD(2) [OF assms(1)] assms(2) r' by (simp add: get_set_list store_laws)
  fix r'' assume r'': "ref_ok r''" "r' \<noteq> r''"
  have "set (L r') \<inter> set (L r'') = {}" by (rule lists_holdD(3) [OF assms(1) r''(1) r' r''(2)])
  with assms(5) [OF r'] assms(5) [OF r''(1)] r''(2) show "set ((L(r := xs)) r') \<inter> set ((L(r := xs)) r'') = {}" by auto
qed

lemma lru_list_end: "lru_list m l xs \<Longrightarrow> x \<in> set xs \<Longrightarrow> x \<noteq> end_marker"
  unfolding lru_list_def using lru_split_distinct(2) by fastforce

lemma lru_list_distinct: "lru_list m l xs \<Longrightarrow> distinct xs"
  unfolding lru_list_def using lru_split_distinct(1) by fastforce

definition moved :: "u32 \<Rightarrow> list_ref \<Rightarrow> list_ref \<Rightarrow> (list_ref \<Rightarrow> u32 list) \<Rightarrow> list_ref \<Rightarrow> u32 list" where
  "moved x src dst L = (let L' = L(src := remove1 x (L src)) in L'(dst := x # L' dst))"

lemma lists_hold_move:
  assumes h: "lists_hold c L" and src: "ref_ok src" and dst: "ref_ok dst" and x: "x \<in> set (L src)"
  shows "\<exists>c'. ocf_lru_move x src dst c = Some c' \<and> lists_hold c' (moved x src dst L) \<and> md c' = md c \<and>
    c_alock c' = c_alock c \<and> core_rt c' = core_rt c \<and> events c' = events c \<and> (\<forall>p. curr_size (part_rt c' p) = curr_size (part_rt c p))"
proof -
  have L: "lru_list (lru_meta c) (get_list c src) (L src)" by (rule lists_holdD(1) [OF h src])
  let ?L1 = "L(src := remove1 x (L src))"
  from on_list_remove [OF L x] obtain m l where
    rem: "on_list remove_lru_list src x c = Some (set_list src l (c\<lparr>lru_meta := m\<rparr>))" and
    l: "lru_list m l (remove1 x (L src))" "track_hot l = track_hot (get_list c src)" "\<forall>y. y \<notin> set (L src) \<longrightarrow> m y = lru_meta c y"
    by blast
  let ?c1 = "set_list src l (c\<lparr>lru_meta := m\<rparr>)"
  have dis: "ref_ok r' \<Longrightarrow> r' \<noteq> src \<Longrightarrow> y \<in> set (L r') \<Longrightarrow> y \<notin> set (L src)" for r' y
    using lists_holdD(3) [OF h src, of r'] by (auto simp: disjoint_iff)
  have h1: "lists_hold ?c1 ?L1"
    using lists_hold_step [OF h src l(1,2)] dis l(3) notin_set_remove1 by metis
  then have L1: "lru_list (lru_meta ?c1) (get_list ?c1 dst) (?L1 dst)" using dst unfolding lists_hold_def by blast
  have x1: "x \<notin> set (?L1 r)" if "ref_ok r" for r
    using dis [OF that, of x] x lru_list_distinct [OF L] by (cases "r = src") auto
  from on_list_add [OF L1 x1 [OF dst] lru_list_end [OF L x]] obtain m' l' where
    add: "on_list add_lru_head dst x ?c1 = Some (set_list dst l' (?c1\<lparr>lru_meta := m'\<rparr>))" and
    l': "lru_list m' l' (x # ?L1 dst)" "track_hot l' = track_hot (get_list ?c1 dst)"
      "\<forall>y. y \<notin> set (x # ?L1 dst) \<longrightarrow> m' y = lru_meta ?c1 y"
    by blast
  have "lists_hold (set_list dst l' (?c1\<lparr>lru_meta := m'\<rparr>)) (?L1(dst := x # ?L1 dst))"
  proof (rule lists_hold_step [OF h1 dst l'(1,2)])
    fix r' y assume r': "ref_ok r'" "r' \<noteq> dst" "y \<in> set (?L1 r')"
    moreover have "set (?L1 r') \<inter> set (?L1 dst) = {}" using h1 r' dst unfolding lists_hold_def by blast
    ultimately have "y \<notin> set (x # ?L1 dst)" using x1 [OF r'(1)] by auto
    with l'(3) show "y \<notin> set (x # ?L1 dst) \<and> m' y = lru_meta ?c1 y" by blast
  qed
  with rem add show ?thesis
    by (simp add: ocf_lru_move_def moved_def Let_def store_laws)
qed


section \<open>Moving a line\<close>

lemma part_size_upd:
  assumes "ref_ok r"
  shows "int (part_size (L(r := xs)) p) =
    int (part_size L p) + (if fst r = p then int (length xs) - int (length (L r)) else 0)"
proof (cases "fst r = p")
  case True
  let ?S = "{r. ref_ok r \<and> fst r = p}"
  have r: "r \<in> ?S" using assms True by simp
  have "part_size (L(r := xs)) p = length xs + (\<Sum>r' \<in> ?S - {r}. length (L r'))"
    unfolding part_size_def by (subst sum.remove [OF _ r]) (auto intro!: sum.cong)
  moreover have "part_size L p = length (L r) + (\<Sum>r' \<in> ?S - {r}. length (L r'))"
    unfolding part_size_def by (subst sum.remove [OF _ r]) auto
  ultimately show ?thesis using True by simp
next
  case False
  then show ?thesis unfolding part_size_def by (auto intro!: sum.cong)
qed

lemma part_size_moved:
  assumes "ref_ok src" "ref_ok dst" "x \<in> set (L src)"
  shows "int (part_size (moved x src dst L) p) =
    int (part_size L p) - (if fst src = p then 1 else 0) + (if fst dst = p then 1 else 0)"
proof -
  have "length (L src) > 0" using assms(3) by (cases "L src") auto
  then show ?thesis using assms
    by (simp add: moved_def Let_def part_size_upd length_remove1 del: fun_upd_apply) (simp add: length_remove1 Suc_leI)
qed

lemma moved_in:
  assumes "y \<in> set (moved x src dst L r)" "distinct (L src)"
  shows "y = x \<and> r = dst \<or> y \<noteq> x \<and> y \<in> set (L r) \<or> y = x \<and> x \<in> set (L r) \<and> r \<noteq> src"
  using assms by (auto simp: moved_def Let_def split: if_splits dest: notin_set_remove1)

lemma ref_ok_get_list [simp]:
  "ref_ok (ocf_lru_get_list p (x mod OCF_NUM_LRU_LISTS) b) = part_ok p"
proof -
  have "x mod OCF_NUM_LRU_LISTS < OCF_NUM_LRU_LISTS"
    by (rule word_mod_less_divisor) (simp add: OCF_NUM_LRU_LISTS_def)
  then show ?thesis by (simp add: ref_ok_def ocf_lru_get_list_def Let_def)
qed

lemma fst_get_list [simp]: "fst (ocf_lru_get_list p i b) = p"
  by (simp add: ocf_lru_get_list_def Let_def)

lemma partition_id_roundtrip:
  assumes "part_ok p"
  shows "ocf_metadata_get_partition_id (ocf_metadata_set_partition_id x p m) y =
    (if y = x then p else ocf_metadata_get_partition_id m y)"
proof -
  have "ucast (ucast p :: u8) = p"
    using assms unfolding part_ok_def PARTITION_FREELIST_def OCF_USER_IO_CLASS_MAX_def
    by (intro word_unat_eq_iff [THEN iffD2]) (auto simp: unsigned_ucast_eq unsigned_take_bit_eq take_bit_nat_eq_self word_less_nat_alt)
  then show ?thesis by (simp add: ocf_metadata_get_partition_id_def ocf_metadata_set_partition_id_def)
qed

text \<open>
  After a move the lists are in order again when the line's new home is the destination and no other
  line changed its home.
\<close>

lemma lists_ok_moved:
  assumes "lists_ok c L" "lists_hold c' (moved x src dst L)" "sectors_ok c'" "ref_ok src" "x \<in> set (L src)"
    and "line_ref c' x = dst" "\<And>y. y \<noteq> x \<Longrightarrow> line_ref c' y = line_ref c y"
  shows "lists_ok c' (moved x src dst L)"
  unfolding lists_ok_def
proof (intro conjI allI impI)
  show "sectors_ok c'" by fact
  fix r assume r: "ref_ok r"
  show "lru_list (lru_meta c') (get_list c' r) (moved x src dst L r)"
    "track_hot (get_list c' r) = (fst r \<noteq> PARTITION_FREELIST)"
    using lists_holdD(1,2) [OF assms(2) r] by simp_all
  fix y assume y: "y \<in> set (moved x src dst L r)"
  have home: "\<And>r z. ref_ok r \<Longrightarrow> z \<in> set (L r) \<Longrightarrow> line_ref c z = r" using assms(1) by (simp add: lists_ok_def)
  have "distinct (L src)" using assms(1,4) lists_ok_hold lists_holdD(1) lru_list_distinct by metis
  from moved_in [OF y this] show "line_ref c' y = r"
    using home [OF r] home [OF assms(4,5)] assms(6,7) by auto
qed


lemma repart_ok:
  assumes L: "lists_ok c L" "sizes_ok c L" and p: "ocf_metadata_get_partition_id (md c) x = src" "part_ok src"
    "part_ok dst" and x: "x \<in> set (L (line_ref c x))"
  defines "L' \<equiv> moved x (line_ref c x) (ocf_lru_get_list dst (x mod OCF_NUM_LRU_LISTS) (\<not> line_dirty c x)) L"
  shows "\<exists>c'. ocf_lru_repart x src dst c = Some c' \<and> lists_ok c' L' \<and> sizes_ok c' L' \<and>
    md c' = ocf_metadata_set_partition_id x dst (md c) \<and> c_alock c' = c_alock c \<and> core_rt c' = core_rt c \<and> events c' = events c"
proof -
  let ?src = "line_ref c x" and ?dst = "ocf_lru_get_list dst (x mod OCF_NUM_LRU_LISTS) (\<not> line_dirty c x)"
  have s: "sectors_ok c" using L(1) by (simp add: lists_ok_def)
  have rs: "ref_ok ?src" using p by (simp add: line_ref_def)
  have rd: "ref_ok ?dst" using p by simp
  from lists_hold_move [OF lists_ok_hold [OF L(1)] rs rd x] obtain c1 where
    c1: "ocf_lru_move x ?src ?dst c = Some c1" "lists_hold c1 L'" "md c1 = md c" "c_alock c1 = c_alock c" "core_rt c1 = core_rt c" "events c1 = events c"
      "\<forall>p. curr_size (part_rt c1 p) = curr_size (part_rt c p)"
    unfolding L'_def by blast
  define c' where "c' = upd_part dst (\<lambda>rt. rt\<lparr>curr_size := curr_size rt + 1\<rparr>)
    (upd_part src (\<lambda>rt. rt\<lparr>curr_size := curr_size rt - 1\<rparr>) (c1\<lparr>md := ocf_metadata_set_partition_id x dst (md c1)\<rparr>))"
  have eq: "ocf_lru_repart x src dst c = Some c'"
    using c1(1) p(1) by (simp add: ocf_lru_repart_def ocf_lru_repart_locked_def Let_def test_dirty_Some [OF s] line_ref_def c'_def)
  have md': "md c' = ocf_metadata_set_partition_id x dst (md c)" and meta: "lru_meta c' = lru_meta c1"
    and gl: "\<And>r. get_list c' r = get_list c1 r" and al: "c_alock c' = c_alock c \<and> core_rt c' = core_rt c \<and> events c' = events c"
    using c1 by (simp_all add: c'_def store_laws)
  have hold: "lists_hold c' L'" using c1(2) unfolding lists_hold_def by (simp add: meta gl)
  have d: "line_dirty c' y = line_dirty c y" for y
    by (rule line_dirty_cong) (simp_all add: md' ocf_metadata_set_partition_id_def)
  have ref: "line_ref c' y = (if y = x then ?dst else line_ref c y)" for y
    unfolding line_ref_def md' d partition_id_roundtrip [OF p(3)] by simp
  have "lists_ok c' L'"
    unfolding L'_def
    by (rule lists_ok_moved [OF L(1) _ _ rs x]) (use hold s ref in \<open>simp_all add: L'_def sectors_ok_def md' ocf_metadata_set_partition_id_def\<close>)
  moreover have "sizes_ok c' L'"
    using L(2) p c1(7) unfolding sizes_ok_def L'_def part_size_moved [where L = L, OF rs rd x]
    by (auto simp: c'_def store_laws line_ref_def)
  ultimately show ?thesis using eq md' al by blast
qed

lemma rm_cline_ok:
  assumes L: "lists_ok c L" "sizes_ok c L" and p: "ocf_metadata_get_partition_id (md c) x < OCF_USER_IO_CLASS_MAX"
    and x: "x \<in> set (L (line_ref c x))"
  defines "L' \<equiv> moved x (line_ref c x) (PARTITION_FREELIST, x mod OCF_NUM_LRU_LISTS, True) L"
  shows "\<exists>c'. ocf_lru_rm_cline x c = Some c' \<and> lists_ok c' L' \<and> sizes_ok c' L' \<and>
    md c' = ocf_metadata_set_partition_id x PARTITION_FREELIST (md c) \<and> c_alock c' = c_alock c \<and> core_rt c' = core_rt c \<and> events c' = events c"
proof -
  have "part_ok (ocf_metadata_get_partition_id (md c) x)" using p by (simp add: part_ok_def)
  from repart_ok [OF L refl this part_ok_free x] p show ?thesis
    by (simp add: ocf_lru_rm_cline_def user_part_def L'_def ocf_lru_get_list_def)
qed

lemma lru_list_ends:
  assumes "lru_list m l xs" "x \<in> set xs"
  shows "lru_next (m x) = end_marker \<longleftrightarrow> tail l = x" "lru_prev (m x) = end_marker \<longleftrightarrow> head l = x"
proof -
  from assms(1) have d: "dll (lru_next \<circ> m) (lru_prev \<circ> m) end_marker xs"
    and h: "head l = hd_or end_marker xs" "tail l = last_or end_marker xs"
    unfolding lru_list_def lru_split_def by simp_all
  from assms(2) obtain ys zs where xs: "xs = ys @ x # zs" by (meson split_list)
  have n: "end_marker \<notin> set xs" "distinct xs" using d by (simp_all add: dll_def)
  note k = dll_links [OF d [unfolded xs]]
  have "last_or x zs = x \<longleftrightarrow> zs = []" using n xs last_or_in [of zs x] by auto
  moreover have "hd_or x ys = x \<longleftrightarrow> ys = []" using n xs hd_or_in [of ys x] by auto
  ultimately show "lru_next (m x) = end_marker \<longleftrightarrow> tail l = x" "lru_prev (m x) = end_marker \<longleftrightarrow> head l = x"
    using k n h xs by simp_all
qed

lemma set_eq_remove1: "distinct xs \<Longrightarrow> x \<in> set xs \<Longrightarrow> set (x # remove1 x xs) = set xs"
  by auto

lemma lists_ok_reorder:
  assumes "lists_ok c L" "lists_hold c' (L(r := xs))" "md c' = md c" "set xs = set (L r)"
  shows "lists_ok c' (L(r := xs))"
  unfolding lists_ok_def
proof (intro conjI allI impI)
  show "sectors_ok c'" using assms(1,3) by (simp add: lists_ok_def sectors_ok_def)
  fix r' assume r': "ref_ok r'"
  show "lru_list (lru_meta c') (get_list c' r') ((L(r := xs)) r')" "track_hot (get_list c' r') = (fst r' \<noteq> PARTITION_FREELIST)"
    using lists_holdD(1,2) [OF assms(2) r'] by simp_all
  fix y assume "y \<in> set ((L(r := xs)) r')"
  then have "y \<in> set (L r')" using assms(4) by (auto split: if_splits)
  with assms(1) r' have "line_ref c y = r'" by (simp add: lists_ok_def)
  then show "line_ref c' y = r'" by (simp add: line_ref_def line_dirty_def metadata_test_dirty_def assms(3))
qed

lemma set_hot_ok:
  assumes L: "lists_ok c L" and r: "ref_ok r" and x: "x \<in> set (L r)"
  shows "\<exists>c'. on_list ocf_lru_set_hot r x c = Some c' \<and> lists_ok c' (L(r := x # remove1 x (L r))) \<and>
    md c' = md c \<and> c_alock c' = c_alock c \<and> core_rt c' = core_rt c \<and> events c' = events c \<and>
    (\<forall>p. curr_size (part_rt c' p) = curr_size (part_rt c p))"
proof -
  note hold = lists_ok_hold [OF L]
  note l = lists_holdD(1) [OF hold r]
  from ocf_lru_set_hot_list [OF l x] obtain m' l' where
    h: "ocf_lru_set_hot (lru_meta c) (get_list c r) x = Some (m', l')" "lru_list m' l' (x # remove1 x (L r))"
      "track_hot l' = track_hot (get_list c r)" "\<forall>y. y \<notin> set (L r) \<longrightarrow> m' y = lru_meta c y"
    by blast
  let ?c = "set_list r l' (c\<lparr>lru_meta := m'\<rparr>)"
  have "lists_hold ?c (L(r := x # remove1 x (L r)))"
  proof (rule lists_hold_step [OF hold r h(2,3)])
    fix r' y assume "ref_ok r'" "r' \<noteq> r" "y \<in> set (L r')"
    with lists_holdD(3) [OF hold r, of r'] have "y \<notin> set (L r)" by auto
    with h(4) x show "y \<notin> set (x # remove1 x (L r)) \<and> m' y = lru_meta c y"
      using notin_set_remove1 by fastforce
  qed
  then have "lists_ok ?c (L(r := x # remove1 x (L r)))"
    using set_eq_remove1 [OF lru_list_distinct [OF l] x] by (intro lists_ok_reorder [OF L]) (simp_all add: store_laws)
  with h(1) show ?thesis by (intro exI [of _ ?c]) (simp add: on_list_def store_laws)
qed

lemma hot_cline_ok:
  assumes L: "lists_ok c L" and p: "ocf_metadata_get_partition_id (md c) x < OCF_USER_IO_CLASS_MAX"
    and x: "x \<in> set (L (line_ref c x))"
  shows "\<exists>c' xs. ocf_lru_hot_cline x c = Some c' \<and> lists_ok c' (L(line_ref c x := xs)) \<and>
    (if lru_hot (lru_meta c x) then xs = L (line_ref c x) else xs = x # remove1 x (L (line_ref c x))) \<and>
    md c' = md c \<and> c_alock c' = c_alock c \<and> core_rt c' = core_rt c \<and> events c' = events c \<and> (\<forall>p. curr_size (part_rt c' p) = curr_size (part_rt c p))"
proof (cases "lru_hot (lru_meta c x)")
  case True
  with L show ?thesis
    by (intro exI [of _ c] exI [of _ "L (line_ref c x)"]) (simp add: ocf_lru_hot_cline_def)
next
  case False
  have "part_ok (ocf_metadata_get_partition_id (md c) x)" using p by (simp add: part_ok_def)
  then have r: "ref_ok (line_ref c x)" by (simp add: line_ref_def)
  have s: "sectors_ok c" using L by (simp add: lists_ok_def)
  from set_hot_ok [OF L r x] obtain c' where
    c': "on_list ocf_lru_set_hot (line_ref c x) x c = Some c'" "lists_ok c' (L(line_ref c x := x # remove1 x (L (line_ref c x))))"
    "md c' = md c \<and> c_alock c' = c_alock c \<and> core_rt c' = core_rt c \<and> events c' = events c \<and>
      (\<forall>p. curr_size (part_rt c' p) = curr_size (part_rt c p))" by blast
  have "ocf_lru_hot_cline x c = Some c'"
    using False p c'(1) lru_list_ends [OF lists_holdD(1) [OF lists_ok_hold [OF L] r] x] unfolding line_ref_def
    by (simp add: ocf_lru_hot_cline_def Let_def user_part_def test_dirty_Some [OF s])
  with c' False show ?thesis by auto
qed

lemma clean_dirty_cline_eq:
  "ocf_lru_clean_cline p x = ocf_lru_move x (ocf_lru_get_list p (x mod OCF_NUM_LRU_LISTS) False) (ocf_lru_get_list p (x mod OCF_NUM_LRU_LISTS) True)"
  "ocf_lru_dirty_cline p x = ocf_lru_move x (ocf_lru_get_list p (x mod OCF_NUM_LRU_LISTS) True) (ocf_lru_get_list p (x mod OCF_NUM_LRU_LISTS) False)"
  by (simp_all add: fun_eq_iff ocf_lru_clean_cline_def ocf_lru_dirty_cline_def ocf_lru_move_def Let_def)


section \<open>Filling the free list\<close>

partial_function (option) next_phys_invalid_loop :: "'w::len word ocf_cache \<Rightarrow> u32 \<Rightarrow> u32 option" where
  "next_phys_invalid_loop c phys = do {
     v \<leftarrow> metadata_test_valid_any c (ocf_metadata_map_phy2lg (md c) phys);
     if v then (if phys + 1 = collision_table_entries (md c) then Some (phys + 1)
                else next_phys_invalid_loop c (phys + 1))
     else Some phys
   }"

definition next_phys_invalid :: "'w::len word ocf_cache \<Rightarrow> u32 \<Rightarrow> u32 option" where
  "next_phys_invalid c phys =
     (if phys = collision_table_entries (md c) then Some phys else next_phys_invalid_loop c phys)"

text \<open>The loop of \<open>ocf_lru_populate\<close> for the remaining \<open>n\<close> lines; the result is the cache and \<open>phys\<close>.\<close>

fun populate_loop :: "nat \<Rightarrow> u32 \<Rightarrow> 'w::len word ocf_cache \<Rightarrow> (u32 \<times> 'w word ocf_cache) option" where
  "populate_loop 0 phys c = Some (phys, c)"
| "populate_loop (Suc n) phys c = do {
     phys \<leftarrow> next_phys_invalid c phys;
     bug_on (phys = collision_table_entries (md c));
     let cline = ocf_metadata_map_phy2lg (md c) phys;
     let c = c\<lparr>md := ocf_metadata_set_partition_id cline PARTITION_FREELIST (md c)\<rparr>;
     let lru_list = cline mod OCF_NUM_LRU_LISTS;
     c \<leftarrow> on_list add_lru_head (ocf_lru_get_list PARTITION_FREELIST lru_list True) cline c;
     populate_loop n (phys + 1) c
   }"

definition ocf_lru_populate :: "u32 \<Rightarrow> 'w::len word ocf_cache \<Rightarrow> 'w word ocf_cache option" where
  "ocf_lru_populate num_free_clines c = do {
     (phys, c) \<leftarrow> populate_loop (unat num_free_clines) 0 c;
     phys \<leftarrow> next_phys_invalid c phys;
     bug_on (phys \<noteq> collision_table_entries (md c));
     Some (upd_part PARTITION_FREELIST (\<lambda>rt. rt\<lparr>curr_size := uint num_free_clines\<rparr>) c)
   }"

definition line_invalid :: "'w::len word ocf_cache \<Rightarrow> u32 \<Rightarrow> bool" where
  "line_invalid c x = (metadata_test_valid_any c x = Some False)"

text \<open>The physical numbers from \<open>p\<close> on whose line is invalid.\<close>

definition invalid_from :: "'w::len word ocf_cache \<Rightarrow> nat \<Rightarrow> nat list" where
  "invalid_from c p = filter (\<lambda>i. line_invalid c (ocf_metadata_map_phy2lg (md c) (of_nat i))) [p..<unat (collision_table_entries (md c))]"

lemma test_valid_any_Some: "sectors_ok c \<Longrightarrow> metadata_test_valid_any c x = Some (\<not> line_invalid c x)"
  using valid_field.bit_ops_secs(2) [OF _ refl, of "sector_start (md c)" "sector_end (md c)" "status_word (map_info (md c) x)"]
  by (auto simp: sectors_ok_def line_invalid_def metadata_test_valid_any_def)

lemma invalid_from_rec:
  "p < unat (collision_table_entries (md c)) \<Longrightarrow> invalid_from c p =
    (if line_invalid c (ocf_metadata_map_phy2lg (md c) (of_nat p)) then p # invalid_from c (Suc p) else invalid_from c (Suc p))"
  by (simp add: invalid_from_def upt_conv_Cons)

lemma invalid_from_ge: "unat (collision_table_entries (md c)) \<le> p \<Longrightarrow> invalid_from c p = []"
  by (simp add: invalid_from_def)

lemma unat_Suc_lt: "unat (a :: u32) < unat (b :: u32) \<Longrightarrow> unat (a + 1) = Suc (unat a)"
  using unsigned_less [of b, where 'a = nat] by (subst unat_add_one) simp_all

lemma next_phys_invalid_spec:
  assumes "sectors_ok c" "unat p \<le> unat (collision_table_entries (md c))"
  shows "next_phys_invalid c p = Some (case invalid_from c (unat p) of [] \<Rightarrow> collision_table_entries (md c) | q # _ \<Rightarrow> of_nat q)"
  using assms(2)
proof (induction "unat (collision_table_entries (md c)) - unat p" arbitrary: p)
  case 0
  then have "p = collision_table_entries (md c)" by (simp add: word_unat_eq_iff)
  then show ?case by (simp add: next_phys_invalid_def invalid_from_ge)
next
  case (Suc d)
  let ?n = "collision_table_entries (md c)"
  have lt: "unat p < unat ?n" using Suc.hyps(2) by simp
  note u = unat_Suc_lt [OF lt]
  have IH: "next_phys_invalid c (p + 1) = Some (case invalid_from c (unat (p + 1)) of [] \<Rightarrow> ?n | q # _ \<Rightarrow> of_nat q)"
    using Suc lt u by (intro Suc.hyps(1)) simp_all
  have "p \<noteq> ?n" using lt by auto
  then have "next_phys_invalid c p = (if line_invalid c (ocf_metadata_map_phy2lg (md c) p) then Some p else next_phys_invalid c (p + 1))"
    unfolding next_phys_invalid_def by (subst next_phys_invalid_loop.simps) (simp add: test_valid_any_Some [OF assms(1)])
  then show ?case using IH u invalid_from_rec [OF lt] by simp
qed

definition free_ref :: "u32 \<Rightarrow> list_ref" where
  "free_ref x = (PARTITION_FREELIST, x mod OCF_NUM_LRU_LISTS, True)"

definition pushed :: "u32 \<Rightarrow> (list_ref \<Rightarrow> u32 list) \<Rightarrow> list_ref \<Rightarrow> u32 list" where
  "pushed x L = L(free_ref x := x # L (free_ref x))"

lemma ref_ok_free [simp]: "ref_ok (free_ref x)" "ocf_lru_get_list PARTITION_FREELIST (x mod OCF_NUM_LRU_LISTS) True = free_ref x"
proof -
  have *: "ocf_lru_get_list PARTITION_FREELIST (x mod OCF_NUM_LRU_LISTS) True = free_ref x"
    by (simp add: ocf_lru_get_list_def free_ref_def)
  then show "ocf_lru_get_list PARTITION_FREELIST (x mod OCF_NUM_LRU_LISTS) True = free_ref x" .
  show "ref_ok (free_ref x)" using ref_ok_get_list [of PARTITION_FREELIST x True] unfolding * by simp
qed

lemma lists_hold_push:
  assumes h: "lists_hold c L" and x: "x \<noteq> end_marker" "\<And>r. ref_ok r \<Longrightarrow> x \<notin> set (L r)"
  shows "\<exists>c'. on_list add_lru_head (free_ref x) x c = Some c' \<and> lists_hold c' (pushed x L) \<and> md c' = md c \<and>
    c_alock c' = c_alock c \<and> core_rt c' = core_rt c \<and> events c' = events c \<and> (\<forall>p. curr_size (part_rt c' p) = curr_size (part_rt c p))"
proof -
  have ref: "ref_ok (free_ref x)" by simp
  from on_list_add [OF lists_holdD(1) [OF h ref] x(2) [OF ref] x(1)] obtain m l where
    l: "on_list add_lru_head (free_ref x) x c = Some (set_list (free_ref x) l (c\<lparr>lru_meta := m\<rparr>))"
      "lru_list m l (x # L (free_ref x))" "track_hot l = track_hot (get_list c (free_ref x))"
      "\<forall>y. y \<notin> set (x # L (free_ref x)) \<longrightarrow> m y = lru_meta c y" by blast
  have "lists_hold (set_list (free_ref x) l (c\<lparr>lru_meta := m\<rparr>)) (pushed x L)"
    unfolding pushed_def
  proof (rule lists_hold_step [OF h ref l(2,3)])
    fix r y assume r: "ref_ok r" "r \<noteq> free_ref x" "y \<in> set (L r)"
    then have "y \<notin> set (x # L (free_ref x))" using x(2) [OF r(1)] lists_holdD(3) [OF h ref r(1,2)] by auto
    with l(4) show "y \<notin> set (x # L (free_ref x)) \<and> m y = lru_meta c y" by blast
  qed
  with l(1) show ?thesis by (intro exI [of _ "set_list (free_ref x) l (c\<lparr>lru_meta := m\<rparr>)"]) (simp add: store_laws)
qed

lemma set_partition_other [store_laws]:
  "map_info (ocf_metadata_set_partition_id x p m) = map_info m"
  "sector_start (ocf_metadata_set_partition_id x p m) = sector_start m" "sector_end (ocf_metadata_set_partition_id x p m) = sector_end m"
  "collision_table_entries (ocf_metadata_set_partition_id x p m) = collision_table_entries m"
  "hash_table_entries (ocf_metadata_set_partition_id x p m) = hash_table_entries m"
  by (simp_all add: ocf_metadata_set_partition_id_def)

lemma phy2lg_set_partition: "ocf_metadata_map_phy2lg (ocf_metadata_set_partition_id x p m) = ocf_metadata_map_phy2lg m"
  by (cases "layout m")
    (simp_all add: fun_eq_iff ocf_metadata_map_phy2lg_def ocf_metadata_map_phy2lg_striping_def ocf_metadata_set_partition_id_def)

lemma invalid_from_set_partition:
  "md c' = ocf_metadata_set_partition_id x p (md c) \<Longrightarrow> invalid_from c' = invalid_from c"
proof -
  assume md: "md c' = ocf_metadata_set_partition_id x p (md c)"
  then have "line_invalid c' = line_invalid c"
    by (simp add: fun_eq_iff line_invalid_def metadata_test_valid_any_def ocf_metadata_set_partition_id_def)
  with md show ?thesis
    by (simp add: fun_eq_iff invalid_from_def phy2lg_set_partition) (simp add: ocf_metadata_set_partition_id_def)
qed

lemma filter_upt_Cons: "filter P [a..<n] = q # qs \<Longrightarrow> filter P [Suc q..<n] = qs"
proof (induction "n - a" arbitrary: a)
  case (Suc d)
  then have "[a..<n] = a # [Suc a..<n]" by (simp add: upt_conv_Cons)
  with Suc.prems Suc.hyps(1) [of "Suc a"] Suc.hyps(2) show ?case by (auto split: if_splits)
qed simp

lemma populate_loop_spec:
  assumes "lists_hold c L" "sectors_ok c" "unat p \<le> unat (collision_table_entries (md c))"
    and "xs = map (\<lambda>i. ocf_metadata_map_phy2lg (md c) (of_nat i)) (invalid_from c (unat p))" "distinct xs" "end_marker \<notin> set xs"
    and "\<And>r x. ref_ok r \<Longrightarrow> x \<in> set xs \<Longrightarrow> x \<notin> set (L r)"
  shows "\<exists>q c'. populate_loop (length xs) p c = Some (q, c') \<and> unat q \<le> unat (collision_table_entries (md c)) \<and>
    invalid_from c (unat q) = [] \<and> invalid_from c' = invalid_from c \<and> lists_hold c' (fold pushed xs L) \<and>
    md c' = fold (\<lambda>x. ocf_metadata_set_partition_id x PARTITION_FREELIST) xs (md c) \<and> sectors_ok c' \<and>
    c_alock c' = c_alock c \<and> core_rt c' = core_rt c \<and> (\<forall>p. curr_size (part_rt c' p) = curr_size (part_rt c p))"
  using assms
proof (induction xs arbitrary: p c L)
  case Nil
  then show ?case by simp
next
  case (Cons x xs)
  let ?n = "collision_table_entries (md c)"
  from Cons.prems(4) obtain q qs where q: "invalid_from c (unat p) = q # qs" "x = ocf_metadata_map_phy2lg (md c) (of_nat q)"
    "xs = map (\<lambda>i. ocf_metadata_map_phy2lg (md c) (of_nat i)) qs" by (auto simp: Cons_eq_map_conv)
  have "q \<in> set (invalid_from c (unat p))" using q(1) by simp
  then have qn: "q < unat ?n" "unat p \<le> q" by (simp_all add: invalid_from_def)
  have uq: "unat (of_nat q :: u32) = q" using qn(1) unsigned_less [of ?n, where 'a = nat] by (simp add: unsigned_of_nat take_bit_nat_eq_self)
  have uq1: "unat (of_nat q + 1 :: u32) = Suc q" using unat_Suc_lt [of "of_nat q" ?n] qn uq by simp
  have qs: "invalid_from c (Suc q) = qs" using filter_upt_Cons q(1) unfolding invalid_from_def by blast
  define c1 where "c1 = c\<lparr>md := ocf_metadata_set_partition_id x PARTITION_FREELIST (md c)\<rparr>"
  have h1: "lists_hold c1 L" using Cons.prems(1) unfolding lists_hold_def by (simp add: c1_def get_list_upd)
  from lists_hold_push [OF h1, of x] Cons.prems(6,7) obtain c2 where
    c2: "on_list add_lru_head (free_ref x) x c1 = Some c2" "lists_hold c2 (pushed x L)" "md c2 = md c1" "c_alock c2 = c_alock c1"
      "core_rt c2 = core_rt c1" "\<forall>p. curr_size (part_rt c2 p) = curr_size (part_rt c1 p)" by auto
  have md2: "md c2 = ocf_metadata_set_partition_id x PARTITION_FREELIST (md c)" using c2(3) by (simp add: c1_def)
  note inv = invalid_from_set_partition [OF md2]
  have n2: "collision_table_entries (md c2) = ?n" "sectors_ok c2" using Cons.prems(2) by (simp_all add: md2 ocf_metadata_set_partition_id_def sectors_ok_def)
  have "\<exists>q' c'. populate_loop (length xs) (of_nat q + 1) c2 = Some (q', c') \<and> unat q' \<le> unat (collision_table_entries (md c2)) \<and>
    invalid_from c2 (unat q') = [] \<and> invalid_from c' = invalid_from c2 \<and> lists_hold c' (fold pushed xs (pushed x L)) \<and>
    md c' = fold (\<lambda>x. ocf_metadata_set_partition_id x PARTITION_FREELIST) xs (md c2) \<and> sectors_ok c' \<and>
    c_alock c' = c_alock c2 \<and> core_rt c' = core_rt c2 \<and> (\<forall>p. curr_size (part_rt c' p) = curr_size (part_rt c2 p))"
  proof (rule Cons.IH [OF c2(2) n2(2)])
    show "unat (of_nat q + 1 :: u32) \<le> unat (collision_table_entries (md c2))" using uq1 qn n2 by simp
    show "xs = map (\<lambda>i. ocf_metadata_map_phy2lg (md c2) (of_nat i)) (invalid_from c2 (unat (of_nat q + 1 :: u32)))"
      using q(3) qs uq1 by (simp add: inv md2 phy2lg_set_partition)
    show "distinct xs" "end_marker \<notin> set xs" using Cons.prems(5,6) by simp_all
    show "y \<notin> set (pushed x L r)" if "ref_ok r" "y \<in> set xs" for r y
      using that Cons.prems(5,7) by (auto simp: pushed_def)
  qed
  moreover have "next_phys_invalid c p = Some (of_nat q)" using next_phys_invalid_spec [OF Cons.prems(2,3)] q(1) by simp
  moreover have "of_nat q \<noteq> ?n" using uq qn(1) by auto
  ultimately show ?case
    using c2 q(2) by (auto simp: inv n2 md2 c1_def Let_def set_partition_other)
qed

lemma fold_set_partition:
  "collision_table_entries (fold (\<lambda>x. ocf_metadata_set_partition_id x p) xs m) = collision_table_entries m"
  "hash_table_entries (fold (\<lambda>x. ocf_metadata_set_partition_id x p) xs m) = hash_table_entries m"
  "sector_start (fold (\<lambda>x. ocf_metadata_set_partition_id x p) xs m) = sector_start m"
  "sector_end (fold (\<lambda>x. ocf_metadata_set_partition_id x p) xs m) = sector_end m"
  "map_info (fold (\<lambda>x. ocf_metadata_set_partition_id x p) xs m) = map_info m"
  by (induction xs arbitrary: m; simp add: ocf_metadata_set_partition_id_def)+

lemma fold_set_partition_id:
  "part_ok p \<Longrightarrow> ocf_metadata_get_partition_id (fold (\<lambda>x. ocf_metadata_set_partition_id x p) xs m) y =
     (if y \<in> set xs then p else ocf_metadata_get_partition_id m y)"
  by (induction xs arbitrary: m) (auto simp: partition_id_roundtrip)

lemma set_fold_pushed:
  "y \<in> set (fold pushed xs L r) \<longleftrightarrow> y \<in> set (L r) \<or> y \<in> set xs \<and> r = free_ref y"
  by (induction xs arbitrary: L) (auto simp: pushed_def)

lemma part_size_fold_pushed:
  "int (part_size (fold pushed xs L) p) = int (part_size L p) + (if p = PARTITION_FREELIST then int (length xs) else 0)"
proof (induction xs arbitrary: L)
  case (Cons x xs)
  have "int (part_size (pushed x L) p) = int (part_size L p) + (if p = PARTITION_FREELIST then 1 else 0)"
    unfolding pushed_def using part_size_upd [OF ref_ok_free(1) [of x], of L "x # L (free_ref x)" p] by (auto simp: free_ref_def)
  with Cons show ?case by simp
qed simp

text \<open>
  \<open>ocf_lru_populate\<close> puts exactly the invalid lines on the lists of the free partition, and the counter
  of the partition is their number.
\<close>

lemma populate_ok:
  assumes ok: "lists_ok c L" "sizes_ok c L" and free: "part_size L PARTITION_FREELIST = 0"
    and xs: "xs = map (\<lambda>i. ocf_metadata_map_phy2lg (md c) (of_nat i)) (invalid_from c 0)" "distinct xs" "end_marker \<notin> set xs"
    and off: "\<And>r x. ref_ok r \<Longrightarrow> x \<in> set xs \<Longrightarrow> x \<notin> set (L r)" and n: "unat n = length xs"
  shows "\<exists>c'. ocf_lru_populate n c = Some c' \<and> lists_ok c' (fold pushed xs L) \<and> sizes_ok c' (fold pushed xs L) \<and>
    md c' = fold (\<lambda>x. ocf_metadata_set_partition_id x PARTITION_FREELIST) xs (md c) \<and> c_alock c' = c_alock c \<and> core_rt c' = core_rt c"
proof -
  have s: "sectors_ok c" using ok(1) by (simp add: lists_ok_def)
  have "\<exists>q c'. populate_loop (length xs) 0 c = Some (q, c') \<and> unat q \<le> unat (collision_table_entries (md c)) \<and>
    invalid_from c (unat q) = [] \<and> invalid_from c' = invalid_from c \<and> lists_hold c' (fold pushed xs L) \<and>
    md c' = fold (\<lambda>x. ocf_metadata_set_partition_id x PARTITION_FREELIST) xs (md c) \<and> sectors_ok c' \<and>
    c_alock c' = c_alock c \<and> core_rt c' = core_rt c \<and> (\<forall>p. curr_size (part_rt c' p) = curr_size (part_rt c p))"
    using xs off by (intro populate_loop_spec [OF lists_ok_hold [OF ok(1)] s]) simp_all
  then obtain q c1 where c1: "populate_loop (length xs) 0 c = Some (q, c1)" "unat q \<le> unat (collision_table_entries (md c))"
    "invalid_from c (unat q) = []" "invalid_from c1 = invalid_from c" "lists_hold c1 (fold pushed xs L)"
    "md c1 = fold (\<lambda>x. ocf_metadata_set_partition_id x PARTITION_FREELIST) xs (md c)" "sectors_ok c1"
    "c_alock c1 = c_alock c" "core_rt c1 = core_rt c" "\<forall>p. curr_size (part_rt c1 p) = curr_size (part_rt c p)" by blast
  let ?c = "upd_part PARTITION_FREELIST (\<lambda>rt. rt\<lparr>curr_size := uint n\<rparr>) c1"
  have ne: "collision_table_entries (md c1) = collision_table_entries (md c)" by (simp add: c1(6) fold_set_partition)
  have run: "ocf_lru_populate n c = Some ?c"
    using c1(1,2,3,4) next_phys_invalid_spec [OF c1(7), of q] n by (simp add: ocf_lru_populate_def ne)
  have ref: "line_ref ?c y = (if y \<in> set xs then free_ref y else line_ref c y)" for y
    by (simp add: line_ref_def line_dirty_def metadata_test_dirty_def store_laws c1(6) fold_set_partition fold_set_partition_id
        ocf_lru_get_list_def free_ref_def)
  have "lists_ok ?c (fold pushed xs L)"
    unfolding lists_ok_def
  proof (intro conjI allI impI)
    show "sectors_ok ?c" using c1(7) by (simp add: sectors_ok_def store_laws)
    fix r assume r: "ref_ok r"
    show "lru_list (lru_meta ?c) (get_list ?c r) (fold pushed xs L r)" "track_hot (get_list ?c r) = (fst r \<noteq> PARTITION_FREELIST)"
      using lists_holdD(1,2) [OF c1(5) r] by (simp_all add: store_laws get_list_upd)
    fix y assume "y \<in> set (fold pushed xs L r)"
    then show "line_ref ?c y = r" using off [OF r] ok(1) r unfolding set_fold_pushed ref lists_ok_def by auto
  qed
  moreover have "sizes_ok ?c (fold pushed xs L)"
    using ok(2) c1(10) free arg_cong [OF n, of int] unfolding sizes_ok_def part_size_fold_pushed
    by (auto simp: store_laws)
  ultimately show ?thesis using run c1 by (auto simp: store_laws)
qed


section \<open>Initialisation\<close>

lemma get_list_init_lists:
  assumes "n \<le> 32"
  shows "get_list (lru_init_lists p n c) (q, i, b) =
    (if q = p \<and> unat i < n \<and> (p = PARTITION_FREELIST \<longrightarrow> b) then lru_init (p \<noteq> PARTITION_FREELIST) else get_list c (q, i, b))"
  using assms
proof (induction n)
  case (Suc n)
  then have "unat (of_nat n :: u32) = n" by (simp add: unsigned_of_nat take_bit_nat_eq_self)
  then have i: "i = of_nat n \<longleftrightarrow> unat i = n" by (auto simp: word_unat_eq_iff)
  show ?case
    using Suc by (auto simp: Let_def ocf_lru_get_list_def get_set_list i less_Suc_eq)
qed simp

lemma init_lists_other [store_laws]:
  "md (lru_init_lists p n c) = md c" "lru_meta (lru_init_lists p n c) = lru_meta c" "c_alock (lru_init_lists p n c) = c_alock c"
  "core_rt (lru_init_lists p n c) = core_rt c" "curr_size (part_rt (lru_init_lists p n c) q) = curr_size (part_rt c q)"
proof -
  have "md (lru_init_lists p n c) = md c \<and> lru_meta (lru_init_lists p n c) = lru_meta c \<and> c_alock (lru_init_lists p n c) = c_alock c \<and>
    core_rt (lru_init_lists p n c) = core_rt c \<and> curr_size (part_rt (lru_init_lists p n c) q) = curr_size (part_rt c q)"
    by (induction n) (auto simp: Let_def set_list_other)
  then show "md (lru_init_lists p n c) = md c" "lru_meta (lru_init_lists p n c) = lru_meta c" "c_alock (lru_init_lists p n c) = c_alock c"
    "core_rt (lru_init_lists p n c) = core_rt c" "curr_size (part_rt (lru_init_lists p n c) q) = curr_size (part_rt c q)" by simp_all
qed

definition init_parts_attached :: "'b ocf_cache \<Rightarrow> 'b ocf_cache" where
  "init_parts_attached c =
     ocf_lru_init PARTITION_FREELIST (fold ocf_lru_init (map of_nat [0..<unat OCF_USER_IO_CLASS_MAX]) c)"

lemma ocf_lru_init_list:
  "ref_ok r \<Longrightarrow> get_list (ocf_lru_init p c) r = (if fst r = p then lru_init (p \<noteq> PARTITION_FREELIST) else get_list c r)"
  "curr_size (part_rt (ocf_lru_init p c) q) = (if q = p then 0 else curr_size (part_rt c q))"
  "md (ocf_lru_init p c) = md c" "lru_meta (ocf_lru_init p c) = lru_meta c" "c_alock (ocf_lru_init p c) = c_alock c"
  "core_rt (ocf_lru_init p c) = core_rt c"
  by (cases r; auto simp: ocf_lru_init_def store_laws get_list_upd get_list_init_lists ref_ok_def OCF_NUM_LRU_LISTS_def word_less_nat_alt)+

lemma fold_init_list:
  "ref_ok r \<Longrightarrow> get_list (fold ocf_lru_init ps c) r = (if fst r \<in> set ps then lru_init (fst r \<noteq> PARTITION_FREELIST) else get_list c r)"
  "curr_size (part_rt (fold ocf_lru_init ps c) q) = (if q \<in> set ps then 0 else curr_size (part_rt c q))"
  "md (fold ocf_lru_init ps c) = md c" "lru_meta (fold ocf_lru_init ps c) = lru_meta c" "c_alock (fold ocf_lru_init ps c) = c_alock c"
  "core_rt (fold ocf_lru_init ps c) = core_rt c"
  by (induction ps arbitrary: c; simp add: ocf_lru_init_list)+

lemma track_hot_init: "track_hot (lru_init b) = b"
  by (simp add: lru_init_def)

lemma init_parts_ok:
  assumes "sectors_ok c"
  shows "lists_ok (init_parts_attached c) (\<lambda>_. [])" "sizes_ok (init_parts_attached c) (\<lambda>_. [])"
    "md (init_parts_attached c) = md c" "c_alock (init_parts_attached c) = c_alock c" "core_rt (init_parts_attached c) = core_rt c"
proof -
  have eq: "init_parts_attached c = fold ocf_lru_init (map of_nat [0..<unat OCF_USER_IO_CLASS_MAX] @ [PARTITION_FREELIST]) c"
    by (simp add: init_parts_attached_def)
  have "q \<in> of_nat ` {0..<unat OCF_USER_IO_CLASS_MAX}" if "q < OCF_USER_IO_CLASS_MAX" for q :: u16
    using that by (auto simp: word_less_nat_alt image_iff intro!: bexI [of _ "unat q"])
  then have all: "q \<in> set (map of_nat [0..<unat OCF_USER_IO_CLASS_MAX] @ [PARTITION_FREELIST])" if "part_ok q" for q
    using that by (auto simp: part_ok_def)
  have r: "fst r \<in> set (map of_nat [0..<unat OCF_USER_IO_CLASS_MAX] @ [PARTITION_FREELIST])" if "ref_ok r" for r
    using that all by (cases r) (simp add: ref_ok_def)
  note f = fold_init_list [where ps = "map of_nat [0..<unat OCF_USER_IO_CLASS_MAX] @ [PARTITION_FREELIST]" and c = c, folded eq]
  show "lists_ok (init_parts_attached c) (\<lambda>_. [])"
    unfolding lists_ok_def
    using assms r by (auto simp: f sectors_ok_def lru_init_list track_hot_init simp del: set_map set_append)
  show "sizes_ok (init_parts_attached c) (\<lambda>_. [])"
    unfolding sizes_ok_def using all by (auto simp: f part_size_def simp del: set_map set_append)
  show "md (init_parts_attached c) = md c" "c_alock (init_parts_attached c) = c_alock c" "core_rt (init_parts_attached c) = core_rt c"
    by (simp_all only: f)
qed

end
