(* ===== verification/OCF_Cache_Line.thy ===== *)
theory OCF_Cache_Line
  imports OCF_Eviction
begin

text \<open>
  The life of a cache line (\<open>ocf/src/utils/utils_cache_line.c\<close>, \<open>metadata_misc.c\<close>, and the mapping and
  invalidation of lines in \<open>engine_common.c\<close> and \<open>ocf_lru.c\<close>). These operations tie together the
  components below: the status bits, the collision table, the LRU lists of the partitions, the lock of
  the line and the counters of the cores. The theory states the invariant that connects all of them
  and shows that every operation keeps it: no line is lost or on two lists, a line is in the hash table
  exactly when it is in a user partition, and the numbers of cached and dirty lines of every core and
  partition are exact.
\<close>

section \<open>Operations\<close>

definition line_status :: "'b ocf_cache \<Rightarrow> u32 \<Rightarrow> 'b status_bits" where
  "line_status c x = status_word (map_info (md c) x)"

definition set_status :: "u32 \<Rightarrow> 'b status_bits \<Rightarrow> 'b ocf_cache \<Rightarrow> 'b ocf_cache" where
  "set_status x s c = c\<lparr>md := (md c)\<lparr>map_info := (map_info (md c))(x := (map_info (md c) x)\<lparr>status_word := s\<rparr>)\<rparr>\<rparr>"

definition upd_core :: "u16 \<Rightarrow> (ocf_core_meta_runtime \<Rightarrow> ocf_core_meta_runtime) \<Rightarrow> 'b ocf_cache \<Rightarrow> 'b ocf_cache" where
  "upd_core core f c = c\<lparr>core_rt := (core_rt c)(core := f (core_rt c core))\<rparr>"

definition event :: "cache_event \<Rightarrow> 'b ocf_cache \<Rightarrow> 'b ocf_cache" where
  "event e c = c\<lparr>events := e # events c\<rparr>"

text \<open>
  The counters are changed by \<open>k\<close>. \<open>part_counters\<close> has \<open>OCF_USER_IO_CLASS_MAX\<close> elements; an access
  outside of it is undefined.
\<close>

definition add_cached :: "int \<Rightarrow> u16 \<Rightarrow> u16 \<Rightarrow> 'b ocf_cache \<Rightarrow> 'b ocf_cache option" where
  "add_cached k core part c = do {
     bug_on (\<not> part < OCF_USER_IO_CLASS_MAX);
     Some (upd_core core (\<lambda>rt. rt\<lparr>cached_clines := cached_clines rt + k,
       part_cached := (part_cached rt)(part := part_cached rt part + k)\<rparr>) c)
   }"

definition add_part_dirty :: "int \<Rightarrow> u16 \<Rightarrow> u16 \<Rightarrow> 'b ocf_cache \<Rightarrow> 'b ocf_cache option" where
  "add_part_dirty k core part c = do {
     bug_on (\<not> part < OCF_USER_IO_CLASS_MAX);
     Some (upd_core core (\<lambda>rt. rt\<lparr>part_dirty := (part_dirty rt)(part := part_dirty rt part + k)\<rparr>) c)
   }"

definition ocf_metadata_remove_cache_line :: "u32 \<Rightarrow> 'b ocf_cache \<Rightarrow> 'b ocf_cache option" where
  "ocf_metadata_remove_cache_line line c = do {
     m \<leftarrow> ocf_metadata_remove_from_collision line (md c);
     Some (c\<lparr>md := m\<rparr>)
   }"

definition set_line_invalid :: "u8 \<Rightarrow> u8 \<Rightarrow> u32 \<Rightarrow> u16 \<Rightarrow> u16 \<Rightarrow> 'w::len word ocf_cache \<Rightarrow> 'w word ocf_cache option" where
  "set_line_invalid start_bit end_bit line core part c = do {
     bug_on (core \<ge> OCF_CORE_MAX);
     (changed, is_valid, s) \<leftarrow>
       metadata_clear_valid_sec_changed (sector_start (md c)) (sector_end (md c)) (line_status c line) start_bit end_bit;
     let c = set_status line s c;
     c \<leftarrow> (if changed then add_cached (- 1) core part c else Some c);
     if is_valid then Some c
     else do {
       waiters \<leftarrow> ocf_cache_line_are_waiters (c_alock c) line;
       if waiters then Some c
       else do {
         c \<leftarrow> ocf_lru_rm_cline line c;
         ocf_metadata_remove_cache_line line c
       }
     }
   }"

definition set_cache_line_invalid :: "u8 \<Rightarrow> u8 \<Rightarrow> u16 \<Rightarrow> u32 \<Rightarrow> 'w::len word ocf_cache \<Rightarrow> 'w word ocf_cache option" where
  "set_cache_line_invalid start_bit end_bit core line c = do {
     let part = ocf_metadata_get_partition_id (md c) line;
     c \<leftarrow> set_line_invalid start_bit end_bit line core part c;
     Some (event (Flush_mark Flush_INVALID line start_bit end_bit) c)
   }"

definition set_cache_line_invalid_no_flush :: "u8 \<Rightarrow> u8 \<Rightarrow> u32 \<Rightarrow> 'w::len word ocf_cache \<Rightarrow> 'w word ocf_cache option" where
  "set_cache_line_invalid_no_flush start_bit end_bit line c = do {
     let core = core_id (map_info (md c) line);
     let part = ocf_metadata_get_partition_id (md c) line;
     set_line_invalid start_bit end_bit line core part c
   }"

definition set_cache_line_valid :: "u8 \<Rightarrow> u8 \<Rightarrow> u16 \<Rightarrow> u32 \<Rightarrow> 'w::len word ocf_cache \<Rightarrow> 'w word ocf_cache option" where
  "set_cache_line_valid start_bit end_bit core line c = do {
     let part = ocf_metadata_get_partition_id (md c) line;
     (changed, s) \<leftarrow> metadata_set_valid_sec_changed (line_status c line) start_bit end_bit;
     let c = set_status line s c;
     if changed then add_cached 1 core part c else Some c
   }"

definition set_cache_line_clean :: "u8 \<Rightarrow> u8 \<Rightarrow> u16 \<Rightarrow> u32 \<Rightarrow> 'w::len word ocf_cache \<Rightarrow> 'w word ocf_cache option" where
  "set_cache_line_clean start_bit end_bit core line c = do {
     let part = ocf_metadata_get_partition_id (md c) line;
     bug_on (part > OCF_USER_IO_CLASS_MAX);
     (changed, line_is_clean, s) \<leftarrow> metadata_clear_dirty_sec_changed (line_status c line) start_bit end_bit;
     let c = set_status line s c;
     if \<not> changed then Some c
     else do {
       let c = event (Flush_mark Flush_CLEAN line start_bit end_bit) c;
       if \<not> line_is_clean then Some c
       else do {
         let c = upd_core core (\<lambda>rt. rt\<lparr>dirty_clines := dirty_clines rt - 1\<rparr>) c;
         let c = (if dirty_clines (core_rt c core) = 0 then upd_core core (\<lambda>rt. rt\<lparr>dirty_since := 0\<rparr>) c else c);
         c \<leftarrow> add_part_dirty (- 1) core part c;
         c \<leftarrow> ocf_lru_clean_cline part line c;
         Some (event (Cleaning_purge line) c)
       }
     }
   }"

text \<open>\<open>now\<close> is the time in seconds that the environment reports.\<close>

definition set_cache_line_dirty :: "u64 \<Rightarrow> u8 \<Rightarrow> u8 \<Rightarrow> u16 \<Rightarrow> u32 \<Rightarrow> 'w::len word ocf_cache \<Rightarrow> 'w word ocf_cache option" where
  "set_cache_line_dirty now start_bit end_bit core line c = do {
     let part = ocf_metadata_get_partition_id (md c) line;
     bug_on (part > OCF_USER_IO_CLASS_MAX);
     (changed, line_was_dirty, s) \<leftarrow> metadata_set_dirty_sec_changed (line_status c line) start_bit end_bit;
     let c = set_status line s c;
     c \<leftarrow> (if \<not> changed then Some c
           else do {
             let c = event (Flush_mark Flush_DIRTY line start_bit end_bit) c;
             if line_was_dirty then Some c
             else do {
               let c = (if dirty_since (core_rt c core) = 0 then upd_core core (\<lambda>rt. rt\<lparr>dirty_since := now\<rparr>) c else c);
               let c = upd_core core (\<lambda>rt. rt\<lparr>dirty_clines := dirty_clines rt + 1\<rparr>) c;
               c \<leftarrow> add_part_dirty 1 core part c;
               ocf_lru_dirty_cline part line c
             }
           });
     Some (event (Cleaning_hot line) c)
   }"

definition ocf_map_cache_line :: "u16 \<Rightarrow> u64 \<Rightarrow> u32 \<Rightarrow> u32 \<Rightarrow> 'b ocf_cache \<Rightarrow> 'b ocf_cache option" where
  "ocf_map_cache_line core cline hash_index line c = do {
     m \<leftarrow> ocf_metadata_add_to_collision core cline hash_index line (md c);
     Some (event (Cleaning_init line) (c\<lparr>md := m\<rparr>))
   }"

definition ocf_lru_invalidate :: "u32 \<Rightarrow> u16 \<Rightarrow> u16 \<Rightarrow> 'w::len word ocf_cache \<Rightarrow> 'w word ocf_cache option" where
  "ocf_lru_invalidate line core part c = do {
     (_, s) \<leftarrow> bit_clear valid set_valid_bits (line_status c line) 0 (sector_end (md c));
     let c = set_status line s c;
     m \<leftarrow> ocf_metadata_remove_from_collision line (md c);
     let c = c\<lparr>md := m\<rparr>;
     add_cached (- 1) core part c
   }"

definition ocf_metadata_sparse_cache_line :: "u32 \<Rightarrow> 'w::len word ocf_cache \<Rightarrow> 'w word ocf_cache option" where
  "ocf_metadata_sparse_cache_line line c = do {
     c \<leftarrow> set_cache_line_invalid_no_flush 0 (sector_end (md c)) line c;
     (_, s) \<leftarrow> bit_clear dirty set_dirty_bits (line_status c line) (sector_start (md c)) (sector_end (md c));
     Some (set_status line s c)
   }"

section \<open>The invariant\<close>

definition lines :: "'b ocf_cache \<Rightarrow> u32 set" where
  "lines c = {x. x < collision_table_entries (md c)}"

definition line_part :: "'b ocf_cache \<Rightarrow> u32 \<Rightarrow> u16" where
  "line_part c x = ocf_metadata_get_partition_id (md c) x"

definition line_core :: "'b ocf_cache \<Rightarrow> u32 \<Rightarrow> u16" where
  "line_core c x = core_id (map_info (md c) x)"

definition line_addr :: "'b ocf_cache \<Rightarrow> u32 \<Rightarrow> u64" where
  "line_addr c x = core_line (map_info (md c) x)"

definition line_valid :: "'w::len word ocf_cache \<Rightarrow> u32 \<Rightarrow> nat set" where
  "line_valid c x = secs (valid (line_status c x))"

definition line_dirties :: "'w::len word ocf_cache \<Rightarrow> u32 \<Rightarrow> nat set" where
  "line_dirties c x = secs (dirty (line_status c x))"

definition in_table :: "'b ocf_cache \<Rightarrow> (u32 \<Rightarrow> u32 list) \<Rightarrow> u32 \<Rightarrow> bool" where
  "in_table c B x \<longleftrightarrow> (\<exists>h < hash_table_entries (md c). x \<in> set (B h))"

definition sectors :: "'b ocf_cache \<Rightarrow> nat set" where
  "sectors c = {unat (sector_start (md c))..unat (sector_end (md c))}"

definition count_lines :: "'b ocf_cache \<Rightarrow> (u32 \<Rightarrow> bool) \<Rightarrow> int" where
  "count_lines c P = int (card {x \<in> lines c. P x})"

text \<open>Every line is in order by itself.\<close>

definition line_ok :: "'w::len word ocf_cache \<Rightarrow> (list_ref \<Rightarrow> u32 list) \<Rightarrow> (u32 \<Rightarrow> u32 list) \<Rightarrow> u32 \<Rightarrow> bool" where
  "line_ok c L B x \<longleftrightarrow>
     x \<in> set (L (line_ref c x)) \<and>
     (line_part c x < OCF_USER_IO_CLASS_MAX \<or> line_part c x = PARTITION_FREELIST) \<and>
     (in_table c B x \<longleftrightarrow> line_part c x \<noteq> PARTITION_FREELIST) \<and>
     (in_table c B x \<longrightarrow> line_core c x < OCF_CORE_MAX) \<and>
     line_dirties c x \<subseteq> line_valid c x \<and> line_valid c x \<subseteq> sectors c \<and>
     (\<not> in_table c B x \<longrightarrow> line_valid c x = {})"

definition counters_ok :: "'w::len word ocf_cache \<Rightarrow> bool" where
  "counters_ok c \<longleftrightarrow> (\<forall>k.
     cached_clines (core_rt c k) = count_lines c (\<lambda>x. line_core c x = k \<and> line_valid c x \<noteq> {}) \<and>
     dirty_clines (core_rt c k) = count_lines c (\<lambda>x. line_core c x = k \<and> line_dirties c x \<noteq> {}) \<and>
     (\<forall>p. part_cached (core_rt c k) p = count_lines c (\<lambda>x. line_core c x = k \<and> line_part c x = p \<and> line_valid c x \<noteq> {}) \<and>
          part_dirty (core_rt c k) p = count_lines c (\<lambda>x. line_core c x = k \<and> line_part c x = p \<and> line_dirties c x \<noteq> {})))"

definition cache_inv :: "'w::len word ocf_cache \<Rightarrow> (list_ref \<Rightarrow> u32 list) \<Rightarrow> (u32 \<Rightarrow> u32 list) \<Rightarrow> bool" where
  "cache_inv c L B \<longleftrightarrow> lists_ok c L \<and> sizes_ok c L \<and> coll_inv (md c) B \<and> (\<forall>x \<in> lines c. line_ok c L B x) \<and>
     counters_ok c \<and> num_entries (c_alock c) = collision_table_entries (md c)"


section \<open>Changing one line\<close>

lemma count_lines_upd:
  assumes "lines c' = lines c" "x \<in> lines c" "\<And>y. y \<noteq> x \<Longrightarrow> P' y = P y"
  shows "count_lines c' P' = count_lines c P + of_bool (P' x) - of_bool (P x)"
proof -
  let ?R = "{y \<in> lines c. y \<noteq> x \<and> P y}"
  have fin: "finite ?R" by simp
  have "{y \<in> lines c'. P' y} = (if P' x then insert x ?R else ?R)" "{y \<in> lines c. P y} = (if P x then insert x ?R else ?R)"
    using assms(2) unfolding assms(1) by (auto, (metis assms(3))+)
  then show ?thesis using fin by (simp add: count_lines_def)
qed

text \<open>\<open>c'\<close> differs from \<open>c\<close> in the line \<open>x\<close> only (and in counters, lists and links).\<close>

definition others :: "u32 \<Rightarrow> 'b ocf_cache \<Rightarrow> 'b ocf_cache \<Rightarrow> bool" where
  "others x c c' \<longleftrightarrow> collision_table_entries (md c') = collision_table_entries (md c) \<and>
     hash_table_entries (md c') = hash_table_entries (md c) \<and> sector_start (md c') = sector_start (md c) \<and>
     sector_end (md c') = sector_end (md c) \<and> num_entries (c_alock c') = num_entries (c_alock c) \<and>
     (\<forall>y. y \<noteq> x \<longrightarrow> line_status c' y = line_status c y \<and> line_part c' y = line_part c y \<and> line_core c' y = line_core c y \<and> line_addr c' y = line_addr c y)"

lemma othersD:
  assumes "others x c c'"
  shows "lines c' = lines c" "sectors c' = sectors c" "sectors_ok c' = sectors_ok c"
    "y \<noteq> x \<Longrightarrow> line_part c' y = line_part c y" "y \<noteq> x \<Longrightarrow> line_core c' y = line_core c y"
    "y \<noteq> x \<Longrightarrow> line_valid c' y = line_valid c y" "y \<noteq> x \<Longrightarrow> line_dirties c' y = line_dirties c y"
    "y \<noteq> x \<Longrightarrow> line_ref c' y = line_ref c y" "y \<noteq> x \<Longrightarrow> line_addr c' y = line_addr c y"
  using assms
  by (auto simp: others_def lines_def sectors_def sectors_ok_def line_valid_def line_dirties_def line_ref_def line_part_def
      line_dirty_def metadata_test_dirty_def line_status_def)

lemma others_trans: "others x c c' \<Longrightarrow> others x c' c'' \<Longrightarrow> others x c c''"
  by (simp add: others_def)

definition counter_delta :: "u32 \<Rightarrow> 'w::len word ocf_cache \<Rightarrow> 'w word ocf_cache \<Rightarrow> bool" where
  "counter_delta x c c' \<longleftrightarrow> (\<forall>k.
     cached_clines (core_rt c' k) = cached_clines (core_rt c k) +
       of_bool (line_core c' x = k \<and> line_valid c' x \<noteq> {}) - of_bool (line_core c x = k \<and> line_valid c x \<noteq> {}) \<and>
     dirty_clines (core_rt c' k) = dirty_clines (core_rt c k) +
       of_bool (line_core c' x = k \<and> line_dirties c' x \<noteq> {}) - of_bool (line_core c x = k \<and> line_dirties c x \<noteq> {}) \<and>
     (\<forall>p. part_cached (core_rt c' k) p = part_cached (core_rt c k) p +
            of_bool (line_core c' x = k \<and> line_part c' x = p \<and> line_valid c' x \<noteq> {}) -
            of_bool (line_core c x = k \<and> line_part c x = p \<and> line_valid c x \<noteq> {}) \<and>
          part_dirty (core_rt c' k) p = part_dirty (core_rt c k) p +
            of_bool (line_core c' x = k \<and> line_part c' x = p \<and> line_dirties c' x \<noteq> {}) -
            of_bool (line_core c x = k \<and> line_part c x = p \<and> line_dirties c x \<noteq> {})))"

lemma counters_ok_step:
  assumes "counters_ok c" "others x c c'" "x \<in> lines c" "counter_delta x c c'"
  shows "counters_ok c'"
proof -
  note o = othersD [OF assms(2)]
  note u = count_lines_upd [of c' c x, OF o(1) assms(3)]
  have eq: "count_lines c' (\<lambda>y. line_core c' y = k \<and> line_valid c' y \<noteq> {}) =
      count_lines c (\<lambda>y. line_core c y = k \<and> line_valid c y \<noteq> {}) +
      of_bool (line_core c' x = k \<and> line_valid c' x \<noteq> {}) - of_bool (line_core c x = k \<and> line_valid c x \<noteq> {})"
    "count_lines c' (\<lambda>y. line_core c' y = k \<and> line_dirties c' y \<noteq> {}) =
      count_lines c (\<lambda>y. line_core c y = k \<and> line_dirties c y \<noteq> {}) +
      of_bool (line_core c' x = k \<and> line_dirties c' x \<noteq> {}) - of_bool (line_core c x = k \<and> line_dirties c x \<noteq> {})"
    "count_lines c' (\<lambda>y. line_core c' y = k \<and> line_part c' y = p \<and> line_valid c' y \<noteq> {}) =
      count_lines c (\<lambda>y. line_core c y = k \<and> line_part c y = p \<and> line_valid c y \<noteq> {}) +
      of_bool (line_core c' x = k \<and> line_part c' x = p \<and> line_valid c' x \<noteq> {}) -
      of_bool (line_core c x = k \<and> line_part c x = p \<and> line_valid c x \<noteq> {})"
    "count_lines c' (\<lambda>y. line_core c' y = k \<and> line_part c' y = p \<and> line_dirties c' y \<noteq> {}) =
      count_lines c (\<lambda>y. line_core c y = k \<and> line_part c y = p \<and> line_dirties c y \<noteq> {}) +
      of_bool (line_core c' x = k \<and> line_part c' x = p \<and> line_dirties c' x \<noteq> {}) -
      of_bool (line_core c x = k \<and> line_part c x = p \<and> line_dirties c x \<noteq> {})" for k p
    by (rule u; simp add: o)+
  show ?thesis
    using assms(1,4) unfolding counters_ok_def counter_delta_def eq by simp
qed

lemma cache_inv_step:
  assumes inv: "cache_inv c L B" and x: "x \<in> lines c" and o: "others x c c'"
    and new: "lists_ok c' L'" "sizes_ok c' L'" "coll_inv (md c') B'" "line_ok c' L' B' x" "counter_delta x c c'"
    and L: "\<And>y r. y \<noteq> x \<Longrightarrow> y \<in> set (L r) \<Longrightarrow> y \<in> set (L' r)"
    and B: "\<And>y h. y \<noteq> x \<Longrightarrow> y \<in> set (B' h) \<longleftrightarrow> y \<in> set (B h)"
  shows "cache_inv c' L' B'"
proof -
  have "line_ok c' L' B' y" if "y \<in> lines c'" for y
  proof (cases "y = x")
    case False
    have "line_ok c L B y" using inv that unfolding cache_inv_def othersD(1) [OF o] by blast
    moreover have "in_table c' B' y = in_table c B y" using B [OF False] o by (simp add: in_table_def others_def)
    ultimately show ?thesis
      using L [OF False] unfolding line_ok_def othersD(2) [OF o] othersD(4-8) [OF o False] by blast
  qed (simp add: new)
  moreover have "counters_ok c" using inv unfolding cache_inv_def by blast
  then have "counters_ok c'" using o x new(5) by (rule counters_ok_step)
  moreover have "num_entries (c_alock c') = collision_table_entries (md c')"
    using inv o unfolding cache_inv_def others_def by metis
  ultimately show ?thesis using new unfolding cache_inv_def by blast
qed

lemma cache_invD:
  assumes "cache_inv c L B"
  shows "lists_ok c L" "sizes_ok c L" "coll_inv (md c) B" "x \<in> lines c \<Longrightarrow> line_ok c L B x"
    "sectors_ok c" "num_entries (c_alock c) = collision_table_entries (md c)"
proof -
  show l: "lists_ok c L" "sizes_ok c L" "coll_inv (md c) B" "x \<in> lines c \<Longrightarrow> line_ok c L B x"
    "num_entries (c_alock c) = collision_table_entries (md c)"
    using assms unfolding cache_inv_def by blast+
  show "sectors_ok c" using l(1) unfolding lists_ok_def by blast
qed

lemma lists_ok_same:
  assumes "lists_ok c L" "lru_meta c' = lru_meta c" "\<And>r. get_list c' r = get_list c r" "sectors_ok c' = sectors_ok c"
    "\<And>y. line_ref c' y = line_ref c y"
  shows "lists_ok c' L"
  using assms by (simp add: lists_ok_def)

lemma sizes_ok_same: "sizes_ok c L \<Longrightarrow> (\<And>p. curr_size (part_rt c' p) = curr_size (part_rt c p)) \<Longrightarrow> sizes_ok c' L"
  by (simp add: sizes_ok_def)


lemma set_status_laws [store_laws]:
  "line_status (set_status x s c) y = (if y = x then s else line_status c y)"
  "line_part (set_status x s c) y = line_part c y" "line_core (set_status x s c) y = line_core c y"
  "line_addr (set_status x s c) y = line_addr c y"
  "lru_meta (set_status x s c) = lru_meta c" "part_rt (set_status x s c) = part_rt c"
  "get_list (set_status x s c) r = get_list c r"
  "c_alock (set_status x s c) = c_alock c" "core_rt (set_status x s c) = core_rt c"
  "sector_start (md (set_status x s c)) = sector_start (md c)" "sector_end (md (set_status x s c)) = sector_end (md c)"
  "collision_table_entries (md (set_status x s c)) = collision_table_entries (md c)"
  "hash_table_entries (md (set_status x s c)) = hash_table_entries (md c)"
  by (simp_all add: set_status_def line_status_def line_part_def line_core_def line_addr_def ocf_metadata_get_partition_id_def get_list_upd)

lemma coll_inv_set_status [store_laws]: "coll_inv (md (set_status x s c)) B = coll_inv (md c) B"
proof -
  have "nxt_col (md (set_status x s c)) = nxt_col (md c)" "prv_col (md (set_status x s c)) = prv_col (md c)"
    "hash_tbl (md (set_status x s c)) = hash_tbl (md c)"
    "ocf_metadata_get_core_info (md (set_status x s c)) = ocf_metadata_get_core_info (md c)"
    "line_hash (md (set_status x s c)) = line_hash (md c)"
    by (simp_all add: fun_eq_iff set_status_def nxt_col_def prv_col_def ocf_metadata_get_core_info_def line_hash_def
        ocf_metadata_hash_func_def)
  then show ?thesis by (simp add: coll_inv_def store_laws)
qed

lemma upd_core_laws [store_laws]:
  "md (upd_core k f c) = md c" "lru_meta (upd_core k f c) = lru_meta c" "part_rt (upd_core k f c) = part_rt c"
  "get_list (upd_core k f c) r = get_list c r" "c_alock (upd_core k f c) = c_alock c"
  "core_rt (upd_core k f c) = (core_rt c)(k := f (core_rt c k))"
  "line_status (upd_core k f c) y = line_status c y" "line_part (upd_core k f c) y = line_part c y"
  "line_core (upd_core k f c) y = line_core c y" "line_addr (upd_core k f c) y = line_addr c y"
  by (simp_all add: upd_core_def get_list_upd line_status_def line_part_def line_core_def line_addr_def)

lemma event_laws [store_laws]:
  "md (event e c) = md c" "lru_meta (event e c) = lru_meta c" "part_rt (event e c) = part_rt c"
  "get_list (event e c) r = get_list c r" "c_alock (event e c) = c_alock c" "core_rt (event e c) = core_rt c"
  "line_status (event e c) y = line_status c y" "line_part (event e c) y = line_part c y"
  "line_core (event e c) y = line_core c y" "line_addr (event e c) y = line_addr c y"
  by (simp_all add: event_def get_list_upd line_status_def line_part_def line_core_def line_addr_def)

lemma line_dirty_iff:
  assumes "sectors_ok c" "line_dirties c x \<subseteq> sectors c"
  shows "line_dirty c x \<longleftrightarrow> line_dirties c x \<noteq> {}"
  using dirty_field.bit_ops_secs(2) [OF _ refl, of "sector_start (md c)" "sector_end (md c)" "line_status c x"] assms
  by (auto simp: line_dirty_def metadata_test_dirty_def sectors_ok_def line_dirties_def sectors_def line_status_def)

text \<open>A range of sectors inside the line.\<close>

definition range_ok :: "'b ocf_cache \<Rightarrow> u8 \<Rightarrow> u8 \<Rightarrow> bool" where
  "range_ok c start stop \<longleftrightarrow> start \<le> stop \<and> sector_start (md c) \<le> start \<and> stop \<le> sector_end (md c)"

lemma range_okD:
  fixes c :: "'w::len word ocf_cache"
  assumes "range_ok c start stop" "sectors_ok c"
  shows "sector_range TYPE('w) start stop" "{unat start..unat stop} \<subseteq> sectors c"
  using assms by (auto simp: range_ok_def sectors_ok_def sector_range_def sectors_def word_le_nat_alt)

text \<open>The reference of a line, in terms of its partition and its dirty sectors.\<close>

lemma line_ref_iff:
  "sectors_ok c \<Longrightarrow> line_dirties c x \<subseteq> sectors c \<Longrightarrow>
   line_ref c x = ocf_lru_get_list (line_part c x) (x mod OCF_NUM_LRU_LISTS) (line_dirties c x = {})"
  by (simp add: line_ref_def line_part_def line_dirty_iff)

lemma line_okD:
  assumes "line_ok c L B x"
  shows "x \<in> set (L (line_ref c x))" "line_part c x < OCF_USER_IO_CLASS_MAX \<or> line_part c x = PARTITION_FREELIST"
    "in_table c B x \<longleftrightarrow> line_part c x \<noteq> PARTITION_FREELIST" "line_dirties c x \<subseteq> line_valid c x"
    "line_valid c x \<subseteq> sectors c" "\<not> in_table c B x \<Longrightarrow> line_valid c x = {}" "line_dirties c x \<subseteq> sectors c"
    "in_table c B x \<Longrightarrow> line_core c x < OCF_CORE_MAX"
  using assms unfolding line_ok_def by blast+

lemma others_set_status: "others x c (set_status x s c)"
  by (simp add: others_def store_laws)

lemma others_md: "md c' = md c \<Longrightarrow> c_alock c' = c_alock c \<Longrightarrow> others x c c'"
  by (simp add: others_def line_status_def line_part_def line_core_def line_addr_def)

lemma in_table_same: "hash_table_entries (md c') = hash_table_entries (md c) \<Longrightarrow> in_table c' B x = in_table c B x"
  by (simp add: in_table_def)

lemma add_cached_Some:
  "part < OCF_USER_IO_CLASS_MAX \<Longrightarrow> add_cached k core part c = Some (upd_core core (\<lambda>rt. rt\<lparr>cached_clines := cached_clines rt + k,
     part_cached := (part_cached rt)(part := part_cached rt part + k)\<rparr>) c)"
  by (simp add: add_cached_def)

lemma add_part_dirty_Some:
  "part < OCF_USER_IO_CLASS_MAX \<Longrightarrow> add_part_dirty k core part c =
     Some (upd_core core (\<lambda>rt. rt\<lparr>part_dirty := (part_dirty rt)(part := part_dirty rt part + k)\<rparr>) c)"
  by (simp add: add_part_dirty_def)

text \<open>Moving a line whose status has changed to the list where it belongs now.\<close>

lemma relist_ok:
  assumes inv: "cache_inv c L B" and x: "x \<in> lines c" and o: "others x c c1"
    and same: "lru_meta c1 = lru_meta c" "\<And>r. get_list c1 r = get_list c r" "part_rt c1 = part_rt c" "line_part c1 x = line_part c x"
  defines "L' \<equiv> moved x (line_ref c x) (line_ref c1 x) L"
  shows "\<exists>c'. ocf_lru_move x (line_ref c x) (line_ref c1 x) c1 = Some c' \<and> lists_ok c' L' \<and> sizes_ok c' L' \<and>
    md c' = md c1 \<and> c_alock c' = c_alock c1 \<and> core_rt c' = core_rt c1 \<and>
    x \<in> set (L' (line_ref c' x)) \<and> line_ref c' x = line_ref c1 x \<and> (\<forall>y r. y \<noteq> x \<longrightarrow> y \<in> set (L r) \<longrightarrow> y \<in> set (L' r))"
proof -
  note D = cache_invD [OF inv] and l = line_okD [OF cache_invD(4) [OF inv x]]
  have p: "part_ok (line_part c x)" using l(2) by (simp add: part_ok_def)
  then have r: "ref_ok (line_ref c x)" "ref_ok (line_ref c1 x)"
    using same(4) by (simp_all add: line_ref_def line_part_def)
  have "lists_hold c1 L" using lists_ok_hold [OF D(1)] unfolding lists_hold_def by (simp add: same)
  from lists_hold_move [OF this r l(1)] obtain c' where
    c': "ocf_lru_move x (line_ref c x) (line_ref c1 x) c1 = Some c'" "lists_hold c' L'" "md c' = md c1"
      "c_alock c' = c_alock c1" "core_rt c' = core_rt c1" "\<forall>p. curr_size (part_rt c' p) = curr_size (part_rt c1 p)"
    unfolding L'_def by blast
  have ref: "line_ref c' y = line_ref c1 y" for y
    by (simp add: line_ref_def line_dirty_def metadata_test_dirty_def c')
  have "lists_ok c' L'" unfolding L'_def
  proof (rule lists_ok_moved [OF D(1) _ _ r(1) l(1)])
    show "lists_hold c' (moved x (line_ref c x) (line_ref c1 x) L)" using c'(2) by (simp add: L'_def)
    show "sectors_ok c'" using D(5) othersD(3) [OF o] by (simp add: sectors_ok_def c'(3))
    show "line_ref c' x = line_ref c1 x" by (rule ref)
    show "line_ref c' y = line_ref c y" if "y \<noteq> x" for y using ref othersD(8) [OF o that] by simp
  qed
  moreover have "sizes_ok c' L'"
    using D(2) c'(6) same(3,4) unfolding sizes_ok_def L'_def part_size_moved [where L = L, OF r l(1)]
    by (simp add: line_ref_def line_part_def)
  moreover have "x \<in> set (L' (line_ref c' x))" unfolding ref L'_def moved_def Let_def by simp
  moreover have "y \<in> set (L' r)" if "y \<noteq> x" "y \<in> set (L r)" for y r
    using that by (auto simp: L'_def moved_def Let_def in_set_remove1)
  ultimately show ?thesis using c' ref by blast
qed


text \<open>
  A change of the status of a mapped line, with the counters adjusted, keeps the invariant: at once
  when the line stays on its list, and otherwise after it has been moved.
\<close>

definition status_change :: "u32 \<Rightarrow> (u32 \<Rightarrow> u32 list) \<Rightarrow> 'w::len word ocf_cache \<Rightarrow> 'w word ocf_cache \<Rightarrow> bool" where
  "status_change x B c c1 \<longleftrightarrow> others x c c1 \<and> lru_meta c1 = lru_meta c \<and> (\<forall>r. get_list c1 r = get_list c r) \<and> part_rt c1 = part_rt c \<and>
     coll_inv (md c1) B \<and> line_part c1 x = line_part c x \<and> line_core c1 x = line_core c x \<and>
     line_dirties c1 x \<subseteq> line_valid c1 x \<and> line_valid c1 x \<subseteq> sectors c1 \<and> counter_delta x c c1"

lemma status_change_ok:
  assumes inv: "cache_inv c L B" and x: "x \<in> lines c" "in_table c B x" and ch: "status_change x B c c1"
  shows "(line_dirties c1 x = {} \<longleftrightarrow> line_dirties c x = {}) \<Longrightarrow> cache_inv c1 L B"
    "\<exists>c'. ocf_lru_move x (line_ref c x) (line_ref c1 x) c1 = Some c' \<and>
       cache_inv c' (moved x (line_ref c x) (line_ref c1 x) L) B \<and> md c' = md c1 \<and> c_alock c' = c_alock c1"
proof -
  note D = cache_invD [OF inv] and l = line_okD [OF cache_invD(4) [OF inv x(1)]]
  have o: "others x c c1" and same: "lru_meta c1 = lru_meta c" "\<And>r. get_list c1 r = get_list c r" "part_rt c1 = part_rt c"
    "coll_inv (md c1) B" "line_part c1 x = line_part c x" "line_core c1 x = line_core c x" and dv: "line_dirties c1 x \<subseteq> line_valid c1 x"
    "line_valid c1 x \<subseteq> sectors c1" and delta: "counter_delta x c c1"
    using ch unfolding status_change_def by blast+
  have tab: "in_table c1 B x" using x(2) o by (simp add: in_table_def others_def)
  have s': "sectors_ok c1" using othersD(3) [OF o] D(5) by simp
  have ref: "line_ref c1 x = ocf_lru_get_list (line_part c x) (x mod OCF_NUM_LRU_LISTS) (line_dirties c1 x = {})"
    using line_ref_iff [OF s'] dv same(5) by (metis order_trans)
  show "cache_inv c1 L B" if "line_dirties c1 x = {} \<longleftrightarrow> line_dirties c x = {}"
  proof (rule cache_inv_step [OF inv x(1) o])
    have eq: "line_ref c1 y = line_ref c y" for y
      using othersD(8) [OF o] ref line_ref_iff [OF D(5) l(7)] that by (cases "y = x") simp_all
    show "lists_ok c1 L" by (rule lists_ok_same [OF D(1)]) (simp_all add: same eq othersD(3) [OF o])
    show "sizes_ok c1 L" by (rule sizes_ok_same [OF D(2)]) (simp add: same)
    show "line_ok c1 L B x" unfolding line_ok_def eq same(5,6) using l x(2) tab dv by auto
  qed (use same(4) delta in auto)
  from relist_ok [OF inv x(1) o same(1,2,3,5)] obtain c' where
    c': "ocf_lru_move x (line_ref c x) (line_ref c1 x) c1 = Some c'" "lists_ok c' (moved x (line_ref c x) (line_ref c1 x) L)"
      "sizes_ok c' (moved x (line_ref c x) (line_ref c1 x) L)" "md c' = md c1" "c_alock c' = c_alock c1" "core_rt c' = core_rt c1"
      "x \<in> set (moved x (line_ref c x) (line_ref c1 x) L (line_ref c' x))"
      "\<And>y r. y \<noteq> x \<Longrightarrow> y \<in> set (L r) \<Longrightarrow> y \<in> set (moved x (line_ref c x) (line_ref c1 x) L r)" by blast
  have st: "line_status c' y = line_status c1 y" "line_part c' y = line_part c1 y" "line_core c' y = line_core c1 y"
    "line_valid c' y = line_valid c1 y" "line_dirties c' y = line_dirties c1 y" "sectors c' = sectors c1" "in_table c' B y = in_table c1 B y" for y
    by (simp_all add: line_status_def line_part_def line_core_def line_addr_def line_valid_def line_dirties_def sectors_def in_table_def c'(4))
  have "cache_inv c' (moved x (line_ref c x) (line_ref c1 x) L) B"
  proof (rule cache_inv_step [OF inv x(1) _ c'(2,3)])
    show "others x c c'" using others_trans [OF o others_md] c'(4,5) by blast
    show "coll_inv (md c') B" using same(4) c'(4) by simp
    show "line_ok c' (moved x (line_ref c x) (line_ref c1 x) L) B x"
      unfolding line_ok_def st same(5,6) using l x(2) tab dv c'(7) by auto
    show "counter_delta x c c'" using delta unfolding counter_delta_def st c'(6) .
  qed (use c'(8) in auto)
  with c' show "\<exists>c'. ocf_lru_move x (line_ref c x) (line_ref c1 x) c1 = Some c' \<and>
    cache_inv c' (moved x (line_ref c x) (line_ref c1 x) L) B \<and> md c' = md c1 \<and> c_alock c' = c_alock c1" by blast
qed

lemma cache_inv_event [simp]: "cache_inv (event e c) L B = cache_inv c L B"
proof -
  have "line_ref (event e c) = line_ref c" "lines (event e c) = lines c" "line_valid (event e c) = line_valid c"
    "line_dirties (event e c) = line_dirties c" "line_part (event e c) = line_part c" "line_core (event e c) = line_core c"
    "in_table (event e c) = in_table c" "sectors (event e c) = sectors c" "sectors_ok (event e c) = sectors_ok c"
    by (simp_all add: fun_eq_iff line_ref_def line_dirty_def metadata_test_dirty_def lines_def line_valid_def line_dirties_def
        in_table_def sectors_def sectors_ok_def store_laws)
  then show ?thesis
    by (simp add: cache_inv_def lists_ok_def sizes_ok_def line_ok_def counters_ok_def count_lines_def store_laws)
qed

text \<open>What an operation may change in the abstract view of the line it works on.\<close>

definition line_result :: "u32 \<Rightarrow> 'w::len word ocf_cache \<Rightarrow> 'w word ocf_cache \<Rightarrow> nat set \<Rightarrow> nat set \<Rightarrow> bool" where
  "line_result x c c' V D \<longleftrightarrow> others x c c' \<and> line_valid c' x = V \<and> line_dirties c' x = D \<and>
     line_part c' x = line_part c x \<and> line_core c' x = line_core c x \<and> line_addr c' x = line_addr c x"

lemma line_result_md:
  "md c' = md c1 \<Longrightarrow> c_alock c' = c_alock c1 \<Longrightarrow> line_result x c c' V D = line_result x c c1 V D"
  by (auto simp: line_result_def others_def line_status_def line_part_def line_core_def line_addr_def line_valid_def line_dirties_def)

lemma set_valid_ok:
  assumes inv: "cache_inv c L B" and x: "x \<in> lines c" "in_table c B x" and r: "range_ok c start stop"
  shows "\<exists>c'. set_cache_line_valid start stop (line_core c x) x c = Some c' \<and> cache_inv c' L B \<and>
    line_result x c c' (line_valid c x \<union> {unat start..unat stop}) (line_dirties c x)"
proof -
  let ?R = "{unat start..unat stop}" and ?k = "line_core c x" and ?p = "line_part c x"
  note D = cache_invD [OF inv] and l = line_okD [OF cache_invD(4) [OF inv x(1)]]
  note rr = range_okD [OF r D(5)]
  from status_sec_changed_parts(3) [OF rr(1) refl, of "line_status c x"] obtain s where
    s: "metadata_set_valid_sec_changed (line_status c x) start stop = Some (valid (line_status c x) = 0, s)"
      "secs (valid s) = line_valid c x \<union> ?R" "dirty s = dirty (line_status c x)"
    by (auto simp: line_valid_def)
  have p: "?p < OCF_USER_IO_CLASS_MAX" using l(2,3) x(2) by blast
  have R: "?R \<noteq> {}" using rr(1) by (simp add: sector_range_def word_le_nat_alt)
  define c' where "c' = (if line_valid c x = {} then upd_core ?k (\<lambda>rt. rt\<lparr>cached_clines := cached_clines rt + 1,
    part_cached := (part_cached rt)(?p := part_cached rt ?p + 1)\<rparr>) (set_status x s c) else set_status x s c)"
  have run: "set_cache_line_valid start stop ?k x c = Some c'"
    using p unfolding set_cache_line_valid_def s(1) c'_def line_valid_def
    by (simp add: add_cached_Some zero_iff line_part_def)
  have o: "others x c c'" unfolding c'_def others_def by (simp add: store_laws)
  have v: "line_valid c' x = line_valid c x \<union> ?R" "line_dirties c' x = line_dirties c x" "line_part c' x = ?p" "line_core c' x = ?k" "line_addr c' x = line_addr c x"
    using s(2,3) unfolding c'_def line_valid_def line_dirties_def by (simp_all add: store_laws)
  have "status_change x B c c'"
    unfolding status_change_def counter_delta_def v othersD(2) [OF o]
    using o l rr(2) R D(3) by (auto simp: c'_def store_laws)
  from status_change_ok(1) [OF inv x this] v run o show ?thesis by (auto simp: line_result_def)
qed

lemma set_dirty_ok:
  assumes inv: "cache_inv c L B" and x: "x \<in> lines c" "in_table c B x" and r: "range_ok c start stop"
    and v: "{unat start..unat stop} \<subseteq> line_valid c x"
  shows "\<exists>c' L'. set_cache_line_dirty now start stop (line_core c x) x c = Some c' \<and> cache_inv c' L' B \<and>
    line_result x c c' (line_valid c x) (line_dirties c x \<union> {unat start..unat stop})"
proof -
  let ?R = "{unat start..unat stop}" and ?k = "line_core c x" and ?p = "line_part c x"
  note D = cache_invD [OF inv] and l = line_okD [OF cache_invD(4) [OF inv x(1)]]
  note rr = range_okD [OF r D(5)]
  from status_sec_changed_parts(1) [OF rr(1) refl, of "line_status c x"] obtain s where
    s: "metadata_set_dirty_sec_changed (line_status c x) start stop =
        Some (\<not> ?R \<subseteq> line_dirties c x, line_dirties c x \<noteq> {}, s)"
      "secs (dirty s) = line_dirties c x \<union> ?R" "valid s = valid (line_status c x)"
    by (auto simp: line_dirties_def zero_iff)
  have R: "?R \<noteq> {}" using rr(1) by (simp add: sector_range_def word_le_nat_alt)
  have p: "?p < OCF_USER_IO_CLASS_MAX" "\<not> ?p > OCF_USER_IO_CLASS_MAX" using l(2,3) x(2) by auto
  define c2 where "c2 = (if ?R \<subseteq> line_dirties c x then set_status x s c
    else event (Flush_mark Flush_DIRTY x start stop) (set_status x s c))"
  define c3 where "c3 = (if dirty_since (core_rt c2 ?k) = 0 then upd_core ?k (\<lambda>rt. rt\<lparr>dirty_since := now\<rparr>) c2 else c2)"
  define c4 where "c4 = upd_core ?k (\<lambda>rt. rt\<lparr>part_dirty := (part_dirty rt)(?p := part_dirty rt ?p + 1)\<rparr>)
    (upd_core ?k (\<lambda>rt. rt\<lparr>dirty_clines := dirty_clines rt + 1\<rparr>) c3)"
  define c5 where "c5 = (if line_dirties c x = {} then c4 else c2)"
  have o: "others x c c5" unfolding c5_def c4_def c3_def c2_def others_def by (simp add: store_laws)
  have lv: "line_valid c5 x = line_valid c x" "line_dirties c5 x = line_dirties c x \<union> ?R" "line_part c5 x = ?p" "line_core c5 x = ?k" "line_addr c5 x = line_addr c x"
    using s(2,3) unfolding c5_def c4_def c3_def c2_def line_valid_def line_dirties_def by (simp_all add: store_laws)
  have ch: "status_change x B c c5"
    unfolding status_change_def counter_delta_def lv othersD(2) [OF o]
    using o l v R D(3) by (auto simp: c5_def c4_def c3_def c2_def store_laws)
  have res: "line_result x c c5 (line_valid c x) (line_dirties c x \<union> ?R)" using o lv by (simp add: line_result_def)
  show ?thesis
  proof (cases "line_dirties c x = {}")
    case False
    have "set_cache_line_dirty now start stop ?k x c = Some (event (Cleaning_hot x) c5)"
      using False p s(1) by (simp add: set_cache_line_dirty_def c5_def c2_def line_part_def)
    moreover have "cache_inv c5 L B" using status_change_ok(1) [OF inv x ch] False lv by simp
    ultimately show ?thesis using res by (simp add: line_result_md [of "event (Cleaning_hot x) c5" c5] store_laws) blast
  next
    case True
    from status_change_ok(2) [OF inv x ch] obtain c6 L' where
      c6: "ocf_lru_move x (line_ref c x) (line_ref c5 x) c5 = Some c6" "cache_inv c6 L' B" "md c6 = md c5" "c_alock c6 = c_alock c5"
      by blast
    have sub: "line_dirties c5 x \<subseteq> sectors c5" using ch by (auto simp: status_change_def)
    have "ocf_lru_dirty_cline ?p x c4 = Some c6"
      using c6(1) line_ref_iff [OF D(5) l(7)] line_ref_iff [OF _ sub] othersD(3) [OF o] D(5) True lv R
      unfolding clean_dirty_cline_eq by (simp add: c5_def)
    moreover have "\<not> ?R \<subseteq> line_dirties c x" using True R by auto
    ultimately have "set_cache_line_dirty now start stop ?k x c = Some (event (Cleaning_hot x) c6)"
      using True p s(1)
      by (simp add: set_cache_line_dirty_def c4_def c3_def c2_def line_part_def add_part_dirty_Some Let_def cong: if_cong)
    with c6 res show ?thesis by (simp add: line_result_md [of "event (Cleaning_hot x) c6" c5] store_laws) blast
  qed
qed


lemma set_clean_ok:
  assumes inv: "cache_inv c L B" and x: "x \<in> lines c" "in_table c B x" and r: "range_ok c start stop"
  shows "\<exists>c' L'. set_cache_line_clean start stop (line_core c x) x c = Some c' \<and> cache_inv c' L' B \<and>
    line_result x c c' (line_valid c x) (line_dirties c x - {unat start..unat stop})"
proof -
  let ?R = "{unat start..unat stop}" and ?k = "line_core c x" and ?p = "line_part c x"
  note D = cache_invD [OF inv] and l = line_okD [OF cache_invD(4) [OF inv x(1)]]
  note rr = range_okD [OF r D(5)]
  from status_sec_changed_parts(2) [OF rr(1) refl, of "line_status c x"] obtain s where
    s: "metadata_clear_dirty_sec_changed (line_status c x) start stop =
        Some (?R \<inter> line_dirties c x \<noteq> {}, line_dirties c x - ?R = {}, s)"
      "secs (dirty s) = line_dirties c x - ?R" "valid s = valid (line_status c x)"
    by (auto simp: line_dirties_def zero_iff)
  let ?emptied = "?R \<inter> line_dirties c x \<noteq> {} \<and> line_dirties c x - ?R = {}"
  have p: "?p < OCF_USER_IO_CLASS_MAX" "\<not> ?p > OCF_USER_IO_CLASS_MAX" using l(2,3) x(2) by auto
  define c2 where "c2 = (if ?R \<inter> line_dirties c x = {} then set_status x s c
    else event (Flush_mark Flush_CLEAN x start stop) (set_status x s c))"
  define c3 where "c3 = upd_core ?k (\<lambda>rt. rt\<lparr>dirty_clines := dirty_clines rt - 1\<rparr>) c2"
  define c4 where "c4 = upd_core ?k (\<lambda>rt. rt\<lparr>part_dirty := (part_dirty rt)(?p := part_dirty rt ?p - 1)\<rparr>)
    (if dirty_clines (core_rt c3 ?k) = 0 then upd_core ?k (\<lambda>rt. rt\<lparr>dirty_since := 0\<rparr>) c3 else c3)"
  define c5 where "c5 = (if ?emptied then c4 else c2)"
  have o: "others x c c5" unfolding c5_def c4_def c3_def c2_def others_def by (simp add: store_laws)
  have lv: "line_valid c5 x = line_valid c x" "line_dirties c5 x = line_dirties c x - ?R" "line_part c5 x = ?p" "line_core c5 x = ?k" "line_addr c5 x = line_addr c x"
    using s(2,3) unfolding c5_def c4_def c3_def c2_def line_valid_def line_dirties_def by (simp_all add: store_laws)
  have ch: "status_change x B c c5"
    unfolding status_change_def counter_delta_def lv othersD(2) [OF o]
    using o l D(3) by (auto simp: c5_def c4_def c3_def c2_def store_laws)
  have res: "line_result x c c5 (line_valid c x) (line_dirties c x - ?R)" using o lv by (simp add: line_result_def)
  show ?thesis
  proof (cases ?emptied)
    case False
    have "set_cache_line_clean start stop ?k x c = Some c5"
      using False p s(1) by (auto simp: set_cache_line_clean_def c5_def c2_def line_part_def Let_def)
    moreover have "cache_inv c5 L B" using status_change_ok(1) [OF inv x ch] False lv by auto
    ultimately show ?thesis using res by blast
  next
    case True
    from status_change_ok(2) [OF inv x ch] obtain c6 L' where
      c6: "ocf_lru_move x (line_ref c x) (line_ref c5 x) c5 = Some c6" "cache_inv c6 L' B" "md c6 = md c5" "c_alock c6 = c_alock c5"
      by blast
    have sub: "line_dirties c5 x \<subseteq> sectors c5" using ch by (auto simp: status_change_def)
    have "line_dirties c x \<noteq> {}" "line_dirties c5 x = {}" using True lv by auto
    then have "line_ref c x = ocf_lru_get_list ?p (x mod OCF_NUM_LRU_LISTS) False"
      "line_ref c5 x = ocf_lru_get_list ?p (x mod OCF_NUM_LRU_LISTS) True"
      using line_ref_iff [OF D(5) l(7)] line_ref_iff [OF _ sub] othersD(3) [OF o] D(5) lv(3) by simp_all
    then have "ocf_lru_clean_cline ?p x c4 = Some c6"
      using c6(1) True unfolding clean_dirty_cline_eq by (simp add: c5_def)
    then have "set_cache_line_clean start stop ?k x c = Some (event (Cleaning_purge x) c6)"
      using True p s(1)
      by (simp add: set_cache_line_clean_def c4_def c3_def c2_def line_part_def add_part_dirty_Some Let_def cong: if_cong)
    with c6 res show ?thesis by (simp add: line_result_md [of "event (Cleaning_purge x) c6" c5] store_laws) blast
  qed
qed

section \<open>Leaving and entering the hash table\<close>

lemma remove_map_info:
  "ocf_metadata_remove_from_collision x m = Some m' \<Longrightarrow>
   map_info m' = (map_info m)(x := (map_info m x)\<lparr>core_id := OCF_CORE_MAX, core_line := - 1\<rparr>) \<and>
   (\<forall>y. partition_id (list_info m' y) = partition_id (list_info m y)) \<and>
   sector_start m' = sector_start m \<and> sector_end m' = sector_end m"
  by (auto simp: ocf_metadata_remove_from_collision_def Let_def ocf_metadata_set_core_info_def ocf_metadata_set_collision_info_def
      ocf_metadata_set_collision_next_def ocf_metadata_set_collision_prev_def ocf_metadata_set_hash_def bug_on_bind
      split: if_splits prod.splits)

lemma add_map_info:
  "ocf_metadata_add_to_collision core cl h x m = Some m' \<Longrightarrow>
   map_info m' = (map_info m)(x := (map_info m x)\<lparr>core_id := core, core_line := cl\<rparr>) \<and>
   (\<forall>y. partition_id (list_info m' y) = partition_id (list_info m y)) \<and>
   sector_start m' = sector_start m \<and> sector_end m' = sector_end m"
  by (auto simp: ocf_metadata_add_to_collision_def Let_def ocf_metadata_set_core_info_def ocf_metadata_set_collision_info_def
      ocf_metadata_set_collision_next_def ocf_metadata_set_collision_prev_def ocf_metadata_set_hash_def bug_on_bind
      split: if_splits prod.splits)

lemma coll_inv_set_partition [store_laws]: "coll_inv (ocf_metadata_set_partition_id x p m) B = coll_inv m B"
proof -
  have "nxt_col (ocf_metadata_set_partition_id x p m) = nxt_col m" "prv_col (ocf_metadata_set_partition_id x p m) = prv_col m"
    "hash_tbl (ocf_metadata_set_partition_id x p m) = hash_tbl m"
    "ocf_metadata_get_core_info (ocf_metadata_set_partition_id x p m) = ocf_metadata_get_core_info m"
    "line_hash (ocf_metadata_set_partition_id x p m) = line_hash m"
    by (simp_all add: fun_eq_iff ocf_metadata_set_partition_id_def nxt_col_def prv_col_def ocf_metadata_get_core_info_def line_hash_def
        ocf_metadata_hash_func_def)
  then show ?thesis by (simp add: coll_inv_def ocf_metadata_set_partition_id_def)
qed

lemma line_hash_bucket:
  assumes "coll_inv m B" "h < hash_table_entries m" "x \<in> set (B h)"
  shows "line_hash m x = h" "x \<notin> set ((B(h := remove1 x (B h))) k) \<or> \<not> k < hash_table_entries m"
proof -
  show "line_hash m x = h" using coll_invD(4) [OF assms(1,2)] assms(3) by blast
  have "distinct (B h)" using coll_invD(1) [OF assms(1,2)] by (rule dll_distinct)
  moreover have "k < hash_table_entries m \<Longrightarrow> k \<noteq> h \<Longrightarrow> x \<notin> set (B k)"
    using coll_invD(4) [OF assms(1)] assms(2,3) by metis
  ultimately show "x \<notin> set ((B(h := remove1 x (B h))) k) \<or> \<not> k < hash_table_entries m" by auto
qed

text \<open>The abstract view of a line after the metadata has been replaced.\<close>

lemma line_view_md:
  "line_status (c\<lparr>md := m\<rparr>) y = status_word (map_info m y)" "line_part (c\<lparr>md := m\<rparr>) y = ocf_metadata_get_partition_id m y"
  "line_core (c\<lparr>md := m\<rparr>) y = core_id (map_info m y)" "line_addr (c\<lparr>md := m\<rparr>) y = core_line (map_info m y)"
  by (simp_all add: line_status_def line_part_def line_core_def line_addr_def)

lemma partition_id_cong:
  "partition_id (list_info m' y) = partition_id (list_info m y) \<Longrightarrow> ocf_metadata_get_partition_id m' y = ocf_metadata_get_partition_id m y"
  by (simp add: ocf_metadata_get_partition_id_def)

lemma unmap_ok:
  assumes inv: "cache_inv c L B" and x: "x \<in> lines c" "in_table c B x" and v: "line_valid c x = {}"
  shows "\<exists>c1 c' L' B'. ocf_lru_rm_cline x c = Some c1 \<and> ocf_metadata_remove_cache_line x c1 = Some c' \<and> cache_inv c' L' B' \<and>
    others x c c' \<and> line_part c' x = PARTITION_FREELIST \<and> line_valid c' x = {} \<and> c_alock c' = c_alock c"
proof -
  note D = cache_invD [OF inv] and l = line_okD [OF cache_invD(4) [OF inv x(1)]]
  have p: "line_part c x < OCF_USER_IO_CLASS_MAX" using l(2,3) x(2) by blast
  then have "ocf_metadata_get_partition_id (md c) x < OCF_USER_IO_CLASS_MAX" by (simp add: line_part_def)
  let ?free = "(PARTITION_FREELIST, x mod OCF_NUM_LRU_LISTS, True)"
  let ?L = "moved x (line_ref c x) ?free L"
  from rm_cline_ok [OF D(1,2) \<open>ocf_metadata_get_partition_id (md c) x < _\<close> l(1)] obtain c1 where
    c1: "ocf_lru_rm_cline x c = Some c1" "lists_ok c1 ?L" "sizes_ok c1 ?L"
      "md c1 = ocf_metadata_set_partition_id x PARTITION_FREELIST (md c)" "c_alock c1 = c_alock c" "core_rt c1 = core_rt c" by blast
  from x(2) obtain h where h: "h < hash_table_entries (md c)" "x \<in> set (B h)" by (auto simp: in_table_def)
  have inv1: "coll_inv (md c1) B" "h < hash_table_entries (md c1)" using D(3) h c1(4) by (simp_all add: store_laws)
  let ?B = "B(h := remove1 x (B h))"
  from remove_from_collision_inv [OF inv1 h(2)] obtain m where
    m: "ocf_metadata_remove_from_collision x (md c1) = Some m" "coll_inv m ?B"
      "collision_table_entries m = collision_table_entries (md c1)" "hash_table_entries m = hash_table_entries (md c1)" by blast
  note mi = remove_map_info [OF m(1)]
  let ?c = "c1\<lparr>md := m\<rparr>"
  have part: "line_part ?c y = (if y = x then PARTITION_FREELIST else line_part c y)" for y
    unfolding line_view_md using mi c1(4) partition_id_cong [of m y "md c1"] partition_id_roundtrip [OF part_ok_free, of x "md c" y]
    by (simp add: line_part_def)
  have st: "line_status ?c y = line_status c y" "y \<noteq> x \<Longrightarrow> line_core ?c y = line_core c y" "y \<noteq> x \<Longrightarrow> line_addr ?c y = line_addr c y" for y
    using mi unfolding line_view_md by (simp_all add: c1(4) store_laws line_status_def line_core_def line_addr_def)
  have o: "others x c ?c" using mi m c1 part st by (simp add: others_def store_laws)
  have lv: "line_valid ?c x = {}" "line_dirties ?c x = {}" "line_dirties c x = {}"
    using st(1) [of x] v l(4) by (simp_all add: line_valid_def line_dirties_def)
  have "cache_inv ?c ?L ?B"
  proof (rule cache_inv_step [OF inv x(1) o])
    have "line_dirty ?c = line_dirty c1"
      using mi by (auto simp: fun_eq_iff line_dirty_def metadata_test_dirty_def)
    moreover have "ocf_metadata_get_partition_id m y = ocf_metadata_get_partition_id (md c1) y" for y
      using mi by (simp add: ocf_metadata_get_partition_id_def)
    ultimately have "line_ref ?c = line_ref c1" by (simp add: fun_eq_iff line_ref_def)
    then show lo: "lists_ok ?c ?L"
      using mi by (intro lists_ok_same [OF c1(2)]) (simp_all add: get_list_upd sectors_ok_def)
    show "sizes_ok ?c ?L" by (rule sizes_ok_same [OF c1(3)]) simp
    show "coll_inv (md ?c) ?B" using m(2) by simp
    have "line_ref ?c x = ?free"
      using line_ref_iff [of ?c x] othersD(3) [OF o] D(5) lv part by (simp add: ocf_lru_get_list_def)
    moreover have "x \<in> set (?L ?free)" by (simp add: moved_def Let_def)
    moreover have "\<not> in_table ?c ?B x" using line_hash_bucket(2) [OF inv1 h(2)] m(4) by (auto simp: in_table_def)
    ultimately show "line_ok ?c ?L ?B x" using lv part [of x] by (simp add: line_ok_def)
    show "counter_delta x c ?c" using lv v c1(6) by (simp add: counter_delta_def)
    show "\<And>y r. y \<noteq> x \<Longrightarrow> y \<in> set (L r) \<Longrightarrow> y \<in> set (?L r)" by (auto simp: moved_def Let_def in_set_remove1)
    show "\<And>y k. y \<noteq> x \<Longrightarrow> y \<in> set (?B k) \<longleftrightarrow> y \<in> set (B k)" by (auto simp: in_set_remove1)
  qed
  moreover have "ocf_metadata_remove_cache_line x c1 = Some ?c" using m(1) by (simp add: ocf_metadata_remove_cache_line_def)
  ultimately show ?thesis using c1 o part [of x] lv by auto
qed


lemma are_waiters_Some:
  "x < num_entries a \<Longrightarrow> \<exists>w. ocf_cache_line_are_waiters a x = Some w"
  by (simp add: ocf_cache_line_are_waiters_def ocf_alock_waitlist_is_empty_def bug_on_bind)

lemma set_line_invalid_ok:
  assumes inv: "cache_inv c L B" and x: "x \<in> lines c" "in_table c B x" and r: "range_ok c start stop"
    and d: "line_dirties c x \<inter> {unat start..unat stop} = {}"
  shows "\<exists>c' L' B' w. set_line_invalid start stop x (line_core c x) (line_part c x) c = Some c' \<and> cache_inv c' L' B' \<and>
    ocf_cache_line_are_waiters (c_alock c) x = Some w \<and> others x c c' \<and> c_alock c' = c_alock c \<and>
    line_valid c' x = line_valid c x - {unat start..unat stop} \<and>
    (if line_valid c' x = {} \<and> \<not> w then line_part c' x = PARTITION_FREELIST
     else line_part c' x = line_part c x \<and> line_core c' x = line_core c x \<and> line_addr c' x = line_addr c x \<and> line_dirties c' x = line_dirties c x)"
proof -
  let ?R = "{unat start..unat stop}" and ?k = "line_core c x" and ?p = "line_part c x"
  note D = cache_invD [OF inv] and l = line_okD [OF cache_invD(4) [OF inv x(1)]]
  note rr = range_okD [OF r D(5)]
  have sub: "secs (valid (line_status c x)) \<subseteq> {unat (sector_start (md c))..unat (sector_end (md c))}"
    using l(5) by (simp add: line_valid_def sectors_def)
  from clear_valid_parts [OF rr(1) D(5) [unfolded sectors_ok_def] sub] obtain s where
    s: "metadata_clear_valid_sec_changed (sector_start (md c)) (sector_end (md c)) (line_status c x) start stop =
        Some (line_valid c x \<noteq> {} \<and> line_valid c x - ?R = {}, line_valid c x - ?R \<noteq> {}, s)"
      "secs (valid s) = line_valid c x - ?R" "dirty s = dirty (line_status c x)"
    by (auto simp: line_valid_def)
  have p: "?p < OCF_USER_IO_CLASS_MAX" "\<not> ?k \<ge> OCF_CORE_MAX" using l(2,3,8) x(2) by auto
  define c1 where "c1 = (if line_valid c x \<noteq> {} \<and> line_valid c x - ?R = {} then upd_core ?k (\<lambda>rt. rt\<lparr>cached_clines := cached_clines rt - 1,
    part_cached := (part_cached rt)(?p := part_cached rt ?p - 1)\<rparr>) (set_status x s c) else set_status x s c)"
  have o: "others x c c1" unfolding c1_def others_def by (simp add: store_laws)
  have lv: "line_valid c1 x = line_valid c x - ?R" "line_dirties c1 x = line_dirties c x" "line_part c1 x = ?p" "line_core c1 x = ?k" "line_addr c1 x = line_addr c x"
    "c_alock c1 = c_alock c"
    using s(2,3) unfolding c1_def line_valid_def line_dirties_def by (simp_all add: store_laws)
  have "status_change x B c c1"
    unfolding status_change_def counter_delta_def lv othersD(2) [OF o]
    using o l D(3) d by (auto simp: c1_def store_laws)
  from status_change_ok(1) [OF inv x this] lv have inv1: "cache_inv c1 L B" by simp
  have x1: "x \<in> lines c1" "in_table c1 B x" using x o othersD(1) [OF o] by (simp_all add: in_table_def others_def)
  obtain w where w: "ocf_cache_line_are_waiters (c_alock c) x = Some w"
    using are_waiters_Some x(1) D(6) by (metis lines_def mem_Collect_eq)
  have run: "set_line_invalid start stop x ?k ?p c = (if line_valid c x - ?R \<noteq> {} \<or> w then Some c1
    else do { c \<leftarrow> ocf_lru_rm_cline x c1; ocf_metadata_remove_cache_line x c })"
    using p w s(1) lv(5) unfolding set_line_invalid_def c1_def by (simp add: add_cached_Some store_laws)
  show ?thesis
  proof (cases "line_valid c x - ?R \<noteq> {} \<or> w")
    case True
    with run have "set_line_invalid start stop x ?k ?p c = Some c1" by simp
    with inv1 w o lv True show ?thesis by (intro exI [of _ c1] exI [of _ L] exI [of _ B] exI [of _ w]) auto
  next
    case False
    with unmap_ok [OF inv1 x1] lv obtain c2 c' L' B' where
      u: "ocf_lru_rm_cline x c1 = Some c2" "ocf_metadata_remove_cache_line x c2 = Some c'" "cache_inv c' L' B'"
        "others x c1 c'" "line_part c' x = PARTITION_FREELIST" "line_valid c' x = {}" "c_alock c' = c_alock c1" by auto
    with run False have "set_line_invalid start stop x ?k ?p c = Some c'" by auto
    with u w False others_trans [OF o u(4)] lv show ?thesis
      by (intro exI [of _ c'] exI [of _ L'] exI [of _ B'] exI [of _ w]) auto
  qed
qed


text \<open>
  A line on its way from one core line to another: \<open>c\<close> is the cache before, in \<open>c2\<close> the line \<open>x\<close> is on
  a list of the partition \<open>dst\<close>, but not in the hash table and not counted.
\<close>

definition detached :: "u32 \<Rightarrow> u16 \<Rightarrow> 'w::len word ocf_cache \<Rightarrow> (list_ref \<Rightarrow> u32 list) \<Rightarrow> (u32 \<Rightarrow> u32 list) \<Rightarrow>
    'w word ocf_cache \<Rightarrow> (list_ref \<Rightarrow> u32 list) \<Rightarrow> (u32 \<Rightarrow> u32 list) \<Rightarrow> bool" where
  "detached x dst c L B c2 L' B' \<longleftrightarrow> others x c c2 \<and> lists_ok c2 L' \<and> sizes_ok c2 L' \<and> coll_inv (md c2) B' \<and>
     \<not> in_table c2 B' x \<and> line_part c2 x = dst \<and> line_valid c2 x = {} \<and> line_dirties c2 x = {} \<and>
     x \<in> set (L' (line_ref c2 x)) \<and> counter_delta x c c2 \<and>
     (\<forall>y r. y \<noteq> x \<longrightarrow> y \<in> set (L r) \<longrightarrow> y \<in> set (L' r)) \<and> (\<forall>y h. y \<noteq> x \<longrightarrow> (y \<in> set (B' h) \<longleftrightarrow> y \<in> set (B h)))"

lemma attach_ok:
  assumes inv: "cache_inv c L B" and x: "x \<in> lines c" and det: "detached x dst c L B c2 L' B'"
    and new: "dst < OCF_USER_IO_CLASS_MAX" "core < OCF_CORE_MAX" "h = ocf_metadata_hash_func (md c2) cl core"
      "(core, cl) \<notin> ocf_metadata_get_core_info (md c2) ` set (B' h)"
  shows "\<exists>c'. ocf_map_cache_line core cl h x c2 = Some c' \<and> cache_inv c' L' (B'(h := x # B' h)) \<and> others x c c' \<and>
    in_table c' (B'(h := x # B' h)) x \<and> line_part c' x = dst \<and> line_core c' x = core \<and> line_addr c' x = cl \<and>
    line_valid c' x = {} \<and> c_alock c' = c_alock c2"
proof -
  note D = cache_invD [OF inv]
  have o: "others x c c2" and ok: "lists_ok c2 L'" "sizes_ok c2 L'" "coll_inv (md c2) B'" and nt: "\<not> in_table c2 B' x"
    and lv: "line_part c2 x = dst" "line_valid c2 x = {}" "line_dirties c2 x = {}" and on: "x \<in> set (L' (line_ref c2 x))"
    and delta: "counter_delta x c c2" and mem: "\<And>y r. y \<noteq> x \<Longrightarrow> y \<in> set (L r) \<Longrightarrow> y \<in> set (L' r)"
      "\<And>y h. y \<noteq> x \<Longrightarrow> y \<in> set (B' h) \<longleftrightarrow> y \<in> set (B h)"
    using det unfolding detached_def by blast+
  let ?B = "B'(h := x # B' h)"
  have "x < collision_table_entries (md c2)" "\<forall>h < hash_table_entries (md c2). x \<notin> set (B' h)"
    using x nt othersD(1) [OF o] by (auto simp: lines_def in_table_def)
  from add_to_collision_inv [OF ok(3) this new(4) [unfolded new(3)] new(3)] obtain m where
    m: "ocf_metadata_add_to_collision core cl h x (md c2) = Some m" "coll_inv m ?B"
      "collision_table_entries m = collision_table_entries (md c2)" "hash_table_entries m = hash_table_entries (md c2)" by blast
  note mi = add_map_info [OF m(1)]
  let ?mid = "c2\<lparr>md := m\<rparr>" and ?c = "event (Cleaning_init x) (c2\<lparr>md := m\<rparr>)"
  have st: "line_status ?mid y = line_status c2 y" "line_core ?mid y = (if y = x then core else line_core c2 y)" "line_addr ?mid y = (if y = x then cl else line_addr c2 y)"
    "line_part ?mid y = line_part c2 y" for y
    using mi partition_id_cong [of m y "md c2"] unfolding line_view_md by (simp_all add: line_status_def line_core_def line_addr_def line_part_def)
  have o': "others x c ?mid" using o mi m st by (simp add: others_def)
  have lv': "line_valid ?mid x = {}" "line_dirties ?mid x = {}" using st(1) [of x] lv by (simp_all add: line_valid_def line_dirties_def)
  have "line_dirty ?mid = line_dirty c2" using mi by (auto simp: fun_eq_iff line_dirty_def metadata_test_dirty_def)
  then have ref: "line_ref ?mid = line_ref c2" using st(4) by (simp add: fun_eq_iff line_ref_def line_part_def)
  have tab: "in_table ?mid ?B x"
    using hash_func_less [of "md c2" cl core] ok(3) new(3) m(4) by (auto simp: in_table_def coll_inv_def intro!: exI [of _ h])
  have "cache_inv ?mid L' ?B"
  proof (rule cache_inv_step [OF inv x o'])
    show "lists_ok ?mid L'" using mi by (intro lists_ok_same [OF ok(1)]) (simp_all add: get_list_upd sectors_ok_def ref)
    show "sizes_ok ?mid L'" by (rule sizes_ok_same [OF ok(2)]) simp
    show "coll_inv (md ?mid) ?B" using m(2) by simp
    have "dst \<noteq> PARTITION_FREELIST" using new(1) by (auto simp: PARTITION_FREELIST_def OCF_USER_IO_CLASS_MAX_def)
    then show "line_ok ?mid L' ?B x" using lv' lv(1) st [of x] new(1,2) on tab by (simp add: line_ok_def ref)
    show "counter_delta x c ?mid" using delta unfolding counter_delta_def lv' lv(2,3) by simp
  qed (use mem in auto)
  then have "cache_inv ?c L' ?B" by simp
  moreover have "ocf_map_cache_line core cl h x c2 = Some ?c" using m(1) by (simp add: ocf_map_cache_line_def)
  moreover have "others x c ?c" using others_trans [OF o' others_md, of ?c] by (simp add: store_laws)
  moreover have "core_line (map_info (md ?c) x) = cl" "in_table ?c ?B x" using mi tab by (simp_all add: store_laws in_table_def)
  ultimately show ?thesis using lv(1) st [of x] lv'(1)
    by (intro exI [of _ ?c]) (simp add: store_laws line_valid_def)
qed

section \<open>Eviction\<close>

text \<open>
  How \<open>lru_iter_eviction_next\<close> takes a line from the partition \<open>part\<close> for the partition \<open>dst\<close>.
\<close>

definition lru_take :: "u32 \<Rightarrow> u16 \<Rightarrow> u16 \<Rightarrow> list_ref \<Rightarrow> 'w::len word ocf_cache \<Rightarrow> 'w word ocf_cache option" where
  "lru_take line part dst r c = (if dst \<noteq> part then ocf_lru_repart_locked line part dst c else on_list ocf_lru_set_hot r line c)"

lemma set_partition_id_same: "ocf_metadata_set_partition_id x (ocf_metadata_get_partition_id m x) m = m"
proof -
  have "ucast (ucast (partition_id (list_info m x)) :: u16) = partition_id (list_info m x)"
    by (simp add: word_unat_eq_iff unsigned_ucast_eq unsigned_take_bit_eq take_bit_nat_eq_self order_less_le_trans [OF unsigned_less])
  then show ?thesis by (simp add: ocf_metadata_set_partition_id_def ocf_metadata_get_partition_id_def)
qed

lemma take_ok:
  assumes inv: "cache_inv c L B" and x: "x \<in> lines c" and dst: "part_ok dst"
  shows "\<exists>c1 L'. lru_take x (line_part c x) dst (line_ref c x) c = Some c1 \<and> lists_ok c1 L' \<and> sizes_ok c1 L' \<and>
    md c1 = ocf_metadata_set_partition_id x dst (md c) \<and> c_alock c1 = c_alock c \<and> core_rt c1 = core_rt c \<and>
    x \<in> set (L' (ocf_lru_get_list dst (x mod OCF_NUM_LRU_LISTS) (\<not> line_dirty c x))) \<and>
    (\<forall>y r. y \<noteq> x \<longrightarrow> y \<in> set (L r) \<longrightarrow> y \<in> set (L' r))"
proof -
  note D = cache_invD [OF inv] and l = line_okD [OF cache_invD(4) [OF inv x]]
  have p: "part_ok (line_part c x)" using l(2) by (simp add: part_ok_def)
  show ?thesis
  proof (cases "dst = line_part c x")
    case True
    let ?r = "line_ref c x" and ?L = "L(line_ref c x := x # remove1 x (L (line_ref c x)))"
    have r: "ref_ok ?r" using p by (simp add: line_ref_def line_part_def)
    from set_hot_ok [OF D(1) r l(1)] obtain c1 where
      c1: "on_list ocf_lru_set_hot ?r x c = Some c1" "lists_ok c1 ?L" "md c1 = md c" "c_alock c1 = c_alock c" "core_rt c1 = core_rt c"
        "\<forall>p. curr_size (part_rt c1 p) = curr_size (part_rt c p)" by blast
    have "length (x # remove1 x (L ?r)) = length (L ?r)"
      using length_pos_if_in_set [OF l(1)] l(1) by (simp only: list.size length_remove1) simp
    then have "part_size ?L q = part_size L q" for q
      using part_size_upd [OF r, of L "x # remove1 x (L ?r)" q] by (cases "fst ?r = q") simp_all
    then have "sizes_ok c1 ?L" using D(2) c1(6) by (simp add: sizes_ok_def)
    moreover have "md c1 = ocf_metadata_set_partition_id x dst (md c)"
      using True c1(3) set_partition_id_same [of x "md c"] by (simp add: line_part_def)
    moreover have "ocf_lru_get_list dst (x mod OCF_NUM_LRU_LISTS) (\<not> line_dirty c x) = ?r"
      using True by (simp add: line_ref_def line_part_def)
    ultimately show ?thesis using c1 True by (intro exI [of _ c1] exI [of _ ?L]) (auto simp: lru_take_def in_set_remove1)
  next
    case False
    let ?dst = "ocf_lru_get_list dst (x mod OCF_NUM_LRU_LISTS) (\<not> line_dirty c x)"
    from repart_ok [OF D(1,2) refl p [unfolded line_part_def] dst l(1)] obtain c1 where
      c1: "ocf_lru_repart x (line_part c x) dst c = Some c1" "lists_ok c1 (moved x (line_ref c x) ?dst L)"
        "sizes_ok c1 (moved x (line_ref c x) ?dst L)" "md c1 = ocf_metadata_set_partition_id x dst (md c)"
        "c_alock c1 = c_alock c" "core_rt c1 = core_rt c"
      by (auto simp: line_part_def)
    with False show ?thesis
      by (intro exI [of _ c1] exI [of _ "moved x (line_ref c x) ?dst L"])
        (auto simp: lru_take_def ocf_lru_repart_def moved_def Let_def in_set_remove1)
  qed
qed

lemma bit_clear_all:
  assumes "sectors_ok c" "sector_start (md c) = 0" "line_valid c x \<subseteq> sectors c"
  shows "bit_clear valid set_valid_bits (line_status c x) 0 (sector_end (md c)) = Some (False, set_valid_bits 0 (line_status c x))"
proof -
  from valid_field.bit_ops_secs(4) [OF assms(1) [unfolded sectors_ok_def assms(2)] refl, of "line_status c x"] obtain v where
    v: "bit_clear valid set_valid_bits (line_status c x) 0 (sector_end (md c)) = Some (v \<noteq> 0, set_valid_bits v (line_status c x))"
      "secs v = secs (valid (line_status c x)) - {unat (0 :: u8)..unat (sector_end (md c))}" by blast
  have "v = 0" using v(2) assms(2,3) by (auto simp: zero_iff line_valid_def sectors_def)
  with v(1) show ?thesis by simp
qed

text \<open>A free line is given to a partition and entered in the hash table.\<close>

lemma map_ok:
  assumes inv: "cache_inv c L B" and x: "x \<in> lines c" "line_part c x = PARTITION_FREELIST"
    and new: "part < OCF_USER_IO_CLASS_MAX" "core < OCF_CORE_MAX" "h = ocf_metadata_hash_func (md c) cl core"
      "(core, cl) \<notin> ocf_metadata_get_core_info (md c) ` set (B h)"
  shows "\<exists>c1 c' L' B'. ocf_lru_repart_locked x PARTITION_FREELIST part c = Some c1 \<and> ocf_map_cache_line core cl h x c1 = Some c' \<and>
    cache_inv c' L' B' \<and> others x c c' \<and> in_table c' B' x \<and> line_part c' x = part \<and> line_core c' x = core \<and>
    line_addr c' x = cl \<and> line_valid c' x = {} \<and> c_alock c' = c_alock c"
proof -
  note D = cache_invD [OF inv] and l = line_okD [OF cache_invD(4) [OF inv x(1)]]
  have nt: "\<not> in_table c B x" using l(3) x(2) by simp
  have v: "line_valid c x = {}" "line_dirties c x = {}" using l(4) l(6) [OF nt] by simp_all
  have pl: "part_ok part" "part \<noteq> PARTITION_FREELIST"
    using new(1) by (auto simp: part_ok_def PARTITION_FREELIST_def OCF_USER_IO_CLASS_MAX_def)
  from take_ok [OF inv x(1) pl(1)] x(2) pl(2) obtain c1 L' where
    c1: "ocf_lru_repart_locked x PARTITION_FREELIST part c = Some c1" "lists_ok c1 L'" "sizes_ok c1 L'"
      "md c1 = ocf_metadata_set_partition_id x part (md c)" "c_alock c1 = c_alock c" "core_rt c1 = core_rt c"
      "x \<in> set (L' (ocf_lru_get_list part (x mod OCF_NUM_LRU_LISTS) (\<not> line_dirty c x)))"
      "\<forall>y r. y \<noteq> x \<longrightarrow> y \<in> set (L r) \<longrightarrow> y \<in> set (L' r)" by (auto simp: lru_take_def)
  have st: "line_status c1 y = line_status c y" "line_core c1 y = line_core c y" "line_addr c1 y = line_addr c y" "line_part c1 y = (if y = x then part else line_part c y)" for y
    using partition_id_roundtrip [OF pl(1), of x "md c" y] by (simp_all add: c1(4) line_status_def line_core_def line_addr_def line_part_def store_laws)
  have d: "line_dirty c1 x = line_dirty c x" by (simp add: line_dirty_def metadata_test_dirty_def c1(4) store_laws)
  have "detached x part c L B c1 L' B"
    unfolding detached_def
    using c1 st D(3) nt v d by (simp add: others_def store_laws in_table_def line_valid_def line_dirties_def counter_delta_def line_ref_def line_part_def)
  moreover have "h = ocf_metadata_hash_func (md c1) cl core" "(core, cl) \<notin> ocf_metadata_get_core_info (md c1) ` set (B h)"
    using new(3,4) by (simp_all add: c1(4) ocf_metadata_hash_func_def store_laws ocf_metadata_get_core_info_def image_iff)
  ultimately show ?thesis using attach_ok [OF inv x(1) _ new(1,2)] c1(1,5) by metis
qed


text \<open>
  A clean line is taken from its partition, invalidated and mapped to another core line. Between the
  steps the counters and the hash table do not agree with the lists; afterwards all is in order.
\<close>

lemma evict_detach:
  assumes inv: "cache_inv c L B" and x: "x \<in> lines c" "in_table c B x" "line_dirties c x = {}" "line_valid c x \<noteq> {}"
    and s0: "sector_start (md c) = 0" and dst: "dst < OCF_USER_IO_CLASS_MAX"
  shows "\<exists>c1 c2 L' B'. lru_take x (line_part c x) dst (line_ref c x) c = Some c1 \<and>
    ocf_lru_invalidate x (line_core c x) (line_part c x) c1 = Some c2 \<and> detached x dst c L B c2 L' B' \<and> c_alock c2 = c_alock c \<and>
    ocf_metadata_hash_func (md c2) = ocf_metadata_hash_func (md c) \<and>
    (\<forall>y. y \<noteq> x \<longrightarrow> ocf_metadata_get_core_info (md c2) y = ocf_metadata_get_core_info (md c) y)"
proof -
  note D = cache_invD [OF inv] and l = line_okD [OF cache_invD(4) [OF inv x(1)]]
  let ?k = "line_core c x" and ?p = "line_part c x"
  have p: "?p < OCF_USER_IO_CLASS_MAX" using l(2,3) x(2) by blast
  have pl: "part_ok dst" using dst by (simp add: part_ok_def)
  from take_ok [OF inv x(1) pl] obtain c1 L' where
    c1: "lru_take x ?p dst (line_ref c x) c = Some c1" "lists_ok c1 L'" "sizes_ok c1 L'"
      "md c1 = ocf_metadata_set_partition_id x dst (md c)" "c_alock c1 = c_alock c" "core_rt c1 = core_rt c"
      "x \<in> set (L' (ocf_lru_get_list dst (x mod OCF_NUM_LRU_LISTS) (\<not> line_dirty c x)))"
      "\<forall>y r. y \<noteq> x \<longrightarrow> y \<in> set (L r) \<longrightarrow> y \<in> set (L' r)" by blast
  let ?s = "set_valid_bits 0 (line_status c x)" and ?mid = "set_status x (set_valid_bits 0 (line_status c x)) c1"
  have st1: "line_status c1 y = line_status c y" "sectors c1 = sectors c" "sectors_ok c1" for y
    using D(5) by (simp_all add: line_status_def sectors_def sectors_ok_def c1(4) store_laws)
  have clr: "bit_clear valid set_valid_bits (line_status c1 x) 0 (sector_end (md c1)) = Some (False, ?s)"
    using bit_clear_all [OF st1(3), of x] s0 l(5) st1 by (simp add: c1(4) store_laws line_valid_def)
  obtain g where g: "g < hash_table_entries (md c)" "x \<in> set (B g)" using x(2) by (auto simp: in_table_def)
  have inv1: "coll_inv (md ?mid) B" "g < hash_table_entries (md ?mid)" using D(3) g by (simp_all add: store_laws c1(4))
  let ?B = "B(g := remove1 x (B g))"
  from remove_from_collision_inv [OF inv1 g(2)] obtain m where
    m: "ocf_metadata_remove_from_collision x (md ?mid) = Some m" "coll_inv m ?B"
      "collision_table_entries m = collision_table_entries (md ?mid)" "hash_table_entries m = hash_table_entries (md ?mid)" by blast
  note mi = remove_map_info [OF m(1)]
  define c2 where "c2 = upd_core ?k (\<lambda>rt. rt\<lparr>cached_clines := cached_clines rt - 1,
    part_cached := (part_cached rt)(?p := part_cached rt ?p - 1)\<rparr>) (?mid\<lparr>md := m\<rparr>)"
  have run2: "ocf_lru_invalidate x ?k ?p c1 = Some c2"
    using clr m(1) p by (simp add: ocf_lru_invalidate_def add_cached_Some c2_def)
  have md2: "md c2 = m" by (simp add: c2_def store_laws)
  have mm: "map_info m y = (if y = x then (map_info (md c) x)\<lparr>core_id := OCF_CORE_MAX, core_line := - 1, status_word := ?s\<rparr> else map_info (md c) y)" for y
    using mi by (simp add: set_status_def c1(4) store_laws)
  have st: "line_status c2 y = (if y = x then ?s else line_status c y)" "y \<noteq> x \<Longrightarrow> line_core c2 y = line_core c y" "y \<noteq> x \<Longrightarrow> line_addr c2 y = line_addr c y"
    "line_part c2 y = (if y = x then dst else line_part c y)" for y
    using partition_id_roundtrip [OF pl, of x "md c" y] mi
    by (simp_all add: line_status_def line_core_def line_addr_def line_part_def md2 mm ocf_metadata_get_partition_id_def set_status_def c1(4) store_laws)
  have o: "others x c c2" using st mi m c1(5) by (simp add: others_def md2 c2_def store_laws c1(4))
  have lv: "line_valid c2 x = {}" "line_dirties c2 x = {}"
    using st(1) [of x] x(3) by (simp_all add: line_valid_def line_dirties_def store_laws secs_0)
  have ref: "line_ref c2 = line_ref c1"
  proof
    fix y
    have "sector_start m = sector_start (md c1)" "sector_end m = sector_end (md c1)"
      and pid: "partition_id (list_info m y) = partition_id (list_info (md c1) y)"
      using mi by (simp_all add: store_laws) (simp add: set_status_def)
    moreover have "dirty (status_word (map_info m y)) = dirty (status_word (map_info (md c1) y))"
      by (simp add: mm c1(4) store_laws line_status_def)
    ultimately have "line_dirty c2 y = line_dirty c1 y"
      by (simp add: line_dirty_def metadata_test_dirty_def md2 bit_test_def)
    then show "line_ref c2 y = line_ref c1 y"
      using pid by (simp add: line_ref_def md2 ocf_metadata_get_partition_id_def)
  qed
  have "line_ref c1 x = ocf_lru_get_list dst (x mod OCF_NUM_LRU_LISTS) (\<not> line_dirty c x)"
    using partition_id_roundtrip [OF pl, of x "md c" x] by (simp add: line_ref_def line_dirty_def metadata_test_dirty_def c1(4) store_laws)
  then have on: "x \<in> set (L' (line_ref c2 x))" using c1(7) by (simp add: ref)
  have "detached x dst c L B c2 L' ?B"
    unfolding detached_def
  proof (intro conjI)
    show "others x c c2" "line_valid c2 x = {}" "line_dirties c2 x = {}" "x \<in> set (L' (line_ref c2 x))"
      "\<forall>y r. y \<noteq> x \<longrightarrow> y \<in> set (L r) \<longrightarrow> y \<in> set (L' r)" by fact+
    show "lists_ok c2 L'" using ref othersD(3) [OF o] st1(3) D(5)
      by (intro lists_ok_same [OF c1(2)]) (simp_all add: c2_def store_laws get_list_upd)
    show "sizes_ok c2 L'" by (rule sizes_ok_same [OF c1(3)]) (simp add: c2_def store_laws)
    show "coll_inv (md c2) ?B" using m(2) md2 by simp
    show "\<not> in_table c2 ?B x" using line_hash_bucket(2) [OF inv1 g(2)] m(4) by (auto simp: in_table_def md2)
    show "line_part c2 x = dst" using st(4) by simp
    show "counter_delta x c c2" unfolding counter_delta_def lv x(3) using x(4) by (simp add: c2_def store_laws c1(6))
    show "\<forall>y h. y \<noteq> x \<longrightarrow> (y \<in> set (?B h) \<longleftrightarrow> y \<in> set (B h))" by (auto simp: in_set_remove1)
  qed
  moreover have "c_alock c2 = c_alock c" "ocf_metadata_hash_func (md c2) = ocf_metadata_hash_func (md c)"
    using m(4) by (simp_all add: c2_def store_laws c1(4,5) fun_eq_iff ocf_metadata_hash_func_def)
  moreover have "\<forall>y. y \<noteq> x \<longrightarrow> ocf_metadata_get_core_info (md c2) y = ocf_metadata_get_core_info (md c) y"
    by (simp add: ocf_metadata_get_core_info_def md2 mm)
  ultimately show ?thesis using c1(1) run2 by blast
qed

lemma evict_ok:
  assumes inv: "cache_inv c L B" and x: "x \<in> lines c" "in_table c B x" "line_dirties c x = {}" "line_valid c x \<noteq> {}"
    and s0: "sector_start (md c) = 0" and new: "dst < OCF_USER_IO_CLASS_MAX" "core < OCF_CORE_MAX"
      "h = ocf_metadata_hash_func (md c) cl core" "(core, cl) \<notin> ocf_metadata_get_core_info (md c) ` set (B h)"
  shows "\<exists>c1 c2 c' L' B'. lru_take x (line_part c x) dst (line_ref c x) c = Some c1 \<and>
    ocf_lru_invalidate x (line_core c x) (line_part c x) c1 = Some c2 \<and> ocf_map_cache_line core cl h x c2 = Some c' \<and>
    cache_inv c' L' B' \<and> others x c c' \<and> in_table c' B' x \<and> line_part c' x = dst \<and> line_core c' x = core \<and>
    line_addr c' x = cl \<and> line_valid c' x = {} \<and> c_alock c' = c_alock c"
proof -
  from evict_detach [OF inv x s0 new(1)] obtain c1 c2 L' B' where
    e: "lru_take x (line_part c x) dst (line_ref c x) c = Some c1" "ocf_lru_invalidate x (line_core c x) (line_part c x) c1 = Some c2"
      "detached x dst c L B c2 L' B'" "c_alock c2 = c_alock c" "ocf_metadata_hash_func (md c2) = ocf_metadata_hash_func (md c)"
      "\<And>y. y \<noteq> x \<Longrightarrow> ocf_metadata_get_core_info (md c2) y = ocf_metadata_get_core_info (md c) y" by blast
  have mem: "y \<noteq> x \<Longrightarrow> y \<in> set (B' h) \<longleftrightarrow> y \<in> set (B h)" "\<not> in_table c2 B' x" "others x c c2" "coll_inv (md c2) B'" for y h
    using e(3) unfolding detached_def by blast+
  have hl: "h < hash_table_entries (md c2)"
    using hash_func_less [of "md c2" cl core] mem(4) new(3) e(5) by (simp add: coll_inv_def)
  have "(core, cl) \<notin> ocf_metadata_get_core_info (md c2) ` set (B' h)"
  proof
    assume "(core, cl) \<in> ocf_metadata_get_core_info (md c2) ` set (B' h)"
    then obtain y where y: "y \<in> set (B' h)" "ocf_metadata_get_core_info (md c2) y = (core, cl)" by auto
    moreover have "y \<noteq> x" using y(1) mem(2) hl by (auto simp: in_table_def)
    ultimately show False using new(4) mem(1) e(6) by (metis image_eqI)
  qed
  with attach_ok [OF inv x(1) e(3) new(1,2), of h cl] new(3) e show ?thesis by metis
qed


section \<open>A fresh cache\<close>

text \<open>The metadata as \<open>ocf_metadata_init_collision\<close> and \<open>_hash_table\<close> leave it, before the partitions are set up.\<close>

definition fresh_metadata :: "'w::len word ocf_cache \<Rightarrow> bool" where
  "fresh_metadata c \<longleftrightarrow> sectors_ok c \<and> (layout (md c) = Layout_striping \<longrightarrow> geometry_ok (md c)) \<and> 0 < hash_table_entries (md c) \<and>
     (\<forall>h < hash_table_entries (md c). hash_tbl (md c) h = collision_table_entries (md c)) \<and>
     (\<forall>x \<in> lines c. line_valid c x = {} \<and> line_dirties c x = {} \<and> line_core c x = OCF_CORE_MAX) \<and>
     (\<forall>k. core_rt c k = \<lparr>cached_clines = 0, dirty_clines = 0, dirty_since = 0, part_cached = \<lambda>_. 0, part_dirty = \<lambda>_. 0\<rparr>) \<and>
     num_entries (c_alock c) = collision_table_entries (md c)"

lemma fresh_lines_phy:
  assumes "layout m = Layout_striping \<longrightarrow> geometry_ok m"
  defines "xs \<equiv> map (\<lambda>i. ocf_metadata_map_phy2lg m (of_nat i)) [0..<unat (collision_table_entries m)]"
  shows "distinct xs" "set xs = {x. x < collision_table_entries m}"
proof -
  let ?n = "collision_table_entries m"
  have u: "unat (of_nat i :: u32) = i" if "i < unat ?n" for i
    using that unsigned_less [of ?n, where 'a = nat] by (simp add: unsigned_of_nat take_bit_nat_eq_self)
  have "inj_on (\<lambda>i. ocf_metadata_map_phy2lg m (of_nat i)) {0..<unat ?n}"
  proof (rule inj_onI)
    fix i j assume i: "i \<in> {0..<unat ?n}" and j: "j \<in> {0..<unat ?n}" and e: "ocf_metadata_map_phy2lg m (of_nat i) = ocf_metadata_map_phy2lg m (of_nat j)"
    have "(of_nat i :: u32) < ?n" "(of_nat j :: u32) < ?n" using i j u by (simp_all add: word_less_nat_alt)
    then have "(of_nat i :: u32) = of_nat j" using map_inverse [OF assms(1)] e by metis
    then show "i = j" using u i j by (metis atLeastLessThan_iff)
  qed
  then show "distinct xs" by (simp add: xs_def distinct_map)
  show "set xs = {x. x < ?n}"
  proof (intro equalityI subsetI)
    fix x assume "x \<in> {x. x < ?n}"
    then have "x = ocf_metadata_map_phy2lg m (ocf_metadata_map_lg2phy m x)" "ocf_metadata_map_lg2phy m x < ?n"
      using map_inverse [OF assms(1), of x] by simp_all
    then show "x \<in> set xs"
      unfolding xs_def by (auto simp: word_less_nat_alt intro!: image_eqI [of _ _ "unat (ocf_metadata_map_lg2phy m x)"])
  next
    fix x assume "x \<in> set xs"
    then obtain i where i: "i < unat ?n" "x = ocf_metadata_map_phy2lg m (of_nat i)" by (auto simp: xs_def)
    then have "(of_nat i :: u32) < ?n" using u by (simp add: word_less_nat_alt)
    then show "x \<in> {x. x < ?n}" using map_inverse [OF assms(1), of "of_nat i"] i(2) by simp
  qed
qed

lemma line_invalid_iff:
  "sectors_ok c \<Longrightarrow> line_valid c x = {} \<Longrightarrow> line_invalid c x"
  using valid_field.bit_ops_secs(2) [OF _ refl, of "sector_start (md c)" "sector_end (md c)" "status_word (map_info (md c) x)"]
  by (simp add: sectors_ok_def line_invalid_def metadata_test_valid_any_def line_valid_def line_status_def)

lemma coll_inv_fold_partition: "coll_inv (fold (\<lambda>x. ocf_metadata_set_partition_id x p) xs m) B = coll_inv m B"
  by (induction xs arbitrary: m) (simp_all add: store_laws)

lemma coll_inv_empty:
  "0 < hash_table_entries m \<Longrightarrow> \<forall>h < hash_table_entries m. hash_tbl m h = collision_table_entries m \<Longrightarrow> coll_inv m (\<lambda>_. [])"
  by (simp add: coll_inv_def hd_or_def)

lemma fresh_cache_ok:
  assumes f: "fresh_metadata c"
  shows "\<exists>c' L. ocf_lru_populate (collision_table_entries (md c)) (init_parts_attached c) = Some c' \<and> cache_inv c' L (\<lambda>_. []) \<and>
    lines c' = lines c \<and> (\<forall>x \<in> lines c'. line_part c' x = PARTITION_FREELIST)"
proof -
  let ?c = "init_parts_attached c" and ?n = "collision_table_entries (md c)"
  have s: "sectors_ok c" and geo: "layout (md c) = Layout_striping \<longrightarrow> geometry_ok (md c)" using f by (simp_all add: fresh_metadata_def)
  note i = init_parts_ok [OF s]
  note ph = fresh_lines_phy [OF geo]
  have inv: "line_invalid ?c x" if "x < ?n" for x
  proof -
    have "line_invalid c x" using f that s by (intro line_invalid_iff) (simp_all add: fresh_metadata_def lines_def)
    then show ?thesis by (simp add: line_invalid_def metadata_test_valid_any_def i(3))
  qed
  define xs where "xs = map (\<lambda>i. ocf_metadata_map_phy2lg (md c) (of_nat i)) [0..<unat ?n]"
  have xs: "distinct xs" "set xs = {x. x < ?n}" using ph by (simp_all add: xs_def)
  have all: "invalid_from ?c 0 = [0..<unat ?n]"
    unfolding invalid_from_def i(3)
  proof (rule filter_True, rule ballI)
    fix j assume "j \<in> set [0..<unat ?n]"
    then have "ocf_metadata_map_phy2lg (md c) (of_nat j) \<in> set xs" by (auto simp: xs_def)
    then show "line_invalid ?c (ocf_metadata_map_phy2lg (md c) (of_nat j))" using xs(2) inv by simp
  qed
  let ?L = "fold pushed xs (\<lambda>_. [])"
  have "\<exists>c'. ocf_lru_populate ?n ?c = Some c' \<and> lists_ok c' ?L \<and> sizes_ok c' ?L \<and>
    md c' = fold (\<lambda>x. ocf_metadata_set_partition_id x PARTITION_FREELIST) xs (md ?c) \<and> c_alock c' = c_alock ?c \<and> core_rt c' = core_rt ?c"
  proof (rule populate_ok [OF i(1,2)])
    show "part_size (\<lambda>_. []) PARTITION_FREELIST = 0" by (simp add: part_size_def)
    show "xs = map (\<lambda>i. ocf_metadata_map_phy2lg (md ?c) (of_nat i)) (invalid_from ?c 0)" unfolding all by (simp add: xs_def i(3))
    show "end_marker \<notin> set xs" unfolding xs(2) by (simp add: end_marker_def word_less_nat_alt not_less)
        (metis leI not_le unsigned_greater_eq word_n1_ge word_le_nat_alt)
    show "unat ?n = length xs" by (simp add: xs_def)
  qed (use xs in simp_all)
  then obtain c' where c': "ocf_lru_populate ?n ?c = Some c'" "lists_ok c' ?L" "sizes_ok c' ?L"
    "md c' = fold (\<lambda>x. ocf_metadata_set_partition_id x PARTITION_FREELIST) xs (md c)" "c_alock c' = c_alock c" "core_rt c' = core_rt c"
    by (auto simp: i)
  have st: "lines c' = lines c" "line_status c' x = line_status c x" "line_core c' x = line_core c x"
    "x \<in> lines c \<Longrightarrow> line_part c' x = PARTITION_FREELIST" for x
    using xs(2) by (simp_all add: lines_def line_status_def line_core_def line_addr_def line_part_def c'(4) fold_set_partition fold_set_partition_id)
  have vd: "line_valid c' x = {}" "line_dirties c' x = {}" "line_core c' x = OCF_CORE_MAX" if "x \<in> lines c" for x
    using f that by (simp_all add: fresh_metadata_def line_valid_def line_dirties_def st)
  have "cache_inv c' ?L (\<lambda>_. [])"
    unfolding cache_inv_def
  proof (intro conjI ballI)
    show "lists_ok c' ?L" "sizes_ok c' ?L" by fact+
    show "coll_inv (md c') (\<lambda>_. [])"
      using f unfolding c'(4) coll_inv_fold_partition fresh_metadata_def by (intro coll_inv_empty) blast+
    have "count_lines c' (\<lambda>x. P x \<and> line_valid c' x \<noteq> {}) = 0" "count_lines c' (\<lambda>x. P x \<and> line_dirties c' x \<noteq> {}) = 0" for P
      using vd by (auto simp: count_lines_def st(1))
    from this [of "\<lambda>x. line_core c' x = k" for k] this [of "\<lambda>x. line_core c' x = k \<and> line_part c' x = p" for k p]
    show "counters_ok c'" using f by (simp add: counters_ok_def c'(6) fresh_metadata_def)
    show "num_entries (c_alock c') = collision_table_entries (md c')"
      using f by (simp add: c'(4,5) fold_set_partition fresh_metadata_def)
    fix x assume "x \<in> lines c'"
    then have x: "x \<in> lines c" "x \<in> set xs" using xs(2) by (simp_all add: st(1)) (simp add: lines_def)
    have "sectors_ok c'" using c'(2) by (simp add: lists_ok_def)
    then have "line_ref c' x = free_ref x"
      using line_ref_iff [of c' x] vd(2) [OF x(1)] st(4) [OF x(1)] by simp
    then show "line_ok c' ?L (\<lambda>_. []) x"
      using vd [OF x(1)] st(4) [OF x(1)] x(2) by (simp add: line_ok_def set_fold_pushed in_table_def)
  qed
  with c'(1) st show ?thesis by blast
qed


section \<open>Runs of the cache\<close>

text \<open>
  The operations on a line, with the calls in the order in which the engine makes them: a free line is
  taken for a core line and mapped; a clean line is taken from its partition, invalidated and mapped
  anew; sectors of a mapped line become valid, dirty, clean or invalid; a line is touched.
\<close>

datatype line_op =
    Set_valid u32 u8 u8
  | Set_dirty u64 u32 u8 u8
  | Set_clean u32 u8 u8
  | Set_invalid u32 u8 u8
  | Map_free u32 u16 u16 u64
  | Evict u32 u16 u16 u64
  | Touch u32

fun exec :: "line_op \<Rightarrow> 'w::len word ocf_cache \<Rightarrow> 'w word ocf_cache option" where
  "exec (Set_valid x start stop) c = set_cache_line_valid start stop (line_core c x) x c"
| "exec (Set_dirty now x start stop) c = set_cache_line_dirty now start stop (line_core c x) x c"
| "exec (Set_clean x start stop) c = set_cache_line_clean start stop (line_core c x) x c"
| "exec (Set_invalid x start stop) c = set_cache_line_invalid start stop (line_core c x) x c"
| "exec (Map_free x part core cl) c = do {
     c1 \<leftarrow> ocf_lru_repart_locked x PARTITION_FREELIST part c;
     ocf_map_cache_line core cl (ocf_metadata_hash_func (md c) cl core) x c1
   }"
| "exec (Evict x dst core cl) c = do {
     c1 \<leftarrow> lru_take x (line_part c x) dst (line_ref c x) c;
     c2 \<leftarrow> ocf_lru_invalidate x (line_core c x) (line_part c x) c1;
     ocf_map_cache_line core cl (ocf_metadata_hash_func (md c) cl core) x c2
   }"
| "exec (Touch x) c = ocf_lru_hot_cline x c"

text \<open>The line caches a core line.\<close>

definition mapped :: "'b ocf_cache \<Rightarrow> u32 \<Rightarrow> bool" where
  "mapped c x \<longleftrightarrow> x \<in> lines c \<and> line_part c x \<noteq> PARTITION_FREELIST"

definition not_cached :: "'b ocf_cache \<Rightarrow> u16 \<Rightarrow> u64 \<Rightarrow> bool" where
  "not_cached c core cl \<longleftrightarrow> (\<forall>y. mapped c y \<longrightarrow> ocf_metadata_get_core_info (md c) y \<noteq> (core, cl))"

text \<open>
  What the callers of the operations ensure. A sector is made dirty only when it is valid, and
  invalid only when it is clean; a core line is mapped after a lookup that has missed.
\<close>

fun op_ok :: "line_op \<Rightarrow> 'w::len word ocf_cache \<Rightarrow> bool" where
  "op_ok (Set_valid x start stop) c \<longleftrightarrow> mapped c x \<and> range_ok c start stop"
| "op_ok (Set_dirty now x start stop) c \<longleftrightarrow> mapped c x \<and> range_ok c start stop \<and> {unat start..unat stop} \<subseteq> line_valid c x"
| "op_ok (Set_clean x start stop) c \<longleftrightarrow> mapped c x \<and> range_ok c start stop"
| "op_ok (Set_invalid x start stop) c \<longleftrightarrow> mapped c x \<and> range_ok c start stop \<and> line_dirties c x \<inter> {unat start..unat stop} = {}"
| "op_ok (Map_free x part core cl) c \<longleftrightarrow> x \<in> lines c \<and> line_part c x = PARTITION_FREELIST \<and> part < OCF_USER_IO_CLASS_MAX \<and>
     core < OCF_CORE_MAX \<and> not_cached c core cl"
| "op_ok (Evict x dst core cl) c \<longleftrightarrow> mapped c x \<and> line_dirties c x = {} \<and> line_valid c x \<noteq> {} \<and> sector_start (md c) = 0 \<and>
     dst < OCF_USER_IO_CLASS_MAX \<and> core < OCF_CORE_MAX \<and> not_cached c core cl"
| "op_ok (Touch x) c \<longleftrightarrow> mapped c x"

text \<open>
  A cache starts with fresh metadata whose lines are put on the free list. Between the operations the
  cache line locks may change in any way.
\<close>

inductive cache_reach :: "'w::len word ocf_cache \<Rightarrow> bool" where
  Start: "fresh_metadata c \<Longrightarrow> ocf_lru_populate (collision_table_entries (md c)) (init_parts_attached c) = Some c' \<Longrightarrow> cache_reach c'"
| Step: "cache_reach c \<Longrightarrow> op_ok op c \<Longrightarrow> exec op c = Some c' \<Longrightarrow> cache_reach c'"
| Locks: "cache_reach c \<Longrightarrow> num_entries a = num_entries (c_alock c) \<Longrightarrow> cache_reach (c\<lparr>c_alock := a\<rparr>)"

lemma cache_inv_alock:
  "num_entries a = num_entries (c_alock c) \<Longrightarrow> cache_inv (c\<lparr>c_alock := a\<rparr>) L B = cache_inv c L B"
proof -
  assume a: "num_entries a = num_entries (c_alock c)"
  let ?c = "c\<lparr>c_alock := a\<rparr>"
  have "line_ref ?c = line_ref c" "lines ?c = lines c" "line_valid ?c = line_valid c"
    "line_dirties ?c = line_dirties c" "line_part ?c = line_part c" "line_core ?c = line_core c"
    "in_table ?c = in_table c" "sectors ?c = sectors c" "sectors_ok ?c = sectors_ok c"
    by (simp_all add: fun_eq_iff line_ref_def line_dirty_def metadata_test_dirty_def lines_def line_valid_def line_dirties_def
        in_table_def sectors_def sectors_ok_def line_status_def line_part_def line_core_def)
  with a show ?thesis
    by (simp add: cache_inv_def lists_ok_def sizes_ok_def line_ok_def counters_ok_def count_lines_def get_list_upd)
qed

lemma mappedD:
  assumes "cache_inv c L B" "mapped c x"
  shows "x \<in> lines c" "in_table c B x"
  using assms line_okD(3) [OF cache_invD(4) [OF assms(1)], of x] by (auto simp: mapped_def)

lemma not_cachedD:
  assumes inv: "cache_inv c L B" and n: "not_cached c core cl"
  shows "(core, cl) \<notin> ocf_metadata_get_core_info (md c) ` set (B (ocf_metadata_hash_func (md c) cl core))"
proof
  let ?h = "ocf_metadata_hash_func (md c) cl core"
  note D = cache_invD [OF inv]
  have h: "?h < hash_table_entries (md c)" using D(3) by (simp add: coll_inv_def hash_func_less)
  assume "(core, cl) \<in> ocf_metadata_get_core_info (md c) ` set (B ?h)"
  then obtain y where y: "y \<in> set (B ?h)" "ocf_metadata_get_core_info (md c) y = (core, cl)" by auto
  have "y \<in> lines c" using coll_invD(3) [OF D(3) h y(1)] by (simp add: lines_def)
  moreover have "in_table c B y" using h y(1) by (auto simp: in_table_def)
  ultimately have "mapped c y" using line_okD(3) [OF D(4)] by (auto simp: mapped_def)
  with n y(2) show False by (simp add: not_cached_def)
qed

lemma touch_ok:
  assumes inv: "cache_inv c L B" and x: "x \<in> lines c" "in_table c B x"
  shows "\<exists>c' L'. ocf_lru_hot_cline x c = Some c' \<and> cache_inv c' L' B \<and> md c' = md c"
proof -
  note D = cache_invD [OF inv] and l = line_okD [OF cache_invD(4) [OF inv x(1)]]
  have "ocf_metadata_get_partition_id (md c) x < OCF_USER_IO_CLASS_MAX" using l(2,3) x(2) by (auto simp: line_part_def)
  from hot_cline_ok [OF D(1) this l(1)] obtain c' xs where
    c': "ocf_lru_hot_cline x c = Some c'" "lists_ok c' (L(line_ref c x := xs))"
      "if lru_hot (lru_meta c x) then xs = L (line_ref c x) else xs = x # remove1 x (L (line_ref c x))"
      "md c' = md c" "c_alock c' = c_alock c" "core_rt c' = core_rt c" "\<forall>p. curr_size (part_rt c' p) = curr_size (part_rt c p)" by blast
  have p: "part_ok (line_part c x)" using l(2) by (simp add: part_ok_def)
  then have r: "ref_ok (line_ref c x)" by (simp add: line_ref_def line_part_def)
  have "distinct (L (line_ref c x))" using lists_holdD(1) [OF lists_ok_hold [OF D(1)] r] by (rule lru_list_distinct)
  then have set: "set xs = set (L (line_ref c x))" "length xs = length (L (line_ref c x))"
    using c'(3) l(1) by (auto simp: length_remove1 split: if_splits dest: length_pos_if_in_set)
  have "part_size (L(line_ref c x := xs)) p = part_size L p" for p
    using part_size_upd [OF r, of L xs p] unfolding set(2) by (simp split: if_splits)
  then have "sizes_ok c' (L(line_ref c x := xs))" using D(2) c'(7) by (simp add: sizes_ok_def)
  moreover have st: "line_status c' y = line_status c y" "line_part c' y = line_part c y" "line_core c' y = line_core c y"
    "line_ref c' y = line_ref c y" "sectors c' = sectors c" for y
    by (simp_all add: line_status_def line_part_def line_core_def line_ref_def line_dirty_def metadata_test_dirty_def sectors_def c'(4))
  moreover have "line_ok c' (L(line_ref c x := xs)) B x"
    using l set(1) x(2) st in_table_same [of c' c B x] c'(4) unfolding line_ok_def line_valid_def line_dirties_def by auto
  moreover have "counter_delta x c c'" by (simp add: counter_delta_def c'(6) line_valid_def line_dirties_def st)
  ultimately have "cache_inv c' (L(line_ref c x := xs)) B"
    using c' D(3) set(1) others_md [of c' c x] by (intro cache_inv_step [OF inv x(1), of c']) auto
  with c'(1,4) show ?thesis by blast
qed



text \<open>
  The abstract cache: every line is free or caches a core line for a partition, with the sets of its
  valid and its dirty sectors.
\<close>

record cached_line =
  cl_part :: u16
  cl_core :: u16
  cl_addr :: u64
  cl_valid :: "nat set"
  cl_dirty :: "nat set"

type_synonym abstract_cache = "u32 \<Rightarrow> cached_line option"

definition abs_cache :: "'w::len word ocf_cache \<Rightarrow> abstract_cache" where
  "abs_cache c x = (if mapped c x then
     Some \<lparr>cl_part = line_part c x, cl_core = line_core c x, cl_addr = line_addr c x, cl_valid = line_valid c x, cl_dirty = line_dirties c x\<rparr>
   else None)"

text \<open>The operations on it; \<open>w\<close> tells whether a request waits for the line that becomes invalid.\<close>

fun abs_exec :: "bool \<Rightarrow> line_op \<Rightarrow> abstract_cache \<Rightarrow> abstract_cache" where
  "abs_exec w (Set_valid x start stop) A = A(x := map_option (\<lambda>l. l\<lparr>cl_valid := cl_valid l \<union> {unat start..unat stop}\<rparr>) (A x))"
| "abs_exec w (Set_dirty now x start stop) A = A(x := map_option (\<lambda>l. l\<lparr>cl_dirty := cl_dirty l \<union> {unat start..unat stop}\<rparr>) (A x))"
| "abs_exec w (Set_clean x start stop) A = A(x := map_option (\<lambda>l. l\<lparr>cl_dirty := cl_dirty l - {unat start..unat stop}\<rparr>) (A x))"
| "abs_exec w (Set_invalid x start stop) A = A(x := Option.bind (A x) (\<lambda>l.
     let V = cl_valid l - {unat start..unat stop} in if V = {} \<and> \<not> w then None else Some (l\<lparr>cl_valid := V\<rparr>)))"
| "abs_exec w (Map_free x part core cl) A = A(x \<mapsto> \<lparr>cl_part = part, cl_core = core, cl_addr = cl, cl_valid = {}, cl_dirty = {}\<rparr>)"
| "abs_exec w (Evict x part core cl) A = A(x \<mapsto> \<lparr>cl_part = part, cl_core = core, cl_addr = cl, cl_valid = {}, cl_dirty = {}\<rparr>)"
| "abs_exec w (Touch x) A = A"

text \<open>The line an operation works on, and whether a request waits for it.\<close>

fun op_line :: "line_op \<Rightarrow> u32" where
  "op_line (Set_valid x _ _) = x"
| "op_line (Set_dirty _ x _ _) = x"
| "op_line (Set_clean x _ _) = x"
| "op_line (Set_invalid x _ _) = x"
| "op_line (Map_free x _ _ _) = x"
| "op_line (Evict x _ _ _) = x"
| "op_line (Touch x) = x"

definition has_waiters :: "'b ocf_cache \<Rightarrow> u32 \<Rightarrow> bool" where
  "has_waiters c x = (ocf_cache_line_are_waiters (c_alock c) x = Some True)"

lemma abs_cache_others:
  assumes "others x c c'"
  shows "abs_cache c' = (abs_cache c)(x := abs_cache c' x)"
  by (auto simp: fun_eq_iff abs_cache_def mapped_def othersD [OF assms])

lemma abs_cache_result:
  assumes "line_result x c c' V D" "mapped c x"
  shows "abs_cache c' = (abs_cache c)(x := map_option (\<lambda>l. l\<lparr>cl_valid := V, cl_dirty := D\<rparr>) (abs_cache c x))"
proof -
  have "abs_cache c' x = map_option (\<lambda>l. l\<lparr>cl_valid := V, cl_dirty := D\<rparr>) (abs_cache c x)"
    using assms othersD(1) [of x c c'] by (simp add: line_result_def abs_cache_def mapped_def)
  with abs_cache_others [of x c c'] assms show ?thesis by (simp add: line_result_def)
qed

lemma abs_cache_mapped:
  assumes "others x c c'" "x \<in> lines c" "cache_inv c' L B" "in_table c' B x" "line_valid c' x = {}"
  shows "abs_cache c' = (abs_cache c)(x \<mapsto> \<lparr>cl_part = line_part c' x, cl_core = line_core c' x, cl_addr = line_addr c' x, cl_valid = {}, cl_dirty = {}\<rparr>)"
proof -
  have x: "x \<in> lines c'" using assms(2) othersD(1) [OF assms(1)] by simp
  note l = line_okD [OF cache_invD(4) [OF assms(3) x]]
  have "mapped c' x" "line_dirties c' x = {}" using l(3,4) assms(4,5) x by (simp_all add: mapped_def)
  then have "abs_cache c' x = Some \<lparr>cl_part = line_part c' x, cl_core = line_core c' x, cl_addr = line_addr c' x, cl_valid = {}, cl_dirty = {}\<rparr>"
    using assms(5) by (simp add: abs_cache_def)
  with abs_cache_others [OF assms(1)] show ?thesis by simp
qed

lemma set_invalid_refines:
  assumes inv: "cache_inv c L B" and m: "mapped c x" and r: "range_ok c start stop" and d: "line_dirties c x \<inter> {unat start..unat stop} = {}"
  shows "\<exists>c' L' B'. exec (Set_invalid x start stop) c = Some c' \<and> cache_inv c' L' B' \<and>
    abs_cache c' = abs_exec (has_waiters c x) (Set_invalid x start stop) (abs_cache c)"
proof -
  let ?V = "line_valid c x - {unat start..unat stop}"
  from set_line_invalid_ok [OF inv mappedD [OF inv m] r d] obtain c1 L' B' w where
    c1: "set_line_invalid start stop x (line_core c x) (line_part c x) c = Some c1" "cache_inv c1 L' B'"
      "ocf_cache_line_are_waiters (c_alock c) x = Some w" "others x c c1" "line_valid c1 x = ?V"
      "if line_valid c1 x = {} \<and> \<not> w then line_part c1 x = PARTITION_FREELIST
       else line_part c1 x = line_part c x \<and> line_core c1 x = line_core c x \<and> line_addr c1 x = line_addr c x \<and> line_dirties c1 x = line_dirties c x"
    by metis
  let ?c = "event (Flush_mark Flush_INVALID x start stop) c1"
  have o: "others x c ?c" using others_trans [OF c1(4) others_md, of ?c] by (simp add: store_laws)
  have "line_part ?c x = line_part c1 x" "line_core ?c x = line_core c1 x" "line_addr ?c x = line_addr c1 x"
    "line_valid ?c x = line_valid c1 x" "line_dirties ?c x = line_dirties c1 x" by (simp_all add: store_laws line_valid_def line_dirties_def)
  then have "abs_cache ?c x = Option.bind (abs_cache c x) (\<lambda>l.
     let V = cl_valid l - {unat start..unat stop} in if V = {} \<and> \<not> w then None else Some (l\<lparr>cl_valid := V\<rparr>))"
    using c1(5,6) m othersD(1) [OF o] by (auto simp: abs_cache_def mapped_def Let_def split: if_splits)
  then have "abs_cache ?c = abs_exec (has_waiters c x) (Set_invalid x start stop) (abs_cache c)"
    using abs_cache_others [OF o] c1(3) by (simp add: has_waiters_def)
  moreover have "exec (Set_invalid x start stop) c = Some ?c" "cache_inv ?c L' B'"
    using c1 by (simp_all add: set_cache_line_invalid_def line_part_def)
  ultimately show ?thesis by blast
qed

lemma exec_refines:
  assumes inv: "cache_inv c L B" and ok: "op_ok op c"
  shows "\<exists>c' L' B'. exec op c = Some c' \<and> cache_inv c' L' B' \<and> abs_cache c' = abs_exec (has_waiters c (op_line op)) op (abs_cache c)"
proof (cases op)
  case (Set_valid x start stop)
  then have m: "mapped c x" "range_ok c start stop" using ok by simp_all
  from set_valid_ok [OF inv mappedD [OF inv m(1)] m(2)] obtain c' where
    c': "set_cache_line_valid start stop (line_core c x) x c = Some c'" "cache_inv c' L B"
      "line_result x c c' (line_valid c x \<union> {unat start..unat stop}) (line_dirties c x)" by blast
  from abs_cache_result [OF c'(3) m(1)] have "abs_cache c' = abs_exec w op (abs_cache c)" for w
    using m(1) Set_valid by (simp add: abs_cache_def)
  then show ?thesis using c'(1,2) Set_valid by (metis exec.simps(1))
next
  case (Set_dirty now x start stop)
  then have m: "mapped c x" "range_ok c start stop" "{unat start..unat stop} \<subseteq> line_valid c x" using ok by simp_all
  from set_dirty_ok [OF inv mappedD [OF inv m(1)] m(2,3)] obtain c' L' where
    c': "set_cache_line_dirty now start stop (line_core c x) x c = Some c'" "cache_inv c' L' B"
      "line_result x c c' (line_valid c x) (line_dirties c x \<union> {unat start..unat stop})" by blast
  from abs_cache_result [OF c'(3) m(1)] have "abs_cache c' = abs_exec w op (abs_cache c)" for w
    using m(1) Set_dirty by (simp add: abs_cache_def)
  then show ?thesis using c'(1,2) Set_dirty by (metis exec.simps(2))
next
  case (Set_clean x start stop)
  then have m: "mapped c x" "range_ok c start stop" using ok by simp_all
  from set_clean_ok [OF inv mappedD [OF inv m(1)] m(2)] obtain c' L' where
    c': "set_cache_line_clean start stop (line_core c x) x c = Some c'" "cache_inv c' L' B"
      "line_result x c c' (line_valid c x) (line_dirties c x - {unat start..unat stop})" by blast
  from abs_cache_result [OF c'(3) m(1)] have "abs_cache c' = abs_exec w op (abs_cache c)" for w
    using m(1) Set_clean by (simp add: abs_cache_def)
  then show ?thesis using c'(1,2) Set_clean by (metis exec.simps(3))
next
  case (Set_invalid x start stop)
  with set_invalid_refines [OF inv] ok show ?thesis by simp
next
  case (Map_free x part core cl)
  then have x: "x \<in> lines c" "line_part c x = PARTITION_FREELIST" "part < OCF_USER_IO_CLASS_MAX" "core < OCF_CORE_MAX" "not_cached c core cl"
    using ok by simp_all
  from map_ok [OF inv x(1-4) refl not_cachedD [OF inv x(5)]] obtain c1 c' L' B' where
    c': "ocf_lru_repart_locked x PARTITION_FREELIST part c = Some c1"
      "ocf_map_cache_line core cl (ocf_metadata_hash_func (md c) cl core) x c1 = Some c'" "cache_inv c' L' B'"
      "others x c c'" "in_table c' B' x" "line_part c' x = part" "line_core c' x = core" "line_addr c' x = cl" "line_valid c' x = {}" by blast
  have "exec op c = Some c'" using c'(1,2) Map_free by simp
  moreover have "abs_cache c' = abs_exec w op (abs_cache c)" for w
    using abs_cache_mapped [OF c'(4) x(1) c'(3,5,9)] c'(6-8) Map_free by simp
  ultimately show ?thesis using c'(3) by blast
next
  case (Evict x dst core cl)
  then have e: "mapped c x" "line_dirties c x = {}" "line_valid c x \<noteq> {}" "sector_start (md c) = 0" "dst < OCF_USER_IO_CLASS_MAX"
    "core < OCF_CORE_MAX" "not_cached c core cl" using ok by simp_all
  from evict_ok [OF inv mappedD [OF inv e(1)] e(2-6) refl not_cachedD [OF inv e(7)]] obtain c1 c2 c' L' B' where
    c': "lru_take x (line_part c x) dst (line_ref c x) c = Some c1" "ocf_lru_invalidate x (line_core c x) (line_part c x) c1 = Some c2"
      "ocf_map_cache_line core cl (ocf_metadata_hash_func (md c) cl core) x c2 = Some c'" "cache_inv c' L' B'"
      "others x c c'" "in_table c' B' x" "line_part c' x = dst" "line_core c' x = core" "line_addr c' x = cl" "line_valid c' x = {}" by blast
  have "exec op c = Some c'" using c'(1,2,3) Evict by simp
  moreover have "abs_cache c' = abs_exec w op (abs_cache c)" for w
    using abs_cache_mapped [OF c'(5) mappedD(1) [OF inv e(1)] c'(4,6,10)] c'(7-9) Evict by simp
  ultimately show ?thesis using c'(4) by blast
next
  case (Touch x)
  then have "mapped c x" using ok by simp
  from touch_ok [OF inv mappedD [OF inv this]] obtain c' L' where
    c': "ocf_lru_hot_cline x c = Some c'" "cache_inv c' L' B" "md c' = md c" by blast
  have "abs_cache c' = abs_cache c"
    by (simp add: fun_eq_iff abs_cache_def mapped_def lines_def line_part_def line_core_def line_addr_def line_valid_def line_dirties_def line_status_def c'(3))
  with c'(1,2) Touch show ?thesis by fastforce
qed

lemma cache_reach_inv: "cache_reach c \<Longrightarrow> \<exists>L B. cache_inv c L B"
proof (induction rule: cache_reach.induct)
  case (Start c c')
  from fresh_cache_ok [OF Start(1)] Start(2) show ?case by auto
next
  case (Step c op c')
  then obtain L B where "cache_inv c L B" by blast
  from exec_refines [OF this Step(2)] Step(3) show ?case by auto
next
  case (Locks c a)
  then show ?case using cache_inv_alock by blast
qed


section \<open>Properties\<close>

text \<open>A small cache: eight lines with eight sectors each, one hash bucket.\<close>

definition sample_cache :: "8 word ocf_cache" where
  "sample_cache = \<lparr>
     md = \<lparr>layout = Layout_seq, entries_in_page = 4, ssd_pages = 2, raw_entries = 8, collision_table_entries = 8,
       hash_table_entries = 1, line_size = 4096, sector_count = 8, sector_start = 0, sector_end = 7, hash_tbl = \<lambda>_. 8,
       list_info = \<lambda>_. \<lparr>prev_col = 8, next_col = 8, partition_id = 0\<rparr>,
       map_info = \<lambda>_. \<lparr>core_line = - 1, core_id = OCF_CORE_MAX, status_word = \<lparr>valid = 0, dirty = 0\<rparr>\<rparr>\<rparr>,
     lru_meta = \<lambda>_. \<lparr>lru_prev = 0, lru_next = 0, lru_hot = False\<rparr>,
     part_rt = \<lambda>_. \<lparr>curr_size = 0, part_lru = \<lambda>_. \<lparr>lru_clean = lru_init True, lru_dirty = lru_init True\<rparr>\<rparr>,
     c_alock = \<lparr>waiting = 0, num_entries = 8, acc = \<lambda>_. 0, waiters_lsts = \<lambda>_. [], nbuckets = 16, allocs = [],
       reqs = \<lambda>_. \<lparr>lock_remaining = 0, alock_rw = OCF_READ, alock_status = [], req_map = [], resumed = 0\<rparr>\<rparr>,
     core_rt = \<lambda>_. \<lparr>cached_clines = 0, dirty_clines = 0, dirty_since = 0, part_cached = \<lambda>_. 0, part_dirty = \<lambda>_. 0\<rparr>, events = []\<rparr>"

lemma sample_fresh: "fresh_metadata sample_cache"
  by (simp add: fresh_metadata_def sample_cache_def sectors_ok_def sector_range_def line_valid_def line_dirties_def line_status_def
      line_core_def secs_0)

lemma sample_reach: "\<exists>c :: 8 word ocf_cache. cache_reach c \<and> op_ok (Map_free 3 0 1 5) c"
proof -
  from fresh_cache_ok [OF sample_fresh] obtain c L where
    c: "ocf_lru_populate (collision_table_entries (md sample_cache)) (init_parts_attached sample_cache) = Some c"
      "lines c = lines sample_cache" "\<forall>x \<in> lines c. line_part c x = PARTITION_FREELIST" by blast
  have "(3 :: u32) \<in> lines c" unfolding c(2) by (simp add: lines_def sample_cache_def)
  moreover have "not_cached c 1 5" using c(3) unfolding not_cached_def mapped_def by blast
  ultimately show ?thesis
    using cache_reach.Start [OF sample_fresh c(1)] c(3) by (auto simp: OCF_USER_IO_CLASS_MAX_def OCF_CORE_MAX_def)
qed

lemma populate_size: "ocf_lru_populate n c = Some c' \<Longrightarrow> curr_size (part_rt c' PARTITION_FREELIST) = uint n"
  by (auto simp: ocf_lru_populate_def store_laws bug_on_bind split: bind_splits prod.splits if_splits)


text \<open>
  Property C14: the operations implement the abstract cache, where a line is free or holds a core line with a
  set of valid and a set of dirty sectors, and where an operation changes nothing but its line. A line
  whose last valid sector is invalidated becomes free, unless a request waits for it.
\<close>

theorem cache_ops_refine:
  assumes "cache_reach c" "op_ok op c"
  shows "\<exists>c'. exec op c = Some c' \<and> cache_reach c' \<and> abs_cache c' = abs_exec (has_waiters c (op_line op)) op (abs_cache c)"
proof -
  from cache_reach_inv [OF assms(1)] obtain L B where "cache_inv c L B" by blast
  from exec_refines [OF this assms(2)] show ?thesis using cache_reach.Step [OF assms] by blast
qed

text \<open>
  Property C32: initialisation puts every line on the free list: \<open>__init_parts_attached\<close> followed by
  \<open>ocf_lru_populate\<close> succeeds on fresh metadata, whatever the layout, and all lines are free in the
  resulting cache.
\<close>

theorem populate_fresh_cache:
  assumes "fresh_metadata c"
  shows "\<exists>c'. ocf_lru_populate (collision_table_entries (md c)) (init_parts_attached c) = Some c' \<and>
    (\<exists>L. cache_inv c' L (\<lambda>_. [])) \<and> (\<forall>x. abs_cache c' x = None) \<and>
    curr_size (part_rt c' PARTITION_FREELIST) = uint (collision_table_entries (md c))"
proof -
  from fresh_cache_ok [OF assms] obtain c' L where c': "ocf_lru_populate (collision_table_entries (md c)) (init_parts_attached c) = Some c'"
    "cache_inv c' L (\<lambda>_. [])" "\<forall>x \<in> lines c'. line_part c' x = PARTITION_FREELIST" by blast
  moreover have "\<forall>x. abs_cache c' x = None" using c'(3) by (simp add: abs_cache_def mapped_def)
  ultimately show ?thesis using populate_size by blast
qed


theorem cache_ops_refine_witness:
  "\<exists>c c' :: 8 word ocf_cache. cache_reach c \<and> exec (Map_free 3 0 1 5) c = Some c' \<and>
     abs_cache c' 3 = Some \<lparr>cl_part = 0, cl_core = 1, cl_addr = 5, cl_valid = {}, cl_dirty = {}\<rparr>"
proof -
  obtain c :: "8 word ocf_cache" where c: "cache_reach c" "op_ok (Map_free 3 0 1 5) c" using sample_reach by blast
  from cache_ops_refine [OF c] obtain c' where
    "exec (Map_free 3 0 1 5) c = Some c'" "abs_cache c' = abs_exec (has_waiters c 3) (Map_free 3 0 1 5) (abs_cache c)" by auto
  with c(1) show ?thesis by (intro exI [of _ c] exI [of _ c']) (simp del: exec.simps)
qed

theorem populate_fresh_cache_witness:
  "\<exists>c'. ocf_lru_populate 8 (init_parts_attached sample_cache) = Some c' \<and> abs_cache c' 7 = None \<and>
     curr_size (part_rt c' PARTITION_FREELIST) = 8"
proof -
  have n: "collision_table_entries (md sample_cache) = 8" by (simp add: sample_cache_def)
  from populate_fresh_cache [OF sample_fresh] show ?thesis unfolding n by auto
qed

end
