(* ===== verification/OCF_Request.thy ===== *)
theory OCF_Request
  imports OCF_Cache_Line
begin

text \<open>
  Requests and the lookup of their core lines (\<open>ocf/src/ocf_request.c\<close>, \<open>ocf_request.h\<close>,
  \<open>engine/engine_common.c\<close>, \<open>engine/engine_common.h\<close>, \<open>utils/utils_cache_line.h\<close>). A request covers a
  range of bytes of a core; the engine splits it into core lines and looks every one of them up in the
  hash table. The theory shows that the lookup terminates and finds what a linear search over all
  cache lines finds, that the counters of the request are exact, and that the engine's verdict that a
  request is a hit means that every sector of the request is in the cache.
\<close>

section \<open>Settings of a cache line\<close>

definition ENV_SECTOR_SHIFT :: nat where
  "ENV_SECTOR_SHIFT = 9"

definition BYTES_TO_SECTORS :: "u64 \<Rightarrow> u64" where
  "BYTES_TO_SECTORS x = drop_bit ENV_SECTOR_SHIFT x"

definition ocf_cache_line_size_is_valid :: "u64 \<Rightarrow> bool" where
  "ocf_cache_line_size_is_valid sz \<longleftrightarrow> sz = 4096 \<or> sz = 8192 \<or> sz = 16384 \<or> sz = 32768 \<or> sz = 65536"

definition ocf_metadata_config_init :: "u64 \<Rightarrow> 'b ocf_metadata \<Rightarrow> 'b ocf_metadata option" where
  "ocf_metadata_config_init sz m = do {
     bug_on (\<not> ocf_cache_line_size_is_valid sz);
     let count = BYTES_TO_SECTORS sz;
     Some (m\<lparr>line_size := sz, sector_count := count, sector_start := 0, sector_end := ucast (count - 1)\<rparr>)
   }"

definition ocf_line_sectors :: "'b ocf_cache \<Rightarrow> u64" where
  "ocf_line_sectors c = sector_count (md c)"

definition ocf_line_end_sector :: "'b ocf_cache \<Rightarrow> u8" where
  "ocf_line_end_sector c = sector_end (md c)"

definition ocf_bytes_2_lines :: "'b ocf_cache \<Rightarrow> u64 \<Rightarrow> u64" where
  "ocf_bytes_2_lines c bytes = bytes div line_size (md c)"

section \<open>Requests\<close>

record ocf_req_info =
  hit_no :: u32
  invalid_no :: u32
  re_part_no :: u32
  seq_no :: u32
  insert_no :: u32
  dirty_all :: u32
  dirty_any :: u32
  flush_metadata :: bool
  mapping_error :: bool
  cleaning_required :: bool
  core_error :: bool
  cleaner_cache_line_lock :: bool
  internal :: bool

text \<open>
  The part of a request that the lookup uses. The map is empty while it is not allocated; an access
  to it is undefined then. The core is given by its id.
\<close>

record ocf_request =
  byte_position :: u64
  byte_length :: u32
  core_line_first :: u64
  core_line_last :: u64
  r_line_count :: u32
  alloc_core_line_count :: u32
  r_core :: u16
  r_part :: u16
  r_error :: bool
  info :: ocf_req_info
  rmap :: "ocf_map_info list"

definition zero_info :: ocf_req_info where
  "zero_info = \<lparr>hit_no = 0, invalid_no = 0, re_part_no = 0, seq_no = 0, insert_no = 0, dirty_all = 0, dirty_any = 0,
     flush_metadata = False, mapping_error = False, cleaning_required = False, core_error = False,
     cleaner_cache_line_lock = False, internal = False\<rparr>"

text \<open>
  \<open>pool n\<close> tells whether the pool gives out a request with a map of \<open>n\<close> entries. A zeroed entry
  (\<open>entry0\<close>) has no lookup status: the engine writes the status of every entry before it reads it.
\<close>

definition ocf_req_new :: "(u64 \<Rightarrow> bool) \<Rightarrow> ocf_map_info \<Rightarrow> 'b ocf_cache \<Rightarrow> u16 \<Rightarrow> u64 \<Rightarrow> u32 \<Rightarrow> ocf_request option" where
  "ocf_req_new pool entry0 c core addr bytes =
     (let first = ocf_bytes_2_lines c addr;
          last = (if bytes \<noteq> 0 then ocf_bytes_2_lines c (addr + ucast bytes - 1) else first);
          count = (if bytes \<noteq> 0 then last - first + 1 else 1);
          req = \<lparr>byte_position = addr, byte_length = bytes, core_line_first = first, core_line_last = last,
            r_line_count = ucast count, alloc_core_line_count = ucast count, r_core = core, r_part = 0, r_error = False,
            info = zero_info, rmap = replicate (unat count) entry0\<rparr>
      in if pool count then Some req
         else if pool 1 then Some (req\<lparr>alloc_core_line_count := 1, rmap := []\<rparr>)
         else None)"

text \<open>\<open>mem\<close> tells whether \<open>env_zalloc\<close> succeeds; the result tells whether the request has a map.\<close>

definition ocf_req_alloc_map :: "bool \<Rightarrow> ocf_map_info \<Rightarrow> ocf_request \<Rightarrow> bool \<times> ocf_request" where
  "ocf_req_alloc_map mem entry0 req =
     (if rmap req \<noteq> [] then (True, req)
      else if \<not> mem then (False, req\<lparr>r_error := True\<rparr>)
      else (True, req\<lparr>rmap := replicate (unat (r_line_count req)) entry0\<rparr>))"

definition ocf_req_new_extended ::
    "(u64 \<Rightarrow> bool) \<Rightarrow> bool \<Rightarrow> ocf_map_info \<Rightarrow> 'b ocf_cache \<Rightarrow> u16 \<Rightarrow> u64 \<Rightarrow> u32 \<Rightarrow> ocf_request option" where
  "ocf_req_new_extended pool mem entry0 c core addr bytes = do {
     req \<leftarrow> ocf_req_new pool entry0 c core addr bytes;
     let (ok, req) = ocf_req_alloc_map mem entry0 req;
     if ok then Some req else None
   }"

definition ocf_req_clear_info :: "ocf_request \<Rightarrow> ocf_request" where
  "ocf_req_clear_info req = req\<lparr>info := zero_info\<rparr>"

definition ocf_map_line_start_sector :: "'b ocf_cache \<Rightarrow> ocf_request \<Rightarrow> u32 \<Rightarrow> u8" where
  "ocf_map_line_start_sector c req line =
     (if line = 0 then ucast (BYTES_TO_SECTORS (byte_position req) mod ocf_line_sectors c) else 0)"

definition ocf_map_line_end_sector :: "'b ocf_cache \<Rightarrow> ocf_request \<Rightarrow> u32 \<Rightarrow> u8" where
  "ocf_map_line_end_sector c req line =
     (if line = r_line_count req - 1
      then ucast (BYTES_TO_SECTORS (byte_position req + ucast (byte_length req) - 1) mod ocf_line_sectors c)
      else ocf_line_end_sector c)"

section \<open>Lookup\<close>

definition ocf_metadata_get_collision_next :: "'b ocf_metadata \<Rightarrow> u32 \<Rightarrow> u32" where
  "ocf_metadata_get_collision_next m line = fst (ocf_metadata_get_collision_info m line)"

partial_function (option) lookup_scan :: "'b ocf_metadata \<Rightarrow> u16 \<Rightarrow> u64 \<Rightarrow> u32 \<Rightarrow> ocf_map_info \<Rightarrow> ocf_map_info option" where
  "lookup_scan m core cl line e =
     (if line \<noteq> collision_table_entries m then
        let (curr_core_id, curr_core_line) = ocf_metadata_get_core_info m line
        in if core = curr_core_id \<and> curr_core_line = cl then Some (e\<lparr>coll_idx := line, status := LOOKUP_HIT\<rparr>)
           else lookup_scan m core cl (ocf_metadata_get_collision_next m line) e
      else Some e)"

definition ocf_engine_lookup_map_entry :: "'b ocf_metadata \<Rightarrow> ocf_map_info \<Rightarrow> u16 \<Rightarrow> u64 \<Rightarrow> ocf_map_info option" where
  "ocf_engine_lookup_map_entry m entry core cl =
     (let hash = ocf_metadata_hash_func m cl core;
          entry = entry\<lparr>map_hash := hash, status := LOOKUP_MISS, coll_idx := collision_table_entries m,
            map_core_line := cl, map_core_id := core\<rparr>
      in lookup_scan m core cl (ocf_metadata_get_hash m hash) entry)"

text \<open>\<open>None\<close> is the failed assertion; the result tells whether the entry still is right.\<close>

definition ocf_engine_check_map_entry :: "'b ocf_metadata \<Rightarrow> ocf_map_info \<Rightarrow> u16 \<Rightarrow> bool option" where
  "ocf_engine_check_map_entry m entry core =
     (if status entry = LOOKUP_MISS then Some True
      else do {
        bug_on (coll_idx entry \<ge> collision_table_entries m);
        let (core_id, core_line) = ocf_metadata_get_core_info m (coll_idx entry);
        Some (core = core_id \<and> core_line = map_core_line entry)
      })"

definition ocf_engine_clines_phys_cont :: "'b ocf_metadata \<Rightarrow> ocf_request \<Rightarrow> u32 \<Rightarrow> bool option" where
  "ocf_engine_clines_phys_cont m req entry = do {
     entry1 \<leftarrow> rd (rmap req) (uint entry);
     entry2 \<leftarrow> rd (rmap req) (uint (entry + 1));
     if status entry1 = LOOKUP_MISS \<or> status entry2 = LOOKUP_MISS then Some False
     else let phys1 = ocf_metadata_map_lg2phy m (coll_idx entry1);
              phys2 = ocf_metadata_map_lg2phy m (coll_idx entry2)
          in Some (phys1 < phys2 \<and> phys1 + 1 = phys2)
   }"

definition metadata_test_valid_sec :: "'w::len word ocf_cache \<Rightarrow> u32 \<Rightarrow> u8 \<Rightarrow> u8 \<Rightarrow> bool option" where
  "metadata_test_valid_sec c line start stop = bit_test valid (line_status c line) start stop True"

definition metadata_test_dirty_all_sec :: "'w::len word ocf_cache \<Rightarrow> u32 \<Rightarrow> u8 \<Rightarrow> u8 \<Rightarrow> bool option" where
  "metadata_test_dirty_all_sec c line start stop = bit_test dirty (line_status c line) start stop True"

definition metadata_test_dirty_sec :: "'w::len word ocf_cache \<Rightarrow> u32 \<Rightarrow> u8 \<Rightarrow> u8 \<Rightarrow> bool option" where
  "metadata_test_dirty_sec c line start stop = bit_test dirty (line_status c line) start stop False"


text \<open>The counters of the request, for the map entry \<open>idx\<close> that has been looked up or remapped.\<close>

definition ocf_engine_update_req_info :: "'w::len word ocf_cache \<Rightarrow> u32 \<Rightarrow> ocf_request \<Rightarrow> ocf_request option" where
  "ocf_engine_update_req_info c idx req = do {
     let start_sector = ocf_map_line_start_sector c req idx;
     let end_sector = ocf_map_line_end_sector c req idx;
     entry \<leftarrow> rd (rmap req) (uint idx);
     bug_on (status entry \<noteq> LOOKUP_HIT \<and> status entry \<noteq> LOOKUP_MISS \<and> status entry \<noteq> LOOKUP_REMAPPED);
     req \<leftarrow> (if status entry = LOOKUP_HIT then do {
         v \<leftarrow> metadata_test_valid_sec c (coll_idx entry) start_sector end_sector;
         let inf = (if v then (info req)\<lparr>hit_no := hit_no (info req) + 1\<rparr>
                    else (info req)\<lparr>invalid_no := invalid_no (info req) + 1\<rparr>);
         d \<leftarrow> metadata_test_dirty c (coll_idx entry);
         inf \<leftarrow> (if d then do {
             let inf = inf\<lparr>dirty_any := dirty_any inf + 1\<rparr>;
             a \<leftarrow> metadata_test_dirty_all_sec c (coll_idx entry) start_sector end_sector;
             Some (if a then inf\<lparr>dirty_all := dirty_all inf + 1\<rparr> else inf)
           } else Some inf);
         Some (req\<lparr>info := inf\<rparr>)
       } else Some req);
     let req = (if (status entry = LOOKUP_HIT \<or> status entry = LOOKUP_REMAPPED) \<and>
           r_part req \<noteq> ocf_metadata_get_partition_id (md c) (coll_idx entry)
         then req\<lparr>rmap := (rmap req)[unat idx := entry\<lparr>re_part := True\<rparr>],
                info := (info req)\<lparr>re_part_no := re_part_no (info req) + 1\<rparr>\<rparr>
         else req);
     let req = (if status entry = LOOKUP_REMAPPED
         then req\<lparr>info := (info req)\<lparr>insert_no := insert_no (info req) + 1\<rparr>\<rparr> else req);
     if idx > 0 then do {
       cont \<leftarrow> ocf_engine_clines_phys_cont (md c) req (idx - 1);
       Some (if cont then req\<lparr>info := (info req)\<lparr>seq_no := seq_no (info req) + 1\<rparr>\<rparr> else req)
     } else Some req
   }"

definition ocf_engine_patch_req_info :: "'b ocf_metadata \<Rightarrow> u32 \<Rightarrow> ocf_request \<Rightarrow> ocf_request option" where
  "ocf_engine_patch_req_info m idx req = do {
     entry \<leftarrow> rd (rmap req) (uint idx);
     bug_on (status entry \<noteq> LOOKUP_REMAPPED);
     let req = req\<lparr>info := (info req)\<lparr>insert_no := insert_no (info req) + 1\<rparr>\<rparr>;
     req \<leftarrow> (if idx > 0 then do {
         cont \<leftarrow> ocf_engine_clines_phys_cont m req (idx - 1);
         Some (if cont then req\<lparr>info := (info req)\<lparr>seq_no := seq_no (info req) + 1\<rparr>\<rparr> else req)
       } else Some req);
     if idx + 1 < r_line_count req then do {
       cont \<leftarrow> ocf_engine_clines_phys_cont m req idx;
       Some (if cont then req\<lparr>info := (info req)\<lparr>seq_no := seq_no (info req) + 1\<rparr>\<rparr> else req)
     } else Some req
   }"

partial_function (option) lookup_loop :: "'w::len word ocf_cache \<Rightarrow> u32 \<Rightarrow> u64 \<Rightarrow> ocf_request \<Rightarrow> ocf_request option" where
  "lookup_loop c i cl req =
     (if cl \<le> core_line_last req then do {
        entry \<leftarrow> rd (rmap req) (uint i);
        entry \<leftarrow> ocf_engine_lookup_map_entry (md c) entry (r_core req) cl;
        let req = req\<lparr>rmap := (rmap req)[unat i := entry]\<rparr>;
        req \<leftarrow> (if status entry \<noteq> LOOKUP_HIT then Some req else ocf_engine_update_req_info c i req);
        lookup_loop c (i + 1) (cl + 1) req
      } else Some req)"

definition ocf_engine_lookup :: "'w::len word ocf_cache \<Rightarrow> ocf_request \<Rightarrow> ocf_request option" where
  "ocf_engine_lookup c req = lookup_loop c 0 (core_line_first req) (ocf_req_clear_info req)"

fun set_hot_loop :: "ocf_map_info list \<Rightarrow> nat \<Rightarrow> nat \<Rightarrow> 'w::len word ocf_cache \<Rightarrow> 'w word ocf_cache option" where
  "set_hot_loop es 0 i c = Some c"
| "set_hot_loop es (Suc n) i c = do {
     e \<leftarrow> rd es (int i);
     c \<leftarrow> (if status e = LOOKUP_HIT then ocf_lru_hot_cline (coll_idx e) c else Some c);
     set_hot_loop es n (Suc i) c
   }"

definition ocf_engine_set_hot :: "ocf_request \<Rightarrow> 'w::len word ocf_cache \<Rightarrow> 'w word ocf_cache option" where
  "ocf_engine_set_hot req c =
     (if hit_no (info req) = 0 \<and> invalid_no (info req) = 0 then Some c
      else set_hot_loop (rmap req) (unat (r_line_count req)) 0 c)"

definition ocf_engine_traverse :: "ocf_request \<Rightarrow> 'w::len word ocf_cache \<Rightarrow> (ocf_request \<times> 'w word ocf_cache) option" where
  "ocf_engine_traverse req c = do {
     req \<leftarrow> ocf_engine_lookup c req;
     c \<leftarrow> ocf_engine_set_hot req c;
     Some (req, c)
   }"

text \<open>The Boolean tells whether the mapping of the request still is right (result 0).\<close>

partial_function (option) check_loop ::
    "'w::len word ocf_cache \<Rightarrow> u32 \<Rightarrow> u64 \<Rightarrow> bool \<Rightarrow> ocf_request \<Rightarrow> (bool \<times> ocf_request) option" where
  "check_loop c i cl ok req =
     (if cl \<le> core_line_last req then do {
        entry \<leftarrow> rd (rmap req) (uint i);
        (ok, req) \<leftarrow> (if status entry = LOOKUP_MISS then Some (ok, req)
          else do {
            right \<leftarrow> ocf_engine_check_map_entry (md c) entry (r_core req);
            if \<not> right then Some (False, req\<lparr>rmap := (rmap req)[unat i := entry\<lparr>invalid := True\<rparr>]\<rparr>)
            else do {
              req \<leftarrow> ocf_engine_update_req_info c i (req\<lparr>rmap := (rmap req)[unat i := entry\<lparr>invalid := False\<rparr>]\<rparr>);
              Some (ok, req)
            }
          });
        check_loop c (i + 1) (cl + 1) ok req
      } else Some (ok, req))"

definition ocf_engine_check :: "'w::len word ocf_cache \<Rightarrow> ocf_request \<Rightarrow> (bool \<times> ocf_request) option" where
  "ocf_engine_check c req = check_loop c 0 (core_line_first req) True (ocf_req_clear_info req)"

section \<open>Verdicts\<close>

definition ocf_engine_is_hit :: "ocf_request \<Rightarrow> bool" where
  "ocf_engine_is_hit req \<longleftrightarrow> hit_no (info req) = r_line_count req"

definition ocf_engine_needs_repart :: "ocf_request \<Rightarrow> bool" where
  "ocf_engine_needs_repart req \<longleftrightarrow> re_part_no (info req) > 0"

definition ocf_engine_mapped_count :: "ocf_request \<Rightarrow> u32" where
  "ocf_engine_mapped_count req = hit_no (info req) + invalid_no (info req)"

definition ocf_engine_is_mapped :: "ocf_request \<Rightarrow> bool" where
  "ocf_engine_is_mapped req \<longleftrightarrow> hit_no (info req) + invalid_no (info req) = r_line_count req"

definition ocf_engine_is_dirty_all :: "ocf_request \<Rightarrow> bool" where
  "ocf_engine_is_dirty_all req \<longleftrightarrow> dirty_all (info req) = r_line_count req"

definition ocf_engine_unmapped_count :: "ocf_request \<Rightarrow> u32" where
  "ocf_engine_unmapped_count req =
     r_line_count req - (hit_no (info req) + invalid_no (info req) + insert_no (info req))"

definition ocf_engine_repart_count :: "ocf_request \<Rightarrow> u32" where
  "ocf_engine_repart_count req = re_part_no (info req)"

definition ocf_engine_is_sequential :: "ocf_request \<Rightarrow> bool" where
  "ocf_engine_is_sequential req \<longleftrightarrow>
     hit_no (info req) + insert_no (info req) = r_line_count req \<and> seq_no (info req) = r_line_count req - 1"

definition ocf_engine_io_count :: "ocf_request \<Rightarrow> u32" where
  "ocf_engine_io_count req = (if ocf_engine_is_sequential req then 1 else r_line_count req)"

definition ocf_engine_map_all_sec_dirty :: "'w::len word ocf_cache \<Rightarrow> ocf_request \<Rightarrow> u32 \<Rightarrow> bool option" where
  "ocf_engine_map_all_sec_dirty c req line = do {
     let start = ocf_map_line_start_sector c req line;
     let stop = ocf_map_line_end_sector c req line;
     entry \<leftarrow> rd (rmap req) (uint line);
     if status entry \<noteq> LOOKUP_HIT then Some False
     else metadata_test_dirty_all_sec c (coll_idx entry) start stop
   }"

definition ocf_engine_map_all_sec_clean :: "'w::len word ocf_cache \<Rightarrow> ocf_request \<Rightarrow> u32 \<Rightarrow> bool option" where
  "ocf_engine_map_all_sec_clean c req line = do {
     let start = ocf_map_line_start_sector c req line;
     let stop = ocf_map_line_end_sector c req line;
     entry \<leftarrow> rd (rmap req) (uint line);
     if status entry \<noteq> LOOKUP_HIT then Some False
     else do {
       v \<leftarrow> metadata_test_valid_sec c (coll_idx entry) start stop;
       if \<not> v then Some False
       else do {
         d \<leftarrow> metadata_test_dirty_sec c (coll_idx entry) start stop;
         Some (\<not> d)
       }
     }
   }"

definition ocf_engine_map_all_sec_valid :: "'w::len word ocf_cache \<Rightarrow> ocf_request \<Rightarrow> u32 \<Rightarrow> bool option" where
  "ocf_engine_map_all_sec_valid c req line = do {
     let start = ocf_map_line_start_sector c req line;
     let stop = ocf_map_line_end_sector c req line;
     entry \<leftarrow> rd (rmap req) (uint line);
     if status entry \<noteq> LOOKUP_HIT then Some False
     else metadata_test_valid_sec c (coll_idx entry) start stop
   }"


section \<open>The geometry of a request\<close>

text \<open>What \<open>ocf_metadata_config_init\<close> sets up.\<close>

definition settings_ok :: "'b ocf_metadata \<Rightarrow> bool" where
  "settings_ok m \<longleftrightarrow> ocf_cache_line_size_is_valid (line_size m) \<and> sector_count m = BYTES_TO_SECTORS (line_size m) \<and>
     sector_start m = 0 \<and> sector_end m = ucast (sector_count m - 1)"

definition nsec :: "'b ocf_cache \<Rightarrow> nat" where
  "nsec c = unat (sector_count (md c))"

lemma config_init_settings: "ocf_metadata_config_init sz m = Some m' \<Longrightarrow> settings_ok m'"
  by (auto simp: settings_ok_def ocf_metadata_config_init_def bug_on_bind Let_def split: if_splits)

lemma settings_facts:
  assumes "settings_ok (md c)"
  shows "unat (line_size (md c)) = 512 * nsec c" "0 < nsec c" "nsec c \<le> 128"
    "unat (sector_end (md c)) = nsec c - 1" "sector_start (md c) = 0" "8 \<le> nsec c"
  using assms
  by (auto simp: settings_ok_def nsec_def ocf_cache_line_size_is_valid_def BYTES_TO_SECTORS_def ENV_SECTOR_SHIFT_def)

lemma bytes_to_sectors_unat: "unat (BYTES_TO_SECTORS x) = unat x div 512"
  by (simp add: BYTES_TO_SECTORS_def ENV_SECTOR_SHIFT_def drop_bit_eq_div unat_div)

definition req_ok :: "'b ocf_cache \<Rightarrow> ocf_request \<Rightarrow> bool" where
  "req_ok c req \<longleftrightarrow> settings_ok (md c) \<and> 0 < byte_length req \<and> unat (byte_position req) + unat (byte_length req) \<le> 2 ^ 64 \<and>
     core_line_first req = ocf_bytes_2_lines c (byte_position req) \<and>
     core_line_last req = ocf_bytes_2_lines c (byte_position req + ucast (byte_length req) - 1) \<and>
     r_line_count req = ucast (core_line_last req - core_line_first req + 1) \<and>
     length (rmap req) = unat (r_line_count req)"

text \<open>The first and the last sector of a request, and all its sectors.\<close>

definition sec_first :: "ocf_request \<Rightarrow> nat" where
  "sec_first req = unat (byte_position req) div 512"

definition sec_last :: "ocf_request \<Rightarrow> nat" where
  "sec_last req = (unat (byte_position req) + unat (byte_length req) - 1) div 512"

definition req_sectors :: "ocf_request \<Rightarrow> nat set" where
  "req_sectors req = {sec_first req..sec_last req}"

lemma le_div_mod: "0 < n \<Longrightarrow> a \<le> s \<longleftrightarrow> a div n < s div n \<or> a div n = s div n \<and> a mod n \<le> s mod n" for a s n :: nat
proof
  assume n: "0 < n" and "a \<le> s"
  then have "a div n \<le> s div n" by (simp add: div_le_mono)
  moreover have "a div n = s div n \<Longrightarrow> a mod n \<le> s mod n"
    using \<open>a \<le> s\<close> div_mult_mod_eq [of a n] div_mult_mod_eq [of s n] by (metis add_le_cancel_left)
  ultimately show "a div n < s div n \<or> a div n = s div n \<and> a mod n \<le> s mod n" by linarith
next
  assume n: "0 < n" and or: "a div n < s div n \<or> a div n = s div n \<and> a mod n \<le> s mod n"
  show "a \<le> s"
  proof (rule ccontr)
    assume "\<not> a \<le> s"
    then have "s div n \<le> a div n" by (simp add: div_le_mono)
    with or have "a div n = s div n" "a mod n \<le> s mod n" by auto
    then show False using \<open>\<not> a \<le> s\<close> div_mult_mod_eq [of a n] div_mult_mod_eq [of s n] by (metis add_le_cancel_left)
  qed
qed

lemma last_byte_unat:
  fixes p :: u64 and l :: u32
  assumes "0 < l" "unat p + unat l \<le> 2 ^ 64"
  shows "unat (p + ucast l - 1) = unat p + unat l - 1"
proof -
  have l: "0 < unat l" using assms(1) by (simp add: word_less_nat_alt)
  have "unat l < 2 ^ 64" using unsigned_less [of l] by (rule less_trans) simp
  then have "unat (ucast l :: u64) = unat l" by (simp add: unsigned_ucast_eq take_bit_nat_eq_self)
  then have u: "unat (ucast l - 1 :: u64) = unat l - 1" using l by (subst unat_sub_one) simp_all
  have "unat (p + (ucast l - 1)) = unat p + (unat l - 1)"
    using assms(2) l u by (subst unat_add_lem [THEN iffD1]) (simp_all add: u)
  then show ?thesis using l by (simp add: add_diff_eq)
qed


lemma div_add_bound: "(x + k) div m \<le> x div m + k div m + 1" for x k m :: nat
proof (cases "m = 0")
  case False
  have "x mod m + k mod m < 2 * m" using False by (simp add: add_strict_mono mult_2)
  then have "(x mod m + k mod m) div m \<le> 1" by (simp add: less_mult_imp_div_less less_Suc_eq_le [symmetric])
  then show ?thesis by (simp add: div_add1_eq [of x k m])
qed simp

lemma unat_ucast_small: "unat (x :: 'a::len word) < 2 ^ LENGTH('b) \<Longrightarrow> unat (ucast x :: 'b::len word) = unat x"
  by (simp add: unsigned_ucast_eq take_bit_nat_eq_self)

lemma sec_first_le_last: "0 < byte_length req \<Longrightarrow> sec_first req \<le> sec_last req"
  by (auto simp: sec_first_def sec_last_def word_less_nat_alt intro!: div_le_mono)

lemma req_lines:
  assumes "req_ok c req"
  shows "unat (core_line_first req) = sec_first req div nsec c" "unat (core_line_last req) = sec_last req div nsec c"
    "unat (r_line_count req) = sec_last req div nsec c - sec_first req div nsec c + 1"
    "sec_first req div nsec c \<le> sec_last req div nsec c" "sec_last req div nsec c < 2 ^ 63"
proof -
  let ?p = "unat (byte_position req)" and ?l = "unat (byte_length req)" and ?m = "512 * nsec c"
  note r = assms [unfolded req_ok_def] and S = settings_facts [OF conjunct1 [OF assms [unfolded req_ok_def]]]
  have last: "unat (byte_position req + ucast (byte_length req) - 1) = ?p + ?l - 1"
    using r by (intro last_byte_unat) auto
  show f: "unat (core_line_first req) = sec_first req div nsec c" and l: "unat (core_line_last req) = sec_last req div nsec c"
    using r S(1) last by (simp_all add: ocf_bytes_2_lines_def unat_div sec_first_def sec_last_def div_mult2_eq)
  show le: "sec_first req div nsec c \<le> sec_last req div nsec c" using r sec_first_le_last by (simp add: div_le_mono)
  have "0 < ?l" using r by (simp add: word_less_nat_alt)
  have "sec_last req div nsec c = (?p + (?l - 1)) div ?m" using \<open>0 < ?l\<close> by (simp add: sec_last_def div_mult2_eq)
  also have "\<dots> \<le> ?p div ?m + (?l - 1) div ?m + 1" by (rule div_add_bound)
  also have "?p div ?m = sec_first req div nsec c" by (simp add: sec_first_def div_mult2_eq)
  also have kd: "(?l - 1) div ?m < 2 ^ 20"
  proof (rule less_mult_imp_div_less)
    have "?l < 2 ^ 32" using unsigned_less [of "byte_length req"] by simp
    also have "(2 :: nat) ^ 32 \<le> 2 ^ 20 * ?m" using S(6) by simp
    finally show "?l - 1 < 2 ^ 20 * ?m" by simp
  qed
  finally have d: "sec_last req div nsec c - sec_first req div nsec c < 2 ^ 20 + 1" by simp
  have c: "unat (core_line_last req - core_line_first req) = sec_last req div nsec c - sec_first req div nsec c"
    using f l le by (subst unat_sub) (simp_all add: word_le_nat_alt)
  have c1: "unat (core_line_last req - core_line_first req + 1) = sec_last req div nsec c - sec_first req div nsec c + 1"
    using d c by (subst unat_add_one) simp_all
  show "unat (r_line_count req) = sec_last req div nsec c - sec_first req div nsec c + 1"
    using r d c1 by (simp only: r) (simp add: unat_ucast_small)
  have "sec_last req div nsec c \<le> sec_last req" by simp
  also have "sec_last req < 2 ^ 63"
    unfolding sec_last_def using conjunct1 [OF conjunct2 [OF conjunct2 [OF r]]] by (intro less_mult_imp_div_less) simp
  finally show "sec_last req div nsec c < 2 ^ 63" .
qed

lemma req_range:
  assumes "req_ok c req" "j < unat (r_line_count req)"
  shows "unat (ocf_map_line_start_sector c req (of_nat j)) = (if j = 0 then sec_first req mod nsec c else 0)"
    "unat (ocf_map_line_end_sector c req (of_nat j)) = (if j = unat (r_line_count req) - 1 then sec_last req mod nsec c else nsec c - 1)"
    "range_ok c (ocf_map_line_start_sector c req (of_nat j)) (ocf_map_line_end_sector c req (of_nat j))"
proof -
  note r = assms(1) [unfolded req_ok_def] and S = settings_facts [OF conjunct1 [OF assms(1) [unfolded req_ok_def]]]
  note L = req_lines [OF assms(1)]
  have last: "unat (byte_position req + ucast (byte_length req) - 1) = unat (byte_position req) + unat (byte_length req) - 1"
    using r by (intro last_byte_unat) auto
  have md: "unat (ucast (BYTES_TO_SECTORS x mod ocf_line_sectors c) :: u8) = unat x div 512 mod nsec c" for x
  proof -
    have "unat x div 512 mod nsec c < nsec c" using S(2) by simp
    then have "unat (BYTES_TO_SECTORS x mod ocf_line_sectors c) < 2 ^ LENGTH(8)"
      using S(3) by (simp add: unat_mod ocf_line_sectors_def bytes_to_sectors_unat nsec_def [symmetric])
    then show ?thesis by (simp add: unat_ucast_small unat_mod ocf_line_sectors_def bytes_to_sectors_unat nsec_def)
  qed
  have j: "unat (of_nat j :: u32) = j" using less_trans [OF assms(2) unsigned_less] by (simp add: unat_of_nat)
  have j0: "of_nat j = (0 :: u32) \<longleftrightarrow> j = 0" unfolding word_unat_eq_iff j by simp
  have jl: "of_nat j = r_line_count req - 1 \<longleftrightarrow> j = unat (r_line_count req) - 1"
    unfolding word_unat_eq_iff j using L(3) by (subst unat_sub_one) simp_all
  show s: "unat (ocf_map_line_start_sector c req (of_nat j)) = (if j = 0 then sec_first req mod nsec c else 0)"
    by (simp add: ocf_map_line_start_sector_def j0 md sec_first_def)
  show e: "unat (ocf_map_line_end_sector c req (of_nat j)) = (if j = unat (r_line_count req) - 1 then sec_last req mod nsec c else nsec c - 1)"
    using last S(4) by (simp add: ocf_map_line_end_sector_def jl md sec_last_def ocf_line_end_sector_def)
  have m: "sec_first req mod nsec c \<le> nsec c - 1" "sec_last req mod nsec c \<le> nsec c - 1"
    using S(2) by (simp_all add: less_Suc_eq_le [symmetric])
  have "sec_first req mod nsec c \<le> sec_last req mod nsec c" if "unat (r_line_count req) = 1"
    using le_div_mod [OF S(2), of "sec_first req" "sec_last req"] sec_first_le_last [of req] r L(3,4) that by auto
  then have "unat (ocf_map_line_start_sector c req (of_nat j)) \<le> unat (ocf_map_line_end_sector c req (of_nat j))"
    unfolding s e using assms(2) m by auto
  moreover have "unat (ocf_map_line_end_sector c req (of_nat j)) \<le> unat (sector_end (md c))" unfolding e S(4) using m by simp
  ultimately show "range_ok c (ocf_map_line_start_sector c req (of_nat j)) (ocf_map_line_end_sector c req (of_nat j))"
    using S(5) by (simp add: range_ok_def word_le_nat_alt)
qed

text \<open>The sectors that the request has in its core line number \<open>j\<close>.\<close>

definition line_range :: "'b ocf_cache \<Rightarrow> ocf_request \<Rightarrow> nat \<Rightarrow> nat set" where
  "line_range c req j = {unat (ocf_map_line_start_sector c req (of_nat j))..unat (ocf_map_line_end_sector c req (of_nat j))}"

lemma req_sectors_iff:
  assumes "req_ok c req"
  shows "s \<in> req_sectors req \<longleftrightarrow>
    (\<exists>j < unat (r_line_count req). s div nsec c = unat (core_line_first req) + j \<and> s mod nsec c \<in> line_range c req j)"
proof -
  let ?n = "nsec c" and ?a = "sec_first req" and ?b = "sec_last req"
  note n = settings_facts(2) [OF conjunct1 [OF assms [unfolded req_ok_def]]] and L = req_lines [OF assms]
  have "s \<in> req_sectors req \<longleftrightarrow> (?a div ?n < s div ?n \<or> ?a div ?n = s div ?n \<and> ?a mod ?n \<le> s mod ?n) \<and>
      (s div ?n < ?b div ?n \<or> s div ?n = ?b div ?n \<and> s mod ?n \<le> ?b mod ?n)"
    unfolding req_sectors_def atLeastAtMost_iff le_div_mod [OF n, of ?a s] le_div_mod [OF n, of s ?b] ..
  also have "\<dots> \<longleftrightarrow> (\<exists>j < unat (r_line_count req). s div ?n = ?a div ?n + j \<and> s mod ?n \<in> line_range c req j)"
    (is "?l \<longleftrightarrow> ?r")
  proof
    assume l: ?l
    let ?j = "s div ?n - ?a div ?n"
    have j: "?j < unat (r_line_count req)" "s div ?n = ?a div ?n + ?j" using l unfolding L(3) by auto
    have "s mod ?n \<le> ?n - 1" using n by (simp add: less_Suc_eq_le [symmetric])
    then have "s mod ?n \<in> line_range c req ?j"
      unfolding line_range_def req_range(1,2) [OF assms j(1)] using l L(3) by auto
    with j show ?r by blast
  next
    assume ?r
    then obtain j where j: "j < unat (r_line_count req)" "s div ?n = ?a div ?n + j" "s mod ?n \<in> line_range c req j" by blast
    have "(if j = 0 then ?a mod ?n else 0) \<le> s mod ?n"
      "s mod ?n \<le> (if j = unat (r_line_count req) - 1 then ?b mod ?n else ?n - 1)"
      using j(3) unfolding line_range_def req_range(1,2) [OF assms j(1)] by auto
    with j(1,2) L(3,4) show ?l by (auto split: if_splits)
  qed
  finally show ?thesis unfolding L(1) .
qed

lemma req_new_ok:
  assumes "ocf_req_new_extended pool mem e0 c core addr bytes = Some req"
    "settings_ok (md c)" "0 < bytes" "unat addr + unat bytes \<le> 2 ^ 64"
  shows "req_ok c req" "r_core req = core" "byte_position req = addr" "byte_length req = bytes"
proof -
  let ?first = "ocf_bytes_2_lines c addr" and ?last = "ocf_bytes_2_lines c (addr + ucast bytes - 1)"
  let ?req = "\<lparr>byte_position = addr, byte_length = bytes, core_line_first = ?first, core_line_last = ?last,
    r_line_count = ucast (?last - ?first + 1), alloc_core_line_count = 0, r_core = core, r_part = 0, r_error = False,
    info = zero_info, rmap = replicate (unat (ucast (?last - ?first + 1) :: u32)) e0\<rparr>"
  have ok: "req_ok c ?req" using assms(2-4) by (simp add: req_ok_def)
  have "unat (?last - ?first) = sec_last ?req div nsec c - sec_first ?req div nsec c"
    using req_lines(1,2,4) [OF ok] by (subst unat_sub) (simp_all add: word_le_nat_alt)
  then have "unat (?last - ?first + 1) = unat (ucast (?last - ?first + 1) :: u32)"
    using req_lines(3) [OF ok] req_lines(5) [OF ok] by (subst unat_add_one) simp_all
  then show "req_ok c req" "r_core req = core" "byte_position req = addr" "byte_length req = bytes"
    using assms by (auto simp: ocf_req_new_extended_def ocf_req_new_def ocf_req_alloc_map_def Let_def req_ok_def split: if_splits)
qed


section \<open>The lookup finds what a linear search finds\<close>

text \<open>The reference: a search over all cache lines for the one that caches the core line.\<close>

definition caches :: "'b ocf_cache \<Rightarrow> u16 \<Rightarrow> u64 \<Rightarrow> u32 \<Rightarrow> bool" where
  "caches c core cl x \<longleftrightarrow> mapped c x \<and> ocf_metadata_get_core_info (md c) x = (core, cl)"

definition all_lines :: "'b ocf_cache \<Rightarrow> u32 list" where
  "all_lines c = map of_nat [0..<unat (collision_table_entries (md c))]"

definition find_line :: "'b ocf_cache \<Rightarrow> u16 \<Rightarrow> u64 \<Rightarrow> u32 option" where
  "find_line c core cl = List.find (caches c core cl) (all_lines c)"

lemma set_all_lines: "set (all_lines c) = lines c"
proof -
  have "x \<in> set (all_lines c)" if "x \<in> lines c" for x
    using that by (auto simp: all_lines_def lines_def word_less_nat_alt intro!: image_eqI [of _ _ "unat x"])
  moreover have "x \<in> lines c" if x: "x \<in> set (all_lines c)" for x
  proof -
    obtain k where k: "x = of_nat k" "k < unat (collision_table_entries (md c))" using x by (auto simp: all_lines_def)
    have "unat x \<le> k" using k(1) by (simp add: unat_of_nat)
    then show ?thesis using k(2) by (simp add: lines_def word_less_nat_alt)
  qed
  ultimately show ?thesis by blast
qed

lemma lookup_scan_seg:
  assumes "dseg (nxt_col m) (prv_col m) b xs (collision_table_entries m)" "collision_table_entries m \<notin> set xs"
  shows "lookup_scan m core cl (hd_or (collision_table_entries m) xs) e =
    Some (case List.find (\<lambda>x. ocf_metadata_get_core_info m x = (core, cl)) xs of None \<Rightarrow> e
          | Some x \<Rightarrow> e\<lparr>coll_idx := x, status := LOOKUP_HIT\<rparr>)"
  using assms
proof (induction xs arbitrary: b)
  case Nil
  then show ?case by (simp add: lookup_scan.simps)
next
  case (Cons x xs)
  have "ocf_metadata_get_collision_next m x = hd_or (collision_table_entries m) xs"
    using Cons.prems by (simp add: ocf_metadata_get_collision_next_def ocf_metadata_get_collision_info_def nxt_col_def)
  with Cons show ?case
    by (subst lookup_scan.simps) (auto split: prod.splits)
qed

lemma caches_bucket:
  fixes core cl
  assumes inv: "cache_inv c L B"
  defines "h \<equiv> ocf_metadata_hash_func (md c) cl core"
  shows "caches c core cl x \<longleftrightarrow> x \<in> set (B h) \<and> ocf_metadata_get_core_info (md c) x = (core, cl)"
proof -
  note D = cache_invD [OF inv]
  have h: "h < hash_table_entries (md c)" using D(3) unfolding h_def by (simp add: coll_inv_def hash_func_less)
  show ?thesis
  proof
    assume c: "caches c core cl x"
    then have m: "mapped c x" by (simp add: caches_def)
    from mappedD [OF inv m] obtain h' where h': "h' < hash_table_entries (md c)" "x \<in> set (B h')" by (auto simp: in_table_def)
    have "h' = h" using coll_invD(4) [OF D(3) h'] c by (simp add: caches_def line_hash_def h_def ocf_metadata_get_core_info_def)
    with c h' show "x \<in> set (B h) \<and> ocf_metadata_get_core_info (md c) x = (core, cl)" by (simp add: caches_def)
  next
    assume x: "x \<in> set (B h) \<and> ocf_metadata_get_core_info (md c) x = (core, cl)"
    then have l: "x \<in> lines c" using coll_invD(3) [OF D(3) h] by (simp add: lines_def)
    have "in_table c B x" using h x by (auto simp: in_table_def)
    then show "caches c core cl x" using l x line_okD(3) [OF D(4) [OF l]] by (simp add: caches_def mapped_def)
  qed
qed

lemma caches_unique:
  assumes inv: "cache_inv c L B" and "caches c core cl x" "caches c core cl y"
  shows "x = y"
proof -
  let ?h = "ocf_metadata_hash_func (md c) cl core"
  note D = cache_invD [OF inv] and b = caches_bucket [OF inv, of core cl]
  have h: "?h < hash_table_entries (md c)" using D(3) by (simp add: coll_inv_def hash_func_less)
  have "inj_on (ocf_metadata_get_core_info (md c)) (set (B ?h))"
    using coll_invD(5) [OF D(3) h] by (simp add: distinct_map)
  then show ?thesis using assms(2,3) unfolding b by (metis inj_onD)
qed

lemma find_line_iff:
  assumes "cache_inv c L B"
  shows "find_line c core cl = Some x \<longleftrightarrow> caches c core cl x" "find_line c core cl = None \<longleftrightarrow> (\<forall>x. \<not> caches c core cl x)"
proof -
  have l: "caches c core cl x \<Longrightarrow> x \<in> set (all_lines c)" for x by (simp add: caches_def mapped_def set_all_lines)
  show n: "find_line c core cl = None \<longleftrightarrow> (\<forall>x. \<not> caches c core cl x)"
    using l by (auto simp: find_line_def find_None_iff)
  show "find_line c core cl = Some x \<longleftrightarrow> caches c core cl x"
  proof
    assume "find_line c core cl = Some x"
    then show "caches c core cl x" by (auto simp: find_line_def find_Some_iff)
  next
    assume x: "caches c core cl x"
    with n obtain y where y: "find_line c core cl = Some y" by blast
    then have "caches c core cl y" by (auto simp: find_line_def find_Some_iff)
    with caches_unique [OF assms x] y show "find_line c core cl = Some x" by simp
  qed
qed

definition found :: "'b ocf_cache \<Rightarrow> u16 \<Rightarrow> u64 \<Rightarrow> ocf_map_info \<Rightarrow> ocf_map_info" where
  "found c core cl e = e\<lparr>map_hash := ocf_metadata_hash_func (md c) cl core, map_core_line := cl, map_core_id := core,
     status := (if find_line c core cl = None then LOOKUP_MISS else LOOKUP_HIT),
     coll_idx := (case find_line c core cl of None \<Rightarrow> collision_table_entries (md c) | Some x \<Rightarrow> x)\<rparr>"

lemma lookup_map_entry_found:
  assumes inv: "cache_inv c L B"
  shows "ocf_engine_lookup_map_entry (md c) e core cl = Some (found c core cl e)"
proof -
  let ?m = "md c" and ?h = "ocf_metadata_hash_func (md c) cl core" and ?P = "\<lambda>x. ocf_metadata_get_core_info (md c) x = (core, cl)"
  note D = cache_invD [OF inv]
  have h: "?h < hash_table_entries ?m" using D(3) by (simp add: coll_inv_def hash_func_less)
  have dll: "dseg (nxt_col ?m) (prv_col ?m) (collision_table_entries ?m) (B ?h) (collision_table_entries ?m)"
    "collision_table_entries ?m \<notin> set (B ?h)" using coll_invD(1) [OF D(3) h] by (simp_all add: dll_def)
  have "List.find ?P (B ?h) = find_line c core cl"
  proof (cases "find_line c core cl")
    case None
    then have "\<not> (\<exists>x. x \<in> set (B ?h) \<and> ?P x)" using find_line_iff(2) [OF inv, of core cl] caches_bucket [OF inv, of core cl] by blast
    then show ?thesis unfolding None find_None_iff by blast
  next
    case (Some x)
    then have "x \<in> set (B ?h)" "?P x" using find_line_iff(1) [OF inv] caches_bucket [OF inv] by blast+
    then have "List.find ?P (B ?h) \<noteq> None" unfolding find_None_iff by blast
    then obtain y where y: "List.find ?P (B ?h) = Some y" by blast
    then have "y \<in> set (B ?h)" "?P y" by (auto simp: find_Some_iff)
    then have "caches c core cl y" using caches_bucket [OF inv] by blast
    then show ?thesis using y find_line_iff(1) [OF inv, of core cl y] by presburger
  qed
  then show ?thesis
    unfolding ocf_engine_lookup_map_entry_def Let_def ocf_metadata_get_hash_def coll_invD(2) [OF D(3) h] lookup_scan_seg [OF dll]
    by (simp add: found_def split: option.splits)
qed


section \<open>The request after the lookup\<close>

text \<open>The cache line of the core line number \<open>j\<close> of the request, and a property of that line.\<close>

definition line_of :: "'b ocf_cache \<Rightarrow> ocf_request \<Rightarrow> nat \<Rightarrow> u32 option" where
  "line_of c req j = find_line c (r_core req) (core_line_first req + of_nat j)"

definition on_line :: "'b ocf_cache \<Rightarrow> ocf_request \<Rightarrow> (nat \<Rightarrow> u32 \<Rightarrow> bool) \<Rightarrow> nat \<Rightarrow> bool" where
  "on_line c req P j = (case line_of c req j of None \<Rightarrow> False | Some x \<Rightarrow> P j x)"

definition count_upto :: "nat \<Rightarrow> (nat \<Rightarrow> bool) \<Rightarrow> nat" where
  "count_upto k P = length (filter P [0..<k])"

definition hit_on :: "'w::len word ocf_cache \<Rightarrow> ocf_request \<Rightarrow> nat \<Rightarrow> u32 \<Rightarrow> bool" where
  "hit_on c req j x \<longleftrightarrow> line_range c req j \<subseteq> line_valid c x"

definition dirty_on :: "'w::len word ocf_cache \<Rightarrow> ocf_request \<Rightarrow> nat \<Rightarrow> u32 \<Rightarrow> bool" where
  "dirty_on c req j x \<longleftrightarrow> line_range c req j \<subseteq> line_dirties c x"

definition follows :: "'b ocf_cache \<Rightarrow> ocf_request \<Rightarrow> nat \<Rightarrow> u32 \<Rightarrow> bool" where
  "follows c req j x \<longleftrightarrow> 0 < j \<and> (case line_of c req (j - 1) of None \<Rightarrow> False
     | Some y \<Rightarrow> ocf_metadata_map_lg2phy (md c) y < ocf_metadata_map_lg2phy (md c) x \<and>
         ocf_metadata_map_lg2phy (md c) y + 1 = ocf_metadata_map_lg2phy (md c) x)"

text \<open>The reference: the counters and the map after the first \<open>k\<close> core lines.\<close>

definition ref_info :: "'w::len word ocf_cache \<Rightarrow> ocf_request \<Rightarrow> nat \<Rightarrow> ocf_req_info" where
  "ref_info c req k = zero_info\<lparr>
     hit_no := of_nat (count_upto k (on_line c req (hit_on c req))),
     invalid_no := of_nat (count_upto k (on_line c req (\<lambda>j x. \<not> hit_on c req j x))),
     re_part_no := of_nat (count_upto k (on_line c req (\<lambda>j x. line_part c x \<noteq> r_part req))),
     seq_no := of_nat (count_upto k (on_line c req (follows c req))),
     dirty_any := of_nat (count_upto k (on_line c req (\<lambda>j x. line_dirties c x \<noteq> {}))),
     dirty_all := of_nat (count_upto k (on_line c req (dirty_on c req)))\<rparr>"

definition ref_entry :: "'b ocf_cache \<Rightarrow> ocf_request \<Rightarrow> nat \<Rightarrow> ocf_map_info" where
  "ref_entry c req j = (let e = found c (r_core req) (core_line_first req + of_nat j) (rmap req ! j)
     in if on_line c req (\<lambda>j x. line_part c x \<noteq> r_part req) j then e\<lparr>re_part := True\<rparr> else e)"

definition ref_upto :: "'w::len word ocf_cache \<Rightarrow> ocf_request \<Rightarrow> nat \<Rightarrow> ocf_request" where
  "ref_upto c req k = req\<lparr>info := ref_info c req k, rmap := map (ref_entry c req) [0..<k] @ drop k (rmap req)\<rparr>"

lemma count_upto_simps [simp]: "count_upto 0 P = 0" "count_upto (Suc k) P = (if P k then Suc (count_upto k P) else count_upto k P)"
  by (simp_all add: count_upto_def)

lemma map_sector_upd [simp]:
  "ocf_map_line_start_sector c (req\<lparr>info := i\<rparr>) j = ocf_map_line_start_sector c req j"
  "ocf_map_line_start_sector c (req\<lparr>rmap := es\<rparr>) j = ocf_map_line_start_sector c req j"
  "ocf_map_line_end_sector c (req\<lparr>info := i\<rparr>) j = ocf_map_line_end_sector c req j"
  "ocf_map_line_end_sector c (req\<lparr>rmap := es\<rparr>) j = ocf_map_line_end_sector c req j"
  by (simp_all add: ocf_map_line_start_sector_def ocf_map_line_end_sector_def)

lemma test_secs:
  assumes "cache_inv c L B" "range_ok c start stop" "x \<in> lines c"
  shows "metadata_test_valid_sec c x start stop = Some ({unat start..unat stop} \<subseteq> line_valid c x)"
    "metadata_test_dirty_all_sec c x start stop = Some ({unat start..unat stop} \<subseteq> line_dirties c x)"
    "metadata_test_dirty_sec c x start stop = Some ({unat start..unat stop} \<inter> line_dirties c x \<noteq> {})"
    "metadata_test_dirty c x = Some (line_dirties c x \<noteq> {})"
proof -
  note D = cache_invD [OF assms(1)]
  note r = range_okD(1) [OF assms(2) D(5)]
  show "metadata_test_valid_sec c x start stop = Some ({unat start..unat stop} \<subseteq> line_valid c x)"
    "metadata_test_dirty_all_sec c x start stop = Some ({unat start..unat stop} \<subseteq> line_dirties c x)"
    "metadata_test_dirty_sec c x start stop = Some ({unat start..unat stop} \<inter> line_dirties c x \<noteq> {})"
    by (simp_all add: metadata_test_valid_sec_def metadata_test_dirty_all_sec_def metadata_test_dirty_sec_def line_valid_def
        line_dirties_def valid_field.bit_ops_secs(1) [OF r refl] dirty_field.bit_ops_secs(1,2) [OF r refl])
  show "metadata_test_dirty c x = Some (line_dirties c x \<noteq> {})"
    using test_dirty_Some [OF D(5)] line_dirty_iff [OF D(5)] line_okD(7) [OF D(4) [OF assms(3)]] by simp
qed

lemma line_ofD:
  assumes "cache_inv c L B" "line_of c req j = Some x"
  shows "caches c (r_core req) (core_line_first req + of_nat j) x" "x \<in> lines c" "mapped c x"
  using assms find_line_iff(1) [OF assms(1)] by (simp_all add: line_of_def caches_def mapped_def)


lemma range_nonempty: "req_ok c req \<Longrightarrow> j < unat (r_line_count req) \<Longrightarrow> line_range c req j \<noteq> {}"
  using req_range(3) [of c req j] by (simp add: line_range_def range_ok_def word_le_nat_alt)

lemma unat_of_nat_count: "unat (of_nat j :: u32) = j" if "j < unat (w :: u32)"
proof -
  have "unat w < 2 ^ 32" using unsigned_less [of w] by simp
  with that have "j < 2 ^ 32" by (rule less_trans)
  then show ?thesis by (simp add: unsigned_of_nat take_bit_nat_eq_self)
qed

lemma rd_int: "rd es (int i) = (if i < length es then Some (es ! i) else None)"
  by (simp add: rd_def)

lemma rd_uint: "rd es (uint w) = (if unat w < length es then Some (es ! unat w) else None)" for w :: "'a::len word"
  using rd_int [of es "unat w"] by simp

lemma status_found:
  "status (found c core cl e) = (if find_line c core cl = None then LOOKUP_MISS else LOOKUP_HIT)"
  "find_line c core cl = Some x \<Longrightarrow> coll_idx (found c core cl e) = x"
  by (simp_all add: found_def)

lemma ref_entry_simps:
  "status (ref_entry c req j) = (if line_of c req j = None then LOOKUP_MISS else LOOKUP_HIT)"
  "line_of c req j = Some x \<Longrightarrow> coll_idx (ref_entry c req j) = x"
  "map_core_id (ref_entry c req j) = r_core req" "map_core_line (ref_entry c req j) = core_line_first req + of_nat j"
  by (simp_all add: ref_entry_def line_of_def Let_def found_def)

lemma phys_cont_ref:
  assumes k: "0 < k" "k < n" "n = unat (r_line_count req)" "unat (of_nat k :: u32) = k"
    and es: "rmap req' = map (ref_entry c req) [0..<k] @ e # ys" and e: "status e = LOOKUP_HIT" "coll_idx e = x"
  shows "ocf_engine_clines_phys_cont (md c) req' (of_nat k - 1) = Some (follows c req k x)"
proof -
  have u: "unat (of_nat k - 1 :: u32) = k - 1" "unat (of_nat k - 1 + 1 :: u32) = k" using k(1,4) by simp_all
  have r: "rd (rmap req') (uint (of_nat k - 1 :: u32)) = Some (ref_entry c req (k - 1))" "rd (rmap req') (uint (of_nat k - 1 + 1 :: u32)) = Some e"
    unfolding rd_uint u using k(1) by (simp_all add: es nth_append)
  show ?thesis
    using r e k(1) ref_entry_simps(1,2) [of c req "k - 1"]
    by (auto simp: ocf_engine_clines_phys_cont_def follows_def Let_def split: option.splits)
qed

lemma update_info_step:
  assumes inv: "cache_inv c L B" and ok: "req_ok c req" and k: "k < unat (r_line_count req)" and x: "line_of c req k = Some x"
  defines "e \<equiv> found c (r_core req) (core_line_first req + of_nat k) (rmap req ! k)"
  shows "ocf_engine_update_req_info c (of_nat k)
      (req\<lparr>info := ref_info c req k, rmap := map (ref_entry c req) [0..<k] @ e # drop (Suc k) (rmap req)\<rparr>) =
    Some (ref_upto c req (Suc k))"
proof -
  note l = line_ofD [OF inv x] and uk = unat_of_nat_count [OF k]
  note t = test_secs [OF inv req_range(3) [OF ok k] l(2), folded line_range_def]
  have e: "status e = LOOKUP_HIT" "coll_idx e = x" using x by (simp_all add: e_def status_found line_of_def)
  have pid: "ocf_metadata_get_partition_id (md c) x = line_part c x" by (simp add: line_part_def)
  have rde: "rd (map (ref_entry c req) [0..<k] @ e # ys) (uint (of_nat k :: u32)) = Some e" for ys
    unfolding rd_uint uk by (simp add: nth_append)
  have u: "(map (ref_entry c req) [0..<k] @ e # ys)[k := v] = map (ref_entry c req) [0..<k] @ v # ys" for v ys
    by (simp add: list_update_append)
  have k0: "(0 :: u32) < of_nat k \<longleftrightarrow> 0 < k" by (simp add: word_less_nat_alt uk)
  have nd: "dirty_on c req k x \<Longrightarrow> line_dirties c x \<noteq> {}" using range_nonempty [OF ok k] by (auto simp: dirty_on_def)
  have re: "ref_entry c req k = (if line_part c x \<noteq> r_part req then e\<lparr>re_part := True\<rparr> else e)"
    using x by (simp add: ref_entry_def e_def on_line_def)
  note pc = phys_cont_ref [OF _ k refl uk]
  have t': "metadata_test_valid_sec c x (ocf_map_line_start_sector c req (of_nat k)) (ocf_map_line_end_sector c req (of_nat k)) = Some (hit_on c req k x)"
    "metadata_test_dirty_all_sec c x (ocf_map_line_start_sector c req (of_nat k)) (ocf_map_line_end_sector c req (of_nat k)) = Some (dirty_on c req k x)"
    using t by (simp_all add: hit_on_def dirty_on_def)
  have on: "on_line c req P k = P k x" for P using x by (simp add: on_line_def)
  define b where "b = (0 < k)"
  have kb: "(0 :: u32) < of_nat k \<longleftrightarrow> b" using k0 by (simp add: b_def)
  have fb: "\<not> b \<Longrightarrow> \<not> follows c req k x" by (simp add: b_def follows_def)
  have pb: "ocf_engine_clines_phys_cont (md c) req' (of_nat k - 1) = Some (follows c req k x)"
    if "b" "rmap req' = map (ref_entry c req) [0..<k] @ e' # drop (Suc k) (rmap req)" "e' = e \<or> e' = e\<lparr>re_part := True\<rparr>"
    for req' e' using that e by (auto simp: b_def intro!: pc)
  note pb = pb [OF _ _ disjI1 [OF refl]] pb [OF _ _ disjI2 [OF refl]]
  note run = rde e t' t(4) pid u uk kb pb fb on re map_sector_upd Let_def
  show ?thesis
    unfolding ocf_engine_update_req_info_def ref_upto_def ref_info_def
    by (cases b; cases "hit_on c req k x"; cases "line_dirties c x = {}"; cases "dirty_on c req k x";
        cases "line_part c x = r_part req"; cases "follows c req k x")
      (use nd in \<open>simp_all add: run del: unsigned_of_nat\<close>)
qed


lemma ref_upto_simps [simp]:
  "core_line_last (ref_upto c req k) = core_line_last req" "r_core (ref_upto c req k) = r_core req"
  "r_line_count (ref_upto c req k) = r_line_count req"
  "info (ref_upto c req k) = ref_info c req k" "rmap (ref_upto c req k) = map (ref_entry c req) [0..<k] @ drop k (rmap req)"
  by (simp_all add: ref_upto_def)

lemma core_line_unat:
  assumes "req_ok c req" "j \<le> unat (r_line_count req)"
  shows "unat (core_line_first req + of_nat j) = unat (core_line_first req) + j"
proof -
  note L = req_lines [OF assms(1)]
  have b: "unat (core_line_first req) + j < 2 ^ 64" using L(1,3,4,5) assms(2) by simp
  then have "unat (of_nat j :: u64) = j" by (simp add: unsigned_of_nat take_bit_nat_eq_self)
  with b show ?thesis by (subst unat_add_lem [THEN iffD1]) simp_all
qed

lemma lookup_loop_ref:
  assumes inv: "cache_inv c L B" and ok: "req_ok c req" and k: "k \<le> unat (r_line_count req)"
  shows "lookup_loop c (of_nat k) (core_line_first req + of_nat k) (ref_upto c req k) = Some (ref_upto c req (unat (r_line_count req)))"
  using k
proof (induction rule: inc_induct)
  case base
  have "\<not> core_line_first req + of_nat (unat (r_line_count req)) \<le> core_line_last req"
    unfolding word_le_nat_alt core_line_unat [OF ok le_refl] using req_lines [OF ok] by simp
  then show ?case by (subst lookup_loop.simps) (simp del: word_of_nat_eq_0_iff)
next
  case (step k)
  let ?cl = "core_line_first req + of_nat k :: u64" and ?e = "rmap req ! k"
  let ?f = "found c (r_core req) ?cl ?e"
  note uk = unat_of_nat_count [OF step(2)]
  have le: "?cl \<le> core_line_last req"
    unfolding word_le_nat_alt core_line_unat [OF ok less_imp_le [OF step(2)]] using req_lines [OF ok] step(2) by simp
  have len: "length (rmap req) = unat (r_line_count req)" using ok by (simp add: req_ok_def)
  have rde: "rd (map (ref_entry c req) [0..<k] @ drop k (rmap req)) (uint (of_nat k :: u32)) = Some ?e"
    unfolding rd_uint uk using step(2) len by (simp add: nth_append)
  have upd: "(map (ref_entry c req) [0..<k] @ drop k (rmap req))[k := v] = map (ref_entry c req) [0..<k] @ v # drop (Suc k) (rmap req)" for v
    using step(2) len by (simp add: list_update_append Cons_nth_drop_Suc [symmetric])
  have next_req: "(if status ?f \<noteq> LOOKUP_HIT then Some (ref_upto c req k\<lparr>rmap := map (ref_entry c req) [0..<k] @ ?f # drop (Suc k) (rmap req)\<rparr>)
      else ocf_engine_update_req_info c (of_nat k) (ref_upto c req k\<lparr>rmap := map (ref_entry c req) [0..<k] @ ?f # drop (Suc k) (rmap req)\<rparr>)) =
    Some (ref_upto c req (Suc k))"
  proof (cases "line_of c req k")
    case None
    then have "\<not> on_line c req P k" for P by (simp add: on_line_def)
    with None show ?thesis by (simp add: ref_upto_def ref_info_def ref_entry_def status_found line_of_def)
  next
    case (Some x)
    with update_info_step [OF inv ok step(2) Some] show ?thesis by (simp add: ref_upto_def status_found line_of_def)
  qed
  have nx: "lookup_loop c (of_nat k + 1) (?cl + 1) (ref_upto c req (Suc k)) = Some (ref_upto c req (unat (r_line_count req)))"
    using step.IH by (simp add: algebra_simps)
  show ?case
    by (subst lookup_loop.simps)
      (simp add: le rde lookup_map_entry_found [OF inv] uk upd next_req nx Let_def del: unsigned_of_nat)
qed

lemma ref_upto_0: "ref_upto c req 0 = ocf_req_clear_info req"
  by (simp add: ref_upto_def ref_info_def ocf_req_clear_info_def zero_info_def)

lemma engine_lookup_ref:
  assumes "cache_inv c L B" "req_ok c req"
  shows "ocf_engine_lookup c req = Some (ref_upto c req (unat (r_line_count req)))"
  using lookup_loop_ref [OF assms, of 0] by (simp add: ocf_engine_lookup_def ref_upto_0)


section \<open>The verdicts, by sectors\<close>

text \<open>
  The abstract view of the cache: the sectors of the cores that are in it. \<open>F\<close> gives the sectors of a
  line.
\<close>

definition sector_has :: "'b ocf_cache \<Rightarrow> (u32 \<Rightarrow> nat set) \<Rightarrow> u16 \<Rightarrow> nat \<Rightarrow> bool" where
  "sector_has c F core s \<longleftrightarrow> (\<exists>x. mapped c x \<and> line_core c x = core \<and> unat (line_addr c x) = s div nsec c \<and> s mod nsec c \<in> F x)"

definition sector_valid :: "'w::len word ocf_cache \<Rightarrow> u16 \<Rightarrow> nat \<Rightarrow> bool" where
  "sector_valid c = sector_has c (line_valid c)"

definition sector_dirty :: "'w::len word ocf_cache \<Rightarrow> u16 \<Rightarrow> nat \<Rightarrow> bool" where
  "sector_dirty c = sector_has c (line_dirties c)"

lemma count_upto_le: "count_upto k P \<le> k"
  unfolding count_upto_def by (rule le_trans [OF length_filter_le]) simp

lemma count_upto_all: "count_upto k P = k \<longleftrightarrow> (\<forall>j < k. P j)"
  using count_upto_le [of _ P] by (induction k) (auto simp: less_Suc_eq le_less_trans Suc_le_eq, (metis Suc_n_not_le_n)+)

lemma count_eq_all:
  "of_nat (count_upto (unat n) P) = (n :: u32) \<longleftrightarrow> (\<forall>j < unat n. P j)"
proof -
  have "unat n < 2 ^ 32" using unsigned_less [of n] by simp
  with count_upto_le [of "unat n" P] have "count_upto (unat n) P < 2 ^ 32" by linarith
  then have "of_nat (count_upto (unat n) P) = n \<longleftrightarrow> count_upto (unat n) P = unat n"
    by (simp add: word_unat_eq_iff unsigned_of_nat take_bit_nat_eq_self)
  then show ?thesis unfolding count_upto_all .
qed

lemma caches_iff: "caches c core cl x \<longleftrightarrow> mapped c x \<and> line_core c x = core \<and> line_addr c x = cl"
  by (simp add: caches_def ocf_metadata_get_core_info_def line_core_def line_addr_def)

lemma sector_has_line:
  assumes inv: "cache_inv c L B" and ok: "req_ok c req" and j: "j < unat (r_line_count req)"
    and s: "s div nsec c = unat (core_line_first req) + j"
  shows "sector_has c F (r_core req) s \<longleftrightarrow> (\<exists>x. line_of c req j = Some x \<and> s mod nsec c \<in> F x)"
proof -
  have "unat (line_addr c x) = s div nsec c \<longleftrightarrow> line_addr c x = core_line_first req + of_nat j" for x
    unfolding s core_line_unat [OF ok less_imp_le [OF j], symmetric] word_unat_eq_iff ..
  then show ?thesis
    unfolding sector_has_def line_of_def find_line_iff(1) [OF inv] caches_iff by auto
qed

lemma line_range_bound:
  assumes "req_ok c req" "j < unat (r_line_count req)" "i \<in> line_range c req j"
  shows "i < nsec c"
proof -
  note S = settings_facts [OF conjunct1 [OF assms(1) [unfolded req_ok_def]]]
  have "i \<le> unat (sector_end (md c))"
    using req_range(3) [OF assms(1,2)] assms(3) by (auto simp: range_ok_def line_range_def word_le_nat_alt)
  then show ?thesis using S(2,4) by linarith
qed

lemma all_on_iff:
  assumes inv: "cache_inv c L B" and ok: "req_ok c req"
  shows "(\<forall>j < unat (r_line_count req). on_line c req (\<lambda>j x. line_range c req j \<subseteq> F x) j) \<longleftrightarrow>
    (\<forall>s \<in> req_sectors req. sector_has c F (r_core req) s)"
proof (intro iffI ballI allI impI)
  fix s assume all: "\<forall>j < unat (r_line_count req). on_line c req (\<lambda>j x. line_range c req j \<subseteq> F x) j" and "s \<in> req_sectors req"
  then obtain j where j: "j < unat (r_line_count req)" "s div nsec c = unat (core_line_first req) + j" "s mod nsec c \<in> line_range c req j"
    using req_sectors_iff [OF ok] by blast
  with all show "sector_has c F (r_core req) s"
    unfolding sector_has_line [OF inv ok j(1,2)] by (cases "line_of c req j") (auto simp: on_line_def dest!: spec [of _ j])
next
  fix j assume all: "\<forall>s \<in> req_sectors req. sector_has c F (r_core req) s" and j: "j < unat (r_line_count req)"
  have "\<exists>x. line_of c req j = Some x \<and> i \<in> F x" if i: "i \<in> line_range c req j" for i
  proof -
    let ?s = "(unat (core_line_first req) + j) * nsec c + i"
    have n: "i < nsec c" using line_range_bound [OF ok j i] .
    have s: "?s div nsec c = unat (core_line_first req) + j" "?s mod nsec c = i" using n by simp_all
    have "?s \<in> req_sectors req" unfolding req_sectors_iff [OF ok] s using i j by blast
    then have "sector_has c F (r_core req) ?s" using all by blast
    then show ?thesis unfolding sector_has_line [OF inv ok j s(1)] s(2) .
  qed
  then show "on_line c req (\<lambda>j x. line_range c req j \<subseteq> F x) j"
    using range_nonempty [OF ok j] by (fastforce simp: on_line_def split: option.splits)
qed

lemma lookup_verdicts:
  assumes inv: "cache_inv c L B" and ok: "req_ok c req" and req': "req' = ref_upto c req (unat (r_line_count req))"
  shows "ocf_engine_is_hit req' \<longleftrightarrow> (\<forall>s \<in> req_sectors req. sector_valid c (r_core req) s)"
    "ocf_engine_is_dirty_all req' \<longleftrightarrow> (\<forall>s \<in> req_sectors req. sector_dirty c (r_core req) s)"
    "ocf_engine_is_mapped req' \<longleftrightarrow> (\<forall>j < unat (r_line_count req). line_of c req j \<noteq> None)"
proof -
  show "ocf_engine_is_hit req' \<longleftrightarrow> (\<forall>s \<in> req_sectors req. sector_valid c (r_core req) s)"
    unfolding req' ocf_engine_is_hit_def ref_upto_simps ref_info_def sector_valid_def all_on_iff [OF inv ok, symmetric]
    by (simp add: count_eq_all hit_on_def [abs_def])
  show "ocf_engine_is_dirty_all req' \<longleftrightarrow> (\<forall>s \<in> req_sectors req. sector_dirty c (r_core req) s)"
    unfolding req' ocf_engine_is_dirty_all_def ref_upto_simps ref_info_def sector_dirty_def all_on_iff [OF inv ok, symmetric]
    by (simp add: count_eq_all dirty_on_def [abs_def])
  have "count_upto k (on_line c req P) + count_upto k (on_line c req (\<lambda>j x. \<not> P j x)) = count_upto k (\<lambda>j. line_of c req j \<noteq> None)" for k P
    by (induction k) (auto simp: on_line_def split: option.splits)
  then show "ocf_engine_is_mapped req' \<longleftrightarrow> (\<forall>j < unat (r_line_count req). line_of c req j \<noteq> None)"
    unfolding req' ocf_engine_is_mapped_def ref_upto_simps ref_info_def
    by (simp add: count_eq_all of_nat_add [symmetric] del: of_nat_add)
qed


section \<open>The settings never change\<close>

definition settings_of :: "'b ocf_cache \<Rightarrow> u64 \<times> u64 \<times> u8 \<times> u8" where
  "settings_of c = (line_size (md c), sector_count (md c), sector_start (md c), sector_end (md c))"

named_theorems keeps

lemma settings_same: "settings_of c' = settings_of c \<Longrightarrow> settings_ok (md c') = settings_ok (md c) \<and> nsec c' = nsec c"
  by (simp add: settings_of_def settings_ok_def nsec_def)

lemma settings_simple [simp]:
  "settings_of (set_status x s c) = settings_of c" "settings_of (upd_core k f c) = settings_of c"
  "settings_of (event e c) = settings_of c" "settings_of (upd_part p g c) = settings_of c"
  "settings_of (c\<lparr>c_alock := a\<rparr>) = settings_of c" "settings_of (c\<lparr>lru_meta := m\<rparr>) = settings_of c"
  "settings_of (c\<lparr>md := ocf_metadata_set_partition_id l q (md c)\<rparr>) = settings_of c"
  by (simp_all add: settings_of_def set_status_def upd_core_def event_def upd_part_def ocf_metadata_set_partition_id_def)

lemma settings_set_list [simp]: "settings_of (set_list r l c) = settings_of c"
  by (cases r) (simp add: set_list.simps)

lemma on_list_keeps [keeps]: "on_list f r x c = Some c' \<Longrightarrow> settings_of c' = settings_of c"
  by (auto simp: on_list_def split: bind_splits)

lemma lru_keeps [keeps]:
  "ocf_lru_move x r r' c = Some c' \<Longrightarrow> settings_of c' = settings_of c"
  "ocf_lru_clean_cline p x c = Some c' \<Longrightarrow> settings_of c' = settings_of c"
  "ocf_lru_dirty_cline p x c = Some c' \<Longrightarrow> settings_of c' = settings_of c"
  by (auto simp: ocf_lru_move_def ocf_lru_clean_cline_def ocf_lru_dirty_cline_def Let_def split: bind_splits dest!: keeps)

lemma lru_word_keeps [keeps]:
  "ocf_lru_repart_locked x p q c = Some c' \<Longrightarrow> settings_of c' = settings_of c"
  "ocf_lru_hot_cline x c = Some c' \<Longrightarrow> settings_of c' = settings_of c"
  by (auto simp: ocf_lru_repart_locked_def ocf_lru_hot_cline_def Let_def bug_on_bind split: bind_splits if_splits dest!: keeps)

lemma lru_rm_keeps [keeps]:
  "ocf_lru_rm_cline x c = Some c' \<Longrightarrow> settings_of c' = settings_of c"
  "lru_take x p q r c = Some c' \<Longrightarrow> settings_of c' = settings_of c"
  by (auto simp: ocf_lru_rm_cline_def ocf_lru_repart_def lru_take_def split: bind_splits if_splits dest!: keeps)

lemma settings_md:
  "line_size m = line_size (md c) \<Longrightarrow> sector_count m = sector_count (md c) \<Longrightarrow> sector_start m = sector_start (md c) \<Longrightarrow>
   sector_end m = sector_end (md c) \<Longrightarrow> settings_of (c\<lparr>md := m\<rparr>) = settings_of c"
  by (simp add: settings_of_def)

lemma collision_keeps:
  "ocf_metadata_remove_from_collision x (md c) = Some m \<Longrightarrow> settings_of (c\<lparr>md := m\<rparr>) = settings_of c"
  "ocf_metadata_add_to_collision k cl h x (md c) = Some m \<Longrightarrow> settings_of (c\<lparr>md := m\<rparr>) = settings_of c"
  by (rule settings_md;
      auto simp: ocf_metadata_remove_from_collision_def ocf_metadata_add_to_collision_def Let_def bug_on_bind
        ocf_metadata_set_core_info_def ocf_metadata_set_collision_info_def ocf_metadata_set_collision_next_def
        ocf_metadata_set_collision_prev_def ocf_metadata_set_hash_def split: if_splits prod.splits)+

lemma counters_keep [keeps]:
  "add_cached n k p c = Some c' \<Longrightarrow> settings_of c' = settings_of c"
  "add_part_dirty n k p c = Some c' \<Longrightarrow> settings_of c' = settings_of c"
  "ocf_metadata_remove_cache_line x c = Some c' \<Longrightarrow> settings_of c' = settings_of c"
  "ocf_map_cache_line k cl h x c = Some c' \<Longrightarrow> settings_of c' = settings_of c"
  by (auto simp: add_cached_def add_part_dirty_def ocf_metadata_remove_cache_line_def ocf_map_cache_line_def bug_on_bind collision_keeps
      split: bind_splits if_splits)

lemma line_ops_keep [keeps]:
  "set_line_invalid a b x k p c = Some c' \<Longrightarrow> settings_of c' = settings_of c"
  "set_cache_line_valid a b k x c = Some c' \<Longrightarrow> settings_of c' = settings_of c"
  "set_cache_line_clean a b k x c = Some c' \<Longrightarrow> settings_of c' = settings_of c"
  "set_cache_line_dirty t a b k x c = Some c' \<Longrightarrow> settings_of c' = settings_of c"
  "ocf_lru_invalidate x k p c = Some c' \<Longrightarrow> settings_of c' = settings_of c"
  by (auto simp: set_line_invalid_def set_cache_line_valid_def set_cache_line_clean_def set_cache_line_dirty_def ocf_lru_invalidate_def
      bug_on_bind Let_def collision_keeps split: bind_splits if_splits prod.splits dest!: keeps)

lemma exec_keeps: "exec op c = Some c' \<Longrightarrow> settings_of c' = settings_of c"
  by (cases op) (auto simp: set_cache_line_invalid_def Let_def split: bind_splits dest!: keeps)

lemma populate_keeps: "ocf_lru_populate n c = Some c' \<Longrightarrow> settings_of c' = settings_of c"
proof -
  have "populate_loop k p c = Some (p', c') \<Longrightarrow> settings_of c' = settings_of c" for k p p' and c c' :: "'w::len word ocf_cache"
    by (induction k arbitrary: p c) (fastforce simp: bug_on_bind Let_def split: bind_splits if_splits dest!: keeps)+
  then show "ocf_lru_populate n c = Some c' \<Longrightarrow> settings_of c' = settings_of c"
    by (auto simp: ocf_lru_populate_def bug_on_bind split: bind_splits if_splits prod.splits)
qed


section \<open>Properties\<close>

text \<open>A cache of the sample that holds the core line 5 of the core 1.\<close>

lemma sample_cached:
  "\<exists>c :: 8 word ocf_cache. cache_reach c \<and> settings_ok (md c) \<and>
     abs_cache c = [3 \<mapsto> \<lparr>cl_part = 0, cl_core = 1, cl_addr = 5, cl_valid = {0..7}, cl_dirty = {}\<rparr>]"
proof -
  from fresh_cache_ok [OF sample_fresh] obtain c L where
    c: "ocf_lru_populate (collision_table_entries (md sample_cache)) (init_parts_attached sample_cache) = Some c"
      "lines c = lines sample_cache" "\<forall>x \<in> lines c. line_part c x = PARTITION_FREELIST" by blast
  have r: "cache_reach c" by (rule cache_reach.Start [OF sample_fresh c(1)])
  have "md (init_parts_attached sample_cache) = md sample_cache" using init_parts_ok(3) [of sample_cache] sample_fresh by (simp add: fresh_metadata_def)
  then have "settings_of c = settings_of sample_cache" using populate_keeps [OF c(1)] by (simp add: settings_of_def)
  then have s: "settings_ok (md c)" "nsec c = 8"
    by (simp_all add: settings_of_def settings_ok_def nsec_def sample_cache_def ocf_cache_line_size_is_valid_def BYTES_TO_SECTORS_def ENV_SECTOR_SHIFT_def)
  have ok: "op_ok (Map_free 3 0 1 5) c"
  proof -
    have "(3 :: u32) \<in> lines c" unfolding c(2) by (simp add: lines_def sample_cache_def)
    moreover have "not_cached c 1 5" using c(3) unfolding not_cached_def mapped_def by blast
    ultimately show ?thesis using c(3) by (simp add: OCF_USER_IO_CLASS_MAX_def OCF_CORE_MAX_def)
  qed
  have none: "abs_cache c = Map.empty" using c(3) by (auto simp: abs_cache_def mapped_def)
  from cache_reach_inv [OF r] obtain L B where inv: "cache_inv c L B" by blast
  from exec_refines [OF inv ok] obtain c1 L1 B1 where
    c1: "exec (Map_free 3 0 1 5) c = Some c1" "cache_inv c1 L1 B1"
      "abs_cache c1 = [3 \<mapsto> \<lparr>cl_part = 0, cl_core = 1, cl_addr = 5, cl_valid = {}, cl_dirty = {}\<rparr>]"
    unfolding none by auto
  have r1: "cache_reach c1" by (rule cache_reach.Step [OF r ok c1(1)])
  have s1: "settings_ok (md c1)" "nsec c1 = 8" using s settings_same [OF exec_keeps [OF c1(1)]] by simp_all
  have "mapped c1 3" using fun_cong [OF c1(3), of 3] by (auto simp: abs_cache_def split: if_splits)
  moreover have "range_ok c1 0 7" using settings_facts(4,5) [OF s1(1)] s1(2) by (simp add: range_ok_def word_le_nat_alt)
  ultimately have ok1: "op_ok (Set_valid 3 0 7) c1" by simp
  from exec_refines [OF c1(2) ok1] obtain c2 where
    c2: "exec (Set_valid 3 0 7) c1 = Some c2" "abs_cache c2 = abs_exec (has_waiters c1 3) (Set_valid 3 0 7) (abs_cache c1)" by auto
  have "cache_reach c2" by (rule cache_reach.Step [OF r1 ok1 c2(1)])
  moreover have "settings_ok (md c2)" using s1 settings_same [OF exec_keeps [OF c2(1)]] by simp
  moreover have "abs_cache c2 = [3 \<mapsto> \<lparr>cl_part = 0, cl_core = 1, cl_addr = 5, cl_valid = {0..7}, cl_dirty = {}\<rparr>]"
    unfolding c2(2) c1(3) by (auto simp: fun_eq_iff)
  ultimately show ?thesis by blast
qed

lemma abs_caches: "abs_cache c x = Some l \<Longrightarrow> caches c (cl_core l) (cl_addr l) x \<and> line_valid c x = cl_valid l \<and> line_dirties c x = cl_dirty l"
  by (auto simp: abs_cache_def caches_iff split: if_splits)

lemma sample_request:
  "\<exists>(c :: 8 word ocf_cache) req. cache_reach c \<and> settings_ok (md c) \<and> (\<forall>s \<in> {41..42}. sector_valid c 1 s) \<and>
     ocf_req_new_extended (\<lambda>_. True) True (hit_entry 0) c 1 20992 1024 = Some req"
proof -
  from sample_cached obtain c :: "8 word ocf_cache" where
    c: "cache_reach c" "settings_ok (md c)"
      "abs_cache c = [3 \<mapsto> \<lparr>cl_part = 0, cl_core = 1, cl_addr = 5, cl_valid = {0..7}, cl_dirty = {}\<rparr>]" by blast
  have l: "caches c 1 5 3" "line_valid c 3 = {0..7}" using abs_caches [of c 3] c(3) by fastforce+
  from cache_reach_inv [OF c(1)] obtain L B where "cache_inv c L B" by blast
  then have "sectors_ok c" by (rule cache_invD(5))
  then have n: "nsec c = 8" using settings_facts [OF c(2)] by (simp add: sectors_ok_def sector_range_def)
  have "sector_valid c 1 s" if "s \<in> {41..42}" for s
  proof -
    have "s = 41 \<or> s = 42" using that by fastforce
    then have "s div 8 = 5" "s mod 8 \<in> {0..7}" by (elim disjE; simp)+
    then show ?thesis unfolding sector_valid_def sector_has_def n using l by (intro exI [of _ 3]) (simp add: caches_iff)
  qed
  moreover have "\<exists>req. ocf_req_new_extended (\<lambda>_. True) True (hit_entry 0) c 1 20992 1024 = Some req"
    by (simp add: ocf_req_new_extended_def ocf_req_new_def ocf_req_alloc_map_def Let_def split: prod.splits)
  ultimately show ?thesis using c(1,2) by blast
qed

text \<open>
  Property C26. The hash lookup of a core line is equivalent to a linear search through all cache lines.
  In every reachable state the walk along the collision list terminates; it reports a hit on the one
  line that caches the core line when there is one, and a miss, with the end marker as the line,
  otherwise.
\<close>

theorem lookup_is_linear_search:
  assumes "cache_reach c"
  shows "\<exists>e'. ocf_engine_lookup_map_entry (md c) e core cl = Some e' \<and>
    (case find_line c core cl of
       None \<Rightarrow> status e' = LOOKUP_MISS \<and> coll_idx e' = collision_table_entries (md c)
     | Some x \<Rightarrow> status e' = LOOKUP_HIT \<and> coll_idx e' = x) \<and>
    map_core_id e' = core \<and> map_core_line e' = cl \<and> map_hash e' = ocf_metadata_hash_func (md c) cl core"
proof -
  from cache_reach_inv [OF assms] obtain L B where "cache_inv c L B" by blast
  from lookup_map_entry_found [OF this, of e core cl] show ?thesis by (simp add: found_def split: option.splits)
qed

theorem lookup_is_linear_search_witness:
  "\<exists>c :: 8 word ocf_cache. find_line c 1 5 = Some 3 \<and> (\<exists>e'. ocf_engine_lookup_map_entry (md c) (hit_entry 0) 1 5 = Some e' \<and>
     status e' = LOOKUP_HIT \<and> coll_idx e' = 3)"
proof -
  from sample_cached obtain c :: "8 word ocf_cache" where
    c: "cache_reach c" "abs_cache c = [3 \<mapsto> \<lparr>cl_part = 0, cl_core = 1, cl_addr = 5, cl_valid = {0..7}, cl_dirty = {}\<rparr>]" by blast
  from cache_reach_inv [OF c(1)] obtain L B where "cache_inv c L B" by blast
  then have "find_line c 1 5 = Some 3" using abs_caches [of c 3] c(2) find_line_iff(1) by fastforce
  with lookup_is_linear_search [OF c(1), of "hit_entry 0" 1 5] show ?thesis by (intro exI [of _ c]) auto
qed

text \<open>
  Property C7. The engine's verdict on a request is exact. For a request of at least one byte the lookup
  of all its core lines returns; the request counts as a hit exactly when every sector it covers is
  valid in the cache, as fully dirty exactly when every sector is dirty, and as mapped exactly when
  every one of its core lines has a cache line.
\<close>

theorem engine_lookup_exact:
  assumes "cache_reach c" "settings_ok (md c)"
    "ocf_req_new_extended pool mem e0 c core addr bytes = Some req" "0 < bytes" "unat addr + unat bytes \<le> 2 ^ 64"
  shows "\<exists>req'. ocf_engine_lookup c req = Some req' \<and>
    (ocf_engine_is_hit req' \<longleftrightarrow> (\<forall>s \<in> {unat addr div 512..(unat addr + unat bytes - 1) div 512}. sector_valid c core s)) \<and>
    (ocf_engine_is_dirty_all req' \<longleftrightarrow> (\<forall>s \<in> {unat addr div 512..(unat addr + unat bytes - 1) div 512}. sector_dirty c core s)) \<and>
    (ocf_engine_is_mapped req' \<longleftrightarrow> (\<forall>cl \<in> {unat addr div unat (line_size (md c))..(unat addr + unat bytes - 1) div unat (line_size (md c))}.
       find_line c core (of_nat cl) \<noteq> None))"
proof -
  from cache_reach_inv [OF assms(1)] obtain L B where inv: "cache_inv c L B" by blast
  note R = req_new_ok [OF assms(3,2,4,5)]
  note S = settings_facts(1) [OF assms(2)] and G = req_lines [OF R(1)]
  have sec: "req_sectors req = {unat addr div 512..(unat addr + unat bytes - 1) div 512}"
    by (simp add: req_sectors_def sec_first_def sec_last_def R)
  have lines: "unat addr div unat (line_size (md c)) = unat (core_line_first req)"
    "(unat addr + unat bytes - 1) div unat (line_size (md c)) = unat (core_line_first req) + unat (r_line_count req) - 1"
    using G by (simp_all add: S div_mult2_eq sec_first_def sec_last_def R)
  have all: "(\<forall>j < unat (r_line_count req). line_of c req j \<noteq> None) \<longleftrightarrow>
    (\<forall>cl \<in> {unat (core_line_first req)..unat (core_line_first req) + unat (r_line_count req) - 1}. find_line c core (of_nat cl) \<noteq> None)"
    (is "?l = ?r")
  proof
    assume l: ?l
    show ?r
    proof
      fix cl assume "cl \<in> {unat (core_line_first req)..unat (core_line_first req) + unat (r_line_count req) - 1}"
      then obtain j where "cl = unat (core_line_first req) + j" "j < unat (r_line_count req)"
        using G(3) by (intro that [of "cl - unat (core_line_first req)"]) auto
      with l show "find_line c core (of_nat cl) \<noteq> None" by (simp add: line_of_def R)
    qed
  next
    assume r: ?r
    show ?l
    proof (intro allI impI)
      fix j assume "j < unat (r_line_count req)"
      then have m: "unat (core_line_first req) + j \<in> {unat (core_line_first req)..unat (core_line_first req) + unat (r_line_count req) - 1}" by auto
      from bspec [OF r m] show "line_of c req j \<noteq> None" by (simp add: line_of_def R)
    qed
  qed
  from lookup_verdicts [OF inv R(1) refl] engine_lookup_ref [OF inv R(1)] show ?thesis
    unfolding lines sec all [symmetric] by (auto simp: R sec)
qed

theorem engine_lookup_exact_witness:
  "\<exists>(c :: 8 word ocf_cache) req req'. ocf_req_new_extended (\<lambda>_. True) True (hit_entry 0) c 1 20992 1024 = Some req \<and>
     ocf_engine_lookup c req = Some req' \<and> ocf_engine_is_hit req'"
proof -
  from sample_request obtain c :: "8 word ocf_cache" and req where
    c: "cache_reach c" "settings_ok (md c)" "\<forall>s \<in> {41..42}. sector_valid c 1 s"
    and req: "ocf_req_new_extended (\<lambda>_. True) True (hit_entry 0) c 1 20992 1024 = Some req" by blast
  have "(0 :: u32) < 1024" "unat (20992 :: u64) + unat (1024 :: u32) \<le> 2 ^ 64" by simp_all
  then show ?thesis using engine_lookup_exact [OF c(1,2) req] c(3) req by auto
qed

end
