(* ===== verification/OCF_Engine.thy ===== *)
theory OCF_Engine
  imports OCF_Request
begin

text \<open>
  The operations of the engine on all cache lines of a request (\<open>ocf/src/utils/utils_cache_line.h\<close>,
  \<open>utils/utils_user_part.c\<close>, \<open>engine/engine_common.c\<close>): the sectors of the request become valid, dirty
  or clean, they are purged, its lines move to the partition of the request. A locale states what such
  an operation does on one line; the walk over the map then does the same to exactly the sectors of the
  request. The page locks of the collision table make the accesses atomic and are not represented.
\<close>

section \<open>Operations\<close>

text \<open>The loop over the map entries \<open>i\<close> to \<open>i + n - 1\<close>.\<close>

fun for_map :: "(u32 \<Rightarrow> ocf_map_info \<Rightarrow> 'b ocf_cache \<Rightarrow> 'b ocf_cache option) \<Rightarrow> ocf_map_info list \<Rightarrow> nat \<Rightarrow> nat \<Rightarrow>
    'b ocf_cache \<Rightarrow> 'b ocf_cache option" where
  "for_map f es 0 i c = Some c"
| "for_map f es (Suc n) i c = do {
     e \<leftarrow> rd es (int i);
     c \<leftarrow> f (of_nat i) e c;
     for_map f es n (Suc i) c
   }"

definition set_valid_step :: "ocf_request \<Rightarrow> u32 \<Rightarrow> ocf_map_info \<Rightarrow> 'w::len word ocf_cache \<Rightarrow> 'w word ocf_cache option" where
  "set_valid_step req map_idx e c = do {
     bug_on (status e = LOOKUP_MISS);
     let start_bit = ocf_map_line_start_sector c req map_idx;
     let end_bit = ocf_map_line_end_sector c req map_idx;
     set_cache_line_valid start_bit end_bit (r_core req) (coll_idx e) c
   }"

definition ocf_set_valid_map_info :: "ocf_request \<Rightarrow> 'w::len word ocf_cache \<Rightarrow> 'w word ocf_cache option" where
  "ocf_set_valid_map_info req c = for_map (set_valid_step req) (rmap req) (unat (r_line_count req)) 0 c"

definition set_dirty_step :: "u64 \<Rightarrow> ocf_request \<Rightarrow> u32 \<Rightarrow> ocf_map_info \<Rightarrow> 'w::len word ocf_cache \<Rightarrow> 'w word ocf_cache option" where
  "set_dirty_step now req map_idx e c =
     (let start_bit = ocf_map_line_start_sector c req map_idx;
          end_bit = ocf_map_line_end_sector c req map_idx
      in set_cache_line_dirty now start_bit end_bit (r_core req) (coll_idx e) c)"

definition ocf_set_dirty_map_info :: "u64 \<Rightarrow> ocf_request \<Rightarrow> 'w::len word ocf_cache \<Rightarrow> 'w word ocf_cache option" where
  "ocf_set_dirty_map_info now req c = for_map (set_dirty_step now req) (rmap req) (unat (r_line_count req)) 0 c"

definition set_clean_step :: "ocf_request \<Rightarrow> u32 \<Rightarrow> ocf_map_info \<Rightarrow> 'w::len word ocf_cache \<Rightarrow> 'w word ocf_cache option" where
  "set_clean_step req map_idx e c =
     (let start_bit = ocf_map_line_start_sector c req map_idx;
          end_bit = ocf_map_line_end_sector c req map_idx
      in set_cache_line_clean start_bit end_bit (r_core req) (coll_idx e) c)"

definition ocf_set_clean_map_info :: "ocf_request \<Rightarrow> 'w::len word ocf_cache \<Rightarrow> 'w word ocf_cache option" where
  "ocf_set_clean_map_info req c = for_map (set_clean_step req) (rmap req) (unat (r_line_count req)) 0 c"

definition ocf_purge_cache_line_sec :: "u8 \<Rightarrow> u8 \<Rightarrow> ocf_request \<Rightarrow> ocf_map_info \<Rightarrow> 'w::len word ocf_cache \<Rightarrow> 'w word ocf_cache option" where
  "ocf_purge_cache_line_sec start stop req e c = do {
     c \<leftarrow> set_cache_line_clean start stop (r_core req) (coll_idx e) c;
     set_cache_line_invalid start stop (r_core req) (coll_idx e) c
   }"

definition purge_step :: "ocf_request \<Rightarrow> u32 \<Rightarrow> ocf_map_info \<Rightarrow> 'w::len word ocf_cache \<Rightarrow> 'w word ocf_cache option" where
  "purge_step req map_idx e c =
     (if status e = LOOKUP_MISS then Some c
      else let start_bit = 0;
               end_bit = ocf_line_end_sector c;
               start_bit = (if map_idx = 0 then ucast (BYTES_TO_SECTORS (byte_position req) mod ocf_line_sectors c) else start_bit);
               end_bit = (if map_idx = r_line_count req - 1
                 then ucast (BYTES_TO_SECTORS (byte_position req + ucast (byte_length req) - 1) mod ocf_line_sectors c) else end_bit)
           in ocf_purge_cache_line_sec start_bit end_bit req e c)"

definition ocf_purge_map_info :: "ocf_request \<Rightarrow> 'w::len word ocf_cache \<Rightarrow> 'w word ocf_cache option" where
  "ocf_purge_map_info req c = for_map (purge_step req) (rmap req) (unat (r_line_count req)) 0 c"

section \<open>The sectors of an abstract cache\<close>

text \<open>Whether a sector of a core is valid and whether it is dirty.\<close>

definition view :: "'w::len word ocf_cache \<Rightarrow> u16 \<Rightarrow> nat \<Rightarrow> bool \<times> bool" where
  "view c core s = (sector_valid c core s, sector_dirty c core s)"

definition aview :: "abstract_cache \<Rightarrow> nat \<Rightarrow> u16 \<Rightarrow> nat \<Rightarrow> bool \<times> bool" where
  "aview A n core s =
     (\<exists>x l. A x = Some l \<and> cl_core l = core \<and> unat (cl_addr l) = s div n \<and> s mod n \<in> cl_valid l,
      \<exists>x l. A x = Some l \<and> cl_core l = core \<and> unat (cl_addr l) = s div n \<and> s mod n \<in> cl_dirty l)"

lemma view_abs: "view c core s = aview (abs_cache c) (nsec c) core s"
  by (auto simp: view_def aview_def sector_valid_def sector_dirty_def sector_has_def abs_cache_def)

definition unique_lines :: "abstract_cache \<Rightarrow> bool" where
  "unique_lines A \<longleftrightarrow> (\<forall>x y l m. A x = Some l \<longrightarrow> A y = Some m \<longrightarrow> cl_core l = cl_core m \<longrightarrow> cl_addr l = cl_addr m \<longrightarrow> x = y)"

lemma unique_abs: "cache_inv c L B \<Longrightarrow> unique_lines (abs_cache c)"
  unfolding unique_lines_def
proof (intro allI impI)
  fix x y l m
  assume inv: "cache_inv c L B" and l: "abs_cache c x = Some l" and m: "abs_cache c y = Some m"
    and eq: "cl_core l = cl_core m" "cl_addr l = cl_addr m"
  from abs_caches [OF l] abs_caches [OF m] have "caches c (cl_core m) (cl_addr m) x" "caches c (cl_core m) (cl_addr m) y"
    unfolding eq by blast+
  then show "x = y" by (rule caches_unique [OF inv])
qed

definition sec_of :: "cached_line option \<Rightarrow> nat \<Rightarrow> bool \<times> bool" where
  "sec_of ol i = (case ol of None \<Rightarrow> (False, False) | Some l \<Rightarrow> (i \<in> cl_valid l, i \<in> cl_dirty l))"

lemma aview_upd:
  assumes u: "unique_lines A" and x: "A x = Some l"
    and ol: "\<And>l'. ol = Some l' \<Longrightarrow> cl_core l' = cl_core l \<and> cl_addr l' = cl_addr l"
  shows "aview (A(x := ol)) n core s =
    (if core = cl_core l \<and> s div n = unat (cl_addr l) then sec_of ol (s mod n) else aview A n core s)"
proof (cases "core = cl_core l \<and> s div n = unat (cl_addr l)")
  case True
  have "y = x" if "(A(x := ol)) y = Some m" "cl_core m = core" "unat (cl_addr m) = s div n" for y m
  proof (rule ccontr)
    assume "y \<noteq> x"
    then have y: "A y = Some m" using that(1) by simp
    have "cl_core l = cl_core m" "cl_addr l = cl_addr m" using True that(2,3) by (simp_all add: word_unat_eq_iff)
    with u x y have "x = y" unfolding unique_lines_def by blast
    with \<open>y \<noteq> x\<close> show False by simp
  qed
  then have "(\<exists>y m. (A(x := ol)) y = Some m \<and> cl_core m = core \<and> unat (cl_addr m) = s div n \<and> P m) \<longleftrightarrow> (\<exists>m. ol = Some m \<and> P m)" for P
    using True ol by (metis fun_upd_same)
  then show ?thesis using True by (auto simp: aview_def sec_of_def split: option.splits)
next
  case False
  have eq: "(\<exists>y m. (A(x := ol)) y = Some m \<and> cl_core m = core \<and> unat (cl_addr m) = s div n \<and> P m) \<longleftrightarrow>
    (\<exists>y m. A y = Some m \<and> cl_core m = core \<and> unat (cl_addr m) = s div n \<and> P m)" for P
  proof (intro iffI; elim exE conjE)
    fix y m assume "(A(x := ol)) y = Some m" "cl_core m = core" "unat (cl_addr m) = s div n" "P m"
    moreover from this have "y \<noteq> x" using False ol by auto
    ultimately show "\<exists>y m. A y = Some m \<and> cl_core m = core \<and> unat (cl_addr m) = s div n \<and> P m" by auto
  next
    fix y m assume "A y = Some m" "cl_core m = core" "unat (cl_addr m) = s div n" "P m"
    moreover from this have "y \<noteq> x" using False x by auto
    ultimately show "\<exists>y m. (A(x := ol)) y = Some m \<and> cl_core m = core \<and> unat (cl_addr m) = s div n \<and> P m" by auto
  qed
  show ?thesis unfolding if_not_P [OF False] aview_def eq ..
qed


section \<open>One line\<close>

text \<open>
  From \<open>c\<close> to \<open>c'\<close> the sectors \<open>R\<close> of the line \<open>x\<close>, which caches the core line \<open>cl\<close>, change by \<open>eff\<close>;
  nothing else changes.
\<close>

definition line_step :: "'w::len word ocf_cache \<Rightarrow> 'w word ocf_cache \<Rightarrow> u16 \<Rightarrow> u64 \<Rightarrow> nat set \<Rightarrow> u32 \<Rightarrow> (bool \<times> bool \<Rightarrow> bool \<times> bool) \<Rightarrow> bool" where
  "line_step c c' core cl R x eff \<longleftrightarrow> cache_reach c' \<and> settings_of c' = settings_of c \<and> (\<forall>y. y \<noteq> x \<longrightarrow> abs_cache c' y = abs_cache c y) \<and>
     (\<forall>l. abs_cache c' x = Some l \<longrightarrow> cl_core l = core \<and> cl_addr l = cl) \<and>
     (\<forall>core' s. view c' core' s = (if core' = core \<and> s div nsec c = unat cl \<and> s mod nsec c \<in> R then eff (view c core' s) else view c core' s))"

lemma line_step_trans:
  assumes "line_step c c1 core cl R x f" "line_step c1 c' core cl R x g"
  shows "line_step c c' core cl R x (g \<circ> f)"
proof -
  have "nsec c1 = nsec c" using assms(1) settings_same [of c1 c] by (simp add: line_step_def)
  with assms show ?thesis by (simp add: line_step_def)
qed

lemma line_step_upd:
  assumes r: "cache_reach c" "op_ok op c" "exec op c = Some c'" and x: "abs_cache c x = Some l" "cl_core l = core" "cl_addr l = cl"
    and c': "abs_cache c' = (abs_cache c)(x := ol)" "\<And>l'. ol = Some l' \<Longrightarrow> cl_core l' = core \<and> cl_addr l' = cl"
    and e: "\<And>i. sec_of ol i = (if i \<in> R then eff (sec_of (Some l) i) else sec_of (Some l) i)"
  shows "line_step c c' core cl R x eff"
proof -
  from cache_reach_inv [OF r(1)] obtain L B where "cache_inv c L B" by blast
  then have u: "unique_lines (abs_cache c)" by (rule unique_abs)
  have n: "nsec c' = nsec c" using settings_same [OF exec_keeps [OF r(3)]] by simp
  have "(abs_cache c)(x := Some l) = abs_cache c" using x(1) by (simp add: fun_upd_idem)
  then have v: "view c core s = sec_of (Some l) (s mod nsec c)" if "s div nsec c = unat cl" for s
    using aview_upd [OF u x(1), of "Some l" "nsec c" core s] x(2,3) that by (simp add: view_abs)
  have "view c' core' s = (if core' = core \<and> s div nsec c = unat cl then sec_of ol (s mod nsec c) else view c core' s)" for core' s
    unfolding view_abs c'(1) n using aview_upd [OF u x(1), of ol "nsec c" core' s] x(2,3) c'(2) by simp
  then have "view c' core' s = (if core' = core \<and> s div nsec c = unat cl \<and> s mod nsec c \<in> R then eff (view c core' s) else view c core' s)" for core' s
    using v [of s] e [of "s mod nsec c"] by (cases "core' = core \<and> s div nsec c = unat cl") auto
  then show ?thesis
    using cache_reach.Step [OF r] exec_keeps [OF r(3)] c' by (auto simp: line_step_def)
qed

lemma caches_abs:
  assumes "caches c core cl x"
  obtains l where "abs_cache c x = Some l" "cl_core l = core" "cl_addr l = cl" "cl_valid l = line_valid c x" "cl_dirty l = line_dirties c x"
    "mapped c x" "line_core c x = core"
  using assms by (auto simp: caches_iff abs_cache_def)

text \<open>The four operations on a line.\<close>

lemma set_valid_line_step:
  assumes "cache_reach c" "caches c core cl x" "range_ok c a b"
  shows "\<exists>c'. set_cache_line_valid a b core x c = Some c' \<and> line_step c c' core cl {unat a..unat b} x (\<lambda>(v, d). (True, d))"
proof -
  from cache_reach_inv [OF assms(1)] obtain L B where inv: "cache_inv c L B" by blast
  from assms(2) obtain l where l: "abs_cache c x = Some l" "cl_core l = core" "cl_addr l = cl" "mapped c x" "line_core c x = core" by (rule caches_abs)
  have ok: "op_ok (Set_valid x a b) c" using l(4) assms(3) by simp
  from exec_refines [OF inv ok] obtain c' where c': "exec (Set_valid x a b) c = Some c'"
    "abs_cache c' = (abs_cache c)(x := Some (l\<lparr>cl_valid := cl_valid l \<union> {unat a..unat b}\<rparr>))" using l(1) by auto
  have "line_step c c' core cl {unat a..unat b} x (\<lambda>(v, d). (True, d))"
    by (rule line_step_upd [OF assms(1) ok c'(1) l(1-3) c'(2)]) (use l(2,3) in \<open>auto simp: sec_of_def\<close>)
  with c'(1) l(5) show ?thesis by simp
qed

lemma set_dirty_line_step:
  assumes "cache_reach c" "caches c core cl x" "range_ok c a b" "{unat a..unat b} \<subseteq> line_valid c x"
  shows "\<exists>c'. set_cache_line_dirty now a b core x c = Some c' \<and> line_step c c' core cl {unat a..unat b} x (\<lambda>(v, d). (v, True))"
proof -
  from cache_reach_inv [OF assms(1)] obtain L B where inv: "cache_inv c L B" by blast
  from assms(2) obtain l where l: "abs_cache c x = Some l" "cl_core l = core" "cl_addr l = cl" "mapped c x" "line_core c x = core" by (rule caches_abs)
  have ok: "op_ok (Set_dirty now x a b) c" using l(4) assms(3,4) by simp
  from exec_refines [OF inv ok] obtain c' where c': "exec (Set_dirty now x a b) c = Some c'"
    "abs_cache c' = (abs_cache c)(x := Some (l\<lparr>cl_dirty := cl_dirty l \<union> {unat a..unat b}\<rparr>))" using l(1) by auto
  have "line_step c c' core cl {unat a..unat b} x (\<lambda>(v, d). (v, True))"
    by (rule line_step_upd [OF assms(1) ok c'(1) l(1-3) c'(2)]) (use l(2,3) in \<open>auto simp: sec_of_def\<close>)
  with c'(1) l(5) show ?thesis by simp
qed

lemma set_clean_line_step:
  assumes "cache_reach c" "caches c core cl x" "range_ok c a b"
  shows "\<exists>c'. set_cache_line_clean a b core x c = Some c' \<and> line_step c c' core cl {unat a..unat b} x (\<lambda>(v, d). (v, False)) \<and>
    caches c' core cl x \<and> line_dirties c' x \<inter> {unat a..unat b} = {}"
proof -
  from cache_reach_inv [OF assms(1)] obtain L B where inv: "cache_inv c L B" by blast
  from assms(2) obtain l where l: "abs_cache c x = Some l" "cl_core l = core" "cl_addr l = cl" "mapped c x" "line_core c x = core" by (rule caches_abs)
  have ok: "op_ok (Set_clean x a b) c" using l(4) assms(3) by simp
  from exec_refines [OF inv ok] obtain c' where c': "exec (Set_clean x a b) c = Some c'"
    "abs_cache c' = (abs_cache c)(x := Some (l\<lparr>cl_dirty := cl_dirty l - {unat a..unat b}\<rparr>))" using l(1) by auto
  have "line_step c c' core cl {unat a..unat b} x (\<lambda>(v, d). (v, False))"
    by (rule line_step_upd [OF assms(1) ok c'(1) l(1-3) c'(2)]) (use l(2,3) in \<open>auto simp: sec_of_def\<close>)
  moreover have "abs_cache c' x = Some (l\<lparr>cl_dirty := cl_dirty l - {unat a..unat b}\<rparr>)" unfolding c'(2) by simp
  from abs_caches [OF this] have "caches c' core cl x" "line_dirties c' x \<inter> {unat a..unat b} = {}" using l(2,3) by auto
  ultimately show ?thesis using c'(1) l(5) by simp
qed

lemma set_invalid_line_step:
  assumes "cache_reach c" "caches c core cl x" "range_ok c a b" "line_dirties c x \<inter> {unat a..unat b} = {}"
  shows "\<exists>c'. set_cache_line_invalid a b core x c = Some c' \<and> line_step c c' core cl {unat a..unat b} x (\<lambda>(v, d). (False, d))"
proof -
  let ?R = "{unat a..unat b}"
  from cache_reach_inv [OF assms(1)] obtain L B where inv: "cache_inv c L B" by blast
  from assms(2) obtain l where l: "abs_cache c x = Some l" "cl_core l = core" "cl_addr l = cl" "cl_valid l = line_valid c x"
    "cl_dirty l = line_dirties c x" "mapped c x" "line_core c x = core" by (rule caches_abs)
  have ok: "op_ok (Set_invalid x a b) c" using l(6) assms(3,4) by simp
  define ol where "ol = (let V = cl_valid l - ?R in if V = {} \<and> \<not> has_waiters c x then None else Some (l\<lparr>cl_valid := V\<rparr>))"
  from exec_refines [OF inv ok] obtain c' where c': "exec (Set_invalid x a b) c = Some c'" "abs_cache c' = (abs_cache c)(x := ol)"
    using l(1) by (auto simp: ol_def)
  have sub: "cl_dirty l \<subseteq> cl_valid l" using line_okD(4) [OF cache_invD(4) [OF inv]] l(4-6) by (simp add: mapped_def)
  have keys: "ol = Some l' \<Longrightarrow> cl_core l' = core \<and> cl_addr l' = cl" for l' using l(2,3) by (auto simp: ol_def Let_def split: if_splits)
  have "sec_of ol i = (if i \<in> ?R then (\<lambda>(v, d). (False, d)) (sec_of (Some l) i) else sec_of (Some l) i)" for i
    using sub assms(4) l(5) by (auto simp: sec_of_def ol_def Let_def)
  from line_step_upd [OF assms(1) ok c'(1) l(1-3) c'(2) keys this] have "line_step c c' core cl ?R x (\<lambda>(v, d). (False, d))" .
  with c'(1) l(7) show ?thesis by simp
qed


section \<open>The walk over a request\<close>

lemma settings_sectors:
  assumes "settings_of d = settings_of c"
  shows "ocf_map_line_start_sector d req i = ocf_map_line_start_sector c req i"
    "ocf_map_line_end_sector d req i = ocf_map_line_end_sector c req i" "nsec d = nsec c" "range_ok d a b = range_ok c a b"
    "line_range d req j = line_range c req j"
  using assms
  by (simp_all add: settings_of_def ocf_map_line_start_sector_def ocf_map_line_end_sector_def ocf_line_sectors_def ocf_line_end_sector_def
      nsec_def range_ok_def line_range_def)

lemma caches_abs_iff: "caches c core cl x \<longleftrightarrow> (\<exists>l. abs_cache c x = Some l \<and> cl_core l = core \<and> cl_addr l = cl)"
  by (auto simp: caches_iff abs_cache_def)

lemma view_uncached:
  assumes "\<forall>x. \<not> caches c core cl x" "s div nsec c = unat cl"
  shows "view c core s = (False, False)"
  using assms by (simp add: view_def sector_valid_def sector_dirty_def sector_has_def caches_iff word_unat_eq_iff) blast

text \<open>
  The contract of a step of the engine on one map entry: on the line of a core line it changes the
  sectors of the request in that line by \<open>eff\<close>, if they satisfy \<open>pre\<close>. With \<open>skip\<close> it leaves out the
  core lines that are not cached.
\<close>

locale request_step =
  fixes step :: "ocf_request \<Rightarrow> u32 \<Rightarrow> ocf_map_info \<Rightarrow> 'w::len word ocf_cache \<Rightarrow> 'w word ocf_cache option"
    and eff :: "bool \<times> bool \<Rightarrow> bool \<times> bool" and pre :: "bool \<times> bool \<Rightarrow> bool" and skip :: bool
  assumes step_line: "cache_reach c \<Longrightarrow> settings_ok (md c) \<Longrightarrow> status e \<noteq> LOOKUP_MISS \<Longrightarrow> caches c (r_core req) cl (coll_idx e) \<Longrightarrow>
      a = ocf_map_line_start_sector c req i \<Longrightarrow> b = ocf_map_line_end_sector c req i \<Longrightarrow> range_ok c a b \<Longrightarrow>
      (\<And>s. s div nsec c = unat cl \<Longrightarrow> s mod nsec c \<in> {unat a..unat b} \<Longrightarrow> pre (view c (r_core req) s)) \<Longrightarrow>
      \<exists>c'. step req i e c = Some c' \<and> line_step c c' (r_core req) cl {unat a..unat b} (coll_idx e) eff"
    and step_skip: "skip \<Longrightarrow> status e = LOOKUP_MISS \<Longrightarrow> step req i e c = Some c"
    and eff_skip: "skip \<Longrightarrow> eff (False, False) = (False, False)"
begin

text \<open>The map entry \<open>j\<close> tells the truth.\<close>

definition entry_ok :: "'w word ocf_cache \<Rightarrow> ocf_request \<Rightarrow> nat \<Rightarrow> bool" where
  "entry_ok c req j \<longleftrightarrow> (if status (rmap req ! j) = LOOKUP_MISS
     then skip \<and> (\<forall>x. \<not> caches c (r_core req) (core_line_first req + of_nat j) x)
     else caches c (r_core req) (core_line_first req + of_nat j) (coll_idx (rmap req ! j)))"

definition walked :: "'w word ocf_cache \<Rightarrow> ocf_request \<Rightarrow> nat \<Rightarrow> nat \<Rightarrow> bool" where
  "walked c req k s \<longleftrightarrow> (\<exists>j < k. s div nsec c = unat (core_line_first req) + j \<and> s mod nsec c \<in> line_range c req j)"

definition walk_inv :: "'w word ocf_cache \<Rightarrow> ocf_request \<Rightarrow> nat \<Rightarrow> 'w word ocf_cache \<Rightarrow> bool" where
  "walk_inv c req k d \<longleftrightarrow> cache_reach d \<and> settings_of d = settings_of c \<and>
     (\<forall>j. k \<le> j \<longrightarrow> j < unat (r_line_count req) \<longrightarrow> entry_ok d req j) \<and>
     (\<forall>core s. view d core s = (if core = r_core req \<and> walked c req k s then eff (view c core s) else view c core s))"

lemma walk_step:
  assumes ok: "req_ok c req" and pre: "\<forall>s \<in> req_sectors req. pre (view c (r_core req) s)"
    and inv: "walk_inv c req k d" and k: "k < unat (r_line_count req)"
  shows "\<exists>d'. step req (of_nat k) (rmap req ! k) d = Some d' \<and> walk_inv c req (Suc k) d'"
proof -
  let ?e = "rmap req ! k" and ?cl = "core_line_first req + of_nat k :: u64" and ?R = "line_range c req k"
  note I = inv [unfolded walk_inv_def] and S = settings_sectors [OF conjunct1 [OF conjunct2 [OF inv [unfolded walk_inv_def]]]]
  have cl: "unat ?cl = unat (core_line_first req) + k" using core_line_unat [OF ok less_imp_le [OF k]] .
  have e: "entry_ok d req k" using I k by blast
  have suc: "walked c req (Suc k) s \<longleftrightarrow> walked c req k s \<or> s div nsec c = unat ?cl \<and> s mod nsec c \<in> ?R" for s
    unfolding walked_def cl by (auto simp: less_Suc_eq)
  have fresh: "\<not> walked c req k s" if "s div nsec c = unat ?cl" for s using that by (auto simp: walked_def cl)
  show ?thesis
  proof (cases "status ?e = LOOKUP_MISS")
    case True
    then have no: "skip" "\<forall>x. \<not> caches d (r_core req) ?cl x" using e by (simp_all add: entry_ok_def)
    have "view c (r_core req) s = (False, False)" if "s div nsec c = unat ?cl" for s
    proof -
      have "view d (r_core req) s = view c (r_core req) s" using I fresh [OF that] by presburger
      then show ?thesis using view_uncached [OF no(2), of s] that unfolding S(3) by presburger
    qed
    then have "walk_inv c req (Suc k) d"
      using I eff_skip [OF no(1)] unfolding walk_inv_def suc by auto
    then show ?thesis using step_skip [OF no(1) True] by blast
  next
    case False
    then have x: "caches d (r_core req) ?cl (coll_idx ?e)" using e by (simp add: entry_ok_def)
    have r: "range_ok d (ocf_map_line_start_sector d req (of_nat k)) (ocf_map_line_end_sector d req (of_nat k))"
      using req_range(3) [OF ok k] unfolding S .
    have R: "{unat (ocf_map_line_start_sector d req (of_nat k))..unat (ocf_map_line_end_sector d req (of_nat k))} = ?R"
      unfolding S line_range_def ..
    have so: "settings_ok (md d)" using ok settings_same [of d c] I by (simp add: req_ok_def)
    have "pre (view d (r_core req) s)" if "s div nsec d = unat ?cl" "s mod nsec d \<in> ?R" for s
      using pre req_sectors_iff [OF ok, of s] that k cl fresh [of s] I unfolding S by auto
    from step_line [OF conjunct1 [OF I] so False x refl refl r, unfolded R, OF this] obtain d' where
      d': "step req (of_nat k) ?e d = Some d'" "line_step d d' (r_core req) ?cl ?R (coll_idx ?e) eff" by blast
    note L = d'(2) [unfolded line_step_def S]
    have "entry_ok d' req j" if j: "Suc k \<le> j" "j < unat (r_line_count req)" for j
    proof -
      have ne: "core_line_first req + of_nat j \<noteq> ?cl"
        using core_line_unat [OF ok less_imp_le [OF j(2)]] cl j(1) by (metis Suc_n_not_le_n add_left_cancel)
      have "caches d' (r_core req) (core_line_first req + of_nat j) y \<longleftrightarrow> caches d (r_core req) (core_line_first req + of_nat j) y" for y
      proof (cases "y = coll_idx ?e")
        case True
        then show ?thesis using L ne x unfolding caches_abs_iff by auto
      next
        case False
        then show ?thesis using L unfolding caches_abs_iff by simp
      qed
      moreover have "entry_ok d req j" using I j Suc_leD by blast
      ultimately show ?thesis unfolding entry_ok_def by simp
    qed
    moreover have "view d' core s = (if core = r_core req \<and> walked c req (Suc k) s then eff (view c core s) else view c core s)" for core s
      using L I fresh [of s] unfolding suc by auto
    ultimately have "walk_inv c req (Suc k) d'" using L I unfolding walk_inv_def by auto
    with d'(1) show ?thesis by blast
  qed
qed

lemma walk_from:
  assumes ok: "req_ok c req" and pre: "\<forall>s \<in> req_sectors req. pre (view c (r_core req) s)"
    and k: "k \<le> unat (r_line_count req)" and inv: "walk_inv c req k d"
  shows "\<exists>d'. for_map (step req) (rmap req) (unat (r_line_count req) - k) k d = Some d' \<and> walk_inv c req (unat (r_line_count req)) d'"
  using k inv
proof (induction arbitrary: d rule: inc_induct)
  case base
  then show ?case by auto
next
  case (step k)
  have n: "unat (r_line_count req) - k = Suc (unat (r_line_count req) - Suc k)" using step(2) by simp
  from walk_step [OF ok pre step(4,2)] obtain d1 where d1: "step req (of_nat k) (rmap req ! k) d = Some d1" "walk_inv c req (Suc k) d1" by blast
  from step(3) [OF d1(2)] obtain d' where
    "for_map (step req) (rmap req) (unat (r_line_count req) - Suc k) (Suc k) d1 = Some d'" "walk_inv c req (unat (r_line_count req)) d'" by blast
  then show ?case using d1(1) step(2) ok unfolding n by (auto simp: rd_int req_ok_def)
qed

lemma walk:
  assumes "cache_reach c" "req_ok c req" "\<forall>j < unat (r_line_count req). entry_ok c req j"
    "\<forall>s \<in> req_sectors req. pre (view c (r_core req) s)"
  shows "\<exists>c'. for_map (step req) (rmap req) (unat (r_line_count req)) 0 c = Some c' \<and> cache_reach c' \<and> settings_of c' = settings_of c \<and>
    (\<forall>core s. view c' core s = (if core = r_core req \<and> s \<in> req_sectors req then eff (view c core s) else view c core s))"
proof -
  have "walk_inv c req 0 c" using assms(1,3) by (auto simp: walk_inv_def walked_def)
  from walk_from [OF assms(2,4) _ this] obtain c' where
    c': "for_map (step req) (rmap req) (unat (r_line_count req)) 0 c = Some c'" "walk_inv c req (unat (r_line_count req)) c'" by auto
  have "walked c req (unat (r_line_count req)) s \<longleftrightarrow> s \<in> req_sectors req" for s
    unfolding walked_def req_sectors_iff [OF assms(2)] ..
  with c' show ?thesis unfolding walk_inv_def by auto
qed

end


lemma purge_step_eq:
  "status e \<noteq> LOOKUP_MISS \<Longrightarrow> purge_step req i e c =
     ocf_purge_cache_line_sec (ocf_map_line_start_sector c req i) (ocf_map_line_end_sector c req i) req e c"
  by (simp add: purge_step_def ocf_map_line_start_sector_def ocf_map_line_end_sector_def Let_def)

lemma view_dirty_range:
  assumes "cache_reach c" "caches c core cl x" "i < nsec c" "fst (view c core (unat cl * nsec c + i))"
  shows "i \<in> line_valid c x"
proof -
  from cache_reach_inv [OF assms(1)] obtain L B where inv: "cache_inv c L B" by blast
  have "\<exists>y. caches c core cl y \<and> i \<in> line_valid c y"
    using assms(3,4) by (auto simp: view_def sector_valid_def sector_has_def caches_iff word_unat_eq_iff)
  then show ?thesis using caches_unique [OF inv assms(2)] by blast
qed

interpretation valid_step: request_step set_valid_step "\<lambda>(v, d). (True, d)" "\<lambda>_. True" False
  by unfold_locales (auto simp: set_valid_step_def dest: set_valid_line_step)

interpretation clean_step: request_step set_clean_step "\<lambda>(v, d). (v, False)" "\<lambda>_. True" False
  by unfold_locales (auto simp: set_clean_step_def dest: set_clean_line_step)

interpretation dirty_step: request_step "set_dirty_step now" "\<lambda>(v, d). (v, True)" fst False
proof unfold_locales
  fix c :: "'a word ocf_cache" and e :: ocf_map_info and req cl a i b
  assume so: "settings_ok (md c)" and c: "cache_reach c" "caches c (r_core req) cl (coll_idx e)" and a: "a = ocf_map_line_start_sector c req i" "b = ocf_map_line_end_sector c req i"
    and r: "range_ok c a b"
    and pre: "\<And>s. s div nsec c = unat cl \<Longrightarrow> s mod nsec c \<in> {unat a..unat b} \<Longrightarrow> fst (view c (r_core req) s)"
  from cache_reach_inv [OF c(1)] obtain L B where "cache_inv c L B" by blast
  have "i \<in> line_valid c (coll_idx e)" if "i \<in> {unat a..unat b}" "i < nsec c" for i
    using view_dirty_range [OF c that(2)] pre [of "unat cl * nsec c + i"] that by simp
  moreover have "i < nsec c" if "i \<in> {unat a..unat b}" for i
    using that r settings_facts(2,4) [OF so] by (auto simp: range_ok_def word_le_nat_alt)
  ultimately have "{unat a..unat b} \<subseteq> line_valid c (coll_idx e)" by blast
  from set_dirty_line_step [OF c r this]
  show "\<exists>c'. set_dirty_step now req i e c = Some c' \<and> line_step c c' (r_core req) cl {unat a..unat b} (coll_idx e) (\<lambda>(v, d). (v, True))"
    by (simp add: set_dirty_step_def a)
qed simp_all

interpretation purge: request_step purge_step "\<lambda>_. (False, False)" "\<lambda>_. True" True
proof unfold_locales
  fix c :: "'a word ocf_cache" and e :: ocf_map_info and req cl a i b
  assume so: "settings_ok (md c)" and c: "cache_reach c" "caches c (r_core req) cl (coll_idx e)" and a: "a = ocf_map_line_start_sector c req i" "b = ocf_map_line_end_sector c req i"
    and r: "range_ok c a b" and e: "status e \<noteq> LOOKUP_MISS"
  from set_clean_line_step [OF c r] obtain c1 where c1: "set_cache_line_clean a b (r_core req) (coll_idx e) c = Some c1"
    "line_step c c1 (r_core req) cl {unat a..unat b} (coll_idx e) (\<lambda>(v, d). (v, False))"
    "caches c1 (r_core req) cl (coll_idx e)" "line_dirties c1 (coll_idx e) \<inter> {unat a..unat b} = {}" by blast
  have "cache_reach c1" "range_ok c1 a b" using c1(2) r settings_sectors(4) [of c1 c] by (simp_all add: line_step_def)
  from set_invalid_line_step [OF this(1) c1(3) this(2) c1(4)] obtain c' where
    c': "set_cache_line_invalid a b (r_core req) (coll_idx e) c1 = Some c'"
    "line_step c1 c' (r_core req) cl {unat a..unat b} (coll_idx e) (\<lambda>(v, d). (False, d))" by blast
  have eq: "(\<lambda>(v, d). (False, d)) \<circ> (\<lambda>(v, d). (v, False)) = (\<lambda>_ :: bool \<times> bool. (False, False))" by (auto simp: fun_eq_iff)
  have "line_step c c' (r_core req) cl {unat a..unat b} (coll_idx e) (\<lambda>_. (False, False))"
    by (rule line_step_trans [OF c1(2) c'(2), unfolded eq])
  then show "\<exists>c'. purge_step req i e c = Some c' \<and> line_step c c' (r_core req) cl {unat a..unat b} (coll_idx e) (\<lambda>_. (False, False))"
    using c1(1) c'(1) by (simp add: purge_step_eq [OF e] ocf_purge_cache_line_sec_def a [symmetric])
qed (simp_all add: purge_step_def)


section \<open>Properties\<close>

lemma looked_up:
  assumes r: "cache_reach c" and ok: "req_ok c req" and l: "ocf_engine_lookup c req = Some req'"
  shows "req_ok c req'" "r_core req' = r_core req" "req_sectors req' = req_sectors req" "r_line_count req' = r_line_count req"
    "j < unat (r_line_count req) \<Longrightarrow> status (rmap req' ! j) = LOOKUP_MISS \<Longrightarrow> \<not> caches c (r_core req') (core_line_first req' + of_nat j) x"
    "j < unat (r_line_count req) \<Longrightarrow> status (rmap req' ! j) \<noteq> LOOKUP_MISS \<Longrightarrow> caches c (r_core req') (core_line_first req' + of_nat j) (coll_idx (rmap req' ! j))"
    "ocf_engine_is_mapped req' \<Longrightarrow> j < unat (r_line_count req) \<Longrightarrow> status (rmap req' ! j) \<noteq> LOOKUP_MISS"
    "ocf_engine_is_hit req' \<Longrightarrow> s \<in> req_sectors req \<Longrightarrow> fst (view c (r_core req) s)"
    "ocf_engine_is_hit req' \<Longrightarrow> ocf_engine_is_mapped req'"
proof -
  from cache_reach_inv [OF r] obtain L B where inv: "cache_inv c L B" by blast
  let ?n = "unat (r_line_count req)"
  have req': "req' = ref_upto c req ?n" using engine_lookup_ref [OF inv ok] l by simp
  show "req_ok c req'" using ok by (simp add: req_ok_def req' ref_upto_def)
  show fields: "r_core req' = r_core req" "req_sectors req' = req_sectors req" "r_line_count req' = r_line_count req"
    by (simp_all add: req' ref_upto_def req_sectors_def sec_first_def sec_last_def)
  have first: "core_line_first req' = core_line_first req" by (simp add: req' ref_upto_def)
  have e: "rmap req' ! j = ref_entry c req j" if "j < ?n" for j using that by (simp add: req' nth_append)
  show "j < ?n \<Longrightarrow> status (rmap req' ! j) = LOOKUP_MISS \<Longrightarrow> \<not> caches c (r_core req') (core_line_first req' + of_nat j) x"
    using find_line_iff(2) [OF inv, of "r_core req" "core_line_first req + of_nat j"]
    by (auto simp: e fields first ref_entry_simps line_of_def split: if_splits)
  show "j < ?n \<Longrightarrow> status (rmap req' ! j) \<noteq> LOOKUP_MISS \<Longrightarrow> caches c (r_core req') (core_line_first req' + of_nat j) (coll_idx (rmap req' ! j))"
    using line_ofD(1) [OF inv, of req j] by (auto simp: e fields first ref_entry_simps split: if_splits)
  note V = lookup_verdicts [OF inv ok req']
  show "ocf_engine_is_mapped req' \<Longrightarrow> j < ?n \<Longrightarrow> status (rmap req' ! j) \<noteq> LOOKUP_MISS"
    using V(3) by (simp add: e ref_entry_simps)
  show "ocf_engine_is_hit req' \<Longrightarrow> s \<in> req_sectors req \<Longrightarrow> fst (view c (r_core req) s)"
    using V(1) by (simp add: view_def)
  show "ocf_engine_is_mapped req'" if "ocf_engine_is_hit req'"
  proof -
    have "\<forall>j < ?n. on_line c req (\<lambda>j x. line_range c req j \<subseteq> line_valid c x) j"
      using V(1) that unfolding sector_valid_def all_on_iff [OF inv ok, symmetric] by simp
    then show ?thesis unfolding V(3) by (auto simp: on_line_def split: option.splits)
  qed
qed

text \<open>
  Property C8. The engine's operations on a looked-up request refine operations on sets of sectors. On a
  mapped request, marking it valid (or clean) succeeds and makes exactly the sectors of the request
  valid (clean); on a hit, marking it dirty makes exactly its sectors dirty; purging a request, whether
  or not all of it is cached, removes exactly its sectors from the cache. No other sector of any core
  changes its state, and the cache stays consistent.
\<close>

theorem request_ops_refine:
  assumes "cache_reach c" "settings_ok (md c)"
    "ocf_req_new_extended pool mem e0 c core addr bytes = Some req0" "0 < bytes" "unat addr + unat bytes \<le> 2 ^ 64"
    "ocf_engine_lookup c req0 = Some req" "S = {unat addr div 512..(unat addr + unat bytes - 1) div 512}"
  shows "(ocf_engine_is_mapped req \<longrightarrow> (\<exists>c'. ocf_set_valid_map_info req c = Some c' \<and> cache_reach c' \<and>
      (\<forall>k s. view c' k s = (if k = core \<and> s \<in> S then (True, sector_dirty c k s) else view c k s)))) \<and>
    (ocf_engine_is_hit req \<longrightarrow> (\<exists>c'. ocf_set_dirty_map_info now req c = Some c' \<and> cache_reach c' \<and>
      (\<forall>k s. view c' k s = (if k = core \<and> s \<in> S then (True, True) else view c k s)))) \<and>
    (ocf_engine_is_mapped req \<longrightarrow> (\<exists>c'. ocf_set_clean_map_info req c = Some c' \<and> cache_reach c' \<and>
      (\<forall>k s. view c' k s = (if k = core \<and> s \<in> S then (sector_valid c k s, False) else view c k s)))) \<and>
    (\<exists>c'. ocf_purge_map_info req c = Some c' \<and> cache_reach c' \<and>
      (\<forall>k s. view c' k s = (if k = core \<and> s \<in> S then (False, False) else view c k s)))"
proof -
  note R = req_new_ok [OF assms(3,2,4,5)]
  note U = looked_up [OF assms(1) R(1) assms(6)]
  have S: "req_sectors req = S" unfolding U(3) by (simp add: req_sectors_def sec_first_def sec_last_def R assms(7))
  have core: "r_core req = core" using U(2) R(2) by simp
  have m: "\<forall>j < unat (r_line_count req). status (rmap req ! j) \<noteq> LOOKUP_MISS \<and>
      caches c (r_core req) (core_line_first req + of_nat j) (coll_idx (rmap req ! j))" if "ocf_engine_is_mapped req"
    using U(4,6,7) that by auto
  have case_view: "(case view c k s of (v, d) \<Rightarrow> f v d) = f (sector_valid c k s) (sector_dirty c k s)" for k s f by (simp add: view_def)
  have valid: "\<forall>s \<in> req_sectors req. fst (view c (r_core req) s)" if "ocf_engine_is_hit req"
    using U(2,3,8) that by simp
  show ?thesis
  proof (intro conjI impI)
    assume "ocf_engine_is_mapped req"
    then have "\<forall>j < unat (r_line_count req). valid_step.entry_ok c req j" using m by (simp add: valid_step.entry_ok_def)
    from valid_step.walk [OF assms(1) U(1) this] show "\<exists>c'. ocf_set_valid_map_info req c = Some c' \<and> cache_reach c' \<and>
      (\<forall>k s. view c' k s = (if k = core \<and> s \<in> S then (True, sector_dirty c k s) else view c k s))"
      by (fastforce simp: ocf_set_valid_map_info_def S core case_view)
  next
    assume h: "ocf_engine_is_hit req"
    then have "\<forall>j < unat (r_line_count req). dirty_step.entry_ok c req j" using m U(9) by (simp add: dirty_step.entry_ok_def)
    from dirty_step.walk [OF assms(1) U(1) this valid [OF h]] valid [OF h] show "\<exists>c'. ocf_set_dirty_map_info now req c = Some c' \<and> cache_reach c' \<and>
      (\<forall>k s. view c' k s = (if k = core \<and> s \<in> S then (True, True) else view c k s))"
      by (fastforce simp: ocf_set_dirty_map_info_def S core case_view view_def [of c core])
  next
    assume "ocf_engine_is_mapped req"
    then have "\<forall>j < unat (r_line_count req). clean_step.entry_ok c req j" using m by (simp add: clean_step.entry_ok_def)
    from clean_step.walk [OF assms(1) U(1) this] show "\<exists>c'. ocf_set_clean_map_info req c = Some c' \<and> cache_reach c' \<and>
      (\<forall>k s. view c' k s = (if k = core \<and> s \<in> S then (sector_valid c k s, False) else view c k s))"
      by (fastforce simp: ocf_set_clean_map_info_def S core case_view)
  next
    have "\<forall>j < unat (r_line_count req). purge.entry_ok c req j" using U(4-6) by (auto simp: purge.entry_ok_def)
    from purge.walk [OF assms(1) U(1) this] show "\<exists>c'. ocf_purge_map_info req c = Some c' \<and> cache_reach c' \<and>
      (\<forall>k s. view c' k s = (if k = core \<and> s \<in> S then (False, False) else view c k s))"
      by (auto simp: ocf_purge_map_info_def S core)
  qed
qed


theorem request_ops_refine_witness:
  "\<exists>(c :: 8 word ocf_cache) req0 req c'. ocf_req_new_extended (\<lambda>_. True) True (hit_entry 0) c 1 20992 1024 = Some req0 \<and>
     ocf_engine_lookup c req0 = Some req \<and> ocf_purge_map_info req c = Some c' \<and> sector_valid c 1 41 \<and> \<not> sector_valid c' 1 41"
proof -
  from sample_request obtain c :: "8 word ocf_cache" and req0 where
    c: "cache_reach c" "settings_ok (md c)" "\<forall>s \<in> {41..42}. sector_valid c 1 s"
    and req0: "ocf_req_new_extended (\<lambda>_. True) True (hit_entry 0) c 1 20992 1024 = Some req0" by blast
  have b: "(0 :: u32) < 1024" "unat (20992 :: u64) + unat (1024 :: u32) \<le> 2 ^ 64" by simp_all
  from cache_reach_inv [OF c(1)] obtain L B where "cache_inv c L B" by blast
  from engine_lookup_ref [OF this req_new_ok(1) [OF req0 c(2) b]] obtain req where req: "ocf_engine_lookup c req0 = Some req" by blast
  from conjunct2 [OF conjunct2 [OF conjunct2 [OF request_ops_refine [where now = 0, OF c(1,2) req0 b req refl]]]] obtain c' where
    c': "ocf_purge_map_info req c = Some c'" "\<forall>k s. view c' k s = (if k = 1 \<and> s \<in> {41..42} then (False, False) else view c k s)"
    by auto
  have "\<not> sector_valid c' 1 41" using spec [OF spec [OF c'(2), of 1], of 41] by (simp add: view_def)
  moreover have "sector_valid c 1 41" using c(3) by simp
  ultimately show ?thesis using req0 req c'(1) by blast
qed


section \<open>Moving the lines of a request to its partition\<close>

definition add_part_cached :: "int \<Rightarrow> u16 \<Rightarrow> u16 \<Rightarrow> 'b ocf_cache \<Rightarrow> 'b ocf_cache option" where
  "add_part_cached k core part c = do {
     bug_on (\<not> part < OCF_USER_IO_CLASS_MAX);
     Some (upd_core core (\<lambda>rt. rt\<lparr>part_cached := (part_cached rt)(part := part_cached rt part + k)\<rparr>) c)
   }"

definition part_move_step :: "ocf_request \<Rightarrow> u32 \<Rightarrow> ocf_map_info \<Rightarrow> 'w::len word ocf_cache \<Rightarrow> 'w word ocf_cache option" where
  "part_move_step req i entry c =
     (if \<not> re_part entry then Some c
      else if status entry \<noteq> LOOKUP_HIT then Some c
      else do {
        let line = coll_idx entry;
        let id_old = ocf_metadata_get_partition_id (md c) line;
        let id_new = r_part req;
        bug_on (id_old \<ge> OCF_USER_IO_CLASS_MAX \<or> id_new \<ge> OCF_USER_IO_CLASS_MAX);
        if id_old = id_new then Some c
        else do {
          d \<leftarrow> metadata_test_dirty c line;
          let c = (if d then event (Cleaning_purge line) c else c);
          c \<leftarrow> ocf_lru_repart line id_old id_new c;
          d \<leftarrow> metadata_test_dirty c line;
          c \<leftarrow> (if d then do {
              c \<leftarrow> add_part_dirty 1 (r_core req) id_new (event (Cleaning_hot line) c);
              add_part_dirty (- 1) (r_core req) id_old c
            } else Some c);
          c \<leftarrow> add_part_cached 1 (r_core req) id_new c;
          add_part_cached (- 1) (r_core req) id_old c
        }
      })"

definition ocf_user_part_move :: "ocf_request \<Rightarrow> 'w::len word ocf_cache \<Rightarrow> 'w word ocf_cache option" where
  "ocf_user_part_move req c = for_map (part_move_step req) (rmap req) (unat (r_line_count req)) 0 c"

lemma part_counter_Some:
  "p < OCF_USER_IO_CLASS_MAX \<Longrightarrow> add_part_cached k core p c =
     Some (upd_core core (\<lambda>rt. rt\<lparr>part_cached := (part_cached rt)(p := part_cached rt p + k)\<rparr>) c)"
  by (simp add: add_part_cached_def bug_on_bind)

text \<open>
  What moving a line does: the line is in its new partition, the lists and sizes are right, and the
  counters of the cached lines of the two partitions change by one.
\<close>

lemma part_move_line:
  assumes inv: "cache_inv c L B" and x: "mapped c x" and e: "re_part e" "status e = LOOKUP_HIT" "coll_idx e = x"
    and req: "r_core req = line_core c x" "r_part req < OCF_USER_IO_CLASS_MAX" "line_part c x \<noteq> r_part req"
  shows "\<exists>c' L'. part_move_step req i e c = Some c' \<and> others x c c' \<and> lists_ok c' L' \<and> sizes_ok c' L' \<and> coll_inv (md c') B \<and>
    line_ok c' L' B x \<and> (\<forall>y r. y \<noteq> x \<longrightarrow> y \<in> set (L r) \<longrightarrow> y \<in> set (L' r)) \<and>
    line_part c' x = r_part req \<and> line_core c' x = line_core c x \<and> line_addr c' x = line_addr c x \<and>
    line_valid c' x = line_valid c x \<and> line_dirties c' x = line_dirties c x \<and>
    core_rt c' = (core_rt c)(line_core c x := (core_rt c (line_core c x))
      \<lparr>part_cached := (part_cached (core_rt c (line_core c x)))
         (r_part req := part_cached (core_rt c (line_core c x)) (r_part req) + 1,
          line_part c x := part_cached (core_rt c (line_core c x)) (line_part c x) - 1),
       part_dirty := (if line_dirties c x = {} then part_dirty (core_rt c (line_core c x))
         else (part_dirty (core_rt c (line_core c x)))
           (r_part req := part_dirty (core_rt c (line_core c x)) (r_part req) + 1,
            line_part c x := part_dirty (core_rt c (line_core c x)) (line_part c x) - 1))\<rparr>)"
proof -
  let ?k = "line_core c x" and ?p = "line_part c x" and ?q = "r_part req"
  note D = cache_invD [OF inv] and m = mappedD [OF inv x]
  note l = line_okD [OF D(4) [OF m(1)]]
  have p: "?p < OCF_USER_IO_CLASS_MAX" using l(2,3) m(2) by blast
  have po: "part_ok ?p" "part_ok ?q" using p req(2) by (simp_all add: part_ok_def)
  have d: "metadata_test_dirty c' x = Some (line_dirties c' x \<noteq> {})" if "sectors_ok c'" "line_dirties c' x \<subseteq> sectors c'" for c' :: "'a word ocf_cache"
    using test_dirty_Some [OF that(1)] line_dirty_iff [OF that] by simp
  define c0 where "c0 = (if line_dirties c x \<noteq> {} then event (Cleaning_purge x) c else c)"
  have c0: "md c0 = md c" "lists_ok c0 L" "sizes_ok c0 L" "c_alock c0 = c_alock c" "core_rt c0 = core_rt c"
    "line_ref c0 = line_ref c" "line_dirty c0 = line_dirty c"
    using D(1,2) by (auto simp: c0_def event_def lists_ok_def sizes_ok_def get_list_upd line_ref_def line_dirty_def metadata_test_dirty_def sectors_ok_def fun_eq_iff)
  have "x \<in> set (L (line_ref c0 x))" using l(1) c0(6) by simp
  moreover have "ocf_metadata_get_partition_id (md c0) x = ?p" by (simp add: c0(1) line_part_def)
  ultimately obtain c1 L1 where
    c1: "ocf_lru_repart x ?p ?q c0 = Some c1" "lists_ok c1 L1" "sizes_ok c1 L1"
      "md c1 = ocf_metadata_set_partition_id x ?q (md c)" "c_alock c1 = c_alock c" "core_rt c1 = core_rt c"
    and L1: "L1 = moved x (line_ref c x) (ocf_lru_get_list ?q (x mod OCF_NUM_LRU_LISTS) (\<not> line_dirty c x)) L"
    using repart_ok [OF c0(2,3) _ po] unfolding c0(1,4-7) by metis
  have v1: "line_status c1 y = line_status c y" "line_core c1 y = line_core c y" "line_addr c1 y = line_addr c y"
    "line_part c1 y = (if y = x then ?q else line_part c y)" "line_valid c1 y = line_valid c y" "line_dirties c1 y = line_dirties c y" for y
    using partition_id_roundtrip [OF po(2), of x "md c" y]
    by (simp_all add: line_status_def line_core_def line_addr_def line_valid_def line_dirties_def line_part_def c1(4)
        ocf_metadata_set_partition_id_def)
  have o1: "others x c c1" using v1 c1(4,5) by (simp add: others_def store_laws)
  have s1: "sectors_ok c1" "sectors c1 = sectors c" using othersD(2,3) [OF o1] D(5) by simp_all
  define f :: "ocf_core_meta_runtime \<Rightarrow> ocf_core_meta_runtime" where "f = (\<lambda>rt. rt\<lparr>part_cached := (part_cached rt)(?q := part_cached rt ?q + 1, ?p := part_cached rt ?p - 1),
    part_dirty := (if line_dirties c x = {} then part_dirty rt else (part_dirty rt)(?q := part_dirty rt ?q + 1, ?p := part_dirty rt ?p - 1))\<rparr>)"
  define c2 where "c2 = (if line_dirties c x \<noteq> {} then event (Cleaning_hot x) c1 else c1)"
  define c' where "c' = upd_core ?k f c2"
  have c2: "md c2 = md c1" "lru_meta c2 = lru_meta c1" "part_rt c2 = part_rt c1" "c_alock c2 = c_alock c1" "core_rt c2 = core_rt c1"
    by (auto simp: c2_def event_def)
  have twice: "upd_core k g (upd_core k h b) = upd_core k (g \<circ> h) b" for k g h and b :: "'a word ocf_cache"
    by (simp add: upd_core_def)
  note t = d [OF D(5) l(7)] d [OF s1(1), unfolded s1(2) v1(6), OF l(7)] and pid = line_part_def [symmetric]
  have nb: "\<not> OCF_USER_IO_CLASS_MAX \<le> ?p" "\<not> OCF_USER_IO_CLASS_MAX \<le> ?q" using p req(2) by (simp_all add: not_le)
  have run: "part_move_step req i e c = Some c'"
  proof (cases "line_dirties c x = {}")
    case True
    have f: "(\<lambda>rt. rt\<lparr>part_cached := (part_cached rt)(?p := part_cached rt ?p - 1)\<rparr>) \<circ>
      (\<lambda>rt. rt\<lparr>part_cached := (part_cached rt)(?q := part_cached rt ?q + 1)\<rparr>) = f"
      using req(3) True by (simp add: fun_eq_iff f_def)
    have "part_move_step req i e c = Some (upd_core ?k (\<lambda>rt. rt\<lparr>part_cached := (part_cached rt)(?p := part_cached rt ?p - 1)\<rparr>)
      (upd_core ?k (\<lambda>rt. rt\<lparr>part_cached := (part_cached rt)(?q := part_cached rt ?q + 1)\<rparr>) c1))"
      using True e req p nb c1(1) t by (simp add: part_move_step_def Let_def pid part_counter_Some c0_def)
    then show ?thesis unfolding twice f using True by (simp add: c'_def c2_def)
  next
    case False
    have f: "(\<lambda>rt. rt\<lparr>part_cached := (part_cached rt)(?p := part_cached rt ?p - 1)\<rparr>) \<circ>
      ((\<lambda>rt. rt\<lparr>part_cached := (part_cached rt)(?q := part_cached rt ?q + 1)\<rparr>) \<circ>
      ((\<lambda>rt. rt\<lparr>part_dirty := (part_dirty rt)(?p := part_dirty rt ?p - 1)\<rparr>) \<circ>
      (\<lambda>rt. rt\<lparr>part_dirty := (part_dirty rt)(?q := part_dirty rt ?q + 1)\<rparr>))) = f"
      using req(3) False by (simp add: fun_eq_iff f_def)
    have "part_move_step req i e c = Some (upd_core ?k (\<lambda>rt. rt\<lparr>part_cached := (part_cached rt)(?p := part_cached rt ?p - 1)\<rparr>)
      (upd_core ?k (\<lambda>rt. rt\<lparr>part_cached := (part_cached rt)(?q := part_cached rt ?q + 1)\<rparr>)
      (upd_core ?k (\<lambda>rt. rt\<lparr>part_dirty := (part_dirty rt)(?p := part_dirty rt ?p - 1)\<rparr>)
      (upd_core ?k (\<lambda>rt. rt\<lparr>part_dirty := (part_dirty rt)(?q := part_dirty rt ?q + 1)\<rparr>) (event (Cleaning_hot x) c1)))))"
      using False e req p nb c1(1) t by (simp add: part_move_step_def Let_def pid part_counter_Some add_part_dirty_Some c0_def)
    then show ?thesis unfolding twice f using False by (simp add: c'_def c2_def)
  qed
  have md': "md c' = md c1" "lru_meta c' = lru_meta c1" "part_rt c' = part_rt c1" "c_alock c' = c_alock c" "core_rt c' = (core_rt c)(?k := f (core_rt c ?k))"
    using c2 c1 by (simp_all add: c'_def store_laws)
  have v: "line_status c' y = line_status c1 y" "line_core c' y = line_core c1 y" "line_addr c' y = line_addr c1 y"
    "line_part c' y = line_part c1 y" "line_valid c' y = line_valid c1 y" "line_dirties c' y = line_dirties c1 y" for y
    by (simp_all add: line_status_def line_core_def line_addr_def line_valid_def line_dirties_def line_part_def md')
  have o: "others x c c'" using others_trans [OF o1 others_md, of c'] md'(1,4) c1(5) by simp
  have gl: "get_list c' r = get_list c1 r" for r using md'(3) by (cases r) (simp add: get_list.simps)
  have ref: "line_ref c' y = line_ref c1 y" for y using md'(1) by (simp add: line_ref_def line_dirty_def metadata_test_dirty_def)
  have lo: "lists_ok c' L1" by (rule lists_ok_same [OF c1(2) md'(2) gl _ ref]) (simp add: sectors_ok_def md')
  have so: "sizes_ok c' L1" by (rule sizes_ok_same [OF c1(3)]) (simp add: md')
  have co: "coll_inv (md c') B" using D(3) by (simp add: md' c1(4) store_laws)
  have "line_ref c' x = ocf_lru_get_list ?q (x mod OCF_NUM_LRU_LISTS) (\<not> line_dirty c x)"
    unfolding ref using line_ref_iff [OF s1(1), of x] line_dirty_iff [OF D(5) l(7)] l(7) s1(2) v1(4,6) [of x] by simp
  then have on: "x \<in> set (L1 (line_ref c' x))" by (simp add: L1 moved_def Let_def)
  have "in_table c' B x = in_table c B x" using o by (intro in_table_same) (simp add: others_def)
  moreover have "?q \<noteq> PARTITION_FREELIST" using req(2) by (auto simp: PARTITION_FREELIST_def OCF_USER_IO_CLASS_MAX_def)
  ultimately have lk: "line_ok c' L1 B x" using on l m(2) req(2) v1 [of x] othersD(2) [OF o] unfolding line_ok_def v by auto
  have mem: "y \<in> set (L1 r)" if "y \<noteq> x" "y \<in> set (L r)" for y r using that by (auto simp: L1 moved_def Let_def in_set_remove1)
  from run o lo so co lk mem v v1 [of x] md'(5) show ?thesis unfolding f_def
    by (intro exI [of _ c'] exI [of _ L1]) auto
qed


lemma count_lines_same:
  fixes c c' :: "'w::len word ocf_cache"
  assumes "others x c c'" "x \<in> lines c" "P' x = P x" "\<And>y. y \<noteq> x \<Longrightarrow> P' y = P y"
  shows "count_lines c' P' = count_lines c P"
  using count_lines_upd [of c' c x P' P, OF othersD(1) [OF assms(1)] assms(2)] assms(3,4) by simp

text \<open>
  Property C25. Moving a cached line to the partition of a request always succeeds and changes the
  partition of this line only: its sectors, its core line and every other line stay as they are. The
  invariant of the cache holds afterwards exactly when the line has a valid sector. Otherwise (the line
  is mapped and none of its sectors is valid, as after an invalidation while requests wait for the
  line) the counters of the cached lines are wrong from then on: the line was not counted in its old
  partition, but the move subtracts it there and adds it to the new one.
\<close>

theorem part_move_invariant:
  assumes "cache_reach c" "mapped c x" "re_part e" "status e = LOOKUP_HIT" "coll_idx e = x"
    "r_core req = line_core c x" "r_part req < OCF_USER_IO_CLASS_MAX" "line_part c x \<noteq> r_part req"
  shows "\<exists>c'. part_move_step req i e c = Some c' \<and>
    abs_cache c' = (abs_cache c)(x := map_option (\<lambda>l. l\<lparr>cl_part := r_part req\<rparr>) (abs_cache c x)) \<and>
    ((\<exists>L B. cache_inv c' L B) \<longleftrightarrow> line_valid c x \<noteq> {})"
proof -
  let ?k = "line_core c x" and ?q = "r_part req"
  from cache_reach_inv [OF assms(1)] obtain L B where inv: "cache_inv c L B" by blast
  note D = cache_invD [OF inv] and m = mappedD [OF inv assms(2)]
  have counters: "counters_ok c" using inv unfolding cache_inv_def by blast
  from part_move_line [OF inv assms(2-8)] obtain c' L' where
    run: "part_move_step req i e c = Some c'" and o: "others x c c'" and lk: "lists_ok c' L'" "sizes_ok c' L'" "coll_inv (md c') B" "line_ok c' L' B x"
    and mem: "\<And>y r. y \<noteq> x \<Longrightarrow> y \<in> set (L r) \<Longrightarrow> y \<in> set (L' r)"
    and v: "line_part c' x = ?q" "line_core c' x = ?k" "line_addr c' x = line_addr c x" "line_valid c' x = line_valid c x" "line_dirties c' x = line_dirties c x"
    and rt: "core_rt c' = (core_rt c)(?k := (core_rt c ?k)
      \<lparr>part_cached := (part_cached (core_rt c ?k))(?q := part_cached (core_rt c ?k) ?q + 1, line_part c x := part_cached (core_rt c ?k) (line_part c x) - 1),
       part_dirty := (if line_dirties c x = {} then part_dirty (core_rt c ?k)
         else (part_dirty (core_rt c ?k))(?q := part_dirty (core_rt c ?k) ?q + 1, line_part c x := part_dirty (core_rt c ?k) (line_part c x) - 1))\<rparr>)"
    by blast
  have q: "?q \<noteq> PARTITION_FREELIST" using assms(7) by (auto simp: PARTITION_FREELIST_def OCF_USER_IO_CLASS_MAX_def)
  have "abs_cache c' x = map_option (\<lambda>l. l\<lparr>cl_part := ?q\<rparr>) (abs_cache c x)"
    using assms(2) q v othersD(1) [OF o] by (simp add: abs_cache_def mapped_def)
  then have abs: "abs_cache c' = (abs_cache c)(x := map_option (\<lambda>l. l\<lparr>cl_part := ?q\<rparr>) (abs_cache c x))"
    using abs_cache_others [OF o] by simp
  have "cache_inv c' L' B" if "line_valid c x \<noteq> {}"
  proof (rule cache_inv_step [OF inv m(1) o lk _ mem])
    show "counter_delta x c c'" using that assms(8) unfolding counter_delta_def v rt by auto
  qed auto
  moreover have "line_valid c x \<noteq> {}" if "cache_inv c' L2 B2" for L2 B2
  proof
    assume e: "line_valid c x = {}"
    let ?P = "\<lambda>c y. line_core c y = ?k \<and> line_part c y = ?q \<and> line_valid c y \<noteq> {}"
    have "count_lines c' (?P c') = count_lines c (?P c)"
      by (rule count_lines_same [OF o m(1)]) (simp_all add: v e othersD [OF o])
    moreover have "part_cached (core_rt c ?k) ?q = count_lines c (?P c)" using counters by (simp add: counters_ok_def)
    moreover have "counters_ok c'" using that unfolding cache_inv_def by blast
    then have "part_cached (core_rt c' ?k) ?q = count_lines c' (?P c')" by (simp add: counters_ok_def)
    ultimately show False using assms(8) unfolding rt by simp
  qed
  ultimately show ?thesis using run abs by blast
qed

text \<open>The sample with its line marked for the partition 1.\<close>

theorem part_move_invariant_witness:
  "\<exists>(c :: 8 word ocf_cache) req c'. line_part c 3 = 0 \<and> part_move_step req 0 ((hit_entry 3)\<lparr>re_part := True\<rparr>) c = Some c' \<and>
     abs_cache c' = [3 \<mapsto> \<lparr>cl_part = 1, cl_core = 1, cl_addr = 5, cl_valid = {0..7}, cl_dirty = {}\<rparr>] \<and> (\<exists>L B. cache_inv c' L B)"
proof -
  from sample_cached obtain c :: "8 word ocf_cache" where
    c: "cache_reach c" "abs_cache c = [3 \<mapsto> \<lparr>cl_part = 0, cl_core = 1, cl_addr = 5, cl_valid = {0..7}, cl_dirty = {}\<rparr>]" by blast
  have l: "mapped c 3" "line_part c 3 = 0" "line_core c 3 = 1" "line_valid c 3 = {0..7}"
    using fun_cong [OF c(2), of 3] by (auto simp: abs_cache_def split: if_splits)
  define req where "req = \<lparr>byte_position = 0, byte_length = 0, core_line_first = 0, core_line_last = 0, r_line_count = 0,
    alloc_core_line_count = 0, r_core = 1, r_part = 1, r_error = False, info = zero_info, rmap = []\<rparr>"
  have r: "r_core req = line_core c 3" "r_part req < OCF_USER_IO_CLASS_MAX" "line_part c 3 \<noteq> r_part req"
    using l by (simp_all add: req_def OCF_USER_IO_CLASS_MAX_def)
  from part_move_invariant [OF c(1) l(1) _ _ _ r, of "(hit_entry 3)\<lparr>re_part := True\<rparr>" 0] obtain c' where
    c': "part_move_step req 0 ((hit_entry 3)\<lparr>re_part := True\<rparr>) c = Some c'"
      "abs_cache c' = (abs_cache c)(3 := map_option (\<lambda>l. l\<lparr>cl_part := r_part req\<rparr>) (abs_cache c 3))"
      "(\<exists>L B. cache_inv c' L B) \<longleftrightarrow> line_valid c 3 \<noteq> {}"
    by (auto simp: hit_entry_def)
  have "abs_cache c' = [3 \<mapsto> \<lparr>cl_part = 1, cl_core = 1, cl_addr = 5, cl_valid = {0..7}, cl_dirty = {}\<rparr>]"
    unfolding c'(2) c(2) by (simp add: req_def)
  moreover have "\<exists>L B. cache_inv c' L B" using c'(3) l(4) by simp
  ultimately show ?thesis using l(2) c'(1) by blast
qed

end
