(* ===== verification/OCF_Hash_Locks.thy ===== *)
theory OCF_Hash_Locks
  imports OCF_Alock OCF_Metadata
begin

text \<open>
  The locks of the cache metadata (\<open>ocf/src/concurrency/ocf_metadata_concurrency.c\<close>): the global lock,
  which is an array of read-write semaphores of which a reader takes one and a writer all, and the
  locks of the hash buckets, which a request takes for all of its core lines in ascending order. The
  theory shows that the iteration over the buckets of a request visits each of them once in ascending
  order (also when the buckets wrap around the end of the table, and when the request is longer than
  the table), that \<open>ocf_req_hash_in_range\<close> decides membership, that threads which take their locks
  with these routines never deadlock, and what the error paths release.
\<close>

section \<open>Semaphores\<close>

text \<open>
  A read-write semaphore of the environment (\<open>pthread_rwlock_t\<close>). A blocking operation that would have
  to wait, and a release of what is not held, give \<open>None\<close>.
\<close>

datatype env_rwsem = Readers nat | Writer

fun env_rwsem_down_read :: "env_rwsem \<Rightarrow> env_rwsem option" where
  "env_rwsem_down_read (Readers n) = Some (Readers (Suc n))"
| "env_rwsem_down_read Writer = None"

fun env_rwsem_down_write :: "env_rwsem \<Rightarrow> env_rwsem option" where
  "env_rwsem_down_write (Readers 0) = Some Writer"
| "env_rwsem_down_write _ = None"

fun env_rwsem_up_read :: "env_rwsem \<Rightarrow> env_rwsem option" where
  "env_rwsem_up_read (Readers (Suc n)) = Some (Readers n)"
| "env_rwsem_up_read _ = None"

fun env_rwsem_up_write :: "env_rwsem \<Rightarrow> env_rwsem option" where
  "env_rwsem_up_write Writer = Some (Readers 0)"
| "env_rwsem_up_write _ = None"

text \<open>The attempts return the error code, 0 or \<open>-OCF_ERR_NO_LOCK\<close>; \<open>True\<close> stands for 0.\<close>

definition env_rwsem_down_write_trylock :: "env_rwsem \<Rightarrow> bool \<times> env_rwsem" where
  "env_rwsem_down_write_trylock s = (case env_rwsem_down_write s of Some s' \<Rightarrow> (True, s') | None \<Rightarrow> (False, s))"

definition env_rwsem_down_read_trylock :: "env_rwsem \<Rightarrow> bool \<times> env_rwsem" where
  "env_rwsem_down_read_trylock s = (case env_rwsem_down_read s of Some s' \<Rightarrow> (True, s') | None \<Rightarrow> (False, s))"

section \<open>The locks of the metadata\<close>

datatype lock_id = Global nat | Hash u32 | Collision_page u32

record ocf_metadata_lock =
  sem :: "lock_id \<Rightarrow> env_rwsem"
  num_hash_entries :: u32

definition OCF_NUM_GLOBAL_META_LOCKS :: nat where
  "OCF_NUM_GLOBAL_META_LOCKS = 2 ^ 2"

definition upd_sem :: "(env_rwsem \<Rightarrow> env_rwsem option) \<Rightarrow> lock_id \<Rightarrow> ocf_metadata_lock \<Rightarrow> ocf_metadata_lock option" where
  "upd_sem f i ml = do { s \<leftarrow> f (sem ml i); Some (ml\<lparr>sem := (sem ml)(i := s)\<rparr>) }"

definition down :: "rw \<Rightarrow> lock_id \<Rightarrow> ocf_metadata_lock \<Rightarrow> ocf_metadata_lock option" where
  "down m = upd_sem (if m = OCF_WRITE then env_rwsem_down_write else env_rwsem_down_read)"

definition up :: "rw \<Rightarrow> lock_id \<Rightarrow> ocf_metadata_lock \<Rightarrow> ocf_metadata_lock option" where
  "up m = upd_sem (if m = OCF_WRITE then env_rwsem_up_write else env_rwsem_up_read)"

fun for_each :: "('a \<Rightarrow> 's \<Rightarrow> 's option) \<Rightarrow> 'a list \<Rightarrow> 's \<Rightarrow> 's option" where
  "for_each f [] s = Some s"
| "for_each f (x # xs) s = do { s \<leftarrow> f x s; for_each f xs s }"

definition ocf_metadata_start_exclusive_access :: "ocf_metadata_lock \<Rightarrow> ocf_metadata_lock option" where
  "ocf_metadata_start_exclusive_access =
     for_each (\<lambda>i. down OCF_WRITE (Global i)) [0..<OCF_NUM_GLOBAL_META_LOCKS]"

text \<open>The locks \<open>i\<close> to \<open>i + n - 1\<close>; \<open>taken\<close> are the ones already taken, latest first.\<close>

fun try_exclusive :: "nat \<Rightarrow> nat \<Rightarrow> nat list \<Rightarrow> ocf_metadata_lock \<Rightarrow> (bool \<times> ocf_metadata_lock) option" where
  "try_exclusive i 0 taken ml = Some (True, ml)"
| "try_exclusive i (Suc n) taken ml =
     (let (ok, s) = env_rwsem_down_write_trylock (sem ml (Global i));
          ml = ml\<lparr>sem := (sem ml)(Global i := s)\<rparr>
      in if ok then try_exclusive (Suc i) n (i # taken) ml
         else do { ml \<leftarrow> for_each (\<lambda>j. up OCF_WRITE (Global j)) taken ml; Some (False, ml) })"

definition ocf_metadata_try_start_exclusive_access :: "ocf_metadata_lock \<Rightarrow> (bool \<times> ocf_metadata_lock) option" where
  "ocf_metadata_try_start_exclusive_access = try_exclusive 0 OCF_NUM_GLOBAL_META_LOCKS []"

definition ocf_metadata_end_exclusive_access :: "ocf_metadata_lock \<Rightarrow> ocf_metadata_lock option" where
  "ocf_metadata_end_exclusive_access =
     for_each (\<lambda>i. up OCF_WRITE (Global i)) (rev [0..<OCF_NUM_GLOBAL_META_LOCKS])"

definition ocf_metadata_start_shared_access :: "nat \<Rightarrow> ocf_metadata_lock \<Rightarrow> ocf_metadata_lock option" where
  "ocf_metadata_start_shared_access lock_idx = down OCF_READ (Global lock_idx)"

definition ocf_metadata_try_start_shared_access :: "nat \<Rightarrow> ocf_metadata_lock \<Rightarrow> bool \<times> ocf_metadata_lock" where
  "ocf_metadata_try_start_shared_access lock_idx ml =
     (let (ok, s) = env_rwsem_down_read_trylock (sem ml (Global lock_idx))
      in (ok, ml\<lparr>sem := (sem ml)(Global lock_idx := s)\<rparr>))"

definition ocf_metadata_end_shared_access :: "nat \<Rightarrow> ocf_metadata_lock \<Rightarrow> ocf_metadata_lock option" where
  "ocf_metadata_end_shared_access lock_idx = up OCF_READ (Global lock_idx)"

definition ocf_hb_id_naked_lock :: "u32 \<Rightarrow> rw \<Rightarrow> ocf_metadata_lock \<Rightarrow> ocf_metadata_lock option" where
  "ocf_hb_id_naked_lock hash m ml = do {
     bug_on (hash \<ge> num_hash_entries ml);
     down m (Hash hash) ml
   }"

definition ocf_hb_id_naked_unlock :: "u32 \<Rightarrow> rw \<Rightarrow> ocf_metadata_lock \<Rightarrow> ocf_metadata_lock option" where
  "ocf_hb_id_naked_unlock hash m ml = do {
     bug_on (hash \<ge> num_hash_entries ml);
     up m (Hash hash) ml
   }"

definition ocf_hb_id_naked_trylock :: "u32 \<Rightarrow> rw \<Rightarrow> ocf_metadata_lock \<Rightarrow> (bool \<times> ocf_metadata_lock) option" where
  "ocf_hb_id_naked_trylock hash m ml = do {
     bug_on (hash \<ge> num_hash_entries ml);
     let (ok, s) = (if m = OCF_WRITE then env_rwsem_down_write_trylock (sem ml (Hash hash))
                    else env_rwsem_down_read_trylock (sem ml (Hash hash)));
     Some (ok, ml\<lparr>sem := (sem ml)(Hash hash := s)\<rparr>)
   }"

text \<open>
  \<open>ocf_hb_cline_naked_trylock_wr\<close>, \<open>_rd\<close>, \<open>ocf_hb_cline_naked_unlock_rd\<close>, \<open>_wr\<close>; the metadata gives the
  hash function.
\<close>

definition ocf_hb_cline_naked_trylock ::
    "'b ocf_metadata \<Rightarrow> rw \<Rightarrow> u16 \<Rightarrow> u64 \<Rightarrow> ocf_metadata_lock \<Rightarrow> (bool \<times> ocf_metadata_lock) option" where
  "ocf_hb_cline_naked_trylock md m core cline ml =
     ocf_hb_id_naked_trylock (ocf_metadata_hash_func md cline core) m ml"

definition ocf_hb_cline_naked_unlock ::
    "'b ocf_metadata \<Rightarrow> rw \<Rightarrow> u16 \<Rightarrow> u64 \<Rightarrow> ocf_metadata_lock \<Rightarrow> ocf_metadata_lock option" where
  "ocf_hb_cline_naked_unlock md m core cline ml =
     ocf_hb_id_naked_unlock (ocf_metadata_hash_func md cline core) m ml"

definition ocf_hb_id_prot_lock_common :: "nat \<Rightarrow> u32 \<Rightarrow> rw \<Rightarrow> ocf_metadata_lock \<Rightarrow> ocf_metadata_lock option" where
  "ocf_hb_id_prot_lock_common lock_idx hash m ml = do {
     ml \<leftarrow> ocf_metadata_start_shared_access lock_idx ml;
     ocf_hb_id_naked_lock hash m ml
   }"

definition ocf_hb_id_prot_unlock_common :: "nat \<Rightarrow> u32 \<Rightarrow> rw \<Rightarrow> ocf_metadata_lock \<Rightarrow> ocf_metadata_lock option" where
  "ocf_hb_id_prot_unlock_common lock_idx hash m ml = do {
     ml \<leftarrow> ocf_hb_id_naked_unlock hash m ml;
     ocf_metadata_end_shared_access lock_idx ml
   }"

text \<open>\<open>ocf_hb_cline_prot_lock_wr\<close>, \<open>_rd\<close>, \<open>ocf_hb_cline_prot_unlock_wr\<close>, \<open>_rd\<close>.\<close>

definition ocf_hb_cline_prot_lock ::
    "'b ocf_metadata \<Rightarrow> rw \<Rightarrow> nat \<Rightarrow> u16 \<Rightarrow> u64 \<Rightarrow> ocf_metadata_lock \<Rightarrow> ocf_metadata_lock option" where
  "ocf_hb_cline_prot_lock md m lock_idx core cline ml =
     ocf_hb_id_prot_lock_common lock_idx (ocf_metadata_hash_func md cline core) m ml"

definition ocf_hb_cline_prot_unlock ::
    "'b ocf_metadata \<Rightarrow> rw \<Rightarrow> nat \<Rightarrow> u16 \<Rightarrow> u64 \<Rightarrow> ocf_metadata_lock \<Rightarrow> ocf_metadata_lock option" where
  "ocf_hb_cline_prot_unlock md m lock_idx core cline ml =
     ocf_hb_id_prot_unlock_common lock_idx (ocf_metadata_hash_func md cline core) m ml"


section \<open>The buckets of a request\<close>

text \<open>The part of a request used here; a request has at least one core line.\<close>

record hb_req =
  hb_map :: "ocf_map_info list"
  hb_line_first :: u64
  hb_core_id :: u16
  lock_idx :: nat

definition ocf_req_hash :: "'b ocf_metadata \<Rightarrow> hb_req \<Rightarrow> hb_req" where
  "ocf_req_hash md r = r\<lparr>hb_map := map (\<lambda>i. (hb_map r ! i)\<lparr>map_hash :=
     ocf_metadata_hash_func md (hb_line_first r + of_nat i) (hb_core_id r)\<rparr>) [0..<length (hb_map r)]\<rparr>"

definition req_lines :: "hb_req \<Rightarrow> u32" where
  "req_lines r = of_nat (length (hb_map r))"

definition first_hash :: "hb_req \<Rightarrow> u32" where
  "first_hash r = map_hash (hb_map r ! 0)"

definition IS_MONOTONIC :: "u32 \<Rightarrow> hb_req \<Rightarrow> bool" where
  "IS_MONOTONIC n r \<longleftrightarrow> first_hash r + req_lines r \<le> n"

definition MIN_HASH :: "u32 \<Rightarrow> hb_req \<Rightarrow> u32" where
  "MIN_HASH n r = (if IS_MONOTONIC n r then first_hash r else 0)"

definition GAP_START :: "hb_req \<Rightarrow> u32" where
  "GAP_START r = map_hash (hb_map r ! (length (hb_map r) - 1))"

definition MAX_HASH :: "u32 \<Rightarrow> hb_req \<Rightarrow> u32" where
  "MAX_HASH n r = (if IS_MONOTONIC n r then GAP_START r else n - 1)"

definition HASH_COUNT :: "u32 \<Rightarrow> hb_req \<Rightarrow> u32" where
  "HASH_COUNT n r = min (req_lines r) n"

definition HAS_GAP :: "u32 \<Rightarrow> hb_req \<Rightarrow> bool" where
  "HAS_GAP n r \<longleftrightarrow> MAX_HASH n r - MIN_HASH n r + 1 > HASH_COUNT n r"

definition GAP_VAL :: "u32 \<Rightarrow> hb_req \<Rightarrow> u32" where
  "GAP_VAL n r = (MAX_HASH n r - MIN_HASH n r + 1) - HASH_COUNT n r"

definition HASH_NEXT :: "u32 \<Rightarrow> hb_req \<Rightarrow> u32 \<Rightarrow> u32" where
  "HASH_NEXT n r hash = hash + 1 + (if HAS_GAP n r \<and> hash = GAP_START r then GAP_VAL n r else 0)"

text \<open>The values of the loop variable of \<open>for_each_req_hash_asc\<close> from \<open>hash\<close> on.\<close>

partial_function (option) hash_loop :: "u32 \<Rightarrow> hb_req \<Rightarrow> u32 \<Rightarrow> u32 list option" where
  "hash_loop n r hash =
     (if hash \<le> MAX_HASH n r then do { hs \<leftarrow> hash_loop n r (HASH_NEXT n r hash); Some (hash # hs) }
      else Some [])"

definition for_each_req_hash_asc :: "u32 \<Rightarrow> hb_req \<Rightarrow> u32 list option" where
  "for_each_req_hash_asc n r = hash_loop n r (MIN_HASH n r)"

definition ocf_req_hash_in_range :: "'b ocf_metadata \<Rightarrow> u32 \<Rightarrow> hb_req \<Rightarrow> u16 \<Rightarrow> u64 \<Rightarrow> bool" where
  "ocf_req_hash_in_range md n r core cline =
     (let hash = ocf_metadata_hash_func md cline core
      in if \<not> HAS_GAP n r then hash \<ge> MIN_HASH n r \<and> hash \<le> MAX_HASH n r
         else hash \<ge> MIN_HASH n r \<and> hash \<le> GAP_START r \<or>
              hash > GAP_START r + GAP_VAL n r \<and> hash \<le> MAX_HASH n r)"

definition ocf_hb_req_prot_lock :: "rw \<Rightarrow> hb_req \<Rightarrow> ocf_metadata_lock \<Rightarrow> ocf_metadata_lock option" where
  "ocf_hb_req_prot_lock m r ml = do {
     ml \<leftarrow> ocf_metadata_start_shared_access (lock_idx r) ml;
     hs \<leftarrow> for_each_req_hash_asc (num_hash_entries ml) r;
     for_each (\<lambda>hash. ocf_hb_id_naked_lock hash m) hs ml
   }"

definition ocf_hb_req_prot_unlock :: "rw \<Rightarrow> hb_req \<Rightarrow> ocf_metadata_lock \<Rightarrow> ocf_metadata_lock option" where
  "ocf_hb_req_prot_unlock m r ml = do {
     hs \<leftarrow> for_each_req_hash_asc (num_hash_entries ml) r;
     ml \<leftarrow> for_each (\<lambda>hash. ocf_hb_id_naked_unlock hash m) hs ml;
     ocf_metadata_end_shared_access (lock_idx r) ml
   }"

definition ocf_hb_req_prot_lock_upgrade :: "hb_req \<Rightarrow> ocf_metadata_lock \<Rightarrow> ocf_metadata_lock option" where
  "ocf_hb_req_prot_lock_upgrade r ml = do {
     hs \<leftarrow> for_each_req_hash_asc (num_hash_entries ml) r;
     ml \<leftarrow> for_each (\<lambda>hash. ocf_hb_id_naked_unlock hash OCF_READ) hs ml;
     for_each (\<lambda>hash. ocf_hb_id_naked_lock hash OCF_WRITE) hs ml
   }"

section \<open>The iteration\<close>

text \<open>The buckets of consecutive core lines are consecutive modulo the size of the table.\<close>

definition hashed :: "u32 \<Rightarrow> hb_req \<Rightarrow> bool" where
  "hashed n r \<longleftrightarrow> 0 < n \<and> hb_map r \<noteq> [] \<and> first_hash r < n \<and> unat (first_hash r) + length (hb_map r) < 2 ^ 32 \<and>
     (\<forall>i < length (hb_map r). unat (map_hash (hb_map r ! i)) = (unat (first_hash r) + i) mod unat n)"

lemma hashed_map_hash:
  "hashed n r \<Longrightarrow> i < length (hb_map r) \<Longrightarrow> unat (map_hash (hb_map r ! i)) = (unat (first_hash r) + i) mod unat n"
  by (simp add: hashed_def)

text \<open>The buckets of a request as a set of numbers: an interval, two intervals, or all.\<close>

definition bucket_set :: "u32 \<Rightarrow> hb_req \<Rightarrow> nat set" where
  "bucket_set n r = (\<lambda>e. unat (map_hash e)) ` set (hb_map r)"

lemma mod_interval_image:
  assumes "a < (n::nat)"
  shows "(\<lambda>i. (a + i) mod n) ` {..<k} =
    (if a + k \<le> n then {a..<a + k} else if k < n then {..<a + k - n} \<union> {a..<n} else {..<n})"
proof -
  have img: "(\<lambda>i. (a + i) mod n) ` {..<k} = (\<lambda>j. j mod n) ` {a..<a + k}"
  proof -
    have "{a..<a + k} = (\<lambda>i. a + i) ` {..<k}" using image_add_atLeastLessThan [of a 0 k] by (simp add: lessThan_atLeast0 add.commute)
    then show ?thesis by (simp add: image_image)
  qed
  consider "a + k \<le> n" | "n < a + k" "k < n" | "n \<le> k" "n < a + k" using assms by linarith
  then show ?thesis
  proof cases
    case 1
    then have "(\<lambda>j. j mod n) ` {a..<a + k} = (\<lambda>j. j) ` {a..<a + k}" by (intro image_cong) auto
    with 1 img show ?thesis by simp
  next
    case 2
    then have "{a..<a + k} = {a..<n} \<union> {n..<a + k}" using assms by auto
    moreover have "(\<lambda>j. j mod n) ` {a..<n} = (\<lambda>j. j) ` {a..<n}" by (intro image_cong) auto
    moreover have "(\<lambda>j. j mod n) ` {n..<a + k} = (\<lambda>j. j - n) ` {n..<a + k}"
      using 2 assms by (intro image_cong) (auto simp: le_mod_geq)
    moreover have "(\<lambda>j. j - n) ` {n..<a + k} = {..<a + k - n}"
      using 2 by (simp add: image_minus_const_atLeastLessThan_nat lessThan_atLeast0)
    ultimately have "(\<lambda>j. j mod n) ` {a..<a + k} = {a..<n} \<union> {..<a + k - n}" by (simp add: image_Un)
    with 2 img show ?thesis by auto
  next
    case 3
    have "x \<in> (\<lambda>i. (a + i) mod n) ` {..<k}" if "x < n" for x
    proof (rule image_eqI [of _ _ "(x + (n - a)) mod n"])
      show "x = (a + (x + (n - a)) mod n) mod n" using that assms by (simp add: mod_add_right_eq)
      have "(x + (n - a)) mod n < n" using assms by simp
      with 3(1) show "(x + (n - a)) mod n \<in> {..<k}" unfolding lessThan_iff by (rule order_less_le_trans [rotated])
    qed
    moreover have "(\<lambda>i. (a + i) mod n) ` {..<k} \<subseteq> {..<n}" using assms by auto
    ultimately have "(\<lambda>i. (a + i) mod n) ` {..<k} = {..<n}" by auto
    with 3 show ?thesis by simp
  qed
qed

lemma bucket_set_eq:
  assumes "hashed n r"
  defines "a \<equiv> unat (first_hash r)" and "k \<equiv> length (hb_map r)"
  shows "bucket_set n r =
    (if a + k \<le> unat n then {a..<a + k} else if k < unat n then {..<a + k - unat n} \<union> {a..<unat n} else {..<unat n})"
proof -
  have "bucket_set n r = (\<lambda>i. unat (map_hash (hb_map r ! i))) ` {..<k}"
    unfolding bucket_set_def k_def set_conv_nth by auto
  also have "\<dots> = (\<lambda>i. (a + i) mod unat n) ` {..<k}"
    unfolding a_def k_def by (intro image_cong) (simp_all add: hashed_map_hash [OF assms(1)])
  finally show ?thesis
    using assms(1) mod_interval_image [of a "unat n" k] by (simp add: hashed_def a_def word_less_nat_alt)
qed

lemma unat_req_lines: "hashed n r \<Longrightarrow> unat (req_lines r) = length (hb_map r)"
  by (simp add: req_lines_def hashed_def unsigned_of_nat take_bit_nat_eq_self)

lemma hash_macros:
  assumes "hashed n r"
  defines "a \<equiv> unat (first_hash r)" and "k \<equiv> length (hb_map r)"
  shows "IS_MONOTONIC n r \<longleftrightarrow> a + k \<le> unat n" "unat (GAP_START r) = (a + k - 1) mod unat n"
    "unat (HASH_COUNT n r) = min k (unat n)"
proof -
  have b: "a + k < 2 ^ 32" "0 < k" "a < unat n" using assms by (auto simp: hashed_def word_less_nat_alt)
  have "unat (first_hash r + req_lines r) = a + k"
    using b unat_req_lines [OF assms(1)] by (subst unat_add_lem [THEN iffD1]) (simp_all add: a_def k_def)
  then show "IS_MONOTONIC n r \<longleftrightarrow> a + k \<le> unat n" by (simp add: IS_MONOTONIC_def word_le_nat_alt)
  show "unat (GAP_START r) = (a + k - 1) mod unat n"
    using b hashed_map_hash [OF assms(1), of "k - 1"] by (simp add: GAP_START_def k_def a_def Nat.add_diff_assoc Suc_leI)
  show "unat (HASH_COUNT n r) = min k (unat n)"
    using unat_req_lines [OF assms(1)] by (auto simp: HASH_COUNT_def k_def min_def word_le_nat_alt)
qed

lemma hash_loop_segment:
  assumes "\<And>h. x \<le> h \<Longrightarrow> h < y \<Longrightarrow> h \<le> MAX_HASH n r \<and> HASH_NEXT n r h = h + 1" "x \<le> y"
  shows "hash_loop n r x = do { hs \<leftarrow> hash_loop n r y; Some (map of_nat [unat x..<unat y] @ hs) }"
  using assms
proof (induction "unat y - unat x" arbitrary: x)
  case 0
  then have "x = y" by (simp add: word_le_nat_alt word_unat_eq_iff)
  then show ?case by simp
next
  case (Suc d)
  then have xy: "x < y" by (simp add: word_less_nat_alt)
  then have "unat x < unat y" by (simp add: word_less_nat_alt)
  moreover have "unat y < 2 ^ 32" using unsigned_less [of y] by simp
  ultimately have ux: "unat (x + 1) = unat x + 1" by (simp add: unat_add_one)
  have "hash_loop n r (x + 1) = do { hs \<leftarrow> hash_loop n r y; Some (map of_nat [unat (x + 1)..<unat y] @ hs) }"
  proof (rule Suc.hyps(1))
    show "d = unat y - unat (x + 1)" using Suc.hyps(2) ux by simp
    show "h \<le> MAX_HASH n r \<and> HASH_NEXT n r h = h + 1" if "x + 1 \<le> h" "h < y" for h
      using that ux by (intro Suc.prems) (simp_all add: word_le_nat_alt)
    show "x + 1 \<le> y" using xy ux by (simp add: word_le_nat_alt word_less_nat_alt)
  qed
  moreover have "x \<le> MAX_HASH n r" "HASH_NEXT n r x = x + 1" using Suc.prems(1) [of x] xy by simp_all
  moreover have "[unat x..<unat y] = unat x # [unat x + 1..<unat y]"
    using \<open>unat x < unat y\<close> by (simp add: upt_rec)
  ultimately show ?case
    by (subst hash_loop.simps) (simp add: ux Option.bind_assoc [symmetric] split: Option.bind_split)
qed

lemma hash_loop_end: "\<not> h \<le> MAX_HASH n r \<Longrightarrow> hash_loop n r h = Some []"
  by (subst hash_loop.simps) simp

lemma MAX_HASH_pos: "hashed n r \<Longrightarrow> \<not> IS_MONOTONIC n r \<Longrightarrow> unat (MAX_HASH n r) = unat n - 1"
  by (simp add: MAX_HASH_def hashed_def word_less_nat_alt)

lemma hash_loop_upto:
  assumes "\<And>h. x \<le> h \<Longrightarrow> h \<le> MAX_HASH n r \<Longrightarrow> HASH_NEXT n r h = h + 1" "x \<le> MAX_HASH n r + 1"
    and "unat (MAX_HASH n r) + 1 < 2 ^ 32"
  shows "hash_loop n r x = Some (map of_nat [unat x..<unat (MAX_HASH n r) + 1])"
proof -
  have u: "unat (MAX_HASH n r + 1) = unat (MAX_HASH n r) + 1" using assms(3) by (simp add: unat_add_one)
  have "hash_loop n r x = do { hs \<leftarrow> hash_loop n r (MAX_HASH n r + 1); Some (map of_nat [unat x..<unat (MAX_HASH n r + 1)] @ hs) }"
    by (rule hash_loop_segment) (use assms u in \<open>simp_all add: word_less_nat_alt word_le_nat_alt\<close>)
  moreover have "hash_loop n r (MAX_HASH n r + 1) = Some []"
    by (rule hash_loop_end) (simp add: u word_le_nat_alt)
  ultimately show ?thesis by (simp add: u)
qed

lemma hash_bounds:
  assumes "hashed n r"
  shows "unat (first_hash r) + length (hb_map r) < 2 ^ 32" "1 \<le> length (hb_map r)" "unat (first_hash r) < unat n" "unat n < 2 ^ 32"
  using assms unsigned_less [of n] by (auto simp: hashed_def word_less_nat_alt Suc_le_eq)

text \<open>The three shapes of the set of buckets: no wrap-around, wrap-around with a gap, the whole table.\<close>

lemma shape_interval:
  assumes h: "hashed n r" and le: "unat (first_hash r) + length (hb_map r) \<le> unat n"
  shows "MIN_HASH n r = first_hash r" "unat (MAX_HASH n r) + 1 = unat (first_hash r) + length (hb_map r)" "\<not> HAS_GAP n r"
proof -
  note mc = hash_macros [OF h] and b = hash_bounds [OF h]
  show m: "MIN_HASH n r = first_hash r" "unat (MAX_HASH n r) + 1 = unat (first_hash r) + length (hb_map r)"
    using mc le b by (simp_all add: MIN_HASH_def MAX_HASH_def)
  then have "first_hash r \<le> MAX_HASH n r" using b by (simp add: word_le_nat_alt)
  then have "unat (MAX_HASH n r - first_hash r) = length (hb_map r) - 1" using m b by (simp add: unat_sub)
  then have "unat (MAX_HASH n r - first_hash r + 1) = length (hb_map r)" using b by (subst unat_add_one) simp_all
  then show "\<not> HAS_GAP n r" using m mc(3) le by (simp add: HAS_GAP_def word_less_nat_alt)
qed

lemma shape_wrapped:
  assumes h: "hashed n r" and le: "unat n < unat (first_hash r) + length (hb_map r)"
  shows "MIN_HASH n r = 0" "unat (MAX_HASH n r) + 1 = unat n" "HAS_GAP n r \<longleftrightarrow> length (hb_map r) < unat n"
    "length (hb_map r) < unat n \<Longrightarrow> unat (GAP_VAL n r) = unat n - length (hb_map r)"
    "length (hb_map r) < unat n \<Longrightarrow> unat (GAP_START r) + 1 = unat (first_hash r) + length (hb_map r) - unat n"
proof -
  note mc = hash_macros [OF h] and b = hash_bounds [OF h]
  have nm: "\<not> IS_MONOTONIC n r" using mc le by simp
  show m: "MIN_HASH n r = 0" using nm by (simp add: MIN_HASH_def)
  show mx: "unat (MAX_HASH n r) + 1 = unat n" using MAX_HASH_pos [OF h nm] b by simp
  have d: "unat (MAX_HASH n r - 0 + 1) = unat n" using mx b by (subst unat_add_one) simp_all
  show "HAS_GAP n r \<longleftrightarrow> length (hb_map r) < unat n" using m mc(3) d by (auto simp: HAS_GAP_def word_less_nat_alt)
  show "length (hb_map r) < unat n \<Longrightarrow> unat (GAP_VAL n r) = unat n - length (hb_map r)"
    using m mc(3) d by (simp add: GAP_VAL_def unat_sub_if')
  show "length (hb_map r) < unat n \<Longrightarrow> unat (GAP_START r) + 1 = unat (first_hash r) + length (hb_map r) - unat n"
    using mc(2) b le by (simp add: le_mod_geq)
qed

lemma for_each_req_hash_list:
  assumes h: "hashed n r"
  defines "a \<equiv> unat (first_hash r)" and "k \<equiv> length (hb_map r)" and "N \<equiv> unat n"
  shows "for_each_req_hash_asc n r = Some (map of_nat
    (if a + k \<le> N then [a..<a + k] else if k < N then [0..<a + k - N] @ [a..<N] else [0..<N]))"
proof -
  note b = hash_bounds [OF h, folded a_def k_def N_def]
  show ?thesis
  proof (cases "a + k \<le> N")
    case True
    note m = shape_interval [OF h True [unfolded a_def k_def N_def], folded a_def k_def]
    have "hash_loop n r (first_hash r) = Some (map of_nat [unat (first_hash r)..<unat (MAX_HASH n r) + 1])"
      using b m by (intro hash_loop_upto) (simp_all add: HASH_NEXT_def word_le_nat_alt a_def)
    with m b True show ?thesis by (simp add: for_each_req_hash_asc_def a_def)
  next
    case False
    note m = shape_wrapped [OF h, folded a_def k_def N_def, OF False [unfolded not_le]]
    have upto: "hash_loop n r x = Some (map of_nat [unat x..<N])"
      if "\<And>h. x \<le> h \<Longrightarrow> HAS_GAP n r \<Longrightarrow> h \<noteq> GAP_START r" "unat x < N" for x
    proof -
      have "x \<le> MAX_HASH n r + 1" using m(2) b that(2) by (simp add: word_le_nat_alt)
      moreover have "HASH_NEXT n r h = h + 1" if "x \<le> h" for h
        using that \<open>\<And>h. x \<le> h \<Longrightarrow> HAS_GAP n r \<Longrightarrow> h \<noteq> GAP_START r\<close> unfolding HASH_NEXT_def by auto
      ultimately show ?thesis using hash_loop_upto [of x n r] b(4) unfolding m(2) by blast
    qed
    show ?thesis
    proof (cases "k < N")
      case F: False
      with m have "hash_loop n r 0 = Some (map of_nat [unat (0::u32)..<N])" using b by (intro upto) simp_all
      with m F False show ?thesis by (simp add: for_each_req_hash_asc_def)
    next
      case True
      note g = m(4,5) [OF True]
      have one: "unat (GAP_START r + 1) = a + k - N" using g(2) b by (subst unat_add_one) simp_all
      have "unat (GAP_START r + 1 + GAP_VAL n r) = a"
        using one g True False b by (subst unat_add_lem [THEN iffD1]) simp_all
      then have nxt: "HASH_NEXT n r (GAP_START r) = first_hash r"
        using m(3) True by (simp add: HASH_NEXT_def a_def word_unat_eq_iff)
      have le: "GAP_START r \<le> MAX_HASH n r" using g m(2) True b by (simp add: word_le_nat_alt)
      have "hash_loop n r 0 = do { hs \<leftarrow> hash_loop n r (GAP_START r); Some (map of_nat [unat (0 :: u32)..<unat (GAP_START r)] @ hs) }"
        using le by (intro hash_loop_segment) (auto simp: HASH_NEXT_def)
      moreover have "hash_loop n r (GAP_START r) = do { hs \<leftarrow> hash_loop n r (first_hash r); Some (GAP_START r # hs) }"
        using nxt le by (subst hash_loop.simps) simp
      moreover have "hash_loop n r (first_hash r) = Some (map of_nat [unat (first_hash r)..<N])"
        using g True False b by (intro upto) (auto simp: word_le_nat_alt a_def)
      moreover have "[0..<a + k - N] = [0..<unat (GAP_START r)] @ [unat (GAP_START r)]" by (simp flip: g(2))
      ultimately show ?thesis using m True False by (simp add: for_each_req_hash_asc_def a_def)
    qed
  qed
qed

lemma hash_in_range_iff:
  assumes h: "hashed n r" and "hash_table_entries md = n"
  shows "ocf_req_hash_in_range md n r core cline \<longleftrightarrow> unat (ocf_metadata_hash_func md cline core) \<in> bucket_set n r"
proof -
  define x where "x = ocf_metadata_hash_func md cline core"
  have x: "unat x < unat n"
    using hash_func_less [of md cline core] assms by (simp add: hashed_def x_def word_less_nat_alt)
  note b = hash_bounds [OF h]
  show ?thesis
  proof (cases "unat (first_hash r) + length (hb_map r) \<le> unat n")
    case True
    note m = shape_interval [OF h True]
    show ?thesis unfolding ocf_req_hash_in_range_def bucket_set_eq [OF h] Let_def x_def [symmetric]
      using True m b by (auto simp: word_le_nat_alt)
  next
    case False
    note m = shape_wrapped [OF h False [unfolded not_le]]
    have gap: "unat (GAP_START r + GAP_VAL n r) + 1 = unat (first_hash r)" if k: "length (hb_map r) < unat n"
      using m(4,5) [OF k] b False k by (subst unat_add_lem [THEN iffD1]) simp_all
    show ?thesis
    proof (cases "length (hb_map r) < unat n")
      case True
      with m False x gap [OF True] m(4,5) [OF True] show ?thesis
        unfolding ocf_req_hash_in_range_def bucket_set_eq [OF h] Let_def x_def [symmetric]
        by (auto simp: word_le_nat_alt word_less_nat_alt)
    next
      case F: False
      with m False x show ?thesis
        unfolding ocf_req_hash_in_range_def bucket_set_eq [OF h] Let_def x_def [symmetric]
        by (auto simp: word_le_nat_alt)
    qed
  qed
qed

lemma sorted_map_of_nat:
  assumes "sorted_wrt (<) xs" "\<forall>x \<in> set xs. x < 2 ^ 32"
  shows "sorted_wrt (<) (map of_nat xs :: u32 list)"
  using assms
  by (induction xs) (auto simp: word_less_nat_alt unsigned_of_nat take_bit_nat_eq_self)

lemma req_hashes:
  assumes "hashed n r"
  shows "\<exists>hs. for_each_req_hash_asc n r = Some hs \<and> sorted_wrt (<) hs \<and> unat ` set hs = bucket_set n r"
proof -
  let ?a = "unat (first_hash r)" and ?k = "length (hb_map r)" and ?N = "unat n"
  let ?ns = "if ?a + ?k \<le> ?N then [?a..<?a + ?k] else if ?k < ?N then [0..<?a + ?k - ?N] @ [?a..<?N] else [0..<?N]"
  note b = hash_bounds [OF assms]
  have small: "\<forall>x \<in> set ?ns. x < 2 ^ 32" using b by auto
  have set: "set ?ns = bucket_set n r" unfolding bucket_set_eq [OF assms] using b by auto
  have "sorted_wrt (<) ?ns" using b by (auto simp: sorted_wrt_append)
  from sorted_map_of_nat [OF this small] have "sorted_wrt (<) (map of_nat ?ns :: u32 list)" .
  moreover have "unat ` set (map of_nat ?ns :: u32 list) = bucket_set n r"
    using small unfolding set [symmetric] set_map image_image
    by (auto simp: unsigned_of_nat take_bit_nat_eq_self image_iff intro!: bexI)
  ultimately show ?thesis using for_each_req_hash_list [OF assms] by blast
qed

lemma req_hashes_sorted: "hashed n r \<Longrightarrow> for_each_req_hash_asc n r = Some hs \<Longrightarrow> sorted_wrt (<) hs"
  using req_hashes by fastforce

text \<open>
  Property C29. The iteration over the hash buckets of a request terminates and visits exactly the
  buckets of the core lines of the request, in strictly ascending order (so each of them once); and
  \<open>ocf_req_hash_in_range\<close> tells exactly whether a core line falls into one of these buckets.
\<close>

theorem req_hash_iteration:
  assumes "hashed n r"
  shows "\<exists>hs. for_each_req_hash_asc n r = Some hs \<and> sorted_wrt (<) hs \<and> unat ` set hs = bucket_set n r \<and>
    (\<forall>md core cline. hash_table_entries md = n \<longrightarrow>
       ocf_req_hash_in_range md n r core cline \<longleftrightarrow> ocf_metadata_hash_func md cline core \<in> set hs)"
proof -
  from req_hashes [OF assms] obtain hs where hs: "for_each_req_hash_asc n r = Some hs" "sorted_wrt (<) hs"
    and img: "unat ` set hs = bucket_set n r" by blast
  have "ocf_req_hash_in_range md n r core cline \<longleftrightarrow> ocf_metadata_hash_func md cline core \<in> set hs"
    if "hash_table_entries md = n" for md :: "'b ocf_metadata" and core cline
    unfolding hash_in_range_iff [OF assms that] img [symmetric] by (rule inj_image_mem_iff) (simp add: inj_def word_unat_eq_iff)
  with hs img show ?thesis by blast
qed

text \<open>\<open>ocf_req_hash\<close> establishes the assumption of the iteration.\<close>

lemma ocf_req_hash_hashed:
  assumes "0 < hash_table_entries md" "hb_map r \<noteq> []"
    "unat (hash_table_entries md) + length (hb_map r) < 2 ^ 32" "unat (hb_line_first r) + 2 ^ 33 \<le> 2 ^ 64"
  shows "hashed (hash_table_entries md) (ocf_req_hash md r)"
proof -
  let ?h = "\<lambda>i. ocf_metadata_hash_func md (hb_line_first r + of_nat i) (hb_core_id r)"
  have shift: "unat (?h i) = (unat (?h 0) + i) mod unat (hash_table_entries md)" if "i < length (hb_map r)" for i
    using hash_func_shift [OF assms(1), of "hb_line_first r" i "hb_core_id r"] assms(3,4) that by simp
  have first: "first_hash (ocf_req_hash md r) = ?h 0" using assms(2) by (simp add: first_hash_def ocf_req_hash_def)
  have lt: "?h 0 < hash_table_entries md" by (rule hash_func_less [OF assms(1)])
  show ?thesis unfolding hashed_def first
    using assms lt shift by (simp add: ocf_req_hash_def word_less_nat_alt)
qed

definition sample_req :: hb_req where
  "sample_req = ocf_req_hash striped_sample \<lparr>hb_map = replicate 4 \<lparr>map_hash = 0, coll_idx = 0, map_core_line = 0,
     map_core_id = 0, status = LOOKUP_MISS, invalid = False, re_part = False\<rparr>, hb_line_first = 94, hb_core_id = 0, lock_idx = 1\<rparr>"

lemma sample_req_hashed: "hashed 96 sample_req"
  using ocf_req_hash_hashed [of striped_sample] unfolding sample_req_def by (simp add: striped_sample_def)

text \<open>Four lines whose buckets wrap around: 94, 95, 0, 1.\<close>

theorem req_hash_iteration_witness:
  "\<exists>hs. for_each_req_hash_asc 96 sample_req = Some hs \<and> sorted_wrt (<) hs \<and> unat ` set hs = {94, 95, 0, 1} \<and>
    (\<forall>core cline. ocf_req_hash_in_range striped_sample 96 sample_req core cline \<longleftrightarrow>
       ocf_metadata_hash_func striped_sample cline core \<in> set hs)"
proof -
  have "map (unat \<circ> map_hash) (hb_map sample_req) = [94, 95, 0, 1]" by code_simp
  moreover have "bucket_set 96 sample_req = set (map (unat \<circ> map_hash) (hb_map sample_req))"
    by (simp add: bucket_set_def)
  ultimately have b: "bucket_set 96 sample_req = {94, 95, 0, 1}" by simp
  obtain hs where "for_each_req_hash_asc 96 sample_req = Some hs" "sorted_wrt (<) hs" "unat ` set hs = bucket_set 96 sample_req"
    "\<forall>md :: 64 word ocf_metadata. \<forall>core cline. hash_table_entries md = 96 \<longrightarrow>
       ocf_req_hash_in_range md 96 sample_req core cline \<longleftrightarrow> ocf_metadata_hash_func md cline core \<in> set hs"
    using req_hash_iteration [OF sample_req_hashed] by blast
  moreover have "hash_table_entries striped_sample = 96" by (simp add: striped_sample_def)
  ultimately show ?thesis unfolding b by blast
qed


section \<open>No deadlock\<close>

text \<open>The order in which locks are taken: global locks, then hash buckets, then pages of the collision table.\<close>

instantiation lock_id :: linorder
begin

fun lock_kind :: "lock_id \<Rightarrow> nat" where
  "lock_kind (Global i) = 0"
| "lock_kind (Hash h) = 1"
| "lock_kind (Collision_page p) = 2"

fun lock_no :: "lock_id \<Rightarrow> nat" where
  "lock_no (Global i) = i"
| "lock_no (Hash h) = unat h"
| "lock_no (Collision_page p) = unat p"

definition less_eq_lock_id :: "lock_id \<Rightarrow> lock_id \<Rightarrow> bool" where
  "less_eq_lock_id x y \<longleftrightarrow> lock_kind x < lock_kind y \<or> lock_kind x = lock_kind y \<and> lock_no x \<le> lock_no y"

definition less_lock_id :: "lock_id \<Rightarrow> lock_id \<Rightarrow> bool" where
  "less_lock_id x y \<longleftrightarrow> lock_kind x < lock_kind y \<or> lock_kind x = lock_kind y \<and> lock_no x < lock_no y"

instance
proof
  fix x y z :: lock_id
  show "x < y \<longleftrightarrow> x \<le> y \<and> \<not> y \<le> x" "x \<le> x" "x \<le> y \<or> y \<le> x"
    by (auto simp: less_eq_lock_id_def less_lock_id_def)
  show "x \<le> y \<Longrightarrow> y \<le> z \<Longrightarrow> x \<le> z" by (auto simp: less_eq_lock_id_def)
  show "x \<le> y \<Longrightarrow> y \<le> x \<Longrightarrow> x = y"
    by (cases x; cases y) (auto simp: less_eq_lock_id_def word_unat_eq_iff)
qed

end

text \<open>
  A thread has a list of locks it still has to take, and the list of the locks it holds. The programs
  are the sequences of the lock routines: exclusive access, one protected bucket, a request, and the
  upgrade of a request, which starts when all its buckets have been released and only the global lock
  is held.
\<close>

type_synonym lock_prog = "(lock_id \<times> rw) list"
type_synonym lock_threads = "nat \<Rightarrow> lock_prog \<times> lock_prog"

definition bucket_prog :: "rw \<Rightarrow> u32 list \<Rightarrow> lock_prog" where
  "bucket_prog m hs = map (\<lambda>h. (Hash h, m)) hs"

inductive lock_program :: "u32 \<Rightarrow> lock_prog \<Rightarrow> lock_prog \<Rightarrow> bool" for n where
  exclusive: "lock_program n [] (map (\<lambda>i. (Global i, OCF_WRITE)) [0..<OCF_NUM_GLOBAL_META_LOCKS])"
| bucket: "h < n \<Longrightarrow> lock_program n [] ((Global g, OCF_READ) # bucket_prog m [h])"
| request: "hashed n r \<Longrightarrow> for_each_req_hash_asc n r = Some hs \<Longrightarrow>
    lock_program n [] ((Global (lock_idx r), OCF_READ) # bucket_prog m hs)"
| upgrade: "hashed n r \<Longrightarrow> for_each_req_hash_asc n r = Some hs \<Longrightarrow>
    lock_program n [(Global (lock_idx r), OCF_READ)] (bucket_prog OCF_WRITE hs)"

inductive lock_step :: "ocf_metadata_lock \<times> lock_threads \<Rightarrow> ocf_metadata_lock \<times> lock_threads \<Rightarrow> bool" where
  acquire: "T t = ((i, m) # todo, held) \<Longrightarrow> down m i ml = Some ml' \<Longrightarrow>
    lock_step (ml, T) (ml', T(t := (todo, (i, m) # held)))"
| release: "T t = ([], held) \<Longrightarrow> (i, m) \<in> set held \<Longrightarrow> up m i ml = Some ml' \<Longrightarrow>
    lock_step (ml, T) (ml', T(t := ([], removeAll (i, m) held)))"

inductive lock_reach :: "ocf_metadata_lock \<times> lock_threads \<Rightarrow> bool" where
  start: "\<forall>i. sem ml i = Readers 0 \<Longrightarrow> lock_reach (ml, \<lambda>_. ([], []))"
| enter: "lock_reach (ml, T) \<Longrightarrow> T t = ([], held) \<Longrightarrow> lock_program (num_hash_entries ml) held p \<Longrightarrow>
    lock_reach (ml, T(t := (p, held)))"
| step: "lock_reach s \<Longrightarrow> lock_step s s' \<Longrightarrow> lock_reach s'"

text \<open>The invariant: locks are taken in ascending order, and the semaphores agree with what is held.\<close>

definition ascending :: "lock_prog \<times> lock_prog \<Rightarrow> bool" where
  "ascending th \<longleftrightarrow> sorted_wrt (<) (map fst (fst th)) \<and> distinct (map fst (snd th)) \<and>
     (\<forall>x \<in> set (snd th). \<forall>y \<in> set (fst th). fst x < fst y)"

definition holders :: "lock_threads \<Rightarrow> lock_id \<Rightarrow> rw \<Rightarrow> nat set" where
  "holders T i m = {t. (i, m) \<in> set (snd (T t))}"

definition sem_ok :: "env_rwsem \<Rightarrow> nat set \<Rightarrow> nat set \<Rightarrow> bool" where
  "sem_ok s R W = (case s of Readers k \<Rightarrow> finite R \<and> card R = k \<and> W = {} | Writer \<Rightarrow> R = {} \<and> is_singleton W)"

definition lock_inv :: "ocf_metadata_lock \<times> lock_threads \<Rightarrow> bool" where
  "lock_inv s = (case s of (ml, T) \<Rightarrow> finite {t. T t \<noteq> ([], [])} \<and> (\<forall>t. ascending (T t)) \<and>
     (\<forall>i. sem_ok (sem ml i) (holders T i OCF_READ) (holders T i OCF_WRITE)))"

lemma bucket_prog_sorted: "sorted_wrt (<) hs \<Longrightarrow> sorted_wrt (<) (map fst (bucket_prog m hs))"
  by (induction hs) (auto simp: bucket_prog_def less_lock_id_def word_less_nat_alt)

lemma lock_program_ascending: "lock_program n held p \<Longrightarrow> ascending (p, held)"
proof (induction rule: lock_program.induct)
  case exclusive
  have "sorted_wrt (<) (map (\<lambda>i. Global i) [0..<k])" for k
    by (induction k) (auto simp: sorted_wrt_append less_lock_id_def)
  then show ?case by (simp add: ascending_def comp_def)
next
  case (bucket h g m)
  then show ?case by (simp add: ascending_def bucket_prog_def less_lock_id_def)
next
  case (request r hs m)
  from bucket_prog_sorted [OF req_hashes_sorted [OF request], of m] show ?case
    by (auto simp: ascending_def bucket_prog_def less_lock_id_def)
next
  case (upgrade r hs)
  from bucket_prog_sorted [OF req_hashes_sorted [OF upgrade], of OCF_WRITE] show ?case
    by (auto simp: ascending_def bucket_prog_def less_lock_id_def)
qed

lemma sem_ok_down:
  assumes "sem_ok s R W" "finite R" "t \<notin> R \<union> W"
  shows "env_rwsem_down_read s = Some s' \<Longrightarrow> sem_ok s' (insert t R) W"
    "env_rwsem_down_write s = Some s' \<Longrightarrow> sem_ok s' R (insert t W)"
  using assms by (auto simp: sem_ok_def elim!: env_rwsem_down_read.elims env_rwsem_down_write.elims split: env_rwsem.splits)

lemma sem_ok_up:
  assumes "sem_ok s R W" "finite R"
  shows "t \<in> R \<Longrightarrow> \<exists>s'. env_rwsem_up_read s = Some s' \<and> sem_ok s' (R - {t}) W"
    "t \<in> W \<Longrightarrow> \<exists>s'. env_rwsem_up_write s = Some s' \<and> sem_ok s' R (W - {t})"
proof -
  assume t: "t \<in> R"
  with assms obtain k where s: "s = Readers k" "card R = k" "W = {}" by (auto simp: sem_ok_def split: env_rwsem.splits)
  with t assms(2) obtain j where "k = Suc j" by (cases k) auto
  with s t assms(2) show "\<exists>s'. env_rwsem_up_read s = Some s' \<and> sem_ok s' (R - {t}) W" by (simp add: sem_ok_def)
next
  assume "t \<in> W"
  with assms have "s = Writer" "R = {}" "W = {t}" by (auto simp: sem_ok_def is_singleton_def split: env_rwsem.splits)
  then show "\<exists>s'. env_rwsem_up_write s = Some s' \<and> sem_ok s' R (W - {t})" by (simp add: sem_ok_def)
qed

lemma sem_ok_blocked: "sem_ok s R W \<Longrightarrow> env_rwsem_down_read s = None \<or> env_rwsem_down_write s = None \<Longrightarrow> R \<union> W \<noteq> {}"
  by (auto simp: sem_ok_def is_singleton_def split: env_rwsem.splits elim!: env_rwsem_down_read.elims env_rwsem_down_write.elims)


lemma holders_upd:
  "holders (T(t := th)) i m = (if (i, m) \<in> set (snd th) then insert t (holders T i m) else holders T i m - {t})"
  by (auto simp: holders_def)

lemma lock_invD:
  assumes "lock_inv (ml, T)"
  shows "finite {t. T t \<noteq> ([], [])}" "ascending (T t)" "finite (holders T i m)"
    "sem_ok (sem ml i) (holders T i OCF_READ) (holders T i OCF_WRITE)"
proof -
  show f: "finite {t. T t \<noteq> ([], [])}" and "ascending (T t)"
    and "sem_ok (sem ml i) (holders T i OCF_READ) (holders T i OCF_WRITE)"
    using assms by (simp_all add: lock_inv_def)
  show "finite (holders T i m)" by (rule finite_subset [OF _ f]) (auto simp: holders_def)
qed

lemma ascending_held_once: "ascending th \<Longrightarrow> (i, m) \<in> set (snd th) \<Longrightarrow> (i, m') \<in> set (snd th) \<Longrightarrow> m = m'"
  unfolding ascending_def by (metis eq_key_imp_eq_value)

lemma up_down_Some:
  "down m i ml = Some ml' \<longleftrightarrow> (\<exists>s. (if m = OCF_WRITE then env_rwsem_down_write else env_rwsem_down_read) (sem ml i) = Some s \<and>
     ml' = ml\<lparr>sem := (sem ml)(i := s)\<rparr>)"
  "up m i ml = Some ml' \<longleftrightarrow> (\<exists>s. (if m = OCF_WRITE then env_rwsem_up_write else env_rwsem_up_read) (sem ml i) = Some s \<and>
     ml' = ml\<lparr>sem := (sem ml)(i := s)\<rparr>)"
  by (auto simp: down_def up_def upd_sem_def bind_eq_Some_conv)

lemma finite_threads_upd: "finite {t. T t \<noteq> e} \<Longrightarrow> finite {t. (T(t' := th)) t \<noteq> e}"
  by (rule finite_subset [of _ "insert t' {t. T t \<noteq> e}"]) auto

lemma lock_inv_upd:
  assumes "lock_inv (ml, T)" "ascending th"
    and "\<And>i. sem_ok (sem ml' i) (holders (T(t := th)) i OCF_READ) (holders (T(t := th)) i OCF_WRITE)"
  shows "lock_inv (ml', T(t := th))"
proof -
  have "\<forall>u. ascending ((T(t := th)) u)" using assms(2) lock_invD(2) [OF assms(1)] by simp
  then show ?thesis
    unfolding lock_inv_def prod.case using finite_threads_upd [OF lock_invD(1) [OF assms(1)]] assms(3) by blast
qed

lemma sem_inv_acquire:
  assumes inv: "lock_inv (ml, T)" and t: "T t = ((i, m) # todo, held)" and d: "down m i ml = Some ml'"
  shows "lock_inv (ml', T(t := (todo, (i, m) # held)))"
proof -
  let ?T = "T(t := (todo, (i, m) # held))"
  note D = lock_invD [OF inv]
  have asc: "ascending ((i, m) # todo, held)" using D(2) [of t] t by simp
  then have nh: "(i, m') \<notin> set held" for m' by (force simp: ascending_def)
  then have tn: "t \<notin> holders T i OCF_READ \<union> holders T i OCF_WRITE" using t by (simp add: holders_def)
  have same: "holders ?T j m' = (if (j, m') = (i, m) then insert t (holders T i m) else holders T j m')" for j m'
    using t by (auto simp: holders_def)
  obtain s where s: "(if m = OCF_WRITE then env_rwsem_down_write else env_rwsem_down_read) (sem ml i) = Some s"
    "ml' = ml\<lparr>sem := (sem ml)(i := s)\<rparr>"
    using d unfolding up_down_Some by blast
  have "sem_ok s (holders ?T i OCF_READ) (holders ?T i OCF_WRITE)"
    using sem_ok_down [OF D(4) [of i] D(3) [of i OCF_READ] tn, of s] s(1) unfolding same by (cases m) simp_all
  then have "sem_ok (sem ml' j) (holders ?T j OCF_READ) (holders ?T j OCF_WRITE)" for j
    using D(4) [of j] s(2) by (cases "j = i") (simp_all add: same)
  moreover have "ascending (todo, (i, m) # held)"
    using asc nh by (force simp: ascending_def)
  ultimately show ?thesis using lock_inv_upd [OF inv] by blast
qed

lemma sem_inv_release:
  assumes inv: "lock_inv (ml, T)" and t: "T t = ([], held)" "(i, m) \<in> set held" and u: "up m i ml = Some ml'"
  shows "lock_inv (ml', T(t := ([], removeAll (i, m) held)))"
proof -
  let ?T = "T(t := ([], removeAll (i, m) held))"
  note D = lock_invD [OF inv]
  have same: "holders ?T j m' = (if (j, m') = (i, m) then holders T i m - {t} else holders T j m')" for j m'
    using t by (auto simp: holders_def)
  have th: "t \<in> holders T i m" using t by (simp add: holders_def)
  obtain s where s: "(if m = OCF_WRITE then env_rwsem_up_write else env_rwsem_up_read) (sem ml i) = Some s"
    "ml' = ml\<lparr>sem := (sem ml)(i := s)\<rparr>"
    using u unfolding up_down_Some by blast
  have "sem_ok s (holders ?T i OCF_READ) (holders ?T i OCF_WRITE)"
    using sem_ok_up [OF D(4) [of i] D(3) [of i OCF_READ], of t] s(1) th unfolding same by (cases m) auto
  then have "sem_ok (sem ml' j) (holders ?T j OCF_READ) (holders ?T j OCF_WRITE)" for j
    using D(4) [of j] s(2) by (cases "j = i") (simp_all add: same)
  moreover have "ascending ([], removeAll (i, m) held)"
    using D(2) [of t] t by (auto simp: ascending_def removeAll_filter_not_eq distinct_map_filter)
  ultimately show ?thesis using lock_inv_upd [OF inv] by blast
qed

lemma lock_reach_inv: "lock_reach s \<Longrightarrow> lock_inv s"
proof (induction rule: lock_reach.induct)
  case (start ml)
  then show ?case by (simp add: lock_inv_def sem_ok_def holders_def ascending_def)
next
  case (enter ml T t held p)
  have "holders (T(t := (p, held))) i m = holders T i m" for i m using enter by (auto simp: holders_def)
  then show ?case
    using lock_invD(4) [OF enter.IH] by (intro lock_inv_upd [OF enter.IH lock_program_ascending [OF enter(3)]]) simp
next
  case (step s s')
  from step.hyps(2) step.IH show ?case
    by (cases rule: lock_step.cases) (auto intro: sem_inv_acquire sem_inv_release)
qed

lemma lock_inv_not_stuck:
  assumes inv: "lock_inv (ml, T)" and t: "T t \<noteq> ([], [])"
  shows "\<exists>s'. lock_step (ml, T) s'"
proof (cases "\<exists>t i m held. T t = ([], held) \<and> (i, m) \<in> set held")
  case True
  then obtain t i m held where th: "T t = ([], held)" "(i, m) \<in> set held" by blast
  note D = lock_invD [OF inv]
  have "t \<in> holders T i m" using th by (simp add: holders_def)
  then obtain s where "(if m = OCF_WRITE then env_rwsem_up_write else env_rwsem_up_read) (sem ml i) = Some s"
    using sem_ok_up [OF D(4) [of i] D(3) [of i OCF_READ], of t] by (cases m) auto
  then have "up m i ml = Some (ml\<lparr>sem := (sem ml)(i := s)\<rparr>)" unfolding up_down_Some by blast
  from release [of T, OF th this] show ?thesis by blast
next
  case False
  let ?A = "{t. T t \<noteq> ([], [])}"
  note D = lock_invD [OF inv]
  have todo: "fst (T u) \<noteq> []" if "u \<in> ?A" for u
  proof
    assume "fst (T u) = []"
    with that obtain i m hs where "T u = ([], (i, m) # hs)" by (cases "T u"; cases "snd (T u)") auto
    with False show False by (metis list.set_intros(1))
  qed
  let ?next = "\<lambda>t. fst (hd (fst (T t)))"
  have fin: "finite (?next ` ?A)" "?next ` ?A \<noteq> {}" using D(1) t by auto
  obtain u where u: "u \<in> ?A" "?next u = Max (?next ` ?A)" using Max_in [OF fin] by force
  then obtain i m td held where Tu: "T u = ((i, m) # td, held)"
    using todo [OF u(1)] by (cases "T u"; cases "fst (T u)") auto
  show ?thesis
  proof (cases "down m i ml")
    case (Some ml')
    from acquire [of T, OF Tu this] show ?thesis by blast
  next
    case None
    then have "holders T i OCF_READ \<union> holders T i OCF_WRITE \<noteq> {}"
      using sem_ok_blocked [OF D(4) [of i]] by (cases m) (simp_all add: down_def upd_sem_def bind_eq_None_conv)
    then obtain v m' where v: "(i, m') \<in> set (snd (T v))" unfolding holders_def by blast
    then have "v \<in> ?A" by auto
    from todo [OF this] have "hd (fst (T v)) \<in> set (fst (T v))" by simp
    with v D(2) [of v] have "i < ?next v" unfolding ascending_def by force
    moreover have "?next v \<le> ?next u" unfolding u(2) using fin \<open>v \<in> ?A\<close> by (intro Max_ge) auto
    moreover have "?next u = i" using Tu by simp
    ultimately show ?thesis by simp
  qed
qed

text \<open>The work left: every lock to be taken has to be released, too.\<close>

definition lock_work :: "lock_threads \<Rightarrow> nat" where
  "lock_work T = (\<Sum>t | T t \<noteq> ([], []). 2 * length (fst (T t)) + length (snd (T t)))"

lemma lock_work_upd:
  assumes "finite {t. T t \<noteq> ([], [])}" "T t \<noteq> ([], [])"
    and "2 * length (fst th) + length (snd th) < 2 * length (fst (T t)) + length (snd (T t))"
  shows "lock_work (T(t := th)) < lock_work T"
proof -
  let ?w = "\<lambda>th. 2 * length (fst th) + length (snd th)" and ?A = "{t. T t \<noteq> ([], [])}"
  have "lock_work (T(t := th)) = (\<Sum>u \<in> {u. (T(t := th)) u \<noteq> ([], [])}. ?w ((T(t := th)) u))" by (simp only: lock_work_def)
  also have "\<dots> = (\<Sum>u \<in> ?A. ?w ((T(t := th)) u))"
    using assms(1,2) by (intro sum.mono_neutral_left) auto
  also have "\<dots> < (\<Sum>u \<in> ?A. ?w (T u))"
    using assms by (intro sum_strict_mono_ex1) (auto intro!: exI [of _ t])
  finally show ?thesis by (simp only: lock_work_def)
qed

lemma lock_step_work: "lock_inv s \<Longrightarrow> lock_step s s' \<Longrightarrow> lock_work (snd s') < lock_work (snd s)"
proof (erule lock_step.cases)
  fix T t i m todo held ml ml'
  assume *: "lock_inv s" "s = (ml, T)" "s' = (ml', T(t := (todo, (i, m) # held)))" "T t = ((i, m) # todo, held)"
  then show "lock_work (snd s') < lock_work (snd s)" using lock_work_upd [OF lock_invD(1), of ml T t] by simp
next
  fix T t i m held ml ml'
  assume *: "lock_inv s" "s = (ml, T)" "s' = (ml', T(t := ([], removeAll (i, m) held)))" "T t = ([], held)" "(i, m) \<in> set held"
  then have "length (removeAll (i, m) held) < length held" by (simp add: length_removeAll_less)
  moreover from *(5) have "held \<noteq> []" by auto
  ultimately show "lock_work (snd s') < lock_work (snd s)"
    using * lock_work_upd [OF lock_invD(1), of ml T t "([], removeAll (i, m) held)"] by simp
qed

lemma lock_reach_drains:
  assumes "lock_reach s"
  shows "\<exists>ml. lock_step\<^sup>*\<^sup>* s (ml, \<lambda>_. ([], []))"
  using assms
proof (induction "lock_work (snd s)" arbitrary: s rule: less_induct)
  case less
  obtain ml T where s: "s = (ml, T)" by (cases s)
  note inv = lock_reach_inv [OF less.prems]
  show ?case
  proof (cases "\<exists>t. T t \<noteq> ([], [])")
    case True
    then obtain s' where st: "lock_step s s'" using lock_inv_not_stuck inv s by blast
    from less.hyps [OF lock_step_work [OF inv st] lock_reach.step [OF less.prems st]] st show ?thesis
      by (meson converse_rtranclp_into_rtranclp)
  next
    case False
    then have "T = (\<lambda>_. ([], []))" by auto
    with s show ?thesis by blast
  qed
qed



definition free_locks :: ocf_metadata_lock where
  "free_locks = \<lparr>sem = \<lambda>_. Readers 0, num_hash_entries = 96\<rparr>"


section \<open>Locking a request\<close>

lemma for_each_upd_sem:
  assumes "distinct hs" "\<forall>h \<in> set hs. f (sem ml (Hash h)) = Some s"
  shows "for_each (\<lambda>h. upd_sem f (Hash h)) hs ml = Some (ml\<lparr>sem := \<lambda>i. if i \<in> Hash ` set hs then s else sem ml i\<rparr>)"
  using assms
proof (induction hs arbitrary: ml)
  case (Cons h hs)
  let ?ml = "ml\<lparr>sem := (sem ml)(Hash h := s)\<rparr>"
  have "for_each (\<lambda>h. upd_sem f (Hash h)) hs ?ml = Some (?ml\<lparr>sem := \<lambda>i. if i \<in> Hash ` set hs then s else sem ?ml i\<rparr>)"
    using Cons.prems by (intro Cons.IH) auto
  moreover have "upd_sem f (Hash h) ml = Some ?ml" using Cons.prems by (simp add: upd_sem_def)
  moreover have "(\<lambda>i. if i \<in> Hash ` set hs then s else sem ?ml i) = (\<lambda>i. if i \<in> Hash ` set (h # hs) then s else sem ml i)"
    by (auto simp: fun_eq_iff)
  ultimately show ?case by simp
qed simp

lemma for_each_cong:
  "(\<And>x s. x \<in> set xs \<Longrightarrow> P s \<Longrightarrow> f x s = g x s) \<Longrightarrow> (\<And>x s s'. P s \<Longrightarrow> g x s = Some s' \<Longrightarrow> P s') \<Longrightarrow> P s \<Longrightarrow>
    for_each f xs s = for_each g xs s"
proof (induction xs arbitrary: s)
  case (Cons x xs)
  then show ?case by (cases "g x s") auto
qed simp

lemma for_each_naked:
  assumes "\<forall>h \<in> set hs. h < num_hash_entries ml"
  shows "for_each (\<lambda>h. ocf_hb_id_naked_lock h m) hs ml = for_each (\<lambda>h. down m (Hash h)) hs ml"
    "for_each (\<lambda>h. ocf_hb_id_naked_unlock h m) hs ml = for_each (\<lambda>h. up m (Hash h)) hs ml"
  using assms unfolding linorder_not_le [symmetric]
  by (auto intro!: for_each_cong [where P = "\<lambda>s. num_hash_entries s = num_hash_entries ml"]
      simp: ocf_hb_id_naked_lock_def ocf_hb_id_naked_unlock_def up_down_Some bug_on_bind)

lemma bucket_set_less: "hashed n r \<Longrightarrow> x \<in> bucket_set n r \<Longrightarrow> x < unat n"
  by (auto simp: bucket_set_def in_set_conv_nth hashed_map_hash) (simp add: hashed_def word_less_nat_alt)

definition taken :: "rw \<Rightarrow> env_rwsem" where
  "taken m = (if m = OCF_WRITE then Writer else Readers 1)"

text \<open>The semaphores while a request holds its locks in mode \<open>m\<close>, and nobody else holds any.\<close>

definition req_locked :: "rw \<Rightarrow> hb_req \<Rightarrow> ocf_metadata_lock \<Rightarrow> ocf_metadata_lock" where
  "req_locked m r ml = ml\<lparr>sem := \<lambda>i. case i of
     Hash h \<Rightarrow> if unat h \<in> bucket_set (num_hash_entries ml) r then taken m else sem ml i
   | Global g \<Rightarrow> if g = lock_idx r then Readers 1 else sem ml i
   | _ \<Rightarrow> sem ml i\<rparr>"

text \<open>
  On free locks, \<open>ocf_hb_req_prot_lock_rd\<close> and \<open>_wr\<close> do not block and take exactly the
  buckets of the request and one global lock; the upgrade turns the read locks into the write locks;
  and unlocking restores the state before.
\<close>

theorem hb_req_lock_roundtrip:
  assumes "hashed (num_hash_entries ml) r" "\<forall>i. sem ml i = Readers 0"
  shows "ocf_hb_req_prot_lock m r ml = Some (req_locked m r ml) \<and>
    ocf_hb_req_prot_lock_upgrade r (req_locked OCF_READ r ml) = Some (req_locked OCF_WRITE r ml) \<and>
    ocf_hb_req_prot_unlock m r (req_locked m r ml) = Some ml"
proof -
  obtain hs where hs: "for_each_req_hash_asc (num_hash_entries ml) r = Some hs" "sorted_wrt (<) hs"
    "unat ` set hs = bucket_set (num_hash_entries ml) r" using req_hashes [OF assms(1)] by blast
  have d: "distinct hs" using hs(2) by (simp add: strict_sorted_iff)
  have mem: "i \<in> Hash ` set hs \<longleftrightarrow> (\<exists>h. i = Hash h \<and> unat h \<in> bucket_set (num_hash_entries ml) r)" for i
    unfolding hs(3) [symmetric] by (auto simp: word_unat_eq_iff [symmetric])
  have lt: "\<forall>h \<in> set hs. h < num_hash_entries ml"
    using hs(3) bucket_set_less [OF assms(1)] by (auto simp: word_less_nat_alt)
  let ?st = "\<lambda>s i. if i \<in> Hash ` set hs then s else ((sem ml)(Global (lock_idx r) := Readers 1)) i"
  have loc: "req_locked m r ml = ml\<lparr>sem := ?st (taken m)\<rparr>" for m
    unfolding req_locked_def mem
    by (rule arg_cong [where f = "\<lambda>f. ml\<lparr>sem := f\<rparr>"]) (auto simp: fun_eq_iff split: lock_id.splits)
  have op: "for_each (\<lambda>h. upd_sem f (Hash h)) hs (ml\<lparr>sem := ?st s1\<rparr>) = Some (ml\<lparr>sem := ?st s2\<rparr>)"
    if "f s1 = Some s2" for f s1 s2
    using for_each_upd_sem [OF d, of f "ml\<lparr>sem := ?st s1\<rparr>" s2] that by (simp cong: if_cong)
  have run: "for_each (\<lambda>h. down m (Hash h)) hs (ml\<lparr>sem := ?st (Readers 0)\<rparr>) = Some (ml\<lparr>sem := ?st (taken m)\<rparr>)"
    "for_each (\<lambda>h. up m (Hash h)) hs (ml\<lparr>sem := ?st (taken m)\<rparr>) = Some (ml\<lparr>sem := ?st (Readers 0)\<rparr>)" for m
    unfolding down_def up_def by (rule op; cases m; simp add: taken_def)+
  have st0: "?st (Readers 0) = (sem ml)(Global (lock_idx r) := Readers 1)" using assms(2) by (auto simp: fun_eq_iff)
  have sh: "ocf_metadata_start_shared_access (lock_idx r) ml = Some (ml\<lparr>sem := ?st (Readers 0)\<rparr>)"
    using assms(2) unfolding st0 by (simp add: ocf_metadata_start_shared_access_def down_def upd_sem_def)
  have fin: "(sem ml)(Global (lock_idx r) := Readers 0) = sem ml" using assms(2) by (auto simp: fun_eq_iff)
  have un: "ocf_metadata_end_shared_access (lock_idx r) (ml\<lparr>sem := ?st (Readers 0)\<rparr>) = Some ml"
    unfolding st0 by (simp add: ocf_metadata_end_shared_access_def up_def upd_sem_def fin)
  note naked = for_each_naked [of hs "ml\<lparr>sem := f\<rparr>" for f, simplified, OF lt]
  show ?thesis
    unfolding loc ocf_hb_req_prot_lock_def ocf_hb_req_prot_lock_upgrade_def ocf_hb_req_prot_unlock_def
    by (simp add: sh un run hs(1) naked)
qed

definition sample_locked :: "rw \<Rightarrow> ocf_metadata_lock" where
  "sample_locked m = req_locked m sample_req free_locks"

theorem hb_req_lock_roundtrip_witness:
  "ocf_hb_req_prot_lock OCF_READ sample_req free_locks = Some (sample_locked OCF_READ) \<and>
   ocf_hb_req_prot_lock_upgrade sample_req (sample_locked OCF_READ) = Some (sample_locked OCF_WRITE) \<and>
   ocf_hb_req_prot_unlock OCF_WRITE sample_req (sample_locked OCF_WRITE) = Some free_locks"
proof -
  have "hashed (num_hash_entries free_locks) sample_req" "\<forall>i. sem free_locks i = Readers 0"
    using sample_req_hashed by (simp_all add: free_locks_def)
  from hb_req_lock_roundtrip [OF this, of OCF_READ] hb_req_lock_roundtrip [OF this, of OCF_WRITE]
  show ?thesis by (simp add: sample_locked_def)
qed


section \<open>Creating and destroying the locks\<close>

text \<open>
  The objects the initialisation creates; \<open>held\<close> are those that exist. \<open>ok\<close> says which creations succeed
  (creating a read-write lock of a list has no result).
\<close>

datatype lock_obj = Lru_lock nat | Global_sem nat | Part_spinlock nat | Hash_mem | Coll_mem | Hash_sem nat | Coll_sem nat

text \<open>A loop that creates \<open>f i\<close>, \<open>f (i + 1)\<close>, and so on, and stops at the first error; and \<open>while (k--) destroy (f k)\<close>.\<close>

fun init_loop :: "(nat \<Rightarrow> lock_obj) \<Rightarrow> (lock_obj \<Rightarrow> bool) \<Rightarrow> nat \<Rightarrow> nat \<Rightarrow> lock_obj list \<Rightarrow> nat \<times> lock_obj list" where
  "init_loop f ok i 0 held = (i, held)"
| "init_loop f ok i (Suc n) held = (if ok (f i) then init_loop f ok (Suc i) n (f i # held) else (i, held))"

fun destroy_loop :: "(nat \<Rightarrow> lock_obj) \<Rightarrow> nat \<Rightarrow> lock_obj list \<Rightarrow> lock_obj list" where
  "destroy_loop f 0 held = held"
| "destroy_loop f (Suc k) held = destroy_loop f k (removeAll (f k) held)"

definition ocf_metadata_concurrency_init :: "nat \<Rightarrow> nat \<Rightarrow> (lock_obj \<Rightarrow> bool) \<Rightarrow> bool \<times> lock_obj list" where
  "ocf_metadata_concurrency_init lrus parts ok =
     (let (_, held) = init_loop Lru_lock (\<lambda>_. True) 0 lrus [];
          (g, held) = init_loop Global_sem ok 0 OCF_NUM_GLOBAL_META_LOCKS held
      in if g < OCF_NUM_GLOBAL_META_LOCKS then (False, destroy_loop Lru_lock lrus (destroy_loop Global_sem g held))
         else let (p, held) = init_loop Part_spinlock ok 0 parts held
              in if p < parts
                 then (False, destroy_loop Lru_lock lrus (destroy_loop Global_sem g (destroy_loop Part_spinlock p held)))
                 else (True, held))"

definition ocf_metadata_concurrency_deinit :: "nat \<Rightarrow> nat \<Rightarrow> lock_obj list \<Rightarrow> lock_obj list" where
  "ocf_metadata_concurrency_deinit lrus parts held =
     destroy_loop Global_sem OCF_NUM_GLOBAL_META_LOCKS (destroy_loop Lru_lock lrus (destroy_loop Part_spinlock parts held))"

record attached_locks =
  att_held :: "lock_obj list"
  hash_ptr :: bool
  coll_ptr :: bool
  num_hash :: nat
  num_coll :: nat

definition ocf_metadata_concurrency_attached_deinit :: "attached_locks \<Rightarrow> attached_locks" where
  "ocf_metadata_concurrency_attached_deinit st =
     (let st = (if hash_ptr st
                then st\<lparr>att_held := removeAll Hash_mem (destroy_loop Hash_sem (num_hash st) (att_held st)),
                        hash_ptr := False, num_hash := 0\<rparr> else st)
      in if coll_ptr st
         then st\<lparr>att_held := removeAll Coll_mem (destroy_loop Coll_sem (num_coll st) (att_held st)),
                 coll_ptr := False, num_coll := 0\<rparr> else st)"

text \<open>\<open>env_vfree(NULL)\<close> does nothing, so that both arrays are freed when either allocation failed.\<close>

definition ocf_metadata_concurrency_attached_init ::
    "(lock_obj \<Rightarrow> bool) \<Rightarrow> nat \<Rightarrow> nat \<Rightarrow> attached_locks \<Rightarrow> bool \<times> attached_locks" where
  "ocf_metadata_concurrency_attached_init ok entries pages st =
     (if \<not> ok Hash_mem \<or> \<not> ok Coll_mem then (False, st\<lparr>hash_ptr := False, coll_ptr := False\<rparr>)
      else
        let st = st\<lparr>att_held := Coll_mem # Hash_mem # att_held st, hash_ptr := True, coll_ptr := True\<rparr>;
            (i, held) = init_loop Hash_sem ok 0 entries (att_held st)
        in if i < entries
           then (False, ocf_metadata_concurrency_attached_deinit
                   (st\<lparr>att_held := removeAll Hash_mem (destroy_loop Hash_sem i held), hash_ptr := False\<rparr>))
           else let (i, held) = init_loop Coll_sem ok 0 pages held
                in if i < pages
                   then (False, ocf_metadata_concurrency_attached_deinit
                           (st\<lparr>att_held := removeAll Coll_mem (destroy_loop Coll_sem i held), coll_ptr := False\<rparr>))
                   else (True, st\<lparr>att_held := held, num_hash := entries, num_coll := pages\<rparr>))"

lemma set_destroy_loop: "set (destroy_loop f k held) = set held - f ` {..<k}"
  by (induction f k held rule: destroy_loop.induct) (auto simp: lessThan_Suc)

lemma init_loop_eq:
  "\<exists>k held'. init_loop f ok i n held = (k, held') \<and> i \<le> k \<and> k \<le> i + n \<and> (k < i + n \<longrightarrow> \<not> ok (f k)) \<and>
     (\<forall>j. i \<le> j \<and> j < k \<longrightarrow> ok (f j)) \<and> set held' = f ` {i..<k} \<union> set held"
proof (induction n arbitrary: i held)
  case (Suc n)
  show ?case
  proof (cases "ok (f i)")
    case True
    from Suc.IH [of "Suc i" "f i # held"] obtain k held' where
      k: "init_loop f ok (Suc i) n (f i # held) = (k, held')" "Suc i \<le> k" "k \<le> Suc i + n" "k < Suc i + n \<longrightarrow> \<not> ok (f k)"
        "\<forall>j. Suc i \<le> j \<and> j < k \<longrightarrow> ok (f j)" "set held' = f ` {Suc i..<k} \<union> set (f i # held)"
      by blast
    moreover have "{i..<k} = insert i {Suc i..<k}" using k(2) by auto
    ultimately show ?thesis using True by (auto simp: le_eq_less_or_eq Suc_le_eq)
  qed auto
qed auto

lemma init_loop_all: "(\<And>j. i \<le> j \<Longrightarrow> j < i + n \<Longrightarrow> ok (f j)) \<Longrightarrow> \<exists>held'. init_loop f ok i n held = (i + n, held') \<and> set held' = f ` {i..<i + n} \<union> set held"
  using init_loop_eq [of f ok i n held] by (metis le_eq_less_or_eq)

text \<open>
  The initialisation of the metadata locks succeeds exactly when every semaphore and
  spinlock can be created; then all of them exist and the de-initialisation destroys all of them; when
  it fails, every object that was created is destroyed.
\<close>

theorem concurrency_init_no_leak:
  "\<exists>b held. ocf_metadata_concurrency_init lrus parts ok = (b, held) \<and>
     b = ((\<forall>k < OCF_NUM_GLOBAL_META_LOCKS. ok (Global_sem k)) \<and> (\<forall>k < parts. ok (Part_spinlock k))) \<and>
     set held = (if b then Lru_lock ` {..<lrus} \<union> Global_sem ` {..<OCF_NUM_GLOBAL_META_LOCKS} \<union> Part_spinlock ` {..<parts} else {}) \<and>
     set (ocf_metadata_concurrency_deinit lrus parts held) = {}"
proof -
  let ?n = OCF_NUM_GLOBAL_META_LOCKS
  obtain hl where l: "init_loop Lru_lock (\<lambda>_. True) 0 lrus [] = (lrus, hl)" "set hl = Lru_lock ` {..<lrus}"
    using init_loop_all [of 0 lrus "\<lambda>_. True" Lru_lock "[]"] by (auto simp: atLeast0LessThan)
  obtain g hg where g: "init_loop Global_sem ok 0 ?n hl = (g, hg)" "g \<le> ?n" "g < ?n \<longrightarrow> \<not> ok (Global_sem g)"
    "\<forall>j < g. ok (Global_sem j)" "set hg = Global_sem ` {..<g} \<union> set hl"
    using init_loop_eq [of Global_sem ok 0 ?n hl] by (auto simp: atLeast0LessThan)
  obtain p hp where p: "init_loop Part_spinlock ok 0 parts hg = (p, hp)" "p \<le> parts" "p < parts \<longrightarrow> \<not> ok (Part_spinlock p)"
    "\<forall>j < p. ok (Part_spinlock j)" "set hp = Part_spinlock ` {..<p} \<union> set hg"
    using init_loop_eq [of Part_spinlock ok 0 parts hg] by (auto simp: atLeast0LessThan)
  consider "g < ?n" | "g = ?n" "p < parts" | "g = ?n" "p = parts" using g(2) p(2) by linarith
  then show ?thesis
    by cases (use l g p in \<open>auto simp: ocf_metadata_concurrency_init_def ocf_metadata_concurrency_deinit_def set_destroy_loop\<close>)
qed

definition no_attached_locks :: attached_locks where
  "no_attached_locks = \<lparr>att_held = [], hash_ptr = False, coll_ptr = False, num_hash = 0, num_coll = 0\<rparr>"

text \<open>
  What the initialisation of the bucket and page locks leaves behind. It succeeds exactly
  when both arrays and all semaphores can be created, and the de-initialisation then destroys all of
  it. When it fails, nothing is left, with one exception: when a semaphore of the collision pages
  cannot be created, the semaphores of all hash buckets are never destroyed, because
  \<open>num_hash_entries\<close> is set only at the end and the de-initialisation called on the error path loops
  over no entries before it frees the array.
\<close>

theorem attached_init_error_paths:
  "\<exists>b st. ocf_metadata_concurrency_attached_init ok n p no_attached_locks = (b, st) \<and>
     b = (ok Hash_mem \<and> ok Coll_mem \<and> (\<forall>k < n. ok (Hash_sem k)) \<and> (\<forall>k < p. ok (Coll_sem k))) \<and>
     set (att_held st) =
       (if b then {Hash_mem, Coll_mem} \<union> Hash_sem ` {..<n} \<union> Coll_sem ` {..<p}
        else if ok Hash_mem \<and> ok Coll_mem \<and> (\<forall>k < n. ok (Hash_sem k)) then Hash_sem ` {..<n} else {}) \<and>
     (if b then set (att_held (ocf_metadata_concurrency_attached_deinit st)) = {}
      else \<not> hash_ptr st \<and> \<not> coll_ptr st)"
proof (cases "ok Hash_mem \<and> ok Coll_mem")
  case False
  then show ?thesis by (auto simp: ocf_metadata_concurrency_attached_init_def no_attached_locks_def)
next
  case True
  let ?h0 = "[Coll_mem, Hash_mem]"
  obtain i hi where i: "init_loop Hash_sem ok 0 n ?h0 = (i, hi)" "i \<le> n" "i < n \<longrightarrow> \<not> ok (Hash_sem i)"
    "\<forall>j < i. ok (Hash_sem j)" "set hi = Hash_sem ` {..<i} \<union> set ?h0"
    using init_loop_eq [of Hash_sem ok 0 n ?h0] by (auto simp: atLeast0LessThan)
  obtain k hk where k: "init_loop Coll_sem ok 0 p hi = (k, hk)" "k \<le> p" "k < p \<longrightarrow> \<not> ok (Coll_sem k)"
    "\<forall>j < k. ok (Coll_sem j)" "set hk = Coll_sem ` {..<k} \<union> set hi"
    using init_loop_eq [of Coll_sem ok 0 p hi] by (auto simp: atLeast0LessThan)
  consider "i < n" | "i = n" "k < p" | "i = n" "k = p" using i(2) k(2) by linarith
  then show ?thesis
    by cases (use True i k in \<open>auto simp: ocf_metadata_concurrency_attached_init_def ocf_metadata_concurrency_attached_deinit_def
        no_attached_locks_def set_destroy_loop\<close>)
qed

theorem concurrency_init_no_leak_witness:
  "ocf_metadata_concurrency_init 32 33 (\<lambda>x. x \<noteq> Part_spinlock 5) = (False, [])"
proof -
  have n: "\<not> (\<forall>k < 33. k \<noteq> (5 :: nat))" by (intro notI) (erule allE [of _ 5], simp)
  show ?thesis
    using concurrency_init_no_leak [of 32 33 "\<lambda>x. x \<noteq> Part_spinlock 5"] by (elim exE conjE) (use n in simp)
qed

theorem attached_init_error_paths_witness:
  "\<exists>st. ocf_metadata_concurrency_attached_init (\<lambda>x. x \<noteq> Coll_sem 5) 3 7 no_attached_locks = (False, st) \<and>
     set (att_held st) = {Hash_sem 0, Hash_sem 1, Hash_sem 2}"
proof -
  have n: "\<not> (\<forall>k < 7. k \<noteq> (5 :: nat))" by (intro notI) (erule allE [of _ 5], simp)
  have e: "Hash_sem ` {..<3} = {Hash_sem 0, Hash_sem 1, Hash_sem 2}" by (auto simp: numeral_3_eq_3 lessThan_Suc numeral_2_eq_2)
  show ?thesis
    using attached_init_error_paths [of "\<lambda>x. x \<noteq> Coll_sem 5" 3 7] unfolding e by (elim exE conjE) (use n in simp)
qed

end
