(* ===== verification/LSMT_Index.thy ===== *)
theory LSMT_Index
  imports Prelude
begin

text \<open>
  The index of a layer of the log-structured block device (\<open>overlaybd/lsmt/index.h\<close> and the classes
  \<open>Index\<close> and \<open>Index0\<close> of \<open>index.cpp\<close>). An index maps segments of the virtual device to segments of
  the data file. It is read as a function from blocks to targets: \<open>lookup\<close> returns the part of this
  function inside a segment, and \<open>insert\<close> overrides it. The iteration \<open>foreach_segments\<close> is verified
  once for every index with such a \<open>lookup\<close>.
\<close>

section \<open>Segments\<close>

text \<open>The fields are bit fields of 50, 14, 55, 1 and 8 bits; a store truncates. Arithmetic is done with 64 bits.\<close>

definition trunc :: "nat \<Rightarrow> nat \<Rightarrow> nat" where
  "trunc w x = x mod 2 ^ w"

definition sub64 :: "nat \<Rightarrow> nat \<Rightarrow> nat" where
  "sub64 a b = trunc 64 (a + 2 ^ 64 - b)"

record Segment =
  seg_offset :: nat
  seg_length :: nat

record SegmentMapping = Segment +
  moffset :: nat
  zeroed :: bool
  tag :: nat

definition MAX_LENGTH :: nat where
  "MAX_LENGTH = 2 ^ 14 - 1"

definition INVALID_OFFSET :: nat where
  "INVALID_OFFSET = 2 ^ 50 - 1"

definition seg_end :: "'a Segment_scheme \<Rightarrow> nat" where
  "seg_end s = seg_offset s + seg_length s"

definition Segment_forward_offset_to :: "nat \<Rightarrow> 'a Segment_scheme \<Rightarrow> (nat \<times> 'a Segment_scheme) option" where
  "Segment_forward_offset_to x s = do {
     bug_on (\<not> x \<ge> seg_offset s);
     let delta = x - seg_offset s;
     Some (delta, s\<lparr>seg_length := trunc 14 (sub64 (seg_length s) delta), seg_offset := trunc 50 x\<rparr>)
   }"

definition mend :: "SegmentMapping \<Rightarrow> nat" where
  "mend m = (if zeroed m then moffset m else moffset m + seg_length m)"

definition forward_offset_to :: "nat \<Rightarrow> SegmentMapping \<Rightarrow> SegmentMapping option" where
  "forward_offset_to x m = do {
     (delta, m) \<leftarrow> Segment_forward_offset_to x m;
     Some (m\<lparr>moffset := trunc 55 (moffset m + (if \<not> zeroed m then delta else 0))\<rparr>)
   }"

definition backward_end_to :: "nat \<Rightarrow> SegmentMapping \<Rightarrow> SegmentMapping option" where
  "backward_end_to x m = do {
     bug_on (\<not> x > seg_offset m);
     Some (m\<lparr>seg_length := trunc 14 (trunc 32 (x - seg_offset m))\<rparr>)
   }"

definition discard :: "SegmentMapping \<Rightarrow> SegmentMapping" where
  "discard m = m\<lparr>zeroed := True\<rparr>"

definition new_SegmentMapping :: "nat \<Rightarrow> nat \<Rightarrow> nat \<Rightarrow> nat \<Rightarrow> SegmentMapping" where
  "new_SegmentMapping loffset len moff t =
     \<lparr>seg_offset = trunc 50 loffset, seg_length = trunc 14 len, moffset = trunc 55 moff, zeroed = False, tag = trunc 8 t\<rparr>"

definition invalid_mapping :: SegmentMapping where
  "invalid_mapping = new_SegmentMapping INVALID_OFFSET 0 0 0"

text \<open>The order of segments, \<open>operator<\<close>.\<close>

definition seg_less :: "'a Segment_scheme \<Rightarrow> 'b Segment_scheme \<Rightarrow> bool" where
  "seg_less a b \<longleftrightarrow> seg_end a \<le> seg_offset b"

definition trim_edge_mappings :: "SegmentMapping list \<Rightarrow> 'a Segment_scheme \<Rightarrow> SegmentMapping list option" where
  "trim_edge_mappings pm s =
     (if pm = [] then Some []
      else do {
        first \<leftarrow> (if seg_offset (hd pm) < seg_offset s then forward_offset_to (seg_offset s) (hd pm) else Some (hd pm));
        let pm = first # tl pm;
        let back = last pm;
        back \<leftarrow> (if seg_end back > seg_end s then backward_end_to (seg_end s) back else Some back);
        Some (butlast pm @ [back])
      })"

text \<open>
  \<open>m\<close> is the number of mappings stored so far, \<open>n\<close> the size of the array they are stored to. As in the
  code the size is compared after a store.
\<close>

fun copy_n :: "SegmentMapping list \<Rightarrow> nat \<Rightarrow> nat \<Rightarrow> nat \<Rightarrow> SegmentMapping list" where
  "copy_n [] end_offset n m = []"
| "copy_n (x # xs) end_offset n m =
     (if seg_offset x \<ge> end_offset then []
      else x # (if Suc m = n then [] else copy_n xs end_offset n (Suc m)))"

section \<open>The read-only index\<close>

text \<open>\<open>std::lower_bound\<close>: the binary search for the first element of a range that does not satisfy \<open>P\<close>.\<close>

function lower_bound :: "('a \<Rightarrow> bool) \<Rightarrow> 'a list \<Rightarrow> nat \<Rightarrow> nat \<Rightarrow> nat" where
  "lower_bound P xs first len =
     (if len = 0 then first
      else if P (xs ! (first + len div 2)) then lower_bound P xs (first + len div 2 + 1) (len - len div 2 - 1)
      else lower_bound P xs first (len div 2))"
  by pat_completeness auto
termination by (relation "measure (\<lambda>(P, xs, first, len). len)") auto

declare lower_bound.simps [simp del]

record Index =
  ix_map :: "SegmentMapping list"
  ix_alloc_blk :: nat
  ix_vsize :: nat

definition seg_blocks :: "SegmentMapping \<Rightarrow> nat" where
  "seg_blocks m = seg_length m * (if zeroed m then 0 else 1)"

definition get_alloc_blks :: "Index \<Rightarrow> Index" where
  "get_alloc_blks ix = ix\<lparr>ix_alloc_blk := fold (\<lambda>m a. trunc 64 (a + seg_blocks m)) (ix_map ix) (ix_alloc_blk ix)\<rparr>"

definition new_Index :: "SegmentMapping list \<Rightarrow> nat \<Rightarrow> Index" where
  "new_Index ms vsize = \<lparr>ix_map = ms, ix_alloc_blk = 0, ix_vsize = vsize\<rparr>"

definition new_Index_vector :: "SegmentMapping list \<Rightarrow> nat \<Rightarrow> Index" where
  "new_Index_vector ms vsize = (if ms \<noteq> [] then get_alloc_blks (new_Index ms vsize) else new_Index [] vsize)"

definition Index_assign :: "SegmentMapping list \<Rightarrow> Index \<Rightarrow> Index" where
  "Index_assign ms ix = get_alloc_blks (ix\<lparr>ix_map := ms\<rparr>)"

definition Index_lookup :: "Index \<Rightarrow> Segment \<Rightarrow> nat \<Rightarrow> SegmentMapping list option" where
  "Index_lookup ix s n =
     (if seg_length s = 0 then Some []
      else do {
        let lb = lower_bound (\<lambda>e. seg_less e s) (ix_map ix) 0 (length (ix_map ix));
        let pm = copy_n (drop lb (ix_map ix)) (seg_end s) n 0;
        trim_edge_mappings pm s
      })"

definition Index_front :: "Index \<Rightarrow> SegmentMapping" where
  "Index_front ix = (if ix_map ix \<noteq> [] then hd (ix_map ix) else invalid_mapping)"

definition Index_back :: "Index \<Rightarrow> SegmentMapping" where
  "Index_back ix = (if ix_map ix \<noteq> [] then last (ix_map ix) else invalid_mapping)"

definition Index_lower_bound :: "Index \<Rightarrow> nat \<Rightarrow> SegmentMapping list" where
  "Index_lower_bound ix offset =
     drop (lower_bound (\<lambda>e. seg_less e \<lparr>seg_offset = trunc 50 offset, seg_length = 1\<rparr>) (ix_map ix) 0 (length (ix_map ix))) (ix_map ix)"

definition increase_tag :: "int \<Rightarrow> Index \<Rightarrow> Index" where
  "increase_tag delta ix = ix\<lparr>ix_map := map (\<lambda>m. m\<lparr>tag := nat ((int (tag m) + delta) mod 2 ^ 8)\<rparr>) (ix_map ix)\<rparr>"

section \<open>The writable index\<close>

text \<open>
  \<open>std::set<SegmentMapping>\<close> is the list of its elements in order. An iterator is a split of this list:
  the elements before it and those from it on.
\<close>

record Index0 =
  mapping :: "SegmentMapping list"
  m_alloc :: nat

definition set_insert :: "SegmentMapping \<Rightarrow> SegmentMapping list \<Rightarrow> SegmentMapping list" where
  "set_insert m ms =
     (case dropWhile (\<lambda>e. seg_less e m) ms of
        [] \<Rightarrow> ms @ [m]
      | e # es \<Rightarrow> if seg_less m e then takeWhile (\<lambda>e. seg_less e m) ms @ m # e # es else ms)"

definition usage_sub :: "SegmentMapping \<Rightarrow> nat \<Rightarrow> nat" where
  "usage_sub m a = (if zeroed m then a else sub64 a (seg_length m))"

definition usage_add :: "SegmentMapping \<Rightarrow> nat \<Rightarrow> nat" where
  "usage_add m a = (if zeroed m then a else trunc 64 (a + seg_length m))"

text \<open>The element at the iterator is \<open>p\<close>; the result is the set split at \<open>next(it)\<close>.\<close>

definition remove_partial_overlap ::
    "SegmentMapping list \<Rightarrow> SegmentMapping \<Rightarrow> SegmentMapping list \<Rightarrow> nat \<Rightarrow> nat \<Rightarrow> nat \<Rightarrow>
     (SegmentMapping list \<times> SegmentMapping list \<times> nat) option" where
  "remove_partial_overlap before p nx offset len alloc =
     (let stop = offset + len in
      if seg_offset p < offset then do {
        bug_on (\<not> seg_end p > offset);
        let alloc = usage_sub p alloc;
        if seg_end p \<le> stop then do {
          p \<leftarrow> backward_end_to offset p;
          Some (before @ [p], nx, usage_add p alloc)
        } else do {
          nm \<leftarrow> forward_offset_to stop p;
          p \<leftarrow> backward_end_to offset p;
          Some (before @ [p, nm], nx, usage_add nm (usage_add p alloc))
        }
      } else if seg_offset p < stop then do {
        let alloc = usage_sub p alloc;
        if seg_end p \<le> stop then Some (before, nx, alloc)
        else do {
          p \<leftarrow> forward_offset_to stop p;
          Some (before @ [p], nx, usage_add p alloc)
        }
      } else Some (before @ [p], nx, alloc))"

text \<open>The loop of \<open>insert\<close> over the elements that follow the first one.\<close>

fun insert_loop ::
    "SegmentMapping \<Rightarrow> SegmentMapping list \<Rightarrow> SegmentMapping list \<Rightarrow> nat \<Rightarrow>
     (SegmentMapping list \<times> SegmentMapping list \<times> nat) option" where
  "insert_loop m before [] alloc = Some (before, [], alloc)"
| "insert_loop m before (p # nx) alloc =
     (if seg_offset p < seg_end m then
        if seg_end p \<le> seg_end m then insert_loop m before nx (usage_sub p alloc)
        else remove_partial_overlap before p nx (seg_offset m) (seg_length m) alloc
      else Some (before, p # nx, alloc))"

definition Index0_insert :: "SegmentMapping \<Rightarrow> Index0 \<Rightarrow> Index0 option" where
  "Index0_insert m i =
     (if seg_length m = 0 then Some i
      else
        let alloc = usage_add m (m_alloc i) in
        case dropWhile (\<lambda>e. seg_less e m) (mapping i) of
          [] \<Rightarrow> Some \<lparr>mapping = set_insert m (mapping i), m_alloc = alloc\<rparr>
        | p # nx \<Rightarrow> do {
            (before, nx, alloc) \<leftarrow>
              remove_partial_overlap (takeWhile (\<lambda>e. seg_less e m) (mapping i)) p nx (seg_offset m) (seg_length m) alloc;
            bug_on (\<not> (nx = [] \<or> seg_offset (hd nx) > seg_offset m));
            (before, nx, alloc) \<leftarrow> insert_loop m before nx alloc;
            Some \<lparr>mapping = set_insert m (before @ nx), m_alloc = alloc\<rparr>
          })"

text \<open>The constructor inserts the given mappings one after the other.\<close>

fun Index0_inserts :: "SegmentMapping list \<Rightarrow> Index0 \<Rightarrow> Index0 option" where
  "Index0_inserts [] i = Some i"
| "Index0_inserts (m # ms) i = do { i \<leftarrow> Index0_insert m i; Index0_inserts ms i }"

definition new_Index0 :: "SegmentMapping list \<Rightarrow> Index0 option" where
  "new_Index0 ms = Index0_inserts ms \<lparr>mapping = [], m_alloc = 0\<rparr>"

definition Index0_lookup :: "Index0 \<Rightarrow> Segment \<Rightarrow> nat \<Rightarrow> SegmentMapping list option" where
  "Index0_lookup i s n =
     (if seg_length s = 0 then Some []
      else do {
        let ss = new_SegmentMapping (seg_offset s) (seg_length s) 0 0;
        let pm = copy_n (dropWhile (\<lambda>e. seg_less e ss) (mapping i)) (seg_end s) n 0;
        trim_edge_mappings pm s
      })"

text \<open>
  The size of the dumped array and its initialised elements. \<open>sizeof(SegmentMapping)\<close> is 16; the division
  is undefined for an alignment between 1 and 15.
\<close>

definition Index0_dump :: "nat \<Rightarrow> Index0 \<Rightarrow> (nat \<times> SegmentMapping list) option" where
  "Index0_dump alignment i =
     (let sz = length (mapping i) in
      if alignment > 0 then do {
        let a = alignment div 16;
        bug_on (a = 0);
        Some ((sz + a - 1) div a * a, mapping i)
      } else Some (sz, mapping i))"

definition make_read_only_index :: "Index0 \<Rightarrow> Index" where
  "make_read_only_index i = Index_assign (mapping i) (new_Index [] 0)"

definition Index0_front :: "Index0 \<Rightarrow> SegmentMapping" where
  "Index0_front i = (if mapping i \<noteq> [] then hd (mapping i) else invalid_mapping)"

definition Index0_back :: "Index0 \<Rightarrow> SegmentMapping" where
  "Index0_back i = (if mapping i \<noteq> [] then last (mapping i) else invalid_mapping)"


section \<open>The blocks of a list of mappings\<close>

definition covers :: "'a Segment_scheme \<Rightarrow> nat \<Rightarrow> bool" where
  "covers s b \<longleftrightarrow> seg_offset s \<le> b \<and> b < seg_end s"

text \<open>Where the block \<open>b\<close> is: the tag of its layer, and its block in the data file or zeros.\<close>

definition target :: "SegmentMapping \<Rightarrow> nat \<Rightarrow> nat \<times> nat option" where
  "target m b = (tag m, if zeroed m then None else Some (moffset m + (b - seg_offset m)))"

fun denote :: "SegmentMapping list \<Rightarrow> nat \<Rightarrow> (nat \<times> nat option) option" where
  "denote [] b = None"
| "denote (m # ms) b = (if covers m b then Some (target m b) else denote ms b)"

definition wf_seg :: "'a Segment_scheme \<Rightarrow> bool" where
  "wf_seg s \<longleftrightarrow> seg_length s \<le> MAX_LENGTH \<and> seg_end s < 2 ^ 50"

definition wf_map :: "SegmentMapping \<Rightarrow> bool" where
  "wf_map m \<longleftrightarrow> 0 < seg_length m \<and> wf_seg m \<and> (if zeroed m then moffset m < 2 ^ 55 else moffset m + seg_length m \<le> 2 ^ 55) \<and> tag m < 2 ^ 8"

definition segs_ok :: "SegmentMapping list \<Rightarrow> bool" where
  "segs_ok ms \<longleftrightarrow> sorted_wrt seg_less ms \<and> (\<forall>m \<in> set ms. wf_map m)"

lemma denote_append: "denote (xs @ ys) b = (case denote xs b of None \<Rightarrow> denote ys b | Some t \<Rightarrow> Some t)"
  by (induction xs) auto

lemma denote_None_iff: "denote xs b = None \<longleftrightarrow> (\<forall>m \<in> set xs. \<not> covers m b)"
  by (induction xs) auto

lemma denote_below [simp]: "\<forall>m \<in> set xs. seg_end m \<le> b \<Longrightarrow> denote xs b = None"
  by (auto simp: denote_None_iff covers_def)

lemma denote_above [simp]: "\<forall>m \<in> set xs. b < seg_offset m \<Longrightarrow> denote xs b = None"
  by (auto simp: denote_None_iff covers_def)

lemma denote_in: "segs_ok xs \<Longrightarrow> m \<in> set xs \<Longrightarrow> covers m b \<Longrightarrow> denote xs b = Some (target m b)"
  by (induction xs) (auto simp: segs_ok_def seg_less_def covers_def)

lemma denote_cong: "denote ps b = denote qs b \<Longrightarrow> denote (xs @ ps @ ys) b = denote (xs @ qs @ ys) b"
  by (simp add: denote_append split: option.split)

lemma segs_ok_append:
  "segs_ok (xs @ ys) \<longleftrightarrow> segs_ok xs \<and> segs_ok ys \<and> (\<forall>x \<in> set xs. \<forall>y \<in> set ys. seg_less x y)"
  by (auto simp: segs_ok_def sorted_wrt_append)

lemma segs_ok_simps [simp]:
  "segs_ok []" "segs_ok (x # xs) \<longleftrightarrow> wf_map x \<and> segs_ok xs \<and> (\<forall>y \<in> set xs. seg_less x y)"
  by (auto simp: segs_ok_def)

lemma seg_less_trans: "seg_less a b \<Longrightarrow> wf_map b \<Longrightarrow> seg_less b c \<Longrightarrow> seg_less a c"
  by (simp add: seg_less_def seg_end_def)

lemma seg_less_antisym: "wf_map a \<Longrightarrow> seg_less a b \<Longrightarrow> \<not> seg_less b a"
  by (simp add: seg_less_def seg_end_def wf_map_def)

lemma wf_mapD:
  assumes "wf_map m"
  shows "0 < seg_length m" "seg_offset m < seg_end m" "seg_length m < 2 ^ 14" "seg_end m < 2 ^ 50" "seg_offset m < 2 ^ 50"
    "seg_length m \<le> MAX_LENGTH"
  using assms by (auto simp: wf_map_def wf_seg_def seg_end_def MAX_LENGTH_def)

section \<open>Cutting mappings\<close>

text \<open>The results of the two cutting operations when nothing is truncated.\<close>

definition cut_front :: "nat \<Rightarrow> SegmentMapping \<Rightarrow> SegmentMapping" where
  "cut_front x m = m\<lparr>seg_offset := x, seg_length := seg_end m - x, moffset := moffset m + (if zeroed m then 0 else x - seg_offset m)\<rparr>"

definition cut_back :: "nat \<Rightarrow> SegmentMapping \<Rightarrow> SegmentMapping" where
  "cut_back x m = m\<lparr>seg_length := x - seg_offset m\<rparr>"

lemma trunc_id: "x < 2 ^ w \<Longrightarrow> trunc w x = x"
  by (simp add: trunc_def)

lemma sub64_eq: "b \<le> a \<Longrightarrow> a < 2 ^ 64 \<Longrightarrow> sub64 a b = a - b"
  unfolding sub64_def trunc_def by (metis Nat.add_diff_assoc2 less_imp_diff_less mod_add_self2 mod_less)

lemma forward_offset_to_eq:
  assumes "wf_map m" "seg_offset m \<le> x" "x < seg_end m"
  shows "forward_offset_to x m = Some (cut_front x m)"
proof -
  note w = wf_mapD [OF assms(1)]
  have le: "x - seg_offset m \<le> seg_length m" "seg_length m - (x - seg_offset m) = seg_end m - x" using assms by (simp_all add: seg_end_def)
  have "seg_end m - x < 2 ^ 14" using w(3) le(2) by linarith
  moreover have "sub64 (seg_length m) (x - seg_offset m) = seg_end m - x"
    using sub64_eq [OF le(1)] w(3) le(2) by (simp add: order_less_trans [OF w(3)])
  ultimately have "trunc 14 (sub64 (seg_length m) (x - seg_offset m)) = seg_end m - x" by (simp only: trunc_id)
  moreover have "trunc 50 x = x" using assms(3) w(4) by (intro trunc_id) linarith
  moreover have "trunc 55 (moffset m + (if zeroed m then 0 else x - seg_offset m)) = moffset m + (if zeroed m then 0 else x - seg_offset m)"
    using assms by (intro trunc_id) (auto simp: wf_map_def seg_end_def)
  ultimately show ?thesis
    using assms(2) by (auto simp: forward_offset_to_def Segment_forward_offset_to_def cut_front_def)
qed

lemma backward_end_to_eq:
  assumes "wf_map m" "seg_offset m < x" "x \<le> seg_end m"
  shows "backward_end_to x m = Some (cut_back x m)"
proof -
  have lt: "x - seg_offset m < 2 ^ 14" using assms wf_mapD(3) [OF assms(1)] by (simp add: seg_end_def)
  then have "x - seg_offset m < 2 ^ 32" by simp
  with lt show ?thesis using assms(2) by (simp only: backward_end_to_def cut_back_def trunc_id) simp
qed

lemma cut_front_laws:
  assumes "wf_map m" "seg_offset m \<le> x" "x < seg_end m"
  shows "wf_map (cut_front x m)" "seg_offset (cut_front x m) = x" "seg_end (cut_front x m) = seg_end m"
    "zeroed (cut_front x m) = zeroed m" "tag (cut_front x m) = tag m" "x \<le> b \<Longrightarrow> target (cut_front x m) b = target m b"
    "seg_length (cut_front x m) = seg_end m - x"
  using assms by (auto simp: cut_front_def wf_map_def wf_seg_def seg_end_def target_def)

lemma cut_back_laws:
  assumes "wf_map m" "seg_offset m < x" "x \<le> seg_end m"
  shows "wf_map (cut_back x m)" "seg_offset (cut_back x m) = seg_offset m" "seg_end (cut_back x m) = x"
    "zeroed (cut_back x m) = zeroed m" "tag (cut_back x m) = tag m" "target (cut_back x m) b = target m b"
    "seg_length (cut_back x m) = x - seg_offset m"
  using assms by (auto simp: cut_back_def wf_map_def wf_seg_def seg_end_def target_def)

lemma denote_cut:
  assumes "wf_map m" "seg_offset m \<le> x" "x < seg_end m"
  shows "denote [cut_front x m] b = (if x \<le> b then denote [m] b else None)"
  using cut_front_laws [OF assms] assms(2) by (simp add: covers_def)

lemma denote_cut_back:
  assumes "wf_map m" "seg_offset m < x" "x \<le> seg_end m"
  shows "denote [cut_back x m] b = (if b < x then denote [m] b else None)"
  using cut_back_laws [OF assms] assms(3) by (auto simp: covers_def)


section \<open>Searching\<close>

lemma lower_bound_spec:
  assumes "first + len \<le> length xs" "\<And>i j. first \<le> i \<Longrightarrow> i \<le> j \<Longrightarrow> j < first + len \<Longrightarrow> P (xs ! j) \<Longrightarrow> P (xs ! i)"
  shows "first \<le> lower_bound P xs first len \<and> lower_bound P xs first len \<le> first + len \<and>
    (\<forall>i. first \<le> i \<and> i < lower_bound P xs first len \<longrightarrow> P (xs ! i)) \<and>
    (\<forall>i. lower_bound P xs first len \<le> i \<and> i < first + len \<longrightarrow> \<not> P (xs ! i))"
  using assms
proof (induction P xs first len rule: lower_bound.induct)
  case (1 P xs first len)
  note mono = "1.prems"(2)
  let ?mid = "first + len div 2"
  consider "len = 0" | "len \<noteq> 0" "P (xs ! ?mid)" | "len \<noteq> 0" "\<not> P (xs ! ?mid)" by blast
  then show ?case
  proof cases
    case 1
    then show ?thesis by (subst (1 2 3 4) lower_bound.simps) auto
  next
    case 2
    have le: "?mid + 1 + (len - len div 2 - 1) = first + len" using 2(1) by linarith
    have IH: "?mid + 1 \<le> lower_bound P xs (?mid + 1) (len - len div 2 - 1) \<and>
      lower_bound P xs (?mid + 1) (len - len div 2 - 1) \<le> ?mid + 1 + (len - len div 2 - 1) \<and>
      (\<forall>i. ?mid + 1 \<le> i \<and> i < lower_bound P xs (?mid + 1) (len - len div 2 - 1) \<longrightarrow> P (xs ! i)) \<and>
      (\<forall>i. lower_bound P xs (?mid + 1) (len - len div 2 - 1) \<le> i \<and> i < ?mid + 1 + (len - len div 2 - 1) \<longrightarrow> \<not> P (xs ! i))"
      by (rule "1.IH"(1) [OF 2]) (use "1.prems" le in auto)
    have low: "P (xs ! i)" if "first \<le> i" "i \<le> ?mid" for i
      using mono [OF that _ 2(2)] 2(1) by simp
    have "lower_bound P xs first len = lower_bound P xs (?mid + 1) (len - len div 2 - 1)"
      using 2 by (subst lower_bound.simps) simp
    then show ?thesis using IH low unfolding le by (metis Suc_eq_plus1 add_leD1 leI less_eq_Suc_le)
  next
    case 3
    have IH: "first \<le> lower_bound P xs first (len div 2) \<and> lower_bound P xs first (len div 2) \<le> ?mid \<and>
      (\<forall>i. first \<le> i \<and> i < lower_bound P xs first (len div 2) \<longrightarrow> P (xs ! i)) \<and>
      (\<forall>i. lower_bound P xs first (len div 2) \<le> i \<and> i < ?mid \<longrightarrow> \<not> P (xs ! i))"
    proof (rule "1.IH"(2) [OF 3])
      show "first + len div 2 \<le> length xs" using "1.prems"(1) by linarith
      show "P (xs ! i)" if "first \<le> i" "i \<le> j" "j < ?mid" "P (xs ! j)" for i j
        using that(3) by (intro mono [OF that(1,2) _ that(4)]) linarith
    qed
    have high: "\<not> P (xs ! i)" if "?mid \<le> i" "i < first + len" for i
      using mono [OF _ that] 3(2) by auto
    have "lower_bound P xs first len = lower_bound P xs first (len div 2)"
      using 3 by (subst lower_bound.simps) simp
    moreover have "\<not> P (xs ! i)" if "lower_bound P xs first (len div 2) \<le> i" "i < first + len" for i
      using that IH high [of i] by (cases "i < ?mid") (auto simp: not_less)
    moreover have "?mid \<le> first + len" by simp
    ultimately show ?thesis using IH by (metis le_trans)
  qed
qed

lemma dropWhile_eq_drop_at:
  assumes "r \<le> length xs" "\<forall>i < r. P (xs ! i)" "\<forall>i. r \<le> i \<and> i < length xs \<longrightarrow> \<not> P (xs ! i)"
  shows "dropWhile P xs = drop r xs"
proof -
  have "dropWhile P (take r xs @ drop r xs) = drop r xs"
    using assms by (subst dropWhile_append2) (auto simp: in_set_conv_nth dropWhile_eq_self_iff hd_drop_conv_nth)
  then show ?thesis by simp
qed

lemma lower_bound_dropWhile:
  assumes "sorted_wrt (\<lambda>x y. P y \<longrightarrow> P x) xs"
  shows "drop (lower_bound P xs 0 (length xs)) xs = dropWhile P xs"
proof -
  have "P (xs ! i)" if "i \<le> j" "j < length xs" "P (xs ! j)" for i j
    using assms that sorted_wrt_nth_less [OF assms, of i j] by (cases "i = j") auto
  with lower_bound_spec [of 0 "length xs" xs P] show ?thesis
    by (intro dropWhile_eq_drop_at [symmetric]) auto
qed

lemma segs_ok_partition: "segs_ok ms \<Longrightarrow> sorted_wrt (\<lambda>x y. seg_less y s \<longrightarrow> seg_less x s) ms"
  by (auto simp: segs_ok_def intro!: sorted_wrt_mono_rel [of ms seg_less] elim!: seg_less_trans)

lemma copy_n_eq: "m < n \<Longrightarrow> copy_n xs e n m = take (n - m) (takeWhile (\<lambda>x. seg_offset x < e) xs)"
  by (induction xs e n m rule: copy_n.induct) (auto simp: Suc_diff_Suc take_Cons' not_le)

text \<open>The mappings of a list that overlap the segment \<open>s\<close>.\<close>

definition overlapping :: "'a Segment_scheme \<Rightarrow> SegmentMapping list \<Rightarrow> SegmentMapping list" where
  "overlapping s ms = takeWhile (\<lambda>x. seg_offset x < seg_end s) (dropWhile (\<lambda>e. seg_less e s) ms)"

definition overlaps :: "'a Segment_scheme \<Rightarrow> SegmentMapping \<Rightarrow> bool" where
  "overlaps s m \<longleftrightarrow> seg_offset s < seg_end m \<and> seg_offset m < seg_end s"

lemma dropWhile_not: "sorted_wrt (\<lambda>x y. P y \<longrightarrow> P x) xs \<Longrightarrow> y \<in> set (dropWhile P xs) \<Longrightarrow> \<not> P y"
  by (induction xs) (auto split: if_splits)

lemma overlapping_split:
  assumes "segs_ok ms"
  obtains xs ys where "ms = xs @ overlapping s ms @ ys" "\<forall>x \<in> set xs. seg_end x \<le> seg_offset s" "\<forall>y \<in> set ys. seg_end s \<le> seg_offset y"
    "\<forall>m \<in> set (overlapping s ms). overlaps s m"
proof -
  let ?d = "dropWhile (\<lambda>e. seg_less e s) ms"
  have ms: "ms = takeWhile (\<lambda>e. seg_less e s) ms @ ?d" by simp
  have d: "segs_ok ?d" using assms by (metis ms segs_ok_append)
  have "sorted_wrt (\<lambda>x y. seg_offset y < seg_end s \<longrightarrow> seg_offset x < seg_end s) ?d"
    by (rule sorted_wrt_mono_rel [of ?d seg_less]) (use d in \<open>auto simp: segs_ok_def seg_less_def seg_end_def\<close>)
  from dropWhile_not [OF this] have "\<forall>y \<in> set (dropWhile (\<lambda>x. seg_offset x < seg_end s) ?d). seg_end s \<le> seg_offset y"
    by (auto simp: not_less)
  moreover have "\<forall>m \<in> set (overlapping s ms). overlaps s m"
  proof
    fix m assume "m \<in> set (overlapping s ms)"
    then have "m \<in> set ?d" "seg_offset m < seg_end s" unfolding overlapping_def by (auto dest: set_takeWhileD)
    with dropWhile_not [OF segs_ok_partition [OF assms, of s], of m] show "overlaps s m" by (simp add: overlaps_def seg_less_def)
  qed
  moreover have "\<forall>x \<in> set (takeWhile (\<lambda>e. seg_less e s) ms). seg_end x \<le> seg_offset s" by (auto dest: set_takeWhileD simp: seg_less_def)
  ultimately show ?thesis using that [of "takeWhile (\<lambda>e. seg_less e s) ms" "dropWhile (\<lambda>x. seg_offset x < seg_end s) ?d"]
    by (simp add: overlapping_def)
qed


section \<open>Lookups\<close>

text \<open>A mapping restricted to the segment \<open>s\<close>.\<close>

definition clip :: "'a Segment_scheme \<Rightarrow> SegmentMapping \<Rightarrow> SegmentMapping" where
  "clip s m = (let m = (if seg_offset m < seg_offset s then cut_front (seg_offset s) m else m) in
     if seg_end m > seg_end s then cut_back (seg_end s) m else m)"

lemma clip_laws:
  assumes "wf_map m" "overlaps s m" "seg_offset s < seg_end s"
  shows "wf_map (clip s m)" "seg_offset (clip s m) = max (seg_offset m) (seg_offset s)" "seg_end (clip s m) = min (seg_end m) (seg_end s)"
    "seg_offset (clip s m) \<le> b \<Longrightarrow> target (clip s m) b = target m b"
proof -
  define m1 where "m1 = (if seg_offset m < seg_offset s then cut_front (seg_offset s) m else m)"
  have m1: "wf_map m1" "seg_offset m1 = max (seg_offset m) (seg_offset s)" "seg_end m1 = seg_end m" "seg_offset m1 \<le> b \<Longrightarrow> target m1 b = target m b"
    using assms cut_front_laws [of m "seg_offset s"] by (auto simp: m1_def overlaps_def)
  have c: "clip s m = (if seg_end m > seg_end s then cut_back (seg_end s) m1 else m1)" by (simp add: clip_def m1_def [symmetric] m1(3))
  have "seg_offset m1 < seg_end s" using assms by (auto simp: m1(2) overlaps_def)
  with m1 cut_back_laws [OF m1(1), of "seg_end s"]
  show "wf_map (clip s m)" "seg_offset (clip s m) = max (seg_offset m) (seg_offset s)" "seg_end (clip s m) = min (seg_end m) (seg_end s)"
    "seg_offset (clip s m) \<le> b \<Longrightarrow> target (clip s m) b = target m b" unfolding c by (auto split: if_splits)
qed

lemma denote_clip:
  assumes "\<forall>m \<in> set ms. wf_map m \<and> overlaps s m" "seg_offset s < seg_end s"
  shows "denote (map (clip s) ms) b = (if covers s b then denote ms b else None)"
  using assms(1)
proof (induction ms)
  case (Cons m ms)
  then have c: "covers (clip s m) b \<longleftrightarrow> covers m b \<and> covers s b"
    using clip_laws(2,3) [of m s] assms(2) by (auto simp: covers_def)
  show ?case using Cons c clip_laws(2) [of m s] clip_laws(4) [of m s b] assms(2) by (auto simp: covers_def)
qed simp

lemma segs_ok_clip:
  assumes "segs_ok ms" "\<forall>m \<in> set ms. overlaps s m" "seg_offset s < seg_end s"
  shows "segs_ok (map (clip s) ms)"
proof -
  have "sorted_wrt (\<lambda>x y. seg_less (clip s x) (clip s y)) ms"
    by (rule sorted_wrt_mono_rel [of ms seg_less])
      (use assms in \<open>auto simp: segs_ok_def seg_less_def clip_laws(2,3) min.coboundedI1 max.coboundedI1\<close>)
  then show ?thesis using assms clip_laws(1) by (auto simp: segs_ok_def sorted_wrt_map)
qed

lemma trim_edge_mappings_eq:
  assumes ok: "segs_ok pm" and o: "\<forall>m \<in> set pm. overlaps s m" and s: "seg_offset s < seg_end s"
  shows "trim_edge_mappings pm s = Some (map (clip s) pm)"
proof (cases pm rule: rev_cases)
  case Nil
  then show ?thesis by (simp add: trim_edge_mappings_def)
next
  case (snoc ys z)
  define front where "front m = (if seg_offset m < seg_offset s then cut_front (seg_offset s) m else m)" for m
  have wf: "wf_map m" "overlaps s m" if "m \<in> set pm" for m using ok o that by (auto simp: segs_ok_def)
  have fw: "(if seg_offset m < seg_offset s then forward_offset_to (seg_offset s) m else Some m) = Some (front m)" if "m \<in> set pm" for m
    using forward_offset_to_eq [OF wf(1) [OF that]] wf(2) [OF that] by (auto simp: front_def overlaps_def)
  have front: "wf_map (front m)" "seg_end (front m) = seg_end m" "seg_offset (front m) < seg_end s" if "m \<in> set pm" for m
    using wf [OF that] cut_front_laws [OF wf(1) [OF that]] s by (auto simp: front_def overlaps_def)
  have bw: "(if seg_end (front m) > seg_end s then backward_end_to (seg_end s) (front m) else Some (front m)) = Some (clip s m)"
    if "m \<in> set pm" for m
    using backward_end_to_eq [OF front(1,3) [OF that]] by (simp add: clip_def front_def [symmetric])
  show ?thesis
  proof (cases ys)
    case Nil
    then have z: "pm = [z]" "z \<in> set pm" using snoc by simp_all
    show ?thesis unfolding trim_edge_mappings_def z(1) list.sel(1) fw [OF z(2)] bind.bind_lunit list.sel(3) Let_def last.simps
      by (simp only: bw [OF z(2)] simp_thms if_True if_False list.distinct) simp
  next
    case (Cons x xs)
    have pm: "pm = x # xs @ [z]" "x \<in> set pm" "z \<in> set pm" using snoc Cons by simp_all
    have z: "z = front z" using ok wf(1) [of x] wf(2) [of x] snoc Cons
      by (auto simp: front_def segs_ok_append seg_less_def overlaps_def)
    have x: "clip s x = front x" using ok snoc Cons wf(2) [of z] front(2) [of x]
      by (auto simp: clip_def front_def [symmetric] segs_ok_append seg_less_def overlaps_def)
    have xs: "clip s m = m" if "m \<in> set xs" for m
      using ok wf(2) [of x] wf(2) [of z] snoc Cons that by (auto simp: clip_def segs_ok_append seg_less_def overlaps_def)
    have "trim_edge_mappings pm s = do { back \<leftarrow> (if seg_end z > seg_end s then backward_end_to (seg_end s) z else Some z); Some (front x # xs @ [back]) }"
      unfolding trim_edge_mappings_def pm(1) list.sel fw [OF pm(2)] by (simp add: Let_def)
    also have "(if seg_end z > seg_end s then backward_end_to (seg_end s) z else Some z) = Some (clip s z)"
      using bw [OF pm(3)] unfolding z [symmetric] .
    finally show ?thesis using x xs by (simp add: pm(1) map_idI)
  qed
qed


text \<open>
  What a lookup of the segment \<open>s\<close> in an index for the blocks \<open>D\<close> has to return in an array of size
  \<open>n\<close>: mappings inside of \<open>s\<close> in ascending order for exactly those blocks of \<open>s\<close> that are mapped, or,
  when the array is full, for those up to the end of the last one.
\<close>

definition inside :: "'a Segment_scheme \<Rightarrow> SegmentMapping \<Rightarrow> bool" where
  "inside s m \<longleftrightarrow> seg_offset s \<le> seg_offset m \<and> seg_end m \<le> seg_end s"

definition lookup_ok :: "(nat \<Rightarrow> (nat \<times> nat option) option) \<Rightarrow> Segment \<Rightarrow> nat \<Rightarrow> SegmentMapping list \<Rightarrow> bool" where
  "lookup_ok D s n r \<longleftrightarrow> segs_ok r \<and> length r \<le> n \<and> (\<forall>m \<in> set r. inside s m) \<and>
     (\<forall>b. denote r b = (if covers s b \<and> (length r = n \<longrightarrow> b < seg_end (last r)) then D b else None))"

lemma segs_ok_last:
  assumes "segs_ok (xs @ ys)" "xs \<noteq> []" "b < seg_end (last xs)"
  shows "denote (xs @ ys) b = denote xs b"
proof -
  have "\<forall>y \<in> set ys. b < seg_offset y" 
  proof
    fix y assume "y \<in> set ys"
    then have "seg_less (last xs) y" using assms(1) last_in_set [OF assms(2)] by (simp add: segs_ok_append)
    then show "b < seg_offset y" using assms(3) by (simp add: seg_less_def)
  qed
  then show ?thesis by (simp add: denote_append split: option.split)
qed

lemma segs_ok_ends: "segs_ok xs \<Longrightarrow> m \<in> set xs \<Longrightarrow> seg_end m \<le> seg_end (last xs)"
proof (induction xs rule: rev_induct)
  case (snoc x xs)
  then show ?case by (auto simp: segs_ok_append seg_less_def seg_end_def dest: wf_mapD(2) intro: trans_le_add1)
qed simp

text \<open>
  The common end of all lookups: mappings that overlap \<open>s\<close> and have the right blocks are trimmed.
\<close>

lemma trim_lookup:
  assumes ok: "segs_ok R" and ov: "\<forall>m \<in> set R. overlaps s m" and s: "0 < seg_length s" and n: "length R \<le> n" "0 < n"
    and D: "\<And>x. covers s x \<Longrightarrow> (length R = n \<longrightarrow> x < seg_end (last R)) \<Longrightarrow> denote R x = D x"
  shows "\<exists>r. trim_edge_mappings R s = Some r \<and> lookup_ok D s n r"
proof -
  have se: "seg_offset s < seg_end s" using s by (simp add: seg_end_def)
  have wR: "\<forall>m \<in> set R. wf_map m \<and> overlaps s m" using ok ov by (auto simp: segs_ok_def)
  let ?r = "map (clip s) R"
  have "denote ?r x = (if covers s x \<and> (length ?r = n \<longrightarrow> x < seg_end (last ?r)) then D x else None)" for x
  proof (cases "covers s x \<and> length R = n")
    case True
    then have ne: "R \<noteq> []" using n(2) by auto
    have last: "x < seg_end (last ?r) \<longleftrightarrow> x < seg_end (last R)"
      using True clip_laws(3) [of "last R" s] wR se last_in_set [OF ne] unfolding last_map [OF ne] by (auto simp: covers_def)
    have "denote R x = None" if "\<not> x < seg_end (last R)"
      using that segs_ok_ends [OF ok] by (intro denote_below) force
    then show ?thesis using True last D [of x] denote_clip [OF wR se, of x] by auto
  next
    case False
    then show ?thesis using D [of x] denote_clip [OF wR se, of x] by auto
  qed
  moreover have "\<forall>m \<in> set ?r. inside s m" using wR se by (auto simp: inside_def clip_laws(2,3))
  ultimately have "lookup_ok D s n ?r" using segs_ok_clip [OF ok ov se] n(1) unfolding lookup_ok_def by simp
  then show ?thesis using trim_edge_mappings_eq [OF ok ov se] by simp
qed

lemma overlapping_lookup:
  assumes ok: "segs_ok ms" and n: "0 < n" and s: "0 < seg_length s"
  shows "\<exists>r. trim_edge_mappings (copy_n (dropWhile (\<lambda>e. seg_less e s) ms) (seg_end s) n 0) s = Some r \<and> lookup_ok (denote ms) s n r"
proof -
  from overlapping_split [OF ok, of s] obtain xs ys where
    ms: "ms = xs @ overlapping s ms @ ys" and xs: "\<forall>x \<in> set xs. seg_end x \<le> seg_offset s" and ys: "\<forall>y \<in> set ys. seg_end s \<le> seg_offset y"
    and o: "\<forall>m \<in> set (overlapping s ms). overlaps s m" .
  let ?W = "overlapping s ms" and ?pm = "take n (overlapping s ms)"
  have pmW: "?W = ?pm @ drop n ?W" by simp
  have W: "segs_ok (?pm @ drop n ?W)" using ok ms pmW by (metis segs_ok_append)
  have cov: "denote ms b = denote ?W b" if "covers s b" for b
  proof -
    have "denote xs b = None" "denote ys b = None" using xs ys that unfolding denote_None_iff covers_def by force+
    then show ?thesis by (subst ms) (simp add: denote_append split: option.split)
  qed
  have "\<exists>r. trim_edge_mappings ?pm s = Some r \<and> lookup_ok (denote ms) s n r"
  proof (rule trim_lookup)
    show "segs_ok ?pm" using W by (simp only: segs_ok_append)
    show "\<forall>m \<in> set ?pm. overlaps s m" using o by (meson in_set_takeD)
    show "denote ?pm x = denote ms x" if x: "covers s x" "length ?pm = n \<longrightarrow> x < seg_end (last ?pm)" for x
    proof (cases "length ?pm = n")
      case True
      then have "?pm \<noteq> []" using n by auto
      from segs_ok_last [OF W this, of x] show ?thesis using x True cov pmW by simp
    next
      case False
      then show ?thesis using cov [OF x(1)] by (auto simp: min_def split: if_splits)
    qed
  qed (use s n in auto)
  moreover have "copy_n (dropWhile (\<lambda>e. seg_less e s) ms) (seg_end s) n 0 = ?pm" using n by (simp add: copy_n_eq overlapping_def)
  ultimately show ?thesis by simp
qed

lemma lookup_ok_empty: "seg_length s = 0 \<Longrightarrow> 0 < n \<Longrightarrow> lookup_ok D s n []"
  by (auto simp: lookup_ok_def covers_def seg_end_def)

definition Index_ok :: "Index \<Rightarrow> bool" where
  "Index_ok ix = segs_ok (ix_map ix)"

definition Index0_ok :: "Index0 \<Rightarrow> bool" where
  "Index0_ok i \<longleftrightarrow> segs_ok (mapping i) \<and> m_alloc i = sum_list (map seg_blocks (mapping i))"

lemma Index_lookup_spec:
  assumes "Index_ok ix" "wf_seg s" "0 < n"
  shows "\<exists>r. Index_lookup ix s n = Some r \<and> lookup_ok (denote (ix_map ix)) s n r"
proof (cases "seg_length s = 0")
  case True
  then show ?thesis using lookup_ok_empty [OF True assms(3)] by (simp add: Index_lookup_def)
next
  case False
  then show ?thesis
    using overlapping_lookup [of "ix_map ix" n s] assms lower_bound_dropWhile [OF segs_ok_partition [of "ix_map ix" s]]
    by (simp add: Index_lookup_def Index_ok_def)
qed

lemma Index0_lookup_spec:
  assumes "segs_ok (mapping i)" "wf_seg s" "0 < n"
  shows "\<exists>r. Index0_lookup i s n = Some r \<and> lookup_ok (denote (mapping i)) s n r"
proof (cases "seg_length s = 0")
  case True
  then show ?thesis using lookup_ok_empty [OF True assms(3)] by (simp add: Index0_lookup_def)
next
  case False
  have "seg_offset s < 2 ^ 50" using assms(2) False by (auto simp: wf_seg_def seg_end_def)
  then have "seg_less e (new_SegmentMapping (seg_offset s) (seg_length s) 0 0) = seg_less e s" for e :: SegmentMapping
    by (simp add: seg_less_def new_SegmentMapping_def trunc_id)
  then show ?thesis
    using overlapping_lookup [of "mapping i" n s] assms False by (simp add: Index0_lookup_def)
qed


section \<open>Visiting the segments of a range\<close>

text \<open>
  \<open>foreach_segments\<close> calls \<open>cb_zero\<close> or \<open>cb_data\<close>; the two callbacks are one function here, that
  changes a state \<open>'s\<close> and returns a number. \<open>call\<close> is a call whose negative result ends the iteration.
\<close>

datatype visit = Zero Segment | Data SegmentMapping

definition call :: "(visit \<Rightarrow> 's \<Rightarrow> int \<times> 's) \<Rightarrow> visit \<Rightarrow> 's \<Rightarrow> (int \<times> 's) + 's" where
  "call cb v st = (case cb v st of (ret, st) \<Rightarrow> if ret < 0 then Inl (ret, st) else Inr st)"

definition seg_of :: "SegmentMapping \<Rightarrow> Segment" where
  "seg_of m = \<lparr>seg_offset = seg_offset m, seg_length = seg_length m\<rparr>"

definition visit_of :: "SegmentMapping \<Rightarrow> visit" where
  "visit_of m = (if zeroed m then Zero (seg_of m) else Data m)"

fun visit_loop :: "(visit \<Rightarrow> 's \<Rightarrow> int \<times> 's) \<Rightarrow> SegmentMapping list \<Rightarrow> Segment \<Rightarrow> 's \<Rightarrow> ((int \<times> 's) + Segment \<times> 's) option" where
  "visit_loop cb [] s st = Some (Inr (s, st))"
| "visit_loop cb (m # ms) s st =
     (case (if seg_offset s < seg_offset m
            then call cb (Zero \<lparr>seg_offset = seg_offset s, seg_length = trunc 14 (trunc 32 (seg_offset m - seg_offset s))\<rparr>) st
            else Inr st) of
        Inl ret \<Rightarrow> Some (Inl ret)
      | Inr st \<Rightarrow>
          (case call cb (visit_of m) st of
             Inl ret \<Rightarrow> Some (Inl ret)
           | Inr st \<Rightarrow> do {
               (_, s) \<leftarrow> Segment_forward_offset_to (seg_end m) s;
               visit_loop cb ms s st
             }))"

definition NMAPPING :: nat where
  "NMAPPING = 16"

partial_function (option) foreach_loop ::
    "(Segment \<Rightarrow> nat \<Rightarrow> SegmentMapping list option) \<Rightarrow> (visit \<Rightarrow> 's \<Rightarrow> int \<times> 's) \<Rightarrow> Segment \<Rightarrow> 's \<Rightarrow> ((int \<times> 's) + Segment \<times> 's) option" where
  "foreach_loop lookup cb s st = do {
     ms \<leftarrow> lookup s NMAPPING;
     r \<leftarrow> visit_loop cb ms s st;
     case r of
       Inl ret \<Rightarrow> Some (Inl ret)
     | Inr (s, st) \<Rightarrow> if length ms < NMAPPING then Some (Inr (s, st)) else foreach_loop lookup cb s st
   }"

definition foreach_segments ::
    "(Segment \<Rightarrow> nat \<Rightarrow> SegmentMapping list option) \<Rightarrow> (visit \<Rightarrow> 's \<Rightarrow> int \<times> 's) \<Rightarrow> Segment \<Rightarrow> 's \<Rightarrow> (int \<times> 's) option" where
  "foreach_segments lookup cb s st = do {
     r \<leftarrow> foreach_loop lookup cb s st;
     case r of
       Inl ret \<Rightarrow> Some ret
     | Inr (s, st) \<Rightarrow> Some (0, if seg_length s > 0 then snd (cb (Zero s) st) else st)
   }"

text \<open>
  The specification: a trace of visits that covers the blocks from \<open>a\<close> to \<open>e\<close> exactly once and in
  order, with the data of every block at its place.
\<close>

fun trace_ok :: "(nat \<Rightarrow> (nat \<times> nat option) option) \<Rightarrow> nat \<Rightarrow> nat \<Rightarrow> visit list \<Rightarrow> bool" where
  "trace_ok D a e [] \<longleftrightarrow> a = e"
| "trace_ok D a e (Zero s # vs) \<longleftrightarrow> seg_offset s = a \<and> 0 < seg_length s \<and>
     (\<forall>b \<in> {a..<seg_end s}. D b = None \<or> (\<exists>t. D b = Some (t, None))) \<and> trace_ok D (seg_end s) e vs"
| "trace_ok D a e (Data m # vs) \<longleftrightarrow> seg_offset m = a \<and> 0 < seg_length m \<and>
     (\<forall>b \<in> {a..<seg_end m}. D b = Some (tag m, Some (moffset m + (b - a)))) \<and> trace_ok D (seg_end m) e vs"

fun run_visits :: "(visit \<Rightarrow> 's \<Rightarrow> int \<times> 's) \<Rightarrow> visit list \<Rightarrow> 's \<Rightarrow> (int \<times> 's) + 's" where
  "run_visits cb [] st = Inr st"
| "run_visits cb (v # vs) st = (case call cb v st of Inl ret \<Rightarrow> Inl ret | Inr st \<Rightarrow> run_visits cb vs st)"

lemma run_visits_append:
  "run_visits cb (vs @ ws) st = (case run_visits cb vs st of Inl ret \<Rightarrow> Inl ret | Inr st \<Rightarrow> run_visits cb ws st)"
  by (induction vs arbitrary: st) (auto split: sum.split)

lemma trace_ok_append: "trace_ok D a x vs \<Longrightarrow> trace_ok D x e ws \<Longrightarrow> trace_ok D a e (vs @ ws)"
  by (induction D a x vs rule: trace_ok.induct) auto

fun visits :: "nat \<Rightarrow> SegmentMapping list \<Rightarrow> visit list" where
  "visits a [] = []"
| "visits a (m # ms) = (if a < seg_offset m then [Zero \<lparr>seg_offset = a, seg_length = seg_offset m - a\<rparr>] else []) @ visit_of m # visits (seg_end m) ms"

text \<open>The range that is left after the mappings \<open>ms\<close>.\<close>

definition rest_of :: "Segment \<Rightarrow> SegmentMapping list \<Rightarrow> Segment" where
  "rest_of s ms = (if ms = [] then s else \<lparr>seg_offset = seg_end (last ms), seg_length = seg_end s - seg_end (last ms)\<rparr>)"

lemma Segment_forward_eq:
  fixes s :: Segment
  assumes "wf_seg s" "seg_offset s \<le> x" "x \<le> seg_end s"
  shows "Segment_forward_offset_to x s = Some (x - seg_offset s, \<lparr>seg_offset = x, seg_length = seg_end s - x\<rparr>)"
proof -
  have l: "seg_length s < 2 ^ 14" "x < 2 ^ 50" "seg_length s < 2 ^ 64" using assms by (auto simp: wf_seg_def MAX_LENGTH_def)
  have le: "x - seg_offset s \<le> seg_length s" "seg_length s - (x - seg_offset s) = seg_end s - x" using assms by (simp_all add: seg_end_def)
  have "seg_end s - x < 2 ^ 14" using l(1) le(2) by linarith
  moreover have "sub64 (seg_length s) (x - seg_offset s) = seg_end s - x" using sub64_eq [OF le(1) l(3)] le(2) by simp
  ultimately have "trunc 14 (sub64 (seg_length s) (x - seg_offset s)) = seg_end s - x" by (simp only: trunc_id)
  then show ?thesis
    using assms(2) trunc_id [OF l(2)] by (cases s) (simp add: Segment_forward_offset_to_def)
qed

lemma visit_loop_eq:
  assumes "wf_seg s" "segs_ok ms" "\<forall>m \<in> set ms. inside s m"
  shows "visit_loop cb ms s st = Some (case run_visits cb (visits (seg_offset s) ms) st of Inl ret \<Rightarrow> Inl ret | Inr st \<Rightarrow> Inr (rest_of s ms, st))"
  using assms
proof (induction ms arbitrary: s st)
  case Nil
  then show ?case by (simp add: rest_of_def)
next
  case (Cons m ms)
  let ?s = "\<lparr>seg_offset = seg_end m, seg_length = seg_end s - seg_end m\<rparr>"
  have m: "seg_offset s \<le> seg_end m" "seg_end m \<le> seg_end s" "seg_offset m \<le> seg_end s" "seg_offset s \<le> seg_offset m"
    using Cons.prems by (auto simp: inside_def seg_end_def)
  have e: "seg_end ?s = seg_end s" using m by (simp add: seg_end_def)
  have l: "seg_offset m - seg_offset s < 2 ^ 14" using Cons.prems(1) m by (auto simp: wf_seg_def MAX_LENGTH_def seg_end_def)
  then have "seg_offset m - seg_offset s < 2 ^ 32" by simp
  with l have tr: "trunc 14 (trunc 32 (seg_offset m - seg_offset s)) = seg_offset m - seg_offset s" by (simp only: trunc_id)
  have "wf_seg ?s" using Cons.prems(1) m e by (auto simp: wf_seg_def seg_end_def)
  moreover have "\<forall>x \<in> set ms. inside ?s x" using Cons.prems e by (auto simp: inside_def seg_less_def)
  ultimately have IH: "visit_loop cb ms ?s st = Some (case run_visits cb (visits (seg_end m) ms) st of Inl ret \<Rightarrow> Inl ret | Inr st \<Rightarrow> Inr (rest_of ?s ms, st))" for st
    using Cons.IH [of ?s st] Cons.prems(2) by simp
  have r: "rest_of s (m # ms) = rest_of ?s ms" using e by (simp add: rest_of_def)
  show ?case
    unfolding visit_loop.simps visits.simps tr Segment_forward_eq [OF Cons.prems(1) m(1,2)] r
    by (auto simp: IH split: sum.split)
qed

lemma trace_visit_of:
  assumes "wf_map m" "\<forall>b. seg_offset m \<le> b \<and> b < seg_end m \<longrightarrow> D b = Some (target m b)" "trace_ok D (seg_end m) e vs"
  shows "trace_ok D (seg_offset m) e (visit_of m # vs)"
  using assms wf_mapD(1) [OF assms(1)] by (auto simp: visit_of_def seg_of_def target_def seg_end_def)

lemma visits_trace:
  assumes "segs_ok ms" "\<forall>m \<in> set ms. a \<le> seg_offset m" "ms \<noteq> []" "\<forall>b. a \<le> b \<and> b < seg_end (last ms) \<longrightarrow> D b = denote ms b"
  shows "trace_ok D a (seg_end (last ms)) (visits a ms)"
  using assms
proof (induction ms arbitrary: a)
  case (Cons m ms)
  let ?e = "seg_end (last (m # ms))"
  have m: "wf_map m" "seg_end m \<le> ?e" using Cons.prems(1) segs_ok_ends [OF Cons.prems(1), of m] by auto
  have lt: "seg_offset m < seg_end m" using wf_mapD(2) [OF m(1)] .
  have "trace_ok D (seg_end m) ?e (visits (seg_end m) ms)"
  proof (cases "ms = []")
    case False
    have "D b = denote ms b" if "seg_end m \<le> b \<and> b < seg_end (last ms)" for b
      using that Cons.prems(2,4) False lt by (auto simp: covers_def)
    then show ?thesis using Cons.IH [of "seg_end m"] Cons.prems(1) False by (auto simp: seg_less_def)
  qed simp
  moreover have "\<forall>b. seg_offset m \<le> b \<and> b < seg_end m \<longrightarrow> D b = Some (target m b)"
    using Cons.prems(2,4) m(2) by (auto simp: covers_def)
  ultimately have tr: "trace_ok D (seg_offset m) ?e (visit_of m # visits (seg_end m) ms)"
    using m(1) by (intro trace_visit_of)
  have "D b = None" if "a \<le> b" "b < seg_offset m" for b
  proof -
    have "denote (m # ms) b = None"
      using that Cons.prems(1) wf_mapD(2) [OF m(1)] by (intro denote_above) (auto simp: seg_less_def)
    then show ?thesis using Cons.prems(4) that m(2) lt by (metis order_less_le_trans order_less_trans)
  qed
  then show ?case using tr Cons.prems(2) by (auto simp: seg_end_def)
qed simp

text \<open>
  The interface of an index: the lookup of every segment in an index that satisfies its invariant
  terminates with the right mappings.
\<close>

locale memory_index =
  fixes lookup :: "'i \<Rightarrow> Segment \<Rightarrow> nat \<Rightarrow> SegmentMapping list option"
    and inv :: "'i \<Rightarrow> bool"
    and blocks :: "'i \<Rightarrow> nat \<Rightarrow> (nat \<times> nat option) option"
  assumes lookup_spec: "inv i \<Longrightarrow> wf_seg s \<Longrightarrow> 0 < n \<Longrightarrow> \<exists>r. lookup i s n = Some r \<and> lookup_ok (blocks i) s n r"
begin

lemma lookup_round:
  assumes "inv i" "wf_seg s"
  obtains r where "lookup i s NMAPPING = Some r" "lookup_ok (blocks i) s NMAPPING r" "wf_seg (rest_of s r)"
    "seg_end (rest_of s r) = seg_end s" "seg_offset s \<le> seg_offset (rest_of s r)"
    "trace_ok (blocks i) (seg_offset s) (seg_offset (rest_of s r)) (visits (seg_offset s) r)"
proof -
  from lookup_spec [OF assms, of NMAPPING] obtain r where r: "lookup i s NMAPPING = Some r" "lookup_ok (blocks i) s NMAPPING r"
    by (auto simp: NMAPPING_def)
  have ok: "segs_ok r" "\<forall>m \<in> set r. inside s m"
    and D: "\<And>b. denote r b = (if covers s b \<and> (length r = NMAPPING \<longrightarrow> b < seg_end (last r)) then blocks i b else None)"
    using r(2) by (simp_all add: lookup_ok_def)
  have last: "inside s (last r)" "wf_map (last r)" if "r \<noteq> []" using ok that by (auto simp: segs_ok_def)
  have e: "seg_end (rest_of s r) = seg_end s" "seg_offset s \<le> seg_offset (rest_of s r)"
    using last wf_mapD(2) [of "last r"] by (auto simp: rest_of_def inside_def seg_end_def)
  have "wf_seg (rest_of s r)" using assms(2) e by (auto simp: wf_seg_def seg_end_def)
  moreover have "trace_ok (blocks i) (seg_offset s) (seg_offset (rest_of s r)) (visits (seg_offset s) r)"
  proof (cases "r = []")
    case False
    have "blocks i b = denote r b" if "seg_offset s \<le> b \<and> b < seg_end (last r)" for b
      using D [of b] that last [OF False] by (auto simp: covers_def inside_def)
    then show ?thesis using visits_trace [OF ok(1), of "seg_offset s" "blocks i"] ok(2) False by (auto simp: rest_of_def inside_def)
  qed (simp add: rest_of_def)
  ultimately show ?thesis using that r e by blast
qed

lemma foreach_loop_spec:
  assumes "inv i" "wf_seg s"
  shows "\<exists>vs s'. (\<forall>cb (st :: 's). foreach_loop (lookup i) cb s st =
      Some (case run_visits cb vs st of Inl ret \<Rightarrow> Inl ret | Inr st \<Rightarrow> Inr (s', st))) \<and>
    trace_ok (blocks i) (seg_offset s) (seg_offset s') vs \<and> seg_end s' = seg_end s \<and>
    (\<forall>b. covers s' b \<longrightarrow> blocks i b = None)"
  using assms(2)
proof (induction "seg_length s" arbitrary: s rule: less_induct)
  case less
  from lookup_round [OF assms(1) less.prems] obtain r where
    r: "lookup i s NMAPPING = Some r" "lookup_ok (blocks i) s NMAPPING r" "wf_seg (rest_of s r)" "seg_end (rest_of s r) = seg_end s"
      "seg_offset s \<le> seg_offset (rest_of s r)" "trace_ok (blocks i) (seg_offset s) (seg_offset (rest_of s r)) (visits (seg_offset s) r)" .
  have ok: "segs_ok r" "\<forall>m \<in> set r. inside s m" "length r \<le> NMAPPING" using r(2) by (simp_all add: lookup_ok_def)
  let ?s = "rest_of s r"
  have unfold: "foreach_loop (lookup i) cb s st = (case run_visits cb (visits (seg_offset s) r) st of Inl ret \<Rightarrow> Some (Inl ret)
      | Inr st \<Rightarrow> if length r < NMAPPING then Some (Inr (?s, st)) else foreach_loop (lookup i) cb ?s st)" for cb and st :: 's
    by (subst foreach_loop.simps) (simp add: r(1) visit_loop_eq [OF less.prems ok(1,2)] split: sum.split)
  show ?case
  proof (cases "length r < NMAPPING")
    case True
    have "blocks i b = None" if "covers ?s b" for b
    proof -
      have "seg_end m \<le> b" if "m \<in> set r" for m
        using that segs_ok_ends [OF ok(1) that] \<open>covers ?s b\<close> by (auto simp: covers_def rest_of_def split: if_splits)
      then have "denote r b = None" by simp
      then show ?thesis using r(2,4,5) that True by (auto simp: lookup_ok_def covers_def)
    qed
    then show ?thesis using unfold True r(4,6) by (intro exI [of _ "visits (seg_offset s) r"] exI [of _ ?s]) (auto split: sum.split)
  next
    case False
    then have ne: "r \<noteq> []" by (auto simp: NMAPPING_def)
    then have "seg_offset (last r) < seg_end (last r)" "inside s (last r)" using ok wf_mapD(2) by (auto simp: segs_ok_def)
    then have "seg_length ?s < seg_length s" using ne by (auto simp: rest_of_def inside_def seg_end_def)
    from less.hyps [OF this r(3)] obtain vs s' where
      IH: "\<forall>cb (st :: 's). foreach_loop (lookup i) cb ?s st = Some (case run_visits cb vs st of Inl ret \<Rightarrow> Inl ret | Inr st \<Rightarrow> Inr (s', st))"
        "trace_ok (blocks i) (seg_offset ?s) (seg_offset s') vs" "seg_end s' = seg_end ?s" "\<forall>b. covers s' b \<longrightarrow> blocks i b = None" by blast
    have "foreach_loop (lookup i) cb s st = Some (case run_visits cb (visits (seg_offset s) r @ vs) st of Inl ret \<Rightarrow> Inl ret | Inr st \<Rightarrow> Inr (s', st))"
      for cb and st :: 's using unfold False IH(1) by (simp add: run_visits_append split: sum.split)
    then show ?thesis using trace_ok_append [OF r(6) IH(2)] IH(3,4) r(4) by fastforce
  qed
qed

lemma foreach_segments_spec:
  assumes "inv i" "wf_seg s"
  shows "\<exists>vs tl. trace_ok (blocks i) (seg_offset s) (seg_end s) (vs @ tl) \<and> (tl = [] \<or> (\<exists>z. tl = [Zero z])) \<and>
    (\<forall>cb (st :: 's). foreach_segments (lookup i) cb s st =
      Some (case run_visits cb vs st of Inl ret \<Rightarrow> ret | Inr st \<Rightarrow> (0, fold (\<lambda>v st. snd (cb v st)) tl st)))"
proof -
  from foreach_loop_spec [OF assms, where 's = 's] obtain vs s' where
    l: "\<forall>cb (st :: 's). foreach_loop (lookup i) cb s st = Some (case run_visits cb vs st of Inl ret \<Rightarrow> Inl ret | Inr st \<Rightarrow> Inr (s', st))"
      "trace_ok (blocks i) (seg_offset s) (seg_offset s') vs" "seg_end s' = seg_end s" "\<forall>b. covers s' b \<longrightarrow> blocks i b = None" by blast
  define tl where "tl = (if seg_length s' > 0 then [Zero s'] else [])"
  have "trace_ok (blocks i) (seg_offset s') (seg_end s) tl"
    using l(3,4) by (auto simp: tl_def covers_def seg_end_def)
  moreover have "foreach_segments (lookup i) cb s st = Some (case run_visits cb vs st of Inl ret \<Rightarrow> ret | Inr st \<Rightarrow> (0, fold (\<lambda>v st. snd (cb v st)) tl st))"
    for cb and st :: 's using l(1) by (auto simp: foreach_segments_def tl_def split: sum.split)
  ultimately show ?thesis using trace_ok_append [OF l(2)] by (intro exI [of _ vs] exI [of _ tl]) (auto simp: tl_def)
qed

end

interpretation index: memory_index Index_lookup Index_ok "\<lambda>ix. denote (ix_map ix)"
  by unfold_locales (rule Index_lookup_spec)

interpretation index0: memory_index Index0_lookup Index0_ok "\<lambda>i. denote (mapping i)"
  by unfold_locales (simp add: Index0_lookup_spec Index0_ok_def)


section \<open>Insertion\<close>

definition apart :: "SegmentMapping \<Rightarrow> SegmentMapping \<Rightarrow> bool" where
  "apart m e \<longleftrightarrow> seg_less e m \<or> seg_less m e"

definition blocks_sum :: "SegmentMapping list \<Rightarrow> nat" where
  "blocks_sum ms = sum_list (map seg_blocks ms)"

lemma blocks_sum_simps [simp]:
  "blocks_sum [] = 0" "blocks_sum (m # ms) = seg_blocks m + blocks_sum ms" "blocks_sum (xs @ ys) = blocks_sum xs + blocks_sum ys"
  by (simp_all add: blocks_sum_def)

lemma blocks_sum_bound: "segs_ok ms \<Longrightarrow> ms \<noteq> [] \<Longrightarrow> blocks_sum ms \<le> seg_end (last ms)"
proof (induction ms rule: rev_induct)
  case (snoc m ms)
  have b: "seg_blocks m \<le> seg_length m" by (simp add: seg_blocks_def)
  show ?case
  proof (cases "ms = []")
    case False
    then have "seg_end (last ms) \<le> seg_offset m" using snoc.prems(1) by (auto simp: segs_ok_append seg_less_def)
    then show ?thesis using snoc False b by (simp add: segs_ok_append seg_end_def)
  qed (use b in \<open>simp add: seg_end_def\<close>)
qed simp

lemma blocks_sum_less: "segs_ok ms \<Longrightarrow> blocks_sum ms < 2 ^ 50"
  using blocks_sum_bound [of ms] wf_mapD(4) [of "last ms"] by (cases "ms = []") (auto simp: segs_ok_def intro: order_le_less_trans)

lemma usage_sub_eq: "a + seg_blocks m < 2 ^ 64 \<Longrightarrow> usage_sub m (a + seg_blocks m) = a"
  using sub64_eq [of "seg_length m" "a + seg_length m"] by (simp add: usage_sub_def seg_blocks_def split: if_splits)

lemma usage_add_eq: "a + seg_blocks m < 2 ^ 64 \<Longrightarrow> usage_add m a = a + seg_blocks m"
  by (simp add: usage_add_def seg_blocks_def trunc_id split: if_splits)

lemma set_insert_spec:
  assumes "segs_ok ms" "wf_map m" "\<forall>e \<in> set ms. apart m e"
  shows "segs_ok (set_insert m ms)" "denote (set_insert m ms) b = (if covers m b then Some (target m b) else denote ms b)"
    "blocks_sum (set_insert m ms) = blocks_sum ms + seg_blocks m"
proof -
  obtain xs ys where d: "takeWhile (\<lambda>e. seg_less e m) ms = xs" "dropWhile (\<lambda>e. seg_less e m) ms = ys" and ms: "ms = xs @ ys"
    by (metis takeWhile_dropWhile_id)
  have ok: "segs_ok xs" "segs_ok ys" "\<forall>x \<in> set xs. \<forall>y \<in> set ys. seg_less x y" using assms(1) unfolding ms by (simp_all add: segs_ok_append)
  have xs: "\<forall>x \<in> set xs. seg_less x m" using d(1) by (auto dest: set_takeWhileD)
  have ys: "\<forall>y \<in> set ys. seg_less m y"
  proof
    fix y assume y: "y \<in> set ys"
    then have "\<not> seg_less y m" using dropWhile_not [OF segs_ok_partition [OF assms(1), of m], of y] d(2) by simp
    moreover have "apart m y" using y assms(3) by (simp add: ms)
    ultimately show "seg_less m y" by (simp add: apart_def)
  qed
  have eq: "set_insert m ms = xs @ m # ys"
    unfolding set_insert_def d using ys by (cases ys) (simp_all add: ms)
  show "segs_ok (set_insert m ms)" unfolding eq using ok xs ys assms(2) by (simp add: segs_ok_append)
  have "denote xs b = None" if "covers m b"
    using xs that by (intro denote_below) (auto simp: seg_less_def covers_def)
  then show "denote (set_insert m ms) b = (if covers m b then Some (target m b) else denote ms b)"
    unfolding eq unfolding ms by (simp add: denote_append split: option.split)
  show "blocks_sum (set_insert m ms) = blocks_sum ms + seg_blocks m" unfolding eq unfolding ms by simp
qed

text \<open>
  Replacing an element of the list by parts of it, with the counter adjusted.
\<close>

lemma replace_part:
  assumes "segs_ok (l @ p # r)" "segs_ok ps" "\<forall>e \<in> set ps. seg_offset p \<le> seg_offset e \<and> seg_end e \<le> seg_end p"
  shows "segs_ok (l @ ps @ r)"
  using assms by (fastforce simp: segs_ok_append seg_less_def)

lemma usage_replace:
  assumes "segs_ok (l @ p # r)" "w \<le> 2 ^ 14" "blocks_sum ps \<le> seg_blocks p"
  shows "usage_sub p (blocks_sum (l @ p # r) + w) = blocks_sum (l @ r) + w"
    "ps = [x] \<Longrightarrow> usage_add x (blocks_sum (l @ r) + w) = blocks_sum (l @ ps @ r) + w"
    "ps = [x, y] \<Longrightarrow> usage_add y (usage_add x (blocks_sum (l @ r) + w)) = blocks_sum (l @ ps @ r) + w"
proof -
  have b: "blocks_sum (l @ r) + w + seg_blocks p < 2 ^ 64" using blocks_sum_less [OF assms(1)] assms(2) by simp
  show "usage_sub p (blocks_sum (l @ p # r) + w) = blocks_sum (l @ r) + w"
    using usage_sub_eq [OF b] by (simp add: add.commute add.left_commute)
  show "usage_add x (blocks_sum (l @ r) + w) = blocks_sum (l @ ps @ r) + w" if "ps = [x]"
    using usage_add_eq [of "blocks_sum (l @ r) + w" x] b assms(3) that by simp
  show "usage_add y (usage_add x (blocks_sum (l @ r) + w)) = blocks_sum (l @ ps @ r) + w" if "ps = [x, y]"
    using usage_add_eq [of "blocks_sum (l @ r) + w" x] usage_add_eq [of "blocks_sum (l @ r) + w + seg_blocks x" y] b assms(3) that by simp
qed

lemma remove_partial_overlap_spec:
  assumes ok: "segs_ok (l @ p # r)" and m: "wf_map m" and p: "seg_offset m < seg_end p" and w: "w \<le> 2 ^ 14"
  shows "\<exists>ps. remove_partial_overlap l p r (seg_offset m) (seg_length m) (blocks_sum (l @ p # r) + w) =
      Some (l @ ps, r, blocks_sum (l @ ps @ r) + w) \<and> segs_ok (l @ ps @ r) \<and> (\<forall>e \<in> set ps. apart m e) \<and>
      (\<forall>b. \<not> covers m b \<longrightarrow> denote ps b = denote [p] b)"
proof -
  have wp: "wf_map p" using ok by (simp add: segs_ok_append)
  have stop: "seg_offset m + seg_length m = seg_end m" "seg_offset m < seg_end m" using wf_mapD(2) [OF m] by (simp_all add: seg_end_def)
  note u = usage_replace(1) [OF ok w, of "[]", simplified]
  consider (left) "seg_offset p < seg_offset m" "seg_end p \<le> seg_end m" | (both) "seg_offset p < seg_offset m" "seg_end m < seg_end p"
    | (covered) "seg_offset m \<le> seg_offset p" "seg_offset p < seg_end m" "seg_end p \<le> seg_end m"
    | (right) "seg_offset m \<le> seg_offset p" "seg_offset p < seg_end m" "seg_end m < seg_end p" | (beyond) "seg_end m \<le> seg_offset p"
    using stop(2) by linarith
  then show ?thesis
  proof cases
    case left
    let ?ps = "[cut_back (seg_offset m) p]"
    have c: "seg_offset p < seg_offset m" "seg_offset m \<le> seg_end p" using left p by simp_all
    note cb = cut_back_laws [OF wp c]
    have "blocks_sum ?ps \<le> seg_blocks p" using cb(4,7) c by (auto simp: seg_blocks_def seg_end_def)
    from usage_replace(2) [OF ok w this refl] have
      "remove_partial_overlap l p r (seg_offset m) (seg_length m) (blocks_sum (l @ p # r) + w) = Some (l @ ?ps, r, blocks_sum (l @ ?ps @ r) + w)"
      using left p u backward_end_to_eq [OF wp c] by (simp add: remove_partial_overlap_def stop(1) Let_def)
    moreover have "segs_ok (l @ ?ps @ r)" using cb c by (intro replace_part [OF ok]) simp_all
    moreover have "\<forall>b. \<not> covers m b \<longrightarrow> denote ?ps b = denote [p] b"
      using denote_cut_back [OF wp c] left(2) by (auto simp: covers_def)
    ultimately show ?thesis using cb(3) by (intro exI [of _ ?ps]) (simp add: apart_def seg_less_def)
  next
    case both
    let ?ps = "[cut_back (seg_offset m) p, cut_front (seg_end m) p]"
    have c: "seg_offset p < seg_offset m" "seg_offset m \<le> seg_end p" "seg_offset p \<le> seg_end m" "seg_end m < seg_end p" using both p stop by simp_all
    note cb = cut_back_laws [OF wp c(1,2)] and cf = cut_front_laws [OF wp c(3,4)]
    have "blocks_sum ?ps \<le> seg_blocks p" using cb(4,7) cf(4,7) c stop(2) by (auto simp: seg_blocks_def seg_end_def)
    from usage_replace(3) [OF ok w this refl] have
      "remove_partial_overlap l p r (seg_offset m) (seg_length m) (blocks_sum (l @ p # r) + w) = Some (l @ ?ps, r, blocks_sum (l @ ?ps @ r) + w)"
      using both p u backward_end_to_eq [OF wp c(1,2)] forward_offset_to_eq [OF wp c(3,4)] by (simp add: remove_partial_overlap_def stop(1) Let_def)
    moreover have "segs_ok (l @ ?ps @ r)" using cb cf c stop(2) by (intro replace_part [OF ok]) (simp_all add: seg_less_def)
    moreover have "denote ?ps b = denote [p] b" if "\<not> covers m b" for b
      using denote_cut_back [OF wp c(1,2), of b] denote_cut [OF wp c(3,4), of b] that c by (auto simp: covers_def split: if_splits)
    ultimately show ?thesis using cb(3) cf(2) by (intro exI [of _ ?ps]) (simp add: apart_def seg_less_def)
  next
    case covered
    then have "remove_partial_overlap l p r (seg_offset m) (seg_length m) (blocks_sum (l @ p # r) + w) = Some (l @ [], r, blocks_sum (l @ [] @ r) + w)"
      using u by (simp add: remove_partial_overlap_def stop(1) Let_def)
    moreover have "segs_ok (l @ [] @ r)" by (intro replace_part [OF ok]) simp_all
    moreover have "\<forall>b. \<not> covers m b \<longrightarrow> denote [] b = denote [p] b" using covered by (auto simp: covers_def)
    ultimately show ?thesis by (intro exI [of _ "[]"]) simp
  next
    case right
    let ?ps = "[cut_front (seg_end m) p]"
    have c: "seg_offset p \<le> seg_end m" "seg_end m < seg_end p" using right by simp_all
    note cf = cut_front_laws [OF wp c]
    have "blocks_sum ?ps \<le> seg_blocks p" using cf(4,7) c by (auto simp: seg_blocks_def seg_end_def)
    from usage_replace(2) [OF ok w this refl] have
      "remove_partial_overlap l p r (seg_offset m) (seg_length m) (blocks_sum (l @ p # r) + w) = Some (l @ ?ps, r, blocks_sum (l @ ?ps @ r) + w)"
      using right u forward_offset_to_eq [OF wp c] by (simp add: remove_partial_overlap_def stop(1) Let_def)
    moreover have "segs_ok (l @ ?ps @ r)" using cf c by (intro replace_part [OF ok]) simp_all
    moreover have "\<forall>b. \<not> covers m b \<longrightarrow> denote ?ps b = denote [p] b"
      using denote_cut [OF wp c] right by (auto simp: covers_def)
    ultimately show ?thesis using cf(2) by (intro exI [of _ ?ps]) (simp add: apart_def seg_less_def)
  next
    case beyond
    then show ?thesis using ok stop by (intro exI [of _ "[p]"]) (simp add: remove_partial_overlap_def Let_def apart_def seg_less_def)
  qed
qed


lemma insert_loop_spec:
  assumes "segs_ok (l @ r)" "wf_map m" "\<forall>e \<in> set l. apart m e" "\<forall>e \<in> set r. seg_offset m < seg_offset e" "w \<le> 2 ^ 14"
  shows "\<exists>l' r'. insert_loop m l r (blocks_sum (l @ r) + w) = Some (l', r', blocks_sum (l' @ r') + w) \<and> segs_ok (l' @ r') \<and>
    (\<forall>e \<in> set (l' @ r'). apart m e) \<and> (\<forall>b. \<not> covers m b \<longrightarrow> denote (l' @ r') b = denote (l @ r) b)"
  using assms
proof (induction r)
  case Nil
  then show ?case by (intro exI [of _ l] exI [of _ "[]"]) simp
next
  case (Cons p nx)
  have nx: "seg_end p \<le> seg_offset e" if "e \<in> set nx" for e using Cons.prems(1) that by (simp add: segs_ok_append seg_less_def)
  have p: "seg_offset m < seg_end p" using Cons.prems(1,4) wf_mapD(2) [of p] by (auto simp: segs_ok_append)
  consider (middle) "seg_offset p < seg_end m" "seg_end p \<le> seg_end m" | (last) "seg_offset p < seg_end m" "seg_end m < seg_end p"
    | (after) "seg_end m \<le> seg_offset p" by linarith
  then show ?case
  proof cases
    case middle
    have ok: "segs_ok (l @ nx)" using Cons.prems(1) by (simp add: segs_ok_append)
    have "\<not> covers p b" if "\<not> covers m b" for b using that middle Cons.prems(4) by (auto simp: covers_def)
    then have "\<forall>b. \<not> covers m b \<longrightarrow> denote (l @ nx) b = denote (l @ p # nx) b" by (simp add: denote_append split: option.split)
    moreover have "insert_loop m l (p # nx) (blocks_sum (l @ p # nx) + w) = insert_loop m l nx (blocks_sum (l @ nx) + w)"
      using middle usage_replace(1) [OF Cons.prems(1,5), of "[]"] by simp
    ultimately show ?thesis using Cons.IH [OF ok Cons.prems(2,3)] Cons.prems(4,5) by fastforce
  next
    case last
    from remove_partial_overlap_spec [OF Cons.prems(1,2) p Cons.prems(5)] obtain ps where
      ps: "remove_partial_overlap l p nx (seg_offset m) (seg_length m) (blocks_sum (l @ p # nx) + w) = Some (l @ ps, nx, blocks_sum (l @ ps @ nx) + w)"
        "segs_ok (l @ ps @ nx)" "\<forall>e \<in> set ps. apart m e" "\<forall>b. \<not> covers m b \<longrightarrow> denote ps b = denote [p] b" by blast
    have "\<forall>b. \<not> covers m b \<longrightarrow> denote (l @ ps @ nx) b = denote (l @ [p] @ nx) b" using ps(4) denote_cong by blast
    moreover have "\<forall>e \<in> set nx. apart m e" using nx last by (auto simp: apart_def seg_less_def intro: less_imp_le order_trans)
    ultimately show ?thesis using ps last Cons.prems(3) by (intro exI [of _ "l @ ps"] exI [of _ nx]) auto
  next
    case after
    moreover have "\<forall>e \<in> set (p # nx). apart m e" using nx after Cons.prems(1) wf_mapD(2) [of p]
      by (auto simp: apart_def seg_less_def segs_ok_append intro: order_trans less_imp_le dest!: nx)
    ultimately show ?thesis using Cons.prems(1,3) by (intro exI [of _ l] exI [of _ "p # nx"]) auto
  qed
qed

lemma Index0_insert_spec:
  assumes inv: "Index0_ok i" and m: "wf_map m"
  shows "\<exists>i'. Index0_insert m i = Some i' \<and> Index0_ok i' \<and>
    (\<forall>b. denote (mapping i') b = (if covers m b then Some (target m b) else denote (mapping i) b))"
proof -
  let ?ms = "mapping i" and ?w = "seg_blocks m"
  let ?xs = "takeWhile (\<lambda>e. seg_less e m) ?ms"
  have ok: "segs_ok ?ms" and alloc: "m_alloc i = blocks_sum ?ms" using inv by (simp_all add: Index0_ok_def blocks_sum_def)
  have w: "?w \<le> 2 ^ 14" using wf_mapD(3) [OF m] by (simp add: seg_blocks_def)
  have len: "seg_length m \<noteq> 0" using wf_mapD(1) [OF m] by simp
  have add: "usage_add m (m_alloc i) = blocks_sum ?ms + ?w"
    using usage_add_eq [of "blocks_sum ?ms" m] blocks_sum_less [OF ok] w by (simp add: alloc)
  have xs: "\<forall>x \<in> set ?xs. seg_less x m" by (auto dest: set_takeWhileD)
  have fin: "Index0_ok \<lparr>mapping = set_insert m ms, m_alloc = blocks_sum ms + ?w\<rparr> \<and>
      (\<forall>b. denote (set_insert m ms) b = (if covers m b then Some (target m b) else denote ?ms b))"
    if "segs_ok ms" "\<forall>e \<in> set ms. apart m e" "\<forall>b. \<not> covers m b \<longrightarrow> denote ms b = denote ?ms b" for ms
    using set_insert_spec [OF that(1) m that(2)] that(3) by (simp add: Index0_ok_def blocks_sum_def)
  show ?thesis
  proof (cases "dropWhile (\<lambda>e. seg_less e m) ?ms")
    case Nil
    then have "\<forall>e \<in> set ?ms. apart m e" by (simp add: dropWhile_eq_Nil_conv apart_def)
    from fin [OF ok this] show ?thesis unfolding Index0_insert_def Nil add Let_def using len by simp
  next
    case (Cons p nx)
    have ms: "?ms = ?xs @ p # nx" using Cons by (metis takeWhile_dropWhile_id)
    have okp: "segs_ok (?xs @ p # nx)" using ok ms by simp
    have "p \<in> set (dropWhile (\<lambda>e. seg_less e m) ?ms)" using Cons by simp
    then have p: "seg_offset m < seg_end p"
      using dropWhile_not [OF segs_ok_partition [OF ok, of m], of p] by (simp add: seg_less_def)
    from remove_partial_overlap_spec [OF okp m p w] obtain ps where
      ps: "remove_partial_overlap ?xs p nx (seg_offset m) (seg_length m) (blocks_sum (?xs @ p # nx) + ?w) = Some (?xs @ ps, nx, blocks_sum (?xs @ ps @ nx) + ?w)"
        "segs_ok (?xs @ ps @ nx)" "\<forall>e \<in> set ps. apart m e" "\<forall>b. \<not> covers m b \<longrightarrow> denote ps b = denote [p] b" by blast
    have nx: "\<forall>e \<in> set nx. seg_offset m < seg_offset e"
      using okp p by (auto simp: segs_ok_append seg_less_def intro: order_less_le_trans)
    have "\<forall>e \<in> set (?xs @ ps). apart m e" using xs ps(3) by (auto simp: apart_def)
    from insert_loop_spec [of "?xs @ ps" nx m, OF _ m this nx w] ps(2) obtain l' r' where
      l: "insert_loop m (?xs @ ps) nx (blocks_sum (?xs @ ps @ nx) + ?w) = Some (l', r', blocks_sum (l' @ r') + ?w)" "segs_ok (l' @ r')"
        "\<forall>e \<in> set (l' @ r'). apart m e" "\<forall>b. \<not> covers m b \<longrightarrow> denote (l' @ r') b = denote (?xs @ ps @ nx) b" by auto
    have "denote (l' @ r') b = denote ?ms b" if "\<not> covers m b" for b
      using l(4) ps(4) that denote_cong [of ps b "[p]" ?xs nx] ms by simp
    moreover have "Index0_insert m i = Some \<lparr>mapping = set_insert m (l' @ r'), m_alloc = blocks_sum (l' @ r') + ?w\<rparr>"
    proof -
      have "nx = [] \<or> seg_offset m < seg_offset (hd nx)" using nx by (cases nx) simp_all
      then show ?thesis using len l(1) ps(1) unfolding Index0_insert_def add Let_def Cons ms [symmetric] by (auto simp: bug_on_bind)
    qed
    ultimately show ?thesis using fin [OF l(2,3)] by simp
  qed
qed


section \<open>Properties\<close>

lemma Index0_inserts_spec:
  assumes "Index0_ok i" "\<forall>m \<in> set ms. seg_length m = 0 \<or> wf_map m"
  shows "\<exists>i'. Index0_inserts ms i = Some i' \<and> Index0_ok i' \<and> (\<forall>b. denote (mapping i') b = denote (rev ms @ mapping i) b)"
  using assms
proof (induction ms arbitrary: i)
  case (Cons m ms)
  have "\<exists>i1. Index0_insert m i = Some i1 \<and> Index0_ok i1 \<and> (\<forall>b. denote (mapping i1) b = denote (m # mapping i) b)"
  proof (cases "seg_length m = 0")
    case True
    then show ?thesis using Cons.prems(1) by (simp add: Index0_insert_def covers_def seg_end_def)
  next
    case False
    then show ?thesis using Index0_insert_spec [of i m] Cons.prems by auto
  qed
  then obtain i1 where i1: "Index0_insert m i = Some i1" "Index0_ok i1" "\<forall>b. denote (mapping i1) b = denote (m # mapping i) b" by blast
  from Cons.IH [OF i1(2)] Cons.prems(2) obtain i2 where
    i2: "Index0_inserts ms i1 = Some i2" "Index0_ok i2" "\<forall>b. denote (mapping i2) b = denote (rev ms @ mapping i1) b" by auto
  have "denote (rev ms @ mapping i1) b = denote (rev ms @ m # mapping i) b" for b
    using i1(3) by (simp add: denote_append split: option.split)
  with i1(1) i2 show ?case by simp
qed simp

lemma fold_blocks: "a + blocks_sum ms < 2 ^ 64 \<Longrightarrow> fold (\<lambda>m a. trunc 64 (a + seg_blocks m)) ms a = a + blocks_sum ms"
  by (induction ms arbitrary: a) (simp_all add: trunc_id add.assoc)

text \<open>
  Property C11: the writable index is a log: after any sequence of insertions, starting from the empty
  index, a block maps to where the latest mapping that covers it says, whatever the overlaps were. The
  mappings in the index are sorted and disjoint, the number of allocated blocks is exact, and no
  assertion of the code fails.
\<close>

theorem index0_is_log:
  assumes "\<forall>m \<in> set ms. seg_length m = 0 \<or> wf_map m"
  shows "\<exists>i. new_Index0 ms = Some i \<and> segs_ok (mapping i) \<and> m_alloc i = sum_list (map seg_blocks (mapping i)) \<and>
    (\<forall>b. denote (mapping i) b = denote (rev ms) b)"
  using Index0_inserts_spec [of "\<lparr>mapping = [], m_alloc = 0\<rparr>" ms] assms by (simp add: new_Index0_def Index0_ok_def)

text \<open>
  Property C31: a lookup in a read-only index or in the writable one, for an array of any size, returns
  exactly the mapped blocks of the segment, trimmed to it and in order; when the array is too small, those
  up to the end of the last mapping returned. (\<open>lookup_ok\<close> says so for the function that maps blocks to
  their targets.)
\<close>

theorem index_lookup_exact:
  assumes "wf_seg s" "0 < n"
  shows "(segs_ok (ix_map ix) \<longrightarrow> (\<exists>r. Index_lookup ix s n = Some r \<and> lookup_ok (denote (ix_map ix)) s n r)) \<and>
    (Index0_ok i \<longrightarrow> (\<exists>r. Index0_lookup i s n = Some r \<and> lookup_ok (denote (mapping i)) s n r))"
  using index.lookup_spec index0.lookup_spec assms by (simp add: Index_ok_def)

text \<open>
  The read-only index made from a writable one has the same mappings, the same number of
  allocated blocks and gives the same answer to every lookup.
\<close>

theorem read_only_index_equiv:
  assumes "Index0_ok i" "wf_seg s"
  shows "ix_alloc_blk (make_read_only_index i) = m_alloc i \<and> Index_lookup (make_read_only_index i) s n = Index0_lookup i s n"
proof -
  have ok: "segs_ok (mapping i)" and alloc: "m_alloc i = blocks_sum (mapping i)" using assms(1) by (simp_all add: Index0_ok_def blocks_sum_def)
  have map: "ix_map (make_read_only_index i) = mapping i"
    by (simp add: make_read_only_index_def Index_assign_def get_alloc_blks_def)
  have "ix_alloc_blk (make_read_only_index i) = m_alloc i"
    using fold_blocks [of 0 "mapping i"] blocks_sum_less [OF ok] alloc
    by (simp add: make_read_only_index_def Index_assign_def get_alloc_blks_def new_Index_def)
  moreover have "Index_lookup (make_read_only_index i) s n = Index0_lookup i s n"
  proof (cases "seg_length s = 0")
    case False
    have "seg_less e (new_SegmentMapping (seg_offset s) (seg_length s) 0 0) = seg_less e s" for e :: SegmentMapping
      using assms(2) False by (simp add: seg_less_def new_SegmentMapping_def trunc_id wf_seg_def seg_end_def)
    then show ?thesis
      using lower_bound_dropWhile [OF segs_ok_partition [OF ok, of s]] False by (simp add: Index_lookup_def Index0_lookup_def map)
  qed (simp add: Index_lookup_def Index0_lookup_def)
  ultimately show ?thesis ..
qed

definition sample_maps :: "SegmentMapping list" where
  "sample_maps = [new_SegmentMapping 0 100 500 0, new_SegmentMapping 20 10 700 0, discard (new_SegmentMapping 25 50 0 0), new_SegmentMapping 90 20 800 0]"

lemma sample_maps_wf: "\<forall>m \<in> set sample_maps. wf_map m"
  by (simp add: sample_maps_def discard_def new_SegmentMapping_def wf_map_def wf_seg_def seg_end_def MAX_LENGTH_def trunc_def)

lemmas sample_eval = sample_maps_def discard_def new_SegmentMapping_def trunc_def sub64_def seg_end_def

theorem index0_is_log_witness:
  "\<exists>i. new_Index0 sample_maps = Some i \<and> segs_ok (mapping i) \<and>
     denote (mapping i) 22 = Some (0, Some 702) \<and> denote (mapping i) 30 = Some (0, None) \<and> denote (mapping i) 80 = Some (0, Some 580)"
proof -
  have "denote (rev sample_maps) 22 = Some (0, Some 702)" "denote (rev sample_maps) 30 = Some (0, None)"
    "denote (rev sample_maps) 80 = Some (0, Some 580)"
    by (simp_all add: sample_eval covers_def target_def)
  with index0_is_log [of sample_maps] sample_maps_wf show ?thesis by auto
qed

definition sample_index :: Index where
  "sample_index = new_Index_vector [new_SegmentMapping 0 20 500 0, new_SegmentMapping 30 50 520 0] 100"

theorem index_lookup_exact_witness:
  "\<exists>r. Index_lookup sample_index \<lparr>seg_offset = 10, seg_length = 30\<rparr> 4 = Some r \<and> denote r 35 = Some (0, Some 525) \<and> denote r 25 = None"
proof -
  have w: "wf_seg \<lparr>seg_offset = 10, seg_length = 30\<rparr>" by (simp add: wf_seg_def seg_end_def MAX_LENGTH_def)
  have ok: "segs_ok (ix_map sample_index)"
    by (simp add: sample_index_def new_Index_vector_def get_alloc_blks_def new_Index_def new_SegmentMapping_def wf_map_def wf_seg_def
        seg_end_def MAX_LENGTH_def trunc_def seg_less_def)
  have map: "ix_map sample_index = [new_SegmentMapping 0 20 500 0, new_SegmentMapping 30 50 520 0]"
    by (simp add: sample_index_def new_Index_vector_def get_alloc_blks_def new_Index_def)
  have "denote (ix_map sample_index) 35 = Some (0, Some 525)" "denote (ix_map sample_index) 25 = None"
    by (simp_all add: map sample_eval covers_def target_def)
  moreover have "Index_lookup sample_index \<lparr>seg_offset = 10, seg_length = 30\<rparr> 4 =
      Some [new_SegmentMapping 10 10 510 0, new_SegmentMapping 30 10 520 0]"
    by (simp add: Index_lookup_def map sample_eval lower_bound.simps seg_less_def trim_edge_mappings_def forward_offset_to_def
        Segment_forward_offset_to_def backward_end_to_def)
  ultimately show ?thesis
    using index_lookup_exact [OF w, of 4 sample_index undefined] ok by (auto simp: lookup_ok_def covers_def seg_end_def)
qed

theorem read_only_index_equiv_witness:
  "\<exists>i. new_Index0 sample_maps = Some i \<and> ix_alloc_blk (make_read_only_index i) = m_alloc i \<and>
     Index_lookup (make_read_only_index i) \<lparr>seg_offset = 10, seg_length = 30\<rparr> 4 = Index0_lookup i \<lparr>seg_offset = 10, seg_length = 30\<rparr> 4"
proof -
  have w: "wf_seg \<lparr>seg_offset = 10, seg_length = 30\<rparr>" by (simp add: wf_seg_def seg_end_def MAX_LENGTH_def)
  obtain i where "new_Index0 sample_maps = Some i" "Index0_ok i"
    using Index0_inserts_spec [of "\<lparr>mapping = [], m_alloc = 0\<rparr>" sample_maps] sample_maps_wf by (auto simp: new_Index0_def Index0_ok_def)
  with read_only_index_equiv [OF _ w] show ?thesis by blast
qed

end
