(* ===== verification/LSMT_Layers.thy ===== *)
theory LSMT_Layers
  imports LSMT_Index
begin

text \<open>
  Indexes that are made of others (\<open>overlaybd/lsmt/index.cpp\<close>): the two-level search of \<open>LevelIndex\<close>, the
  merge of the indexes of the layers of an image, the combination of a writable index with a read-only
  one, and the compression of an index before it is stored. The lookups of all of them are compared with
  the plain index of \<open>LSMT_Index\<close>, and the combined index implements the same interface.
\<close>

section \<open>The level index\<close>

record LevelIndex = Index +
  level_mapping :: "nat list list"

text \<open>
  \<open>PAGE_SIZE\<close> is 4096 bytes, a page of mappings has 256 elements and a page of offsets 512. The levels are
  appended after the recursive call, so that the smallest comes first.
\<close>

definition level_page :: "nat \<Rightarrow> nat" where
  "level_page depth = (if depth = 0 then 256 else 512)"

definition level_extent :: "nat \<Rightarrow> nat list \<Rightarrow> nat list" where
  "level_extent depth objs = map (\<lambda>p. objs ! (p * level_page depth)) [0..<(length objs - 1) div level_page depth + 1]"

function build_level_index :: "nat \<Rightarrow> nat list \<Rightarrow> nat list list" where
  "build_level_index depth objs =
     (if objs = [] then []
      else
        (if length (level_extent depth objs) > 512 then build_level_index (depth + 1) (level_extent depth objs) else [])
        @ [level_extent depth objs])"
  by pat_completeness auto
termination
proof (relation "measure (\<lambda>(depth, objs). length objs)")
  fix depth and objs :: "nat list"
  assume "objs \<noteq> []" "length (level_extent depth objs) > 512"
  then have l: "512 < (length objs - 1) div level_page depth + 1" by (simp add: level_extent_def)
  have "(length objs - 1) div level_page depth \<le> (length objs - 1) div 2"
    by (intro div_le_mono2) (simp_all add: level_page_def)
  with l show "((depth + 1, level_extent depth objs), (depth, objs)) \<in> measure (\<lambda>(depth, objs). length objs)"
    by (simp add: level_extent_def)
qed simp

declare build_level_index.simps [simp del]

definition new_LevelIndex :: "SegmentMapping list \<Rightarrow> LevelIndex" where
  "new_LevelIndex ms = \<lparr>ix_map = ms, ix_alloc_blk = 0, ix_vsize = 0, level_mapping = build_level_index 0 (map seg_offset ms)\<rparr>"

text \<open>
  The descent through the levels: \<open>n\<close> is the number of mappings, \<open>lower\<close> and \<open>upper\<close> bound the search in
  the next level. The shifts are done with \<open>int\<close>s, an overflow is undefined.
\<close>

fun level_search :: "nat list list \<Rightarrow> nat \<Rightarrow> nat \<Rightarrow> nat \<Rightarrow> nat \<Rightarrow> nat \<Rightarrow> (nat \<times> nat \<times> nat) option" where
  "level_search [] n offset lower upper page_offset = Some (lower, upper, page_offset)"
| "level_search (extent # levels) n offset lower upper page_offset =
     (let page_offset = lower_bound (\<lambda>x. x < offset) extent lower (upper - lower) in
      if page_offset = 0 then Some (lower, upper, page_offset)
      else do {
        let bottom = (levels = []);
        let lshift = (if bottom then 8 else 9 :: nat);
        let underlay_size = (if bottom then n else length (hd levels));
        bug_on (\<not> page_offset * 2 ^ lshift < 2 ^ 31);
        level_search levels n offset ((page_offset - 1) * 2 ^ lshift) (min (page_offset * 2 ^ lshift) underlay_size) page_offset
      })"

definition LevelIndex_lookup :: "LevelIndex \<Rightarrow> Segment \<Rightarrow> nat \<Rightarrow> SegmentMapping list option" where
  "LevelIndex_lookup ix s n =
     (if seg_length s = 0 \<or> level_mapping ix = [] then Some []
      else do {
        (lower, upper, page_offset) \<leftarrow>
          level_search (level_mapping ix) (length (ix_map ix)) (seg_offset s) 0 (length (hd (level_mapping ix))) 0;
        let lb = (if page_offset \<noteq> 0 then lower_bound (\<lambda>e. seg_less e s) (ix_map ix) lower (upper - lower) else 0);
        let pm = copy_n (drop lb (ix_map ix)) (seg_end s) n 0;
        trim_edge_mappings pm s
      })"

section \<open>Merging layers\<close>

text \<open>
  The loop over the mappings of the top layer, from \<open>begin\<close> to \<open>stop\<close>. The gaps before them are filled by
  \<open>sub\<close> from the layers below; \<open>retag\<close> is applied to the mappings of the top layer. The result are the
  mappings appended and the new value of \<open>begin\<close>.
\<close>

fun merge_loop :: "(nat \<Rightarrow> nat \<Rightarrow> SegmentMapping list option) \<Rightarrow> (SegmentMapping \<Rightarrow> SegmentMapping) \<Rightarrow> SegmentMapping list \<Rightarrow>
    nat \<Rightarrow> nat \<Rightarrow> (SegmentMapping list \<times> nat) option" where
  "merge_loop sub retag [] begin stop = Some ([], begin)"
| "merge_loop sub retag (m # ms) begin stop =
     (if seg_offset m < stop then do {
        gap \<leftarrow> (if seg_offset m > begin then sub begin (seg_offset m) else Some []);
        (r, b) \<leftarrow> merge_loop sub retag ms (seg_end m) stop;
        Some (gap @ retag m # r, b)
      } else Some ([], begin))"

definition merge_layer :: "(nat \<Rightarrow> nat \<Rightarrow> SegmentMapping list option) \<Rightarrow> (SegmentMapping \<Rightarrow> SegmentMapping) \<Rightarrow> Index \<Rightarrow>
    nat \<Rightarrow> nat \<Rightarrow> SegmentMapping list option" where
  "merge_layer sub retag pi0 begin stop =
     (if begin \<ge> stop then Some []
      else do {
        (r, b) \<leftarrow> merge_loop sub retag (Index_lower_bound pi0 begin) begin stop;
        rest \<leftarrow> (if b < stop then sub b stop else Some []);
        trim_edge_mappings (r @ rest) \<lparr>seg_offset = begin, seg_length = stop - begin\<rparr>
      })"

text \<open>\<open>merge_indexes\<close> with \<open>change_tag\<close>: one level for each of the indexes, the tag is the level.\<close>

fun merge_indexes :: "nat \<Rightarrow> Index list \<Rightarrow> nat \<Rightarrow> nat \<Rightarrow> SegmentMapping list option" where
  "merge_indexes level [] begin stop = Some []"
| "merge_indexes level (pi0 # pindexes) begin stop =
     merge_layer (\<lambda>b e. merge_indexes (trunc 8 (level + 1)) pindexes b e) (\<lambda>m. m\<lparr>tag := level\<rparr>) pi0 begin stop"

text \<open>
  \<open>merge_indexes\<close> without \<open>change_tag\<close>: the depth is bounded by \<open>max_level\<close>, and with \<open>n \<le> 1\<close> the same
  index is used again below.
\<close>

fun merge_indexes_keep :: "nat \<Rightarrow> Index list \<Rightarrow> nat \<Rightarrow> nat \<Rightarrow> nat \<Rightarrow> SegmentMapping list option" where
  "merge_indexes_keep 0 pindexes n begin stop = Some []"
| "merge_indexes_keep (Suc max_level) pindexes n begin stop =
     merge_layer (\<lambda>b e. merge_indexes_keep max_level (if n \<le> 1 then pindexes else tl pindexes) 0 b e) (\<lambda>m. m) (hd pindexes) begin stop"

definition UINT64_MAX :: nat where
  "UINT64_MAX = 2 ^ 64 - 1"

text \<open>The result \<open>Some None\<close> is the null pointer of an error.\<close>

definition merge_memory_indexes :: "Index list \<Rightarrow> Index option option" where
  "merge_memory_indexes pindexes =
     (if length pindexes > 255 then Some None
      else if pindexes = [] then Some None
      else do {
        ms \<leftarrow> merge_indexes 0 pindexes 0 UINT64_MAX;
        Some (Some (new_Index_vector ms (ix_vsize (hd pindexes))))
      })"

section \<open>The combined index\<close>

record ComboIndex = Index0 +
  m_backing_index :: "Index option"

definition new_ComboIndex :: "Index0 \<Rightarrow> Index option \<Rightarrow> nat \<Rightarrow> ComboIndex" where
  "new_ComboIndex index0 ix ro_layers_count =
     \<lparr>mapping = map (\<lambda>m. m\<lparr>tag := trunc 8 (tag m + ro_layers_count)\<rparr>) (mapping index0), m_alloc = 0, m_backing_index = ix\<rparr>"

definition create_combo_index :: "Index0 option \<Rightarrow> Index option \<Rightarrow> nat \<Rightarrow> ComboIndex option" where
  "create_combo_index index0 ix ro_index_count =
     (case (index0, ix) of (Some i0, Some i1) \<Rightarrow> Some (new_ComboIndex i0 (Some i1) (trunc 8 ro_index_count)) | _ \<Rightarrow> None)"

text \<open>The loop of the lookup: the mappings stored, the offset from which nothing is stored yet, the free places.\<close>

fun combo_loop :: "(Segment \<Rightarrow> nat \<Rightarrow> SegmentMapping list option) \<Rightarrow> SegmentMapping list \<Rightarrow> nat \<Rightarrow> nat \<Rightarrow> nat \<Rightarrow>
    (SegmentMapping list \<times> nat \<times> nat) option" where
  "combo_loop lookup [] soffset send n = Some ([], soffset, n)"
| "combo_loop lookup (m # ms) soffset send n =
     (if seg_offset m < send \<and> n \<noteq> 0 then do {
        m1 \<leftarrow> (if seg_offset m > soffset
               then lookup \<lparr>seg_offset = trunc 50 soffset, seg_length = trunc 14 (trunc 32 (seg_offset m - soffset))\<rparr> n
               else Some []);
        let n = n - length m1;
        if n = 0 then Some (m1, soffset, n)
        else do {
          (r, so, n) \<leftarrow> combo_loop lookup ms (seg_end m) send (n - 1);
          Some (m1 @ m # r, so, n)
        }
      } else Some ([], soffset, n))"

definition ComboIndex_lookup :: "ComboIndex \<Rightarrow> Segment \<Rightarrow> nat \<Rightarrow> SegmentMapping list option" where
  "ComboIndex_lookup c s n =
     (if seg_length s = 0 then Some []
      else case m_backing_index c of
        None \<Rightarrow> Index0_lookup (Index0.truncate c) s n
      | Some bi \<Rightarrow> do {
          let ss = new_SegmentMapping (seg_offset s) (seg_length s) 0 0;
          (r, soffset, n) \<leftarrow> combo_loop (Index_lookup bi) (dropWhile (\<lambda>e. seg_less e ss) (mapping c)) (seg_offset s) (seg_end s) n;
          m1 \<leftarrow> (if n \<noteq> 0 \<and> soffset < seg_end s
                 then Index_lookup bi \<lparr>seg_offset = trunc 50 soffset, seg_length = trunc 14 (trunc 32 (seg_end s - soffset))\<rparr> n
                 else Some []);
          trim_edge_mappings (r @ m1) s
        })"

definition ComboIndex_insert :: "SegmentMapping \<Rightarrow> ComboIndex \<Rightarrow> ComboIndex option" where
  "ComboIndex_insert m c = do {
     i \<leftarrow> Index0_insert m (Index0.truncate c);
     Some (c\<lparr>mapping := mapping i, m_alloc := m_alloc i\<rparr>)
   }"

text \<open>The setter of the backing index fails for an index without a buffer (\<open>bi\<close> is \<open>None\<close> then).\<close>

definition set_backing_index :: "Index option \<Rightarrow> ComboIndex \<Rightarrow> int \<times> ComboIndex" where
  "set_backing_index bi c = (case bi of None \<Rightarrow> (- 1, c) | Some ix \<Rightarrow> (0, c\<lparr>m_backing_index := Some ix\<rparr>))"

definition load_range_index :: "int \<Rightarrow> int \<Rightarrow> Index \<Rightarrow> Index option" where
  "load_range_index min_level max_level bi =
     (if min_level \<ge> max_level then None
      else
        let range_index = filter (\<lambda>m. int (tag m) \<ge> min_level \<and> int (tag m) < max_level) (ix_map bi) in
        if range_index = [] then None else Some (new_Index_vector range_index 0))"

definition rebuild_backing_index :: "Index \<Rightarrow> Index \<Rightarrow> nat \<Rightarrow> Index option" where
  "rebuild_backing_index highlevel_idx bi max_level = do {
     ms \<leftarrow> merge_indexes_keep max_level [highlevel_idx, bi] 2 0 UINT64_MAX;
     Some (new_Index_vector ms 0)
   }"

definition ComboIndex_make_read_only_index :: "ComboIndex \<Rightarrow> Index option" where
  "ComboIndex_make_read_only_index c =
     (let ro_idx0 = Index_assign (mapping c) (new_Index [] 0) in
      case m_backing_index c of
        None \<Rightarrow> Some ro_idx0
      | Some bi \<Rightarrow> do {
          ms \<leftarrow> merge_indexes_keep 2 [ro_idx0, bi] 2 0 UINT64_MAX;
          Some (new_Index_vector ms 0)
        })"

section \<open>Checks and compression\<close>

fun verify_mapping_order :: "SegmentMapping list \<Rightarrow> bool" where
  "verify_mapping_order (a # b # ms) = (seg_less a b \<and> verify_mapping_order (b # ms))"
| "verify_mapping_order _ = True"

definition within :: "nat \<Rightarrow> nat \<Rightarrow> nat \<Rightarrow> nat \<Rightarrow> bool \<Rightarrow> bool" where
  "within x y begin stop zero =
     (if zero then begin \<le> x \<and> x \<le> stop else begin \<le> x \<and> x < stop \<and> begin < y \<and> y \<le> stop)"

definition verify_mapping_moffset :: "SegmentMapping list \<Rightarrow> nat \<Rightarrow> nat \<Rightarrow> bool" where
  "verify_mapping_moffset ms moffset_begin moffset_end =
     list_all (\<lambda>m. within (moffset m) (mend m) moffset_begin moffset_end (zeroed m)) ms"

definition create_memory_index0 :: "SegmentMapping list \<Rightarrow> nat \<Rightarrow> nat \<Rightarrow> Index0 option option" where
  "create_memory_index0 ms moffset_begin moffset_end =
     (if verify_mapping_moffset ms moffset_begin moffset_end then do { i \<leftarrow> new_Index0 ms; Some (Some i) } else Some None)"

definition create_memory_index :: "SegmentMapping list \<Rightarrow> nat \<Rightarrow> nat \<Rightarrow> nat \<Rightarrow> Index option" where
  "create_memory_index ms moffset_begin moffset_end vsize =
     (if verify_mapping_order ms \<and> verify_mapping_moffset ms moffset_begin moffset_end then Some (new_Index ms vsize) else None)"

definition create_level_index :: "SegmentMapping list \<Rightarrow> nat \<Rightarrow> nat \<Rightarrow> LevelIndex option" where
  "create_level_index ms moffset_begin moffset_end =
     (if verify_mapping_order ms \<and> verify_mapping_moffset ms moffset_begin moffset_end then Some (new_LevelIndex ms) else None)"

text \<open>
  The compressed mappings are stored in front of those that are still read; \<open>cur\<close> is \<open>mapping[i]\<close>.
\<close>

definition mergeable :: "SegmentMapping \<Rightarrow> SegmentMapping \<Rightarrow> bool" where
  "mergeable a b \<longleftrightarrow> seg_end a = seg_offset b \<and> mend a = moffset b \<and> zeroed a = zeroed b \<and> tag a = tag b \<and>
     seg_length a + seg_length b < MAX_LENGTH"

fun compress_loop :: "SegmentMapping \<Rightarrow> SegmentMapping list \<Rightarrow> SegmentMapping list" where
  "compress_loop cur [] = [cur]"
| "compress_loop cur (m # ms) =
     (if mergeable cur m then compress_loop (cur\<lparr>seg_length := trunc 14 (seg_length cur + seg_length m)\<rparr>) ms
      else cur # compress_loop m ms)"

fun compress_raw_index :: "SegmentMapping list \<Rightarrow> SegmentMapping list" where
  "compress_raw_index [] = []"
| "compress_raw_index (m # ms) = compress_loop m ms"

text \<open>The prediction of the size does not look at the mapped offsets.\<close>

definition mergeable_predict :: "SegmentMapping \<Rightarrow> SegmentMapping \<Rightarrow> bool" where
  "mergeable_predict a b \<longleftrightarrow> seg_end a = seg_offset b \<and> tag a = tag b \<and> zeroed a = zeroed b \<and>
     seg_length a + seg_length b < MAX_LENGTH"

fun predict_loop :: "SegmentMapping \<Rightarrow> SegmentMapping list \<Rightarrow> nat" where
  "predict_loop m [] = 0"
| "predict_loop m (x # xs) =
     (if mergeable_predict m x then predict_loop (m\<lparr>seg_length := trunc 14 (seg_length m + seg_length x)\<rparr>) xs
      else predict_loop x xs + 1)"

fun compress_raw_index_predict :: "SegmentMapping list \<Rightarrow> nat" where
  "compress_raw_index_predict [] = 0"
| "compress_raw_index_predict (m # ms) = predict_loop m ms + 1"


section \<open>Correctness of the level index\<close>

lemma partition_point_unique:
  assumes "r \<le> n" "r' \<le> n" "\<forall>i < r. P i" "\<forall>i. r \<le> i \<and> i < n \<longrightarrow> \<not> P i" "\<forall>i < r'. P i" "\<forall>i. r' \<le> i \<and> i < n \<longrightarrow> \<not> P i"
  shows "r = (r' :: nat)"
  using assms by (metis linorder_neqE_nat order_less_le_trans order_refl)

text \<open>A search in a part of a partitioned list that contains the boundary.\<close>

lemma lower_bound_part:
  assumes mono: "sorted_wrt (\<lambda>x y. P y \<longrightarrow> P x) xs" and u: "u \<le> length xs" "l \<le> u"
    and l: "l = 0 \<or> P (xs ! (l - 1)) \<or> l < length xs \<and> P (xs ! l)" and hi: "u < length xs \<longrightarrow> \<not> P (xs ! u)"
  shows "lower_bound P xs l (u - l) = lower_bound P xs 0 (length xs)"
proof -
  have down: "P (xs ! i)" if "i \<le> j" "j < length xs" "P (xs ! j)" for i j
    using that sorted_wrt_nth_less [OF mono, of i j] by (cases "i = j") auto
  let ?r = "lower_bound P xs l (u - l)"
  have r: "l \<le> ?r \<and> ?r \<le> l + (u - l) \<and> (\<forall>i. l \<le> i \<and> i < ?r \<longrightarrow> P (xs ! i)) \<and> (\<forall>i. ?r \<le> i \<and> i < l + (u - l) \<longrightarrow> \<not> P (xs ! i))"
    using u down by (intro lower_bound_spec) auto
  have low: "P (xs ! i)" if "i < l" for i
    using l that down [of i "l - 1"] down [of i l] u by auto
  have high: "\<not> P (xs ! i)" if "u \<le> i" "i < length xs" for i
    using hi that down [of u i] by auto
  have g: "lower_bound P xs 0 (length xs) \<le> length xs \<and> (\<forall>i. i < lower_bound P xs 0 (length xs) \<longrightarrow> P (xs ! i)) \<and>
    (\<forall>i. lower_bound P xs 0 (length xs) \<le> i \<and> i < length xs \<longrightarrow> \<not> P (xs ! i))"
    using lower_bound_spec [of 0 "length xs" xs P] down by auto
  have "\<forall>i < ?r. P (xs ! i)" using r low by (metis not_le)
  moreover have "\<forall>i. ?r \<le> i \<and> i < length xs \<longrightarrow> \<not> P (xs ! i)"
    using r high u by (metis le_add_diff_inverse not_le)
  ultimately show ?thesis
    using g r u by (intro partition_point_unique [of _ "length xs" _ "\<lambda>i. P (xs ! i)"]) auto
qed

text \<open>\<open>boundary xs off\<close> is the number of elements below \<open>off\<close> of the ascending list \<open>xs\<close>.\<close>

definition boundary :: "nat list \<Rightarrow> nat \<Rightarrow> nat" where
  "boundary xs off = lower_bound (\<lambda>x. x < off) xs 0 (length xs)"

lemma boundary_laws:
  assumes "sorted xs"
  shows "boundary xs off \<le> length xs" "i < boundary xs off \<Longrightarrow> xs ! i < off" "boundary xs off \<le> i \<Longrightarrow> i < length xs \<Longrightarrow> off \<le> xs ! i"
proof -
  have "0 \<le> boundary xs off \<and> boundary xs off \<le> 0 + length xs \<and> (\<forall>i. 0 \<le> i \<and> i < boundary xs off \<longrightarrow> xs ! i < off) \<and>
    (\<forall>i. boundary xs off \<le> i \<and> i < 0 + length xs \<longrightarrow> \<not> xs ! i < off)"
    unfolding boundary_def using assms by (intro lower_bound_spec) (auto simp: sorted_iff_nth_mono intro: order_le_less_trans)
  then show "boundary xs off \<le> length xs" "i < boundary xs off \<Longrightarrow> xs ! i < off" "boundary xs off \<le> i \<Longrightarrow> i < length xs \<Longrightarrow> off \<le> xs ! i"
    by auto
qed

lemma boundary_part:
  assumes "sorted xs" "u \<le> length xs" "l \<le> u" "l = 0 \<or> l < length xs \<and> xs ! l < off" "u < length xs \<longrightarrow> off \<le> xs ! u"
  shows "lower_bound (\<lambda>x. x < off) xs l (u - l) = boundary xs off"
  unfolding boundary_def
proof (rule lower_bound_part)
  show "sorted_wrt (\<lambda>x y. y < off \<longrightarrow> x < off) xs"
    by (rule sorted_wrt_mono_rel [OF _ assms(1)]) auto
qed (use assms in auto)

text \<open>Every level is an ascending list that has every \<open>k\<close>-th element of the next one.\<close>

definition sampled :: "nat \<Rightarrow> nat list \<Rightarrow> nat list \<Rightarrow> bool" where
  "sampled k ext objs \<longleftrightarrow> objs \<noteq> [] \<and> sorted objs \<and> length ext = (length objs - 1) div k + 1 \<and> (\<forall>p < length ext. ext ! p = objs ! (p * k))"

fun chain :: "nat list list \<Rightarrow> bool" where
  "chain (ext # nxt # levels) \<longleftrightarrow> sampled 512 ext nxt \<and> chain (nxt # levels)"
| "chain _ \<longleftrightarrow> True"

definition levels_ok :: "nat list list \<Rightarrow> nat list \<Rightarrow> bool" where
  "levels_ok levels objs \<longleftrightarrow> levels \<noteq> [] \<and> chain levels \<and> sampled 256 (last levels) objs"

lemma levels_ok_simps [simp]:
  "levels_ok [ext] objs \<longleftrightarrow> sampled 256 ext objs"
  "levels_ok (ext # nxt # levels) objs \<longleftrightarrow> sampled 512 ext nxt \<and> levels_ok (nxt # levels) objs"
  by (auto simp: levels_ok_def)

lemma chain_snoc: "chain (xs @ [a]) \<Longrightarrow> sampled 512 a b \<Longrightarrow> chain (xs @ [a, b])"
  by (induction xs rule: chain.induct) auto

lemma sampled_sorted:
  assumes "sampled k ext objs" "0 < k"
  shows "sorted ext" "ext \<noteq> []" "p < length ext \<Longrightarrow> p * k < length objs" "length objs \<le> length ext * k" "length ext \<le> length objs"
proof -
  have ne: "objs \<noteq> []" "sorted objs" and len: "length ext = (length objs - 1) div k + 1" and nth: "\<And>p. p < length ext \<Longrightarrow> ext ! p = objs ! (p * k)"
    using assms(1) by (auto simp: sampled_def)
  show ix: "p * k < length objs" if "p < length ext" for p
  proof -
    have "p * k \<le> (length objs - 1) div k * k" using that len by simp
    also have "\<dots> \<le> length objs - 1" by simp
    finally show ?thesis using ne by (cases objs) auto
  qed
  show "sorted ext"
    unfolding sorted_iff_nth_mono using ne(2) ix nth by (auto simp: sorted_iff_nth_mono)
  show "ext \<noteq> []" using len by auto
  have "length objs - 1 < ((length objs - 1) div k + 1) * k" using assms(2) by (simp add: dividend_less_times_div mult.commute)
  then show "length objs \<le> length ext * k" using len by simp
  show "length ext \<le> length objs" using ne len by (cases objs) (auto intro: order_trans [OF div_le_dividend])
qed

lemma levels_ok_top: "levels_ok (ext # levels) objs \<Longrightarrow> sorted ext \<and> ext \<noteq> []"
  using sampled_sorted [of 256 ext objs] sampled_sorted [of 512 ext "hd levels"] by (cases levels) auto

lemma level_extent_sampled: "sorted objs \<Longrightarrow> objs \<noteq> [] \<Longrightarrow> sampled (level_page depth) (level_extent depth objs) objs"
  by (auto simp: sampled_def level_extent_def simp del: upt_Suc)

lemma build_levels_deep: "objs \<noteq> [] \<Longrightarrow> sorted objs \<Longrightarrow> 0 < depth \<Longrightarrow> chain (build_level_index depth objs @ [objs])"
proof (induction depth objs rule: build_level_index.induct)
  case (1 depth objs)
  let ?e = "level_extent depth objs"
  have s: "sampled 512 ?e objs" using level_extent_sampled [of objs depth] "1.prems" by (simp add: level_page_def)
  note se = sampled_sorted(1,2) [OF s]
  have "chain ((if length ?e > 512 then build_level_index (depth + 1) ?e else []) @ [?e])"
    using "1.IH" "1.prems" se by auto
  from chain_snoc [OF this s] show ?case using "1.prems"(1) by (subst build_level_index.simps) simp
qed

lemma build_levels_ok:
  assumes "objs \<noteq> []" "sorted objs"
  shows "levels_ok (build_level_index 0 objs) objs"
proof -
  let ?e = "level_extent 0 objs"
  have s: "sampled 256 ?e objs" using level_extent_sampled [of objs 0] assms by (simp add: level_page_def)
  have "chain ((if length ?e > 512 then build_level_index 1 ?e else []) @ [?e])"
    using build_levels_deep [of ?e 1] sampled_sorted(1,2) [OF s] by auto
  with s assms(1) show ?thesis unfolding levels_ok_def by (subst (1 2 3) build_level_index.simps) (simp split: if_splits)
qed

lemma levels_ok_objs: "levels_ok (ext # levels) objs \<Longrightarrow> ext ! 0 = objs ! 0 \<and> length ext \<le> length objs \<and> objs \<noteq> []"
proof (induction levels arbitrary: ext)
  case Nil
  then show ?case using sampled_sorted [of 256 ext objs] by (auto simp: sampled_def)
next
  case (Cons nxt levels)
  then have "sampled 512 ext nxt" "nxt ! 0 = objs ! 0" "length nxt \<le> length objs" "objs \<noteq> []" by force+
  then show ?case using sampled_sorted [of 512 ext nxt] by (auto simp: sampled_def)
qed

lemma level_search_spec:
  assumes "levels_ok levels objs" "length objs < 2 ^ 30"
    and "u \<le> length (hd levels)" "l \<le> u" "l = 0 \<or> l < length (hd levels) \<and> hd levels ! l < off" "u < length (hd levels) \<longrightarrow> off \<le> hd levels ! u"
  shows "\<exists>lower upper p. level_search levels (length objs) off l u p0 = Some (lower, upper, p) \<and>
    (if p = 0 then off \<le> objs ! 0
     else lower \<le> upper \<and> upper \<le> length objs \<and> lower < length objs \<and> objs ! lower < off \<and> (upper < length objs \<longrightarrow> off \<le> objs ! upper))"
  using assms
proof (induction levels arbitrary: l u p0)
  case Nil
  then show ?case by (simp add: levels_ok_def)
next
  case (Cons ext levels)
  define k where "k = (if levels = [] then 256 else 512 :: nat)"
  define nxt where "nxt = (if levels = [] then objs else hd levels)"
  have s: "sampled k ext nxt" using Cons.prems(1) by (cases levels) (simp_all add: k_def nxt_def)
  have k: "0 < k" "2 ^ (if levels = [] then 8 else 9) = k" by (simp_all add: k_def)
  note ss = sampled_sorted [OF s k(1)]
  have top: "nxt \<noteq> []" "sorted nxt" "\<And>p. p < length ext \<Longrightarrow> ext ! p = nxt ! (p * k)" using s by (auto simp: sampled_def)
  let ?r = "boundary ext off"
  have r: "lower_bound (\<lambda>x. x < off) ext l (u - l) = ?r"
    using boundary_part [OF ss(1)] Cons.prems(3-6) by simp
  note b = boundary_laws [OF ss(1), where off = off]
  show ?case
  proof (cases "?r = 0")
    case True
    then have "off \<le> objs ! 0" using b(3) [of 0] ss(2) levels_ok_objs [OF Cons.prems(1)] by simp
    then show ?thesis using True r by simp
  next
    case False
    let ?l = "(?r - 1) * k" and ?u = "min (?r * k) (length nxt)"
    have nl: "length nxt \<le> length objs"
      using Cons.prems(1) levels_ok_objs [of "hd levels" "tl levels" objs] by (cases levels) (simp_all add: nxt_def)
    have "?r * k \<le> length ext * k" using b(1) by simp
    also have "\<dots> = (length nxt - 1) div k * k + k" using s by (simp add: sampled_def)
    also have "\<dots> \<le> length objs + 512"
    proof (rule add_mono)
      show "(length nxt - 1) div k * k \<le> length objs"
        using nl div_times_less_eq_dividend [of "length nxt - 1" k] by (meson diff_le_self le_trans)
      show "k \<le> 512" by (simp add: k_def)
    qed
    finally have small: "?r * k < 2 ^ 31" using Cons.prems(2) by simp
    have lx: "?r - 1 < length ext" using False b(1) by simp
    have l: "?l < length nxt" "nxt ! ?l < off" "?l \<le> ?u" using ss(3) [OF lx] top(3) [OF lx] b(2) [of "?r - 1"] False by (auto intro: less_imp_le)
    have u: "off \<le> nxt ! ?u" if "?u < length nxt"
    proof -
      have rk: "?r * k < length nxt" using that by auto
      then have "?r < length ext" using ss(4) k(1) by (metis mult_less_cancel2 order_less_le_trans)
      then show ?thesis using top(3) b(3) [of ?r] rk by simp
    qed
    have step: "level_search (ext # levels) (length objs) off l u p0 = level_search levels (length objs) off ?l ?u ?r"
      using False r small by (cases levels) (simp_all add: k_def nxt_def Let_def bug_on_bind)
    show ?thesis
    proof (cases levels)
      case Nil
      then show ?thesis unfolding step using False l u by (simp add: nxt_def)
    next
      case (Cons x xs)
      then show ?thesis unfolding step
        using Cons.IH [of ?u ?l ?r] Cons.prems l u by (simp add: nxt_def)
    qed
  qed
qed


text \<open>\<open>LevelIndex::lookup\<close> returns what \<open>Index::lookup\<close> returns.\<close>

lemma segs_ok_offsets: "segs_ok ms \<Longrightarrow> sorted (map seg_offset ms)"
  unfolding sorted_map by (rule sorted_wrt_mono_rel [of ms seg_less]) (auto simp: segs_ok_def seg_less_def seg_end_def)

lemma LevelIndex_lookup_eq:
  assumes ok: "segs_ok ms" and n: "length ms < 2 ^ 30"
  shows "LevelIndex_lookup (new_LevelIndex ms) s k = Index_lookup (new_Index ms vsize) s k"
proof (cases "seg_length s = 0 \<or> ms = []")
  case True
  have "build_level_index 0 [] = []" by (subst build_level_index.simps) simp
  then show ?thesis
    using True by (auto simp: LevelIndex_lookup_def Index_lookup_def new_LevelIndex_def new_Index_def trim_edge_mappings_def)
next
  case False
  let ?objs = "map seg_offset ms" and ?levels = "build_level_index 0 (map seg_offset ms)" and ?P = "\<lambda>e. seg_less e s"
  have so: "sorted ?objs" "?objs \<noteq> []" using segs_ok_offsets [OF ok] False by simp_all
  have lv: "levels_ok ?levels ?objs" using build_levels_ok [OF so(2,1)] .
  then have ne: "?levels \<noteq> []" by (simp add: levels_ok_def)
  have "\<exists>lower upper p. level_search ?levels (length ?objs) (seg_offset s) 0 (length (hd ?levels)) 0 = Some (lower, upper, p) \<and>
    (if p = 0 then seg_offset s \<le> ?objs ! 0
     else lower \<le> upper \<and> upper \<le> length ?objs \<and> lower < length ?objs \<and> ?objs ! lower < seg_offset s \<and>
       (upper < length ?objs \<longrightarrow> seg_offset s \<le> ?objs ! upper))"
    using n by (intro level_search_spec [OF lv]) simp_all
  then obtain lower upper p where ls: "level_search ?levels (length ms) (seg_offset s) 0 (length (hd ?levels)) 0 = Some (lower, upper, p)"
    and z: "p = 0 \<Longrightarrow> seg_offset s \<le> seg_offset (ms ! 0)"
    and nz: "p \<noteq> 0 \<Longrightarrow> lower \<le> upper \<and> upper \<le> length ms \<and> lower < length ms \<and> seg_offset (ms ! lower) < seg_offset s \<and>
      (upper < length ms \<longrightarrow> seg_offset s \<le> seg_offset (ms ! upper))"
    using so(2) by (auto split: if_splits)
  note mono = segs_ok_partition [OF ok, of s]
  have pos: "seg_offset m < seg_end m" if "m \<in> set ms" for m using that ok wf_mapD(2) by (auto simp: segs_ok_def)
  have above: "\<not> ?P (ms ! i)" if "i < length ms" "seg_offset s \<le> seg_offset (ms ! i)" for i
    using pos [of "ms ! i"] that by (simp add: seg_less_def)
  have lb: "(if p \<noteq> 0 then lower_bound ?P ms lower (upper - lower) else 0) = lower_bound ?P ms 0 (length ms)"
  proof (cases "p = 0")
    case True
    have "drop (lower_bound ?P ms 0 (length ms)) ms = ms"
      using lower_bound_dropWhile [OF mono] above [of 0] z [OF True] False by (cases ms) auto
    then have "lower_bound ?P ms 0 (length ms) = 0" using False by (metis diff_diff_cancel diff_self_eq_0 drop_all length_drop length_greater_0_conv nat_le_linear)
    then show ?thesis using True by simp
  next
    case False
    note b = nz [OF False]
    have before: "lower = 0 \<or> ?P (ms ! (lower - 1))"
    proof (cases "lower = 0")
      case False
      then have "seg_less (ms ! (lower - 1)) (ms ! lower)" using ok b by (auto simp: segs_ok_def intro!: sorted_wrt_nth_less)
      then show ?thesis using b by (simp add: seg_less_def)
    qed simp
    then have "lower_bound ?P ms lower (upper - lower) = lower_bound ?P ms 0 (length ms)"
      using b above [of upper] by (intro lower_bound_part [OF mono]) auto
    then show ?thesis using False by simp
  qed
  show ?thesis
    using False ne ls lb by (cases "p = 0") (simp_all add: LevelIndex_lookup_def Index_lookup_def new_LevelIndex_def new_Index_def)
qed


section \<open>Correctness of the merge\<close>

text \<open>\<open>sub b e\<close> computes the mappings of the blocks \<open>G\<close> between \<open>b\<close> and \<open>e\<close>.\<close>

definition fills :: "(nat \<Rightarrow> nat \<Rightarrow> SegmentMapping list option) \<Rightarrow> (nat \<Rightarrow> (nat \<times> nat option) option) \<Rightarrow> bool" where
  "fills sub G \<longleftrightarrow> (\<forall>b e. b < 2 ^ 50 \<longrightarrow> (\<exists>r. sub b e = Some r \<and> segs_ok r \<and> (\<forall>m \<in> set r. b \<le> seg_offset m \<and> seg_end m \<le> e) \<and>
     (\<forall>x. denote r x = (if b \<le> x \<and> x < e then G x else None))))"

definition over :: "(nat \<Rightarrow> 'a option) \<Rightarrow> (nat \<Rightarrow> 'a option) \<Rightarrow> nat \<Rightarrow> 'a option" where
  "over F G x = (case F x of None \<Rightarrow> G x | Some t \<Rightarrow> Some t)"

text \<open>Changing the tags changes nothing else.\<close>

definition retags :: "(SegmentMapping \<Rightarrow> SegmentMapping) \<Rightarrow> bool" where
  "retags f \<longleftrightarrow> (\<forall>m. seg_offset (f m) = seg_offset m \<and> seg_end (f m) = seg_end m \<and> (wf_map m \<longrightarrow> wf_map (f m)))"

lemma retagsD: "retags f \<Longrightarrow> seg_offset (f m) = seg_offset m" "retags f \<Longrightarrow> seg_end (f m) = seg_end m" "retags f \<Longrightarrow> wf_map m \<Longrightarrow> wf_map (f m)"
  by (simp_all add: retags_def)

lemma segs_ok_retag: "retags f \<Longrightarrow> segs_ok ms \<Longrightarrow> segs_ok (map f ms)"
  by (auto simp: segs_ok_def sorted_wrt_map seg_less_def retagsD elim!: sorted_wrt_mono_rel [rotated])

lemma merge_loop_spec:
  assumes "fills sub G" "retags f" "segs_ok ms" "a < 2 ^ 50" "\<forall>m \<in> set ms. a < seg_end m"
  shows "\<exists>r b. merge_loop sub f ms a stop = Some (r, b) \<and> segs_ok r \<and> a \<le> b \<and> b < 2 ^ 50 \<and>
    (\<forall>m \<in> set r. a < seg_end m \<and> seg_offset m < stop \<and> seg_end m \<le> b) \<and>
    ((\<forall>m \<in> set ms. a \<le> seg_offset m) \<longrightarrow> (\<forall>m \<in> set r. a \<le> seg_offset m)) \<and>
    (\<forall>x. a \<le> x \<and> x < stop \<longrightarrow> (if x < b then denote r x = over (denote (map f ms)) G x else denote (map f ms) x = None))"
  using assms(3-)
proof (induction ms arbitrary: a)
  case Nil
  then show ?case by simp
next
  case (Cons m ms)
  note fD = retagsD [OF assms(2)]
  have m: "wf_map m" "segs_ok ms" "\<forall>y \<in> set ms. seg_end m \<le> seg_offset y" using Cons.prems(1) by (simp_all add: seg_less_def)
  note wm = wf_mapD [OF m(1)]
  show ?case
  proof (cases "seg_offset m < stop")
    case False
    then have "denote (map f (m # ms)) x = None" if "a \<le> x" "x < stop" for x
      using that m(3) wm(2) by (intro denote_above) (auto simp: fD intro: order_less_le_trans)
    then show ?thesis using False Cons.prems(2) by (intro exI [of _ "[]"] exI [of _ a]) auto
  next
    case True
    have "\<forall>y \<in> set ms. seg_end m < seg_end y" using m(2,3) wf_mapD(2) by (fastforce simp: segs_ok_def)
    from Cons.IH [OF m(2) wm(4) this] obtain r b where
      r: "merge_loop sub f ms (seg_end m) stop = Some (r, b)" "segs_ok r" "seg_end m \<le> b" "b < 2 ^ 50"
        "\<forall>y \<in> set r. seg_end m < seg_end y \<and> seg_offset y < stop \<and> seg_end y \<le> b" "\<forall>y \<in> set r. seg_end m \<le> seg_offset y"
        "\<And>x. seg_end m \<le> x \<Longrightarrow> x < stop \<Longrightarrow> (if x < b then denote r x = over (denote (map f ms)) G x else denote (map f ms) x = None)" using m(3) by blast
    obtain g where g: "(if seg_offset m > a then sub a (seg_offset m) else Some []) = Some g" "segs_ok g"
      "\<forall>y \<in> set g. a \<le> seg_offset y \<and> seg_end y \<le> seg_offset m" "\<And>x. denote g x = (if a \<le> x \<and> x < seg_offset m then G x else None)"
      using assms(1) Cons.prems(2) unfolding fills_def by (cases "seg_offset m > a") fastforce+
    let ?r = "g @ f m # r"
    have ok: "segs_ok ?r" using g(2,3) r(2,6) m(1) wm(2) fD(3) [OF m(1)]
      by (fastforce simp: segs_ok_append seg_less_def fD)
    have D: "if x < b then denote ?r x = over (denote (map f (m # ms))) G x else denote (map f (m # ms)) x = None" if "a \<le> x" "x < stop" for x
    proof -
      consider "x < seg_offset m" | "covers m x" | "seg_end m \<le> x" unfolding covers_def by linarith
      then show ?thesis
      proof cases
        case 1
        have "denote (map f (m # ms)) x = None" "denote (f m # r) x = None"
          using 1 m(3) r(6) wm(2) by (fastforce intro!: denote_above simp: fD simp del: denote.simps)+
        then show ?thesis using 1 that g(4) [of x] r(3) wm(2) by (simp add: over_def denote_append split: option.split)
      next
        case 2
        then have "covers (f m) x" "x < b" "denote g x = None" using r(3) g(4) [of x] by (auto simp: covers_def fD)
        then show ?thesis by (simp add: over_def denote_append)
      next
        case 3
        then have "\<not> covers (f m) x" "denote g x = None" using g(4) [of x] wm(2) by (auto simp: covers_def fD)
        then show ?thesis using r(7) [OF 3 that(2)] by (simp add: over_def denote_append)
      qed
    qed
    have "\<forall>y \<in> set ?r. a < seg_end y \<and> seg_offset y < stop \<and> seg_end y \<le> b"
    proof
      fix y assume "y \<in> set ?r"
      then consider "y \<in> set g" | "y = f m" | "y \<in> set r" by auto
      then show "a < seg_end y \<and> seg_offset y < stop \<and> seg_end y \<le> b"
      proof cases
        case 1
        then have "seg_offset y < seg_end y" "a \<le> seg_offset y" "seg_end y \<le> seg_offset m" using g(2,3) wf_mapD(2) by (auto simp: segs_ok_def)
        then show ?thesis using True r(3) wm(2) by linarith
      next
        case 2
        then show ?thesis using True Cons.prems(3) r(3) by (simp add: fD)
      next
        case 3
        then show ?thesis using r(5) Cons.prems(3) by force
      qed
    qed
    moreover have "a \<le> b" using r(3) Cons.prems(3) by auto
    moreover have "\<forall>y \<in> set ?r. a \<le> seg_offset y" if "\<forall>y \<in> set (m # ms). a \<le> seg_offset y"
    proof -
      have "a \<le> seg_offset m" "a \<le> seg_end m" using that wm(2) by simp_all
      then show ?thesis using g(3) r(6) fD(1) [of m] by (metis Un_iff order_trans set_append set_ConsD)
    qed
    moreover have "merge_loop sub f (m # ms) a stop = Some (?r, b)" using True unfolding merge_loop.simps g(1) r(1) by simp
    ultimately show ?thesis using r(4) ok D by blast
  qed
qed


lemma fills_merge_layer:
  assumes sub: "fills sub G" and f: "retags f" and ok: "segs_ok (ix_map pi0)"
  shows "fills (merge_layer sub f pi0) (over (denote (map f (ix_map pi0))) G)"
  unfolding fills_def
proof (intro allI impI)
  fix b e :: nat assume b: "b < 2 ^ 50"
  let ?F = "over (denote (map f (ix_map pi0))) G"
  show "\<exists>r. merge_layer sub f pi0 b e = Some r \<and> segs_ok r \<and> (\<forall>m \<in> set r. b \<le> seg_offset m \<and> seg_end m \<le> e) \<and>
    (\<forall>x. denote r x = (if b \<le> x \<and> x < e then ?F x else None))"
  proof (cases "b < e")
    case False
    then show ?thesis by (auto simp: merge_layer_def)
  next
    case True
    let ?k = "\<lparr>seg_offset = b, seg_length = 1\<rparr>" and ?s = "\<lparr>seg_offset = b, seg_length = e - b\<rparr>"
    let ?xs = "takeWhile (\<lambda>e. seg_less e ?k) (ix_map pi0)" and ?ms = "dropWhile (\<lambda>e. seg_less e ?k) (ix_map pi0)"
    have lb: "Index_lower_bound pi0 b = ?ms"
      using lower_bound_dropWhile [OF segs_ok_partition [OF ok, of ?k]] trunc_id [OF b] by (simp add: Index_lower_bound_def)
    have split: "ix_map pi0 = ?xs @ ?ms" by simp
    have okms: "segs_ok ?ms" using ok split by (metis segs_ok_append)
    have "\<forall>m \<in> set ?ms. b < seg_end m"
      using dropWhile_not [OF segs_ok_partition [OF ok, of ?k]] by (auto simp: seg_less_def not_le)
    from merge_loop_spec [OF sub f okms b this, of e] obtain r b' where
      r: "merge_loop sub f ?ms b e = Some (r, b')" "segs_ok r" "b \<le> b'" "b' < 2 ^ 50"
        "\<forall>m \<in> set r. b < seg_end m \<and> seg_offset m < e \<and> seg_end m \<le> b'"
        "\<And>x. b \<le> x \<Longrightarrow> x < e \<Longrightarrow> (if x < b' then denote r x = over (denote (map f ?ms)) G x else denote (map f ?ms) x = None)" by blast
    obtain rest where rest: "(if b' < e then sub b' e else Some []) = Some rest" "segs_ok rest"
      "\<forall>m \<in> set rest. b' \<le> seg_offset m \<and> seg_end m \<le> e" "\<And>x. denote rest x = (if b' \<le> x \<and> x < e then G x else None)"
      using sub r(4) unfolding fills_def by (cases "b' < e") fastforce+
    have all: "segs_ok (r @ rest)" using r(2,5) rest(2,3) by (auto simp: segs_ok_append seg_less_def intro: order_trans)
    have se: "seg_offset ?s < seg_end ?s" "seg_end ?s = e" using True by (simp_all add: seg_end_def)
    have "m \<in> set rest \<Longrightarrow> seg_offset m < seg_end m" for m using rest(2) wf_mapD(2) by (auto simp: segs_ok_def)
    then have ov: "\<forall>m \<in> set (r @ rest). overlaps ?s m" using r(3,5) rest(3) se(2) by (fastforce simp: overlaps_def)
    then have wov: "\<forall>m \<in> set (r @ rest). wf_map m \<and> overlaps ?s m" using all by (auto simp: segs_ok_def)
    have "denote (r @ rest) x = ?F x" if x: "b \<le> x" "x < e" for x
    proof -
      have "denote (map f ?xs) x = None" using x(1) retagsD [OF f] by (intro denote_below) (auto simp: seg_less_def dest: set_takeWhileD)
      then have F: "?F x = over (denote (map f ?ms)) G x" by (subst split) (simp add: over_def denote_append del: takeWhile_dropWhile_id)
      show ?thesis
      proof (cases "x < b'")
        case True
        then have "denote rest x = None" using rest(4) by simp
        then show ?thesis using r(6) [OF x] True F by (simp add: denote_append split: option.split)
      next
        case False
        then have "denote r x = None" using r(5) by (intro denote_below) force
        then show ?thesis using r(6) [OF x] False F rest(4) [of x] x by (simp add: denote_append over_def)
      qed
    qed
    then have "denote (map (clip ?s) (r @ rest)) x = (if b \<le> x \<and> x < e then ?F x else None)" for x
      using denote_clip [OF wov se(1), of x] se(2) by (simp add: covers_def)
    moreover have "\<forall>m \<in> set (map (clip ?s) (r @ rest)). b \<le> seg_offset m \<and> seg_end m \<le> e"
      using wov se by (auto simp: clip_laws(2,3))
    moreover have "merge_layer sub f pi0 b e = Some (map (clip ?s) (r @ rest))"
      using True r(1) rest(1) trim_edge_mappings_eq [OF all ov se(1)] by (simp add: merge_layer_def lb)
    ultimately show ?thesis using segs_ok_clip [OF all ov se(1)] by blast
  qed
qed


lemma retags_tag: "t < 2 ^ 8 \<Longrightarrow> retags (\<lambda>m. m\<lparr>tag := t\<rparr>)" "retags (\<lambda>m. m)"
  by (auto simp: retags_def seg_end_def wf_map_def wf_seg_def)

text \<open>The blocks of a stack of layers, the topmost first: the tag is the number of the layer.\<close>

fun layered :: "nat \<Rightarrow> SegmentMapping list list \<Rightarrow> nat \<Rightarrow> (nat \<times> nat option) option" where
  "layered level [] = (\<lambda>_. None)"
| "layered level (ms # layers) = over (\<lambda>x. map_option (\<lambda>(t, loc). (level, loc)) (denote ms x)) (layered (level + 1) layers)"

lemma denote_retag: "denote (map (\<lambda>m. m\<lparr>tag := t\<rparr>) ms) x = map_option (\<lambda>(_, loc). (t, loc)) (denote ms x)"
  by (induction ms) (auto simp: covers_def seg_end_def target_def)

lemma fills_empty: "fills (\<lambda>b e. Some []) (\<lambda>_. None)"
  by (simp add: fills_def)

lemma fills_merge_indexes:
  assumes "\<forall>ix \<in> set ixs. segs_ok (ix_map ix)" "level + length ixs \<le> 256"
  shows "fills (merge_indexes level ixs) (layered level (map ix_map ixs))"
  using assms
proof (induction ixs arbitrary: level)
  case Nil
  have "merge_indexes level [] = (\<lambda>b e. Some [])" by (simp add: fun_eq_iff)
  then show ?case using fills_empty by simp
next
  case (Cons ix ixs)
  have "fills (merge_indexes (level + 1) ixs) (layered (level + 1) (map ix_map ixs))"
    using Cons by (intro Cons.IH) simp_all
  moreover have "merge_indexes (trunc 8 (level + 1)) ixs = merge_indexes (level + 1) ixs"
    using Cons.prems(2) by (cases ixs) (simp_all add: trunc_id fun_eq_iff)
  ultimately have "fills (merge_layer (merge_indexes (trunc 8 (level + 1)) ixs) (\<lambda>m. m\<lparr>tag := level\<rparr>) ix)
    (over (denote (map (\<lambda>m. m\<lparr>tag := level\<rparr>) (ix_map ix))) (layered (level + 1) (map ix_map ixs)))"
    using Cons.prems by (intro fills_merge_layer retags_tag(1)) simp_all
  moreover have "merge_indexes level (ix # ixs) = merge_layer (merge_indexes (trunc 8 (level + 1)) ixs) (\<lambda>m. m\<lparr>tag := level\<rparr>) ix"
    by (simp add: fun_eq_iff)
  moreover have "denote (map (\<lambda>m. m\<lparr>tag := level\<rparr>) (ix_map ix)) = (\<lambda>x. map_option (\<lambda>(t, loc). (level, loc)) (denote (ix_map ix) x))"
    by (simp add: fun_eq_iff denote_retag)
  ultimately show ?case by simp
qed

text \<open>Without a change of tags, with two indexes and at least two levels.\<close>

lemma fills_merge_keep1:
  assumes "segs_ok (ix_map ix)"
  shows "fills (merge_indexes_keep (Suc k) [ix] 0) (denote (ix_map ix))"
proof (induction k)
  case 0
  have "fills (merge_layer (\<lambda>b e. Some []) (\<lambda>m. m) ix) (over (denote (map (\<lambda>m. m) (ix_map ix))) (\<lambda>_. None))"
    by (rule fills_merge_layer [OF fills_empty retags_tag(2) assms])
  moreover have "merge_indexes_keep 0 [ix] 0 = (\<lambda>b e. Some [])" by (simp add: fun_eq_iff)
  then have "merge_indexes_keep (Suc 0) [ix] 0 = merge_layer (\<lambda>b e. Some []) (\<lambda>m. m) ix"
    by (intro ext, subst merge_indexes_keep.simps(2)) simp
  moreover have "over (denote (ix_map ix)) (\<lambda>_. None) = denote (ix_map ix)" by (simp add: fun_eq_iff over_def split: option.split)
  ultimately show ?case by simp
next
  case (Suc k)
  from fills_merge_layer [OF Suc retags_tag(2) assms]
  have "fills (merge_layer (merge_indexes_keep (Suc k) [ix] 0) (\<lambda>m. m) ix) (over (denote (ix_map ix)) (denote (ix_map ix)))" unfolding list.map_ident .
  moreover have "merge_indexes_keep (Suc (Suc k)) [ix] 0 = merge_layer (merge_indexes_keep (Suc k) [ix] 0) (\<lambda>m. m) ix"
    by (intro ext, subst merge_indexes_keep.simps(2)) simp
  moreover have "over (denote (ix_map ix)) (denote (ix_map ix)) = denote (ix_map ix)" by (simp add: fun_eq_iff over_def split: option.split)
  ultimately show ?case by simp
qed

lemma fills_merge_keep2:
  assumes "segs_ok (ix_map a)" "segs_ok (ix_map b)"
  shows "fills (merge_indexes_keep (Suc (Suc k)) [a, b] 2) (over (denote (ix_map a)) (denote (ix_map b)))"
proof -
  from fills_merge_layer [OF fills_merge_keep1 [OF assms(2)] retags_tag(2) assms(1)]
  have "fills (merge_layer (merge_indexes_keep (Suc k) [b] 0) (\<lambda>m. m) a) (over (denote (ix_map a)) (denote (ix_map b)))" unfolding list.map_ident .
  moreover have "merge_indexes_keep (Suc (Suc k)) [a, b] 2 = merge_layer (merge_indexes_keep (Suc k) [b] 0) (\<lambda>m. m) a"
    by (intro ext, subst merge_indexes_keep.simps(2)) simp
  ultimately show ?thesis by simp
qed


section \<open>Correctness of the combined index\<close>

text \<open>\<open>L\<close> is a lookup in an index with the blocks \<open>B\<close>.\<close>

definition looks_up :: "(Segment \<Rightarrow> nat \<Rightarrow> SegmentMapping list option) \<Rightarrow> (nat \<Rightarrow> (nat \<times> nat option) option) \<Rightarrow> bool" where
  "looks_up L B \<longleftrightarrow> (\<forall>s n. wf_seg s \<longrightarrow> 0 < n \<longrightarrow> (\<exists>r. L s n = Some r \<and> lookup_ok B s n r))"

text \<open>A lookup between two offsets, in the form in which \<open>ComboIndex::lookup\<close> calls it.\<close>

lemma looks_up_gap:
  assumes L: "looks_up L B" and r: "a < b" "b < 2 ^ 50" "b - a \<le> MAX_LENGTH" "0 < n"
  obtains r where "L \<lparr>seg_offset = trunc 50 a, seg_length = trunc 14 (trunc 32 (b - a))\<rparr> n = Some r" "segs_ok r" "length r \<le> n"
    "\<forall>m \<in> set r. a \<le> seg_offset m \<and> seg_end m \<le> b"
    "\<And>x. denote r x = (if a \<le> x \<and> x < b \<and> (length r = n \<longrightarrow> x < seg_end (last r)) then B x else None)"
proof -
  have l: "b - a < 2 ^ 14" "b - a < 2 ^ 32" "a < 2 ^ 50" using r by (auto simp: MAX_LENGTH_def)
  have s: "\<lparr>seg_offset = trunc 50 a, seg_length = trunc 14 (trunc 32 (b - a))\<rparr> = \<lparr>seg_offset = a, seg_length = b - a\<rparr>"
    by (simp only: trunc_id [OF l(2)] trunc_id [OF l(1)] trunc_id [OF l(3)])
  have e: "seg_end \<lparr>seg_offset = a, seg_length = b - a\<rparr> = b" using r(1) by (simp add: seg_end_def)
  then have "wf_seg \<lparr>seg_offset = a, seg_length = b - a\<rparr>" using r by (simp add: wf_seg_def)
  with L r(4) obtain r where "L \<lparr>seg_offset = a, seg_length = b - a\<rparr> n = Some r" "lookup_ok B \<lparr>seg_offset = a, seg_length = b - a\<rparr> n r"
    unfolding looks_up_def by blast
  then show ?thesis using that [of r] unfolding s by (auto simp: lookup_ok_def inside_def covers_def e)
qed

lemma ex3I: "P a b c \<Longrightarrow> \<exists>x y z. P x y z"
  by blast

lemma combo_loop_spec:
  assumes L: "looks_up L B" and "segs_ok ms" "so < 2 ^ 50" "se < 2 ^ 50" "se - so \<le> MAX_LENGTH" "\<forall>m \<in> set ms. so < seg_end m"
  shows "\<exists>r so' n'. combo_loop L ms so se n = Some (r, so', n') \<and> segs_ok r \<and> so \<le> so' \<and> so' < 2 ^ 50 \<and> length r + n' = n \<and>
    (\<forall>m \<in> set r. so < seg_end m \<and> seg_offset m < se) \<and> ((\<forall>m \<in> set ms. so \<le> seg_offset m) \<longrightarrow> (\<forall>m \<in> set r. so \<le> seg_offset m)) \<and>
    (n' \<noteq> 0 \<longrightarrow> (\<forall>m \<in> set r. seg_end m \<le> so') \<and>
       (\<forall>x. so \<le> x \<and> x < se \<longrightarrow> (if x < so' then denote r x = over (denote ms) B x else denote ms x = None))) \<and>
    (n' = 0 \<longrightarrow> n \<noteq> 0 \<longrightarrow> (\<forall>x. so \<le> x \<and> x < se \<and> x < seg_end (last r) \<longrightarrow> denote r x = over (denote ms) B x))"
  using assms(2-)
proof (induction ms arbitrary: so n)
  case Nil
  then show ?case by simp
next
  case (Cons m ms)
  have m: "wf_map m" "segs_ok ms" "\<forall>y \<in> set ms. seg_end m \<le> seg_offset y" using Cons.prems(1) by (simp_all add: seg_less_def)
  note wm = wf_mapD [OF m(1)]
  have before: "denote (m # ms) x = None" if "x < seg_offset m" for x
    using that m(3) wm(2) by (fastforce intro!: denote_above simp del: denote.simps)
  show ?case
  proof (cases "seg_offset m < se \<and> n \<noteq> 0")
    case False
    then have "denote (m # ms) x = None" if "x < se" "n \<noteq> 0" for x using before that by simp
    then show ?thesis
      by (intro ex3I [of _ "[]" so n]) (use False Cons.prems(2) in \<open>auto simp del: denote.simps\<close>)
  next
    case True
    obtain g where g: "(if seg_offset m > so then L \<lparr>seg_offset = trunc 50 so, seg_length = trunc 14 (trunc 32 (seg_offset m - so))\<rparr> n else Some []) = Some g"
      "segs_ok g" "length g \<le> n" "\<forall>y \<in> set g. so \<le> seg_offset y \<and> seg_end y \<le> seg_offset m"
      "\<And>x. denote g x = (if so \<le> x \<and> x < seg_offset m \<and> (length g = n \<longrightarrow> x < seg_end (last g)) then B x else None)"
    proof (cases "seg_offset m > so")
      case gap: True
      have "seg_offset m - so \<le> MAX_LENGTH" using True Cons.prems(4) by linarith
      moreover have "0 < n" using True by simp
      ultimately show ?thesis
      proof (rule looks_up_gap [OF L gap wm(5)])
        fix r assume "L \<lparr>seg_offset = trunc 50 so, seg_length = trunc 14 (trunc 32 (seg_offset m - so))\<rparr> n = Some r" "segs_ok r" "length r \<le> n"
          "\<forall>y \<in> set r. so \<le> seg_offset y \<and> seg_end y \<le> seg_offset m"
          "\<And>x. denote r x = (if so \<le> x \<and> x < seg_offset m \<and> (length r = n \<longrightarrow> x < seg_end (last r)) then B x else None)"
        then show thesis using gap by (intro that [of r]) simp_all
      qed
    next
      case no_gap: False
      then show thesis using True by (intro that [of "[]"]) auto
    qed
    have gpos: "seg_offset y < seg_end y" if "y \<in> set g" for y using g(2) that wf_mapD(2) by (auto simp: segs_ok_def)
    have gse: "so < seg_end y \<and> seg_offset y < se" if "y \<in> set g" for y
    proof -
      have "so \<le> seg_offset y" "seg_end y \<le> seg_offset m" using g(4) that by blast+
      with gpos [OF that] True show ?thesis by linarith
    qed
    show ?thesis
    proof (cases "length g = n")
      case full: True
      have "combo_loop L (m # ms) so se n = Some (g, so, 0)"
        using True full unfolding combo_loop.simps g(1) by simp
      moreover have ne: "g \<noteq> []" using full True by auto
      have "seg_end (last g) \<le> seg_offset m" using g(4) last_in_set [OF ne] by blast
      then have "\<forall>x. so \<le> x \<and> x < se \<and> x < seg_end (last g) \<longrightarrow> denote g x = over (denote (m # ms)) B x"
        using g(5) full before by (auto simp: over_def simp del: denote.simps)
      moreover have "\<forall>y \<in> set g. so < seg_end y \<and> seg_offset y < se" using gse by blast
      ultimately show ?thesis using g(2,4) full Cons.prems(2) by (intro ex3I [of _ g so 0]) (auto simp del: denote.simps)
    next
      case part: False
      have "\<forall>y \<in> set ms. seg_end m < seg_end y" using m(2,3) wf_mapD(2) by (fastforce simp: segs_ok_def)
      moreover have "se - seg_end m \<le> MAX_LENGTH" using Cons.prems(4,5) by auto
      ultimately obtain r so' n' where
        r: "combo_loop L ms (seg_end m) se (n - length g - 1) = Some (r, so', n')" "segs_ok r" "seg_end m \<le> so'" "so' < 2 ^ 50"
          "length r + n' = n - length g - 1" "\<forall>y \<in> set r. seg_end m < seg_end y \<and> seg_offset y < se" "\<forall>y \<in> set r. seg_end m \<le> seg_offset y"
          "n' \<noteq> 0 \<Longrightarrow> \<forall>y \<in> set r. seg_end y \<le> so'"
          "\<And>x. n' \<noteq> 0 \<Longrightarrow> seg_end m \<le> x \<Longrightarrow> x < se \<Longrightarrow> (if x < so' then denote r x = over (denote ms) B x else denote ms x = None)"
          "\<And>x. n' = 0 \<Longrightarrow> n - length g - 1 \<noteq> 0 \<Longrightarrow> seg_end m \<le> x \<Longrightarrow> x < se \<Longrightarrow> x < seg_end (last r) \<Longrightarrow> denote r x = over (denote ms) B x"
        using Cons.IH [OF m(2) wm(4) Cons.prems(3), of "n - length g - 1"] m(3) by blast
      let ?r = "g @ m # r"
      have run: "combo_loop L (m # ms) so se n = Some (?r, so', n')"
        using True part g(3) r(1) unfolding combo_loop.simps g(1) by simp
      have ok: "segs_ok ?r" using g(2,4) r(2,7) m(1) wm(2) by (fastforce simp: segs_ok_append seg_less_def)
      have D: "denote ?r x = over (denote (m # ms)) B x"
        if x: "so \<le> x" "x < se" "n' \<noteq> 0 \<Longrightarrow> x < so'" "n' = 0 \<Longrightarrow> x < seg_end (last ?r)" for x
      proof -
        consider "x < seg_offset m" | "covers m x" | "seg_end m \<le> x" unfolding covers_def by linarith
        then show ?thesis
        proof cases
          case 1
          have "denote (m # r) x = None" using 1 r(7) wm(2) by (fastforce intro!: denote_above simp del: denote.simps)
          then show ?thesis using 1 x(1) g(5) [of x] part before [OF 1] by (simp add: over_def denote_append split: option.split)
        next
          case 2
          then have "denote g x = None" using g(5) [of x] by (auto simp: covers_def)
          then show ?thesis using 2 by (simp add: over_def denote_append)
        next
          case 3
          then have "\<not> covers m x" "denote g x = None" using g(5) [of x] wm(2) by (auto simp: covers_def)
          moreover have "denote r x = over (denote ms) B x"
          proof (cases "n' = 0")
            case True
            then have "r \<noteq> []" using x(4) 3 by auto
            moreover from this have "n - length g - 1 \<noteq> 0" using r(5) True by auto
            ultimately show ?thesis using r(10) [OF True _ 3 x(2)] x(4) True by auto
          qed (use r(9) [OF _ 3 x(2)] x(3) in auto)
          ultimately show ?thesis by (simp add: over_def denote_append)
        qed
      qed
      have c1: "\<forall>y \<in> set ?r. so < seg_end y \<and> seg_offset y < se"
      proof
        fix y assume "y \<in> set ?r"
        then consider "y \<in> set g" | "y = m" | "y \<in> set r" by auto
        then show "so < seg_end y \<and> seg_offset y < se"
        proof cases
          case 1
          then show ?thesis using gse by blast
        next
          case 3
          then show ?thesis using r(6) Cons.prems(5) by force
        qed (use True Cons.prems(5) in auto)
      qed
      have c2: "(\<forall>y \<in> set (m # ms). so \<le> seg_offset y) \<longrightarrow> (\<forall>y \<in> set ?r. so \<le> seg_offset y)"
      proof
        assume that: "\<forall>y \<in> set (m # ms). so \<le> seg_offset y"
        have "so \<le> seg_offset m" "so \<le> seg_end m" using that wm(2) by simp_all
        then show "\<forall>y \<in> set ?r. so \<le> seg_offset y" using g(4) r(7) by (metis Un_iff order_trans set_append set_ConsD)
      qed
      have ends: "\<forall>y \<in> set ?r. seg_end y \<le> so'" if "n' \<noteq> 0"
        using g(4) r(3) r(8) [OF that] wm(2) by fastforce
      have past: "denote (m # ms) x = None" if "n' \<noteq> 0" "so' \<le> x" "x < se" for x
      proof -
        have "seg_end m \<le> x" using r(3) that(2) by simp
        then show ?thesis using r(9) [OF that(1) _ that(3)] that(2) by (simp add: covers_def)
      qed
      have c3: "n' \<noteq> 0 \<longrightarrow> (\<forall>m \<in> set ?r. seg_end m \<le> so') \<and>
          (\<forall>x. so \<le> x \<and> x < se \<longrightarrow> (if x < so' then denote ?r x = over (denote (m # ms)) B x else denote (m # ms) x = None))"
        using ends past D by (metis not_le)
      have c4: "n' = 0 \<longrightarrow> n \<noteq> 0 \<longrightarrow> (\<forall>x. so \<le> x \<and> x < se \<and> x < seg_end (last ?r) \<longrightarrow> denote ?r x = over (denote (m # ms)) B x)"
        using D by blast
      have c5: "length ?r + n' = n" "so \<le> so'" using r(3,5) g(3) part Cons.prems(5) by auto
      show ?thesis using run ok c5(2) r(4) c5(1) c1 c2 c3 c4 by (intro ex3I [of _ ?r so' n'] conjI)
    qed
  qed
qed

definition combo_blocks :: "ComboIndex \<Rightarrow> nat \<Rightarrow> (nat \<times> nat option) option" where
  "combo_blocks c = over (denote (mapping c)) (case m_backing_index c of None \<Rightarrow> \<lambda>_. None | Some bi \<Rightarrow> denote (ix_map bi))"

definition combo_ok :: "ComboIndex \<Rightarrow> bool" where
  "combo_ok c \<longleftrightarrow> segs_ok (mapping c) \<and> (\<forall>bi. m_backing_index c = Some bi \<longrightarrow> segs_ok (ix_map bi))"

lemma combo_backing_lookup:
  assumes c: "segs_ok F" and L: "looks_up L B" and s: "wf_seg s" "0 < seg_length s" and n: "0 < n"
  shows "\<exists>t. do {
      (r, soffset, n) \<leftarrow> combo_loop L (dropWhile (\<lambda>e. seg_less e s) F) (seg_offset s) (seg_end s) n;
      m1 \<leftarrow> (if n \<noteq> 0 \<and> soffset < seg_end s
             then L \<lparr>seg_offset = trunc 50 soffset, seg_length = trunc 14 (trunc 32 (seg_end s - soffset))\<rparr> n else Some []);
      trim_edge_mappings (r @ m1) s } = Some t \<and> lookup_ok (over (denote F) B) s n t"
proof -
  let ?xs = "takeWhile (\<lambda>e. seg_less e s) F" and ?ms = "dropWhile (\<lambda>e. seg_less e s) F"
  have split: "F = ?xs @ ?ms" by simp
  have okms: "segs_ok ?ms" using c split by (metis segs_ok_append)
  have se: "seg_end s < 2 ^ 50" "seg_offset s < 2 ^ 50" "seg_end s - seg_offset s \<le> MAX_LENGTH" using s by (auto simp: wf_seg_def seg_end_def)
  have "\<forall>m \<in> set ?ms. seg_offset s < seg_end m"
    using dropWhile_not [OF segs_ok_partition [OF c, of s]] by (auto simp: seg_less_def not_le)
  from combo_loop_spec [OF L okms se(2,1,3) this, of n] obtain r so n' where
    r: "combo_loop L ?ms (seg_offset s) (seg_end s) n = Some (r, so, n')" "segs_ok r" "seg_offset s \<le> so" "so < 2 ^ 50" "length r + n' = n"
      "\<forall>m \<in> set r. seg_offset s < seg_end m \<and> seg_offset m < seg_end s" "n' \<noteq> 0 \<Longrightarrow> \<forall>m \<in> set r. seg_end m \<le> so"
      "\<And>x. n' \<noteq> 0 \<Longrightarrow> seg_offset s \<le> x \<Longrightarrow> x < seg_end s \<Longrightarrow> (if x < so then denote r x = over (denote ?ms) B x else denote ?ms x = None)"
      "\<And>x. n' = 0 \<Longrightarrow> seg_offset s \<le> x \<Longrightarrow> x < seg_end s \<Longrightarrow> x < seg_end (last r) \<Longrightarrow> denote r x = over (denote ?ms) B x"
    using n by blast
  have F: "over (denote F) B x = over (denote ?ms) B x" if "seg_offset s \<le> x" for x
  proof -
    have "denote ?xs x = None" using that by (intro denote_below) (auto simp: seg_less_def dest: set_takeWhileD)
    then show ?thesis by (subst split) (simp add: over_def denote_append del: takeWhile_dropWhile_id)
  qed
  show ?thesis
  proof (cases "n' \<noteq> 0 \<and> so < seg_end s")
    case False
    have "\<exists>t. trim_edge_mappings r s = Some t \<and> lookup_ok (over (denote F) B) s n t"
    proof (rule trim_lookup [OF r(2) _ s(2) _ n])
      show "\<forall>m \<in> set r. overlaps s m" using r(6) by (simp add: overlaps_def)
      show "length r \<le> n" using r(5) by simp
      show "denote r x = over (denote F) B x" if "covers s x" "length r = n \<longrightarrow> x < seg_end (last r)" for x
        using that False F [of x] r(5) r(8,9) [of x] by (cases "n' = 0") (auto simp: covers_def)
    qed
    with r(1) False show ?thesis by auto
  next
    case True
    have "seg_end s - so \<le> MAX_LENGTH" using se(3) r(3) by linarith
    then obtain m1 where
      m1: "L \<lparr>seg_offset = trunc 50 so, seg_length = trunc 14 (trunc 32 (seg_end s - so))\<rparr> n' = Some m1" "segs_ok m1" "length m1 \<le> n'"
        "\<forall>m \<in> set m1. so \<le> seg_offset m \<and> seg_end m \<le> seg_end s"
        "\<And>x. denote m1 x = (if so \<le> x \<and> x < seg_end s \<and> (length m1 = n' \<longrightarrow> x < seg_end (last m1)) then B x else None)"
      using looks_up_gap [OF L _ se(1), of so n'] True by blast
    have rb: "\<forall>m \<in> set r. seg_end m \<le> so" using r(7) True by simp
    have pos: "seg_offset m < seg_end m" if "m \<in> set m1" for m using that m1(2) wf_mapD(2) by (auto simp: segs_ok_def)
    have "\<exists>t. trim_edge_mappings (r @ m1) s = Some t \<and> lookup_ok (over (denote F) B) s n t"
    proof (rule trim_lookup [OF _ _ s(2) _ n])
      show "segs_ok (r @ m1)" using r(2) m1(2,4) rb by (auto simp: segs_ok_append seg_less_def intro: order_trans)
      show "\<forall>m \<in> set (r @ m1). overlaps s m"
        using r(3,6) m1(4) pos unfolding overlaps_def by (metis Un_iff order_le_less_trans order_less_le_trans set_append)
      show "length (r @ m1) \<le> n" using r(5) m1(3) by simp
      show "denote (r @ m1) x = over (denote F) B x" if x: "covers s x" "length (r @ m1) = n \<longrightarrow> x < seg_end (last (r @ m1))" for x
      proof (cases "x < so")
        case lt: True
        have "denote m1 x = None" using lt m1(5) by simp
        then show ?thesis using lt x(1) True F [of x] r(8) [of x] by (simp add: covers_def denote_append split: option.split)
      next
        case ge: False
        have "denote r x = None" using ge rb by (intro denote_below) force
        moreover have "length m1 = n' \<longrightarrow> x < seg_end (last m1)" using x(2) r(5) True by (cases m1) auto
        ultimately show ?thesis using ge x(1) True F [of x] r(8) [of x] m1(5) [of x] by (simp add: covers_def denote_append over_def)
      qed
    qed
    with r(1) m1(1) True show ?thesis by auto
  qed
qed

lemma ComboIndex_lookup_spec:
  assumes c: "combo_ok c" and s: "wf_seg s" and n: "0 < n"
  shows "\<exists>r. ComboIndex_lookup c s n = Some r \<and> lookup_ok (combo_blocks c) s n r"
proof (cases "seg_length s = 0")
  case True
  then show ?thesis using lookup_ok_empty [OF True n] by (simp add: ComboIndex_lookup_def)
next
  case False
  then have eq: "seg_less e (new_SegmentMapping (seg_offset s) (seg_length s) 0 0) = seg_less e s" for e :: SegmentMapping
    using s by (simp add: seg_less_def new_SegmentMapping_def trunc_id wf_seg_def seg_end_def)
  show ?thesis
  proof (cases "m_backing_index c")
    case None
    have "over (denote (mapping c)) (\<lambda>_. None) = denote (mapping c)" by (simp add: fun_eq_iff over_def split: option.split)
    then show ?thesis using Index0_lookup_spec [of "Index0.truncate c" s n] c s n False None
      by (simp add: ComboIndex_lookup_def combo_blocks_def combo_ok_def Index0.defs)
  next
    case (Some bi)
    have "looks_up (Index_lookup bi) (denote (ix_map bi))"
      using index.lookup_spec c Some by (auto simp: looks_up_def combo_ok_def Index_ok_def)
    from combo_backing_lookup [OF _ this s, of "mapping c" n] c False n Some show ?thesis
      by (simp add: ComboIndex_lookup_def combo_blocks_def combo_ok_def eq)
  qed
qed

interpretation combo: memory_index ComboIndex_lookup combo_ok combo_blocks
  by unfold_locales (rule ComboIndex_lookup_spec)


section \<open>Correctness of checks and compression\<close>

lemma verify_mapping_order_iff: "\<forall>m \<in> set ms. wf_map m \<Longrightarrow> verify_mapping_order ms \<longleftrightarrow> segs_ok ms"
proof (induction ms rule: verify_mapping_order.induct)
  case (1 a b ms)
  have "\<forall>y \<in> set ms. seg_less a y" if "seg_less a b" "\<forall>y \<in> set ms. seg_less b y"
    using that seg_less_trans "1.prems" by fastforce
  with 1 show ?case by auto
qed auto

definition joined :: "SegmentMapping \<Rightarrow> SegmentMapping \<Rightarrow> SegmentMapping" where
  "joined a b = a\<lparr>seg_length := trunc 14 (seg_length a + seg_length b)\<rparr>"

lemma joined_laws:
  assumes "seg_length a + seg_length b < MAX_LENGTH" "seg_end a = seg_offset b"
  shows "seg_offset (joined a b) = seg_offset a" "seg_end (joined a b) = seg_end b" "seg_length (joined a b) = seg_length a + seg_length b"
    "zeroed (joined a b) = zeroed a" "tag (joined a b) = tag a" "moffset (joined a b) = moffset a"
proof -
  have "trunc 14 (seg_length a + seg_length b) = seg_length a + seg_length b" using assms(1) by (intro trunc_id) (simp add: MAX_LENGTH_def)
  then show "seg_offset (joined a b) = seg_offset a" "seg_end (joined a b) = seg_end b" "seg_length (joined a b) = seg_length a + seg_length b"
    "zeroed (joined a b) = zeroed a" "tag (joined a b) = tag a" "moffset (joined a b) = moffset a"
    using assms(2) by (simp_all add: joined_def seg_end_def)
qed

lemma joined_ok:
  assumes "wf_map a" "wf_map b" "mergeable a b"
  shows "wf_map (joined a b)" "denote [joined a b] x = denote [a, b] x"
proof -
  have m: "seg_end a = seg_offset b" "mend a = moffset b" "zeroed a = zeroed b" "tag a = tag b" "seg_length a + seg_length b < MAX_LENGTH"
    using assms(3) by (simp_all add: mergeable_def)
  note j = joined_laws [OF m(5,1)]
  show "wf_map (joined a b)"
    using assms(1,2) m j by (auto simp: wf_map_def wf_seg_def mend_def split: if_splits)
  have c: "covers (joined a b) x \<longleftrightarrow> covers a x \<or> covers b x" using j m(1) wf_mapD(2) assms(1,2) by (fastforce simp: covers_def)
  have "covers a x \<Longrightarrow> target (joined a b) x = target a x" using j by (simp add: target_def)
  moreover have "target (joined a b) x = target b x" if "covers b x"
    using that j m by (auto simp: target_def mend_def covers_def seg_end_def)
  ultimately show "denote [joined a b] x = denote [a, b] x" using c by auto
qed

lemma compress_loop_ok:
  assumes "segs_ok (cur # ms)"
  shows "segs_ok (compress_loop cur ms) \<and> (\<forall>x. denote (compress_loop cur ms) x = denote (cur # ms) x) \<and>
    length (compress_loop cur ms) \<le> length (cur # ms) \<and> (\<forall>m \<in> set (compress_loop cur ms). seg_offset cur \<le> seg_offset m)"
  using assms
proof (induction cur ms rule: compress_loop.induct)
  case (1 cur)
  then show ?case by simp
next
  case (2 cur m ms)
  show ?case
  proof (cases "mergeable cur m")
    case True
    have w: "wf_map cur" "wf_map m" using "2.prems" by simp_all
    have off: "seg_offset (joined cur m) = seg_offset cur" "seg_end (joined cur m) = seg_end m"
      using True by (auto simp: mergeable_def intro!: joined_laws)
    have ok: "segs_ok (joined cur m # ms)"
      using "2.prems" joined_ok(1) [OF w True] off(2) by (auto simp: seg_less_def)
    have "denote (joined cur m # ms) x = denote (cur # m # ms) x" for x
      using joined_ok(2) [OF w True, of x] denote_append [of "[joined cur m]" ms x] denote_append [of "[cur, m]" ms x] by simp
    then show ?thesis using "2.IH"(1) [OF True] ok True off(1) unfolding joined_def [symmetric] by (auto simp: joined_def [symmetric])
  next
    case False
    then have IH: "segs_ok (compress_loop m ms)" "\<forall>x. denote (compress_loop m ms) x = denote (m # ms) x"
      "length (compress_loop m ms) \<le> length (m # ms)" "\<forall>y \<in> set (compress_loop m ms). seg_offset m \<le> seg_offset y"
      using "2.IH"(2) "2.prems" by auto
    have "seg_end cur \<le> seg_offset m" "wf_map cur" using "2.prems" by (simp_all add: seg_less_def)
    then show ?thesis using IH False wf_mapD(2) [of cur] by (auto simp: seg_less_def intro: order_trans)
  qed
qed

lemma compress_ok:
  assumes "segs_ok ms"
  shows "segs_ok (compress_raw_index ms) \<and> (\<forall>x. denote (compress_raw_index ms) x = denote ms x) \<and> length (compress_raw_index ms) \<le> length ms"
  using compress_loop_ok [of "hd ms" "tl ms"] assms by (cases ms) auto

text \<open>The prediction is a greedy partition with fewer conditions, hence it has at most as many parts.\<close>

lemma predict_le:
  assumes "seg_end m = seg_end cur" "tag m = tag cur" "zeroed m = zeroed cur"
  shows "predict_loop m ms \<le> length (compress_loop cur ms) \<and> (seg_length m \<le> seg_length cur \<longrightarrow> predict_loop m ms + 1 \<le> length (compress_loop cur ms))"
  using assms
proof (induction ms arbitrary: m cur)
  case (Cons x xs)
  have self: "predict_loop x xs + 1 \<le> length (compress_loop x xs)" using Cons.IH [of x x] by simp
  have jp: "seg_end (joined m x) = seg_end x" "tag (joined m x) = tag x" "zeroed (joined m x) = zeroed x" "seg_length (joined m x) = seg_length m + seg_length x"
    if "mergeable_predict m x" using that joined_laws [of m x] by (auto simp: mergeable_predict_def)
  have jc: "seg_end (joined cur x) = seg_end x" "tag (joined cur x) = tag x" "zeroed (joined cur x) = zeroed x" "seg_length (joined cur x) = seg_length cur + seg_length x"
    if "mergeable cur x" using that joined_laws [of cur x] by (auto simp: mergeable_def)
  have weak: "mergeable_predict m x" if "mergeable cur x" "seg_length m \<le> seg_length cur"
    using that Cons.prems by (auto simp: mergeable_def mergeable_predict_def)
  consider (both) "mergeable cur x" "mergeable_predict m x" | (compress) "mergeable cur x" "\<not> mergeable_predict m x"
    | (predict) "\<not> mergeable cur x" "mergeable_predict m x" | (none) "\<not> mergeable cur x" "\<not> mergeable_predict m x" by blast
  then show ?case
  proof cases
    case both
    then show ?thesis using Cons.IH [of "joined m x" "joined cur x"] jp jc by (simp add: joined_def [symmetric])
  next
    case compress
    then show ?thesis using Cons.IH [of x "joined cur x"] jc weak by (auto simp: joined_def [symmetric])
  next
    case predict
    then show ?thesis using Cons.IH [of "joined m x" x] jp by (simp add: joined_def [symmetric])
  next
    case none
    then show ?thesis using self by simp
  qed
qed simp

lemma denote_beyond: "segs_ok ms \<Longrightarrow> 2 ^ 50 \<le> x \<Longrightarrow> denote ms x = None"
  using wf_mapD(4) by (intro denote_below) (fastforce simp: segs_ok_def)


section \<open>Properties\<close>

lemma layered_beyond: "\<forall>ms \<in> set layers. segs_ok ms \<Longrightarrow> 2 ^ 50 \<le> x \<Longrightarrow> layered level layers x = None"
  by (induction layers arbitrary: level) (auto simp: over_def denote_beyond)

lemma new_Index_vector_laws: "segs_ok ms \<Longrightarrow> ix_map (new_Index_vector ms v) = ms \<and> ix_vsize (new_Index_vector ms v) = v \<and>
  ix_alloc_blk (new_Index_vector ms v) = blocks_sum ms"
  using fold_blocks [of 0 ms] blocks_sum_less [of ms] by (simp add: new_Index_vector_def get_alloc_blks_def new_Index_def)

text \<open>
  Property C24: the search through the levels of a \<open>LevelIndex\<close> returns for every segment and every size of
  the array exactly what the plain binary search of \<open>Index\<close> returns, for up to \<open>2\<^sup>3\<^sup>0\<close> mappings (and then
  none of its shifts overflows).
\<close>

theorem level_index_equiv:
  assumes "segs_ok ms" "length ms < 2 ^ 30"
  shows "LevelIndex_lookup (new_LevelIndex ms) s n = Index_lookup (new_Index ms vsize) s n"
  using assms by (rule LevelIndex_lookup_eq)

text \<open>
  Property C12: merging the indexes of the layers of an image gives an index in which every block is mapped
  as in the topmost layer that maps it, tagged with the number of that layer; the merged mappings are
  sorted and disjoint and the number of allocated blocks is exact. No layers, or more than 255, are an
  error.
\<close>

theorem merge_layers_correct:
  assumes "\<forall>ix \<in> set ixs. segs_ok (ix_map ix)"
  shows "if ixs = [] \<or> length ixs > 255 then merge_memory_indexes ixs = Some None
    else (\<exists>ix. merge_memory_indexes ixs = Some (Some ix) \<and> segs_ok (ix_map ix) \<and> ix_vsize ix = ix_vsize (hd ixs) \<and>
      ix_alloc_blk ix = sum_list (map seg_blocks (ix_map ix)) \<and> (\<forall>x. denote (ix_map ix) x = layered 0 (map ix_map ixs) x))"
proof (cases "ixs = [] \<or> length ixs > 255")
  case True
  then show ?thesis by (auto simp: merge_memory_indexes_def)
next
  case False
  then have "fills (merge_indexes 0 ixs) (layered 0 (map ix_map ixs))" using assms by (intro fills_merge_indexes) auto
  then obtain r where r: "merge_indexes 0 ixs 0 UINT64_MAX = Some r" "segs_ok r"
    "\<And>x. denote r x = (if 0 \<le> x \<and> x < UINT64_MAX then layered 0 (map ix_map ixs) x else None)"
    unfolding fills_def by (metis zero_less_numeral zero_less_power)
  have "denote r x = layered 0 (map ix_map ixs) x" for x
    using r(3) [of x] layered_beyond [of "map ix_map ixs" x 0] assms by (cases "x < 2 ^ 50") (auto simp: UINT64_MAX_def)
  then show ?thesis
    using False r(1,2) new_Index_vector_laws [OF r(2), of "ix_vsize (hd ixs)"] by (auto simp: merge_memory_indexes_def blocks_sum_def)
qed

text \<open>
  Property C16: a combined index behaves as one index: a lookup returns exactly the mapped blocks of the
  segment, from the writable index where it maps them (with the tags moved by the number of read-only
  layers) and from the backing index elsewhere.
\<close>

theorem combo_lookup_correct:
  assumes "segs_ok (mapping i0)" "segs_ok (ix_map i1)" "wf_seg s" "0 < n"
  shows "\<exists>c r. create_combo_index (Some i0) (Some i1) k = Some c \<and> ComboIndex_lookup c s n = Some r \<and>
    lookup_ok (over (denote (map (\<lambda>m. m\<lparr>tag := trunc 8 (tag m + trunc 8 k)\<rparr>) (mapping i0))) (denote (ix_map i1))) s n r"
proof -
  let ?c = "new_ComboIndex i0 (Some i1) (trunc 8 k)"
  have "retags (\<lambda>m. m\<lparr>tag := trunc 8 (tag m + trunc 8 k)\<rparr>)" by (auto simp: retags_def seg_end_def wf_map_def wf_seg_def trunc_def)
  from segs_ok_retag [OF this assms(1)] have "combo_ok ?c" using assms(2) by (simp add: combo_ok_def new_ComboIndex_def)
  from combo.lookup_spec [OF this assms(3,4)] show ?thesis
    by (auto simp: create_combo_index_def combo_blocks_def new_ComboIndex_def)
qed

text \<open>
  Property C15: reading through a combined index with \<open>foreach_segments\<close> terminates and visits every block of
  the segment exactly once and in order: blocks with data with their place in the data file of their
  layer, all others as zeros. A callback that fails ends the iteration with its result, except for the
  one for the hole at the end, whose result is ignored.
\<close>

theorem foreach_segments_exact:
  assumes "combo_ok c" "wf_seg s"
  shows "\<exists>vs tl. trace_ok (combo_blocks c) (seg_offset s) (seg_end s) (vs @ tl) \<and> (tl = [] \<or> (\<exists>z. tl = [Zero z])) \<and>
    (\<forall>cb (st :: 's). foreach_segments (ComboIndex_lookup c) cb s st =
      Some (case run_visits cb vs st of Inl ret \<Rightarrow> ret | Inr st \<Rightarrow> (0, fold (\<lambda>v st. snd (cb v st)) tl st)))"
  using assms by (rule combo.foreach_segments_spec)

text \<open>
  The read-only index made from a combined index has the same blocks as the combined index,
  with their tags.
\<close>

theorem combo_read_only_equiv:
  assumes "combo_ok c"
  shows "\<exists>ix. ComboIndex_make_read_only_index c = Some ix \<and> segs_ok (ix_map ix) \<and> (\<forall>x. denote (ix_map ix) x = combo_blocks c x)"
proof -
  let ?ro = "Index_assign (mapping c) (new_Index [] 0)"
  have ro: "ix_map ?ro = mapping c" by (simp add: Index_assign_def get_alloc_blks_def)
  have ok: "segs_ok (mapping c)" using assms by (simp add: combo_ok_def)
  show ?thesis
  proof (cases "m_backing_index c")
    case None
    then show ?thesis using ok ro by (simp add: ComboIndex_make_read_only_index_def combo_blocks_def over_def split: option.split)
  next
    case (Some bi)
    then have okb: "segs_ok (ix_map bi)" using assms by (simp add: combo_ok_def)
    from fills_merge_keep2 [OF _ okb, of ?ro 0] ok ro obtain r where
      r: "merge_indexes_keep (Suc (Suc 0)) [?ro, bi] 2 0 UINT64_MAX = Some r" "segs_ok r"
        "\<And>x. denote r x = (if 0 \<le> x \<and> x < UINT64_MAX then over (denote (mapping c)) (denote (ix_map bi)) x else None)"
      unfolding fills_def by (metis zero_less_numeral zero_less_power)
    have "denote r x = combo_blocks c x" for x
      using r(3) [of x] denote_beyond [OF ok, of x] denote_beyond [OF okb, of x] Some
      by (cases "x < 2 ^ 50") (auto simp: UINT64_MAX_def combo_blocks_def over_def)
    then show ?thesis
      using r(1,2) Some new_Index_vector_laws [OF r(2), of 0] by (simp add: ComboIndex_make_read_only_index_def numeral_2_eq_2 del: merge_indexes_keep.simps)
  qed
qed

text \<open>
  Compressing an index changes no block and never makes it longer, and the predicted size is a
  lower bound of the size after compression. (It can be smaller, since the prediction does not compare the
  mapped offsets; the witness shows this.)
\<close>

theorem compress_preserves_blocks:
  assumes "segs_ok ms"
  shows "segs_ok (compress_raw_index ms) \<and> (\<forall>x. denote (compress_raw_index ms) x = denote ms x) \<and>
    length (compress_raw_index ms) \<le> length ms \<and> compress_raw_index_predict ms \<le> length (compress_raw_index ms)"
  using compress_ok [OF assms] predict_le [of "hd ms" "hd ms" "tl ms"] by (cases ms) auto


text \<open>
  A combined index does not take over the number of allocated blocks of the index it is made
  from: after a discard of blocks that were mapped there, the number wraps below zero. Here ten blocks
  are written, the combined index is made, and the ten blocks are discarded.
\<close>

theorem combo_block_count_wraps:
  "\<exists>i0 c c'. new_Index0 [new_SegmentMapping 0 10 0 0] = Some i0 \<and> m_alloc i0 = 10 \<and>
     create_combo_index (Some i0) (Some (new_Index [] 0)) 1 = Some c \<and>
     ComboIndex_insert (discard (new_SegmentMapping 0 10 0 0)) c = Some c' \<and> m_alloc c' = 2 ^ 64 - 10"
  by (simp add: new_Index0_def Index0_insert_def ComboIndex_insert_def create_combo_index_def new_ComboIndex_def new_Index_def
      Index0.defs sample_eval set_insert_def usage_add_def usage_sub_def remove_partial_overlap_def seg_less_def)

definition top_index :: Index where
  "top_index = new_Index [new_SegmentMapping 10 30 900 0] 200"

lemma sample_indexes_ok: "segs_ok (ix_map sample_index)" "segs_ok (ix_map top_index)"
  by (simp_all add: sample_index_def top_index_def new_Index_vector_def get_alloc_blks_def new_Index_def new_SegmentMapping_def wf_map_def wf_seg_def
      seg_end_def MAX_LENGTH_def trunc_def seg_less_def)

lemma sample_maps_of: "ix_map sample_index = [new_SegmentMapping 0 20 500 0, new_SegmentMapping 30 50 520 0]"
  "ix_map top_index = [new_SegmentMapping 10 30 900 0]"
  by (simp_all add: sample_index_def top_index_def new_Index_vector_def get_alloc_blks_def new_Index_def)

definition sample_combo :: ComboIndex where
  "sample_combo = \<lparr>mapping = ix_map top_index, m_alloc = 0, m_backing_index = Some sample_index\<rparr>"

lemma sample_combo_ok: "combo_ok sample_combo" "wf_seg \<lparr>seg_offset = 10, seg_length = 30\<rparr>"
  using sample_indexes_ok by (simp_all add: combo_ok_def sample_combo_def wf_seg_def seg_end_def MAX_LENGTH_def)

theorem level_index_equiv_witness:
  "LevelIndex_lookup (new_LevelIndex (ix_map sample_index)) \<lparr>seg_offset = 10, seg_length = 30\<rparr> 4 =
     Index_lookup (new_Index (ix_map sample_index) 0) \<lparr>seg_offset = 10, seg_length = 30\<rparr> 4"
  by (rule level_index_equiv [OF sample_indexes_ok(1)]) (simp add: sample_maps_of)

theorem merge_layers_correct_witness:
  "\<exists>ix. merge_memory_indexes [top_index, sample_index] = Some (Some ix) \<and> ix_vsize ix = 200 \<and>
     denote (ix_map ix) 5 = Some (1, Some 505) \<and> denote (ix_map ix) 35 = Some (0, Some 925) \<and> denote (ix_map ix) 90 = None"
proof -
  have "\<forall>ix \<in> set [top_index, sample_index]. segs_ok (ix_map ix)" using sample_indexes_ok by simp
  from merge_layers_correct [OF this] show ?thesis
    by (auto simp: sample_maps_of over_def sample_eval covers_def target_def) (simp add: top_index_def new_Index_def)
qed

theorem combo_lookup_correct_witness:
  "\<exists>c r. create_combo_index (Some \<lparr>mapping = ix_map top_index, m_alloc = 30\<rparr>) (Some sample_index) 1 = Some c \<and>
     ComboIndex_lookup c \<lparr>seg_offset = 10, seg_length = 30\<rparr> 4 = Some r \<and> segs_ok r"
  using combo_lookup_correct [of "\<lparr>mapping = ix_map top_index, m_alloc = 30\<rparr>" sample_index "\<lparr>seg_offset = 10, seg_length = 30\<rparr>" 4 1]
    sample_indexes_ok sample_combo_ok(2) by (auto simp: lookup_ok_def)

theorem foreach_segments_exact_witness:
  "\<exists>ret log. foreach_segments (ComboIndex_lookup sample_combo) (\<lambda>v st. (0, st @ [v])) \<lparr>seg_offset = 10, seg_length = 30\<rparr> [] = Some (ret, log) \<and>
     trace_ok (combo_blocks sample_combo) 10 40 log"
proof -
  have run: "run_visits (\<lambda>v st. (0, st @ [v])) vs st = Inr (st @ vs)" for vs st :: "visit list"
    by (induction vs arbitrary: st) (simp_all add: call_def)
  have tl: "fold (\<lambda>v st. snd (0 :: int, st @ [v])) ws st = st @ ws" for ws st :: "visit list"
    by (induction ws arbitrary: st) simp_all
  from foreach_segments_exact [OF sample_combo_ok, where 's = "visit list"] obtain vs tl where
    v: "trace_ok (combo_blocks sample_combo) 10 40 (vs @ tl)"
      "\<forall>cb (st :: visit list). foreach_segments (ComboIndex_lookup sample_combo) cb \<lparr>seg_offset = 10, seg_length = 30\<rparr> st =
        Some (case run_visits cb vs st of Inl ret \<Rightarrow> ret | Inr st \<Rightarrow> (0, fold (\<lambda>v st. snd (cb v st)) tl st))"
    by (auto simp: seg_end_def)
  then show ?thesis using tl [of tl vs] by (simp add: run)
qed

theorem combo_read_only_equiv_witness:
  "\<exists>ix. ComboIndex_make_read_only_index sample_combo = Some ix \<and> denote (ix_map ix) 35 = Some (0, Some 925) \<and>
     denote (ix_map ix) 45 = Some (0, Some 535)"
  using combo_read_only_equiv [OF sample_combo_ok(1)]
  by (auto simp: combo_blocks_def sample_combo_def over_def sample_maps_of sample_eval covers_def target_def)

theorem compress_preserves_blocks_witness:
  "length (compress_raw_index [new_SegmentMapping 0 8 100 0, new_SegmentMapping 8 8 500 0]) = 2 \<and>
   compress_raw_index_predict [new_SegmentMapping 0 8 100 0, new_SegmentMapping 8 8 500 0] = 1 \<and>
   denote (compress_raw_index [new_SegmentMapping 0 8 100 0, new_SegmentMapping 8 8 500 0]) 9 = Some (0, Some 501)"
proof -
  let ?ms = "[new_SegmentMapping 0 8 100 0, new_SegmentMapping 8 8 500 0]"
  have "segs_ok ?ms" by (simp add: new_SegmentMapping_def wf_map_def wf_seg_def seg_end_def MAX_LENGTH_def trunc_def seg_less_def)
  from compress_preserves_blocks [OF this] show ?thesis
    by (simp add: mergeable_def mergeable_predict_def mend_def MAX_LENGTH_def sample_eval covers_def target_def)
qed


end
