(* ===== verification/LSMT_Format.thy ===== *)
theory LSMT_Format
  imports LSMT_Layers
begin

text \<open>
  The format of the files of a layer (\<open>overlaybd/lsmt/file.cpp\<close>): the bytes of a mapping and of a
  header or trailer, and the file operations that the layers use. Files and UUIDs are classes of the
  library Photon; their methods are the fields of the record \<open>photon\<close>, which every operation takes as
  an argument, and \<open>file_laws\<close> states what POSIX promises about them.
\<close>

section \<open>Numbers as bytes\<close>

primrec le_bytes :: "nat \<Rightarrow> nat \<Rightarrow> u8 list" where
  "le_bytes 0 x = []"
| "le_bytes (Suc n) x = of_nat x # le_bytes n (x div 256)"

primrec le_nat :: "u8 list \<Rightarrow> nat" where
  "le_nat [] = 0"
| "le_nat (b # bs) = unat b + 256 * le_nat bs"

lemma length_le_bytes [simp]: "length (le_bytes n x) = n"
  by (induction n arbitrary: x) simp_all

lemma le_nat_le_bytes: "le_nat (le_bytes n x) = x mod 256 ^ n"
proof (induction n arbitrary: x)
  case (Suc n)
  have "unat (of_nat x :: u8) = x mod 256" by (simp add: unat_of_nat)
  then show ?case using Suc by (simp add: mod_mult2_eq)
qed simp

lemma le_nat_id: "x < 256 ^ n \<Longrightarrow> le_nat (le_bytes n x) = x"
  by (simp add: le_nat_le_bytes)

text \<open>A buffer is cut into the fields of a packed struct by their sizes.\<close>

fun cut :: "nat list \<Rightarrow> u8 list \<Rightarrow> u8 list list" where
  "cut [] bs = []"
| "cut (n # ns) bs = take n bs # cut ns (drop n bs)"

lemma cut_concat: "ns = map length fs \<Longrightarrow> cut ns (concat fs @ rest) = fs"
  by (induction fs arbitrary: ns) auto

lemma length_cut [simp]: "length (cut ns bs) = length ns"
  by (induction ns bs rule: cut.induct) simp_all


section \<open>Mappings\<close>

text \<open>
  The bit fields of a mapping, of 50, 14, 55, 1 and 8 bits, fill two words of 64 bits from the lowest bit
  on, and a word is stored with its lowest byte first.
\<close>

definition mapping_bytes :: "SegmentMapping \<Rightarrow> u8 list" where
  "mapping_bytes m = le_bytes 8 (seg_offset m + 2 ^ 50 * seg_length m) @
     le_bytes 8 (moffset m + 2 ^ 55 * (of_bool (zeroed m) + 2 * tag m))"

definition mapping_of :: "u8 list \<Rightarrow> SegmentMapping" where
  "mapping_of bs =
     (let w0 = le_nat (take 8 bs); w1 = le_nat (take 8 (drop 8 bs)) in
      \<lparr>seg_offset = w0 mod 2 ^ 50, seg_length = w0 div 2 ^ 50, moffset = w1 mod 2 ^ 55,
       zeroed = odd (w1 div 2 ^ 55), tag = w1 div 2 ^ 56\<rparr>)"

definition SIZEOF_MAPPING :: nat where
  "SIZEOF_MAPPING = 16"

text \<open>The array of \<open>n\<close> mappings in a buffer.\<close>

fun mappings_of :: "nat \<Rightarrow> u8 list \<Rightarrow> SegmentMapping list" where
  "mappings_of 0 bs = []"
| "mappings_of (Suc n) bs = mapping_of bs # mappings_of n (drop SIZEOF_MAPPING bs)"

definition index_bytes :: "SegmentMapping list \<Rightarrow> u8 list" where
  "index_bytes ms = concat (map mapping_bytes ms)"

definition fields_ok :: "SegmentMapping \<Rightarrow> bool" where
  "fields_ok m \<longleftrightarrow> seg_offset m < 2 ^ 50 \<and> seg_length m < 2 ^ 14 \<and> moffset m < 2 ^ 55 \<and> tag m < 2 ^ 8"

lemma length_mapping_bytes [simp]: "length (mapping_bytes m) = SIZEOF_MAPPING"
  by (simp add: mapping_bytes_def SIZEOF_MAPPING_def)

lemma length_index_bytes [simp]: "length (index_bytes ms) = SIZEOF_MAPPING * length ms"
  by (induction ms) (simp_all add: index_bytes_def)

lemma index_bytes_simps [simp]:
  "index_bytes [] = []" "index_bytes (m # ms) = mapping_bytes m @ index_bytes ms" "index_bytes (xs @ ys) = index_bytes xs @ index_bytes ys"
  by (simp_all add: index_bytes_def)

lemma mapping_roundtrip:
  assumes "fields_ok m"
  shows "mapping_of (mapping_bytes m @ rest) = m"
proof -
  define z :: nat where "z = of_bool (zeroed m)"
  have f: "seg_offset m < 2 ^ 50" "seg_length m < 2 ^ 14" "moffset m < 2 ^ 55" "tag m < 2 ^ 8" "z < 2"
    using assms by (auto simp: fields_ok_def z_def)
  have w0: "seg_offset m + 2 ^ 50 * seg_length m < 256 ^ 8" and w1: "moffset m + 2 ^ 55 * (z + 2 * tag m) < 256 ^ 8"
    using f by simp_all
  have d: "le_nat (take 8 (mapping_bytes m @ rest)) = seg_offset m + 2 ^ 50 * seg_length m"
    "le_nat (take 8 (drop 8 (mapping_bytes m @ rest))) = moffset m + 2 ^ 55 * (z + 2 * tag m)"
    using w0 w1 by (simp_all add: mapping_bytes_def le_nat_id z_def del: power_numeral)
  have "(moffset m + 2 ^ 55 * (z + 2 * tag m)) div 2 ^ 55 = z + 2 * tag m" and mo: "(moffset m + 2 ^ 55 * (z + 2 * tag m)) mod 2 ^ 55 = moffset m"
    and so: "(seg_offset m + 2 ^ 50 * seg_length m) mod 2 ^ 50 = seg_offset m" "(seg_offset m + 2 ^ 50 * seg_length m) div 2 ^ 50 = seg_length m"
    using f(1,3) by (simp_all del: power_numeral distrib_left_numeral)
  moreover have "(moffset m + 2 ^ 55 * (z + 2 * tag m)) div 2 ^ 56 = (moffset m + 2 ^ 55 * (z + 2 * tag m)) div 2 ^ 55 div 2"
    by (simp add: div_mult2_eq [symmetric])
  ultimately have "odd ((moffset m + 2 ^ 55 * (z + 2 * tag m)) div 2 ^ 55) = zeroed m"
    "(moffset m + 2 ^ 55 * (z + 2 * tag m)) div 2 ^ 56 = tag m"
    by (simp_all add: z_def del: power_numeral distrib_left_numeral)
  then show ?thesis
    unfolding mapping_of_def Let_def d mo so by simp
qed

lemma index_roundtrip:
  assumes "\<forall>m \<in> set ms. fields_ok m" "n \<le> length ms"
  shows "mappings_of n (index_bytes ms @ rest) = take n ms"
  using assms
proof (induction ms arbitrary: n)
  case (Cons m ms)
  then show ?case by (cases n) (simp_all add: mapping_roundtrip)
qed simp

lemma new_fields_ok [simp]: "fields_ok (new_SegmentMapping a b c t)" "fields_ok invalid_mapping" "fields_ok (discard m) = fields_ok m"
  by (simp_all add: fields_ok_def new_SegmentMapping_def invalid_mapping_def discard_def trunc_def)

lemma wf_moffset: "wf_map m \<Longrightarrow> moffset m < 2 ^ 55"
  by (auto simp: wf_map_def split: if_splits)

lemma wf_fields_ok: "wf_map m \<Longrightarrow> fields_ok m"
  using wf_mapD [of m] wf_moffset [of m] by (simp only: fields_ok_def) (simp add: wf_map_def)


section \<open>Files and UUIDs of Photon\<close>

text \<open>
  The methods of \<open>photon::fs::IFile\<close> on a file of state \<open>'f\<close>. \<open>io_pread f count offset\<close> is the result of
  \<open>pread\<close> and the bytes stored in the buffer, \<open>io_end\<close> is \<open>lseek(0, SEEK_END)\<close>, \<open>io_size\<close> the result of
  \<open>fstat\<close> and \<open>st_size\<close>, \<open>io_seek_data\<close> and \<open>io_seek_hole\<close> are \<open>lseek\<close> with \<open>SEEK_DATA\<close> and \<open>SEEK_HOLE\<close>. \<open>uuid_string\<close> is the conversion of the 16 bytes of a UUID to its text of 37 bytes,
  \<open>uuid_parse\<close> the inverse, which fails on a text that is not a UUID.
\<close>

record 'f photon =
  io_pread :: "'f \<Rightarrow> nat \<Rightarrow> nat \<Rightarrow> int \<times> u8 list"
  io_end :: "'f \<Rightarrow> int \<times> 'f"
  io_write :: "'f \<Rightarrow> u8 list \<Rightarrow> int \<times> 'f"
  io_pwrite :: "'f \<Rightarrow> u8 list \<Rightarrow> nat \<Rightarrow> int \<times> 'f"
  io_size :: "'f \<Rightarrow> int \<times> nat"
  io_trim :: "'f \<Rightarrow> nat \<Rightarrow> nat \<Rightarrow> int \<times> 'f"
  io_truncate :: "'f \<Rightarrow> nat \<Rightarrow> int \<times> 'f"
  io_seek_data :: "'f \<Rightarrow> nat \<Rightarrow> int"
  io_seek_hole :: "'f \<Rightarrow> nat \<Rightarrow> int"
  uuid_string :: "u8 list \<Rightarrow> u8 list"
  uuid_parse :: "u8 list \<Rightarrow> u8 list option"

text \<open>Writing bytes into a file at a position; a gap in front of it reads as zeros.\<close>

definition overwrite :: "u8 list \<Rightarrow> nat \<Rightarrow> u8 list \<Rightarrow> u8 list" where
  "overwrite c p bs = (if bs = [] then c else take p c @ replicate (p - length c) 0 @ bs @ drop (p + length bs) c)"

text \<open>
  What POSIX documents for regular files: a read returns at most \<open>count\<close> bytes of the content, a write
  at most all bytes of the buffer, and exactly the bytes it returns are transferred. A negative result
  transfers nothing.
\<close>

definition file_laws :: "'f photon \<Rightarrow> ('f \<Rightarrow> u8 list) \<Rightarrow> ('f \<Rightarrow> nat) \<Rightarrow> bool" where
  "file_laws P content pos \<longleftrightarrow>
     (\<forall>f n off r bs. io_pread P f n off = (r, bs) \<longrightarrow> r \<le> int n \<and> bs = take (nat r) (drop off (content f)) \<and> (0 \<le> r \<longrightarrow> length bs = nat r)) \<and>
     (\<forall>f r f'. io_end P f = (r, f') \<longrightarrow> r = int (length (content f)) \<and> content f' = content f \<and> pos f' = length (content f)) \<and>
     (\<forall>f bs r f'. io_write P f bs = (r, f') \<longrightarrow> r \<le> int (length bs) \<and>
        content f' = overwrite (content f) (pos f) (take (nat r) bs) \<and> pos f' = pos f + nat r) \<and>
     (\<forall>f bs off r f'. io_pwrite P f bs off = (r, f') \<longrightarrow> r \<le> int (length bs) \<and>
        content f' = overwrite (content f) off (take (nat r) bs) \<and> pos f' = pos f) \<and>
     (\<forall>f. io_size P f = (0, length (content f)))"

text \<open>A read of a file that is not interrupted: it returns everything up to the end of the file.\<close>

definition full_reads :: "'f photon \<Rightarrow> ('f \<Rightarrow> u8 list) \<Rightarrow> bool" where
  "full_reads P content \<longleftrightarrow>
     (\<forall>f n off. io_pread P f n off = (int (min n (length (content f) - off)), take n (drop off (content f))))"

lemma overwrite_simps [simp]:
  "overwrite c p [] = c"
  "overwrite c (length c) bs = c @ bs"
  by (simp_all add: overwrite_def)

lemma length_overwrite: "length (overwrite c p bs) = (if bs = [] then length c else max (length c) (p + length bs))"
  by (auto simp: overwrite_def)

lemma io_pread_full: "full_reads P content \<Longrightarrow> io_pread P f n off = (int (min n (length (content f) - off)), take n (drop off (content f)))"
  by (simp add: full_reads_def)

lemma io_end_law:
  assumes "file_laws P content pos"
  obtains f' where "io_end P f = (int (length (content f)), f')" "content f' = content f" "pos f' = length (content f)"
  using assms by (cases "io_end P f") (auto simp: file_laws_def)

lemma io_write_law:
  assumes "file_laws P content pos" "io_write P f bs = (r, f')"
  shows "r \<le> int (length bs)" "content f' = overwrite (content f) (pos f) (take (nat r) bs)" "pos f' = pos f + nat r"
  using assms by (auto simp: file_laws_def)

lemma io_pwrite_law:
  assumes "file_laws P content pos" "io_pwrite P f bs off = (r, f')"
  shows "r \<le> int (length bs)" "content f' = overwrite (content f) off (take (nat r) bs)" "pos f' = pos f"
  using assms by (auto simp: file_laws_def)

lemma io_size_law: "file_laws P content pos \<Longrightarrow> io_size P f = (0, length (content f))"
  by (simp add: file_laws_def)

lemma take_drop_overwrite:
  assumes "off + n \<le> p \<or> p + length bs \<le> off" "off + n \<le> length c"
  shows "take n (drop off (overwrite c p bs)) = take n (drop off c)"
  using assms by (auto simp: overwrite_def take_drop min_def)


section \<open>Headers and trailers\<close>

definition SPACE :: nat where
  "SPACE = 4096"

definition TAG_SIZE :: nat where
  "TAG_SIZE = 256"

definition ALIGNMENT :: nat where
  "ALIGNMENT = 512"

definition MAGIC0 :: "u8 list" where
  "MAGIC0 = [0x4c, 0x53, 0x4d, 0x54, 0, 1, 2, 0]"

definition MAGIC1 :: "u8 list" where
  "MAGIC1 = le_bytes 4 0xd2637e65 @ le_bytes 2 0x4494 @ le_bytes 2 0x4c08 @ le_bytes 2 0xd2a2 @ [0xc8, 0xec, 0x4f, 0xcf, 0xae, 0x8a]"

record HeaderTrailer =
  magic0 :: "u8 list"
  magic1 :: "u8 list"
  ht_size :: nat
  flags :: u32
  index_offset :: nat
  index_size :: nat
  virtual_size :: nat
  uuid :: "u8 list"
  parent_uuid :: "u8 list"
  reserved :: nat
  version :: nat
  sub_version :: nat
  user_tag :: "u8 list"

definition FLAG_SHIFT_HEADER :: nat where "FLAG_SHIFT_HEADER = 0"
definition FLAG_SHIFT_TYPE :: nat where "FLAG_SHIFT_TYPE = 1"
definition FLAG_SHIFT_SEALED :: nat where "FLAG_SHIFT_SEALED = 2"
definition FLAG_SPARSE_RW :: nat where "FLAG_SPARSE_RW = 4"

definition get_flag_bit :: "nat \<Rightarrow> HeaderTrailer \<Rightarrow> u32" where
  "get_flag_bit shift h = flags h AND push_bit shift 1"

definition set_flag_bit :: "nat \<Rightarrow> HeaderTrailer \<Rightarrow> HeaderTrailer" where
  "set_flag_bit shift h = h\<lparr>flags := flags h OR push_bit shift 1\<rparr>"

definition clr_flag_bit :: "nat \<Rightarrow> HeaderTrailer \<Rightarrow> HeaderTrailer" where
  "clr_flag_bit shift h = h\<lparr>flags := flags h AND NOT (push_bit shift 1)\<rparr>"

definition verify_magic :: "HeaderTrailer \<Rightarrow> bool" where
  "verify_magic h = (magic0 h = MAGIC0 \<and> magic1 h = MAGIC1)"

definition is_header :: "HeaderTrailer \<Rightarrow> bool" where
  "is_header h = (get_flag_bit FLAG_SHIFT_HEADER h \<noteq> 0)"

definition is_data_file :: "HeaderTrailer \<Rightarrow> bool" where
  "is_data_file h = (get_flag_bit FLAG_SHIFT_TYPE h \<noteq> 0)"

definition is_sealed :: "HeaderTrailer \<Rightarrow> bool" where
  "is_sealed h = (get_flag_bit FLAG_SHIFT_SEALED h \<noteq> 0)"

definition is_sparse_rw :: "HeaderTrailer \<Rightarrow> bool" where
  "is_sparse_rw h = (get_flag_bit FLAG_SPARSE_RW h \<noteq> 0)"

text \<open>Reading more bytes of the tag than the caller's buffer has is undefined (\<open>None\<close>).\<close>

definition set_tag :: "u8 list \<Rightarrow> nat \<Rightarrow> HeaderTrailer \<Rightarrow> (int \<times> HeaderTrailer) option" where
  "set_tag buf n h =
     (if n > TAG_SIZE then Some (- 1, h)
      else if n = 0 then Some (0, h\<lparr>user_tag := replicate TAG_SIZE 0\<rparr>)
      else do {
        bug_on (n > length buf);
        Some (0, h\<lparr>user_tag := take n buf @ drop n (user_tag h)\<rparr>)
      })"

text \<open>
  The layout of the packed struct. A new one has the initialisers of the class; the other fields have the
  zeros of the buffer in which it is built.
\<close>

definition HeaderTrailer0 :: HeaderTrailer where
  "HeaderTrailer0 = \<lparr>magic0 = MAGIC0, magic1 = MAGIC1, ht_size = 390, flags = 0, index_offset = 0, index_size = 0, virtual_size = 0,
     uuid = replicate 37 0, parent_uuid = replicate 37 0, reserved = 0, version = 1, sub_version = 1, user_tag = replicate TAG_SIZE 0\<rparr>"

definition ht_layout :: "nat list" where
  "ht_layout = [8, 16, 4, 4, 8, 8, 8, 37, 37, 2, 1, 1, 256]"

definition ht_fields :: "HeaderTrailer \<Rightarrow> u8 list list" where
  "ht_fields h = [magic0 h, magic1 h, le_bytes 4 (ht_size h), le_bytes 4 (unat (flags h)), le_bytes 8 (index_offset h),
     le_bytes 8 (index_size h), le_bytes 8 (virtual_size h), uuid h, parent_uuid h, le_bytes 2 (reserved h), le_bytes 1 (version h),
     le_bytes 1 (sub_version h), user_tag h]"

definition ht_bytes :: "HeaderTrailer \<Rightarrow> u8 list" where
  "ht_bytes h = concat (ht_fields h)"

definition ht_of :: "u8 list \<Rightarrow> HeaderTrailer" where
  "ht_of bs =
     (let f = (\<lambda>i. cut ht_layout bs ! i) in
      \<lparr>magic0 = f 0, magic1 = f 1, ht_size = le_nat (f 2), flags = of_nat (le_nat (f 3)), index_offset = le_nat (f 4),
       index_size = le_nat (f 5), virtual_size = le_nat (f 6), uuid = f 7, parent_uuid = f 8, reserved = le_nat (f 9),
       version = le_nat (f 10), sub_version = le_nat (f 11), user_tag = f 12\<rparr>)"

definition ht_ok :: "HeaderTrailer \<Rightarrow> bool" where
  "ht_ok h \<longleftrightarrow> map length (ht_fields h) = ht_layout \<and> ht_size h < 2 ^ 32 \<and> index_offset h < 2 ^ 64 \<and> index_size h < 2 ^ 64 \<and>
     virtual_size h < 2 ^ 64 \<and> reserved h < 2 ^ 16 \<and> version h < 2 ^ 8 \<and> sub_version h < 2 ^ 8"

lemma ht_roundtrip:
  assumes "ht_ok h"
  shows "ht_of (ht_bytes h @ rest) = h"
proof -
  have c: "cut ht_layout (ht_bytes h @ rest) = ht_fields h"
    using assms unfolding ht_bytes_def by (intro cut_concat) (simp add: ht_ok_def)
  have n: "le_nat (le_bytes 4 (ht_size h)) = ht_size h" "le_nat (le_bytes 4 (unat (flags h))) = unat (flags h)"
    "le_nat (le_bytes 8 (index_offset h)) = index_offset h" "le_nat (le_bytes 8 (index_size h)) = index_size h"
    "le_nat (le_bytes 8 (virtual_size h)) = virtual_size h" "le_nat (le_bytes 2 (reserved h)) = reserved h"
    "unat (of_nat (version h) :: u8) = version h" "unat (of_nat (sub_version h) :: u8) = sub_version h"
    using assms unsigned_less [of "flags h"] by (auto simp: ht_ok_def unat_of_nat intro!: le_nat_id)
  show ?thesis
    unfolding ht_of_def c by (simp add: ht_fields_def n)
qed

text \<open>The arguments of a new layer.\<close>

record LayerInfo =
  l_virtual_size :: nat
  l_parent_uuid :: "u8 list"
  l_uuid :: "u8 list"
  l_user_tag :: "u8 list"
  l_sparse_rw :: bool
  l_len :: nat

definition set_flag :: "nat \<Rightarrow> bool \<Rightarrow> HeaderTrailer \<Rightarrow> HeaderTrailer" where
  "set_flag shift b h = (if b then set_flag_bit shift h else clr_flag_bit shift h)"

definition make_header_trailer :: "'f photon \<Rightarrow> bool \<Rightarrow> bool \<Rightarrow> bool \<Rightarrow> nat \<Rightarrow> nat \<Rightarrow> LayerInfo \<Rightarrow> HeaderTrailer" where
  "make_header_trailer P header sealed data_file ioff isize args =
     (set_flag FLAG_SPARSE_RW (l_sparse_rw args) (set_flag FLAG_SHIFT_TYPE data_file
       (set_flag FLAG_SHIFT_SEALED sealed (set_flag FLAG_SHIFT_HEADER header HeaderTrailer0))))
     \<lparr>index_offset := ioff, index_size := isize, virtual_size := l_virtual_size args,
      uuid := uuid_string P (l_uuid args), parent_uuid := uuid_string P (l_parent_uuid args)\<rparr>"

definition ht_page :: "HeaderTrailer \<Rightarrow> u8 list" where
  "ht_page h = ht_bytes h @ replicate (SPACE - length (ht_bytes h)) 0"

definition write_header_trailer ::
    "'f photon \<Rightarrow> 'f \<Rightarrow> bool \<Rightarrow> bool \<Rightarrow> bool \<Rightarrow> nat \<Rightarrow> nat \<Rightarrow> LayerInfo \<Rightarrow> (int \<times> 'f) option" where
  "write_header_trailer P f header sealed data_file ioff isize args = do {
     (r, h) \<leftarrow> set_tag (l_user_tag args) (l_len args) (make_header_trailer P header sealed data_file ioff isize args);
     if r \<noteq> 0 then Some (- 1, f) else Some (io_write P f (ht_page h))
   }"


section \<open>Reading back a header\<close>

lemma get_flag_bit_iff: "get_flag_bit a h \<noteq> 0 \<longleftrightarrow> bit (flags h) a"
  by (simp only: get_flag_bit_def bit_iff_and_push_bit_not_eq_0)

lemma flags_set_flag: "a < 32 \<Longrightarrow> bit (flags (set_flag b v h)) a \<longleftrightarrow> (if a = b then v else bit (flags h) a)"
  by (auto simp: set_flag_def set_flag_bit_def clr_flag_bit_def bit_simps)

lemmas flag_shifts = FLAG_SHIFT_HEADER_def FLAG_SHIFT_TYPE_def FLAG_SHIFT_SEALED_def FLAG_SPARSE_RW_def

lemma set_flag_keeps [simp]:
  "magic0 (set_flag b v h) = magic0 h" "magic1 (set_flag b v h) = magic1 h" "index_offset (set_flag b v h) = index_offset h"
  "index_size (set_flag b v h) = index_size h" "virtual_size (set_flag b v h) = virtual_size h" "uuid (set_flag b v h) = uuid h"
  "parent_uuid (set_flag b v h) = parent_uuid h" "user_tag (set_flag b v h) = user_tag h" "ht_size (set_flag b v h) = ht_size h"
  "reserved (set_flag b v h) = reserved h" "version (set_flag b v h) = version h" "sub_version (set_flag b v h) = sub_version h"
  by (simp_all add: set_flag_def set_flag_bit_def clr_flag_bit_def)

text \<open>The arguments for which a header can be written: a tag of at most 256 bytes, and sizes below \<open>2\<^sup>6\<^sup>4\<close>.\<close>

definition layer_ok :: "'f photon \<Rightarrow> LayerInfo \<Rightarrow> bool" where
  "layer_ok P l \<longleftrightarrow> l_virtual_size l < 2 ^ 64 \<and> l_len l \<le> TAG_SIZE \<and> l_len l \<le> length (l_user_tag l) \<and>
     length (uuid_string P (l_uuid l)) = 37 \<and> length (uuid_string P (l_parent_uuid l)) = 37"

lemma length_ht_bytes: "ht_ok h \<Longrightarrow> length (ht_bytes h) = 390"
proof -
  assume "ht_ok h"
  then have "map length (ht_fields h) = ht_layout" by (simp add: ht_ok_def)
  then have "sum_list (map length (ht_fields h)) = sum_list ht_layout" by simp
  then show ?thesis by (simp add: ht_bytes_def length_concat ht_layout_def)
qed

lemma length_ht_page [simp]: "ht_ok h \<Longrightarrow> length (ht_page h) = SPACE"
  by (simp add: ht_page_def length_ht_bytes SPACE_def)

lemma ht_of_page: "ht_ok h \<Longrightarrow> ht_of (ht_page h @ rest) = h"
  by (simp add: ht_page_def ht_roundtrip)

lemma write_header_trailer_spec:
  assumes "layer_ok P l" "ioff < 2 ^ 64" "isize < 2 ^ 64"
  obtains h where "write_header_trailer P f header sealed data_file ioff isize l = Some (io_write P f (ht_page h))" "ht_ok h"
    "verify_magic h" "is_header h = header" "is_sealed h = sealed" "is_data_file h = data_file" "is_sparse_rw h = l_sparse_rw l"
    "index_offset h = ioff" "index_size h = isize" "virtual_size h = l_virtual_size l"
    "uuid h = uuid_string P (l_uuid l)" "parent_uuid h = uuid_string P (l_parent_uuid l)"
proof -
  define h0 where "h0 = make_header_trailer P header sealed data_file ioff isize l"
  define tg where "tg = (if l_len l = 0 then replicate TAG_SIZE 0 else take (l_len l) (l_user_tag l) @ drop (l_len l) (user_tag h0))"
  have len: "length (user_tag h0) = TAG_SIZE" "length tg = TAG_SIZE"
    using assms(1) by (auto simp: h0_def make_header_trailer_def HeaderTrailer0_def tg_def layer_ok_def)
  have s: "set_tag (l_user_tag l) (l_len l) h0 = Some (0, h0\<lparr>user_tag := tg\<rparr>)"
    using assms(1) by (auto simp: set_tag_def tg_def layer_ok_def)
  have fl: "bit (flags h0) 0 = header" "bit (flags h0) 1 = data_file" "bit (flags h0) 2 = sealed" "bit (flags h0) 4 = l_sparse_rw l"
    by (simp_all add: h0_def make_header_trailer_def flags_set_flag flag_shifts)
  show thesis
  proof (rule that [of "h0\<lparr>user_tag := tg\<rparr>"])
    show "write_header_trailer P f header sealed data_file ioff isize l = Some (io_write P f (ht_page (h0\<lparr>user_tag := tg\<rparr>)))"
      using s by (simp add: write_header_trailer_def h0_def)
    show "ht_ok (h0\<lparr>user_tag := tg\<rparr>)" "verify_magic (h0\<lparr>user_tag := tg\<rparr>)"
      using assms len by (simp_all add: ht_ok_def h0_def make_header_trailer_def HeaderTrailer0_def ht_fields_def ht_layout_def
          MAGIC0_def MAGIC1_def layer_ok_def TAG_SIZE_def verify_magic_def)
  qed (use fl in \<open>simp_all add: is_header_def is_sealed_def is_data_file_def is_sparse_rw_def get_flag_bit_iff flag_shifts\<close>,
      simp_all add: h0_def make_header_trailer_def)
qed


section \<open>Files in memory\<close>

text \<open>An instance of the interface for the examples: a file is its content and its position.\<close>

definition memory_photon :: "(u8 list \<times> nat) photon" where
  "memory_photon =
     \<lparr>io_pread = (\<lambda>(c, p) n off. (int (min n (length c - off)), take n (drop off c))),
      io_end = (\<lambda>(c, p). (int (length c), c, length c)),
      io_write = (\<lambda>(c, p) bs. (int (length bs), overwrite c p bs, p + length bs)),
      io_pwrite = (\<lambda>(c, p) bs off. (int (length bs), overwrite c off bs, p)),
      io_size = (\<lambda>(c, p). (0, length c)),
      io_trim = (\<lambda>(c, p) off n. (0, take off c @ replicate (min n (length c - off)) 0 @ drop (off + n) c, p)),
      io_truncate = (\<lambda>(c, p) n. (0, take n (c @ replicate n 0), p)),
      io_seek_data = (\<lambda>(c, p) off. if off < length c then int off else - 1),
      io_seek_hole = (\<lambda>(c, p) off. if off < length c then int (length c) else - 1),
      uuid_string = (\<lambda>u. take 37 (u @ replicate 37 0)),
      uuid_parse = (\<lambda>s. if length s = 37 then Some (take 16 s) else None)\<rparr>"

lemma memory_photon_laws: "file_laws memory_photon fst snd" "full_reads memory_photon fst"
  by (auto simp: file_laws_def full_reads_def memory_photon_def min_def)

end
