(* ===== verification/LSMT_File.thy ===== *)
theory LSMT_File
  imports LSMT_Format
begin

text \<open>
  The files of the log-structured device (\<open>LSMTReadOnlyFile\<close> and \<open>LSMTFile\<close> of \<open>overlaybd/lsmt/file.cpp\<close>):
  reading through the index, writing and discarding blocks, and the log of mappings. The abstract device
  is a function from block numbers to blocks of 512 bytes; reads return a range of it, writes override it.
\<close>

section \<open>The index of a file\<close>

text \<open>The virtual methods of \<open>IMemoryIndex\<close>, by the class of the object.\<close>

datatype IMemoryIndex = RO Index | RW Index0 | Combo ComboIndex

fun index_lookup :: "IMemoryIndex \<Rightarrow> Segment \<Rightarrow> nat \<Rightarrow> SegmentMapping list option" where
  "index_lookup (RO ix) = Index_lookup ix"
| "index_lookup (RW ix) = Index0_lookup ix"
| "index_lookup (Combo ix) = ComboIndex_lookup ix"

text \<open>A read-only index has no \<open>insert\<close>; calling it after a static cast is undefined.\<close>

fun index_insert :: "SegmentMapping \<Rightarrow> IMemoryIndex \<Rightarrow> IMemoryIndex option" where
  "index_insert m (RO ix) = None"
| "index_insert m (RW ix) = map_option RW (Index0_insert m ix)"
| "index_insert m (Combo ix) = map_option Combo (ComboIndex_insert m ix)"

fun block_count :: "IMemoryIndex \<Rightarrow> nat" where
  "block_count (RO ix) = ix_alloc_blk ix"
| "block_count (RW ix) = m_alloc ix"
| "block_count (Combo ix) = m_alloc ix"

fun index_ok :: "IMemoryIndex \<Rightarrow> bool" where
  "index_ok (RO ix) = Index_ok ix"
| "index_ok (RW ix) = Index0_ok ix"
| "index_ok (Combo ix) = combo_ok ix"

fun index_blocks :: "IMemoryIndex \<Rightarrow> nat \<Rightarrow> (nat \<times> nat option) option" where
  "index_blocks (RO ix) = denote (ix_map ix)"
| "index_blocks (RW ix) = denote (mapping ix)"
| "index_blocks (Combo ix) = combo_blocks ix"

interpretation memory: memory_index index_lookup index_ok index_blocks
proof (unfold_locales)
  fix i n and s :: Segment assume "index_ok i" "wf_seg s" "(0 :: nat) < n"
  then show "\<exists>r. index_lookup i s n = Some r \<and> lookup_ok (index_blocks i) s n r"
    using index.lookup_spec index0.lookup_spec combo.lookup_spec by (cases i) simp_all
qed

text \<open>The counter of the allocated blocks has no influence on the mappings of an index.\<close>

lemma remove_partial_overlap_alloc:
  "map_option (\<lambda>(l, r, a). (l, r)) (remove_partial_overlap l p r off len a) =
   map_option (\<lambda>(l, r, a). (l, r)) (remove_partial_overlap l p r off len a')"
  by (cases "backward_end_to off p"; cases "forward_offset_to (off + len) p") (simp_all add: remove_partial_overlap_def Let_def bug_on_def)

lemma insert_loop_alloc:
  "map_option (\<lambda>(l, r, a). (l, r)) (insert_loop m l r a) = map_option (\<lambda>(l, r, a). (l, r)) (insert_loop m l r a')"
proof (induction r arbitrary: a a')
  case (Cons p nx)
  show ?case using Cons [of "usage_sub p a" "usage_sub p a'"] remove_partial_overlap_alloc by simp
qed simp

lemma Index0_insert_mapping:
  fixes i :: Index0
  assumes "seg_length m \<noteq> 0"
  shows "map_option mapping (Index0_insert m i) =
    (case dropWhile (\<lambda>e. seg_less e m) (mapping i) of
       [] \<Rightarrow> Some (set_insert m (mapping i))
     | p # nx \<Rightarrow>
         (case map_option (\<lambda>(l, r, a). (l, r)) (remove_partial_overlap (takeWhile (\<lambda>e. seg_less e m) (mapping i)) p nx (seg_offset m) (seg_length m) 0) of
            None \<Rightarrow> None
          | Some (l, r) \<Rightarrow> if r = [] \<or> seg_offset (hd r) > seg_offset m
              then map_option (\<lambda>(l, r). set_insert m (l @ r)) (map_option (\<lambda>(l, r, a). (l, r)) (insert_loop m l r 0)) else None))"
proof (cases "dropWhile (\<lambda>e. seg_less e m) (mapping i)")
  case Nil
  then show ?thesis using assms by (simp only: Index0_insert_def Let_def) simp
next
  case (Cons p nx)
  let ?r = "remove_partial_overlap (takeWhile (\<lambda>e. seg_less e m) (mapping i)) p nx (seg_offset m) (seg_length m)"
  let ?a = "usage_add m (m_alloc i)"
  have r: "map_option (\<lambda>(l, r, a). (l, r)) (?r ?a) = map_option (\<lambda>(l, r, a). (l, r)) (?r 0)" by (rule remove_partial_overlap_alloc)
  show ?thesis
  proof (cases "?r ?a")
    case None
    then show ?thesis using r assms Cons by (simp add: Index0_insert_def Let_def)
  next
    case (Some x)
    then obtain l r' a where x: "?r ?a = Some (l, r', a)" by (cases x) auto
    with r have y: "map_option (\<lambda>(l, r, a). (l, r)) (?r 0) = Some (l, r')" by simp
    have g: "map_option (\<lambda>(l, r, a). (l, r)) (insert_loop m l r' a) = map_option (\<lambda>(l, r, a). (l, r)) (insert_loop m l r' 0)"
      by (rule insert_loop_alloc)
    show ?thesis
      unfolding Cons list.case y option.case prod.case g [symmetric] using assms Cons x
      by (cases "insert_loop m l r' a") (auto simp: Index0_insert_def Let_def bug_on_bind)
  qed
qed

lemma Index0_insert_any:
  fixes i :: Index0
  assumes "segs_ok (mapping i)" "seg_length m = 0 \<or> wf_map m"
  shows "\<exists>i'. Index0_insert m i = Some i' \<and> segs_ok (mapping i') \<and> (\<forall>b. denote (mapping i') b = denote (m # mapping i) b)"
proof (cases "seg_length m = 0")
  case True
  then show ?thesis using assms by (simp add: Index0_insert_def covers_def seg_end_def)
next
  case False
  let ?j = "i\<lparr>m_alloc := sum_list (map seg_blocks (mapping i))\<rparr>"
  have "Index0_ok ?j" using assms by (simp add: Index0_ok_def)
  with Index0_insert_spec [of ?j m] assms(2) False obtain j' where
    j: "Index0_insert m ?j = Some j'" "segs_ok (mapping j')" "\<forall>b. denote (mapping j') b = denote (m # mapping i) b"
    by (auto simp: Index0_ok_def)
  have "mapping ?j = mapping i" by simp
  then have "map_option mapping (Index0_insert m i) = map_option mapping (Index0_insert m ?j)"
    unfolding Index0_insert_mapping [OF False] by (simp only:)
  with j show ?thesis by (cases "Index0_insert m i") auto
qed

lemma index_insert_spec:
  assumes "index_ok ix" "seg_length m = 0 \<or> wf_map m" "\<not> (\<exists>r. ix = RO r)"
  shows "\<exists>ix'. index_insert m ix = Some ix' \<and> index_ok ix' \<and> \<not> (\<exists>r. ix' = RO r) \<and>
    (\<forall>b. index_blocks ix' b = over (denote [m]) (index_blocks ix) b)"
proof (cases ix)
  case (RW i)
  have "\<exists>i'. Index0_insert m i = Some i' \<and> Index0_ok i' \<and> (\<forall>b. denote (mapping i') b = denote (m # mapping i) b)"
    using Index0_insert_spec [of i m] assms RW by (cases "seg_length m = 0") (auto simp: Index0_insert_def covers_def seg_end_def)
  then show ?thesis using RW by (auto simp: over_def)
next
  case (Combo c)
  have "segs_ok (mapping (Index0.truncate c))" using assms(1) Combo by (simp add: combo_ok_def Index0.defs)
  from Index0_insert_any [OF this assms(2)] obtain i' where
    i: "Index0_insert m (Index0.truncate c) = Some i'" "segs_ok (mapping i')" "\<forall>b. denote (mapping i') b = denote (m # mapping c) b"
    by (auto simp: Index0.defs)
  then show ?thesis
    using Combo assms(1) by (auto simp: ComboIndex_insert_def combo_ok_def combo_blocks_def over_def)
qed (use assms in simp)


section \<open>Reading\<close>

text \<open>A file object. A destroyed index is a null pointer; dereferencing it is undefined.\<close>

datatype LSMTFileType = T_RO | T_RW | T_SparseRW | T_WarpFileRO | T_WarpFile

record 'f LSMTReadOnlyFile =
  MAX_IO_SIZE :: nat
  m_vsize :: nat
  m_files :: "'f list"
  m_uuid :: "u8 list list"
  m_index :: "IMemoryIndex option"
  m_file_ownership :: bool
  lsmt_io_cnt :: nat
  lsmt_io_size :: nat
  m_filetype :: LSMTFileType

definition set_max_io_size :: "nat \<Rightarrow> ('f, 'x) LSMTReadOnlyFile_scheme \<Rightarrow> int \<times> ('f, 'x) LSMTReadOnlyFile_scheme" where
  "set_max_io_size sz fl = (if sz = 0 \<or> sz AND (4096 - 1) \<noteq> 0 then (- 1, fl) else (0, fl\<lparr>MAX_IO_SIZE := sz\<rparr>))"

definition get_uuid :: "nat \<Rightarrow> ('f, 'x) LSMTReadOnlyFile_scheme \<Rightarrow> int \<times> u8 list" where
  "get_uuid layer_id fl = (if layer_id \<ge> length (m_uuid fl) then (- 1, []) else (0, m_uuid fl ! layer_id))"

definition is_aligned :: "nat \<Rightarrow> bool" where
  "is_aligned x = (x AND (ALIGNMENT - 1) = 0)"

text \<open>
  Stores to the caller's buffer at the pointer \<open>p\<close>; outside of the buffer they are undefined. The state of
  the callbacks of a read is the buffer, the pointer and the two counters.
\<close>

definition store :: "nat \<Rightarrow> u8 list \<Rightarrow> u8 list \<Rightarrow> u8 list option" where
  "store p bs mem = (if p + length bs \<le> length mem then Some (take p mem @ bs @ drop (p + length bs) mem) else None)"

record read_state =
  rs_buf :: "u8 list"
  rs_ptr :: nat
  rs_cnt :: nat
  rs_size :: nat

definition read_zeros :: "Segment \<Rightarrow> read_state \<Rightarrow> (int \<times> read_state) option" where
  "read_zeros m s = do {
     let step = seg_length m * ALIGNMENT;
     buf \<leftarrow> store (rs_ptr s) (replicate step 0) (rs_buf s);
     Some (0, s\<lparr>rs_buf := buf, rs_ptr := rs_ptr s + step\<rparr>)
   }"

definition count_io :: "int \<Rightarrow> nat \<Rightarrow> read_state \<Rightarrow> read_state" where
  "count_io ret sz s = s\<lparr>rs_size := trunc 64 (rs_size s + nat ret), rs_cnt := trunc 32 (rs_cnt s + 1), rs_ptr := rs_ptr s + sz\<rparr>"

definition read_mapping :: "'f photon \<Rightarrow> 'f list \<Rightarrow> SegmentMapping \<Rightarrow> read_state \<Rightarrow> (int \<times> read_state) option" where
  "read_mapping P files m s = do {
     bug_on (\<not> tag m < length files);
     let f = files ! tag m;
     let sz = seg_length m * ALIGNMENT;
     let (ret, bs) = io_pread P f sz (moffset m * ALIGNMENT);
     buf \<leftarrow> store (rs_ptr s) bs (rs_buf s);
     if ret < int sz then
       if ret < 0 then Some (- 1, s\<lparr>rs_buf := buf\<rparr>)
       else do {
         let (ret2, bs2) = io_pread P f (sz - nat ret) (moffset m * ALIGNMENT + nat ret);
         buf \<leftarrow> store (rs_ptr s + nat ret) bs2 buf;
         if ret2 \<noteq> 0 then Some (ret, s\<lparr>rs_buf := buf\<rparr>)
         else do {
           buf \<leftarrow> store (rs_ptr s + nat ret) (replicate (sz - nat ret) 0) buf;
           Some (0, count_io ret sz (s\<lparr>rs_buf := buf\<rparr>))
         }
       }
     else Some (0, count_io ret sz (s\<lparr>rs_buf := buf\<rparr>))
   }"

text \<open>Undefined behaviour in a callback (the state \<open>None\<close>) stops the iteration.\<close>

definition pread_callback :: "'f photon \<Rightarrow> 'f list \<Rightarrow> visit \<Rightarrow> read_state option \<Rightarrow> int \<times> read_state option" where
  "pread_callback P files v st =
     (case st \<bind> (\<lambda>s. case v of Zero z \<Rightarrow> read_zeros z s | Data m \<Rightarrow> read_mapping P files m s) of
        None \<Rightarrow> (- 1, None) | Some (ret, s) \<Rightarrow> (ret, Some s))"

text \<open>\<open>pread\<close> after its loop: one request to the index.\<close>

definition pread_segments ::
    "'f photon \<Rightarrow> nat \<Rightarrow> ('f, 'x) LSMTReadOnlyFile_scheme \<Rightarrow> u8 list \<Rightarrow> nat \<Rightarrow> nat \<Rightarrow> nat \<Rightarrow>
     (int \<times> u8 list \<times> ('f, 'x) LSMTReadOnlyFile_scheme) option" where
  "pread_segments P nbytes fl buf p count offset = do {
     ix \<leftarrow> m_index fl;
     let s = \<lparr>seg_offset = trunc 50 (offset div ALIGNMENT), seg_length = trunc 14 (trunc 32 (count div ALIGNMENT))\<rparr>;
     (ret, st) \<leftarrow> foreach_segments (index_lookup ix) (pread_callback P (m_files fl)) s
        (Some \<lparr>rs_buf = buf, rs_ptr = p, rs_cnt = lsmt_io_cnt fl, rs_size = lsmt_io_size fl\<rparr>);
     st \<leftarrow> st;
     Some (if ret \<ge> 0 then int nbytes else ret, rs_buf st, fl\<lparr>lsmt_io_cnt := rs_cnt st, lsmt_io_size := rs_size st\<rparr>)
   }"

text \<open>
  The loop splits a read into reads of \<open>MAX_IO_SIZE\<close> bytes; such a read runs no loop of its own. With a
  maximum of zero it would not end (\<open>None\<close>).
\<close>

definition pread_part ::
    "'f photon \<Rightarrow> ('f, 'x) LSMTReadOnlyFile_scheme \<Rightarrow> u8 list \<Rightarrow> nat \<Rightarrow> nat \<Rightarrow> nat \<Rightarrow>
     (int \<times> u8 list \<times> ('f, 'x) LSMTReadOnlyFile_scheme) option" where
  "pread_part P fl buf p count offset =
     (if \<not> is_aligned (count OR offset) then Some (- 1, buf, fl) else pread_segments P count fl buf p count offset)"

partial_function (option) pread_loop ::
    "'f photon \<Rightarrow> nat \<Rightarrow> ('f, 'x) LSMTReadOnlyFile_scheme \<Rightarrow> u8 list \<Rightarrow> nat \<Rightarrow> nat \<Rightarrow> nat \<Rightarrow>
     (int \<times> u8 list \<times> ('f, 'x) LSMTReadOnlyFile_scheme) option" where
  "pread_loop P nbytes fl buf p count offset =
     (if count > MAX_IO_SIZE fl then do {
        (ret, buf, fl') \<leftarrow> pread_part P fl buf p (MAX_IO_SIZE fl) offset;
        if ret < int (MAX_IO_SIZE fl) then Some (- 1, buf, fl')
        else pread_loop P nbytes fl' buf (p + MAX_IO_SIZE fl) (count - MAX_IO_SIZE fl) (offset + MAX_IO_SIZE fl)
      } else pread_segments P nbytes fl buf p count offset)"

definition LSMT_pread ::
    "'f photon \<Rightarrow> ('f, 'x) LSMTReadOnlyFile_scheme \<Rightarrow> u8 list \<Rightarrow> nat \<Rightarrow> nat \<Rightarrow>
     (int \<times> u8 list \<times> ('f, 'x) LSMTReadOnlyFile_scheme) option" where
  "LSMT_pread P fl buf count offset =
     (if \<not> is_aligned (count OR offset) then Some (- 1, buf, fl) else pread_loop P count fl buf 0 count offset)"

section \<open>The abstract device\<close>

definition zeros :: "u8 list" where
  "zeros = replicate ALIGNMENT 0"

text \<open>The block number \<open>n\<close> of a file; after its end a file reads as zeros.\<close>

definition file_block :: "u8 list \<Rightarrow> nat \<Rightarrow> u8 list" where
  "file_block c n = take ALIGNMENT (drop (n * ALIGNMENT) c @ zeros)"

definition block_value :: "u8 list list \<Rightarrow> (nat \<times> nat option) option \<Rightarrow> u8 list" where
  "block_value cs t = (case t of Some (k, Some n) \<Rightarrow> file_block (cs ! k) n | _ \<Rightarrow> zeros)"

text \<open>The device of a file object whose files have the contents \<open>content f\<close>.\<close>

definition device :: "('f \<Rightarrow> u8 list) \<Rightarrow> ('f, 'x) LSMTReadOnlyFile_scheme \<Rightarrow> nat \<Rightarrow> u8 list" where
  "device content fl b =
     (case m_index fl of None \<Rightarrow> zeros | Some ix \<Rightarrow> block_value (map content (m_files fl)) (index_blocks ix b))"

definition blocks_between :: "(nat \<Rightarrow> u8 list) \<Rightarrow> nat \<Rightarrow> nat \<Rightarrow> u8 list" where
  "blocks_between D a e = concat (map D [a..<e])"

lemma is_aligned_iff: "is_aligned x \<longleftrightarrow> take_bit 9 x = 0"
proof -
  have m: "(512 :: nat) - 1 = Bit_Operations.mask 9" by (simp add: mask_eq_exp_minus_1)
  show ?thesis unfolding is_aligned_def ALIGNMENT_def m take_bit_eq_mask ..
qed

lemma is_aligned_or: "is_aligned (a OR b) \<longleftrightarrow> ALIGNMENT dvd a \<and> ALIGNMENT dvd b"
  by (simp add: is_aligned_iff take_bit_or or_eq_0_iff) (simp add: take_bit_eq_mod ALIGNMENT_def dvd_eq_mod_eq_0)

lemma length_file_block [simp]: "length (file_block c n) = ALIGNMENT"
  by (simp add: file_block_def zeros_def)

lemma length_zeros [simp]: "length zeros = ALIGNMENT"
  by (simp add: zeros_def)

lemma length_block_value [simp]: "length (block_value cs t) = ALIGNMENT"
  by (auto simp: block_value_def split: option.split prod.split)

lemma length_device [simp]: "length (device content fl b) = ALIGNMENT"
  by (simp add: device_def split: option.split)

lemma length_blocks_between:
  assumes "\<And>b. length (D b) = ALIGNMENT"
  shows "length (blocks_between D a e) = ALIGNMENT * (e - a)"
  using assms by (simp add: blocks_between_def length_concat comp_def sum_list_triv)

lemma blocks_between_append: "a \<le> x \<Longrightarrow> x \<le> e \<Longrightarrow> blocks_between D a x @ blocks_between D x e = blocks_between D a e"
  using upt_add_eq_append [of a x "e - x"] by (simp add: blocks_between_def)

lemma blocks_between_cong: "(\<And>b. a \<le> b \<Longrightarrow> b < e \<Longrightarrow> D b = D' b) \<Longrightarrow> blocks_between D a e = blocks_between D' a e"
  unfolding blocks_between_def by (intro arg_cong [where f = concat] map_cong) auto

text \<open>A range of a file, padded with zeros, is the concatenation of its blocks.\<close>

lemma take_pad: "n \<le> k \<Longrightarrow> take n (xs @ replicate k x) = take n (xs @ replicate n x)"
  by (auto simp: min_def)

lemma file_blocks:
  "take (n * ALIGNMENT) (drop (a * ALIGNMENT) c @ replicate (n * ALIGNMENT) 0) = concat (map (file_block c) [a..<a + n])"
proof (induction n arbitrary: a)
  case (Suc n)
  let ?d = "drop (a * ALIGNMENT) c"
  have "take (Suc n * ALIGNMENT) (?d @ replicate (Suc n * ALIGNMENT) 0) =
      take ALIGNMENT (?d @ replicate (Suc n * ALIGNMENT) 0) @ take (n * ALIGNMENT) (drop ALIGNMENT (?d @ replicate (Suc n * ALIGNMENT) 0))"
    by (simp only: mult_Suc take_add)
  also have "take ALIGNMENT (?d @ replicate (Suc n * ALIGNMENT) 0) = take ALIGNMENT (?d @ zeros)"
    unfolding zeros_def by (rule take_pad) simp
  also have "drop ALIGNMENT (?d @ replicate (Suc n * ALIGNMENT) 0) = drop ALIGNMENT ?d @ replicate (Suc n * ALIGNMENT - (ALIGNMENT - length ?d)) 0"
    by (simp only: drop_append drop_replicate)
  also have "take (n * ALIGNMENT) \<dots> = take (n * ALIGNMENT) (drop ALIGNMENT ?d @ replicate (n * ALIGNMENT) 0)"
    by (rule take_pad) simp
  also have "drop ALIGNMENT ?d = drop (Suc a * ALIGNMENT) c" by (simp add: add.commute)
  also have "[a..<a + Suc n] = a # [Suc a..<Suc a + n]" by (simp add: upt_rec)
  ultimately show ?case using Suc [of "Suc a"] by (simp add: file_block_def)
qed simp


section \<open>Reads return the blocks of the device\<close>

text \<open>The state of a read after \<open>bs\<close> has been stored at the pointer: \<open>k\<close> bytes of the buffer are left.\<close>

definition advanced :: "u8 list \<Rightarrow> read_state \<Rightarrow> read_state \<Rightarrow> bool" where
  "advanced bs s s' \<longleftrightarrow> rs_ptr s' = rs_ptr s + length bs \<and> store (rs_ptr s) bs (rs_buf s) = Some (rs_buf s')"

lemma store_store: "store p xs b = Some b1 \<Longrightarrow> store (p + length xs) ys b1 = Some b2 \<Longrightarrow> store p (xs @ ys) b = Some b2"
  by (auto simp: store_def ac_simps split: if_splits)

lemma store_in: "p + length bs \<le> length b \<Longrightarrow> \<exists>b'. store p bs b = Some b' \<and> length b' = length b"
  by (auto simp: store_def)

lemma store_length: "store p bs b = Some b' \<Longrightarrow> length b' = length b \<and> p + length bs \<le> length b"
  by (auto simp: store_def split: if_splits)

lemma advanced_trans: "advanced xs s s' \<Longrightarrow> advanced ys s' s'' \<Longrightarrow> advanced (xs @ ys) s s''"
  by (auto simp: advanced_def intro: store_store)

lemma advanced_Nil: "rs_ptr s \<le> length (rs_buf s) \<Longrightarrow> advanced [] s s"
  by (simp add: advanced_def store_def)

lemma read_zeros_spec:
  assumes "rs_ptr s + seg_length z * ALIGNMENT \<le> length (rs_buf s)"
  shows "\<exists>s'. read_zeros z s = Some (0, s') \<and> advanced (replicate (seg_length z * ALIGNMENT) 0) s s'"
  using store_in [of "rs_ptr s" "replicate (seg_length z * ALIGNMENT) 0" "rs_buf s"] assms
  by (auto simp: read_zeros_def advanced_def)

lemma read_mapping_spec:
  assumes P: "full_reads P content" and "tag m < length files"
    and room: "rs_ptr s + seg_length m * ALIGNMENT \<le> length (rs_buf s)"
  shows "\<exists>s'. read_mapping P files m s = Some (0, s') \<and>
    advanced (concat (map (file_block (content (files ! tag m))) [moffset m..<moffset m + seg_length m])) s s'"
proof -
  let ?f = "files ! tag m"
  define n where "n = seg_length m * ALIGNMENT"
  define o' where "o' = moffset m * ALIGNMENT"
  define d where "d = drop o' (content ?f)"
  define r where "r = min n (length d)"
  have all: "concat (map (file_block (content ?f)) [moffset m..<moffset m + seg_length m]) = take n d @ replicate (n - r) 0"
    unfolding file_blocks [symmetric] n_def [symmetric] o'_def [symmetric] d_def [symmetric] by (simp add: r_def min_def)
  have p1: "io_pread P ?f n o' = (int r, take n d)" using io_pread_full [OF P] by (simp add: r_def d_def)
  have p2: "io_pread P ?f (n - r) (o' + r) = (0, [])" if "r < n"
    using that io_pread_full [OF P, of ?f "n - r" "o' + r"] by (simp add: r_def d_def min_def split: if_splits)
  have l: "length (take n d) = r" "r \<le> n" "rs_ptr s + n \<le> length (rs_buf s)" using room by (simp_all add: r_def min.commute n_def)
  then obtain b1 where b1: "store (rs_ptr s) (take n d) (rs_buf s) = Some b1" "length b1 = length (rs_buf s)"
    using store_in [of "rs_ptr s" "take n d" "rs_buf s"] by auto
  note defs = read_mapping_def Let_def n_def [symmetric] o'_def [symmetric] p1 prod.case
  show ?thesis
  proof (cases "r < n")
    case True
    have b2: "store (rs_ptr s + r) [] b1 = Some b1" using l b1(2) by (simp add: store_def)
    obtain b3 where b3: "store (rs_ptr s + r) (replicate (n - r) 0) b1 = Some b3"
      using store_in [of "rs_ptr s + r" "replicate (n - r) 0" b1] l b1(2) by auto
    have "store (rs_ptr s) (take n d @ replicate (n - r) 0) (rs_buf s) = Some b3"
      using store_store [OF b1(1)] b3 l(1) by simp
    then have "advanced (take n d @ replicate (n - r) 0) s (count_io (int r) n (s\<lparr>rs_buf := b3\<rparr>))"
      using l(1,2) by (simp only: advanced_def count_io_def length_append length_replicate) simp
    moreover have "read_mapping P files m s = Some (0, count_io (int r) n (s\<lparr>rs_buf := b3\<rparr>))"
      unfolding defs using assms(2) True p2 [OF True] b1 b2 b3 by simp
    ultimately show ?thesis unfolding all by blast
  next
    case False
    then have "advanced (take n d @ replicate (n - r) 0) s (count_io (int r) n (s\<lparr>rs_buf := b1\<rparr>))"
      using l b1 by (simp only: advanced_def count_io_def length_append length_replicate) simp
    moreover have "read_mapping P files m s = Some (0, count_io (int r) n (s\<lparr>rs_buf := b1\<rparr>))"
      unfolding defs using assms(2) False b1 by simp
    ultimately show ?thesis unfolding all by blast
  qed
qed

lemma concat_replicate_replicate: "concat (replicate k (replicate n x)) = replicate (k * n) x"
  by (induction k) (simp_all add: replicate_add)

lemma run_callbacks:
  assumes P: "full_reads P content" and tr: "trace_ok B a e vs"
    and tags: "\<And>b t n. a \<le> b \<Longrightarrow> b < e \<Longrightarrow> B b = Some (t, Some n) \<Longrightarrow> t < length files"
    and room: "rs_ptr s + (e - a) * ALIGNMENT \<le> length (rs_buf s)"
  shows "\<exists>s'. run_visits (pread_callback P files) vs (Some s) = Inr (Some s') \<and> a \<le> e \<and>
    advanced (blocks_between (\<lambda>b. block_value (map content files) (B b)) a e) s s'"
  using tr tags room
proof (induction vs arbitrary: a s)
  case Nil
  then show ?case by (auto simp: blocks_between_def intro: advanced_Nil)
next
  case (Cons v vs)
  let ?D = "\<lambda>b. block_value (map content files) (B b)"
  define m where "m = (case v of Zero z \<Rightarrow> seg_end z | Data m \<Rightarrow> seg_end m)"
  have am: "a < m" and rest: "trace_ok B m e vs"
    using Cons.prems(1) by (auto simp: m_def seg_end_def split: visit.splits)
  have me: "m \<le> e" using rest by (induction B m e vs rule: trace_ok.induct) (auto simp: seg_end_def)
  have len: "length (blocks_between ?D a m) = (m - a) * ALIGNMENT" by (simp add: length_blocks_between)
  have room1: "rs_ptr s + (m - a) * ALIGNMENT \<le> length (rs_buf s)"
    using Cons.prems(3) me mult_le_mono1 [of "m - a" "e - a" ALIGNMENT] by linarith
  have "\<exists>s1. pread_callback P files v (Some s) = (0, Some s1) \<and> advanced (blocks_between ?D a m) s s1"
  proof (cases v)
    case (Zero z)
    have z: "seg_offset z = a" "m - a = seg_length z" "\<forall>b \<in> {a..<m}. B b = None \<or> (\<exists>t. B b = Some (t, None))"
      using Cons.prems(1) Zero by (auto simp: m_def seg_end_def)
    then have zz: "?D b = zeros" if "a \<le> b" "b < m" for b using that by (auto simp: block_value_def dest!: bspec [of _ _ b])
    have "blocks_between ?D a m = concat (map (\<lambda>_. zeros) [a..<m])"
      unfolding blocks_between_def using zz by (intro arg_cong [where f = concat] map_cong) auto
    also have "\<dots> = replicate (seg_length z * ALIGNMENT) 0"
      unfolding z(2) [symmetric] map_replicate_const zeros_def length_upt by (rule concat_replicate_replicate)
    finally show ?thesis using read_zeros_spec [of s z] room1 Zero z(2) by (auto simp: pread_callback_def)
  next
    case (Data d)
    have d: "seg_offset d = a" "m = a + seg_length d" "\<And>b. a \<le> b \<Longrightarrow> b < m \<Longrightarrow> B b = Some (tag d, Some (moffset d + (b - a)))"
      using Cons.prems(1) Data by (auto simp: m_def seg_end_def)
    have t: "tag d < length files" using d(3) [of a] am me Cons.prems(2) [of a] by auto
    have "blocks_between ?D a m = concat (map (\<lambda>b. file_block (content (files ! tag d)) (moffset d + (b - a))) [a..<m])"
      unfolding blocks_between_def using d(3) t by (intro arg_cong [where f = concat] map_cong) (auto simp: block_value_def)
    also have "\<dots> = concat (map (file_block (content (files ! tag d))) (map (\<lambda>b. moffset d + (b - a)) [a..<a + seg_length d]))"
      unfolding d(2) by (simp add: comp_def)
    also have "map (\<lambda>b. moffset d + (b - a)) [a..<a + seg_length d] = [moffset d..<moffset d + seg_length d]"
      by (rule nth_equalityI) simp_all
    finally show ?thesis using read_mapping_spec [OF P t, of s] room1 Data d(2) by (auto simp: pread_callback_def)
  qed
  then obtain s1 where s1: "pread_callback P files v (Some s) = (0, Some s1)" "advanced (blocks_between ?D a m) s s1" by blast
  have "rs_ptr s1 + (e - m) * ALIGNMENT \<le> length (rs_buf s1)"
  proof -
    have "(e - a) * ALIGNMENT = (m - a) * ALIGNMENT + (e - m) * ALIGNMENT" using am me by (simp add: add_mult_distrib [symmetric])
    then show ?thesis using s1(2) Cons.prems(3) len by (auto simp: advanced_def dest: store_length)
  qed
  moreover have "t < length files" if "m \<le> b" "b < e" "B b = Some (t, Some n)" for b t n
    using Cons.prems(2) [of b t n] that am by simp
  ultimately obtain s' where
    s': "run_visits (pread_callback P files) vs (Some s1) = Inr (Some s')" "advanced (blocks_between ?D m e) s1 s'"
    using Cons.IH [OF rest] by blast
  have "advanced (blocks_between ?D a e) s s'"
    using advanced_trans [OF s1(2) s'(2)] blocks_between_append [of a m e ?D] am me by simp
  then show ?case using s1(1) s'(1) am me by (auto simp: call_def)
qed

lemma length_range [simp]:
  "ALIGNMENT dvd n \<Longrightarrow> length (blocks_between (device content fl) (x div ALIGNMENT) ((x + n) div ALIGNMENT)) = n"
  by (auto simp: length_blocks_between div_plus_div_distrib_dvd_right)

text \<open>
  The file objects in which reads are defined: the index is there and satisfies its invariant, every block
  is in one of the files, and \<open>MAX_IO_SIZE\<close> is a multiple of the block size that fits into a segment.
\<close>

definition max_io_ok :: "('f, 'x) LSMTReadOnlyFile_scheme \<Rightarrow> bool" where
  "max_io_ok fl \<longleftrightarrow> 0 < MAX_IO_SIZE fl \<and> ALIGNMENT dvd MAX_IO_SIZE fl \<and> MAX_IO_SIZE fl \<le> MAX_LENGTH * ALIGNMENT"

definition blocks_in_files :: "(nat \<Rightarrow> (nat \<times> nat option) option) \<Rightarrow> 'f list \<Rightarrow> bool" where
  "blocks_in_files B files \<longleftrightarrow> (\<forall>b t n. B b = Some (t, Some n) \<longrightarrow> t < length files)"

definition readable :: "('f, 'x) LSMTReadOnlyFile_scheme \<Rightarrow> bool" where
  "readable fl \<longleftrightarrow> max_io_ok fl \<and> (\<exists>ix. m_index fl = Some ix \<and> index_ok ix \<and> blocks_in_files (index_blocks ix) (m_files fl))"

text \<open>Two objects that differ in the statistics only.\<close>

definition same_file :: "('f, 'x) LSMTReadOnlyFile_scheme \<Rightarrow> ('f, 'x) LSMTReadOnlyFile_scheme \<Rightarrow> bool" where
  "same_file fl fl' \<longleftrightarrow> (\<exists>c z. fl' = fl\<lparr>lsmt_io_cnt := c, lsmt_io_size := z\<rparr>)"

lemma same_file_refl [simp]: "same_file fl fl"
  unfolding same_file_def by (intro exI [of _ "lsmt_io_cnt fl"] exI [of _ "lsmt_io_size fl"]) simp

lemma same_file_trans: "same_file a b \<Longrightarrow> same_file b c \<Longrightarrow> same_file a c"
  by (auto simp: same_file_def) (metis LSMTReadOnlyFile.fold_congs(7,8))

lemma same_file_laws:
  assumes "same_file fl fl'"
  shows "readable fl' = readable fl" "device content fl' = device content fl" "MAX_IO_SIZE fl' = MAX_IO_SIZE fl"
  using assms by (auto simp: same_file_def readable_def max_io_ok_def device_def fun_eq_iff split: option.split)

lemma pread_segments_spec:
  assumes P: "full_reads P content" and fl: "readable fl"
    and al: "ALIGNMENT dvd count" "ALIGNMENT dvd offset" and c: "count \<le> MAX_IO_SIZE fl" "offset + count < 2 ^ 50 * ALIGNMENT"
    and room: "p + count \<le> length buf"
  shows "\<exists>fl' buf'. pread_segments P nbytes fl buf p count offset = Some (int nbytes, buf', fl') \<and> same_file fl fl' \<and>
    store p (blocks_between (device content fl) (offset div ALIGNMENT) ((offset + count) div ALIGNMENT)) buf = Some buf'"
proof -
  let ?o = "offset div ALIGNMENT" and ?n = "count div ALIGNMENT"
  define s where "s = \<lparr>seg_offset = ?o, seg_length = ?n\<rparr>"
  from fl obtain ix where ix: "m_index fl = Some ix" "index_ok ix" "blocks_in_files (index_blocks ix) (m_files fl)" by (auto simp: readable_def)
  have e: "(offset + count) div ALIGNMENT = ?o + ?n" "?o * ALIGNMENT = offset" "?n * ALIGNMENT = count" using al by (auto simp: div_add)
  have n: "?n \<le> MAX_LENGTH"
    using c(1) fl e(3) mult_le_cancel2 [of ?n ALIGNMENT MAX_LENGTH] by (simp add: readable_def max_io_ok_def ALIGNMENT_def)
  have "(offset + count) div ALIGNMENT < 2 ^ 50" using c(2) by (simp add: less_mult_imp_div_less)
  then have wf: "wf_seg s" and o: "?o < 2 ^ 50" using n e(1) by (simp_all add: s_def wf_seg_def seg_end_def)
  have "?n < 2 ^ 14" "?n < 2 ^ 32" using n by (simp_all add: MAX_LENGTH_def)
  then have s: "\<lparr>seg_offset = trunc 50 ?o, seg_length = trunc 14 (trunc 32 ?n)\<rparr> = s"
    using o by (simp only: s_def trunc_id)
  let ?st = "\<lparr>rs_buf = buf, rs_ptr = p, rs_cnt = lsmt_io_cnt fl, rs_size = lsmt_io_size fl\<rparr>"
  from memory.foreach_segments_spec [OF ix(2) wf, where 's = "read_state option"] obtain vs tl where
    tr: "trace_ok (index_blocks ix) (seg_offset s) (seg_end s) (vs @ tl)" and tl: "tl = [] \<or> (\<exists>z. tl = [Zero z])"
    and f: "\<And>cb (st :: read_state option). foreach_segments (index_lookup ix) cb s st =
      Some (case run_visits cb vs st of Inl ret \<Rightarrow> ret | Inr st \<Rightarrow> (0, fold (\<lambda>v st. snd (cb v st)) tl st))" by blast
  have len: "(seg_end s - seg_offset s) * ALIGNMENT = count" using e(3) by (simp add: s_def seg_end_def)
  from run_callbacks [OF P tr, of "m_files fl" ?st] ix(3) room len obtain s' where
    r: "run_visits (pread_callback P (m_files fl)) (vs @ tl) (Some ?st) = Inr (Some s')"
      "advanced (blocks_between (\<lambda>b. block_value (map content (m_files fl)) (index_blocks ix b)) (seg_offset s) (seg_end s)) ?st s'"
    by (auto simp: blocks_in_files_def)
  from r(1) obtain st1 where st1: "run_visits (pread_callback P (m_files fl)) vs (Some ?st) = Inr st1"
    "run_visits (pread_callback P (m_files fl)) tl st1 = Inr (Some s')"
    by (auto simp: run_visits_append split: sum.splits)
  have "fold (\<lambda>v st. snd (pread_callback P (m_files fl) v st)) tl st1 = Some s'"
    using tl st1(2) by (auto simp: call_def split: prod.splits if_splits)
  then have "foreach_segments (index_lookup ix) (pread_callback P (m_files fl)) s (Some ?st) = Some (0, Some s')"
    using f st1(1) by simp
  moreover have "device content fl = (\<lambda>b. block_value (map content (m_files fl)) (index_blocks ix b))" using ix(1) by (simp add: device_def fun_eq_iff)
  ultimately show ?thesis
    using ix(1) s r(2) e(1) by (auto simp: pread_segments_def Let_def advanced_def same_file_def s_def seg_end_def)
qed

lemma pread_loop_spec:
  assumes P: "full_reads P content" and "readable fl" "ALIGNMENT dvd count" "ALIGNMENT dvd offset" "offset + count < 2 ^ 50 * ALIGNMENT"
    "p + count \<le> length buf"
  shows "\<exists>fl' buf'. pread_loop P nbytes fl buf p count offset = Some (int nbytes, buf', fl') \<and> same_file fl fl' \<and>
    store p (blocks_between (device content fl) (offset div ALIGNMENT) ((offset + count) div ALIGNMENT)) buf = Some buf'"
  using assms(2-)
proof (induction count arbitrary: fl buf p offset rule: less_induct)
  case (less count)
  let ?M = "MAX_IO_SIZE fl"
  have M: "0 < ?M" "ALIGNMENT dvd ?M" using less.prems(1) by (auto simp: readable_def max_io_ok_def)
  show ?case
  proof (cases "count > ?M")
    case False
    then show ?thesis
      using pread_segments_spec [OF P less.prems(1-3) _ less.prems(4,5), of nbytes] by (subst pread_loop.simps) simp
  next
    case True
    obtain fl1 buf1 where 1: "pread_segments P ?M fl buf p ?M offset = Some (int ?M, buf1, fl1)" "same_file fl fl1"
      "store p (blocks_between (device content fl) (offset div ALIGNMENT) ((offset + ?M) div ALIGNMENT)) buf = Some buf1"
      using pread_segments_spec [OF P less.prems(1) M(2) less.prems(3), of p buf ?M] less.prems(4,5) True by auto
    have part: "pread_part P fl buf p ?M offset = Some (int ?M, buf1, fl1)"
      using 1(1) M(2) less.prems(3) by (simp add: pread_part_def is_aligned_or)
    note len = length_range [OF M(2), of content fl offset]
    obtain fl2 buf2 where 2: "pread_loop P nbytes fl1 buf1 (p + ?M) (count - ?M) (offset + ?M) = Some (int nbytes, buf2, fl2)" "same_file fl1 fl2"
      "store (p + ?M) (blocks_between (device content fl) ((offset + ?M) div ALIGNMENT) ((offset + count) div ALIGNMENT)) buf1 = Some buf2"
      using less.IH [of "count - ?M" fl1 "offset + ?M" "p + ?M" buf1] same_file_laws [OF 1(2)] less.prems M True store_length [OF 1(3)] by auto
    have "store p (blocks_between (device content fl) (offset div ALIGNMENT) ((offset + count) div ALIGNMENT)) buf = Some buf2"
      using store_store [OF 1(3), unfolded len, OF 2(3)] True by (simp add: blocks_between_append div_le_mono)
    then show ?thesis
      using part 2(1) True same_file_laws(3) [OF 1(2)] same_file_trans [OF 1(2) 2(2)] by (subst pread_loop.simps) simp
  qed
qed

lemma LSMT_pread_spec:
  assumes "full_reads P content" "readable fl" "ALIGNMENT dvd count" "ALIGNMENT dvd offset" "offset + count < 2 ^ 50 * ALIGNMENT"
    "count \<le> length buf"
  shows "\<exists>fl'. LSMT_pread P fl buf count offset =
      Some (int count, blocks_between (device content fl) (offset div ALIGNMENT) ((offset + count) div ALIGNMENT) @ drop count buf, fl') \<and>
    same_file fl fl'"
proof -
  have len: "length (blocks_between (device content fl) (offset div ALIGNMENT) ((offset + count) div ALIGNMENT)) = count"
    using assms(3) by simp
  from pread_loop_spec [OF assms(1-5), of 0 buf count] assms(6) len show ?thesis
    using assms(3,4) by (auto simp: LSMT_pread_def is_aligned_or store_def)
qed


section \<open>The writable file\<close>

text \<open>
  The mappings that wait for a group commit are the first \<open>nmapping\<close> elements of \<open>m_stacked_mappings\<close>;
  without group commit this buffer is empty. There may be no index file (\<open>m_findex\<close>).
\<close>

record 'f LSMTFile = "'f LSMTReadOnlyFile" +
  m_compacted_idx_size :: nat
  m_init_concurrency :: bool
  m_data_offset :: nat
  m_rw_tag :: nat
  m_findex :: "'f option"
  m_stacked_mappings :: "SegmentMapping list"
  nmapping :: nat

text \<open>\<open>append\<close> returns the position of the data, or 0 when not everything was written.\<close>

definition append_file :: "'f photon \<Rightarrow> 'f \<Rightarrow> u8 list \<Rightarrow> int \<times> 'f" where
  "append_file P f bs =
     (let (pos, f) = io_end P f; (ret, f) = io_write P f bs in (if ret < int (length bs) then 0 else pos, f))"

text \<open>Copying more mappings than the buffer has, and appending without an index file, is undefined.\<close>

definition do_group_commit_mappings :: "'f photon \<Rightarrow> ('f, 'x) LSMTFile_scheme \<Rightarrow> (int \<times> ('f, 'x) LSMTFile_scheme) option" where
  "do_group_commit_mappings P fl =
     (if nmapping fl > 0 then do {
        let n = max (nmapping fl) (length (m_stacked_mappings fl));
        let ms = take (nmapping fl) (m_stacked_mappings fl) @ replicate (n - nmapping fl) invalid_mapping;
        bug_on (n > length ms);
        f \<leftarrow> m_findex fl;
        let (ret, f) = append_file P f (index_bytes ms);
        let fl = fl\<lparr>m_stacked_mappings := ms, m_findex := Some f\<rparr>;
        if ret = 0 then Some (- 1, fl\<lparr>nmapping := n\<rparr>) else Some (0, fl\<lparr>nmapping := 0\<rparr>)
      } else Some (0, fl))"

text \<open>The results of appending to the log are ignored.\<close>

definition append_index :: "'f photon \<Rightarrow> SegmentMapping \<Rightarrow> ('f, 'x) LSMTFile_scheme \<Rightarrow> ('f, 'x) LSMTFile_scheme option" where
  "append_index P m fl =
     (case m_findex fl of
        None \<Rightarrow> Some fl
      | Some f \<Rightarrow>
          if m_stacked_mappings fl = [] then Some (fl\<lparr>m_findex := Some (snd (append_file P f (mapping_bytes m)))\<rparr>)
          else do {
            bug_on (nmapping fl \<ge> length (m_stacked_mappings fl));
            let fl = fl\<lparr>m_stacked_mappings := (m_stacked_mappings fl)[nmapping fl := m], nmapping := nmapping fl + 1\<rparr>;
            if nmapping fl = length (m_stacked_mappings fl) then map_option snd (do_group_commit_mappings P fl) else Some fl
          })"

text \<open>
  The request \<open>Index_Group_Commit\<close> of \<open>vioctl\<close>. New elements of the buffer are written before they are read;
  here they are invalid mappings.
\<close>

definition set_index_group_commit :: "'f photon \<Rightarrow> nat \<Rightarrow> ('f, 'x) LSMTFile_scheme \<Rightarrow> (int \<times> ('f, 'x) LSMTFile_scheme) option" where
  "set_index_group_commit P buffer_size fl = do {
     let n = buffer_size div SIZEOF_MAPPING;
     fl \<leftarrow> (if n < nmapping fl then map_option snd (do_group_commit_mappings P fl) else Some fl);
     let ms = m_stacked_mappings fl;
     Some (0, fl\<lparr>m_stacked_mappings := take n ms @ replicate (n - length ms) invalid_mapping\<rparr>)
   }"

text \<open>\<open>fsync\<close>, and \<open>close\<close>, which commits the waiting mappings and destroys the index.\<close>

definition LSMT_fsync :: "'f photon \<Rightarrow> ('f, 'x) LSMTFile_scheme \<Rightarrow> (int \<times> ('f, 'x) LSMTFile_scheme) option" where
  "LSMT_fsync P fl = do {
     (commit_ret, fl) \<leftarrow> do_group_commit_mappings P fl;
     Some (if commit_ret \<noteq> 0 then commit_ret else 0, fl)
   }"

definition LSMT_close :: "'f photon \<Rightarrow> ('f, 'x) LSMTFile_scheme \<Rightarrow> (int \<times> ('f, 'x) LSMTFile_scheme) option" where
  "LSMT_close P fl = do {
     (_, fl) \<leftarrow> do_group_commit_mappings P fl;
     Some (0, fl\<lparr>m_findex := (if m_file_ownership fl then None else m_findex fl), m_index := None\<rparr>)
   }"

text \<open>\<open>pwrite\<close> after its loop.\<close>

definition pwrite_segment :: "'f photon \<Rightarrow> nat \<Rightarrow> ('f, 'x) LSMTFile_scheme \<Rightarrow> u8 list \<Rightarrow> nat \<Rightarrow> (int \<times> ('f, 'x) LSMTFile_scheme) option" where
  "pwrite_segment P nbytes fl data offset = do {
     let count = length data;
     bug_on (m_rw_tag fl \<ge> length (m_files fl));
     let (moff, f) = append_file P (m_files fl ! m_rw_tag fl) data;
     let fl = fl\<lparr>m_files := (m_files fl)[m_rw_tag fl := f]\<rparr>;
     if moff = 0 then Some (- 1, fl)
     else do {
       let fl = fl\<lparr>m_vsize := max (m_vsize fl) (count + offset)\<rparr>;
       bug_on (\<not> trunc 32 count div ALIGNMENT \<le> MAX_LENGTH);
       let m = (new_SegmentMapping (offset div ALIGNMENT) (trunc 32 count div ALIGNMENT) (nat (moff mod 2 ^ 64) div ALIGNMENT) 0)\<lparr>tag := m_rw_tag fl\<rparr>;
       bug_on (\<not> seg_length m > 0);
       let fl = fl\<lparr>m_data_offset := mend m\<rparr>;
       ix \<leftarrow> m_index fl;
       ix \<leftarrow> index_insert m ix;
       fl \<leftarrow> append_index P m (fl\<lparr>m_index := Some ix\<rparr>);
       Some (int nbytes, fl)
     }
   }"

definition pwrite_part :: "'f photon \<Rightarrow> ('f, 'x) LSMTFile_scheme \<Rightarrow> u8 list \<Rightarrow> nat \<Rightarrow> (int \<times> ('f, 'x) LSMTFile_scheme) option" where
  "pwrite_part P fl data offset =
     (if \<not> is_aligned (length data OR offset) then Some (- 1, fl) else pwrite_segment P (length data) fl data offset)"

partial_function (option) pwrite_loop ::
    "'f photon \<Rightarrow> nat \<Rightarrow> ('f, 'x) LSMTFile_scheme \<Rightarrow> u8 list \<Rightarrow> nat \<Rightarrow> (int \<times> ('f, 'x) LSMTFile_scheme) option" where
  "pwrite_loop P nbytes fl data offset =
     (if length data > MAX_IO_SIZE fl then do {
        (ret, fl') \<leftarrow> pwrite_part P fl (take (MAX_IO_SIZE fl) data) offset;
        if ret < int (MAX_IO_SIZE fl) then Some (- 1, fl')
        else pwrite_loop P nbytes fl' (drop (MAX_IO_SIZE fl) data) (offset + MAX_IO_SIZE fl)
      } else pwrite_segment P nbytes fl data offset)"

definition LSMT_pwrite :: "'f photon \<Rightarrow> ('f, 'x) LSMTFile_scheme \<Rightarrow> u8 list \<Rightarrow> nat \<Rightarrow> (int \<times> ('f, 'x) LSMTFile_scheme) option" where
  "LSMT_pwrite P fl data offset =
     (if \<not> is_aligned (length data OR offset) then Some (- 1, fl) else pwrite_loop P (length data) fl data offset)"

definition LSMT_discard :: "'f photon \<Rightarrow> SegmentMapping \<Rightarrow> ('f, 'x) LSMTFile_scheme \<Rightarrow> (int \<times> ('f, 'x) LSMTFile_scheme) option" where
  "LSMT_discard P m fl = do {
     bug_on (m_rw_tag fl \<ge> length (m_files fl));
     let (pos, f) = io_end P (m_files fl ! m_rw_tag fl);
     let fl = fl\<lparr>m_files := (m_files fl)[m_rw_tag fl := f]\<rparr>;
     let m = m\<lparr>moffset := trunc 55 (nat (pos mod 2 ^ 64) div ALIGNMENT), tag := m_rw_tag fl\<rparr>;
     ix \<leftarrow> m_index fl;
     ix \<leftarrow> index_insert m ix;
     fl \<leftarrow> append_index P m (fl\<lparr>m_index := Some ix\<rparr>);
     Some (0, fl)
   }"

definition FALLOC_FL_KEEP_SIZE :: nat where "FALLOC_FL_KEEP_SIZE = 1"
definition FALLOC_FL_PUNCH_HOLE :: nat where "FALLOC_FL_PUNCH_HOLE = 2"

definition fallocate_part :: "'f photon \<Rightarrow> nat \<Rightarrow> ('f, 'x) LSMTFile_scheme \<Rightarrow> nat \<Rightarrow> nat \<Rightarrow> (int \<times> ('f, 'x) LSMTFile_scheme) option" where
  "fallocate_part P mode fl offset len =
     (if mode AND FALLOC_FL_PUNCH_HOLE = 0 \<or> mode AND FALLOC_FL_KEEP_SIZE = 0 then Some (- 1, fl)
      else if \<not> is_aligned (len OR offset) then Some (- 1, fl)
      else do {
        bug_on (\<not> trunc 32 len div ALIGNMENT \<le> MAX_LENGTH);
        LSMT_discard P (discard (new_SegmentMapping (offset div ALIGNMENT) (trunc 32 len div ALIGNMENT) 0 0)) fl
      })"

function LSMT_fallocate :: "'f photon \<Rightarrow> nat \<Rightarrow> ('f, 'x) LSMTFile_scheme \<Rightarrow> nat \<Rightarrow> nat \<Rightarrow> (int \<times> ('f, 'x) LSMTFile_scheme) option" where
  "LSMT_fallocate P mode fl offset len =
     (if len > MAX_LENGTH * ALIGNMENT then do {
        (ret, fl) \<leftarrow> fallocate_part P mode fl offset (MAX_LENGTH * ALIGNMENT);
        if ret \<noteq> 0 then Some (- 1, fl)
        else LSMT_fallocate P mode fl (offset + MAX_LENGTH * ALIGNMENT) (len - MAX_LENGTH * ALIGNMENT)
      } else fallocate_part P mode fl offset len)"
  by pat_completeness auto
termination
  by (relation "measure (\<lambda>(P, mode, fl, offset, len). len)") (auto simp: MAX_LENGTH_def ALIGNMENT_def)

declare LSMT_fallocate.simps [simp del]

text \<open>\<open>update_vsize\<close>: the virtual size is at the bytes 48 to 55 of the header.\<close>

definition update_header_vsize :: "'f photon \<Rightarrow> 'f \<Rightarrow> nat \<Rightarrow> int \<times> 'f" where
  "update_header_vsize P f vsize =
     (let (r, buf) = io_pread P f SPACE 0 in
      if r \<noteq> int SPACE then (- 1, f)
      else let (r, f) = io_pwrite P f (overwrite buf 48 (le_bytes 8 vsize)) 0 in
        if r \<noteq> int SPACE then (- 1, f) else (0, f))"

definition LSMT_update_vsize :: "'f photon \<Rightarrow> nat \<Rightarrow> ('f, 'x) LSMTFile_scheme \<Rightarrow> (int \<times> ('f, 'x) LSMTFile_scheme) option" where
  "LSMT_update_vsize P vsize fl = do {
     let fl = fl\<lparr>m_vsize := vsize\<rparr>;
     bug_on (m_rw_tag fl \<ge> length (m_files fl));
     let (r, f) = update_header_vsize P (m_files fl ! m_rw_tag fl) vsize;
     let fl = fl\<lparr>m_files := (m_files fl)[m_rw_tag fl := f]\<rparr>;
     if r < 0 then Some (- 1, fl)
     else do {
       g \<leftarrow> m_findex fl;
       let (r, g) = update_header_vsize P g vsize;
       Some (if r < 0 then - 1 else 0, fl\<lparr>m_findex := Some g\<rparr>)
     }
   }"

text \<open>The data statistics: total and valid bytes, in unsigned arithmetic.\<close>

definition LSMT_data_stat :: "'f photon \<Rightarrow> ('f, 'x) LSMTFile_scheme \<Rightarrow> (nat \<times> nat) option" where
  "LSMT_data_stat P fl = do {
     bug_on (m_rw_tag fl \<ge> length (m_files fl));
     let (ret, st_size) = io_size P (m_files fl ! m_rw_tag fl);
     if ret \<noteq> 0 then Some (UINT64_MAX, UINT64_MAX)
     else do {
       ix \<leftarrow> m_index fl;
       Some (sub64 st_size SPACE, trunc 64 (block_count ix * ALIGNMENT))
     }
   }"


section \<open>Appending to files and to the log\<close>

definition full_writes :: "'f photon \<Rightarrow> bool" where
  "full_writes P \<longleftrightarrow> (\<forall>f bs. fst (io_write P f bs) = int (length bs))"

lemma full_write:
  assumes "file_laws P content pos" "full_writes P" "pos f = length (content f)"
  obtains f' where "io_write P f bs = (int (length bs), f')" "content f' = content f @ bs" "pos f' = length (content f')"
proof -
  obtain r f' where w: "io_write P f bs = (r, f')" by (cases "io_write P f bs")
  have r: "r = int (length bs)" using assms(2) w by (metis full_writes_def fst_conv)
  from io_write_law [OF assms(1) w] r assms(3) w show thesis by (intro that [of f']) (auto simp: overwrite_def)
qed

lemma append_file_spec:
  assumes P: "file_laws P content pos" and ne: "bs \<noteq> []"
  obtains r f' k where "append_file P f bs = (r, f')" "content f' = content f @ take k bs" "pos f' = length (content f) + k"
    "k < length bs \<and> r = 0 \<or> k = length bs \<and> r = int (length (content f))" "full_writes P \<longrightarrow> k = length bs"
proof -
  obtain f1 where f1: "io_end P f = (int (length (content f)), f1)" "content f1 = content f" "pos f1 = length (content f)"
    using io_end_law [OF P] by metis
  obtain ret f2 where f2: "io_write P f1 bs = (ret, f2)" by (cases "io_write P f1 bs")
  note w = io_write_law [OF P f2]
  have c: "content f2 = content f @ take (nat ret) bs" "pos f2 = length (content f) + nat ret" using w f1 by simp_all
  have "full_writes P \<longrightarrow> ret = int (length bs)" using f2 by (metis full_writes_def fst_conv)
  then show thesis
  proof (cases "ret < int (length bs)")
    case True
    then have "nat ret < length bs" using ne by (cases "0 \<le> ret") (simp_all add: nat_less_iff)
    then show thesis using that [of 0 f2 "nat ret"] f1(1) f2 c True \<open>full_writes P \<longrightarrow> _\<close> by (auto simp: append_file_def)
  next
    case False
    then have "ret = int (length bs)" using w(1) by simp
    then show thesis using that [of "int (length (content f))" f2 "length bs"] f1(1) f2 c by (auto simp: append_file_def)
  qed
qed

text \<open>
  The buffer of the group commit has a free place, no mapping waits when there is no index file, and the
  index file is not empty (it has a header).
\<close>

definition findex_ok :: "('f \<Rightarrow> u8 list) \<Rightarrow> ('f, 'x) LSMTFile_scheme \<Rightarrow> bool" where
  "findex_ok content fl \<longleftrightarrow> (case m_findex fl of None \<Rightarrow> nmapping fl = 0 | Some f \<Rightarrow> content f \<noteq> [])"

definition group_ok :: "('f \<Rightarrow> u8 list) \<Rightarrow> ('f, 'x) LSMTFile_scheme \<Rightarrow> bool" where
  "group_ok content fl \<longleftrightarrow> findex_ok content fl \<and>
     (m_stacked_mappings fl = [] \<and> nmapping fl = 0 \<or> nmapping fl < length (m_stacked_mappings fl))"

definition is_valid :: "SegmentMapping \<Rightarrow> bool" where
  "is_valid m \<longleftrightarrow> seg_offset m \<noteq> INVALID_OFFSET"

text \<open>
  The log of a file object: the mappings in the index file behind its header, without the padding of group
  commits, and then those that wait.
\<close>

definition log_is :: "('f \<Rightarrow> u8 list) \<Rightarrow> ('f, 'x) LSMTFile_scheme \<Rightarrow> SegmentMapping list \<Rightarrow> bool" where
  "log_is content fl ms \<longleftrightarrow> (\<exists>f page es. m_findex fl = Some f \<and> content f = page @ index_bytes es \<and> length page = SPACE \<and>
     (\<forall>e \<in> set es \<union> set (take (nmapping fl) (m_stacked_mappings fl)). fields_ok e) \<and>
     ms = filter is_valid es @ filter is_valid (take (nmapping fl) (m_stacked_mappings fl)))"

definition log_page :: "('f \<Rightarrow> u8 list) \<Rightarrow> ('f, 'x) LSMTFile_scheme \<Rightarrow> u8 list" where
  "log_page content fl = (case m_findex fl of None \<Rightarrow> [] | Some f \<Rightarrow> take SPACE (content f))"

definition same_data :: "('f, 'x) LSMTFile_scheme \<Rightarrow> ('f, 'x) LSMTFile_scheme \<Rightarrow> bool" where
  "same_data fl fl' \<longleftrightarrow> (\<exists>x y z. fl' = fl\<lparr>m_findex := x, m_stacked_mappings := y, nmapping := z\<rparr>)"

lemma same_data_refl [simp]: "same_data fl fl"
  unfolding same_data_def by (intro exI [of _ "m_findex fl"] exI [of _ "m_stacked_mappings fl"] exI [of _ "nmapping fl"]) simp

lemma same_dataD:
  assumes "same_data fl fl'"
  shows "m_files fl' = m_files fl" "m_index fl' = m_index fl" "m_rw_tag fl' = m_rw_tag fl" "MAX_IO_SIZE fl' = MAX_IO_SIZE fl"
    "m_vsize fl' = m_vsize fl" "m_uuid fl' = m_uuid fl" "readable fl' = readable fl" "device content fl' = device content fl"
  using assms by (auto simp: same_data_def readable_def max_io_ok_def device_def fun_eq_iff split: option.split)

lemma group_commit_spec:
  assumes P: "file_laws P content pos" "full_writes P" and g: "findex_ok content fl" "nmapping fl \<le> length (m_stacked_mappings fl)"
  shows "\<exists>fl'. do_group_commit_mappings P fl = Some (0, fl') \<and> same_data fl fl' \<and> nmapping fl' = 0 \<and> findex_ok content fl' \<and>
    length (m_stacked_mappings fl') = length (m_stacked_mappings fl) \<and>
    (\<forall>ms. log_is content fl ms \<longrightarrow> log_is content fl' ms \<and> log_page content fl' = log_page content fl)"
proof (cases "nmapping fl = 0")
  case True
  with g show ?thesis by (simp add: do_group_commit_mappings_def)
next
  case False
  let ?n = "nmapping fl" and ?st = "m_stacked_mappings fl"
  from False g obtain f where f: "m_findex fl = Some f" "content f \<noteq> []" by (auto simp: findex_ok_def split: option.splits)
  let ?ms = "take ?n ?st @ replicate (length ?st - ?n) invalid_mapping"
  have len: "length ?ms = length ?st" "?n \<noteq> 0" "?st \<noteq> []" using False g(2) by auto
  then have ne: "index_bytes ?ms \<noteq> []" using length_index_bytes [of ?ms] by (auto simp: SIZEOF_MAPPING_def simp del: length_index_bytes)
  obtain r f' where f': "append_file P f (index_bytes ?ms) = (r, f')" "content f' = content f @ index_bytes ?ms" "r \<noteq> 0"
  proof (rule append_file_spec [OF P(1) ne, of f])
    fix r f' k
    assume a: "append_file P f (index_bytes ?ms) = (r, f')" "content f' = content f @ take k (index_bytes ?ms)"
      "k < length (index_bytes ?ms) \<and> r = 0 \<or> k = length (index_bytes ?ms) \<and> r = int (length (content f))"
      "full_writes P \<longrightarrow> k = length (index_bytes ?ms)"
    then have "k = length (index_bytes ?ms)" "r \<noteq> 0" using P(2) f(2) by auto
    then show thesis using a(1,2) by (intro that [of r f']) simp_all
  qed
  let ?fl = "fl\<lparr>m_stacked_mappings := ?ms, m_findex := Some f', nmapping := 0\<rparr>"
  have run: "do_group_commit_mappings P fl = Some (0, ?fl)"
    unfolding do_group_commit_mappings_def using len f f' g(2) by (simp add: max_def min_def Let_def)
  have "log_is content ?fl ms \<and> log_page content ?fl = log_page content fl" if l: "log_is content fl ms" for ms
  proof -
    from l f(1) obtain page es where
      l: "content f = page @ index_bytes es" "length page = SPACE" "\<forall>e \<in> set es \<union> set (take ?n ?st). fields_ok e"
        "ms = filter is_valid es @ filter is_valid (take ?n ?st)" by (auto simp: log_is_def)
    have "filter is_valid (replicate k invalid_mapping) = []" for k
      by (simp add: is_valid_def invalid_mapping_def new_SegmentMapping_def INVALID_OFFSET_def trunc_def)
    then have "log_is content ?fl ms"
      unfolding log_is_def using l f'(2)
      by (intro exI [of _ f'] exI [of _ page] exI [of _ "es @ ?ms"]) auto
    moreover have "log_page content ?fl = log_page content fl" using l f f'(2) by (simp add: log_page_def)
    ultimately show ?thesis ..
  qed
  moreover have "same_data fl ?fl"
    unfolding same_data_def by (intro exI [of _ "Some f'"] exI [of _ ?ms] exI [of _ 0]) simp
  ultimately show ?thesis using run len f(2) f'(2) by (intro exI [of _ ?fl]) (simp add: findex_ok_def)
qed

lemma append_index_spec:
  assumes P: "file_laws P content pos" "full_writes P" and g: "group_ok content fl" and m: "fields_ok m"
  shows "\<exists>fl'. append_index P m fl = Some fl' \<and> same_data fl fl' \<and> group_ok content fl' \<and>
    (\<forall>ms. log_is content fl ms \<longrightarrow> log_is content fl' (ms @ filter is_valid [m]) \<and> log_page content fl' = log_page content fl)"
proof (cases "m_findex fl")
  case None
  then show ?thesis using g by (simp add: append_index_def log_is_def)
next
  case (Some f)
  let ?n = "nmapping fl" and ?st = "m_stacked_mappings fl"
  have f: "content f \<noteq> []" using g Some by (simp add: group_ok_def findex_ok_def)
  show ?thesis
  proof (cases "?st = []")
    case True
    have n: "?n = 0" using g True by (simp add: group_ok_def)
    have "mapping_bytes m \<noteq> []" using length_mapping_bytes [of m] by (auto simp: SIZEOF_MAPPING_def simp del: length_mapping_bytes)
    from append_file_spec [OF P(1) this, of f] P(2) obtain r f' where
      f': "append_file P f (mapping_bytes m) = (r, f')" "content f' = content f @ mapping_bytes m" by (metis order_refl take_all)
    let ?fl = "fl\<lparr>m_findex := Some f'\<rparr>"
    have "log_is content ?fl (ms @ filter is_valid [m]) \<and> log_page content ?fl = log_page content fl" if "log_is content fl ms" for ms
    proof -
      from that Some n obtain page es where
        l: "content f = page @ index_bytes es" "length page = SPACE" "\<forall>e \<in> set es. fields_ok e" "ms = filter is_valid es"
        by (auto simp: log_is_def)
      then have "log_is content ?fl (ms @ filter is_valid [m])"
        unfolding log_is_def using f'(2) m n by (intro exI [of _ f'] exI [of _ page] exI [of _ "es @ [m]"]) auto
      then show ?thesis using l Some f'(2) by (simp add: log_page_def)
    qed
    moreover have "same_data fl ?fl" unfolding same_data_def by (intro exI [of _ "Some f'"] exI [of _ ?st] exI [of _ ?n]) simp
    ultimately show ?thesis using Some True f' f n by (simp add: append_index_def group_ok_def findex_ok_def)
  next
    case False
    have n: "?n < length ?st" using g False by (simp add: group_ok_def)
    let ?fl = "fl\<lparr>m_stacked_mappings := ?st[?n := m], nmapping := ?n + 1\<rparr>"
    have fx: "findex_ok content ?fl" using g Some by (simp add: group_ok_def findex_ok_def)
    have sd: "same_data fl ?fl" unfolding same_data_def by (intro exI [of _ "m_findex fl"] exI [of _ "?st[?n := m]"] exI [of _ "?n + 1"]) simp
    have tk: "take (?n + 1) (?st[?n := m]) = take ?n ?st @ [m]" using n by (simp add: take_Suc_conv_app_nth)
    have lg: "log_is content ?fl (ms @ filter is_valid [m]) \<and> log_page content ?fl = log_page content fl" if "log_is content fl ms" for ms
    proof -
      from that Some obtain page es where
        l: "content f = page @ index_bytes es" "length page = SPACE" "\<forall>e \<in> set es \<union> set (take ?n ?st). fields_ok e"
          "ms = filter is_valid es @ filter is_valid (take ?n ?st)" by (auto simp: log_is_def)
      then have "log_is content ?fl (ms @ filter is_valid [m])"
        unfolding log_is_def using Some m tk by (intro exI [of _ f] exI [of _ page] exI [of _ es]) auto
      then show ?thesis by (simp add: log_page_def)
    qed
    show ?thesis
    proof (cases "?n + 1 = length ?st")
      case full: True
      have "nmapping ?fl \<le> length (m_stacked_mappings ?fl)" using full by simp
      from group_commit_spec [OF P fx this] obtain fl' where
        fl': "do_group_commit_mappings P ?fl = Some (0, fl')" "same_data ?fl fl'" "nmapping fl' = 0" "findex_ok content fl'"
          "length (m_stacked_mappings fl') = length (m_stacked_mappings ?fl)"
          "\<forall>ms. log_is content ?fl ms \<longrightarrow> log_is content fl' ms \<and> log_page content fl' = log_page content ?fl" by blast
      have "same_data fl fl'" using sd fl'(2) by (auto simp: same_data_def)
      moreover have "append_index P m fl = Some fl'" using Some False n full fl'(1) by (simp add: append_index_def Let_def)
      moreover have "group_ok content fl'" using fl'(3-5) n False by (auto simp: group_ok_def)
      moreover have "log_is content fl' (ms @ filter is_valid [m]) \<and> log_page content fl' = log_page content fl" if "log_is content fl ms" for ms
        using lg [OF that] fl'(6) by metis
      ultimately show ?thesis by blast
    next
      case part: False
      then show ?thesis using Some False n lg sd fx by (auto simp: append_index_def Let_def group_ok_def)
    qed
  qed
qed


section \<open>Writes override the blocks of the device\<close>

definition data_of :: "('f \<Rightarrow> u8 list) \<Rightarrow> ('f, 'x) LSMTFile_scheme \<Rightarrow> u8 list" where
  "data_of content fl = content (m_files fl ! m_rw_tag fl)"

text \<open>
  The file objects that can be written: they are readable, the index can be changed, the data file has its
  header and a whole number of blocks, and all blocks mapped into it are in it.
\<close>

definition writable :: "('f \<Rightarrow> u8 list) \<Rightarrow> ('f, 'x) LSMTFile_scheme \<Rightarrow> bool" where
  "writable content fl \<longleftrightarrow> readable fl \<and> (\<forall>r. m_index fl \<noteq> Some (RO r)) \<and> m_rw_tag fl < length (m_files fl) \<and> m_rw_tag fl < 2 ^ 8 \<and>
     SPACE \<le> length (data_of content fl) \<and> ALIGNMENT dvd length (data_of content fl) \<and>
     (\<forall>ix b n. m_index fl = Some ix \<longrightarrow> index_blocks ix b = Some (m_rw_tag fl, Some n) \<longrightarrow> (n + 1) * ALIGNMENT \<le> length (data_of content fl))"

text \<open>The specification of a write of whole blocks and of a discard of \<open>n\<close> blocks.\<close>

definition written :: "nat \<Rightarrow> u8 list \<Rightarrow> (nat \<Rightarrow> u8 list) \<Rightarrow> nat \<Rightarrow> u8 list" where
  "written a data D b = (if a \<le> b \<and> b < a + length data div ALIGNMENT then file_block data (b - a) else D b)"

definition punched :: "nat \<Rightarrow> nat \<Rightarrow> (nat \<Rightarrow> u8 list) \<Rightarrow> nat \<Rightarrow> u8 list" where
  "punched a n D b = (if a \<le> b \<and> b < a + n then zeros else D b)"

lemma file_block_append: "(n + 1) * ALIGNMENT \<le> length c \<Longrightarrow> file_block (c @ d) n = file_block c n"
  by (simp add: file_block_def)

lemma file_block_shift:
  assumes "length c = k * ALIGNMENT"
  shows "file_block (c @ d) (k + n) = file_block d n"
  using assms by (simp add: file_block_def add_mult_distrib)

text \<open>Inserting a mapping for the end of the data file, to which \<open>d\<close> is appended.\<close>

lemma insert_appended:
  fixes fl :: "('f, 'x) LSMTFile_scheme"
  assumes w: "writable content fl" and ix: "m_index fl = Some ix" and m: "seg_length m = 0 \<or> wf_map m" "tag m = m_rw_tag fl"
    and f': "content f' = data_of content fl @ d" "ALIGNMENT dvd length d"
    and place: "\<not> zeroed m \<Longrightarrow> (moffset m + seg_length m) * ALIGNMENT \<le> length (content f')"
  shows "\<exists>ix'. index_insert m ix = Some ix' \<and> (\<forall>b. index_blocks ix' b = over (denote [m]) (index_blocks ix) b) \<and>
    (\<forall>fl' :: ('f, 'x) LSMTFile_scheme. m_files fl' = (m_files fl)[m_rw_tag fl := f'] \<longrightarrow> m_index fl' = Some ix' \<longrightarrow> m_rw_tag fl' = m_rw_tag fl \<longrightarrow> MAX_IO_SIZE fl' = MAX_IO_SIZE fl \<longrightarrow>
      writable content fl' \<and> data_of content fl' = content f' \<and>
      (\<forall>b. device content fl' b = (if covers m b then (if zeroed m then zeros else file_block (content f') (moffset m + (b - seg_offset m))) else device content fl b)))"
proof -
  have ok: "index_ok ix" "\<not> (\<exists>r. ix = RO r)" "blocks_in_files (index_blocks ix) (m_files fl)" "m_rw_tag fl < length (m_files fl)"
    and inside: "\<And>b n. index_blocks ix b = Some (m_rw_tag fl, Some n) \<Longrightarrow> (n + 1) * ALIGNMENT \<le> length (data_of content fl)"
    using w ix by (auto simp: writable_def readable_def)
  from index_insert_spec [OF ok(1) m(1) ok(2)] obtain ix' where
    ix': "index_insert m ix = Some ix'" "index_ok ix'" "\<not> (\<exists>r. ix' = RO r)" "\<And>b. index_blocks ix' b = over (denote [m]) (index_blocks ix) b" by blast
  have cov: "index_blocks ix' b = (if covers m b then Some (target m b) else index_blocks ix b)" for b
    by (simp add: ix'(4) over_def)
  have "writable content fl' \<and> data_of content fl' = content f' \<and>
      device content fl' b = (if covers m b then (if zeroed m then zeros else file_block (content f') (moffset m + (b - seg_offset m))) else device content fl b)"
    if fl': "m_files fl' = (m_files fl)[m_rw_tag fl := f']" "m_index fl' = Some ix'" "m_rw_tag fl' = m_rw_tag fl" "MAX_IO_SIZE fl' = MAX_IO_SIZE fl"
    for fl' :: "('f, 'x) LSMTFile_scheme" and b
  proof (intro conjI)
    show d: "data_of content fl' = content f'" using fl' ok(4) by (simp add: data_of_def)
    have "(n + 1) * ALIGNMENT \<le> length (content f')" if "index_blocks ix' x = Some (m_rw_tag fl, Some n)" for x n
    proof (cases "covers m x")
      case True
      then have "\<not> zeroed m" "n = moffset m + (x - seg_offset m)" "n + 1 \<le> moffset m + seg_length m"
        using that by (auto simp: cov target_def covers_def seg_end_def split: if_splits)
      then show ?thesis using place mult_le_mono1 [of "n + 1" "moffset m + seg_length m" ALIGNMENT] by linarith
    next
      case False
      then show ?thesis using that inside f'(1) by (fastforce simp: cov)
    qed
    moreover have "blocks_in_files (index_blocks ix') (m_files fl')"
      using ok(3,4) m(2) fl'(1) by (auto simp: blocks_in_files_def cov target_def split: if_splits)
    ultimately show "writable content fl'"
      using w f' ix'(2,3) fl' d ok(4) by (auto simp: writable_def readable_def max_io_ok_def)
    have keep: "block_value (map content (m_files fl')) t = block_value (map content (m_files fl)) t" if "index_blocks ix b = t" for t
    proof (cases t)
      case (Some p)
      show ?thesis
      proof (cases "snd p")
        case loc: (Some n)
        have k: "fst p < length (m_files fl)" using that Some loc ok(3) by (cases p) (auto simp: blocks_in_files_def)
        show ?thesis
        proof (cases "fst p = m_rw_tag fl")
          case True
          then have "(n + 1) * ALIGNMENT \<le> length (data_of content fl)" using that Some loc inside [of b n] by (cases p) auto
          then have "file_block (content f') n = file_block (data_of content fl) n" unfolding f'(1) by (rule file_block_append)
          then show ?thesis using Some loc True k fl'(1) by (cases p) (simp add: block_value_def data_of_def)
        next
          case False
          then show ?thesis using Some loc k fl'(1) by (cases p) (simp add: block_value_def)
        qed
      qed (use Some in \<open>cases p; simp add: block_value_def\<close>)
    qed (simp add: block_value_def)
    show "device content fl' b = (if covers m b then (if zeroed m then zeros else file_block (content f') (moffset m + (b - seg_offset m))) else device content fl b)"
      using keep fl' ix ok(4) m(2) by (auto simp: device_def cov target_def block_value_def)
  qed
  with ix'(1,4) show ?thesis by blast
qed

lemma same_data_writable:
  assumes "same_data fl fl'"
  shows "writable content fl' = writable content fl" "data_of content fl' = data_of content fl"
  using same_dataD(1-7) [OF assms] by (simp_all add: writable_def data_of_def)

text \<open>The mappings that a file object logs, when its data file has \<open>sz\<close> bytes and its layer the tag \<open>t\<close>.\<close>

definition entry_ok :: "nat \<Rightarrow> nat \<Rightarrow> SegmentMapping \<Rightarrow> bool" where
  "entry_ok t sz e \<longleftrightarrow> (if zeroed e \<and> seg_length e = 0 then True else wf_map e) \<and> fields_ok e \<and> is_valid e \<and> tag e = t \<and>
     SPACE \<le> moffset e * ALIGNMENT \<and> mend e * ALIGNMENT \<le> sz"

lemma entry_ok_mono: "entry_ok t sz e \<Longrightarrow> sz \<le> sz' \<Longrightarrow> entry_ok t sz' e"
  by (auto simp: entry_ok_def)

lemma invalid_covers: "wf_map m \<Longrightarrow> is_valid m"
  using wf_mapD [of m] by (auto simp: is_valid_def INVALID_OFFSET_def seg_end_def)

lemma denote_filter_valid: "seg_length m = 0 \<or> wf_map m \<Longrightarrow> denote (filter is_valid [m]) b = denote [m] b"
  using invalid_covers [of m] by (auto simp: covers_def seg_end_def)

lemma index_insert_RW: "index_insert m (RW i) = Some ix' \<Longrightarrow> \<exists>i'. ix' = RW i'"
  by auto

text \<open>
  A state after changes: still writable, the log extended by \<open>es\<close>, the data file by \<open>k\<close> bytes, and the index
  overridden by \<open>es\<close>.
\<close>

definition grown :: "('f \<Rightarrow> u8 list) \<Rightarrow> nat \<Rightarrow> SegmentMapping list \<Rightarrow> ('f, 'x) LSMTFile_scheme \<Rightarrow> ('f, 'x) LSMTFile_scheme \<Rightarrow> bool" where
  "grown content k es fl fl' \<longleftrightarrow> writable content fl' \<and> group_ok content fl' \<and> MAX_IO_SIZE fl' = MAX_IO_SIZE fl \<and>
     m_rw_tag fl' = m_rw_tag fl \<and> length (m_files fl') = length (m_files fl) \<and>
     length (data_of content fl') = length (data_of content fl) + k \<and> take SPACE (data_of content fl') = take SPACE (data_of content fl) \<and>
     (\<forall>ms. log_is content fl ms \<longrightarrow> log_is content fl' (ms @ es) \<and> log_page content fl' = log_page content fl) \<and>
     (\<forall>e \<in> set es. entry_ok (m_rw_tag fl) (length (data_of content fl')) e) \<and>
     (\<exists>ix ix'. m_index fl = Some ix \<and> m_index fl' = Some ix' \<and> (\<forall>b. index_blocks ix' b = over (denote (rev es)) (index_blocks ix) b) \<and>
        ((\<exists>i. ix = RW i) \<longrightarrow> (\<exists>i. ix' = RW i)))"

lemma grown_refl: "writable content fl \<Longrightarrow> group_ok content fl \<Longrightarrow> grown content 0 [] fl fl"
  by (auto simp: grown_def writable_def readable_def over_def)

lemma over_assoc: "over a (over b c) x = over (over a b) c x"
  by (simp add: over_def split: option.split)

lemma denote_over: "denote (xs @ ys) b = over (denote xs) (denote ys) b"
  by (simp add: over_def denote_append)

lemma grown_trans:
  assumes "grown content k es fl fl1" "grown content l fs fl1 fl2"
  shows "grown content (k + l) (es @ fs) fl fl2"
proof -
  from assms obtain ix ix1 ix2 where ix: "m_index fl = Some ix" "m_index fl1 = Some ix1" "m_index fl2 = Some ix2"
    "\<forall>b. index_blocks ix1 b = over (denote (rev es)) (index_blocks ix) b" "\<forall>b. index_blocks ix2 b = over (denote (rev fs)) (index_blocks ix1) b"
    "(\<exists>i. ix = RW i) \<longrightarrow> (\<exists>i. ix2 = RW i)"
    by (auto simp: grown_def)
  have "index_blocks ix2 b = over (denote (rev (es @ fs))) (index_blocks ix) b" for b
    using ix(4,5) by (simp add: over_def denote_append split: option.split)
  moreover have "\<forall>e \<in> set (es @ fs). entry_ok (m_rw_tag fl) (length (data_of content fl2)) e"
    using assms by (auto simp: grown_def intro: entry_ok_mono)
  ultimately show ?thesis using assms ix(1,3,6) unfolding grown_def by auto
qed

text \<open>The common end of a write and of a discard: the mapping goes into the index and into the log.\<close>

lemma insert_and_log:
  fixes fl :: "('f, 'x) LSMTFile_scheme"
  assumes P: "file_laws P content pos" "full_writes P" and w: "writable content fl" "group_ok content fl"
    and m: "seg_length m = 0 \<and> zeroed m \<or> wf_map m" "fields_ok m" "tag m = m_rw_tag fl"
    and f': "content f' = data_of content fl @ d" "ALIGNMENT dvd length d"
    and place: "mend m * ALIGNMENT \<le> length (content f')" "SPACE \<le> moffset m * ALIGNMENT"
    and fl1: "m_files fl1 = (m_files fl)[m_rw_tag fl := f']" "m_index fl1 = m_index fl" "m_rw_tag fl1 = m_rw_tag fl" "MAX_IO_SIZE fl1 = MAX_IO_SIZE fl"
      "m_findex fl1 = m_findex fl" "m_stacked_mappings fl1 = m_stacked_mappings fl" "nmapping fl1 = nmapping fl"
  obtains ix ix' fl' where "m_index fl = Some ix" "index_insert m ix = Some ix'" "append_index P m (fl1\<lparr>m_index := Some ix'\<rparr>) = Some fl'"
    "grown content (length d) (filter is_valid [m]) fl fl'" "m_vsize fl' = m_vsize fl1"
    "\<And>b. device content fl' b = (if covers m b then (if zeroed m then zeros else file_block (content f') (moffset m + (b - seg_offset m))) else device content fl b)"
proof -
  from w obtain ix where ix: "m_index fl = Some ix" by (auto simp: writable_def readable_def)
  have m1: "seg_length m = 0 \<or> wf_map m" using m(1) by blast
  have "\<not> zeroed m \<Longrightarrow> (moffset m + seg_length m) * ALIGNMENT \<le> length (content f')" using place(1) by (simp add: mend_def)
  from insert_appended [OF w(1) ix m1 m(3) f' this] obtain ix' where
    ix': "index_insert m ix = Some ix'" "\<And>fl' :: ('f, 'x) LSMTFile_scheme. m_files fl' = (m_files fl)[m_rw_tag fl := f'] \<Longrightarrow> m_index fl' = Some ix' \<Longrightarrow> m_rw_tag fl' = m_rw_tag fl \<Longrightarrow>
      MAX_IO_SIZE fl' = MAX_IO_SIZE fl \<Longrightarrow> writable content fl' \<and> data_of content fl' = content f' \<and>
      (\<forall>b. device content fl' b = (if covers m b then (if zeroed m then zeros else file_block (content f') (moffset m + (b - seg_offset m))) else device content fl b))"
    "\<And>b. index_blocks ix' b = over (denote [m]) (index_blocks ix) b"
    by blast
  let ?fl = "fl1\<lparr>m_index := Some ix'\<rparr>"
  note dev = ix'(2) [of ?fl]
  have g: "group_ok content ?fl" using w(2) fl1 by (simp add: group_ok_def findex_ok_def split: option.splits)
  have lg: "log_is content ?fl ms = log_is content fl ms" "log_page content ?fl = log_page content fl" for ms
    using fl1 by (simp_all add: log_is_def log_page_def)
  from append_index_spec [OF P g m(2)] obtain fl' where
    fl': "append_index P m ?fl = Some fl'" "same_data ?fl fl'" "group_ok content fl'"
      "\<And>ms. log_is content ?fl ms \<Longrightarrow> log_is content fl' (ms @ filter is_valid [m]) \<and> log_page content fl' = log_page content ?fl" by blast
  note sd = same_data_writable [OF fl'(2), of content] same_dataD(1-6) [OF fl'(2)]
  have sp: "SPACE \<le> length (data_of content fl)" using w(1) by (simp add: writable_def)
  have fs: "length (m_files fl') = length (m_files fl)" "m_index fl' = Some ix'" using sd fl1(1) by simp_all
  have da: "data_of content fl' = content f'" using dev fl1 sd by simp
  have "\<forall>e \<in> set (filter is_valid [m]). entry_ok (m_rw_tag fl) (length (data_of content fl')) e"
    using m place unfolding da by (auto simp: entry_ok_def)
  moreover have "index_blocks ix' b = over (denote (rev (filter is_valid [m]))) (index_blocks ix) b" for b
    using denote_filter_valid [OF m1, of b] by (auto simp: ix'(3) over_def)
  moreover have "(\<exists>i. ix = RW i) \<longrightarrow> (\<exists>i. ix' = RW i)" using ix'(1) by auto
  moreover have "\<forall>ms. log_is content fl ms \<longrightarrow> log_is content fl' (ms @ filter is_valid [m]) \<and> log_page content fl' = log_page content fl"
    using fl'(4) lg by metis
  moreover have "writable content fl'" using dev fl1 sd by simp
  moreover have "length (data_of content fl') = length (data_of content fl) + length d" "take SPACE (data_of content fl') = take SPACE (data_of content fl)"
    unfolding da f'(1) using sp by simp_all
  moreover have "MAX_IO_SIZE fl' = MAX_IO_SIZE fl" "m_rw_tag fl' = m_rw_tag fl" using sd fl1 by simp_all
  ultimately have "grown content (length d) (filter is_valid [m]) fl fl'"
    unfolding grown_def using fl'(3) fs ix by (intro conjI) (assumption | blast)+
  moreover have "device content fl' b = (if covers m b then (if zeroed m then zeros else file_block (content f') (moffset m + (b - seg_offset m))) else device content fl b)" for b
    using dev fl1 same_dataD(8) [OF fl'(2), of content] by simp
  ultimately show thesis
    using ix ix'(1) fl'(1) same_dataD(5) [OF fl'(2)] by (intro that [of ix ix' fl']) simp_all
qed

lemma nat_mod_64: "x < 2 ^ 64 \<Longrightarrow> nat (int x mod 2 ^ 64) = x"
  by simp

definition MAX_DATA :: nat where
  "MAX_DATA = 2 ^ 55 * ALIGNMENT"

text \<open>The mapping of a write to the blocks from \<open>a\<close> on.\<close>

definition write_map :: "nat \<Rightarrow> nat \<Rightarrow> nat \<Rightarrow> nat \<Rightarrow> SegmentMapping" where
  "write_map t a n place = \<lparr>seg_offset = a, seg_length = n, moffset = place, zeroed = False, tag = t\<rparr>"

lemma pwrite_segment_spec:
  fixes fl :: "('f, 'x) LSMTFile_scheme"
  assumes P: "file_laws P content pos" "full_writes P" and w: "writable content fl" "group_ok content fl"
    and al: "ALIGNMENT dvd length data" "ALIGNMENT dvd offset" and c: "0 < length data" "length data \<le> MAX_IO_SIZE fl"
    and lim: "offset + length data < 2 ^ 50 * ALIGNMENT" "length (data_of content fl) + length data \<le> MAX_DATA"
  shows "\<exists>fl' m. pwrite_segment P nbytes fl data offset = Some (int nbytes, fl') \<and> grown content (length data) [m] fl fl' \<and>
    device content fl' = written (offset div ALIGNMENT) data (device content fl) \<and> m_vsize fl' = max (m_vsize fl) (length data + offset) \<and>
    m = write_map (m_rw_tag fl) (offset div ALIGNMENT) (length data div ALIGNMENT) (length (data_of content fl) div ALIGNMENT) \<and> wf_map m"
proof -
  let ?a = "offset div ALIGNMENT" and ?n = "length data div ALIGNMENT" and ?k = "length (data_of content fl) div ALIGNMENT"
  let ?m = "write_map (m_rw_tag fl) ?a ?n ?k"
  have t: "m_rw_tag fl < length (m_files fl)" "m_rw_tag fl < 2 ^ 8" "SPACE \<le> length (data_of content fl)" "ALIGNMENT dvd length (data_of content fl)"
    and M: "max_io_ok fl" using w by (auto simp: writable_def readable_def)
  have len: "?a * ALIGNMENT = offset" "?n * ALIGNMENT = length data" "?k * ALIGNMENT = length (data_of content fl)" using al t(4) by simp_all
  have pos: "0 < ALIGNMENT" by (simp add: ALIGNMENT_def)
  have "0 < ?n" using len(2) c(1) by (cases "?n = 0") simp_all
  moreover have "?n \<le> MAX_LENGTH" "length data < 2 ^ 32"
    using c M len(2) pos mult_le_cancel2 [of ?n ALIGNMENT MAX_LENGTH]
    by (simp_all add: max_io_ok_def MAX_LENGTH_def ALIGNMENT_def)
  ultimately have n: "0 < ?n" "?n \<le> MAX_LENGTH" "length data < 2 ^ 32" by blast+
  have "(?a + ?n) * ALIGNMENT < 2 ^ 50 * ALIGNMENT" using lim(1) len by (simp add: add_mult_distrib)
  then have an: "?a + ?n < 2 ^ 50" by simp
  have "(?k + ?n) * ALIGNMENT \<le> 2 ^ 55 * ALIGNMENT" using lim(2) len by (simp add: add_mult_distrib MAX_DATA_def)
  then have kn: "?k + ?n \<le> 2 ^ 55" using pos by (simp only: mult_le_cancel2)
  have wf: "wf_map ?m" using n an kn t(2) by (simp add: wf_map_def wf_seg_def seg_end_def write_map_def)
  have "?n < 2 ^ 14" using n(2) by (simp add: MAX_LENGTH_def)
  have "length (data_of content fl) < 2 ^ 64" using kn n(1) len(3) by (simp add: ALIGNMENT_def)
  then have place: "nat (int (length (data_of content fl)) mod 2 ^ 64) = length (data_of content fl)"
    by (rule nat_mod_64)
  have "?a < 2 ^ 50" "?k < 2 ^ 55" using an kn n(1) by simp_all
  then have m: "new_SegmentMapping ?a (trunc 32 (length data) div ALIGNMENT) ?k 0 = write_map 0 ?a ?n ?k"
    using n(3) \<open>?n < 2 ^ 14\<close> by (simp only: new_SegmentMapping_def trunc_id write_map_def) (simp add: trunc_def)
  have ne: "data \<noteq> []" using c(1) by auto
  from append_file_spec [OF P(1) ne, of "m_files fl ! m_rw_tag fl"] P(2) obtain r f' where
    f': "append_file P (m_files fl ! m_rw_tag fl) data = (r, f')" "content f' = data_of content fl @ data" "r = int (length (data_of content fl))"
    unfolding data_of_def by (metis order_less_irrefl take_all order_refl)
  have r: "r \<noteq> 0" using f'(3) t(3) by (auto simp: SPACE_def)
  let ?fl = "fl\<lparr>m_files := (m_files fl)[m_rw_tag fl := f'], m_vsize := max (m_vsize fl) (length data + offset), m_data_offset := mend ?m\<rparr>"
  have place2: "mend ?m * ALIGNMENT \<le> length (content f')" "SPACE \<le> moffset ?m * ALIGNMENT"
    using len f'(2) t(3) by (simp_all add: write_map_def mend_def add_mult_distrib)
  have v: "filter is_valid [?m] = [?m]" using an n(1) by (simp add: is_valid_def write_map_def INVALID_OFFSET_def)
  show ?thesis
  proof (rule insert_and_log [OF P w _ wf_fields_ok [OF wf] _ f'(2) al(1) place2, of ?fl])
    fix ix ix' fl'
    assume i: "m_index fl = Some ix" "index_insert ?m ix = Some ix'" "append_index P ?m (?fl\<lparr>m_index := Some ix'\<rparr>) = Some fl'"
      "grown content (length data) (filter is_valid [?m]) fl fl'" "m_vsize fl' = m_vsize ?fl"
      "\<And>b. device content fl' b = (if covers ?m b then (if zeroed ?m then zeros else file_block (content f') (moffset ?m + (b - seg_offset ?m))) else device content fl b)"
    have "device content fl' b = written ?a data (device content fl) b" for b
      using i(6) [of b] file_block_shift [OF len(3) [symmetric], of data "b - ?a"] unfolding f'(2)
      by (auto simp: written_def write_map_def covers_def seg_end_def)
    then have "device content fl' = written ?a data (device content fl)" by blast
    moreover have "pwrite_segment P nbytes fl data offset = Some (int nbytes, fl')"
      using t(1) f'(1,3) r place m n i(1-3) by (simp add: pwrite_segment_def Let_def trunc_id write_map_def)
    ultimately show ?thesis using i(4,5) v wf by (intro exI [of _ fl'] exI [of _ ?m]) simp
  qed (use wf in \<open>simp_all add: write_map_def\<close>)
qed

lemma written_split:
  assumes "M = k * ALIGNMENT" "M \<le> length d"
  shows "written (a + k) (drop M d) (written a (take M d) D) = written a d D"
proof
  fix b
  have pos: "0 < ALIGNMENT" by (simp add: ALIGNMENT_def)
  have len: "length (drop M d) div ALIGNMENT = length d div ALIGNMENT - k" "length (take M d) div ALIGNMENT = k" "k \<le> length d div ALIGNMENT"
  proof -
    obtain r where "length d = k * ALIGNMENT + r" using assms le_Suc_ex by blast
    then show "length (drop M d) div ALIGNMENT = length d div ALIGNMENT - k" "length (take M d) div ALIGNMENT = k" "k \<le> length d div ALIGNMENT"
      using assms pos by (simp_all add: min_def)
  qed
  have lo: "file_block (take M d) i = file_block d i" if "i < k" for i
  proof -
    have "(i + 1) * ALIGNMENT \<le> length (take M d)" using that assms mult_le_mono1 [of "i + 1" k ALIGNMENT] by simp
    from file_block_append [OF this, of "drop M d"] show ?thesis by simp
  qed
  have hi: "file_block (drop M d) (b - (a + k)) = file_block d (b - a)" if "a + k \<le> b"
  proof -
    have "file_block (take M d @ drop M d) (k + (b - (a + k))) = file_block (drop M d) (b - (a + k))"
      using assms by (intro file_block_shift) simp
    moreover have "k + (b - (a + k)) = b - a" using that by simp
    ultimately show ?thesis by simp
  qed
  show "written (a + k) (drop M d) (written a (take M d) D) b = written a d D b"
    using len lo [of "b - a"] hi by (auto simp: written_def)
qed

lemma pwrite_loop_spec:
  fixes fl :: "('f, 'x) LSMTFile_scheme"
  assumes P: "file_laws P content pos" "full_writes P" and "writable content fl" "group_ok content fl"
    and "ALIGNMENT dvd length data" "ALIGNMENT dvd offset" "0 < length data"
    and "offset + length data < 2 ^ 50 * ALIGNMENT" "length (data_of content fl) + length data \<le> MAX_DATA"
  shows "\<exists>fl' es. pwrite_loop P nbytes fl data offset = Some (int nbytes, fl') \<and> grown content (length data) es fl fl' \<and>
    device content fl' = written (offset div ALIGNMENT) data (device content fl) \<and> m_vsize fl' = max (m_vsize fl) (length data + offset)"
  using assms(3-)
proof (induction "length data" arbitrary: fl data offset rule: less_induct)
  case less
  let ?M = "MAX_IO_SIZE fl"
  have M: "0 < ?M" "ALIGNMENT dvd ?M" using less.prems(1) by (auto simp: writable_def readable_def max_io_ok_def)
  show ?case
  proof (cases "length data > ?M")
    case False
    then have "length data \<le> ?M" by simp
    from pwrite_segment_spec [OF P less.prems(1-5) this less.prems(6,7), of nbytes] False show ?thesis
      by (subst pwrite_loop.simps) auto
  next
    case True
    let ?d = "take ?M data"
    have d: "length ?d = ?M" "ALIGNMENT dvd length ?d" "0 < length ?d" "length ?d \<le> ?M" "offset + length ?d < 2 ^ 50 * ALIGNMENT"
      "length (data_of content fl) + length ?d \<le> MAX_DATA" using True M less.prems(6,7) by simp_all
    from pwrite_segment_spec [OF P less.prems(1,2) d(2) less.prems(4) d(3-6), of ?M] obtain fl1 es1 where
      1: "pwrite_segment P ?M fl ?d offset = Some (int ?M, fl1)" "grown content (length ?d) es1 fl fl1"
        "device content fl1 = written (offset div ALIGNMENT) ?d (device content fl)" "m_vsize fl1 = max (m_vsize fl) (length ?d + offset)" by blast
    have part: "pwrite_part P fl ?d offset = Some (int ?M, fl1)"
      using 1(1) d(1,2) less.prems(4) by (simp add: pwrite_part_def is_aligned_or)
    have g: "writable content fl1" "group_ok content fl1" "length (data_of content fl1) = length (data_of content fl) + ?M"
      using 1(2) d(1) by (simp_all add: grown_def)
    have al: "ALIGNMENT dvd length (drop ?M data)" "ALIGNMENT dvd offset + ?M" "(offset + ?M) div ALIGNMENT = offset div ALIGNMENT + ?M div ALIGNMENT"
      using M(2) less.prems(3,4) by (simp_all add: dvd_diff_nat)
    have l: "length (drop ?M data) < length data" "0 < length (drop ?M data)" using True M(1) by simp_all
    have lim: "offset + ?M + length (drop ?M data) < 2 ^ 50 * ALIGNMENT" "length (data_of content fl1) + length (drop ?M data) \<le> MAX_DATA"
      using True less.prems(6,7) g(3) by simp_all
    from less.hyps [OF l(1) g(1,2) al(1,2) l(2) lim] obtain fl2 es2 where
      2: "pwrite_loop P nbytes fl1 (drop ?M data) (offset + ?M) = Some (int nbytes, fl2)" "grown content (length (drop ?M data)) es2 fl1 fl2"
        "device content fl2 = written ((offset + ?M) div ALIGNMENT) (drop ?M data) (device content fl1)"
        "m_vsize fl2 = max (m_vsize fl1) (length (drop ?M data) + (offset + ?M))"
      by blast
    have "?M = ?M div ALIGNMENT * ALIGNMENT" "?M \<le> length data" using M(2) True by simp_all
    from written_split [OF this, of "offset div ALIGNMENT" "device content fl"] have
      "device content fl2 = written (offset div ALIGNMENT) data (device content fl)" using 1(3) 2(3) al(3) by simp
    moreover have "grown content (length data) (es1 @ es2) fl fl2" using grown_trans [OF 1(2) 2(2)] True by simp
    moreover have "m_vsize fl2 = max (m_vsize fl) (length data + offset)" using 1(4) 2(4) True by simp
    moreover have "pwrite_loop P nbytes fl data offset = Some (int nbytes, fl2)"
      using part 2(1) True by (subst pwrite_loop.simps) simp
    ultimately show ?thesis by blast
  qed
qed

lemma LSMT_pwrite_spec:
  fixes fl :: "('f, 'x) LSMTFile_scheme"
  assumes "file_laws P content pos" "full_writes P" "writable content fl" "group_ok content fl"
    and "ALIGNMENT dvd length data" "ALIGNMENT dvd offset" "0 < length data"
    and "offset + length data < 2 ^ 50 * ALIGNMENT" "length (data_of content fl) + length data \<le> MAX_DATA"
  shows "\<exists>fl' es. LSMT_pwrite P fl data offset = Some (int (length data), fl') \<and> grown content (length data) es fl fl' \<and>
    device content fl' = written (offset div ALIGNMENT) data (device content fl) \<and> m_vsize fl' = max (m_vsize fl) (length data + offset)"
  using pwrite_loop_spec [OF assms, of "length data"] assms(5,6) by (simp add: LSMT_pwrite_def is_aligned_or)

lemma LSMT_discard_spec:
  fixes fl :: "('f, 'x) LSMTFile_scheme"
  assumes P: "file_laws P content pos" "full_writes P" and w: "writable content fl" "group_ok content fl"
    and m: "zeroed m" "seg_length m \<le> MAX_LENGTH" "seg_end m < 2 ^ 50" and lim: "length (data_of content fl) < MAX_DATA"
  shows "\<exists>fl' es. LSMT_discard P m fl = Some (0, fl') \<and> grown content 0 es fl fl' \<and>
    device content fl' = punched (seg_offset m) (seg_length m) (device content fl) \<and> m_vsize fl' = m_vsize fl"
proof -
  let ?k = "length (data_of content fl) div ALIGNMENT"
  let ?m = "m\<lparr>moffset := ?k, tag := m_rw_tag fl\<rparr>"
  have t: "m_rw_tag fl < length (m_files fl)" "m_rw_tag fl < 2 ^ 8" "SPACE \<le> length (data_of content fl)" "ALIGNMENT dvd length (data_of content fl)"
    using w by (auto simp: writable_def)
  have k: "?k < 2 ^ 55" using lim by (simp add: MAX_DATA_def less_mult_imp_div_less)
  have wf: "seg_length ?m = 0 \<and> zeroed ?m \<or> wf_map ?m" and fo: "fields_ok ?m"
    using m k t(2) by (auto simp: wf_map_def wf_seg_def seg_end_def fields_ok_def MAX_LENGTH_def)
  have "length (data_of content fl) < 2 ^ 64" using lim by (simp add: MAX_DATA_def ALIGNMENT_def)
  then have place: "trunc 55 (nat (int (length (data_of content fl)) mod 2 ^ 64) div ALIGNMENT) = ?k"
    using k nat_mod_64 [of "length (data_of content fl)"] by (simp only: trunc_id)
  obtain f' where f': "io_end P (m_files fl ! m_rw_tag fl) = (int (length (data_of content fl)), f')" "content f' = data_of content fl @ []"
    using io_end_law [OF P(1), of "m_files fl ! m_rw_tag fl"] unfolding data_of_def by (metis append_Nil2)
  let ?fl = "fl\<lparr>m_files := (m_files fl)[m_rw_tag fl := f']\<rparr>"
  have p2: "mend ?m * ALIGNMENT \<le> length (content f')" "SPACE \<le> moffset ?m * ALIGNMENT"
    using m(1) f'(2) t(3,4) by (simp_all add: mend_def)
  show ?thesis
  proof (rule insert_and_log [OF P w wf fo _ f'(2) _ p2, of ?fl])
    fix ix ix' fl'
    assume i: "m_index fl = Some ix" "index_insert ?m ix = Some ix'" "append_index P ?m (?fl\<lparr>m_index := Some ix'\<rparr>) = Some fl'"
      "grown content (length []) (filter is_valid [?m]) fl fl'" "m_vsize fl' = m_vsize ?fl"
      "\<And>b. device content fl' b = (if covers ?m b then (if zeroed ?m then zeros else file_block (content f') (moffset ?m + (b - seg_offset ?m))) else device content fl b)"
    have "device content fl' b = punched (seg_offset m) (seg_length m) (device content fl) b" for b
      using i(6) [of b] m(1) by (auto simp: punched_def covers_def seg_end_def)
    then have "device content fl' = punched (seg_offset m) (seg_length m) (device content fl)" by blast
    moreover have "LSMT_discard P m fl = Some (0, fl')" using t(1) f'(1) place i(1-3) by (simp add: LSMT_discard_def)
    ultimately show ?thesis using i(4,5) by (intro exI [of _ fl'] exI [of _ "filter is_valid [?m]"]) simp
  qed simp_all
qed

lemma punched_split: "k \<le> n \<Longrightarrow> punched (a + k) (n - k) (punched a k D) = punched a n D"
  by (auto simp: punched_def fun_eq_iff)

lemma fallocate_part_spec:
  fixes fl :: "('f, 'x) LSMTFile_scheme"
  assumes P: "file_laws P content pos" "full_writes P" and w: "writable content fl" "group_ok content fl"
    and mode: "mode AND FALLOC_FL_PUNCH_HOLE \<noteq> 0" "mode AND FALLOC_FL_KEEP_SIZE \<noteq> 0"
    and al: "ALIGNMENT dvd len" "ALIGNMENT dvd offset" and lim: "len \<le> MAX_LENGTH * ALIGNMENT" "offset + len < 2 ^ 50 * ALIGNMENT"
      "length (data_of content fl) < MAX_DATA"
  shows "\<exists>fl' es. fallocate_part P mode fl offset len = Some (0, fl') \<and> grown content 0 es fl fl' \<and>
    device content fl' = punched (offset div ALIGNMENT) (len div ALIGNMENT) (device content fl) \<and> m_vsize fl' = m_vsize fl"
proof -
  let ?a = "offset div ALIGNMENT" and ?n = "len div ALIGNMENT"
  let ?m = "discard (new_SegmentMapping ?a ?n 0 0)"
  have len: "?a * ALIGNMENT = offset" "?n * ALIGNMENT = len" using al by simp_all
  have pos: "0 < ALIGNMENT" by (simp add: ALIGNMENT_def)
  have n: "?n \<le> MAX_LENGTH" using lim(1) len(2) pos mult_le_cancel2 [of ?n ALIGNMENT MAX_LENGTH] by simp
  have l32: "len < 2 ^ 32" using lim(1) by (simp add: MAX_LENGTH_def ALIGNMENT_def)
  have "(?a + ?n) * ALIGNMENT < 2 ^ 50 * ALIGNMENT" using lim(2) len by (simp add: add_mult_distrib)
  then have an: "?a + ?n < 2 ^ 50" by simp
  have "?a < 2 ^ 50" "?n < 2 ^ 14" using an n by (simp_all add: MAX_LENGTH_def)
  then have m: "seg_offset ?m = ?a" "seg_length ?m = ?n" "zeroed ?m" by (simp_all add: discard_def new_SegmentMapping_def trunc_def)
  from LSMT_discard_spec [OF P w m(3)] m n an lim(3) show ?thesis
    using mode al l32 n by (simp add: fallocate_part_def is_aligned_or trunc_id seg_end_def)
qed

lemma LSMT_fallocate_spec:
  fixes fl :: "('f, 'x) LSMTFile_scheme"
  assumes P: "file_laws P content pos" "full_writes P" and "writable content fl" "group_ok content fl"
    and mode: "mode AND FALLOC_FL_PUNCH_HOLE \<noteq> 0" "mode AND FALLOC_FL_KEEP_SIZE \<noteq> 0"
    and "ALIGNMENT dvd len" "ALIGNMENT dvd offset" and "offset + len < 2 ^ 50 * ALIGNMENT" "length (data_of content fl) < MAX_DATA"
  shows "\<exists>fl' es. LSMT_fallocate P mode fl offset len = Some (0, fl') \<and> grown content 0 es fl fl' \<and>
    device content fl' = punched (offset div ALIGNMENT) (len div ALIGNMENT) (device content fl) \<and> m_vsize fl' = m_vsize fl"
  using assms(3,4,7-)
proof (induction len arbitrary: fl offset rule: less_induct)
  case (less len)
  let ?M = "MAX_LENGTH * ALIGNMENT"
  show ?case
  proof (cases "len > ?M")
    case False
    then show ?thesis
      using fallocate_part_spec [OF P less.prems(1,2) mode less.prems(3,4) _ less.prems(5,6)] by (subst LSMT_fallocate.simps) simp
  next
    case True
    have M: "?M \<le> ?M" "offset + ?M < 2 ^ 50 * ALIGNMENT" "ALIGNMENT dvd ?M" "0 < ?M" "?M div ALIGNMENT = MAX_LENGTH"
      using True less.prems(5) by (simp_all add: ALIGNMENT_def MAX_LENGTH_def)
    from fallocate_part_spec [OF P less.prems(1,2) mode M(3) less.prems(4) M(1,2) less.prems(6)] obtain fl1 es1 where
      1: "fallocate_part P mode fl offset ?M = Some (0, fl1)" "grown content 0 es1 fl fl1"
        "device content fl1 = punched (offset div ALIGNMENT) (?M div ALIGNMENT) (device content fl)" "m_vsize fl1 = m_vsize fl" by blast
    have g: "writable content fl1" "group_ok content fl1" "length (data_of content fl1) < MAX_DATA" using 1(2) less.prems(6) by (simp_all add: grown_def)
    have al: "ALIGNMENT dvd len - ?M" "ALIGNMENT dvd offset + ?M" "(offset + ?M) div ALIGNMENT = offset div ALIGNMENT + MAX_LENGTH"
      using M(3) less.prems(3,4) M(5) by (auto simp: div_plus_div_distrib_dvd_right dvd_diff_nat)
    obtain r where "len = ?M + r" using True less_imp_add_positive by blast
    then have al2: "(len - ?M) div ALIGNMENT = len div ALIGNMENT - MAX_LENGTH" "MAX_LENGTH \<le> len div ALIGNMENT" by (simp_all add: ALIGNMENT_def)
    have lt: "len - ?M < len" "offset + ?M + (len - ?M) < 2 ^ 50 * ALIGNMENT" using True M(4) less.prems(5) by simp_all
    from less.IH [OF lt(1) g(1,2) al(1,2) lt(2) g(3)] obtain fl2 es2 where
      2: "LSMT_fallocate P mode fl1 (offset + ?M) (len - ?M) = Some (0, fl2)" "grown content 0 es2 fl1 fl2"
        "device content fl2 = punched ((offset + ?M) div ALIGNMENT) ((len - ?M) div ALIGNMENT) (device content fl1)" "m_vsize fl2 = m_vsize fl1" by blast
    have "device content fl2 = punched (offset div ALIGNMENT) (len div ALIGNMENT) (device content fl)"
      using 1(3) 2(3) al(3) al2 M(5) by (simp add: punched_split)
    moreover have "LSMT_fallocate P mode fl offset len = Some (0, fl2)"
      using 1(1) 2(1) True by (subst LSMT_fallocate.simps) simp
    ultimately show ?thesis using grown_trans [OF 1(2) 2(2)] 1(4) 2(4) by auto
  qed
qed


section \<open>Sequences of operations\<close>

datatype dev_op = Pwrite "u8 list" nat | Punch nat nat | Fsync

fun exec_dev :: "'f photon \<Rightarrow> dev_op \<Rightarrow> ('f, 'x) LSMTFile_scheme \<Rightarrow> (int \<times> ('f, 'x) LSMTFile_scheme) option" where
  "exec_dev P (Pwrite data offset) fl = LSMT_pwrite P fl data offset"
| "exec_dev P (Punch offset len) fl = LSMT_fallocate P (FALLOC_FL_PUNCH_HOLE OR FALLOC_FL_KEEP_SIZE) fl offset len"
| "exec_dev P Fsync fl = LSMT_fsync P fl"

fun dev_run :: "'f photon \<Rightarrow> dev_op list \<Rightarrow> ('f, 'x) LSMTFile_scheme \<Rightarrow> (int list \<times> ('f, 'x) LSMTFile_scheme) option" where
  "dev_run P [] fl = Some ([], fl)"
| "dev_run P (op # ops) fl = do {
     (r, fl) \<leftarrow> exec_dev P op fl;
     (rs, fl) \<leftarrow> dev_run P ops fl;
     Some (r # rs, fl)
   }"

text \<open>The specification: the effect on the abstract device, the results, and the bytes that are written.\<close>

fun abs_dev :: "dev_op \<Rightarrow> (nat \<Rightarrow> u8 list) \<Rightarrow> nat \<Rightarrow> u8 list" where
  "abs_dev (Pwrite data offset) D = written (offset div ALIGNMENT) data D"
| "abs_dev (Punch offset len) D = punched (offset div ALIGNMENT) (len div ALIGNMENT) D"
| "abs_dev Fsync D = D"

fun dev_result :: "dev_op \<Rightarrow> int" where
  "dev_result (Pwrite data offset) = int (length data)"
| "dev_result _ = 0"

fun dev_bytes :: "dev_op \<Rightarrow> nat" where
  "dev_bytes (Pwrite data offset) = length data"
| "dev_bytes _ = 0"

fun dev_ok :: "dev_op \<Rightarrow> bool" where
  "dev_ok (Pwrite data offset) \<longleftrightarrow> ALIGNMENT dvd length data \<and> ALIGNMENT dvd offset \<and> 0 < length data \<and> offset + length data < 2 ^ 50 * ALIGNMENT"
| "dev_ok (Punch offset len) \<longleftrightarrow> ALIGNMENT dvd len \<and> ALIGNMENT dvd offset \<and> offset + len < 2 ^ 50 * ALIGNMENT"
| "dev_ok Fsync \<longleftrightarrow> True"

lemma LSMT_fsync_spec:
  assumes P: "file_laws P content pos" "full_writes P" and w: "writable content fl" "group_ok content fl"
  shows "\<exists>fl'. LSMT_fsync P fl = Some (0, fl') \<and> grown content 0 [] fl fl' \<and> device content fl' = device content fl \<and> m_vsize fl' = m_vsize fl \<and> nmapping fl' = 0"
proof -
  have "findex_ok content fl" "nmapping fl \<le> length (m_stacked_mappings fl)" using w(2) by (auto simp: group_ok_def)
  from group_commit_spec [OF P this] obtain fl' where
    f: "do_group_commit_mappings P fl = Some (0, fl')" "same_data fl fl'" "nmapping fl' = 0" "findex_ok content fl'"
      "\<forall>ms. log_is content fl ms \<longrightarrow> log_is content fl' ms \<and> log_page content fl' = log_page content fl" by blast
  note sd = same_data_writable [OF f(2), of content] same_dataD(1-6) [OF f(2)] same_dataD(8) [OF f(2), of content]
  obtain ix where ix: "m_index fl = Some ix" using w(1) by (auto simp: writable_def readable_def)
  have "grown content 0 [] fl fl'" using sd f w ix unfolding grown_def by (auto simp: group_ok_def over_def)
  then show ?thesis using f(1,3) sd by (auto simp: LSMT_fsync_def)
qed

lemma exec_dev_spec:
  fixes fl :: "('f, 'x) LSMTFile_scheme"
  assumes P: "file_laws P content pos" "full_writes P" and w: "writable content fl" "group_ok content fl"
    and op: "dev_ok op" and lim: "length (data_of content fl) + dev_bytes op < MAX_DATA"
  shows "\<exists>fl' es. exec_dev P op fl = Some (dev_result op, fl') \<and> grown content (dev_bytes op) es fl fl' \<and>
    device content fl' = abs_dev op (device content fl)"
proof (cases op)
  case (Pwrite data offset)
  then have "ALIGNMENT dvd length data" "ALIGNMENT dvd offset" "0 < length data" "offset + length data < 2 ^ 50 * ALIGNMENT"
    "length (data_of content fl) + length data \<le> MAX_DATA" using op lim by simp_all
  from LSMT_pwrite_spec [OF P w this] show ?thesis using Pwrite by auto
next
  case (Punch offset len)
  have "(2 OR 1 :: nat) AND 2 \<noteq> 0" "(2 OR 1 :: nat) AND 1 \<noteq> 0" by simp_all
  then have "(FALLOC_FL_PUNCH_HOLE OR FALLOC_FL_KEEP_SIZE) AND FALLOC_FL_PUNCH_HOLE \<noteq> 0" "(FALLOC_FL_PUNCH_HOLE OR FALLOC_FL_KEEP_SIZE) AND FALLOC_FL_KEEP_SIZE \<noteq> 0"
    by (simp_all add: FALLOC_FL_PUNCH_HOLE_def FALLOC_FL_KEEP_SIZE_def)
  from LSMT_fallocate_spec [OF P w this, of len offset] show ?thesis using Punch op lim by auto
qed (use LSMT_fsync_spec [OF P w] in auto)

lemma dev_run_spec:
  fixes fl :: "('f, 'x) LSMTFile_scheme"
  assumes P: "file_laws P content pos" "full_writes P" and "writable content fl" "group_ok content fl"
    and "\<forall>op \<in> set ops. dev_ok op" and "length (data_of content fl) + sum_list (map dev_bytes ops) < MAX_DATA"
  shows "\<exists>fl' es. dev_run P ops fl = Some (map dev_result ops, fl') \<and> grown content (sum_list (map dev_bytes ops)) es fl fl' \<and>
    device content fl' = fold abs_dev ops (device content fl)"
  using assms(3-)
proof (induction ops arbitrary: fl)
  case Nil
  then show ?case using grown_refl by auto
next
  case (Cons op ops)
  have "dev_ok op" "length (data_of content fl) + dev_bytes op < MAX_DATA" using Cons.prems(3,4) by simp_all
  from exec_dev_spec [OF P Cons.prems(1,2) this] obtain fl1 es1 where
    1: "exec_dev P op fl = Some (dev_result op, fl1)" "grown content (dev_bytes op) es1 fl fl1" "device content fl1 = abs_dev op (device content fl)" by blast
  have "writable content fl1" "group_ok content fl1" "\<forall>op \<in> set ops. dev_ok op"
    "length (data_of content fl1) + sum_list (map dev_bytes ops) < MAX_DATA" using 1(2) Cons.prems(3,4) by (simp_all add: grown_def)
  from Cons.IH [OF this] obtain fl2 es2 where
    2: "dev_run P ops fl1 = Some (map dev_result ops, fl2)" "grown content (sum_list (map dev_bytes ops)) es2 fl1 fl2"
      "device content fl2 = fold abs_dev ops (device content fl1)" by blast
  then show ?case using 1 grown_trans [OF 1(2) 2(2)] by auto
qed

end
