(* ===== verification/LSMT_Device.thy ===== *)
theory LSMT_Device
  imports LSMT_File
begin

text \<open>
  The properties of a writable file object as a block device: sequences of writes, discards and syncs
  refine the abstract device and reads return it, failed writes do not change it, and the errors that the
  code does not notice.
\<close>

section \<open>Failed and unnoticed errors\<close>

text \<open>A write whose data is not completely written.\<close>

lemma pwrite_short:
  fixes fl :: "('f, 'x) LSMTFile_scheme"
  assumes P: "file_laws P content pos" and w: "writable content fl"
    and al: "ALIGNMENT dvd length data" "ALIGNMENT dvd offset" and c: "0 < length data" "length data \<le> MAX_IO_SIZE fl"
    and short: "fst (append_file P (m_files fl ! m_rw_tag fl) data) = 0"
  shows "\<exists>f'. LSMT_pwrite P fl data offset = Some (- 1, fl\<lparr>m_files := (m_files fl)[m_rw_tag fl := f']\<rparr>) \<and>
    (\<exists>k < length data. content f' = data_of content fl @ take k data)"
proof -
  have ne: "data \<noteq> []" using c(1) by auto
  from append_file_spec [OF P ne, of "m_files fl ! m_rw_tag fl"] obtain r f' k where
    a: "append_file P (m_files fl ! m_rw_tag fl) data = (r, f')" "content f' = data_of content fl @ take k data"
      "k < length data \<and> r = 0 \<or> k = length data \<and> r = int (length (data_of content fl))"
    unfolding data_of_def by metis
  have "SPACE \<le> length (data_of content fl)" "m_rw_tag fl < length (m_files fl)" using w by (simp_all add: writable_def)
  then show ?thesis
    using a short al c by (auto simp: LSMT_pwrite_def is_aligned_or pwrite_loop.simps pwrite_segment_def SPACE_def)
qed

lemma device_longer:
  fixes fl :: "('f, 'x) LSMTFile_scheme"
  assumes w: "writable content fl" and f': "content f' = data_of content fl @ d"
  shows "device content (fl\<lparr>m_files := (m_files fl)[m_rw_tag fl := f']\<rparr>) = device content fl"
proof
  fix b
  from w obtain ix where ix: "m_index fl = Some ix" "blocks_in_files (index_blocks ix) (m_files fl)" and t: "m_rw_tag fl < length (m_files fl)"
    and inside: "\<And>b n. index_blocks ix b = Some (m_rw_tag fl, Some n) \<Longrightarrow> (n + 1) * ALIGNMENT \<le> length (data_of content fl)"
    by (auto simp: writable_def readable_def)
  have "file_block (map content ((m_files fl)[m_rw_tag fl := f']) ! k) n = file_block (map content (m_files fl) ! k) n"
    if i: "index_blocks ix b = Some (k, Some n)" for k n
  proof (cases "k = m_rw_tag fl")
    case True
    with inside [of b n] i have "file_block (content f') n = file_block (data_of content fl) n" unfolding f' by (intro file_block_append) simp
    then show ?thesis using True t by (simp add: data_of_def)
  next
    case False
    moreover have "k < length (m_files fl)" using ix(2) i by (auto simp: blocks_in_files_def)
    ultimately show ?thesis by simp
  qed
  then show "device content (fl\<lparr>m_files := (m_files fl)[m_rw_tag fl := f']\<rparr>) b = device content fl b"
    using ix(1) by (auto simp: device_def block_value_def split: option.split)
qed

lemma group_buffer_full: "m_findex fl \<noteq> None \<Longrightarrow> m_stacked_mappings fl \<noteq> [] \<Longrightarrow> length (m_stacked_mappings fl) \<le> nmapping fl \<Longrightarrow>
    append_index P m fl = None"
  by (auto simp: append_index_def bug_on_bind)


section \<open>Examples\<close>

definition sample_file :: "(u8 list \<times> nat) LSMTFile" where
  "sample_file = \<lparr>MAX_IO_SIZE = 4096, m_vsize = 0, m_files = [(replicate SPACE 0, SPACE)], m_uuid = [], m_index = Some (RW \<lparr>mapping = [], m_alloc = 0\<rparr>),
     m_file_ownership = False, lsmt_io_cnt = 0, lsmt_io_size = 0, m_filetype = T_RW, m_compacted_idx_size = 0, m_init_concurrency = False,
     m_data_offset = 8, m_rw_tag = 0, m_findex = Some (replicate SPACE 0, SPACE), m_stacked_mappings = [], nmapping = 0\<rparr>"

lemma sample_file_ok: "writable fst sample_file" "group_ok fst sample_file" "length (data_of fst sample_file) = SPACE"
  "device fst sample_file b = zeros" "full_writes memory_photon"
  by (simp_all add: sample_file_def writable_def readable_def max_io_ok_def group_ok_def findex_ok_def data_of_def Index0_ok_def blocks_in_files_def
      ALIGNMENT_def SPACE_def MAX_LENGTH_def device_def block_value_def full_writes_def memory_photon_def split: prod.split)

text \<open>
  Property C1: a writable file object is a block device: any sequence of writes of whole blocks, of discards
  and of syncs returns the number of bytes written (0 for the others), and afterwards a read of any
  range returns for each block what was written to it last, zeros if it was discarded last, and the
  original block otherwise. Nothing undefined happens, whatever the sizes relative to \<open>MAX_IO_SIZE\<close>.
\<close>

theorem device_refines:
  fixes fl :: "('f, 'x) LSMTFile_scheme"
  assumes "file_laws P content pos" "full_reads P content" "full_writes P" "writable content fl" "group_ok content fl"
    and "\<forall>op \<in> set ops. dev_ok op" "length (data_of content fl) + sum_list (map dev_bytes ops) < MAX_DATA"
    and "ALIGNMENT dvd count" "ALIGNMENT dvd offset" "offset + count < 2 ^ 50 * ALIGNMENT" "count \<le> length buf"
  shows "\<exists>fl' fl''. dev_run P ops fl = Some (map dev_result ops, fl') \<and>
    LSMT_pread P fl' buf count offset = Some (int count,
      concat (map (fold abs_dev ops (device content fl)) [offset div ALIGNMENT..<(offset + count) div ALIGNMENT]) @ drop count buf, fl'')"
proof -
  from dev_run_spec [OF assms(1,3-7)] obtain fl' es where
    r: "dev_run P ops fl = Some (map dev_result ops, fl')" "grown content (sum_list (map dev_bytes ops)) es fl fl'"
      "device content fl' = fold abs_dev ops (device content fl)" by blast
  have "readable fl'" using r(2) by (simp add: grown_def writable_def)
  from LSMT_pread_spec [OF assms(2) this assms(8-11)] r(1,3) show ?thesis by (auto simp: blocks_between_def)
qed


text \<open>
  Property C37: the buffer of the group commit overflows in two cases: when it is made as small as the number
  of mappings that wait (only a smaller one commits them first), and after a commit that failed. In both
  cases the next mapping is stored behind the end of the buffer.
\<close>

theorem group_commit_overflow:
  assumes "m_findex fl \<noteq> None" "0 < nmapping fl" "nmapping fl \<le> length (m_stacked_mappings fl)"
  shows "(\<exists>fl'. set_index_group_commit P (SIZEOF_MAPPING * nmapping fl) fl = Some (0, fl') \<and> append_index P m fl' = None) \<and>
    (\<forall>fl'. do_group_commit_mappings P fl = Some (- 1, fl') \<longrightarrow> append_index P m fl' = None)"
proof (intro conjI allI impI)
  let ?fl = "fl\<lparr>m_stacked_mappings := take (nmapping fl) (m_stacked_mappings fl)\<rparr>"
  have "set_index_group_commit P (SIZEOF_MAPPING * nmapping fl) fl = Some (0, ?fl)"
    using assms(3) by (simp add: set_index_group_commit_def SIZEOF_MAPPING_def)
  moreover have "append_index P m ?fl = None" using assms by (intro group_buffer_full) auto
  ultimately show "\<exists>fl'. set_index_group_commit P (SIZEOF_MAPPING * nmapping fl) fl = Some (0, fl') \<and> append_index P m fl' = None" by blast
next
  fix fl' assume "do_group_commit_mappings P fl = Some (- 1, fl')"
  then have "m_findex fl' \<noteq> None" "m_stacked_mappings fl' \<noteq> []" "length (m_stacked_mappings fl') \<le> nmapping fl'"
    using assms by (auto simp: do_group_commit_mappings_def bug_on_bind Let_def split: prod.splits if_splits bind_splits)
  then show "append_index P m fl' = None" by (rule group_buffer_full)
qed

text \<open>A file that returns one byte at a time, as POSIX allows.\<close>

definition slow_photon :: "(u8 list \<times> nat) photon" where
  "slow_photon = memory_photon\<lparr>io_pread := \<lambda>(c, p) n off. (int (min (min 1 n) (length c - off)), take (min 1 n) (drop off c))\<rparr>"

definition sample_written :: "(u8 list \<times> nat) LSMTFile" where
  "sample_written = sample_file\<lparr>m_files := [(replicate SPACE 0 @ replicate ALIGNMENT 7, SPACE)],
     m_index := Some (RW \<lparr>mapping = [write_map 0 0 1 8], m_alloc = 1\<rparr>)\<rparr>"

lemma sample_written_ok: "writable fst sample_written"
  by (simp add: sample_written_def sample_file_def writable_def readable_def max_io_ok_def Index0_ok_def blocks_in_files_def data_of_def
        write_map_def wf_map_def wf_seg_def seg_end_def seg_blocks_def covers_def target_def ALIGNMENT_def SPACE_def MAX_LENGTH_def)


lemma trace_nonempty: "trace_ok D a e vs \<Longrightarrow> a \<le> e \<and> (a = e \<longrightarrow> vs = [])"
  by (induction D a e vs rule: trace_ok.induct) (auto simp: seg_end_def)

text \<open>
  \<open>set_max_io_size\<close> accepts every multiple of 4096, but the length of a segment has 14 bits: with
  a maximum of 8 MB a read of 8 MB succeeds and leaves the buffer as it is.
\<close>

theorem max_io_size_unchecked:
  fixes fl :: "('f, 'x) LSMTFile_scheme"
  assumes "m_index fl = Some ix" "index_ok ix"
  shows "\<exists>fl' fl''. set_max_io_size (2 ^ 23) fl = (0, fl') \<and> LSMT_pread P fl' buf (2 ^ 23) 0 = Some (2 ^ 23, buf, fl'')"
proof -
  let ?fl = "fl\<lparr>MAX_IO_SIZE := 2 ^ 23\<rparr>" and ?s = "\<lparr>seg_offset = 0, seg_length = 0\<rparr> :: Segment"
  have "wf_seg ?s" by (simp add: wf_seg_def seg_end_def)
  from memory.foreach_segments_spec [OF assms(2) this, where 's = "read_state option"] obtain vs tl where
    t: "trace_ok (index_blocks ix) 0 0 (vs @ tl)" and
    f: "\<And>cb (st :: read_state option). foreach_segments (index_lookup ix) cb ?s st =
      Some (case run_visits cb vs st of Inl ret \<Rightarrow> ret | Inr st \<Rightarrow> (0, fold (\<lambda>v st. snd (cb v st)) tl st))"
    by (auto simp: seg_end_def)
  have "vs = []" "tl = []" using trace_nonempty [OF t] by auto
  then have f: "foreach_segments (index_lookup ix) cb ?s st = Some (0, st)" for cb and st :: "read_state option" using f by simp
  have tr: "trunc 14 (trunc 32 ((2 ^ 23) div ALIGNMENT)) = 0" "trunc 50 (0 div ALIGNMENT) = 0" by (simp_all add: trunc_def ALIGNMENT_def)
  have "pread_segments P (2 ^ 23) ?fl buf 0 (2 ^ 23) 0 = Some (int (2 ^ 23), buf, ?fl\<lparr>lsmt_io_cnt := lsmt_io_cnt fl, lsmt_io_size := lsmt_io_size fl\<rparr>)"
    unfolding pread_segments_def Let_def tr using assms(1) f by simp
  moreover have "LSMT_pread P ?fl buf (2 ^ 23) 0 = pread_segments P (2 ^ 23) ?fl buf 0 (2 ^ 23) 0"
    using is_aligned_or [of "2 ^ 23" 0] by (simp add: LSMT_pread_def pread_loop.simps ALIGNMENT_def)
  moreover have "set_max_io_size (2 ^ 23) fl = (0, ?fl)"
    by (simp add: set_max_io_size_def)
  ultimately show ?thesis by auto
qed

theorem device_refines_witness:
  "\<exists>fl' fl''. dev_run memory_photon [Pwrite (replicate 1024 7) 512, Punch 1024 512, Fsync] sample_file = Some ([1024, 0, 0], fl') \<and>
     LSMT_pread memory_photon fl' (replicate 2048 1) 2048 0 = Some (2048, replicate 512 0 @ replicate 512 7 @ replicate 1024 0, fl'')"
proof -
  let ?ops = "[Pwrite (replicate 1024 7) 512, Punch 1024 512, Fsync]"
  let ?D = "fold abs_dev ?ops (device fst sample_file)"
  have d: "?D 0 = zeros" "?D 1 = replicate 512 7" "?D 2 = zeros" "?D 3 = zeros"
    by (simp_all add: sample_file_ok written_def punched_def file_block_def ALIGNMENT_def zeros_def)
  have "[0 div ALIGNMENT..<(0 + 2048) div ALIGNMENT] = [0, 1, 2, 3]" by (simp add: ALIGNMENT_def upt_rec)
  then have b: "concat (map ?D [0 div ALIGNMENT..<(0 + 2048) div ALIGNMENT]) @ drop 2048 (replicate 2048 (1 :: u8)) = replicate 512 0 @ replicate 512 7 @ replicate 1024 0"
    using d by (simp add: zeros_def ALIGNMENT_def del: fold_simps flip: replicate_add)
  have "\<forall>op \<in> set ?ops. dev_ok op" "length (data_of fst sample_file) + sum_list (map dev_bytes ?ops) < MAX_DATA"
    by (simp_all add: sample_file_ok ALIGNMENT_def MAX_DATA_def SPACE_def)
  from device_refines [OF memory_photon_laws sample_file_ok(5,1,2) this, of 2048 0 "replicate 2048 1"] show ?thesis
    unfolding b by (simp add: ALIGNMENT_def)
qed

definition full_disk :: "(u8 list \<times> nat) photon" where
  "full_disk = memory_photon\<lparr>io_write := \<lambda>f bs. (- 1, f)\<rparr>"


theorem group_commit_overflow_witness:
  "\<exists>fl'. set_index_group_commit memory_photon 32 (sample_file\<lparr>m_stacked_mappings := replicate 5 invalid_mapping, nmapping := 2\<rparr>) = Some (0, fl') \<and>
     append_index memory_photon (write_map 0 0 1 8) fl' = None"
  using group_commit_overflow [of "sample_file\<lparr>m_stacked_mappings := replicate 5 invalid_mapping, nmapping := 2\<rparr>" memory_photon "write_map 0 0 1 8"]
  by (simp add: sample_file_def SIZEOF_MAPPING_def)

theorem max_io_size_unchecked_witness:
  "\<exists>fl' fl''. set_max_io_size (2 ^ 23) sample_written = (0, fl') \<and> LSMT_pread memory_photon fl' (replicate (2 ^ 23) 1) (2 ^ 23) 0 = Some (2 ^ 23, replicate (2 ^ 23) 1, fl'')"
proof -
  have "\<exists>ix. m_index sample_written = Some ix \<and> index_ok ix"
    by (simp add: sample_written_def sample_file_def Index0_ok_def write_map_def wf_map_def wf_seg_def seg_end_def seg_blocks_def MAX_LENGTH_def)
  then show ?thesis using max_io_size_unchecked by blast
qed

end
