(* ===== verification/LSMT_Load.thy ===== *)
theory LSMT_Load
  imports LSMT_File
begin

text \<open>
  Creating layers and opening them again (\<open>verify_ht\<close>, \<open>do_load_index\<close>, \<open>open_file_ro\<close>, \<open>open_file_rw\<close>,
  \<open>create_file_rw\<close> of \<open>overlaybd/lsmt/file.cpp\<close>). A null pointer as the result of a function is \<open>None\<close> inside
  of the \<open>option\<close> that stands for undefined behaviour.
\<close>

section \<open>Headers and indexes of files\<close>

text \<open>\<open>st_size\<close> is -1 when the caller does not know the size. A read at a negative offset fails.\<close>

definition verify_ht :: "'f photon \<Rightarrow> 'f \<Rightarrow> bool \<Rightarrow> int \<Rightarrow> HeaderTrailer option" where
  "verify_ht P f trailer st_size =
     (if \<not> trailer then
        let (ret, buf) = io_pread P f SPACE 0 in
        if ret < int SPACE then None
        else if \<not> verify_magic (ht_of buf) \<or> \<not> is_header (ht_of buf) then None else Some (ht_of buf)
      else
        let st_size = (if st_size = - 1 then int (snd (io_size P f)) else st_size);
            trailer_offset = st_size - int SPACE in
        if trailer_offset < 0 then None
        else let (ret, buf) = io_pread P f SPACE (nat trailer_offset); h = ht_of buf in
        if ret < int SPACE then None
        else if \<not> verify_magic h \<or> is_header h \<or> \<not> is_data_file h \<or> \<not> is_sealed h then None else Some h)"

text \<open>
  The valid mappings get the tag 0, except for warp files, whose tags are changed afterwards: 1 and 2 stand
  for file system metadata and remote data, 3 for both.
\<close>

definition rebuild_tag :: "nat \<Rightarrow> nat \<Rightarrow> SegmentMapping \<Rightarrow> SegmentMapping" where
  "rebuild_tag warp min_tag m =
     (if warp = 1 then m\<lparr>tag := 0\<rparr> else if warp = 2 then m\<lparr>tag := 1\<rparr>
      else if warp = 3 then m\<lparr>tag := nat ((int (tag m) - int min_tag) mod 2 ^ 8)\<rparr> else m)"

definition keep_valid :: "nat \<Rightarrow> SegmentMapping list \<Rightarrow> SegmentMapping list" where
  "keep_valid warp ms =
     (let vs = map (\<lambda>m. if warp = 0 then m\<lparr>tag := 0\<rparr> else m) (filter (\<lambda>m. seg_offset m \<noteq> INVALID_OFFSET) ms) in
      map (rebuild_tag warp (fold (\<lambda>m a. min a (tag m)) vs 255)) vs)"

text \<open>
  The buffer for the index has \<open>index_size * 16\<close> bytes (modulo \<open>2\<^sup>6\<^sup>4\<close>), \<open>nbytes\<close> are read into it: reading
  more than that, or looking at mappings behind its end, is undefined.
\<close>

definition do_load_index :: "'f photon \<Rightarrow> 'f \<Rightarrow> bool \<Rightarrow> nat \<Rightarrow> (HeaderTrailer \<times> SegmentMapping list) option option" where
  "do_load_index P f trailer warp =
     (case verify_ht P f False (- 1) of
        None \<Rightarrow> Some None
      | Some h \<Rightarrow>
          let (ret, st_size) = io_size P f in
          if ret < 0 then Some None
          else do {
            bug_on (is_sparse_rw h);
            r \<leftarrow> (if trailer then
                     if \<not> is_data_file h then Some None
                     else case verify_ht P f True (int st_size) of
                       None \<Rightarrow> Some None
                     | Some t \<Rightarrow>
                         if trunc 64 (index_size t * SIZEOF_MAPPING) > sub64 (sub64 st_size SPACE) (index_offset t) then Some None
                         else Some (Some (t, trunc 64 (index_size t * SIZEOF_MAPPING)))
                   else if is_data_file h \<or> is_sealed h then Some None
                   else if index_offset h \<noteq> SPACE then Some None
                   else let n = sub64 st_size SPACE in Some (Some (h\<lparr>index_size := n div SIZEOF_MAPPING\<rparr>, n)));
            case r of
              None \<Rightarrow> Some None
            | Some (h, nbytes) \<Rightarrow> do {
                bug_on (nbytes > trunc 64 (index_size h * SIZEOF_MAPPING));
                let (ret, buf) = io_pread P f nbytes (index_offset h);
                if ret < int nbytes then Some None
                else do {
                  bug_on (index_size h * SIZEOF_MAPPING > length buf);
                  let ms = keep_valid warp (mappings_of (index_size h) buf);
                  Some (Some (h\<lparr>index_size := length ms\<rparr>, ms))
                }
              }
          })"

section \<open>Opening and creating layers\<close>

definition parse_uuid :: "'f photon \<Rightarrow> u8 list \<Rightarrow> u8 list" where
  "parse_uuid P s = (case uuid_parse P s of None \<Rightarrow> replicate 16 0 | Some u \<Rightarrow> u)"

definition new_LSMTReadOnlyFile :: "'f list \<Rightarrow> u8 list list \<Rightarrow> IMemoryIndex \<Rightarrow> nat \<Rightarrow> bool \<Rightarrow> 'f LSMTReadOnlyFile" where
  "new_LSMTReadOnlyFile files uuids ix vsize ownership =
     \<lparr>MAX_IO_SIZE = 4 * 1024 * 1024, m_vsize = vsize, m_files = files, m_uuid = uuids, m_index = Some ix, m_file_ownership = ownership,
      lsmt_io_cnt = 0, lsmt_io_size = 0, m_filetype = T_RO\<rparr>"

definition open_file_ro :: "'f photon \<Rightarrow> 'f \<Rightarrow> bool \<Rightarrow> 'f LSMTReadOnlyFile option option" where
  "open_file_ro P file ownership = do {
     r \<leftarrow> do_load_index P file True 0;
     case r of
       None \<Rightarrow> Some None
     | Some (ht, p) \<Rightarrow>
         (case create_memory_index p (SPACE div ALIGNMENT) (index_offset ht div ALIGNMENT) 0 of
            None \<Rightarrow> Some None
          | Some pi \<Rightarrow> Some (Some (new_LSMTReadOnlyFile [file] [parse_uuid P (uuid ht)] (RO pi) (virtual_size ht) ownership)))
   }"

definition new_LSMTFile :: "LSMTFileType \<Rightarrow> 'f list \<Rightarrow> u8 list list \<Rightarrow> IMemoryIndex \<Rightarrow> nat \<Rightarrow> bool \<Rightarrow> 'f option \<Rightarrow> nat \<Rightarrow> 'f LSMTFile" where
  "new_LSMTFile ty files uuids ix vsize ownership findex rw_tag =
     LSMTReadOnlyFile.extend ((new_LSMTReadOnlyFile files uuids ix vsize ownership)\<lparr>m_filetype := ty\<rparr>)
       (LSMTFile.fields 0 False (SPACE div ALIGNMENT) rw_tag findex [] 0)"

text \<open>
  The mappings of a sparse data file: one for each part of an extent with data. \<open>lseek\<close> returns the negated
  error number; at the end of the data this is \<open>ENXIO\<close> (6).
\<close>

function split_extent :: "nat \<Rightarrow> nat \<Rightarrow> nat \<Rightarrow> SegmentMapping list" where
  "split_extent total_length offset moff =
     (if total_length > MAX_LENGTH then new_SegmentMapping offset MAX_LENGTH moff 0 # split_extent (total_length - MAX_LENGTH) (offset + MAX_LENGTH) (moff + MAX_LENGTH)
      else [new_SegmentMapping offset (trunc 32 total_length) moff 0])"
  by pat_completeness auto
termination by (relation "measure (\<lambda>(t, a, b). t)") (auto simp: MAX_LENGTH_def)

declare split_extent.simps [simp del]

partial_function (option) create_mappings_loop :: "'f photon \<Rightarrow> 'f \<Rightarrow> nat \<Rightarrow> nat \<Rightarrow> SegmentMapping list \<Rightarrow> (int \<times> SegmentMapping list) option" where
  "create_mappings_loop P f base moff acc =
     (let b = io_seek_data P f moff in
      if b < 0 then Some (b, acc)
      else let e = io_seek_hole P f (nat b) in
        if e < 0 then Some (e, acc)
        else create_mappings_loop P f base (nat e)
          (acc @ split_extent (nat (e - b) div ALIGNMENT) (sub64 (nat b) base div ALIGNMENT) (nat b div ALIGNMENT)))"

definition create_mappings :: "'f photon \<Rightarrow> 'f \<Rightarrow> nat \<Rightarrow> (int \<times> SegmentMapping list) option" where
  "create_mappings P f base = do {
     (r, ms) \<leftarrow> create_mappings_loop P f base base [];
     Some (if r \<noteq> - 6 then - 1 else 0, ms)
   }"

text \<open>
  In the code the header of the index is used after the end of the block that declares it; here it keeps
  its value.
\<close>

definition open_file_rw :: "'f photon \<Rightarrow> 'f \<Rightarrow> 'f option \<Rightarrow> bool \<Rightarrow> 'f LSMTFile option option" where
  "open_file_rw P fdata findex ownership =
     (case verify_ht P fdata False (- 1) of
        None \<Rightarrow> Some None
      | Some pht \<Rightarrow>
          if \<not> is_sparse_rw pht \<and> findex = None then Some None
          else let (ret, st_size) = io_size P fdata in
          if ret < 0 then Some None
          else do {
            r \<leftarrow> (if \<not> is_sparse_rw pht then do {
                     fi \<leftarrow> findex;
                     r \<leftarrow> do_load_index P fi False 0;
                     case r of
                       None \<Rightarrow> Some None
                     | Some (ht, p) \<Rightarrow> map_option (map_option (\<lambda>i. (ht, i))) (create_memory_index0 p (SPACE div ALIGNMENT) (st_size div ALIGNMENT))
                   } else do {
                     (c, ms) \<leftarrow> create_mappings P fdata SPACE;
                     if c = - 1 then Some None
                     else map_option (map_option (\<lambda>i. (pht, i))) (create_memory_index0 ms (SPACE div ALIGNMENT) (st_size div ALIGNMENT))
                   });
            case r of
              None \<Rightarrow> Some None
            | Some (pht, pi) \<Rightarrow>
                Some (Some (new_LSMTFile (if \<not> is_sparse_rw pht then T_RW else T_SparseRW) [fdata] [parse_uuid P (uuid pht)] (RW pi)
                  (virtual_size pht) ownership findex 0))
          })"

text \<open>
  \<open>create_file_rw\<close> ignores the results of writing the headers. The conversion of the UUID to text and back is
  \<open>raw.parse(args.uuid)\<close>.
\<close>

definition create_file_rw :: "'f photon \<Rightarrow> 'f option \<Rightarrow> 'f option \<Rightarrow> LayerInfo \<Rightarrow> bool \<Rightarrow> 'f LSMTFile option option" where
  "create_file_rw P fdata findex args ownership =
     (if \<not> l_sparse_rw args \<and> (fdata = None \<or> findex = None) then Some None
      else do {
        fd \<leftarrow> fdata;
        pi \<leftarrow> new_Index0 [];
        (_, fd) \<leftarrow> write_header_trailer P fd True False True 0 0 args;
        findex \<leftarrow> (if \<not> l_sparse_rw args then do {
                       fi \<leftarrow> findex;
                       (_, fi) \<leftarrow> write_header_trailer P fi True False False SPACE 0 args;
                       Some (Some fi)
                     } else Some findex);
        let fd = (if l_sparse_rw args then snd (io_truncate P fd (l_virtual_size args + SPACE)) else fd);
        Some (Some (new_LSMTFile (if \<not> l_sparse_rw args then T_RW else T_SparseRW) [fd] [parse_uuid P (uuid_string P (l_uuid args))] (RW pi)
          (l_virtual_size args) ownership findex 0))
      })"


section \<open>The log of a layer is read back\<close>

lemma verify_header:
  assumes P: "full_reads P content" and f: "take SPACE (content f) = ht_page h" and h: "ht_ok h" "verify_magic h" "is_header h"
  shows "verify_ht P f False st = Some h"
proof -
  have "length (take SPACE (content f)) = SPACE" using f length_ht_page [OF h(1)] by simp
  then have "SPACE \<le> length (content f)" by simp
  then have "io_pread P f SPACE 0 = (int SPACE, ht_page h)" using io_pread_full [OF P, of f SPACE 0] f by simp
  then show ?thesis using h ht_of_page [OF h(1), of "[]"] by (simp add: verify_ht_def)
qed

lemma keep_valid_eq: "\<forall>m \<in> set (filter is_valid ms). tag m = 0 \<Longrightarrow> keep_valid 0 ms = filter is_valid ms"
proof -
  assume "\<forall>m \<in> set (filter is_valid ms). tag m = 0"
  then have "map (\<lambda>m. m\<lparr>tag := 0\<rparr>) (filter is_valid ms) = map (\<lambda>m. m) (filter is_valid ms)" by (intro map_cong) auto
  moreover have "rebuild_tag 0 k = (\<lambda>m. m)" for k by (simp add: rebuild_tag_def fun_eq_iff)
  ultimately show ?thesis by (simp add: keep_valid_def is_valid_def [symmetric] Let_def)
qed

lemma load_log:
  assumes P: "file_laws P content pos" "full_reads P content" and f: "content f = ht_page h @ index_bytes es"
    and h: "ht_ok h" "verify_magic h" "is_header h" "\<not> is_sealed h" "\<not> is_data_file h" "\<not> is_sparse_rw h" "index_offset h = SPACE"
    and es: "\<forall>e \<in> set es. fields_ok e" "length (content f) < 2 ^ 64"
  shows "do_load_index P f False 0 = Some (Some (h\<lparr>index_size := length (keep_valid 0 es)\<rparr>, keep_valid 0 es))"
proof -
  have len: "length (content f) = SPACE + SIZEOF_MAPPING * length es" using f h(1) by simp
  then have n: "sub64 (length (content f)) SPACE = SIZEOF_MAPPING * length es"
    using es(2) sub64_eq [of SPACE "length (content f)"] by simp
  have d: "SIZEOF_MAPPING * length es div SIZEOF_MAPPING = length es" by (simp add: SIZEOF_MAPPING_def)
  have t: "trunc 64 (length es * SIZEOF_MAPPING) = SIZEOF_MAPPING * length es"
    using es(2) len trunc_id [of "length es * SIZEOF_MAPPING" 64] by (simp add: mult.commute)
  have "verify_ht P f False (- 1) = Some h" using f h by (intro verify_header [OF P(2)]) simp_all
  moreover have "io_pread P f (SIZEOF_MAPPING * length es) SPACE = (int (SIZEOF_MAPPING * length es), index_bytes es)"
    using io_pread_full [OF P(2), of f "SIZEOF_MAPPING * length es" SPACE] len f h(1) by simp
  moreover have "mappings_of (length es) (index_bytes es) = es" using index_roundtrip [OF es(1), of "length es" "[]"] by simp
  ultimately show ?thesis
    using h n d t io_size_law [OF P(1), of f] by (simp add: do_load_index_def Let_def mult.commute)
qed

text \<open>The mappings of a log pass the check of \<open>create_memory_index0\<close>.\<close>

lemma verify_moffset:
  assumes "\<forall>e \<in> set ms. entry_ok t sz e"
  shows "verify_mapping_moffset ms (SPACE div ALIGNMENT) (sz div ALIGNMENT)"
proof -
  have "within (moffset e) (mend e) (SPACE div ALIGNMENT) (sz div ALIGNMENT) (zeroed e)" if "e \<in> set ms" for e
  proof -
    have e: "SPACE \<le> moffset e * ALIGNMENT" "mend e * ALIGNMENT \<le> sz" "zeroed e \<or> 0 < seg_length e"
      using assms that wf_mapD(1) [of e] by (auto simp: entry_ok_def split: if_splits)
    then have "SPACE div ALIGNMENT \<le> moffset e" "mend e \<le> sz div ALIGNMENT"
      using div_le_mono [OF e(1), of ALIGNMENT] div_le_mono [OF e(2), of ALIGNMENT] by (simp_all add: ALIGNMENT_def)
    then show ?thesis using e(3) by (auto simp: within_def mend_def)
  qed
  then show ?thesis by (simp add: verify_mapping_moffset_def list_all_iff)
qed

lemma create_from_log:
  assumes "\<forall>e \<in> set ms. entry_ok t sz e"
  shows "\<exists>i. create_memory_index0 ms (SPACE div ALIGNMENT) (sz div ALIGNMENT) = Some (Some i) \<and> Index0_ok i \<and> (\<forall>b. denote (mapping i) b = denote (rev ms) b)"
proof -
  have "\<forall>m \<in> set ms. seg_length m = 0 \<or> wf_map m" using assms by (auto simp: entry_ok_def split: if_splits)
  with Index0_inserts_spec [of "\<lparr>mapping = [], m_alloc = 0\<rparr>" ms] show ?thesis
    using verify_moffset [OF assms] by (auto simp: create_memory_index0_def new_Index0_def Index0_ok_def)
qed

text \<open>
  The state of a layer whose log is complete: the headers of the two files, and an index that is the log. It
  is what \<open>create_file_rw\<close> makes, and the operations keep it.
\<close>

definition logged :: "('f \<Rightarrow> u8 list) \<Rightarrow> HeaderTrailer \<Rightarrow> HeaderTrailer \<Rightarrow> ('f, 'x) LSMTFile_scheme \<Rightarrow> bool" where
  "logged content h0 hi fl \<longleftrightarrow> writable content fl \<and> group_ok content fl \<and> m_rw_tag fl = 0 \<and> length (m_files fl) = 1 \<and>
     take SPACE (data_of content fl) = ht_page h0 \<and> log_page content fl = ht_page hi \<and>
     (\<exists>i ms. m_index fl = Some (RW i) \<and> log_is content fl ms \<and> (\<forall>e \<in> set ms. entry_ok 0 (length (data_of content fl)) e) \<and>
        (\<forall>b. denote (mapping i) b = denote (rev ms) b))"

definition header_ok :: "bool \<Rightarrow> HeaderTrailer \<Rightarrow> bool" where
  "header_ok data h \<longleftrightarrow> ht_ok h \<and> verify_magic h \<and> is_header h \<and> \<not> is_sealed h \<and> is_data_file h = data \<and> \<not> is_sparse_rw h \<and>
     index_offset h = (if data then 0 else SPACE)"

lemma logged_grown:
  assumes l: "logged content h0 hi fl" and g: "grown content k es fl fl'"
  shows "logged content h0 hi fl'"
proof -
  from l obtain i ms where i: "m_index fl = Some (RW i)" "log_is content fl ms" "\<forall>e \<in> set ms. entry_ok 0 (length (data_of content fl)) e"
    "\<forall>b. denote (mapping i) b = denote (rev ms) b" by (auto simp: logged_def)
  from g i(1) obtain i' where i': "m_index fl' = Some (RW i')" "\<forall>b. denote (mapping i') b = over (denote (rev es)) (denote (mapping i)) b"
    by (auto simp: grown_def)
  have "denote (mapping i') b = denote (rev (ms @ es)) b" for b
    using i'(2) i(4) by (simp add: over_def denote_append split: option.split)
  moreover have "log_is content fl' (ms @ es)" "log_page content fl' = log_page content fl" using g i(2) by (auto simp: grown_def)
  moreover have "\<forall>e \<in> set (ms @ es). entry_ok 0 (length (data_of content fl')) e"
    using g i(3) l by (auto simp: grown_def logged_def intro: entry_ok_mono)
  ultimately show ?thesis using l g i'(1) unfolding logged_def grown_def by auto
qed

lemma reopen_logged:
  assumes P: "file_laws P content pos" "full_reads P content" and l: "logged content h0 hi fl" and h: "header_ok True h0" "header_ok False hi"
    and dn: "nmapping fl = 0" and fi: "m_findex fl = Some fi" "length (content fi) < 2 ^ 64" and fd: "m_files fl = [fd]"
  shows "\<exists>fl2. open_file_rw P fd (Some fi) ownership = Some (Some fl2) \<and> logged content h0 hi fl2 \<and>
    device content fl2 = device content fl \<and> m_vsize fl2 = virtual_size hi"
proof -
  from l obtain i ms where i: "m_index fl = Some (RW i)" "log_is content fl ms" "\<forall>e \<in> set ms. entry_ok 0 (length (data_of content fl)) e"
    "\<forall>b. denote (mapping i) b = denote (rev ms) b" by (auto simp: logged_def)
  have d: "data_of content fl = content fd" using l fd by (simp add: logged_def data_of_def)
  from i(2) fi(1) dn obtain page es where
    es: "content fi = page @ index_bytes es" "length page = SPACE" "\<forall>e \<in> set es. fields_ok e" "ms = filter is_valid es"
    by (auto simp: log_is_def)
  have pd: "take SPACE (content fd) = ht_page h0" using l d by (simp add: logged_def)
  have page: "page = ht_page hi" using l es(1,2) fi(1) by (simp add: logged_def log_page_def)
  have "\<forall>m \<in> set (filter is_valid es). tag m = 0" using i(3) es(4) by (auto simp: entry_ok_def)
  then have kv: "keep_valid 0 es = ms" using es(4) by (simp add: keep_valid_eq)
  have load: "do_load_index P fi False 0 = Some (Some (hi\<lparr>index_size := length ms\<rparr>, ms))"
    using load_log [OF P es(1) [unfolded page] _ _ _ _ _ _ _ es(3) fi(2)] h(2) kv by (simp add: header_ok_def)
  from create_from_log [of ms 0 "length (content fd)"] i(3) d obtain j where
    j: "create_memory_index0 ms (SPACE div ALIGNMENT) (length (content fd) div ALIGNMENT) = Some (Some j)" "Index0_ok j"
      "\<forall>b. denote (mapping j) b = denote (rev ms) b" by auto
  have v: "verify_ht P fd False (- 1) = Some h0"
    using l h(1) d by (intro verify_header [OF P(2)]) (simp_all add: logged_def header_ok_def)
  let ?fl = "new_LSMTFile T_RW [fd] [parse_uuid P (uuid hi)] (RW j) (virtual_size hi) ownership (Some fi) 0"
  note new = new_LSMTFile_def new_LSMTReadOnlyFile_def LSMTReadOnlyFile.defs LSMTFile.defs
  have "open_file_rw P fd (Some fi) ownership = Some (Some ?fl)"
    using v load j(1) h(1,2) io_size_law [OF P(1), of fd] by (simp add: open_file_rw_def header_ok_def is_sparse_rw_def get_flag_bit_def)
  moreover have B: "denote (mapping j) b = denote (mapping i) b" for b using i(4) j(3) by simp
  have dev: "device content ?fl = device content fl"
    using i(1) fd B by (simp add: new device_def fun_eq_iff)
  have "readable fl" using l by (simp add: logged_def writable_def)
  then have "readable ?fl" using i(1) fd B j(2) by (simp add: new readable_def max_io_ok_def blocks_in_files_def MAX_LENGTH_def ALIGNMENT_def)
  moreover have "data_of content ?fl = content fd" by (simp add: new data_of_def)
  ultimately have "writable content ?fl" using l i(1) d B by (simp add: logged_def writable_def) (simp add: new)
  moreover have "log_is content ?fl ms" unfolding log_is_def using es by (auto simp: new)
  ultimately have "logged content h0 hi ?fl"
    unfolding logged_def using pd i(3) j(3) d es(1,2) page
    by (auto simp: new data_of_def group_ok_def findex_ok_def log_page_def SPACE_def)
  then show ?thesis using dev \<open>open_file_rw P fd (Some fi) ownership = Some (Some ?fl)\<close> by (intro exI [of _ ?fl]) (simp add: new)
qed

lemma dev_run_append:
  "dev_run P (xs @ ys) fl = do { (rs, fl) \<leftarrow> dev_run P xs fl; (rs', fl) \<leftarrow> dev_run P ys fl; Some (rs @ rs', fl) }"
proof (induction xs arbitrary: fl)
  case Nil
  show ?case by (cases "dev_run P ys fl") auto
next
  case (Cons x xs)
  show ?case
  proof (cases "exec_dev P x fl")
    case (Some a)
    then show ?thesis
      by (cases a; cases "dev_run P xs (snd a)"; simp add: Cons) (auto simp: Cons bind_assoc split: option.split bind_split)
  qed simp
qed

lemma create_logged:
  assumes P: "file_laws P content pos" "full_writes P" and l: "layer_ok P l" "\<not> l_sparse_rw l"
    and fd: "content fd = []" "pos fd = 0" and fi: "content fi = []" "pos fi = 0"
  shows "\<exists>fl h0 hi. create_file_rw P (Some fd) (Some fi) l ownership = Some (Some fl) \<and> logged content h0 hi fl \<and> header_ok True h0 \<and> header_ok False hi \<and>
    length (data_of content fl) = SPACE \<and> device content fl = (\<lambda>_. zeros) \<and> virtual_size hi = l_virtual_size l"
proof -
  have b: "(0 :: nat) < 2 ^ 64" "SPACE < 2 ^ 64" by (simp_all add: SPACE_def)
  from write_header_trailer_spec [OF l(1) b(1) b(1), of fd True False True] obtain h0 where
    h0: "write_header_trailer P fd True False True 0 0 l = Some (io_write P fd (ht_page h0))" "header_ok True h0"
    using l(2) unfolding header_ok_def by (metis (full_types))
  from write_header_trailer_spec [OF l(1) b(2) b(1), of fi True False False] obtain hi where
    hi: "write_header_trailer P fi True False False SPACE 0 l = Some (io_write P fi (ht_page hi))" "header_ok False hi" "virtual_size hi = l_virtual_size l"
    using l(2) unfolding header_ok_def by (metis (full_types))
  have wr: "\<exists>f'. io_write P f (ht_page h) = (int SPACE, f') \<and> content f' = ht_page h" if "content f = []" "pos f = 0" "ht_ok h" for f h
  proof -
    obtain r f' where w: "io_write P f (ht_page h) = (r, f')" by (cases "io_write P f (ht_page h)")
    then have "r = int SPACE" using P(2) that(3) by (metis full_writes_def fst_conv length_ht_page)
    then show ?thesis using io_write_law(2) [OF P(1) w] w that overwrite_simps(2) [of "[]"] by simp
  qed
  obtain fd' fi' where fd': "io_write P fd (ht_page h0) = (int SPACE, fd')" "content fd' = ht_page h0"
    and fi': "io_write P fi (ht_page hi) = (int SPACE, fi')" "content fi' = ht_page hi"
    using wr [OF fd] wr [OF fi] h0(2) hi(2) unfolding header_ok_def by metis
  have len: "length (ht_page h0) = SPACE" "length (ht_page hi) = SPACE" using h0(2) hi(2) by (simp_all add: header_ok_def)
  let ?fl = "new_LSMTFile T_RW [fd'] [parse_uuid P (uuid_string P (l_uuid l))] (RW \<lparr>mapping = [], m_alloc = 0\<rparr>) (l_virtual_size l) ownership (Some fi') 0"
  note new = new_LSMTFile_def new_LSMTReadOnlyFile_def LSMTReadOnlyFile.defs LSMTFile.defs
  have "create_file_rw P (Some fd) (Some fi) l ownership = Some (Some ?fl)"
    using l(2) h0(1) hi(1) fd'(1) fi'(1) by (simp add: create_file_rw_def new_Index0_def)
  moreover have "writable content ?fl"
    using fd'(2) len by (simp add: new writable_def readable_def max_io_ok_def data_of_def Index0_ok_def blocks_in_files_def ALIGNMENT_def MAX_LENGTH_def SPACE_def)
  moreover have "log_is content ?fl []"
    unfolding log_is_def using fi'(2) len by (intro exI [of _ fi'] exI [of _ "ht_page hi"] exI [of _ "[]"]) (simp add: new)
  then have "\<exists>i ms. m_index ?fl = Some (RW i) \<and> log_is content ?fl ms \<and> (\<forall>e \<in> set ms. entry_ok 0 (length (data_of content ?fl)) e) \<and>
      (\<forall>b. denote (mapping i) b = denote (rev ms) b)"
    by (intro exI [of _ "\<lparr>mapping = [], m_alloc = 0\<rparr>"] exI [of _ "[]"]) (simp add: new)
  moreover have "ht_page hi \<noteq> []" using len by (auto simp: SPACE_def)
  moreover have "take SPACE (ht_page h0) = ht_page h0" "take SPACE (ht_page hi) = ht_page hi" using len by simp_all
  ultimately have "logged content h0 hi ?fl"
    unfolding logged_def using fd'(2) fi'(2) by (intro conjI; simp add: new data_of_def group_ok_def findex_ok_def log_page_def)
  moreover have "device content ?fl = (\<lambda>_. zeros)" by (simp add: new device_def block_value_def fun_eq_iff)
  moreover have "length (data_of content ?fl) = SPACE" using fd'(2) len by (simp add: new data_of_def)
  ultimately show ?thesis
    using \<open>create_file_rw P (Some fd) (Some fi) l ownership = Some (Some ?fl)\<close> h0(2) hi(2,3) by blast
qed


section \<open>Properties\<close>


text \<open>
  A log that ends in the middle of a mapping, as a crash can leave it, makes opening the layer write
  behind the end of the buffer for the index: the whole rest of the file is read into a buffer for whole
  mappings.
\<close>

theorem torn_log_overflows:
  assumes "file_laws P content pos" "full_reads P content"
    and "content fi = ht_page hi @ bs" "header_ok False hi" "take SPACE (content fd) = ht_page h0" "header_ok True h0"
    and "length bs mod SIZEOF_MAPPING \<noteq> 0" "length (content fi) < 2 ^ 64"
  shows "open_file_rw P fd (Some fi) ownership = None"
proof -
  have hi: "ht_ok hi" "verify_magic hi" "is_header hi" "\<not> is_sealed hi" "\<not> is_data_file hi" "\<not> is_sparse_rw hi" "index_offset hi = SPACE"
    using assms(4) by (simp_all add: header_ok_def)
  have len: "length (content fi) = SPACE + length bs" using assms(3) hi(1) by simp
  then have n: "sub64 (length (content fi)) SPACE = length bs" using assms(8) sub64_eq [of SPACE "length (content fi)"] by simp
  have "length bs div SIZEOF_MAPPING * SIZEOF_MAPPING < length bs"
    using assms(7) div_mult_mod_eq [of "length bs" SIZEOF_MAPPING] by linarith
  moreover from this have "trunc 64 (length bs div SIZEOF_MAPPING * SIZEOF_MAPPING) = length bs div SIZEOF_MAPPING * SIZEOF_MAPPING"
    using assms(8) len by (intro trunc_id) simp
  moreover have "verify_ht P fi False (- 1) = Some hi" using assms(3) hi by (intro verify_header [OF assms(2)]) simp_all
  ultimately have "do_load_index P fi False 0 = None"
    using hi n io_size_law [OF assms(1), of fi] by (simp add: do_load_index_def Let_def)
  moreover have "verify_ht P fd False (- 1) = Some h0" using assms(5,6) by (intro verify_header [OF assms(2)]) (simp_all add: header_ok_def)
  ultimately show ?thesis
    using assms(6) io_size_law [OF assms(1), of fd] by (simp add: open_file_rw_def header_ok_def)
qed

definition sample_layer :: LayerInfo where
  "sample_layer = \<lparr>l_virtual_size = 65536, l_parent_uuid = replicate 16 0, l_uuid = replicate 16 1, l_user_tag = [], l_sparse_rw = False, l_len = 0\<rparr>"

lemma sample_layer_ok: "layer_ok memory_photon sample_layer" "\<not> l_sparse_rw sample_layer"
  by (simp_all add: layer_ok_def sample_layer_def memory_photon_def)

lemma memory_full_writes: "full_writes memory_photon"
  by (simp add: full_writes_def memory_photon_def split: prod.split)


theorem torn_log_overflows_witness:
  "\<exists>h0 hi. open_file_rw memory_photon (ht_page h0, 0) (Some (ht_page hi @ [1, 2, 3], 0)) True = None \<and> header_ok False hi \<and> header_ok True h0"
proof -
  from create_logged [OF memory_photon_laws(1) memory_full_writes sample_layer_ok, of "([], 0)" "([], 0)" True] obtain h0 hi where
    h: "header_ok True h0" "header_ok False hi" by auto
  have "take SPACE (ht_page h0) = ht_page h0" "length (ht_page hi) = SPACE" using h by (simp_all add: header_ok_def)
  then show ?thesis
    using torn_log_overflows [OF memory_photon_laws, of "(ht_page hi @ [1, 2, 3], 0)" hi "[1, 2, 3]" "(ht_page h0, 0)" h0 True] h
    by (auto simp: SIZEOF_MAPPING_def SPACE_def)
qed

end
