(* ===== verification/LSMT_Commit.thy ===== *)
theory LSMT_Commit
  imports LSMT_Load LSMT_Device
begin

text \<open>
  Committing layers: \<open>compact\<close> of \<open>overlaybd/lsmt/file.cpp\<close> copies the blocks that an index maps into a new
  file, with the compressed index behind them and a trailer. It is used to commit a writable layer, to
  flatten a stack of layers and to merge layers.
\<close>

section \<open>Copying segments\<close>

text \<open>The detection of zero blocks is disabled in the code: its first statement returns 1.\<close>

definition is_zero_block :: "u8 list \<Rightarrow> int" where
  "is_zero_block buf = 1"

text \<open>The segment under construction, the blocks of the buffer already pushed, the data to write, the new index.\<close>

record push_state =
  ps_s :: SegmentMapping
  ps_prev_end :: nat
  ps_data :: "u8 list"
  ps_index :: "SegmentMapping list"

definition push_segment :: "u8 list \<Rightarrow> int \<Rightarrow> push_state \<Rightarrow> push_state" where
  "push_segment buf zero_detect st =
     (let s = (if zero_detect = 1 then discard (ps_s st) else ps_s st);
          data = (if zero_detect = 1 then ps_data st
                  else ps_data st @ take (seg_length s * ALIGNMENT) (drop (ps_prev_end st * ALIGNMENT) buf)) in
      \<lparr>ps_s = \<lparr>seg_offset = trunc 50 (seg_end s), seg_length = 0, moffset = trunc 55 (mend s), zeroed = False, tag = tag s\<rparr>,
       ps_prev_end = ps_prev_end st + seg_length s, ps_data = data, ps_index = ps_index st @ [s]\<rparr>)"

definition grow :: "push_state \<Rightarrow> push_state" where
  "grow st = st\<lparr>ps_s := (ps_s st)\<lparr>seg_length := trunc 14 (seg_length (ps_s st) + 1)\<rparr>\<rparr>"

text \<open>The loop over the blocks of the buffer, with \<open>zero_detected\<close>.\<close>

definition scan_block :: "u8 list \<Rightarrow> nat \<Rightarrow> int \<times> push_state \<Rightarrow> int \<times> push_state" where
  "scan_block buf i z =
     (let (zero_detected, st) = z in
      if is_zero_block (take ALIGNMENT (drop (i * ALIGNMENT) buf)) = 0
      then (1, grow (if zero_detected = 0 \<and> seg_length (ps_s st) \<noteq> 0 then push_segment buf zero_detected st else st))
      else (0, grow (if zero_detected = 1 then push_segment buf zero_detected st else st)))"

definition scan_buffer :: "u8 list \<Rightarrow> nat \<Rightarrow> SegmentMapping \<Rightarrow> SegmentMapping list \<Rightarrow> push_state" where
  "scan_buffer buf step s index =
     (let (zero_detected, st) = fold (scan_block buf) [0..<(step + ALIGNMENT - 1) div ALIGNMENT]
            (- 1, \<lparr>ps_s = s, ps_prev_end = 0, ps_data = [], ps_index = index\<rparr>) in
      if seg_length (ps_s st) \<noteq> 0 then push_segment buf zero_detected st else st)"

definition BUFFER_SIZE :: nat where
  "BUFFER_SIZE = 32 * 1024"

text \<open>
  \<open>pcopy\<close> reads the blocks of a mapping in steps and appends them to the destination; the result is the
  number of blocks written or -1.
\<close>

function pcopy_loop :: "'f photon \<Rightarrow> 'f \<Rightarrow> 'f \<Rightarrow> nat \<Rightarrow> nat \<Rightarrow> nat \<Rightarrow> SegmentMapping \<Rightarrow> SegmentMapping list \<Rightarrow> int \<times> 'f \<times> SegmentMapping list" where
  "pcopy_loop P src dest offset count bytes s index =
     (if count = 0 then (int (bytes div ALIGNMENT), dest, index)
      else
        let step = min count BUFFER_SIZE; (ret, buf) = io_pread P src step offset in
        if ret < int step then (- 1, dest, index)
        else
          let st = scan_buffer buf step s index; n = length (ps_data st) in
          if n \<noteq> 0 then
            let (ret, dest) = io_write P dest (ps_data st) in
            if ret < int n then (- 1, dest, ps_index st)
            else pcopy_loop P src dest (offset + step) (count - step) (bytes + n) (ps_s st) (ps_index st)
          else pcopy_loop P src dest (offset + step) (count - step) bytes (ps_s st) (ps_index st))"
  by pat_completeness auto
termination
  by (relation "measure (\<lambda>(P, src, dest, offset, count, bytes, s, index). count)") (auto simp: BUFFER_SIZE_def)

declare pcopy_loop.simps [simp del]

definition pcopy :: "'f photon \<Rightarrow> 'f list \<Rightarrow> 'f \<Rightarrow> SegmentMapping \<Rightarrow> nat \<Rightarrow> SegmentMapping list \<Rightarrow> (int \<times> 'f \<times> SegmentMapping list) option" where
  "pcopy P src_files dest m moff index = do {
     bug_on (seg_length m \<noteq> 0 \<and> tag m \<ge> length src_files);
     Some (pcopy_loop P (src_files ! tag m) dest (moffset m * ALIGNMENT) (seg_length m * ALIGNMENT) 0
       (new_SegmentMapping (seg_offset m) 0 moff (tag m)) index)
   }"

section \<open>Compaction\<close>

record CommitArgs =
  ca_user_tag :: "u8 list option"
  ca_tag_len :: nat
  ca_uuid :: "u8 list"
  ca_parent_uuid :: "u8 list"

text \<open>\<open>strlen\<close> of a buffer without a final zero is undefined.\<close>

definition get_tag_len :: "CommitArgs \<Rightarrow> nat option" where
  "get_tag_len a =
     (case ca_user_tag a of
        Some t \<Rightarrow> if ca_tag_len a = 0 then if 0 \<in> set t then Some (length (takeWhile (\<lambda>c. c \<noteq> 0) t)) else None else Some (ca_tag_len a)
      | None \<Rightarrow> Some (ca_tag_len a))"

text \<open>\<open>layer.uuid.parse(s)\<close>: a text that is not a UUID leaves the old value.\<close>

definition parse_into :: "'f photon \<Rightarrow> u8 list \<Rightarrow> u8 list \<Rightarrow> u8 list" where
  "parse_into P s old = (case uuid_parse P s of None \<Rightarrow> old | Some u \<Rightarrow> u)"

text \<open>\<open>layer\<close> is the new \<open>LayerInfo\<close>, with a generated UUID.\<close>

definition load_layer_info :: "'f photon \<Rightarrow> 'f list \<Rightarrow> LayerInfo \<Rightarrow> bool \<Rightarrow> int \<times> LayerInfo" where
  "load_layer_info P src_files layer oper_seal =
     (let (ret, top) = io_pread P (hd src_files) SPACE 0 in
      if ret \<noteq> int SPACE then (- 1, layer)
      else
        let h = ht_of top;
            layer = layer\<lparr>l_virtual_size := virtual_size h, l_sparse_rw := is_sparse_rw h\<rparr>;
            (ret, bottom) = (if length src_files \<noteq> 1 then io_pread P (last src_files) SPACE 0 else (int SPACE, top)) in
        if ret \<noteq> int SPACE then (- 1, layer)
        else
          let h = ht_of bottom; layer = layer\<lparr>l_parent_uuid := parse_into P (parent_uuid h) (l_parent_uuid layer)\<rparr> in
          (0, if oper_seal then layer\<lparr>l_uuid := parse_into P (uuid h) (l_uuid layer)\<rparr> else layer))"

text \<open>
  The loop over the mappings: the position in the destination, in blocks, and the new index. A failed copy
  ends it.
\<close>

fun compact_loop :: "'f photon \<Rightarrow> 'f list \<Rightarrow> 'f \<Rightarrow> SegmentMapping list \<Rightarrow> nat \<Rightarrow> SegmentMapping list \<Rightarrow> (int \<times> 'f \<times> nat \<times> SegmentMapping list) option" where
  "compact_loop P src_files dest [] moff index = Some (0, dest, moff, index)"
| "compact_loop P src_files dest (m # ms) moff index =
     (if zeroed m then compact_loop P src_files dest ms moff (index @ [m\<lparr>moffset := trunc 55 moff\<rparr>])
      else do {
        (ret, dest, index) \<leftarrow> pcopy P src_files dest m moff index;
        if ret < 0 then Some (ret, dest, moff, index)
        else compact_loop P src_files dest ms (trunc 64 (moff + nat ret)) index
      })"

definition INDEX_PAGE :: nat where
  "INDEX_PAGE = 4096 div SIZEOF_MAPPING"

text \<open>The index is padded with invalid mappings to whole pages and written page by page.\<close>

definition pad_index :: "SegmentMapping list \<Rightarrow> SegmentMapping list" where
  "pad_index ms =
     (let padding = INDEX_PAGE - length ms mod INDEX_PAGE in
      if padding < INDEX_PAGE then ms @ replicate padding invalid_mapping else ms)"

function write_index :: "'f photon \<Rightarrow> 'f \<Rightarrow> SegmentMapping list \<Rightarrow> 'f option" where
  "write_index P f ms =
     (if ms = [] then Some f
      else do {
        let (ret, f) = io_write P f (index_bytes (take INDEX_PAGE ms));
        bug_on (ret \<noteq> 4096);
        write_index P f (drop INDEX_PAGE ms)
      })"
  by pat_completeness auto
termination
  by (relation "measure (\<lambda>(P, f, ms). length ms)") (auto simp: INDEX_PAGE_def SIZEOF_MAPPING_def)

declare write_index.simps [simp del]

definition commit_layer :: "'f photon \<Rightarrow> CommitArgs \<Rightarrow> LayerInfo \<Rightarrow> LayerInfo option" where
  "commit_layer P args layer = do {
     len \<leftarrow> get_tag_len args;
     Some (layer\<lparr>l_sparse_rw := False, l_user_tag := (case ca_user_tag args of None \<Rightarrow> [] | Some t \<Rightarrow> t),
       l_uuid := parse_into P (ca_uuid args) (replicate 16 0), l_parent_uuid := parse_into P (ca_parent_uuid args) (l_parent_uuid layer), l_len := len\<rparr>)
   }"

definition compact :: "'f photon \<Rightarrow> 'f list \<Rightarrow> SegmentMapping list \<Rightarrow> CommitArgs \<Rightarrow> LayerInfo \<Rightarrow> 'f \<Rightarrow> (int \<times> 'f) option" where
  "compact P src_files raw_index args layer dest =
     (let (r, layer) = load_layer_info P src_files layer False in
      if r \<noteq> 0 then Some (- 1, dest)
      else do {
        layer \<leftarrow> commit_layer P args layer;
        (ret, dest) \<leftarrow> write_header_trailer P dest True True True 0 0 layer;
        if ret < 0 then Some (- 1, dest)
        else do {
          (ret, dest, moff, index) \<leftarrow> compact_loop P src_files dest raw_index (SPACE div ALIGNMENT) [];
          if ret < 0 then Some (ret, dest)
          else do {
            let index = pad_index (compress_raw_index index);
            dest \<leftarrow> write_index P dest index;
            let (_, dest) = io_end P dest;
            (ret, dest) \<leftarrow> write_header_trailer P dest False True True (trunc 64 (moff * ALIGNMENT)) (length index) layer;
            Some (if ret < 0 then - 1 else 0, dest)
          }
        }
      })"

section \<open>Operations that compact\<close>

text \<open>The mappings of an index as an array: \<open>dump\<close> of a writable index, \<open>buffer\<close> of a read-only one.\<close>

fun index_dump :: "IMemoryIndex \<Rightarrow> SegmentMapping list option" where
  "index_dump (RO ix) = None"
| "index_dump (RW ix) = map_option snd (Index0_dump 0 ix)"
| "index_dump (Combo ix) = map_option snd (Index0_dump 0 (Index0.truncate ix))"

definition LSMT_commit :: "'f photon \<Rightarrow> ('f, 'x) LSMTFile_scheme \<Rightarrow> CommitArgs \<Rightarrow> LayerInfo \<Rightarrow> 'f \<Rightarrow> (int \<times> 'f) option" where
  "LSMT_commit P fl args layer dest =
     (if length (m_files fl) > 1 then Some (- 1, dest)
      else do {
        ix \<leftarrow> m_index fl;
        ms \<leftarrow> index_dump ix;
        compact P (m_files fl) ms args layer dest
      })"

text \<open>
  \<open>commit\<close> of a read-only file dereferences the result of \<open>verify_ht\<close> without a check.
\<close>

definition LSMT_commit_ro :: "'f photon \<Rightarrow> ('f, 'x) LSMTReadOnlyFile_scheme \<Rightarrow> CommitArgs \<Rightarrow> LayerInfo \<Rightarrow> 'f \<Rightarrow> (int \<times> 'f) option" where
  "LSMT_commit_ro P fl args layer dest =
     (if length (m_files fl) > 1 then Some (- 1, dest)
      else do {
        bug_on (m_files fl = []);
        pht \<leftarrow> verify_ht P (hd (m_files fl)) True (- 1);
        if \<not> is_sealed pht then Some (- 1, dest)
        else do {
          ix \<leftarrow> m_index fl;
          case ix of RO i \<Rightarrow> compact P (m_files fl) (ix_map i) args layer dest | _ \<Rightarrow> None
        }
      })"

definition default_args :: CommitArgs where
  "default_args = \<lparr>ca_user_tag = None, ca_tag_len = 0, ca_uuid = [], ca_parent_uuid = []\<rparr>"

text \<open>\<open>flatten\<close> of a writable file: its index is combined into a read-only one.\<close>

definition LSMT_flatten :: "'f photon \<Rightarrow> ('f, 'x) LSMTFile_scheme \<Rightarrow> LayerInfo \<Rightarrow> 'f \<Rightarrow> (int \<times> 'f) option" where
  "LSMT_flatten P fl layer dest = do {
     ix \<leftarrow> m_index fl;
     pmi \<leftarrow> (case ix of RO i \<Rightarrow> None | RW i \<Rightarrow> Some (make_read_only_index i) | Combo c \<Rightarrow> ComboIndex_make_read_only_index c);
     compact P (m_files fl) (ix_map pmi) default_args layer dest
   }"


section \<open>Copying a mapping\<close>

text \<open>
  The result of copying blocks into a file with content \<open>c\<close>: where the source has the block \<open>n\<close> of the file
  \<open>k\<close>, the new index has a block of the new file with the same bytes.
\<close>

definition copied :: "u8 list list \<Rightarrow> u8 list \<Rightarrow> (nat \<times> nat option) option \<Rightarrow> (nat \<times> nat option) option \<Rightarrow> bool" where
  "copied fs c t t' \<longleftrightarrow>
     (case t of
        None \<Rightarrow> t' = None
      | Some (k, None) \<Rightarrow> t' = Some (k, None)
      | Some (k, Some n) \<Rightarrow> \<exists>n'. t' = Some (k, Some n') \<and> (n' + 1) * ALIGNMENT \<le> length c \<and> file_block c n' = file_block (fs ! k) n)"

lemma copied_append: "copied fs c t t' \<Longrightarrow> copied fs (c @ d) t t'"
  by (auto simp: copied_def file_block_append split: option.splits prod.splits)

lemma scan_blocks:
  assumes "n \<le> MAX_LENGTH" "seg_length (ps_s st) = 0"
  shows "fold (scan_block buf) [0..<n] (- 1, st) = (if n = 0 then - 1 else 0, st\<lparr>ps_s := (ps_s st)\<lparr>seg_length := n\<rparr>\<rparr>)"
  using assms(1)
proof (induction n)
  case 0
  show ?case using assms(2) by simp
next
  case (Suc n)
  then have "trunc 14 (Suc n) = Suc n" by (intro trunc_id) (simp add: MAX_LENGTH_def)
  with Suc show ?case by (auto simp: scan_block_def is_zero_block_def grow_def)
qed

text \<open>A buffer becomes one segment with all of its data.\<close>

definition after_segment :: "nat \<Rightarrow> SegmentMapping \<Rightarrow> SegmentMapping" where
  "after_segment n s = s\<lparr>seg_offset := trunc 50 (seg_offset s + n), seg_length := 0, moffset := trunc 55 (moffset s + n)\<rparr>"

lemma scan_buffer_spec:
  assumes "0 < n" "n \<le> MAX_LENGTH" "length buf = n * ALIGNMENT" "seg_length s = 0" "\<not> zeroed s"
  shows "scan_buffer buf (n * ALIGNMENT) s index =
    \<lparr>ps_s = after_segment n s, ps_prev_end = n, ps_data = buf, ps_index = index @ [s\<lparr>seg_length := n\<rparr>]\<rparr>"
proof -
  have d: "(n * ALIGNMENT + ALIGNMENT - 1) div ALIGNMENT = n"
    using div_nat_eqI [of ALIGNMENT n "n * ALIGNMENT + ALIGNMENT - 1"] by (simp add: ALIGNMENT_def)
  show ?thesis
    unfolding scan_buffer_def d
    using assms by (subst scan_blocks) (simp_all add: push_segment_def after_segment_def seg_end_def mend_def)
qed

text \<open>The pieces of a mapping: their blocks are those of the mapping.\<close>

definition pieces :: "SegmentMapping \<Rightarrow> nat \<Rightarrow> SegmentMapping list \<Rightarrow> bool" where
  "pieces s k es \<longleftrightarrow> segs_ok es \<and> (\<forall>b. denote es b = (if seg_offset s \<le> b \<and> b < seg_offset s + k then Some (tag s, Some (moffset s + (b - seg_offset s))) else None)) \<and>
     (\<forall>e \<in> set es. \<not> zeroed e \<and> seg_offset s \<le> seg_offset e \<and> seg_end e \<le> seg_offset s + k \<and> moffset s \<le> moffset e \<and> mend e \<le> moffset s + k)"

lemma pieces_Cons:
  assumes "0 < n" "n \<le> MAX_LENGTH" "n \<le> k" "seg_offset s + k < 2 ^ 50" "moffset s + k < 2 ^ 55" "tag s < 2 ^ 8" "\<not> zeroed s"
    and "pieces (after_segment n s) (k - n) es"
  shows "pieces s k (s\<lparr>seg_length := n\<rparr> # es)"
proof -
  let ?s = "s\<lparr>seg_length := n\<rparr>"
  have t: "trunc 50 (seg_offset s + n) = seg_offset s + n" "trunc 55 (moffset s + n) = moffset s + n" using assms(3-5) by (auto intro!: trunc_id)
  have es: "segs_ok es" "\<And>b. denote es b = (if seg_offset s + n \<le> b \<and> b < seg_offset s + k then Some (tag s, Some (moffset s + n + (b - (seg_offset s + n)))) else None)"
    "\<And>e. e \<in> set es \<Longrightarrow> \<not> zeroed e \<and> seg_offset s + n \<le> seg_offset e \<and> seg_end e \<le> seg_offset s + k \<and> moffset s + n \<le> moffset e \<and> mend e \<le> moffset s + k"
    using assms(3,8) by (auto simp: pieces_def after_segment_def t)
  have w: "wf_map ?s" using assms by (auto simp: wf_map_def wf_seg_def seg_end_def)
  have "segs_ok (?s # es)" using es(1,3) w by (auto simp: seg_less_def seg_end_def)
  moreover have "denote (?s # es) b = (if seg_offset s \<le> b \<and> b < seg_offset s + k then Some (tag s, Some (moffset s + (b - seg_offset s))) else None)" for b
    using assms(3,7) es(2) [of b] by (auto simp: covers_def seg_end_def target_def)
  moreover have "\<not> zeroed e \<and> seg_offset s \<le> seg_offset e \<and> seg_end e \<le> seg_offset s + k \<and> moffset s \<le> moffset e \<and> mend e \<le> moffset s + k"
    if "e \<in> set (?s # es)" for e
    using that es(3) [of e] assms(3,7) by (auto simp: seg_end_def mend_def)
  ultimately show ?thesis unfolding pieces_def by blast
qed

lemma pcopy_loop_spec:
  assumes P: "file_laws P content pos" "full_reads P content" "full_writes P"
    and len: "seg_offset s + k < 2 ^ 50" "moffset s + k < 2 ^ 55" "off + k * ALIGNMENT \<le> length (content src)"
    and s: "seg_length s = 0" "\<not> zeroed s" "tag s < 2 ^ 8" and dest: "pos dest = length (content dest)"
  shows "\<exists>dest' es. pcopy_loop P src dest off (k * ALIGNMENT) bytes s index = (int ((bytes + k * ALIGNMENT) div ALIGNMENT), dest', index @ es) \<and>
    content dest' = content dest @ take (k * ALIGNMENT) (drop off (content src)) \<and> pos dest' = length (content dest') \<and> pieces s k es"
  using len s dest
proof (induction k arbitrary: s off dest bytes index rule: less_induct)
  case (less k)
  show ?case
  proof (cases "k = 0")
    case True
    then show ?thesis using less.prems by (intro exI [of _ dest] exI [of _ "[]"]) (simp add: pcopy_loop.simps pieces_def)
  next
    case False
    define n where "n = min k 64"
    have n: "0 < n" "n \<le> k" "n \<le> MAX_LENGTH" using False by (auto simp: n_def MAX_LENGTH_def)
    have step: "min (k * ALIGNMENT) BUFFER_SIZE = n * ALIGNMENT" by (simp add: n_def BUFFER_SIZE_def ALIGNMENT_def min_def)
    let ?c = "content src"
    have le: "n * ALIGNMENT \<le> length ?c - off" "off + n * ALIGNMENT + (k - n) * ALIGNMENT \<le> length ?c"
      using less.prems(3) n(2) by (auto simp: diff_mult_distrib intro: le_trans [OF mult_le_mono1])
    define buf where "buf = take (n * ALIGNMENT) (drop off ?c)"
    have buf: "length buf = n * ALIGNMENT" "io_pread P src (n * ALIGNMENT) off = (int (n * ALIGNMENT), buf)"
      using le(1) io_pread_full [OF P(2), of src "n * ALIGNMENT" off] by (simp_all add: buf_def)
    note sc = scan_buffer_spec [OF n(1,3) buf(1) less.prems(4,5), of index]
    from full_write [OF P(1,3) less.prems(7), of buf] obtain d where
      d: "io_write P dest buf = (int (n * ALIGNMENT), d)" "content d = content dest @ buf" "pos d = length (content d)" using buf(1) by metis
    let ?s = "after_segment n s"
    have t: "trunc 50 (seg_offset s + n) = seg_offset s + n" "trunc 55 (moffset s + n) = moffset s + n"
      using less.prems(1,2) n(2) by (auto intro!: trunc_id)
    have s': "seg_length ?s = 0" "\<not> zeroed ?s" "tag ?s < 2 ^ 8" "seg_offset ?s + (k - n) < 2 ^ 50" "moffset ?s + (k - n) < 2 ^ 55"
      using less.prems n(2) by (simp_all add: after_segment_def t)
    have "k - n < k" using n(1,2) by simp
    from less.IH [OF this s'(4,5) le(2) s'(1-3) d(3), of "bytes + n * ALIGNMENT" "index @ [s\<lparr>seg_length := n\<rparr>]"] obtain dest' es where
      r: "pcopy_loop P src d (off + n * ALIGNMENT) ((k - n) * ALIGNMENT) (bytes + n * ALIGNMENT) ?s (index @ [s\<lparr>seg_length := n\<rparr>]) =
         (int ((bytes + n * ALIGNMENT + (k - n) * ALIGNMENT) div ALIGNMENT), dest', (index @ [s\<lparr>seg_length := n\<rparr>]) @ es)"
      "content dest' = content d @ take ((k - n) * ALIGNMENT) (drop (off + n * ALIGNMENT) ?c)" "pos dest' = length (content dest')" "pieces ?s (k - n) es"
      by blast
    have km: "k * ALIGNMENT - n * ALIGNMENT = (k - n) * ALIGNMENT" "n * ALIGNMENT + (k - n) * ALIGNMENT = k * ALIGNMENT"
      using n(2) by (simp_all add: diff_mult_distrib)
    have A0: "0 < ALIGNMENT" by (simp add: ALIGNMENT_def)
    then have "buf \<noteq> []" using buf(1) n(1) by auto
    have data: "buf @ take ((k - n) * ALIGNMENT) (drop (off + n * ALIGNMENT) ?c) = take (k * ALIGNMENT) (drop off ?c)"
      using take_add [of "n * ALIGNMENT" "(k - n) * ALIGNMENT" "drop off ?c"] km(2) by (simp add: buf_def add.commute)
    have "pcopy_loop P src dest off (k * ALIGNMENT) bytes s index =
        pcopy_loop P src d (off + n * ALIGNMENT) ((k - n) * ALIGNMENT) (bytes + n * ALIGNMENT) ?s (index @ [s\<lparr>seg_length := n\<rparr>])"
      using False n(1) A0 \<open>buf \<noteq> []\<close> by (subst pcopy_loop.simps) (simp add: step sc buf d(1) km(1) Let_def)
    moreover have "pieces s k (s\<lparr>seg_length := n\<rparr> # es)"
      using pieces_Cons [OF n(1,3,2) less.prems(1,2,6,5) r(4)] .
    ultimately show ?thesis
      using r(1-3) d(2) km(2) data by (intro exI [of _ dest'] exI [of _ "s\<lparr>seg_length := n\<rparr> # es"]) (simp add: add.assoc)
  qed
qed

lemma file_block_cut:
  assumes "j < k" "(a + k) * ALIGNMENT \<le> length c"
  shows "file_block (take (k * ALIGNMENT) (drop (a * ALIGNMENT) c)) j = file_block c (a + j)"
proof -
  have "ALIGNMENT \<le> k * ALIGNMENT - j * ALIGNMENT"
    using assms(1) by (metis diff_mult_distrib mult_le_mono1 nat_mult_1 Suc_leI zero_less_diff One_nat_def)
  moreover have "(a + j + 1) * ALIGNMENT \<le> (a + k) * ALIGNMENT" using assms(1) by (intro mult_le_mono1) simp
  then have "(a + j) * ALIGNMENT + ALIGNMENT \<le> length c" using assms(2) by simp
  moreover from this have "ALIGNMENT \<le> length c - (a + j) * ALIGNMENT" by simp
  ultimately show ?thesis
    by (simp add: file_block_def drop_take add_mult_distrib add.commute)
qed

text \<open>The effect of copying mappings, one or many, to the position \<open>moff\<close> (in blocks).\<close>

definition copies :: "('f \<Rightarrow> u8 list) \<Rightarrow> ('f \<Rightarrow> nat) \<Rightarrow> 'f list \<Rightarrow> SegmentMapping list \<Rightarrow> 'f \<Rightarrow> nat \<Rightarrow> 'f \<Rightarrow> nat \<Rightarrow> SegmentMapping list \<Rightarrow> bool" where
  "copies content pos files ms dest moff dest' moff' es \<longleftrightarrow>
     (\<exists>d. content dest' = content dest @ d) \<and> length (content dest') = moff' * ALIGNMENT \<and> pos dest' = length (content dest') \<and>
     moff \<le> moff' \<and> segs_ok es \<and> (\<forall>b. copied (map content files) (content dest') (denote ms b) (denote es b)) \<and>
     (\<forall>e \<in> set es. moff \<le> moffset e \<and> mend e \<le> moff' \<and> (\<exists>m \<in> set ms. seg_offset m \<le> seg_offset e \<and> seg_end e \<le> seg_end m))"

definition stored :: "('f \<Rightarrow> u8 list) \<Rightarrow> 'f list \<Rightarrow> SegmentMapping \<Rightarrow> bool" where
  "stored content files m \<longleftrightarrow> zeroed m \<or> (tag m < length files \<and> mend m * ALIGNMENT \<le> length (content (files ! tag m)))"

lemma pcopy_spec:
  assumes P: "file_laws P content pos" "full_reads P content" "full_writes P"
    and m: "wf_map m" "\<not> zeroed m" "stored content files m" "moff + seg_length m < 2 ^ 55"
    and dest: "pos dest = length (content dest)" "length (content dest) = moff * ALIGNMENT"
  shows "\<exists>dest' es. pcopy P files dest m moff index = Some (int (seg_length m), dest', index @ es) \<and>
    copies content pos files [m] dest moff dest' (moff + seg_length m) es"
proof -
  let ?s = "new_SegmentMapping (seg_offset m) 0 moff (tag m)" and ?c = "content (files ! tag m)"
  have b: "seg_offset m < 2 ^ 50" "moff < 2 ^ 55" "tag m < 2 ^ 8" "seg_end m < 2 ^ 50" using m(4) wf_mapD[OF m(1)] m(1) by (auto simp: wf_map_def)
  have s: "seg_offset ?s = seg_offset m" "moffset ?s = moff" "tag ?s = tag m" "seg_length ?s = 0" "\<not> zeroed ?s"
    using trunc_id [OF b(1)] trunc_id [OF b(2)] trunc_id [OF b(3)] trunc_id [of 0 14] by (simp_all add: new_SegmentMapping_def)
  have me: "mend m = moffset m + seg_length m" "tag m < length files" "(moffset m + seg_length m) * ALIGNMENT \<le> length ?c"
    using m(2,3) by (auto simp: mend_def stored_def)
  have "seg_offset ?s + seg_length m < 2 ^ 50" "moffset ?s + seg_length m < 2 ^ 55" "moffset m * ALIGNMENT + seg_length m * ALIGNMENT \<le> length ?c" "tag ?s < 2 ^ 8"
    using b(3,4) m(4) me(3) unfolding s by (simp_all add: seg_end_def add_mult_distrib)
  from pcopy_loop_spec [OF P this(1-3) s(4,5) this(4) dest(1), of 0 index] obtain dest' es where
    r: "pcopy_loop P (files ! tag m) dest (moffset m * ALIGNMENT) (seg_length m * ALIGNMENT) 0 ?s index =
         (int ((0 + seg_length m * ALIGNMENT) div ALIGNMENT), dest', index @ es)"
      "content dest' = content dest @ take (seg_length m * ALIGNMENT) (drop (moffset m * ALIGNMENT) ?c)"
      "pos dest' = length (content dest')" "pieces ?s (seg_length m) es" by blast
  have len: "length (content dest') = (moff + seg_length m) * ALIGNMENT"
    using r(2) me(3) dest(2) by (simp add: add_mult_distrib)
  have "copied (map content files) (content dest') (denote [m] b) (denote es b)" for b
  proof (cases "covers m b")
    case True
    define j where "j = b - seg_offset m"
    have j: "j < seg_length m" "b = seg_offset m + j" using True by (auto simp: covers_def seg_end_def j_def)
    have "file_block (content dest') (moff + j) = file_block ?c (moffset m + j)"
      unfolding r(2) using file_block_shift [OF dest(2)] file_block_cut [OF j(1) me(3)] by simp
    moreover have "(moff + j + 1) * ALIGNMENT \<le> length (content dest')" unfolding len using j(1) by (intro mult_le_mono1) simp
    moreover have "denote es b = Some (tag m, Some (moff + j))" using r(4) j(1) unfolding pieces_def s by (simp add: j(2))
    moreover have "map content files ! tag m = ?c" using me(2) by simp
    ultimately show ?thesis using True m(2) by (simp add: copied_def target_def j_def)
  next
    case False
    then have "denote es b = None" using r(4) unfolding pieces_def s by (auto simp: covers_def seg_end_def)
    then show ?thesis using False by (simp add: copied_def)
  qed
  then have "copies content pos files [m] dest moff dest' (moff + seg_length m) es"
    using r(2,3,4) len unfolding copies_def pieces_def s by (auto simp: seg_end_def)
  moreover have "pcopy P files dest m moff index = Some (int (seg_length m), dest', index @ es)"
    using me(2) r(1) by (simp add: pcopy_def ALIGNMENT_def)
  ultimately show ?thesis by blast
qed

lemma copied_None [simp]: "copied fs c None t' \<longleftrightarrow> t' = None"
  by (simp add: copied_def)

lemma copied_Some: "copied fs c (Some t) t' \<Longrightarrow> \<exists>t''. t' = Some t''"
  by (auto simp: copied_def split: option.splits prod.splits)

lemma copies_append:
  assumes 1: "copies content pos files ms1 dest moff d1 moff1 es1" and 2: "copies content pos files ms2 d1 moff1 d2 moff2 es2"
    and ok: "segs_ok (ms1 @ ms2)"
  shows "copies content pos files (ms1 @ ms2) dest moff d2 moff2 (es1 @ es2)"
proof -
  from 1 2 obtain x y where xy: "content d1 = content dest @ x" "content d2 = content d1 @ y" by (auto simp: copies_def)
  have "seg_less a e" if "a \<in> set es1" "e \<in> set es2" for a e
  proof -
    from 1 2 that obtain m n where "m \<in> set ms1" "seg_end a \<le> seg_end m" "n \<in> set ms2" "seg_offset n \<le> seg_offset e"
      unfolding copies_def by meson
    moreover from this ok have "seg_end m \<le> seg_offset n" by (auto simp: segs_ok_append seg_less_def)
    ultimately show ?thesis by (simp add: seg_less_def)
  qed
  then have "segs_ok (es1 @ es2)" using 1 2 by (auto simp: copies_def segs_ok_append)
  moreover have "copied (map content files) (content d2) (denote (ms1 @ ms2) b) (denote (es1 @ es2) b)" for b
  proof (cases "denote ms1 b")
    case None
    moreover have "copied (map content files) (content d1) (denote ms1 b) (denote es1 b)" using 1 by (simp add: copies_def)
    ultimately have "denote es1 b = None" by simp
    then show ?thesis using None 2 by (simp add: copies_def denote_append)
  next
    case (Some t)
    moreover have c: "copied (map content files) (content d1) (denote ms1 b) (denote es1 b)" using 1 by (simp add: copies_def)
    ultimately obtain t' where "denote es1 b = Some t'" using copied_Some by metis
    then show ?thesis using Some copied_append [OF c, of y] xy(2) by (simp add: denote_append)
  qed
  moreover have "moff \<le> moffset e \<and> mend e \<le> moff2 \<and> (\<exists>m \<in> set (ms1 @ ms2). seg_offset m \<le> seg_offset e \<and> seg_end e \<le> seg_end m)"
    if "e \<in> set (es1 @ es2)" for e
  proof -
    have "moff \<le> moff1" "moff1 \<le> moff2" using 1 2 by (simp_all add: copies_def)
    with that 1 2 show ?thesis unfolding copies_def by (auto intro: order_trans)
  qed
  ultimately show ?thesis using 1 2 xy unfolding copies_def by auto
qed

lemma copies_zeroed:
  assumes "wf_map m" "zeroed m" "moff < 2 ^ 55" "pos dest = length (content dest)" "length (content dest) = moff * ALIGNMENT"
  shows "copies content pos files [m] dest moff dest moff [m\<lparr>moffset := moff\<rparr>]"
  using assms by (auto simp: copies_def copied_def mend_def wf_map_def wf_seg_def seg_end_def covers_def target_def)

lemma compact_loop_spec:
  assumes P: "file_laws P content pos" "full_reads P content" "full_writes P"
    and ms: "segs_ok ms" "\<forall>m \<in> set ms. stored content files m" "moff + blocks_sum ms < 2 ^ 55"
    and dest: "pos dest = length (content dest)" "length (content dest) = moff * ALIGNMENT"
  shows "\<exists>dest' es. compact_loop P files dest ms moff index = Some (0, dest', moff + blocks_sum ms, index @ es) \<and>
    copies content pos files ms dest moff dest' (moff + blocks_sum ms) es"
  using ms dest
proof (induction ms arbitrary: dest moff index)
  case Nil
  then show ?case by (simp add: copies_def)
next
  case (Cons m ms)
  have w: "wf_map m" "segs_ok ms" "segs_ok ([m] @ ms)" "stored content files m" "\<forall>m \<in> set ms. stored content files m" using Cons.prems by simp_all
  show ?case
  proof (cases "zeroed m")
    case True
    then have sb: "seg_blocks m = 0" by (simp add: seg_blocks_def)
    have mo: "moff < 2 ^ 55" using Cons.prems(3) by simp
    then have t: "trunc 55 moff = moff" by (intro trunc_id) simp
    have z: "copies content pos files [m] dest moff dest moff [m\<lparr>moffset := moff\<rparr>]"
      by (rule copies_zeroed [OF w(1) True mo]) (fact Cons.prems)+
    from Cons.IH [OF w(2,5) _ Cons.prems(4,5), of "index @ [m\<lparr>moffset := moff\<rparr>]"] Cons.prems(3) sb obtain dest' es where
      r: "compact_loop P files dest ms moff (index @ [m\<lparr>moffset := moff\<rparr>]) = Some (0, dest', moff + blocks_sum ms, (index @ [m\<lparr>moffset := moff\<rparr>]) @ es)"
      "copies content pos files ms dest moff dest' (moff + blocks_sum ms) es" by auto
    from copies_append [OF z r(2) w(3)] r(1) show ?thesis
      using True t sb by (intro exI [of _ dest'] exI [of _ "m\<lparr>moffset := moff\<rparr> # es"]) simp
  next
    case False
    then have sb: "seg_blocks m = seg_length m" by (simp add: seg_blocks_def)
    have mo: "moff + seg_length m < 2 ^ 55" "moff + seg_length m + blocks_sum ms < 2 ^ 55" using Cons.prems(3) sb by simp_all
    then have t: "trunc 64 (moff + seg_length m) = moff + seg_length m" by (intro trunc_id) simp
    from pcopy_spec [OF P w(1) False w(4) mo(1) Cons.prems(4,5), of index] obtain d1 es1 where
      c: "pcopy P files dest m moff index = Some (int (seg_length m), d1, index @ es1)"
      "copies content pos files [m] dest moff d1 (moff + seg_length m) es1" by blast
    then have "pos d1 = length (content d1)" "length (content d1) = (moff + seg_length m) * ALIGNMENT" by (simp_all add: copies_def)
    from Cons.IH [OF w(2,5) mo(2) this, of "index @ es1"] obtain dest' es where
      r: "compact_loop P files d1 ms (moff + seg_length m) (index @ es1) = Some (0, dest', moff + seg_length m + blocks_sum ms, (index @ es1) @ es)"
      "copies content pos files ms d1 (moff + seg_length m) dest' (moff + seg_length m + blocks_sum ms) es" by blast
    have "compact_loop P files dest (m # ms) moff index = Some (0, dest', moff + blocks_sum (m # ms), index @ (es1 @ es))"
      using False c(1) r(1) t sb by (simp add: add.assoc)
    moreover have "copies content pos files (m # ms) dest moff dest' (moff + blocks_sum (m # ms)) (es1 @ es)"
      using copies_append [OF c(2) r(2) w(3)] sb by (simp add: add.assoc)
    ultimately show ?thesis by blast
  qed
qed


section \<open>Writing the index\<close>

lemma joined_mend: "mergeable a b \<Longrightarrow> mend (joined a b) = mend b"
  using joined_laws [of a b] by (auto simp: mergeable_def mend_def split: if_splits)

lemma compress_loop_bounds:
  assumes "\<forall>e \<in> set (cur # ms). lo \<le> moffset e \<and> mend e \<le> hi"
  shows "\<forall>e \<in> set (compress_loop cur ms). lo \<le> moffset e \<and> mend e \<le> hi"
  using assms
proof (induction cur ms rule: compress_loop.induct)
  case (2 cur m ms)
  show ?case
  proof (cases "mergeable cur m")
    case True
    have "moffset (joined cur m) = moffset cur" by (simp add: joined_def)
    then have "\<forall>e \<in> set (joined cur m # ms). lo \<le> moffset e \<and> mend e \<le> hi" using 2(3) joined_mend [OF True] by simp
    from 2(1) [OF True, folded joined_def, OF this] show ?thesis using True by (simp add: joined_def)
  next
    case False
    have "\<forall>e \<in> set (m # ms). lo \<le> moffset e \<and> mend e \<le> hi" using 2(3) by simp
    from 2(2) [OF False this] show ?thesis using False 2(3) by simp
  qed
qed simp

lemma compress_bounds: "\<forall>e \<in> set ms. lo \<le> moffset e \<and> mend e \<le> hi \<Longrightarrow> \<forall>e \<in> set (compress_raw_index ms). lo \<le> moffset e \<and> mend e \<le> hi"
  by (cases ms) (simp, metis compress_loop_bounds compress_raw_index.simps(2))

lemma length_segs: "segs_ok ms \<Longrightarrow> ms \<noteq> [] \<Longrightarrow> length ms \<le> seg_end (last ms)"
proof (induction ms rule: rev_induct)
  case (snoc m ms)
  then have "seg_offset m < seg_end m" by (simp add: segs_ok_append wf_mapD(2))
  moreover have "ms \<noteq> [] \<longrightarrow> seg_end (last ms) \<le> seg_offset m" using snoc.prems(1) by (simp add: segs_ok_append seg_less_def)
  ultimately show ?case using snoc by (cases "ms = []") (simp_all add: segs_ok_append)
qed simp

lemma length_segs_less: "segs_ok ms \<Longrightarrow> length ms < 2 ^ 50"
  using length_segs [of ms] wf_mapD(4) [of "last ms"] by (cases "ms = []") (auto simp: segs_ok_def intro: order_le_less_trans)

lemma pad_index_laws:
  shows "length (pad_index ms) mod INDEX_PAGE = 0" "length (pad_index ms) \<le> length ms + INDEX_PAGE" "filter is_valid (pad_index ms) = filter is_valid ms"
    "\<forall>m \<in> set ms. fields_ok m \<Longrightarrow> \<forall>m \<in> set (pad_index ms). fields_ok m"
proof -
  have p: "INDEX_PAGE = 256" by (simp add: INDEX_PAGE_def SIZEOF_MAPPING_def)
  have i: "\<not> is_valid invalid_mapping" by (simp add: is_valid_def invalid_mapping_def new_SegmentMapping_def trunc_def INVALID_OFFSET_def)
  show "length (pad_index ms) mod INDEX_PAGE = 0"
  proof (cases "length ms mod 256 = 0")
    case False
    have "length ms = 256 * (length ms div 256) + length ms mod 256" "length ms mod 256 < 256" by simp_all
    then have "length ms + (256 - length ms mod 256) = 256 * (length ms div 256) + 256" by linarith
    then have "(length ms + (256 - length ms mod 256)) mod 256 = 0" by (simp only: mod_mult_self4 mod_self)
    then show ?thesis using False by (simp add: pad_index_def p Let_def)
  qed (simp add: pad_index_def p)
  show "length (pad_index ms) \<le> length ms + INDEX_PAGE" "filter is_valid (pad_index ms) = filter is_valid ms"
    using i by (simp_all add: pad_index_def Let_def filter_replicate)
  show "\<forall>m \<in> set (pad_index ms). fields_ok m" if "\<forall>m \<in> set ms. fields_ok m" using that by (auto simp: pad_index_def Let_def)
qed

lemma write_index_spec:
  assumes P: "file_laws P content pos" "full_writes P" and f: "pos f = length (content f)" and ms: "length ms mod INDEX_PAGE = 0"
  shows "\<exists>f'. write_index P f ms = Some f' \<and> content f' = content f @ index_bytes ms \<and> pos f' = length (content f')"
  using f ms
proof (induction ms arbitrary: f rule: length_induct)
  case (1 ms)
  show ?case
  proof (cases "ms = []")
    case True
    then show ?thesis using 1(2) by (simp add: write_index.simps)
  next
    case False
    have p: "INDEX_PAGE = 256" by (simp add: INDEX_PAGE_def SIZEOF_MAPPING_def)
    have n: "INDEX_PAGE \<le> length ms" using False 1(3) by (cases "length ms < INDEX_PAGE") simp_all
    let ?bs = "index_bytes (take INDEX_PAGE ms)"
    have len: "length ?bs = 4096" using n by (simp add: p SIZEOF_MAPPING_def)
    from full_write [OF P 1(2), of ?bs] obtain f1 where
      f1: "io_write P f ?bs = (int (length ?bs), f1)" "content f1 = content f @ ?bs" "pos f1 = length (content f1)" by blast
    have "length (drop INDEX_PAGE ms) < length ms" "length (drop INDEX_PAGE ms) mod INDEX_PAGE = 0"
      using n False 1(3) p by (simp_all add: mod_diff_eq le_mod_geq)
    then obtain f' where
      f': "write_index P f1 (drop INDEX_PAGE ms) = Some f'" "content f' = content f1 @ index_bytes (drop INDEX_PAGE ms)" "pos f' = length (content f')"
      using 1(1) f1(3) by meson
    have "index_bytes ms = ?bs @ index_bytes (drop INDEX_PAGE ms)" by (simp flip: index_bytes_simps(3))
    moreover have "io_write P f ?bs = (4096, f1)" using f1(1) unfolding len by simp
    then have "write_index P f ms = Some f'" using False f'(1) by (subst write_index.simps) simp
    ultimately show ?thesis using f'(2,3) f1(2) by simp
  qed
qed


section \<open>A committed layer can be opened\<close>

definition untag :: "SegmentMapping \<Rightarrow> SegmentMapping" where
  "untag m = m\<lparr>tag := 0\<rparr>"

lemma keep_valid_untag: "keep_valid 0 ms = map untag (filter is_valid ms)"
proof -
  have "rebuild_tag 0 k = (\<lambda>m. m)" for k by (simp add: rebuild_tag_def fun_eq_iff)
  then show ?thesis by (simp add: keep_valid_def is_valid_def [abs_def] untag_def [abs_def] Let_def)
qed

lemma denote_untag: "denote (map untag ms) b = map_option (\<lambda>(t, n). (0, n)) (denote ms b)"
  by (induction ms) (auto simp: untag_def covers_def seg_end_def target_def)

lemma segs_ok_untag: "segs_ok ms \<Longrightarrow> segs_ok (map untag ms)"
  by (rule segs_ok_retag) (auto simp: retags_def untag_def seg_end_def wf_map_def wf_seg_def)

lemma create_checked:
  assumes "segs_ok ms" "\<forall>m \<in> set ms. lo \<le> moffset m \<and> mend m \<le> hi"
  shows "create_memory_index ms lo hi vsize = Some (new_Index ms vsize)"
proof -
  have "within (moffset m) (mend m) lo hi (zeroed m)" if "m \<in> set ms" for m
    using assms that wf_mapD(1) [of m] by (auto simp: within_def mend_def segs_ok_def split: if_splits)
  then show ?thesis using assms(1) verify_mapping_order_iff [of ms] by (simp add: create_memory_index_def verify_mapping_moffset_def list_all_iff segs_ok_def)
qed

lemma verify_trailer:
  assumes P: "file_laws P content pos" "full_reads P content" and f: "content f = c @ ht_page t"
    and t: "ht_ok t" "verify_magic t" "\<not> is_header t" "is_data_file t" "is_sealed t"
  shows "verify_ht P f True (int (length (content f))) = Some t"
proof -
  have n: "int (length (content f)) - int SPACE = int (length c)" using f t(1) by simp
  have "io_pread P f SPACE (length c) = (int SPACE, ht_page t)" using io_pread_full [OF P(2), of f SPACE "length c"] f t(1) by simp
  then show ?thesis using t ht_of_page [OF t(1), of "[]"] n by (simp add: verify_ht_def Let_def)
qed

lemma load_committed:
  assumes P: "file_laws P content pos" "full_reads P content" and f: "content f = ht_page h @ d @ index_bytes es @ ht_page t"
    and h: "ht_ok h" "verify_magic h" "is_header h" "is_data_file h" "\<not> is_sparse_rw h"
    and t: "ht_ok t" "verify_magic t" "\<not> is_header t" "is_data_file t" "is_sealed t" "index_offset t = SPACE + length d" "index_size t = length es"
    and es: "\<forall>e \<in> set es. fields_ok e" "length (content f) < 2 ^ 64"
  shows "do_load_index P f True 0 = Some (Some (t\<lparr>index_size := length (keep_valid 0 es)\<rparr>, keep_valid 0 es))"
proof -
  have len: "length (content f) = SPACE + length d + SIZEOF_MAPPING * length es + SPACE" using f h(1) t(1) by simp
  have v: "verify_ht P f False (- 1) = Some h" using f h by (intro verify_header [OF P(2)]) simp_all
  have "content f = (ht_page h @ d @ index_bytes es) @ ht_page t" using f by simp
  note vt = verify_trailer [OF P this t(1-5)]
  have n: "trunc 64 (length es * SIZEOF_MAPPING) = SIZEOF_MAPPING * length es"
    using es(2) len trunc_id [of "length es * SIZEOF_MAPPING" 64] by (simp add: mult.commute)
  have sb: "sub64 (sub64 (length (content f)) SPACE) (SPACE + length d) = SIZEOF_MAPPING * length es"
    using es(2) len sub64_eq [of SPACE "length (content f)"] sub64_eq [of "SPACE + length d" "length (content f) - SPACE"] by simp
  have r: "io_pread P f (SIZEOF_MAPPING * length es) (SPACE + length d) = (int (SIZEOF_MAPPING * length es), index_bytes es)"
    using io_pread_full [OF P(2), of f "SIZEOF_MAPPING * length es" "SPACE + length d"] len f h(1) by simp
  have m: "mappings_of (length es) (index_bytes es) = es" using index_roundtrip [OF es(1), of "length es" "[]"] by simp
  show ?thesis
    using h(4,5) v vt n sb r m t(6,7) io_size_law [OF P(1), of f] by (simp add: do_load_index_def Let_def mult.commute)
qed


section \<open>Compaction keeps the device\<close>

lemma le_nat_less: "le_nat bs < 256 ^ length bs"
proof (induction bs)
  case (Cons b bs)
  have "unat b < 256" using unsigned_less [of b] by simp
  then show ?case using Cons by simp
qed simp

lemma virtual_size_less: "virtual_size (ht_of bs) < 2 ^ 64"
proof -
  have "le_nat (take 8 xs) < 256 ^ 8" for xs
  proof -
    have "(256 :: nat) ^ length (take 8 xs) \<le> 256 ^ 8" by (intro power_increasing) simp_all
    then show ?thesis using le_nat_less [of "take 8 xs"] by linarith
  qed
  then show ?thesis by (simp add: ht_of_def ht_layout_def Let_def)
qed

text \<open>
  The tag of a commit fits, the texts of UUIDs have 37 bytes, and the header can be read from the files.
\<close>

definition args_ok :: "CommitArgs \<Rightarrow> bool" where
  "args_ok a \<longleftrightarrow> (\<exists>n. get_tag_len a = Some n \<and> n \<le> TAG_SIZE \<and> n \<le> length (case ca_user_tag a of None \<Rightarrow> [] | Some t \<Rightarrow> t))"

definition uuid_law :: "'f photon \<Rightarrow> bool" where
  "uuid_law P \<longleftrightarrow> (\<forall>u. length (uuid_string P u) = 37)"

definition header_size :: "('f \<Rightarrow> u8 list) \<Rightarrow> 'f list \<Rightarrow> nat" where
  "header_size content files = virtual_size (ht_of (take SPACE (content (hd files))))"

lemma commit_layer_spec:
  assumes P: "full_reads P content" "uuid_law P" and files: "files \<noteq> []" "\<forall>f \<in> set files. SPACE \<le> length (content f)" and a: "args_ok a"
  shows "\<exists>l1 l2. load_layer_info P files layer False = (0, l1) \<and> commit_layer P a l1 = Some l2 \<and> layer_ok P l2 \<and> \<not> l_sparse_rw l2 \<and>
    l_virtual_size l2 = header_size content files"
proof -
  have f: "hd files \<in> set files" "last files \<in> set files" using files(1) by simp_all
  have r: "io_pread P f SPACE 0 = (int SPACE, take SPACE (content f))" if "f \<in> set files" for f
    using io_pread_full [OF P(1), of f SPACE 0] files(2) that by simp
  from a obtain n where n: "get_tag_len a = Some n" "n \<le> TAG_SIZE" "n \<le> length (case ca_user_tag a of None \<Rightarrow> [] | Some t \<Rightarrow> t)"
    by (auto simp: args_ok_def)
  have "\<exists>p. load_layer_info P files layer False = (0, layer\<lparr>l_virtual_size := header_size content files,
      l_sparse_rw := is_sparse_rw (ht_of (take SPACE (content (hd files)))), l_parent_uuid := p\<rparr>)"
    using r [OF f(1)] r [OF f(2)] by (cases "length files = 1"; simp add: load_layer_info_def header_size_def) (simp_all add: Let_def, blast+)
  then obtain p where p: "load_layer_info P files layer False = (0, layer\<lparr>l_virtual_size := header_size content files,
      l_sparse_rw := is_sparse_rw (ht_of (take SPACE (content (hd files)))), l_parent_uuid := p\<rparr>)" by blast
  show ?thesis
    unfolding p using n P(2) virtual_size_less by (simp add: commit_layer_def layer_ok_def uuid_law_def header_size_def)
qed

lemma block_value_copied:
  assumes "copied fs c t t'"
  shows "block_value [c @ d] (map_option (\<lambda>(t, n). (0, n)) t') = block_value fs t"
  using assms file_block_append by (auto simp: copied_def block_value_def split: option.splits prod.splits)

text \<open>The layout of the new file.\<close>

definition committed :: "('f \<Rightarrow> u8 list) \<Rightarrow> 'f \<Rightarrow> nat \<Rightarrow> SegmentMapping list \<Rightarrow> nat \<Rightarrow> bool" where
  "committed content f moff es vs \<longleftrightarrow>
     (\<exists>h t d. content f = ht_page h @ d @ index_bytes (pad_index es) @ ht_page t \<and> length d + SPACE = moff * ALIGNMENT \<and>
        ht_ok h \<and> verify_magic h \<and> is_header h \<and> is_data_file h \<and> \<not> is_sparse_rw h \<and>
        ht_ok t \<and> verify_magic t \<and> \<not> is_header t \<and> is_data_file t \<and> is_sealed t \<and> index_offset t = moff * ALIGNMENT \<and>
        index_size t = length (pad_index es) \<and> virtual_size t = vs)"

lemma open_committed:
  assumes P: "file_laws P content pos" "full_reads P content" and c: "committed content f moff es vs"
    and es: "segs_ok es" "\<forall>e \<in> set es. SPACE div ALIGNMENT \<le> moffset e \<and> mend e \<le> moff" and len: "length (content f) < 2 ^ 64"
  shows "\<exists>u. open_file_ro P f ownership = Some (Some (new_LSMTReadOnlyFile [f] [u] (RO (new_Index (map untag es) 0)) vs ownership))"
proof -
  from c obtain h t d where f: "content f = ht_page h @ d @ index_bytes (pad_index es) @ ht_page t" "length d + SPACE = moff * ALIGNMENT"
    and h: "ht_ok h" "verify_magic h" "is_header h" "is_data_file h" "\<not> is_sparse_rw h"
    and t: "ht_ok t" "verify_magic t" "\<not> is_header t" "is_data_file t" "is_sealed t" "index_offset t = moff * ALIGNMENT"
      "index_size t = length (pad_index es)" "virtual_size t = vs"
    by (auto simp: committed_def)
  have w: "\<forall>e \<in> set es. wf_map e" using es(1) by (simp add: segs_ok_def)
  then have "filter is_valid (pad_index es) = es" using invalid_covers pad_index_laws(3) by (simp add: filter_id_conv)
  then have kv: "keep_valid 0 (pad_index es) = map untag es" by (simp add: keep_valid_untag)
  have "\<forall>e \<in> set (pad_index es). fields_ok e" using w wf_fields_ok by (intro pad_index_laws(4)) simp
  from load_committed [OF P f(1) h t(1-5) _ t(7) this len] t(6) f(2) have
    l: "do_load_index P f True 0 = Some (Some (t\<lparr>index_size := length es\<rparr>, map untag es))" by (simp add: kv add.commute)
  have "\<forall>m \<in> set (map untag es). SPACE div ALIGNMENT \<le> moffset m \<and> mend m \<le> moff" using es(2) by (auto simp: untag_def mend_def)
  from create_checked [OF segs_ok_untag [OF es(1)] this] have
    "create_memory_index (map untag es) (SPACE div ALIGNMENT) (index_offset t div ALIGNMENT) 0 = Some (new_Index (map untag es) 0)"
    by (simp add: t(6) ALIGNMENT_def)
  then show ?thesis using l t(8) by (intro exI [of _ "parse_uuid P (uuid t)"]) (simp add: open_file_ro_def)
qed

lemma compact_spec:
  assumes P: "file_laws P content pos" "full_reads P content" "full_writes P" "uuid_law P"
    and files: "files \<noteq> []" "\<forall>f \<in> set files. SPACE \<le> length (content f)" and a: "args_ok a"
    and ms: "segs_ok ms" "\<forall>m \<in> set ms. stored content files m" and dest: "content dest = []" "pos dest = 0"
  shows "\<exists>d es. compact P files ms a layer dest = Some (0, d) \<and> committed content d (8 + blocks_sum ms) es (header_size content files) \<and>
    segs_ok es \<and> (\<forall>e \<in> set es. 8 \<le> moffset e \<and> mend e \<le> 8 + blocks_sum ms) \<and> length (content d) < 2 ^ 64 \<and>
    (\<forall>b. block_value [content d] (map_option (\<lambda>(t, n). (0, n)) (denote es b)) = block_value (map content files) (denote ms b))"
proof -
  from commit_layer_spec [OF P(2,4) files a, of layer] obtain l1 l2 where
    l: "load_layer_info P files layer False = (0, l1)" "commit_layer P a l1 = Some l2" "layer_ok P l2" "\<not> l_sparse_rw l2"
      "l_virtual_size l2 = header_size content files" by blast
  have bs: "blocks_sum ms < 2 ^ 50" using ms(1) by (rule blocks_sum_less)
  have z: "(0 :: nat) < 2 ^ 64" by simp
  from write_header_trailer_spec [OF l(3) z z, of dest True True True] obtain h where
    h: "write_header_trailer P dest True True True 0 0 l2 = Some (io_write P dest (ht_page h))" "ht_ok h" "verify_magic h" "is_header h" "is_data_file h" "\<not> is_sparse_rw h"
    using l(4) by metis
  from full_write [OF P(1,3), of dest "ht_page h"] dest obtain d0 where
    d0: "io_write P dest (ht_page h) = (int SPACE, d0)" "content d0 = ht_page h" "pos d0 = length (content d0)" using h(2) by auto
  have A: "SPACE div ALIGNMENT = 8" "SPACE = 8 * ALIGNMENT" by (simp_all add: SPACE_def ALIGNMENT_def)
  have "8 + blocks_sum ms < 2 ^ 55" "length (content d0) = 8 * ALIGNMENT" using bs d0(2) h(2) A by simp_all
  from compact_loop_spec [OF P(1-3) ms this(1) d0(3) this(2), of "[]"] obtain d1 es0 where
    c: "compact_loop P files d0 ms 8 [] = Some (0, d1, 8 + blocks_sum ms, es0)" "copies content pos files ms d0 8 d1 (8 + blocks_sum ms) es0" by auto
  define mo where "mo = 8 + blocks_sum ms"
  define es where "es = compress_raw_index es0"
  from c(2) obtain data where d1: "content d1 = ht_page h @ data" "length (content d1) = mo * ALIGNMENT" "pos d1 = length (content d1)" "segs_ok es0"
    "\<forall>b. copied (map content files) (content d1) (denote ms b) (denote es0 b)" "\<forall>e \<in> set es0. 8 \<le> moffset e \<and> mend e \<le> mo"
    unfolding copies_def d0(2) mo_def by blast
  have es: "segs_ok es" "\<forall>b. denote es b = denote es0 b" "\<forall>e \<in> set es. 8 \<le> moffset e \<and> mend e \<le> mo"
    using compress_ok [OF d1(4)] compress_bounds [OF d1(6)] by (simp_all add: es_def)
  from write_index_spec [OF P(1,3) d1(3) pad_index_laws(1) [of es]] obtain d2 where
    d2: "write_index P d1 (pad_index es) = Some d2" "content d2 = content d1 @ index_bytes (pad_index es)" "pos d2 = length (content d2)" by blast
  obtain d3 where d3: "io_end P d2 = (int (length (content d2)), d3)" "content d3 = content d2" "pos d3 = length (content d3)"
    by (metis io_end_law [OF P(1)])
  have n: "length (pad_index es) < 2 ^ 50 + 256"
    using length_segs_less [OF es(1)] pad_index_laws(2) [of es] by (simp add: INDEX_PAGE_def SIZEOF_MAPPING_def)
  have mA: "mo * ALIGNMENT < 2 ^ 60" using bs by (simp add: mo_def ALIGNMENT_def)
  then have tm: "trunc 64 (mo * ALIGNMENT) = mo * ALIGNMENT" by (intro trunc_id) simp
  have "mo * ALIGNMENT < 2 ^ 64" "length (pad_index es) < 2 ^ 64" using n mA by simp_all
  from write_header_trailer_spec [OF l(3) this, of d3 False True True] obtain t where
    t: "write_header_trailer P d3 False True True (mo * ALIGNMENT) (length (pad_index es)) l2 = Some (io_write P d3 (ht_page t))"
      "ht_ok t" "verify_magic t" "\<not> is_header t" "is_data_file t" "is_sealed t" "index_offset t = mo * ALIGNMENT" "index_size t = length (pad_index es)"
      "virtual_size t = header_size content files"
    using l(5) by metis
  from full_write [OF P(1,3) d3(3), of "ht_page t"] obtain d where
    d: "io_write P d3 (ht_page t) = (int SPACE, d)" "content d = content d3 @ ht_page t" using t(2) by auto
  have "compact P files ms a layer dest = Some (0, d)"
    using l(1,2) h(1) d0(1) c(1) d2(1) d3(1) t(1) d(1) tm by (simp add: compact_def A(1) es_def [symmetric] mo_def [symmetric] Let_def)
  moreover have cd: "content d = ht_page h @ data @ index_bytes (pad_index es) @ ht_page t" by (simp add: d(2) d3(2) d2(2) d1(1))
  moreover have "committed content d mo es (header_size content files)"
    unfolding committed_def using cd d1(1,2) h(2-6) t(2-9) by (intro exI [of _ h] exI [of _ t] exI [of _ data]) simp
  moreover have "length (content d) < 2 ^ 64"
    using d(2) d3(2) d2(2) d1(2) mA n t(2) by (simp add: SIZEOF_MAPPING_def SPACE_def)
  moreover have "block_value [content d] (map_option (\<lambda>(t, n). (0, n)) (denote es b)) = block_value (map content files) (denote ms b)" for b
  proof -
    have "copied (map content files) (content d1) (denote ms b) (denote es b)" using d1(5) es(2) by simp
    moreover have "content d = content d1 @ index_bytes (pad_index es) @ ht_page t" using cd d1(1) by simp
    ultimately show ?thesis using block_value_copied by metis
  qed
  ultimately show ?thesis using es(1,3) unfolding mo_def by blast
qed

text \<open>A device that is compacted and opened again.\<close>

lemma compact_open:
  assumes P: "file_laws P content pos" "full_reads P content" "full_writes P" "uuid_law P"
    and files: "files \<noteq> []" "\<forall>f \<in> set files. SPACE \<le> length (content f)" and a: "args_ok a"
    and ms: "segs_ok ms" "\<forall>m \<in> set ms. stored content files m" and dest: "content dest = []" "pos dest = 0"
  shows "\<exists>d ro. compact P files ms a layer dest = Some (0, d) \<and> open_file_ro P d ownership = Some (Some ro) \<and> readable ro \<and> m_files ro = [d] \<and>
    (\<forall>b. device content ro b = block_value (map content files) (denote ms b)) \<and> m_vsize ro = header_size content files"
proof -
  from compact_spec [OF assms, of layer] obtain d es where
    c: "compact P files ms a layer dest = Some (0, d)" "committed content d (8 + blocks_sum ms) es (header_size content files)" "segs_ok es"
      "\<forall>e \<in> set es. 8 \<le> moffset e \<and> mend e \<le> 8 + blocks_sum ms" "length (content d) < 2 ^ 64"
      "\<forall>b. block_value [content d] (map_option (\<lambda>(t, n). (0, n)) (denote es b)) = block_value (map content files) (denote ms b)" by blast
  have "SPACE div ALIGNMENT = 8" by (simp add: SPACE_def ALIGNMENT_def)
  then obtain u where o: "open_file_ro P d ownership = Some (Some (new_LSMTReadOnlyFile [d] [u] (RO (new_Index (map untag es) 0)) (header_size content files) ownership))"
    using open_committed [OF P(1,2) c(2,3) _ c(5)] c(4) by metis
  have im: "ix_map (new_Index (map untag es) 0) = map untag es" by (simp add: new_Index_def)
  have "readable (new_LSMTReadOnlyFile [d] [u] (RO (new_Index (map untag es) 0)) (header_size content files) ownership)"
    using segs_ok_untag [OF c(3)]
    by (auto simp: new_LSMTReadOnlyFile_def readable_def max_io_ok_def blocks_in_files_def Index_ok_def im denote_untag MAX_LENGTH_def ALIGNMENT_def)
  then show ?thesis
    using c(1,6) o by (intro exI [of _ d] exI) (auto simp: new_LSMTReadOnlyFile_def device_def im denote_untag)
qed


section \<open>Properties\<close>

lemma stored_blocks:
  assumes "segs_ok ms" "\<And>b t n. denote ms b = Some (t, Some n) \<Longrightarrow> t < length files \<and> (n + 1) * ALIGNMENT \<le> length (content (files ! t))"
  shows "\<forall>m \<in> set ms. stored content files m"
proof
  fix m assume m: "m \<in> set ms"
  show "stored content files m"
  proof (cases "zeroed m")
    case False
    have w: "0 < seg_length m" using assms(1) m wf_mapD(1) by (auto simp: segs_ok_def)
    then have "covers m (seg_end m - 1)" by (auto simp: covers_def seg_end_def)
    with denote_in [OF assms(1) m this] False have "denote ms (seg_end m - 1) = Some (tag m, Some (mend m - 1))"
      using w by (simp add: target_def mend_def seg_end_def)
    from assms(2) [OF this] False w show ?thesis by (simp add: stored_def mend_def)
  qed (simp add: stored_def)
qed

text \<open>
  Property C5: committing a layer keeps what was written: after any writes, discards and syncs the layer can be
  committed to an empty file, and opening this file gives a read-only device with the same blocks. Reading
  it needs neither the old data file nor its log.
\<close>

theorem commit_preserves_device:
  fixes fl :: "('f, 'x) LSMTFile_scheme"
  assumes "file_laws P content pos" "full_reads P content" "full_writes P" "uuid_law P"
    and "writable content fl" "group_ok content fl" "length (m_files fl) = 1" "m_index fl = Some (RW i)"
    and "\<forall>op \<in> set ops. dev_ok op" "length (data_of content fl) + sum_list (map dev_bytes ops) < MAX_DATA"
    and "args_ok args" "content dest = []" "pos dest = 0"
  shows "\<exists>fl' d ro. dev_run P ops fl = Some (map dev_result ops, fl') \<and> LSMT_commit P fl' args layer dest = Some (0, d) \<and>
    open_file_ro P d ownership = Some (Some ro) \<and> readable ro \<and> m_files ro = [d] \<and> device content ro = fold abs_dev ops (device content fl)"
proof -
  from dev_run_spec [OF assms(1,3,5,6,9,10)] obtain fl' es where
    r: "dev_run P ops fl = Some (map dev_result ops, fl')" "grown content (sum_list (map dev_bytes ops)) es fl fl'"
      "device content fl' = fold abs_dev ops (device content fl)" by blast
  from r(2) assms(8) obtain j where j: "m_index fl' = Some (RW j)" by (auto simp: grown_def)
  have w: "writable content fl'" "length (m_files fl') = 1" using r(2) assms(7) by (simp_all add: grown_def)
  then have t: "m_rw_tag fl' = 0" by (simp add: writable_def)
  then have d: "data_of content fl' = content (m_files fl' ! 0)" by (simp add: data_of_def)
  from w(2) obtain f where f: "m_files fl' = [f]" by (auto simp: length_Suc_conv)
  have sp: "\<forall>f \<in> set (m_files fl'). SPACE \<le> length (content f)" using w(1) d f by (simp add: writable_def)
  have ok: "segs_ok (mapping j)" and bl: "\<And>b t n. denote (mapping j) b = Some (t, Some n) \<Longrightarrow> t < length (m_files fl')"
    using w(1) j by (auto simp: writable_def readable_def Index0_ok_def blocks_in_files_def)
  have S: "t < length (m_files fl') \<and> (n + 1) * ALIGNMENT \<le> length (content (m_files fl' ! t))" if "denote (mapping j) b = Some (t, Some n)" for b t n
  proof -
    have "t = 0" using bl [OF that] w(2) by simp
    then show ?thesis using w that j t d by (simp add: writable_def)
  qed
  have st: "\<forall>m \<in> set (mapping j). stored content (m_files fl') m" by (rule stored_blocks [OF ok]) (rule S)
  have ne: "m_files fl' \<noteq> []" using f by simp
  from compact_open [OF assms(1-4) ne sp assms(11) ok st assms(12,13), of layer ownership] obtain c ro where
    c: "compact P (m_files fl') (mapping j) args layer dest = Some (0, c)" "open_file_ro P c ownership = Some (Some ro)" "readable ro" "m_files ro = [c]"
      "\<forall>b. device content ro b = block_value (map content (m_files fl')) (denote (mapping j) b)" by blast
  have "LSMT_commit P fl' args layer dest = Some (0, c)" using c(1) j w(2) by (simp add: LSMT_commit_def Index0_dump_def)
  moreover have "device content ro = device content fl'" using c(5) j by (simp add: device_def fun_eq_iff)
  ultimately show ?thesis using r(1,3) c(2-4) by auto
qed

text \<open>
  Property C10: flattening a writable file on top of a stack of layers copies the whole device into one layer:
  opening the new file gives the blocks of the combined index, from whatever layers they come.
\<close>

theorem flatten_preserves_device:
  fixes fl :: "('f, 'x) LSMTFile_scheme"
  assumes "file_laws P content pos" "full_reads P content" "full_writes P" "uuid_law P"
    and "m_index fl = Some ix" "index_ok ix" "\<not> (\<exists>r. ix = RO r)"
    and "m_files fl \<noteq> []" "\<forall>f \<in> set (m_files fl). SPACE \<le> length (content f)"
    and "\<And>b t n. index_blocks ix b = Some (t, Some n) \<Longrightarrow> t < length (m_files fl) \<and> (n + 1) * ALIGNMENT \<le> length (content (m_files fl ! t))"
    and "content dest = []" "pos dest = 0"
  shows "\<exists>d ro. LSMT_flatten P fl layer dest = Some (0, d) \<and> open_file_ro P d ownership = Some (Some ro) \<and> readable ro \<and> m_files ro = [d] \<and>
    device content ro = device content fl \<and> m_vsize ro = header_size content (m_files fl)"
proof -
  have "\<exists>p. (case ix of RO i \<Rightarrow> None | RW i \<Rightarrow> Some (make_read_only_index i) | Combo c \<Rightarrow> ComboIndex_make_read_only_index c) = Some p \<and>
      segs_ok (ix_map p) \<and> (\<forall>b. denote (ix_map p) b = index_blocks ix b)"
  proof (cases ix)
    case (RW i)
    then show ?thesis using assms(6) by (simp add: make_read_only_index_def Index_assign_def get_alloc_blks_def Index0_ok_def)
  next
    case (Combo c)
    then show ?thesis using combo_read_only_equiv [of c] assms(6) by simp
  qed (use assms(7) in simp)
  then obtain p where p: "(case ix of RO i \<Rightarrow> None | RW i \<Rightarrow> Some (make_read_only_index i) | Combo c \<Rightarrow> ComboIndex_make_read_only_index c) = Some p"
    "segs_ok (ix_map p)" "\<And>b. denote (ix_map p) b = index_blocks ix b" by blast
  have st: "\<forall>m \<in> set (ix_map p). stored content (m_files fl) m" using p(3) assms(10) by (intro stored_blocks [OF p(2)]) simp
  have a: "args_ok default_args" by (simp add: args_ok_def default_args_def get_tag_len_def)
  from compact_open [OF assms(1-4,8,9) a p(2) st assms(11,12), of layer ownership] obtain c ro where
    c: "compact P (m_files fl) (ix_map p) default_args layer dest = Some (0, c)" "open_file_ro P c ownership = Some (Some ro)" "readable ro" "m_files ro = [c]"
      "\<forall>b. device content ro b = block_value (map content (m_files fl)) (denote (ix_map p) b)" "m_vsize ro = header_size content (m_files fl)" by blast
  have "LSMT_flatten P fl layer dest = Some (0, c)" using c(1) assms(5) p(1) by (simp add: LSMT_flatten_def)
  moreover have "device content ro = device content fl" using c(5) p(3) assms(5) by (simp add: device_def fun_eq_iff)
  ultimately show ?thesis using c(2-4,6) by blast
qed

lemma memory_uuid_law: "uuid_law memory_photon"
  by (simp add: uuid_law_def memory_photon_def min_def)

lemma default_args_ok: "args_ok default_args"
  by (simp add: args_ok_def default_args_def get_tag_len_def)

theorem commit_preserves_device_witness:
  "\<exists>fl' d ro. dev_run memory_photon [Pwrite (replicate 1024 7) 512, Punch 1024 512] sample_file = Some ([1024, 0], fl') \<and>
     LSMT_commit memory_photon fl' default_args sample_layer ([], 0) = Some (0, d) \<and> open_file_ro memory_photon d True = Some (Some ro) \<and>
     device fst ro 1 = replicate 512 7 \<and> device fst ro 2 = zeros"
proof -
  let ?ops = "[Pwrite (replicate 1024 7) 512, Punch 1024 512]"
  have D: "fold abs_dev ?ops (device fst sample_file) 1 = replicate 512 7" "fold abs_dev ?ops (device fst sample_file) 2 = zeros"
    by (simp_all add: sample_file_ok written_def punched_def file_block_def ALIGNMENT_def zeros_def)
  have o: "\<forall>op \<in> set ?ops. dev_ok op" "length (data_of fst sample_file) + sum_list (map dev_bytes ?ops) < MAX_DATA"
    by (simp_all add: sample_file_ok ALIGNMENT_def MAX_DATA_def SPACE_def)
  have s: "length (m_files sample_file) = 1" "m_index sample_file = Some (RW \<lparr>mapping = [], m_alloc = 0\<rparr>)"
    by (simp_all add: sample_file_def)
  from commit_preserves_device [OF memory_photon_laws sample_file_ok(5) memory_uuid_law sample_file_ok(1,2) s o default_args_ok, of "([], 0)" sample_layer True] D
  show ?thesis by (fastforce simp del: fold_simps)
qed

theorem flatten_preserves_device_witness:
  "\<exists>d ro. LSMT_flatten memory_photon sample_written sample_layer ([], 0) = Some (0, d) \<and>
     open_file_ro memory_photon d True = Some (Some ro) \<and> device fst ro = device fst sample_written"
proof -
  have w: "writable fst sample_written" by (rule sample_written_ok)
  let ?i = "RW \<lparr>mapping = [write_map 0 0 1 8], m_alloc = 1\<rparr>"
  have i: "m_index sample_written = Some ?i" "length (m_files sample_written) = 1" "m_rw_tag sample_written = 0"
    by (simp_all add: sample_written_def sample_file_def)
  have "index_ok ?i" "\<not> (\<exists>r. ?i = RO r)" using w i by (simp_all add: writable_def readable_def)
  moreover have "m_files sample_written \<noteq> []" "\<forall>f \<in> set (m_files sample_written). SPACE \<le> length (fst f)"
    by (simp_all add: sample_written_def sample_file_def)
  moreover have "t < length (m_files sample_written) \<and> (n + 1) * ALIGNMENT \<le> length (fst (m_files sample_written ! t))"
    if "index_blocks ?i b = Some (t, Some n)" for b t n
    using that by (auto simp: write_map_def covers_def seg_end_def target_def sample_written_def sample_file_def SPACE_def ALIGNMENT_def split: if_splits)
  ultimately show ?thesis
    using flatten_preserves_device [OF memory_photon_laws sample_file_ok(5) memory_uuid_law i(1), of "([], 0)" sample_layer True] by auto
qed

end
