(* ===== verification/ZFile_Format.thy ===== *)
theory ZFile_Format
  imports LSMT_File FastCDC
begin

text \<open>
  Compressed files (\<open>overlaybd/zfile/zfile.cpp\<close>, \<open>zfile/compressor.cpp\<close>): the header and trailer, the jump
  table that finds the compressed blocks, and the compressors. A file consists of a header of 512 bytes,
  the compressed blocks, each followed by a checksum if this is wanted, the lengths of the stored blocks,
  with FastCDC also the lengths of the blocks before compression, and a trailer.
\<close>

section \<open>The environment\<close>

text \<open>
  What the code calls: the file operations (\<open>io_read\<close> reads from the position of the file, \<open>io_evict\<close> is
  \<open>fallocate(0, 0, -1)\<close>), the checksum, whose implementation is chosen when the program starts, and the
  libraries LZ4 and zstd as codecs, which return the number of bytes stored (negative for an error) and
  these bytes.
\<close>

record codec =
  encode :: "u8 list \<Rightarrow> nat \<Rightarrow> int \<times> u8 list"
  decode :: "u8 list \<Rightarrow> nat \<Rightarrow> int \<times> u8 list"
  bound :: "nat \<Rightarrow> nat"

record 'f zenv =
  io :: "'f photon"
  io_read :: "'f \<Rightarrow> nat \<Rightarrow> int \<times> u8 list \<times> 'f"
  io_evict :: "'f \<Rightarrow> int \<times> 'f"
  crc32c_extend :: "u8 list \<Rightarrow> u32 \<Rightarrow> u32"
  codecs :: "nat \<Rightarrow> codec"

definition NOI_WELL_KNOWN_PRIME :: u32 where "NOI_WELL_KNOWN_PRIME = 100007"
definition BUF_SIZE :: nat where "BUF_SIZE = 512"
definition MAX_READ_SIZE :: nat where "MAX_READ_SIZE = 65536"
definition FLAG_VALID_FALSE :: nat where "FLAG_VALID_FALSE = 0"
definition FLAG_VALID_TRUE :: nat where "FLAG_VALID_TRUE = 1"
definition FLAG_VALID_CRC_CHECK :: nat where "FLAG_VALID_CRC_CHECK = 2"

definition crc32c :: "'f zenv \<Rightarrow> u8 list \<Rightarrow> u32" where
  "crc32c E bs = crc32c_extend E bs 0"

definition crc32c_salt :: "'f zenv \<Rightarrow> u8 list \<Rightarrow> u32" where
  "crc32c_salt E bs = crc32c_extend E bs NOI_WELL_KNOWN_PRIME"

definition u32_bytes :: "u32 \<Rightarrow> u8 list" where
  "u32_bytes w = le_bytes 4 (unat w)"

section \<open>Options, header and trailer\<close>

record CompressOptions =
  z_block_size :: nat
  z_algo :: nat
  z_level :: nat
  z_use_dict :: nat
  z_dict_size :: nat
  z_verify :: nat

definition LZ4 :: nat where "LZ4 = 1"
definition ZSTD :: nat where "ZSTD = 2"

text \<open>
  The fields for a dictionary are used by no part of the code, and \<open>workers\<close> only chooses between the builder with
  one thread, which is modelled, and that with several.
\<close>

record CompressArgs =
  z_opt :: CompressOptions
  overwrite_header :: bool
  use_fastcdc :: bool
  fastcdc_min_size :: u32
  fastcdc_avg_size :: u32
  fastcdc_max_size :: u32

definition Z_SPACE :: nat where
  "Z_SPACE = 512"

definition Z_MAGIC0 :: "u8 list" where
  "Z_MAGIC0 = [0x5a, 0x46, 0x69, 0x6c, 0x65, 0, 1, 0]"

definition Z_MAGIC1 :: "u8 list" where
  "Z_MAGIC1 = le_bytes 4 0x696a7574 @ le_bytes 2 0x792e @ le_bytes 2 0x6679 @ le_bytes 2 0x4140 @ [0x6c, 0x69, 0x62, 0x61, 0x62, 0x61]"

record ZHeaderTrailer =
  z_magic0 :: "u8 list"
  z_magic1 :: "u8 list"
  z_size :: nat
  z_digest :: u32
  z_flags :: u64
  z_index_offset :: nat
  z_index_size :: nat
  z_original_file_size :: nat
  z_index_crc :: u32
  z_reserved_0 :: nat
  z_options :: CompressOptions

definition Z_HEADER :: nat where "Z_HEADER = 0"
definition Z_TYPE :: nat where "Z_TYPE = 1"
definition Z_SEALED :: nat where "Z_SEALED = 2"
definition Z_HEADER_OVERWRITE :: nat where "Z_HEADER_OVERWRITE = 3"
definition Z_CALC_DIGEST :: nat where "Z_CALC_DIGEST = 4"
definition Z_FASTCDC :: nat where "Z_FASTCDC = 6"

definition z_flag :: "nat \<Rightarrow> ZHeaderTrailer \<Rightarrow> bool" where
  "z_flag shift h = (z_flags h AND push_bit shift 1 \<noteq> 0)"

definition z_set_flag :: "nat \<Rightarrow> bool \<Rightarrow> ZHeaderTrailer \<Rightarrow> ZHeaderTrailer" where
  "z_set_flag shift v h = h\<lparr>z_flags := if v then z_flags h OR push_bit shift 1 else z_flags h AND NOT (push_bit shift 1)\<rparr>"

definition z_verify_magic :: "ZHeaderTrailer \<Rightarrow> bool" where
  "z_verify_magic h = (z_magic0 h = Z_MAGIC0 \<and> z_magic1 h = Z_MAGIC1)"

text \<open>The layout of the struct with its padding; a header in a buffer of zeros has no flags.\<close>

definition z_layout :: "nat list" where
  "z_layout = [8, 16, 4, 4, 8, 8, 8, 8, 4, 4, 4, 1, 1, 1, 1, 4, 4, 1, 7]"

definition z_fields :: "ZHeaderTrailer \<Rightarrow> u8 list list" where
  "z_fields h = (let p = z_options h in
     [z_magic0 h, z_magic1 h, le_bytes 4 (z_size h), u32_bytes (z_digest h), le_bytes 8 (unat (z_flags h)), le_bytes 8 (z_index_offset h),
      le_bytes 8 (z_index_size h), le_bytes 8 (z_original_file_size h), u32_bytes (z_index_crc h), le_bytes 4 (z_reserved_0 h),
      le_bytes 4 (z_block_size p), le_bytes 1 (z_algo p), le_bytes 1 (z_level p), le_bytes 1 (z_use_dict p), le_bytes 1 0, le_bytes 4 0,
      le_bytes 4 (z_dict_size p), le_bytes 1 (z_verify p), le_bytes 7 0])"

definition z_of :: "u8 list \<Rightarrow> ZHeaderTrailer" where
  "z_of bs = (let f = (\<lambda>i. cut z_layout bs ! i) in
     \<lparr>z_magic0 = f 0, z_magic1 = f 1, z_size = le_nat (f 2), z_digest = of_nat (le_nat (f 3)), z_flags = of_nat (le_nat (f 4)),
      z_index_offset = le_nat (f 5), z_index_size = le_nat (f 6), z_original_file_size = le_nat (f 7), z_index_crc = of_nat (le_nat (f 8)),
      z_reserved_0 = le_nat (f 9),
      z_options = \<lparr>z_block_size = le_nat (f 10), z_algo = le_nat (f 11), z_level = le_nat (f 12), z_use_dict = le_nat (f 13),
        z_dict_size = le_nat (f 16), z_verify = le_nat (f 17)\<rparr>\<rparr>)"

text \<open>The 512 bytes that are written: the struct and the zeros behind it.\<close>

definition z_page :: "ZHeaderTrailer \<Rightarrow> u8 list" where
  "z_page h = concat (z_fields h) @ replicate (Z_SPACE - 96) 0"

definition z_new :: "CompressOptions \<Rightarrow> ZHeaderTrailer" where
  "z_new opt = \<lparr>z_magic0 = Z_MAGIC0, z_magic1 = Z_MAGIC1, z_size = 96, z_digest = 0, z_flags = 0, z_index_offset = 0, z_index_size = 0,
     z_original_file_size = 0, z_index_crc = 0, z_reserved_0 = 0, z_options = opt\<rparr>"

text \<open>The digest is the checksum of all 512 bytes, computed with a digest of zero.\<close>

definition z_is_valid :: "'f zenv \<Rightarrow> u8 list \<Rightarrow> bool" where
  "z_is_valid E buf =
     (if \<not> z_flag Z_CALC_DIGEST (z_of buf) then True
      else crc32c E (take 28 buf @ replicate 4 0 @ drop 32 buf) = z_digest (z_of buf))"

definition z_write_header_trailer ::
    "'f zenv \<Rightarrow> 'f \<Rightarrow> bool \<Rightarrow> bool \<Rightarrow> bool \<Rightarrow> ZHeaderTrailer \<Rightarrow> nat option \<Rightarrow> int \<times> 'f \<times> ZHeaderTrailer" where
  "z_write_header_trailer E f header sealed data_file h offset =
     (let h = z_set_flag Z_TYPE data_file (z_set_flag Z_SEALED sealed (z_set_flag Z_HEADER header h));
          h = (if offset \<noteq> None then z_set_flag Z_HEADER_OVERWRITE True h else h);
          h = (z_set_flag Z_CALC_DIGEST True h)\<lparr>z_digest := 0\<rparr>;
          h = h\<lparr>z_digest := crc32c E (z_page h)\<rparr>;
          (r, f) = (case offset of None \<Rightarrow> io_write (io E) f (z_page h) | Some p \<Rightarrow> io_pwrite (io E) f (z_page h) p) in
      (r, f, h))"

section \<open>The jump table\<close>

text \<open>
  The position of a block is stored in full for the first block of a group and as a difference of 16 bits
  for the others.
\<close>

record JumpTable =
  group_size :: nat
  partial_offset :: "nat list"
  deltas :: "nat list"

definition jt_at :: "JumpTable \<Rightarrow> nat \<Rightarrow> nat option" where
  "jt_at jt idx = do {
     bug_on (group_size jt = 0);
     let part_idx = idx div group_size jt;
     let inner_idx = idx AND (group_size jt - 1);
     bug_on (part_idx \<ge> length (partial_offset jt));
     if inner_idx \<noteq> 0 then do {
       bug_on (idx \<ge> length (deltas jt));
       Some (partial_offset jt ! part_idx + deltas jt ! idx)
     } else Some (partial_offset jt ! part_idx)
   }"

definition uinttype_max :: nat where
  "uinttype_max = 65535"

text \<open>The loop of \<open>build\<close>: \<open>i\<close> is the number of the next position; \<open>raw_offset\<close> is the last one.\<close>

fun build_loop :: "nat \<Rightarrow> nat \<Rightarrow> nat list \<Rightarrow> nat \<Rightarrow> JumpTable \<Rightarrow> int \<times> JumpTable" where
  "build_loop min_blksize i [] raw_offset jt = (0, jt)"
| "build_loop min_blksize i (b # bs) raw_offset jt =
     (if b \<le> min_blksize then (- 1, jt)
      else let raw_offset = raw_offset + b in
      if i mod group_size jt = 0 then
        build_loop min_blksize (i + 1) bs raw_offset (jt\<lparr>partial_offset := partial_offset jt @ [raw_offset], deltas := deltas jt @ [0]\<rparr>)
      else if last (deltas jt) + b \<ge> uinttype_max then (- 1, jt)
      else build_loop min_blksize (i + 1) bs raw_offset (jt\<lparr>deltas := deltas jt @ [last (deltas jt) + b]\<rparr>))"

definition build :: "nat list \<Rightarrow> nat \<Rightarrow> nat \<Rightarrow> bool \<Rightarrow> (int \<times> JumpTable) option" where
  "build ibuf offset_begin block_size enable_crc = do {
     bug_on (block_size = 0);
     let gs = (uinttype_max + 1) div block_size;
     bug_on (gs = 0);
     Some (build_loop (if enable_crc then 4 else 0) 1 ibuf offset_begin \<lparr>group_size = gs, partial_offset = [offset_begin], deltas = [0]\<rparr>)
   }"

section \<open>Compressors\<close>

text \<open>
  \<open>BaseCompressor\<close> with its subclasses \<open>LZ4Compressor\<close> (without the QAT hardware, which is an option of the
  build) and \<open>Compressor_zstd\<close>. An error is \<open>None\<close>.
\<close>

record compressor =
  c_algo :: nat
  src_blk_size :: nat
  max_dst_size :: nat

definition create_compressor :: "'f zenv \<Rightarrow> CompressOptions \<Rightarrow> compressor option" where
  "create_compressor E opt =
     (if z_algo opt = LZ4 \<or> z_algo opt = ZSTD
      then Some \<lparr>c_algo = z_algo opt, src_blk_size = z_block_size opt, max_dst_size = bound (codecs E (z_algo opt)) (z_block_size opt)\<rparr>
      else None)"

definition nbatch :: "compressor \<Rightarrow> nat" where
  "nbatch c = 1"

definition do_compress :: "'f zenv \<Rightarrow> compressor \<Rightarrow> nat \<Rightarrow> u8 list \<Rightarrow> u8 list option" where
  "do_compress E c cap src =
     (if c_algo c = ZSTD \<and> cap < max_dst_size c then None
      else let (ret, bs) = encode (codecs E (c_algo c)) src cap in
      if ret < 0 \<or> (c_algo c = LZ4 \<and> ret = 0) then None else Some bs)"

definition compress_batch :: "'f zenv \<Rightarrow> compressor \<Rightarrow> u8 list \<Rightarrow> nat list \<Rightarrow> nat \<Rightarrow> u8 list list option" where
  "compress_batch E c src src_chunk_len dst_buffer_capacity =
     (let cap = dst_buffer_capacity div length src_chunk_len in
      if cap < max_dst_size c then None else those (map (do_compress E c cap) (cut src_chunk_len src)))"

definition decompress :: "'f zenv \<Rightarrow> compressor \<Rightarrow> u8 list \<Rightarrow> nat \<Rightarrow> u8 list option" where
  "decompress E c src dst_len =
     (if dst_len < src_blk_size c then None
      else let (ret, bs) = decode (codecs E (c_algo c)) src dst_len in
      if ret < 0 \<or> (c_algo c = LZ4 \<and> ret = 0) then None else Some bs)"


section \<open>Headers are read back\<close>

definition opt_ok :: "CompressOptions \<Rightarrow> bool" where
  "opt_ok p \<longleftrightarrow> z_block_size p < 2 ^ 32 \<and> z_algo p < 2 ^ 8 \<and> z_level p < 2 ^ 8 \<and> z_use_dict p < 2 ^ 8 \<and> z_dict_size p < 2 ^ 32 \<and> z_verify p < 2 ^ 8"

definition z_ok :: "ZHeaderTrailer \<Rightarrow> bool" where
  "z_ok h \<longleftrightarrow> length (z_magic0 h) = 8 \<and> length (z_magic1 h) = 16 \<and> z_size h < 2 ^ 32 \<and> z_index_offset h < 2 ^ 64 \<and> z_index_size h < 2 ^ 64 \<and>
     z_original_file_size h < 2 ^ 64 \<and> z_reserved_0 h < 2 ^ 32 \<and> opt_ok (z_options h)"

lemma z_fields_layout: "z_ok h \<Longrightarrow> map length (z_fields h) = z_layout"
  by (simp add: z_ok_def z_fields_def z_layout_def u32_bytes_def Let_def)

lemma length_z_page [simp]: "z_ok h \<Longrightarrow> length (z_page h) = Z_SPACE"
proof -
  assume "z_ok h"
  then have "sum_list (map length (z_fields h)) = sum_list z_layout" by (simp add: z_fields_layout)
  then show ?thesis by (simp add: z_page_def length_concat z_layout_def Z_SPACE_def)
qed

lemma z_of_page: "z_ok h \<Longrightarrow> z_of (z_page h @ rest) = h"
proof -
  assume h: "z_ok h"
  have c: "cut z_layout (z_page h @ rest) = z_fields h" using cut_concat [of z_layout "z_fields h"] z_fields_layout [OF h] by (simp add: z_page_def)
  have w: "le_nat (u32_bytes w) = unat w" for w :: u32
  proof -
    have "unat w < 256 ^ 4" using unsigned_less [of w] by simp
    then show ?thesis by (simp only: u32_bytes_def le_nat_id)
  qed
  have f: "le_nat (le_bytes 8 (unat (z_flags h))) = unat (z_flags h)" using unsigned_less [of "z_flags h"] by (intro le_nat_id) simp
  have n: "le_nat (le_bytes 4 (z_size h)) = z_size h" "le_nat (le_bytes 8 (z_index_offset h)) = z_index_offset h"
    "le_nat (le_bytes 8 (z_index_size h)) = z_index_size h" "le_nat (le_bytes 8 (z_original_file_size h)) = z_original_file_size h"
    "le_nat (le_bytes 4 (z_reserved_0 h)) = z_reserved_0 h" "le_nat (le_bytes 4 (z_block_size (z_options h))) = z_block_size (z_options h)"
    "le_nat (le_bytes 1 (z_algo (z_options h))) = z_algo (z_options h)" "le_nat (le_bytes 1 (z_level (z_options h))) = z_level (z_options h)"
    "le_nat (le_bytes 1 (z_use_dict (z_options h))) = z_use_dict (z_options h)" "le_nat (le_bytes 4 (z_dict_size (z_options h))) = z_dict_size (z_options h)"
    "le_nat (le_bytes 1 (z_verify (z_options h))) = z_verify (z_options h)"
    using h by (auto simp: z_ok_def opt_ok_def simp del: le_bytes.simps le_nat.simps intro!: le_nat_id)
  show ?thesis
    unfolding z_of_def Let_def c by (simp add: z_fields_def Let_def w f n [unfolded One_nat_def] del: le_bytes.simps le_nat.simps)
qed

lemma le_bytes_0: "le_bytes n 0 = replicate n 0"
  by (induction n) simp_all

text \<open>Clearing the digest in the bytes is clearing it in the header.\<close>

lemma z_page_digest: "z_ok h \<Longrightarrow> take 28 (z_page h) @ replicate 4 0 @ drop 32 (z_page h) = z_page (h\<lparr>z_digest := 0\<rparr>)"
proof -
  assume h: "z_ok h"
  define pre where "pre = z_magic0 h @ z_magic1 h @ le_bytes 4 (z_size h)"
  define post where "post = concat (drop 4 (z_fields h)) @ replicate (Z_SPACE - 96) 0"
  have "length pre = 28" using h by (simp add: pre_def z_ok_def del: le_bytes.simps)
  moreover have "z_page h = pre @ u32_bytes (z_digest h) @ post" "z_page (h\<lparr>z_digest := 0\<rparr>) = pre @ u32_bytes 0 @ post"
    by (simp_all add: z_page_def pre_def post_def z_fields_def Let_def del: le_bytes.simps)
  moreover have "u32_bytes 0 = replicate 4 0" "length (u32_bytes (z_digest h)) = 4" by (simp_all only: u32_bytes_def unsigned_0 le_bytes_0 length_le_bytes)
  ultimately show ?thesis by simp
qed

lemma z_flag_iff: "z_flag a h \<longleftrightarrow> bit (z_flags h) a"
  by (simp only: z_flag_def bit_iff_and_push_bit_not_eq_0)

lemma z_flag_set: "a < 64 \<Longrightarrow> z_flag a (z_set_flag b v h) \<longleftrightarrow> (if a = b then v else z_flag a h)"
  by (auto simp: z_flag_iff z_set_flag_def bit_simps)

lemma z_set_flag_ok [simp]: "z_ok (z_set_flag b v h) = z_ok h" "z_verify_magic (z_set_flag b v h) = z_verify_magic h"
  "z_index_offset (z_set_flag b v h) = z_index_offset h" "z_index_size (z_set_flag b v h) = z_index_size h" "z_options (z_set_flag b v h) = z_options h"
  "z_original_file_size (z_set_flag b v h) = z_original_file_size h" "z_index_crc (z_set_flag b v h) = z_index_crc h"
  by (simp_all add: z_set_flag_def z_ok_def z_verify_magic_def)

lemmas z_shifts = Z_HEADER_def Z_TYPE_def Z_SEALED_def Z_HEADER_OVERWRITE_def Z_CALC_DIGEST_def Z_FASTCDC_def

text \<open>What is written: the header with its flags and a digest that is found valid.\<close>

lemma z_write_spec:
  assumes "z_ok h"
  obtains h' where "z_write_header_trailer E f header sealed data h offset =
      (case (case offset of None \<Rightarrow> io_write (io E) f (z_page h') | Some p \<Rightarrow> io_pwrite (io E) f (z_page h') p) of (r, f) \<Rightarrow> (r, f, h'))"
    "z_ok h'" "z_is_valid E (z_page h' @ rest) \<or> rest \<noteq> []" "z_verify_magic h' = z_verify_magic h" "z_flag Z_HEADER h' = header" "z_flag Z_TYPE h' = data"
    "z_flag Z_SEALED h' = sealed" "z_flag Z_CALC_DIGEST h'" "z_flag Z_FASTCDC h' = z_flag Z_FASTCDC h"
    "z_flag Z_HEADER_OVERWRITE h' = (offset \<noteq> None \<or> z_flag Z_HEADER_OVERWRITE h)"
    "z_index_offset h' = z_index_offset h" "z_index_size h' = z_index_size h" "z_options h' = z_options h"
    "z_original_file_size h' = z_original_file_size h" "z_index_crc h' = z_index_crc h"
proof -
  define h1 where "h1 = z_set_flag Z_TYPE data (z_set_flag Z_SEALED sealed (z_set_flag Z_HEADER header h))"
  define h2 where "h2 = (z_set_flag Z_CALC_DIGEST True (if offset \<noteq> None then z_set_flag Z_HEADER_OVERWRITE True h1 else h1))\<lparr>z_digest := 0\<rparr>"
  define h' where "h' = h2\<lparr>z_digest := crc32c E (z_page h2)\<rparr>"
  have ok: "z_ok h2" "z_ok h'" using assms by (simp_all add: h'_def h2_def h1_def z_ok_def z_set_flag_def)
  have fl: "z_flag a h' = z_flag a h2" "z_flag a h2 = z_flag a (z_set_flag Z_CALC_DIGEST True (if offset \<noteq> None then z_set_flag Z_HEADER_OVERWRITE True h1 else h1))" for a
    by (simp_all add: h'_def h2_def z_flag_def)
  have same: "h'\<lparr>z_digest := 0\<rparr> = h2" by (simp add: h'_def h2_def)
  have "z_is_valid E (z_page h')"
    using z_page_digest [OF ok(2)] z_of_page [OF ok(2), of "[]"] unfolding same by (simp add: z_is_valid_def h'_def)
  then have v: "z_is_valid E (z_page h' @ rest) \<or> rest \<noteq> []" by (cases rest) simp_all
  show thesis
  proof (rule that [of h'])
    show "z_write_header_trailer E f header sealed data h offset =
      (case (case offset of None \<Rightarrow> io_write (io E) f (z_page h') | Some p \<Rightarrow> io_pwrite (io E) f (z_page h') p) of (r, f) \<Rightarrow> (r, f, h'))"
      unfolding z_write_header_trailer_def Let_def h1_def [symmetric] h2_def [symmetric] h'_def [symmetric] by (rule refl)
  qed (use ok v in \<open>simp_all add: fl z_flag_set h1_def z_shifts\<close>, simp_all add: h'_def h2_def h1_def z_verify_magic_def z_set_flag_def)
qed


section \<open>The jump table is exact\<close>

definition start_of :: "nat list \<Rightarrow> nat \<Rightarrow> nat" where
  "start_of bs i = sum_list (take i bs)"

lemma start_of_simps [simp]: "start_of bs 0 = 0" "i < length bs \<Longrightarrow> start_of bs (Suc i) = start_of bs i + bs ! i"
  "i \<le> length bs \<Longrightarrow> start_of (bs @ cs) i = start_of bs i"
  by (simp_all add: start_of_def take_Suc_conv_app_nth)

lemma start_of_mono: "i \<le> j \<Longrightarrow> start_of bs i \<le> start_of bs j"
proof -
  assume "i \<le> j"
  then have "take j bs = take i bs @ take (j - i) (drop i bs)" by (metis le_add_diff_inverse take_add)
  then show ?thesis by (simp add: start_of_def)
qed

definition table_of :: "nat \<Rightarrow> nat \<Rightarrow> nat list \<Rightarrow> JumpTable" where
  "table_of g base bs = \<lparr>group_size = g, partial_offset = map (\<lambda>k. base + start_of bs (k * g)) [0..<length bs div g + 1],
     deltas = map (\<lambda>j. start_of bs j - start_of bs (j div g * g)) [0..<length bs + 1]\<rparr>"

text \<open>The lengths that can be stored: all are above the minimum, and those of a group fit into 16 bits.\<close>

definition groups_fit :: "nat \<Rightarrow> nat \<Rightarrow> nat list \<Rightarrow> bool" where
  "groups_fit g mn bs \<longleftrightarrow> (\<forall>j < length bs. mn < bs ! j \<and> (Suc j mod g \<noteq> 0 \<longrightarrow> start_of bs (Suc j) - start_of bs (Suc j div g * g) < uinttype_max))"

lemma table_of_snoc:
  assumes "0 < g"
  shows "table_of g base (bs @ [b]) = (if Suc (length bs) mod g = 0
    then (table_of g base bs)\<lparr>partial_offset := partial_offset (table_of g base bs) @ [base + start_of bs (length bs) + b], deltas := deltas (table_of g base bs) @ [0]\<rparr>
    else (table_of g base bs)\<lparr>deltas := deltas (table_of g base bs) @ [start_of bs (length bs) - start_of bs (length bs div g * g) + b]\<rparr>)"
proof -
  let ?n = "length bs"
  have le: "k * g \<le> ?n" if "k \<le> ?n div g" for k using mult_le_mono1 [OF that, of g] by (metis div_times_less_eq_dividend le_trans)
  have D: "map (\<lambda>j. start_of (bs @ [b]) j - start_of (bs @ [b]) (j div g * g)) [0..<?n + 1] = map (\<lambda>j. start_of bs j - start_of bs (j div g * g)) [0..<?n + 1]"
    by (intro map_cong) (auto simp: le_trans [OF div_times_less_eq_dividend])
  have P: "map (\<lambda>k. base + start_of (bs @ [b]) (k * g)) [0..<?n div g + 1] = map (\<lambda>k. base + start_of bs (k * g)) [0..<?n div g + 1]"
    using le by (intro map_cong) auto
  have L: "start_of (bs @ [b]) (Suc ?n) = start_of bs ?n + b" by (simp add: start_of_def)
  show ?thesis
  proof (cases "Suc ?n mod g = 0")
    case True
    then have d: "Suc ?n div g = Suc (?n div g)" by (simp add: div_Suc)
    have m: "Suc ?n div g * g = Suc ?n" using True by (simp only: mod_eq_0_iff_dvd dvd_div_mult_self)
    have "[0..<Suc ?n div g + 1] = [0..<?n div g + 1] @ [Suc ?n div g]" unfolding d by simp
    then show ?thesis using True D P L m by (simp add: table_of_def del: upt_Suc) (simp add: upt_Suc)
  next
    case False
    then have d: "Suc ?n div g = ?n div g" by (simp add: div_Suc)
    have "start_of (bs @ [b]) (?n div g * g) = start_of bs (?n div g * g)" by simp
    moreover have "start_of bs (?n div g * g) \<le> start_of bs ?n" by (intro start_of_mono) simp
    ultimately show ?thesis using False D P L d by (simp add: table_of_def del: upt_Suc) (simp add: upt_Suc)
  qed
qed

lemma last_deltas: "last (deltas (table_of g base bs)) = start_of bs (length bs) - start_of bs (length bs div g * g)"
  by (simp add: table_of_def)

lemma build_loop_spec:
  assumes "0 < g" "groups_fit g mn (ps @ bs)"
  shows "build_loop mn (length ps + 1) bs (base + start_of ps (length ps)) (table_of g base ps) = (0, table_of g base (ps @ bs))"
  using assms(2)
proof (induction bs arbitrary: ps)
  case (Cons b bs)
  let ?n = "length ps"
  have fit: "groups_fit g mn ((ps @ [b]) @ bs)" using Cons.prems by simp
  have "?n < length (ps @ b # bs)" by simp
  with Cons.prems have b: "mn < b" "Suc ?n mod g \<noteq> 0 \<longrightarrow> start_of (ps @ b # bs) (Suc ?n) - start_of (ps @ b # bs) (Suc ?n div g * g) < uinttype_max"
    unfolding groups_fit_def by (metis nth_append_length)+
  have s: "base + start_of ps ?n + b = base + start_of (ps @ [b]) (length (ps @ [b]))" by (simp add: start_of_def)
  have g: "group_size (table_of g base ps) = g" by (simp add: table_of_def)
  show ?case
  proof (cases "Suc ?n mod g = 0")
    case True
    then show ?thesis using b(1) Cons.IH [OF fit] s g table_of_snoc [OF assms(1), of base ps b] by (simp add: Let_def add.assoc)
  next
    case False
    then have d: "Suc ?n div g = ?n div g" by (simp add: div_Suc)
    have "start_of (ps @ b # bs) (Suc ?n) = start_of ps ?n + b" by (simp add: start_of_def)
    moreover have "start_of (ps @ b # bs) (?n div g * g) = start_of ps (?n div g * g)" by simp
    moreover have "start_of ps (?n div g * g) \<le> start_of ps ?n" by (intro start_of_mono) simp
    ultimately have "start_of ps ?n - start_of ps (?n div g * g) + b < uinttype_max" using False b(2) d by simp
    then show ?thesis using False b(1) Cons.IH [OF fit] s g table_of_snoc [OF assms(1), of base ps b] by (simp add: last_deltas Let_def add.assoc)
  qed
qed simp

lemma build_spec:
  assumes "0 < bsz" "bsz \<le> 65536" "groups_fit (65536 div bsz) (if crc then 4 else 0) bs"
  shows "build bs base bsz crc = Some (0, table_of (65536 div bsz) base bs)"
proof -
  have g: "0 < 65536 div bsz" using assms by (simp add: div_greater_zero_iff)
  have "table_of (65536 div bsz) base [] = \<lparr>group_size = 65536 div bsz, partial_offset = [base], deltas = [0]\<rparr>" by (simp add: table_of_def)
  moreover have "build_loop (if crc then 4 else 0) 1 bs base (table_of (65536 div bsz) base []) = (0, table_of (65536 div bsz) base bs)"
    using build_loop_spec [OF g, of _ "[]" bs base] assms(3) by simp
  ultimately show ?thesis using assms(1) g by (simp add: build_def uinttype_max_def)
qed

lemma and_group: "g = 2 ^ k \<Longrightarrow> (i :: nat) AND (g - 1) = i mod g"
  by (simp add: take_bit_eq_mod [symmetric] take_bit_eq_mask mask_eq_exp_minus_1)

lemma jt_at_spec:
  assumes "g = 2 ^ k" "i \<le> length bs"
  shows "jt_at (table_of g base bs) i = Some (base + start_of bs i)"
proof -
  have g: "0 < g" using assms(1) by simp
  have "i div g \<le> length bs div g" using assms(2) by (rule div_le_mono)
  moreover have "i div g * g = i" if "i mod g = 0" using that by (simp add: mod_eq_0_iff_dvd)
  moreover have "start_of bs (i div g * g) \<le> start_of bs i" by (intro start_of_mono) simp
  ultimately show ?thesis
    using g assms(2) and_group [OF assms(1), of i] by (auto simp: jt_at_def table_of_def Let_def nth_append simp del: upt_Suc)
qed

end
