(* ===== verification/ZFile_Read.thy ===== *)
theory ZFile_Read
  imports ZFile_Format
begin

text \<open>
  Reading compressed files (\<open>CompressionFile\<close> with its \<open>BlockReader\<close>, and \<open>zfile_open_ro\<close>, of
  \<open>overlaybd/zfile/zfile.cpp\<close>).
\<close>

section \<open>The file object and its blocks\<close>

record 'f CompressionFile =
  jump_table :: JumpTable
  raw_block_sizes :: "nat list"
  cf_ht :: ZHeaderTrailer
  cf_file :: 'f
  cf_compressor :: "compressor option"
  cf_ownership :: bool
  valid :: nat

text \<open>
  \<open>m_buf\<close> holds the bytes that have been read into the buffer of \<open>MAX_READ_SIZE\<close> bytes; the rest is not
  initialised; \<open>m_offset\<close> is only read by the constructor. An iterator is a current block, or none at the end.
\<close>

record BlockReader =
  m_buf_offset :: nat
  m_begin_idx :: nat
  m_original_begin_idx :: nat
  m_idx :: nat
  m_end_idx :: nat
  m_original_offset :: nat
  m_end :: nat
  m_verify :: bool
  m_block_size :: nat
  m_eno :: nat
  m_buf :: "u8 list"

record block =
  blk_compressed_size :: nat
  cp_begin :: nat
  cp_len :: nat

definition ERANGE :: nat where "ERANGE = 34"
definition EIO :: nat where "EIO = 5"

definition variable_blocks :: "'f CompressionFile \<Rightarrow> bool" where
  "variable_blocks zf \<longleftrightarrow> z_flag Z_FASTCDC (cf_ht zf) \<and> raw_block_sizes zf \<noteq> []"

text \<open>The two searches of the constructor; the first keeps 0 and the second the number of blocks when nothing is found.\<close>

fun find_begin :: "nat \<Rightarrow> nat \<Rightarrow> nat list \<Rightarrow> nat \<Rightarrow> nat" where
  "find_begin cumulative i [] offset = 0"
| "find_begin cumulative i (s # ss) offset = (if cumulative + s > offset then i else find_begin (cumulative + s) (i + 1) ss offset)"

fun find_end :: "nat \<Rightarrow> nat \<Rightarrow> nat list \<Rightarrow> nat \<Rightarrow> nat" where
  "find_end cumulative i [] stop = i"
| "find_end cumulative i (s # ss) stop = (if cumulative + s > stop then i + 1 else find_end (cumulative + s) (i + 1) ss stop)"

text \<open>
  The constructor. Without FastCDC \<open>m_original_begin_idx\<close> keeps its initial value 0.
\<close>

definition new_BlockReader :: "'f CompressionFile \<Rightarrow> nat \<Rightarrow> nat \<Rightarrow> BlockReader option" where
  "new_BlockReader zf offset count = do {
     let opt = z_options (cf_ht zf);
     let stop = offset + count - 1;
     (b, original, e) \<leftarrow>
       (if variable_blocks zf then
          let b = find_begin 0 0 (raw_block_sizes zf) offset in Some (b, b, find_end 0 0 (raw_block_sizes zf) stop)
        else do {
          bug_on (z_block_size opt = 0);
          Some (offset div z_block_size opt, 0, stop div z_block_size opt + 1)
        });
     Some \<lparr>m_buf_offset = 0, m_begin_idx = b, m_original_begin_idx = original, m_idx = b, m_end_idx = e, m_original_offset = offset,
       m_end = stop, m_verify = (z_verify opt \<noteq> 0), m_block_size = z_block_size opt, m_eno = 0, m_buf = []\<rparr>
   }"

definition get_blocks_length :: "'f CompressionFile \<Rightarrow> nat \<Rightarrow> nat \<Rightarrow> nat option" where
  "get_blocks_length zf b e = do {
     bug_on (\<not> b \<le> e);
     x \<leftarrow> jt_at (jump_table zf) e;
     y \<leftarrow> jt_at (jump_table zf) b;
     Some (sub64 x y)
   }"

definition read_blocks :: "'f zenv \<Rightarrow> 'f CompressionFile \<Rightarrow> nat \<Rightarrow> nat \<Rightarrow> BlockReader \<Rightarrow> (int \<times> BlockReader) option" where
  "read_blocks E zf b e br = do {
     n \<leftarrow> get_blocks_length zf b e;
     let read_size = min MAX_READ_SIZE n;
     begin_offset \<leftarrow> jt_at (jump_table zf) b;
     let (readn, bs) = io_pread (io E) (cf_file zf) read_size begin_offset;
     let br = br\<lparr>m_buf := bs @ drop (length bs) (m_buf br)\<rparr>;
     if readn \<noteq> int read_size then Some (- 1, br\<lparr>m_eno := EIO\<rparr>) else Some (0, br)
   }"

definition get_inblock_offset :: "'f CompressionFile \<Rightarrow> nat \<Rightarrow> nat \<Rightarrow> nat option" where
  "get_inblock_offset zf offset blk_idx =
     (if variable_blocks zf then do {
        bug_on (blk_idx > length (raw_block_sizes zf));
        Some (sub64 offset (sum_list (take blk_idx (raw_block_sizes zf))))
      } else do {
        bug_on (z_block_size (z_options (cf_ht zf)) = 0);
        Some (offset mod z_block_size (z_options (cf_ht zf)))
      })"

definition reader_block_size :: "'f CompressionFile \<Rightarrow> BlockReader \<Rightarrow> nat" where
  "reader_block_size zf br =
     (if variable_blocks zf \<and> m_idx br < length (raw_block_sizes zf) then raw_block_sizes zf ! m_idx br else m_block_size br)"

definition compressed_size :: "'f CompressionFile \<Rightarrow> BlockReader \<Rightarrow> nat option" where
  "compressed_size zf br = do {
     n \<leftarrow> get_blocks_length zf (m_idx br) (m_idx br + 1);
     Some (sub64 n (if m_verify br then 4 else 0))
   }"

text \<open>Reading bytes of the buffer that have not been read from the file is undefined.\<close>

definition buf_slice :: "u8 list \<Rightarrow> nat \<Rightarrow> nat \<Rightarrow> u8 list option" where
  "buf_slice buf off n = (if off + n \<le> length buf then Some (take n (drop off buf)) else None)"

definition get_current_block :: "'f CompressionFile \<Rightarrow> BlockReader \<Rightarrow> (block option \<times> BlockReader) option" where
  "get_current_block zf br = do {
     off \<leftarrow> get_blocks_length zf (m_begin_idx br) (m_idx br);
     let br = br\<lparr>m_buf_offset := off\<rparr>;
     if off \<ge> MAX_READ_SIZE then Some (None, br\<lparr>m_eno := ERANGE\<rparr>)
     else do {
       cs \<leftarrow> compressed_size zf br;
       if off + cs > MAX_READ_SIZE then Some (None, br\<lparr>m_eno := ERANGE\<rparr>)
       else do {
         cb \<leftarrow> (if m_idx br = m_original_begin_idx br then get_inblock_offset zf (m_original_offset br) (m_idx br) else Some 0);
         len \<leftarrow> (if int (m_idx br) = int (m_end_idx br) - 1
                  then do { inblock_end \<leftarrow> get_inblock_offset zf (m_end br) (m_idx br); Some (inblock_end + 1) }
                  else Some (reader_block_size zf br));
         Some (Some \<lparr>blk_compressed_size = cs, cp_begin = cb, cp_len = sub64 len cb\<rparr>, br)
       }
     }
   }"

definition first_block :: "'f zenv \<Rightarrow> 'f CompressionFile \<Rightarrow> BlockReader \<Rightarrow> (block option \<times> BlockReader) option" where
  "first_block E zf br = do {
     (r, br) \<leftarrow> read_blocks E zf (m_idx br) (m_end_idx br) br;
     if r \<noteq> 0 then Some (None, br) else get_current_block zf br
   }"

definition next_block :: "'f zenv \<Rightarrow> 'f CompressionFile \<Rightarrow> BlockReader \<Rightarrow> (block option \<times> BlockReader) option" where
  "next_block E zf br = do {
     let br = br\<lparr>m_idx := m_idx br + 1\<rparr>;
     let at_end = br\<lparr>m_idx := m_end_idx br\<rparr>;
     if m_idx br = m_end_idx br then Some (None, at_end)
     else do {
       n \<leftarrow> get_blocks_length zf (m_begin_idx br) (m_idx br + 1);
       (r, br) \<leftarrow> (if n > MAX_READ_SIZE then do {
                      (r, br) \<leftarrow> read_blocks E zf (m_idx br) (m_end_idx br) br;
                      Some (r, if r \<noteq> 0 then br else br\<lparr>m_begin_idx := m_idx br\<rparr>)
                    } else Some (0, br));
       if r \<noteq> 0 then Some (None, br\<lparr>m_idx := m_end_idx br\<rparr>)
       else do {
         (b, br) \<leftarrow> get_current_block zf br;
         Some (b, case b of None \<Rightarrow> br\<lparr>m_idx := m_end_idx br\<rparr> | Some b \<Rightarrow> br)
       }
     }
   }"

text \<open>Reading the current block once more, after its range was discarded from the cache below.\<close>

definition reload :: "'f zenv \<Rightarrow> 'f CompressionFile \<Rightarrow> BlockReader \<Rightarrow> (int \<times> 'f CompressionFile \<times> BlockReader) option" where
  "reload E zf br = do {
     read_size \<leftarrow> get_blocks_length zf (m_idx br) (m_idx br + 1);
     begin_offset \<leftarrow> jt_at (jump_table zf) (m_idx br);
     let (trim_res, f) = io_trim (io E) (cf_file zf) begin_offset read_size;
     let zf = zf\<lparr>cf_file := f\<rparr>;
     if trim_res < 0 then Some (- 1, zf, br)
     else do {
       bug_on (m_buf_offset br + read_size > MAX_READ_SIZE);
       let (readn, bs) = io_pread (io E) f read_size begin_offset;
       let br = br\<lparr>m_buf := take (m_buf_offset br) (m_buf br) @ bs @ drop (m_buf_offset br + length bs) (m_buf br)\<rparr>;
       Some (if readn \<noteq> int read_size then - 1 else 0, zf, br)
     }
   }"

section \<open>Reading\<close>

text \<open>The state of a read: the object, the reader, the caller's buffer with the pointer into it, and \<open>readn\<close>.\<close>

record 'f zread =
  zr_file :: "'f CompressionFile"
  zr_reader :: BlockReader
  zr_buf :: "u8 list option"
  zr_ptr :: nat
  readn :: nat

text \<open>
  One block: the checksum is verified and the block decompressed, with up to \<open>retry\<close> reloads. The result -1
  ends the read.
\<close>

fun read_block :: "'f zenv \<Rightarrow> block \<Rightarrow> nat \<Rightarrow> nat \<Rightarrow> 'f zread \<Rightarrow> (int \<times> 'f zread) option" where
  "read_block E blk cnt retry s = do {
     let (zf, br) = (zr_file s, zr_reader s);
     let opt = z_options (cf_ht zf);
     let again = (\<lambda>p. case retry of
        0 \<Rightarrow> Some (- 1, s)
      | Suc r \<Rightarrow> if \<not> p then Some (- 1, s) else do {
          (res, zf, br) \<leftarrow> reload E zf br;
          let s = s\<lparr>zr_file := zf, zr_reader := br\<rparr>;
          if res < 0 then Some (- 1, s) else read_block E blk cnt r s
        });
     data \<leftarrow> buf_slice (m_buf br) (m_buf_offset br) (blk_compressed_size blk);
     crc_ok \<leftarrow> (if z_verify opt \<noteq> 0 then do {
                     cs \<leftarrow> compressed_size zf br;
                     code \<leftarrow> buf_slice (m_buf br) (m_buf_offset br + cs) 4;
                     Some (u32_bytes (crc32c_salt E data) = code)
                   } else Some True);
     if \<not> crc_ok then again (valid zf = FLAG_VALID_TRUE)
     else if valid zf = FLAG_VALID_CRC_CHECK then Some (0, s\<lparr>readn := readn s + cp_len blk\<rparr>)
     else do {
       buf \<leftarrow> zr_buf s;
       let bytes_to_copy = (if readn s + cp_len blk > cnt then cnt - readn s else cp_len blk);
       c \<leftarrow> cf_compressor zf;
       case decompress E c data (z_block_size opt) of
         None \<Rightarrow> again True
       | Some bs \<Rightarrow> do {
           buf \<leftarrow> (if cp_len blk = z_block_size opt \<and> bytes_to_copy = cp_len blk then store (zr_ptr s) bs buf
                   else do {
                     part \<leftarrow> buf_slice bs (cp_begin blk) bytes_to_copy;
                     store (zr_ptr s) part buf
                   });
           Some (0, s\<lparr>zr_buf := Some buf, zr_ptr := zr_ptr s + bytes_to_copy, readn := readn s + bytes_to_copy\<rparr>)
         }
     }
   }"

declare read_block.simps [simp del]

text \<open>The loop over the blocks. Without a buffer (\<open>nullptr\<close>) nothing is decompressed.\<close>

partial_function (option) read_loop :: "'f zenv \<Rightarrow> nat \<Rightarrow> block option \<Rightarrow> 'f zread \<Rightarrow> (int \<times> 'f zread) option" where
  "read_loop E cnt b s =
     (case b of
        None \<Rightarrow> Some (0, s)
      | Some blk \<Rightarrow>
          if zr_buf s = None then do {
            (b, br) \<leftarrow> next_block E (zr_file s) (zr_reader s);
            read_loop E cnt b (s\<lparr>zr_reader := br, readn := readn s + cp_len blk\<rparr>)
          } else if readn s \<ge> cnt then Some (0, s)
          else do {
            (r, s) \<leftarrow> read_block E blk cnt 3 s;
            if r < 0 then Some (- 1, s)
            else do {
              (b, br) \<leftarrow> next_block E (zr_file s) (zr_reader s);
              read_loop E cnt b (s\<lparr>zr_reader := br\<rparr>)
            }
          })"

definition zfile_pread :: "'f zenv \<Rightarrow> 'f CompressionFile \<Rightarrow> u8 list option \<Rightarrow> nat \<Rightarrow> nat \<Rightarrow> (int \<times> u8 list option \<times> 'f CompressionFile) option" where
  "zfile_pread E zf buf count offset =
     (if z_block_size (z_options (cf_ht zf)) > MAX_READ_SIZE then Some (- 1, buf, zf)
      else
        let total = z_original_file_size (cf_ht zf);
            cnt = (if offset + count > total then int total - int offset else int count) in
        if cnt \<le> 0 then Some (0, buf, zf)
        else do {
          br \<leftarrow> new_BlockReader zf offset (nat cnt);
          (b, br) \<leftarrow> first_block E zf br;
          (r, s) \<leftarrow> read_loop E (nat cnt) b \<lparr>zr_file = zf, zr_reader = br, zr_buf = buf, zr_ptr = 0, readn = 0\<rparr>;
          Some (if r < 0 \<or> m_eno (zr_reader s) \<noteq> 0 then - 1 else int (min (readn s) (nat cnt)), zr_buf s, zr_file s)
        })"

section \<open>Opening\<close>

fun u32s_of :: "nat \<Rightarrow> u8 list \<Rightarrow> nat list" where
  "u32s_of 0 bs = []"
| "u32s_of (Suc n) bs = le_nat (take 4 bs) # u32s_of n (drop 4 bs)"

text \<open>
  The index is read in pieces of 1 MB, each by a thread of its own; all have to succeed.
\<close>

function read_index :: "'f zenv \<Rightarrow> 'f \<Rightarrow> nat \<Rightarrow> nat \<Rightarrow> bool \<times> u8 list" where
  "read_index E f offset n =
     (if n = 0 then (True, [])
      else let chunk = min n (2 ^ 20); (ret, bs) = io_pread (io E) f chunk offset; (ok, rest) = read_index E f (offset + chunk) (n - chunk) in
        (ret = int chunk \<and> ok, bs @ rest))"
  by pat_completeness auto
termination by (relation "measure (\<lambda>(E, f, offset, n). n)") auto

declare read_index.simps [simp del]

text \<open>
  The trailer is only read when the header was not overwritten with its contents. Its own digest is not
  checked. The result \<open>Some None\<close> is \<open>false\<close>.
\<close>

definition load_jump_table :: "'f zenv \<Rightarrow> 'f \<Rightarrow> (ZHeaderTrailer \<times> JumpTable) option option" where
  "load_jump_table E f =
     (let (ret, buf) = io_pread (io E) f Z_SPACE 0; h = z_of buf in
      if ret < int Z_SPACE then Some None
      else if \<not> z_verify_magic h \<or> \<not> z_flag Z_HEADER h then Some None
      else if \<not> z_is_valid E buf then Some None
      else let (ret, st_size) = io_size (io E) f in
      if ret < 0 then Some None
      else do {
        r \<leftarrow> (if \<not> z_flag Z_HEADER_OVERWRITE h then
                 if \<not> z_flag Z_TYPE h then Some None
                 else if st_size < Z_SPACE then Some None
                 else let (ret, buf) = io_pread (io E) f Z_SPACE (st_size - Z_SPACE); h = z_of buf in
                   if ret < int Z_SPACE then Some None
                   else if \<not> z_verify_magic h \<or> z_flag Z_HEADER h \<or> \<not> z_flag Z_TYPE h \<or> \<not> z_flag Z_SEALED h then Some None
                   else if trunc 64 (z_index_size h * 4) > sub64 (st_size - Z_SPACE) (z_index_offset h) then Some None
                   else Some (Some h)
               else Some (Some h));
        case r of
          None \<Rightarrow> Some None
        | Some h \<Rightarrow> do {
            bug_on (z_index_size h * 4 \<ge> 2 ^ 64);
            let (ok, ibuf) = read_index E f (z_index_offset h) (z_index_size h * 4);
            if \<not> ok then Some None
            else if z_flag Z_CALC_DIGEST h \<and> crc32c E ibuf \<noteq> z_index_crc h then Some None
            else do {
              (ret, jt) \<leftarrow> build (u32s_of (z_index_size h) ibuf) (Z_SPACE + z_dict_size (z_options h)) (z_block_size (z_options h)) (z_verify (z_options h) \<noteq> 0);
              Some (if ret \<noteq> 0 then None else Some (h, jt))
            }
          }
      })"

text \<open>
  The flag \<open>verify\<close> only decides about the retries: it is combined with the option of the header after the
  header was copied into the new object. The object is made even when there is no compressor for the
  algorithm; using this null pointer is undefined.
\<close>

fun zfile_open_ro :: "'f zenv \<Rightarrow> 'f \<Rightarrow> bool \<Rightarrow> bool \<Rightarrow> nat \<Rightarrow> 'f CompressionFile option option" where
  "zfile_open_ro E f verify ownership retry = do {
     r \<leftarrow> load_jump_table E f;
     case r of
       None \<Rightarrow>
         if \<not> verify then Some None
         else let (res, f) = io_evict E f in
           if res < 0 then Some None
           else (case retry of 0 \<Rightarrow> Some None | Suc n \<Rightarrow> zfile_open_ro E f verify ownership n)
     | Some (h, jt) \<Rightarrow> do {
         let n = z_index_size h;
         let (ok, raw) = (if z_flag Z_FASTCDC h
           then let (readn, bs) = io_pread (io E) f (n * 4) (z_index_offset h + n * 4) in (readn = int (n * 4), u32s_of n bs)
           else (True, []));
         if \<not> ok then Some None
         else Some (Some \<lparr>jump_table = jt, raw_block_sizes = raw, cf_ht = h, cf_file = f, cf_compressor = create_compressor E (z_options h),
           cf_ownership = ownership, valid = FLAG_VALID_TRUE\<rparr>)
       }
   }"

declare zfile_open_ro.simps [simp del]

text \<open>\<open>retry\<close> starts at 2.\<close>

definition zfile_open :: "'f zenv \<Rightarrow> 'f \<Rightarrow> bool \<Rightarrow> bool \<Rightarrow> 'f CompressionFile option option" where
  "zfile_open E f verify ownership = zfile_open_ro E f verify ownership 2"

text \<open>\<open>is_zfile\<close>.\<close>

definition is_zfile :: "'f zenv \<Rightarrow> 'f \<Rightarrow> int" where
  "is_zfile E f =
     (let (ret, buf) = io_pread (io E) f Z_SPACE 0; h = z_of buf in
      if ret < int Z_SPACE then - 1
      else if \<not> z_verify_magic h \<or> \<not> z_flag Z_HEADER h then 0
      else if \<not> z_is_valid E buf then - 1 else 1)"


section \<open>Well-formed objects\<close>

text \<open>
  The object represents the blocks \<open>chunks\<close>, stored as \<open>stored\<close> from the position \<open>base\<close> of its file on. With
  FastCDC the blocks have any length, otherwise all but the last have the length of the options.
\<close>

definition stored_as :: "'f zenv \<Rightarrow> 'f CompressionFile \<Rightarrow> u8 list \<Rightarrow> u8 list \<Rightarrow> bool" where
  "stored_as E zf chunk st \<longleftrightarrow> (\<exists>code c. code \<noteq> [] \<and> cf_compressor zf = Some c \<and>
     st = code @ (if z_verify (z_options (cf_ht zf)) \<noteq> 0 then u32_bytes (crc32c_salt E code) else []) \<and>
     decompress E c code (z_block_size (z_options (cf_ht zf))) = Some chunk) \<and> length st \<le> MAX_READ_SIZE"

definition represents :: "'f zenv \<Rightarrow> ('f \<Rightarrow> u8 list) \<Rightarrow> 'f CompressionFile \<Rightarrow> nat \<Rightarrow> u8 list list \<Rightarrow> u8 list list \<Rightarrow> bool" where
  "represents E content zf base chunks stored \<longleftrightarrow>
     length stored = length chunks \<and> base + length (concat stored) < 2 ^ 64 \<and>
     take (length (concat stored)) (drop base (content (cf_file zf))) = concat stored \<and>
     (\<forall>i \<le> length chunks. jt_at (jump_table zf) i = Some (base + start_of (map length stored) i)) \<and>
     (\<forall>i < length chunks. stored_as E zf (chunks ! i) (stored ! i) \<and> chunks ! i \<noteq> [] \<and> length (chunks ! i) \<le> z_block_size (z_options (cf_ht zf))) \<and>
     0 < z_block_size (z_options (cf_ht zf)) \<and> z_block_size (z_options (cf_ht zf)) \<le> MAX_READ_SIZE \<and>
     z_original_file_size (cf_ht zf) = length (concat chunks) \<and> length (concat chunks) < 2 ^ 63 \<and> valid zf = FLAG_VALID_TRUE \<and>
     (if z_flag Z_FASTCDC (cf_ht zf) then raw_block_sizes zf = map length chunks
      else (\<forall>i. Suc i < length chunks \<longrightarrow> length (chunks ! i) = z_block_size (z_options (cf_ht zf))))"

lemma start_of_all: "start_of (map length xs) (length xs) = length (concat xs)"
  by (simp add: start_of_def length_concat)

lemma start_of_le: "start_of (map length xs) i \<le> length (concat xs)"
  using start_of_mono [of i "max i (length xs)" "map length xs"] by (simp add: start_of_def length_concat max_def split: if_splits)

lemma take_concat_start: "i \<le> length xs \<Longrightarrow> take (start_of (map length xs) i) (concat xs) = concat (take i xs)"
proof -
  assume "i \<le> length xs"
  then have "concat xs = concat (take i xs) @ concat (drop i xs)" by (metis append_take_drop_id concat_append)
  moreover have "start_of (map length xs) i = length (concat (take i xs))" by (simp add: start_of_def length_concat take_map)
  ultimately show ?thesis by simp
qed

lemma drop_concat_start: "i \<le> length xs \<Longrightarrow> drop (start_of (map length xs) i) (concat xs) = concat (drop i xs)"
proof -
  assume "i \<le> length xs"
  then have "concat xs = concat (take i xs) @ concat (drop i xs)" by (metis append_take_drop_id concat_append)
  moreover have "start_of (map length xs) i = length (concat (take i xs))" by (simp add: start_of_def length_concat take_map)
  ultimately show ?thesis by simp
qed

text \<open>A range of the concatenation, from inside of a block to inside of a block.\<close>

lemma concat_window:
  assumes "b \<le> m" "m < length cs" "s \<le> length (cs ! b)" "t \<le> length (cs ! m)"
  shows "concat (map (\<lambda>i. drop (if i = b then s else 0) (take (if i = m then t else length (cs ! i)) (cs ! i))) [b..<Suc m]) =
    drop (start_of (map length cs) b + s) (take (start_of (map length cs) m + t) (concat cs))"
proof -
  let ?f = "\<lambda>i. drop (if i = b then s else 0) (take (if i = m then t else length (cs ! i)) (cs ! i))"
  have m: "take (start_of (map length cs) m + t) (concat cs) = concat (take m cs) @ take t (cs ! m)"
    using assms(2,4) by (simp add: take_add take_concat_start drop_concat_start flip: Cons_nth_drop_Suc)
  have len: "length (concat (take i cs)) = start_of (map length cs) i" for i by (simp add: start_of_def length_concat take_map)
  show ?thesis
  proof (cases "b = m")
    case True
    then show ?thesis unfolding m by (simp add: start_of_def length_concat take_map)
  next
    case False
    then have bm: "b < m" using assms(1) by simp
    have "[b..<Suc m] = b # [Suc b..<m] @ [m]" using bm upt_conv_Cons [OF bm] by simp
    moreover have "map ?f [Suc b..<m] = map ((!) cs) [Suc b..<m]" using bm by (intro map_cong) auto
    moreover have "map ((!) cs) [Suc b..<m] = drop (Suc b) (take m cs)" using assms(2) by (intro nth_equalityI) simp_all
    ultimately have l: "concat (map ?f [b..<Suc m]) = drop s (cs ! b) @ concat (drop (Suc b) (take m cs)) @ take t (cs ! m)" using bm by simp
    have "take m cs = take b cs @ cs ! b # drop (Suc b) (take m cs)"
      using id_take_nth_drop [of b "take m cs"] bm assms(2) by simp
    then have "concat (take m cs) = concat (take b cs) @ cs ! b @ concat (drop (Suc b) (take m cs))"
      by (metis concat.simps(2) concat_append)
    moreover have "length (concat (take b cs)) = start_of (map length cs) b" by (rule len)
    ultimately show ?thesis unfolding m l using assms(3) by simp
  qed
qed

lemma representsD:
  assumes "represents E content zf base chunks stored" "i < length chunks"
  obtains code c where "code \<noteq> []" "cf_compressor zf = Some c"
    "stored ! i = code @ (if z_verify (z_options (cf_ht zf)) \<noteq> 0 then u32_bytes (crc32c_salt E code) else [])"
    "decompress E c code (z_block_size (z_options (cf_ht zf))) = Some (chunks ! i)" "length (stored ! i) \<le> MAX_READ_SIZE"
    "chunks ! i \<noteq> []" "length (chunks ! i) \<le> z_block_size (z_options (cf_ht zf))"
  using assms by (auto simp: represents_def stored_as_def)

lemma blocks_length:
  assumes "represents E content zf base chunks stored" "b \<le> e" "e \<le> length chunks"
  shows "get_blocks_length zf b e = Some (start_of (map length stored) e - start_of (map length stored) b)"
proof -
  let ?p = "start_of (map length stored)"
  have "jt_at (jump_table zf) e = Some (base + ?p e)" "jt_at (jump_table zf) b = Some (base + ?p b)" using assms by (auto simp: represents_def)
  moreover have "sub64 (base + ?p e) (base + ?p b) = ?p e - ?p b"
    using start_of_mono [OF assms(2), of "map length stored"] start_of_le [of stored e] assms(1) by (subst sub64_eq) (auto simp: represents_def)
  ultimately show ?thesis using assms(2) by (simp add: get_blocks_length_def)
qed

text \<open>The bytes of the file from the block \<open>b\<close> on.\<close>

lemma stored_bytes:
  assumes "represents E content zf base chunks stored" "b \<le> i" "i < length chunks" "start_of (map length stored) (Suc i) - start_of (map length stored) b \<le> n"
    and "take n buf = take n (drop (base + start_of (map length stored) b) (content (cf_file zf)))"
  shows "take (length (stored ! i)) (drop (start_of (map length stored) i - start_of (map length stored) b) buf) = stored ! i"
    "start_of (map length stored) i - start_of (map length stored) b + length (stored ! i) \<le> length buf"
proof -
  let ?p = "start_of (map length stored)" and ?C = "content (cf_file zf)"
  have r: "length stored = length chunks" "take (length (concat stored)) (drop base ?C) = concat stored" using assms(1) by (simp_all add: represents_def)
  have ps: "?p (Suc i) = ?p i + length (stored ! i)" "?p b \<le> ?p i" "?p (Suc i) \<le> length (concat stored)"
    using assms(2,3) r(1) start_of_le [of stored "Suc i"] by (simp_all add: start_of_mono)
  have "take (?p (Suc i)) (drop base ?C) = take (?p (Suc i)) (concat stored)" using arg_cong [OF r(2), of "take (?p (Suc i))"] ps(3) by (simp add: min_def)
  then have st: "take (length (stored ! i)) (drop (?p i) (drop base ?C)) = take (length (stored ! i)) (drop (?p i) (concat stored))"
    unfolding ps(1) by (metis add_diff_cancel_left' drop_take)
  also have "\<dots> = stored ! i" using assms(3) r(1) by (simp add: drop_concat_start flip: Cons_nth_drop_Suc)
  finally have st: "take (length (stored ! i)) (drop (?p i) (drop base ?C)) = stored ! i" .
  have d: "?p i - ?p b + length (stored ! i) \<le> n" using assms(4) ps by simp
  have "take (length (stored ! i)) (drop (?p i - ?p b) (take n buf)) = take (length (stored ! i)) (drop (?p i - ?p b) (take n (drop (base + ?p b) ?C)))"
    using assms(5) by simp
  moreover have "take (length (stored ! i)) (drop (?p i - ?p b) (take n xs)) = take (length (stored ! i)) (drop (?p i - ?p b) xs)" for xs :: "u8 list"
    using d by (simp add: drop_take min_def)
  moreover have "drop (?p i - ?p b) (drop (base + ?p b) ?C) = drop (?p i) (drop base ?C)" using ps(2) by (simp add: add.commute)
  ultimately show e: "take (length (stored ! i)) (drop (?p i - ?p b) buf) = stored ! i" using st by simp
  show "?p i - ?p b + length (stored ! i) \<le> length buf"
  proof (cases "stored ! i = []")
    case True
    from representsD [OF assms(1,3)] have "stored ! i \<noteq> []" by (metis append_is_Nil_conv)
    then show ?thesis using True by simp
  next
    case False
    have "length (stored ! i) \<le> length buf - (?p i - ?p b)" using arg_cong [OF e, of length] by simp
    then show ?thesis using False by (cases "stored ! i") auto
  qed
qed


section \<open>The iteration over the blocks\<close>

text \<open>The part of each block that is wanted: from \<open>s i\<close> to \<open>t i\<close>.\<close>

definition windows :: "'f CompressionFile \<Rightarrow> u8 list list \<Rightarrow> BlockReader \<Rightarrow> nat \<Rightarrow> (nat \<Rightarrow> nat) \<Rightarrow> (nat \<Rightarrow> nat) \<Rightarrow> bool" where
  "windows zf chunks br first s t \<longleftrightarrow>
     (\<forall>i. first \<le> i \<and> i < m_end_idx br \<longrightarrow>
        (if i = m_original_begin_idx br then get_inblock_offset zf (m_original_offset br) i = Some (s i) else s i = 0) \<and>
        (if Suc i = m_end_idx br then \<exists>k. get_inblock_offset zf (m_end br) i = Some k \<and> t i = k + 1 else t i = length (chunks ! i)) \<and>
        s i \<le> t i \<and> t i \<le> length (chunks ! i))"

definition same_range :: "BlockReader \<Rightarrow> BlockReader \<Rightarrow> bool" where
  "same_range br br' \<longleftrightarrow> m_original_begin_idx br' = m_original_begin_idx br \<and> m_end_idx br' = m_end_idx br \<and>
     m_original_offset br' = m_original_offset br \<and> m_end br' = m_end br \<and> m_verify br' = m_verify br \<and> m_block_size br' = m_block_size br"

lemma windows_same: "same_range br br' \<Longrightarrow> windows zf chunks br' first s t = windows zf chunks br first s t"
  by (simp add: windows_def same_range_def)

definition reading :: "('f \<Rightarrow> u8 list) \<Rightarrow> 'f CompressionFile \<Rightarrow> nat \<Rightarrow> u8 list list \<Rightarrow> u8 list list \<Rightarrow> BlockReader \<Rightarrow> bool" where
  "reading content zf base chunks stored br \<longleftrightarrow>
     (let p = start_of (map length stored); b = m_begin_idx br; i = m_idx br; n = min MAX_READ_SIZE (p (m_end_idx br) - p b) in
      b \<le> i \<and> i < m_end_idx br \<and> m_end_idx br \<le> length chunks \<and> p (Suc i) - p b \<le> MAX_READ_SIZE \<and> m_eno br = 0 \<and>
      m_verify br = (z_verify (z_options (cf_ht zf)) \<noteq> 0) \<and> m_block_size br = z_block_size (z_options (cf_ht zf)) \<and>
      take n (m_buf br) = take n (drop (base + p b) (content (cf_file zf))))"

definition the_block :: "'f CompressionFile \<Rightarrow> u8 list list \<Rightarrow> (nat \<Rightarrow> nat) \<Rightarrow> (nat \<Rightarrow> nat) \<Rightarrow> nat \<Rightarrow> block" where
  "the_block zf stored s t i =
     \<lparr>blk_compressed_size = length (stored ! i) - (if z_verify (z_options (cf_ht zf)) \<noteq> 0 then 4 else 0), cp_begin = s i, cp_len = t i - s i\<rparr>"

lemma u32_bytes_length [simp]: "length (u32_bytes w) = 4"
  by (simp add: u32_bytes_def del: le_bytes.simps)

lemma stored_nonempty:
  assumes "represents E content zf base chunks stored" "i < length chunks"
  shows "(if z_verify (z_options (cf_ht zf)) \<noteq> 0 then 4 else 0) < length (stored ! i)" "length (stored ! i) \<le> MAX_READ_SIZE"
  by (rule representsD [OF assms]; simp)+

lemma start_stored:
  assumes "represents E content zf base chunks stored" "i < length chunks"
  shows "start_of (map length stored) (Suc i) = start_of (map length stored) i + length (stored ! i)"
  using assms by (simp add: represents_def)

lemma MAX_READ_64: "n \<le> MAX_READ_SIZE \<Longrightarrow> n < 2 ^ 64"
  by (simp add: MAX_READ_SIZE_def)

lemma current_block:
  assumes R: "represents E content zf base chunks stored" and r: "reading content zf base chunks stored br"
    and w: "windows zf chunks br first s t" "first \<le> m_idx br"
  shows "get_current_block zf br = Some (Some (the_block zf stored s t (m_idx br)),
    br\<lparr>m_buf_offset := start_of (map length stored) (m_idx br) - start_of (map length stored) (m_begin_idx br)\<rparr>)"
proof -
  let ?p = "start_of (map length stored)" and ?b = "m_begin_idx br" and ?i = "m_idx br" and ?v = "z_verify (z_options (cf_ht zf)) \<noteq> 0"
  have b: "?b \<le> ?i" "?i < m_end_idx br" "?i < length chunks" "?p (Suc ?i) - ?p ?b \<le> MAX_READ_SIZE" "m_verify br = ?v"
    "m_block_size br = z_block_size (z_options (cf_ht zf))" using r by (auto simp: reading_def Let_def)
  note ne = stored_nonempty [OF R b(3)] and st = start_stored [OF R b(3)]
  have le: "?p ?b \<le> ?p ?i" using b(1) by (rule start_of_mono)
  have l1: "get_blocks_length zf ?b ?i = Some (?p ?i - ?p ?b)" using b(1,3) by (intro blocks_length [OF R]) simp_all
  have l2: "get_blocks_length zf ?i (Suc ?i) = Some (length (stored ! ?i))" using b(3) st by (subst blocks_length [OF R]) simp_all
  have cs: "compressed_size zf (br\<lparr>m_buf_offset := x\<rparr>) = Some (length (stored ! ?i) - (if ?v then 4 else 0))" for x
    using ne(1) l2 b(5) sub64_eq [of 4 "length (stored ! ?i)"] sub64_eq [of 0 "length (stored ! ?i)"] MAX_READ_64 [OF ne(2)]
    by (cases ?v) (simp_all add: compressed_size_def)
  have c: "\<not> ?p ?i - ?p ?b \<ge> MAX_READ_SIZE" "\<not> ?p ?i - ?p ?b + (length (stored ! ?i) - (if ?v then 4 else 0)) > MAX_READ_SIZE"
    using b(4) st ne le by simp_all
  from w b(2) have W: "if ?i = m_original_begin_idx br then get_inblock_offset zf (m_original_offset br) ?i = Some (s ?i) else s ?i = 0"
    "if Suc ?i = m_end_idx br then \<exists>k. get_inblock_offset zf (m_end br) ?i = Some k \<and> t ?i = k + 1 else t ?i = length (chunks ! ?i)"
    "s ?i \<le> t ?i" "t ?i \<le> length (chunks ! ?i)" unfolding windows_def by blast+
  have bs: "reader_block_size zf (br\<lparr>m_buf_offset := x\<rparr>) = length (chunks ! ?i)" if "Suc ?i \<noteq> m_end_idx br" for x
  proof -
    have "Suc ?i < length chunks" using that b(2) r by (simp add: reading_def Let_def)
    then show ?thesis using R b(3,6) by (auto simp: reader_block_size_def variable_blocks_def represents_def)
  qed
  have "length (chunks ! ?i) \<le> MAX_READ_SIZE" using R b(3) by (auto simp: represents_def)
  then have sl: "sub64 (t ?i) (s ?i) = t ?i - s ?i" using W(3,4) MAX_READ_64 [of "t ?i"] by (intro sub64_eq) simp_all
  have e: "int ?i = int (m_end_idx br) - 1 \<longleftrightarrow> Suc ?i = m_end_idx br" by linarith
  let ?br = "br\<lparr>m_buf_offset := ?p ?i - ?p ?b\<rparr>"
  have "(if m_idx ?br = m_original_begin_idx ?br then get_inblock_offset zf (m_original_offset ?br) (m_idx ?br) else Some 0) = Some (s ?i)"
    using W(1) by (cases "?i = m_original_begin_idx br") simp_all
  moreover have "(if int (m_idx ?br) = int (m_end_idx ?br) - 1
     then do { inblock_end \<leftarrow> get_inblock_offset zf (m_end ?br) (m_idx ?br); Some (inblock_end + 1) }
     else Some (reader_block_size zf ?br)) = Some (t ?i)" using W(2) bs e by (cases "Suc ?i = m_end_idx br") auto
  ultimately show ?thesis
    using l1 c sl unfolding get_current_block_def Let_def by (simp add: cs e the_block_def split del: if_split)
qed

lemma read_blocks_spec:
  assumes R: "represents E content zf base chunks stored" and P: "full_reads (io E) content" and b: "b < e" "e \<le> length chunks"
  shows "\<exists>buf. read_blocks E zf b e br = Some (0, br\<lparr>m_buf := buf\<rparr>) \<and>
    (let n = min MAX_READ_SIZE (start_of (map length stored) e - start_of (map length stored) b) in
     take n buf = take n (drop (base + start_of (map length stored) b) (content (cf_file zf))))"
proof -
  let ?p = "start_of (map length stored)" and ?C = "content (cf_file zf)"
  define n where "n = min MAX_READ_SIZE (?p e - ?p b)"
  have l: "get_blocks_length zf b e = Some (?p e - ?p b)" using b by (intro blocks_length [OF R]) simp_all
  have j: "jt_at (jump_table zf) b = Some (base + ?p b)" using R b by (simp add: represents_def)
  have "length (concat stored) \<le> length ?C - base"
    using R by (metis (no_types, lifting) length_drop length_take min.cobounded1 min_def represents_def)
  then have C: "n \<le> length ?C - (base + ?p b)" using start_of_le [of stored e] start_of_mono [of b e "map length stored"] b(1) by (simp add: n_def)
  have pr: "io_pread (io E) (cf_file zf) n (base + ?p b) = (int n, take n (drop (base + ?p b) ?C))"
    using io_pread_full [OF P, of "cf_file zf" n "base + ?p b"] C by (simp add: min_def)
  have len: "length (take n (drop (base + ?p b) ?C)) = n" using C by simp
  show ?thesis
    using l j pr len unfolding n_def [symmetric]
    by (intro exI [of _ "take n (drop (base + ?p b) ?C) @ drop n (m_buf br)"]) (simp add: read_blocks_def Let_def n_def [symmetric])
qed

text \<open>The state at a block: the reader is at its index and the block is the current one.\<close>

definition at_block :: "('f \<Rightarrow> u8 list) \<Rightarrow> 'f CompressionFile \<Rightarrow> nat \<Rightarrow> u8 list list \<Rightarrow> u8 list list \<Rightarrow> BlockReader \<Rightarrow> bool" where
  "at_block content zf base chunks stored br \<longleftrightarrow> reading content zf base chunks stored br \<and>
     m_buf_offset br = start_of (map length stored) (m_idx br) - start_of (map length stored) (m_begin_idx br)"

lemma first_block_spec:
  assumes R: "represents E content zf base chunks stored" and P: "full_reads (io E) content"
    and br: "m_begin_idx br = i" "m_idx br = i" "i < m_end_idx br" "m_end_idx br \<le> length chunks" "m_eno br = 0"
      "m_verify br = (z_verify (z_options (cf_ht zf)) \<noteq> 0)" "m_block_size br = z_block_size (z_options (cf_ht zf))"
    and w: "windows zf chunks br i s t"
  shows "\<exists>br'. first_block E zf br = Some (Some (the_block zf stored s t i), br') \<and> at_block content zf base chunks stored br' \<and>
    same_range br br' \<and> m_idx br' = i"
proof -
  from read_blocks_spec [OF R P br(3,4), of br] obtain buf where
    rb: "read_blocks E zf i (m_end_idx br) br = Some (0, br\<lparr>m_buf := buf\<rparr>)"
      "(let n = min MAX_READ_SIZE (start_of (map length stored) (m_end_idx br) - start_of (map length stored) i) in
       take n buf = take n (drop (base + start_of (map length stored) i) (content (cf_file zf))))" by blast
  have i: "i < length chunks" using br(3,4) by simp
  have r: "reading content zf base chunks stored (br\<lparr>m_buf := buf\<rparr>)"
    using br rb(2) start_stored [OF R i] stored_nonempty(2) [OF R i] by (simp add: reading_def Let_def)
  have "windows zf chunks (br\<lparr>m_buf := buf\<rparr>) i s t" using w by (subst windows_same [of br]) (simp_all add: same_range_def)
  from current_block [OF R r this] br(1,2) have
    "get_current_block zf (br\<lparr>m_buf := buf\<rparr>) = Some (Some (the_block zf stored s t i), br\<lparr>m_buf := buf, m_buf_offset := 0\<rparr>)" by simp
  moreover have "at_block content zf base chunks stored (br\<lparr>m_buf := buf, m_buf_offset := 0\<rparr>)"
    using r br(1,2) by (simp add: at_block_def reading_def)
  ultimately show ?thesis using rb(1) br(2) by (simp add: first_block_def same_range_def)
qed

lemma next_block_spec:
  assumes R: "represents E content zf base chunks stored" and P: "full_reads (io E) content"
    and at: "at_block content zf base chunks stored br" and w: "windows zf chunks br first s t" "first \<le> m_idx br"
  shows "if Suc (m_idx br) = m_end_idx br
    then \<exists>br'. next_block E zf br = Some (None, br') \<and> m_eno br' = 0
    else \<exists>br'. next_block E zf br = Some (Some (the_block zf stored s t (Suc (m_idx br))), br') \<and> at_block content zf base chunks stored br' \<and>
      same_range br br' \<and> m_idx br' = Suc (m_idx br)"
proof (cases "Suc (m_idx br) = m_end_idx br")
  case True
  then show ?thesis using at by (simp add: next_block_def at_block_def reading_def Let_def)
next
  case False
  let ?p = "start_of (map length stored)" and ?i = "Suc (m_idx br)" and ?b = "m_begin_idx br" and ?br = "br\<lparr>m_idx := Suc (m_idx br)\<rparr>"
  have r: "?b \<le> m_idx br" "m_idx br < m_end_idx br" "m_end_idx br \<le> length chunks" "m_eno br = 0" "m_verify br = (z_verify (z_options (cf_ht zf)) \<noteq> 0)"
    "m_block_size br = z_block_size (z_options (cf_ht zf))"
    "(let n = min MAX_READ_SIZE (?p (m_end_idx br) - ?p ?b) in take n (m_buf br) = take n (drop (base + ?p ?b) (content (cf_file zf))))"
    using at by (simp_all add: at_block_def reading_def Let_def)
  have i: "?i < m_end_idx br" "?i < length chunks" using False r(2,3) by simp_all
  have l: "get_blocks_length zf ?b (Suc ?i) = Some (?p (Suc ?i) - ?p ?b)" using r(1) i(2) by (intro blocks_length [OF R]) simp_all
  define X where "X = (if ?p (Suc ?i) - ?p ?b > MAX_READ_SIZE then do {
                      (r, br) \<leftarrow> read_blocks E zf ?i (m_end_idx br) ?br;
                      Some (r, if r \<noteq> 0 then br else br\<lparr>m_begin_idx := m_idx br\<rparr>)
                    } else Some (0, ?br))"
  have "\<exists>br1. X = Some (0, br1) \<and> reading content zf base chunks stored br1 \<and> same_range br br1 \<and> m_idx br1 = ?i"
  proof (cases "?p (Suc ?i) - ?p ?b > MAX_READ_SIZE")
    case True
    from read_blocks_spec [OF R P i(1) r(3), of ?br] obtain buf where
      rb: "read_blocks E zf ?i (m_end_idx br) ?br = Some (0, ?br\<lparr>m_buf := buf\<rparr>)"
        "(let n = min MAX_READ_SIZE (?p (m_end_idx br) - ?p ?i) in take n buf = take n (drop (base + ?p ?i) (content (cf_file zf))))" by blast
    then show ?thesis
      using True r i start_stored [OF R i(2)] stored_nonempty(2) [OF R i(2)]
      by (simp add: X_def reading_def same_range_def Let_def)
  next
    case False
    then show ?thesis using r i by (simp add: X_def reading_def same_range_def Let_def)
  qed
  then obtain br1 where br1: "X = Some (0, br1)" "reading content zf base chunks stored br1" "same_range br br1" "m_idx br1 = ?i" by blast
  have "windows zf chunks br1 first s t" "first \<le> m_idx br1" using w br1(4) by (simp_all add: windows_same [OF br1(3)])
  from current_block [OF R br1(2) this] have
    "get_current_block zf br1 = Some (Some (the_block zf stored s t ?i), br1\<lparr>m_buf_offset := ?p ?i - ?p (m_begin_idx br1)\<rparr>)" using br1(4) by simp
  moreover have "at_block content zf base chunks stored (br1\<lparr>m_buf_offset := ?p ?i - ?p (m_begin_idx br1)\<rparr>)"
    using br1(2,4) by (simp add: at_block_def reading_def)
  moreover have "next_block E zf br = X \<bind> (\<lambda>(r, br). if r \<noteq> 0 then Some (None, br\<lparr>m_idx := m_end_idx br\<rparr>)
       else do {
         (b, br) \<leftarrow> get_current_block zf br;
         Some (b, case b of None \<Rightarrow> br\<lparr>m_idx := m_end_idx br\<rparr> | Some b \<Rightarrow> br)
       })"
    using False l by (simp add: next_block_def X_def Let_def)
  ultimately have "next_block E zf br = Some (Some (the_block zf stored s t ?i), br1\<lparr>m_buf_offset := ?p ?i - ?p (m_begin_idx br1)\<rparr>)"
    "at_block content zf base chunks stored (br1\<lparr>m_buf_offset := ?p ?i - ?p (m_begin_idx br1)\<rparr>)" using br1(1) by simp_all
  then show ?thesis using False br1(3,4) by (simp add: same_range_def)
qed


section \<open>One block, and all of them\<close>

definition piece :: "u8 list list \<Rightarrow> (nat \<Rightarrow> nat) \<Rightarrow> (nat \<Rightarrow> nat) \<Rightarrow> nat \<Rightarrow> u8 list" where
  "piece chunks s t i = drop (s i) (take (t i) (chunks ! i))"

lemma buf_slice_append: "take (length (xs @ ys)) (drop off buf) = xs @ ys \<Longrightarrow> off + length (xs @ ys) \<le> length buf \<Longrightarrow>
    buf_slice buf off (length xs) = Some xs \<and> buf_slice buf (off + length xs) (length ys) = Some ys"
proof -
  assume a: "take (length (xs @ ys)) (drop off buf) = xs @ ys" and l: "off + length (xs @ ys) \<le> length buf"
  have "drop off buf = (xs @ ys) @ drop (length (xs @ ys)) (drop off buf)" using a by (metis append_take_drop_id)
  then obtain r where r: "drop off buf = xs @ ys @ r" by (metis append.assoc)
  have "drop (off + length xs) buf = drop (length xs) (drop off buf)" by (simp add: add.commute)
  also have "\<dots> = ys @ r" by (simp add: r)
  finally show ?thesis using r l by (simp add: buf_slice_def)
qed

lemma block_in_buffer:
  assumes R: "represents E content zf base chunks stored" and at: "at_block content zf base chunks stored br"
  shows "take (length (stored ! m_idx br)) (drop (m_buf_offset br) (m_buf br)) = stored ! m_idx br"
    "m_buf_offset br + length (stored ! m_idx br) \<le> length (m_buf br)" "m_idx br < length chunks"
proof -
  let ?p = "start_of (map length stored)"
  have r: "m_begin_idx br \<le> m_idx br" "m_idx br < m_end_idx br" "m_end_idx br \<le> length chunks" "?p (Suc (m_idx br)) - ?p (m_begin_idx br) \<le> MAX_READ_SIZE"
    "take (min MAX_READ_SIZE (?p (m_end_idx br) - ?p (m_begin_idx br))) (m_buf br) =
     take (min MAX_READ_SIZE (?p (m_end_idx br) - ?p (m_begin_idx br))) (drop (base + ?p (m_begin_idx br)) (content (cf_file zf)))"
    "m_buf_offset br = ?p (m_idx br) - ?p (m_begin_idx br)"
    using at by (simp_all add: at_block_def reading_def Let_def)
  from r show i: "m_idx br < length chunks" by simp
  have "?p (Suc (m_idx br)) \<le> ?p (m_end_idx br)" using r(2) by (intro start_of_mono) simp
  then have "?p (Suc (m_idx br)) - ?p (m_begin_idx br) \<le> min MAX_READ_SIZE (?p (m_end_idx br) - ?p (m_begin_idx br))" using r(4) by simp
  from stored_bytes [OF R r(1) i this r(5)] show "take (length (stored ! m_idx br)) (drop (m_buf_offset br) (m_buf br)) = stored ! m_idx br"
    "m_buf_offset br + length (stored ! m_idx br) \<le> length (m_buf br)" unfolding r(6) by simp_all
qed

lemma read_block_spec:
  assumes R: "represents E content zf base chunks stored" and at: "at_block content zf base chunks stored br"
    and S: "zr_file S = zf" "zr_reader S = br" "zr_buf S = Some buf" "readn S < cnt"
    and i: "m_idx br = i" "s i \<le> t i" "t i \<le> length (chunks ! i)"
    and st: "store (zr_ptr S) (take (cnt - readn S) (piece chunks s t i)) buf = Some buf'"
  shows "read_block E (the_block zf stored s t i) cnt retry S = Some (0, S\<lparr>zr_buf := Some buf',
    zr_ptr := zr_ptr S + min (t i - s i) (cnt - readn S), readn := readn S + min (t i - s i) (cnt - readn S)\<rparr>)"
proof -
  let ?opt = "z_options (cf_ht zf)" and ?v = "z_verify (z_options (cf_ht zf)) \<noteq> 0"
  let ?n = "if readn S + (t i - s i) > cnt then cnt - readn S else t i - s i"
  note B = block_in_buffer [OF R at, unfolded i(1)]
  from representsD [OF R B(3)] obtain code c where c: "code \<noteq> []" "cf_compressor zf = Some c"
    "stored ! i = code @ (if ?v then u32_bytes (crc32c_salt E code) else [])"
    "decompress E c code (z_block_size ?opt) = Some (chunks ! i)" "length (stored ! i) \<le> MAX_READ_SIZE" "length (chunks ! i) \<le> z_block_size ?opt" by metis
  have v: "valid zf = FLAG_VALID_TRUE" "m_verify br = ?v" using R at by (simp_all add: represents_def at_block_def reading_def Let_def)
  have cs: "blk_compressed_size (the_block zf stored s t i) = length code"
    "cp_begin (the_block zf stored s t i) = s i" "cp_len (the_block zf stored s t i) = t i - s i" using c(3) by (simp_all add: the_block_def)
  note sl = buf_slice_append [OF B(1,2) [unfolded c(3)]]
  have crc: "(if ?v then do {
                     cs \<leftarrow> compressed_size zf br;
                     code' \<leftarrow> buf_slice (m_buf br) (m_buf_offset br + cs) 4;
                     Some (u32_bytes (crc32c_salt E code) = code')
                   } else Some True) = Some True"
  proof (cases ?v)
    case True
    have "get_blocks_length zf i (Suc i) = Some (length (stored ! i))"
      using B(3) start_stored [OF R B(3)] by (subst blocks_length [OF R]) simp_all
    moreover have "sub64 (length code + 4) 4 = length code" using c(5) MAX_READ_64 [OF c(5)] c(3) True by (subst sub64_eq) simp_all
    ultimately have "compressed_size zf br = Some (length code)" using True v(2) i(1) c(3) by (simp add: compressed_size_def)
    then show ?thesis using True sl by simp
  qed simp
  have n: "?n = min (t i - s i) (cnt - readn S)" using S(4) by auto
  have p: "take (cnt - readn S) (piece chunks s t i) = take ?n (drop (s i) (chunks ! i))"
    unfolding n by (simp add: piece_def drop_take min.commute)
  have copy: "(if t i - s i = z_block_size ?opt \<and> ?n = t i - s i then store (zr_ptr S) (chunks ! i) buf
                   else do {
                     part \<leftarrow> buf_slice (chunks ! i) (s i) ?n;
                     store (zr_ptr S) part buf
                   }) = Some buf'"
  proof (cases "t i - s i = z_block_size ?opt \<and> ?n = t i - s i")
    case True
    then have "s i = 0" "t i = length (chunks ! i)" "chunks ! i \<noteq> []" using i(3) c(6) R B(3) by (auto simp: represents_def)
    moreover have "take (cnt - readn S) (piece chunks s t i) = take (t i - s i) (drop (s i) (chunks ! i))"
      unfolding p conjunct2 [OF True] ..
    ultimately have "take (cnt - readn S) (piece chunks s t i) = chunks ! i" by simp
    then show ?thesis unfolding if_P [OF True] using st by simp
  next
    case False
    have "s i + ?n \<le> length (chunks ! i)" using i(2,3) n by simp
    then have "buf_slice (chunks ! i) (s i) ?n = Some (take ?n (drop (s i) (chunks ! i)))" by (simp only: buf_slice_def if_True)
    then show ?thesis unfolding if_not_P [OF False] using st p by (simp split del: if_split)
  qed
  show ?thesis
    using sl crc c(2,4) copy v S
    unfolding n [symmetric] by (subst read_block.simps) (simp add: cs FLAG_VALID_TRUE_def FLAG_VALID_CRC_CHECK_def Let_def split del: if_split cong: if_cong)
qed


lemma store_split: "store p (xs @ ys) b = Some b' \<Longrightarrow> \<exists>b1. store p xs b = Some b1 \<and> store (p + length xs) ys b1 = Some b'"
  by (auto simp: store_def ac_simps split: if_splits)

lemma read_loop_None: "read_loop E cnt None S = Some (0, S)"
  by (subst read_loop.simps) simp

text \<open>\<open>k\<close> bytes more have been copied.\<close>

definition copied :: "'f zread \<Rightarrow> BlockReader \<Rightarrow> u8 list \<Rightarrow> nat \<Rightarrow> 'f zread" where
  "copied S br buf k = S\<lparr>zr_reader := br, zr_buf := Some buf, zr_ptr := zr_ptr S + k, readn := readn S + k\<rparr>"

lemma copied_simps [simp]:
  "zr_file (copied S br buf k) = zr_file S" "zr_reader (copied S br buf k) = br" "zr_buf (copied S br buf k) = Some buf"
  "zr_ptr (copied S br buf k) = zr_ptr S + k" "readn (copied S br buf k) = readn S + k"
  "copied (copied S br buf k) br' buf' k' = copied S br' buf' (k + k')"
  by (simp_all add: copied_def ac_simps)

lemma windowsD:
  assumes "windows zf chunks br first s t" "first \<le> i" "i < m_end_idx br"
  shows "s i \<le> t i" "t i \<le> length (chunks ! i)"
  using assms by (auto simp: windows_def)

lemma read_loop_spec:
  assumes R: "represents E content zf base chunks stored" and P: "full_reads (io E) content"
  shows "at_block content zf base chunks stored br \<Longrightarrow> windows zf chunks br first s t \<Longrightarrow> first \<le> m_idx br \<Longrightarrow>
    zr_file S = zf \<Longrightarrow> zr_reader S = br \<Longrightarrow> zr_buf S = Some buf \<Longrightarrow> readn S \<le> cnt \<Longrightarrow>
    store (zr_ptr S) (take (cnt - readn S) (concat (map (piece chunks s t) [m_idx br..<m_end_idx br]))) buf = Some buf' \<Longrightarrow>
    \<exists>br'. m_eno br' = 0 \<and> read_loop E cnt (Some (the_block zf stored s t (m_idx br))) S =
      Some (0, copied S br' buf' (min (cnt - readn S) (length (concat (map (piece chunks s t) [m_idx br..<m_end_idx br])))))"
proof (induction "m_end_idx br - m_idx br" arbitrary: br S buf)
  case 0
  then show ?case by (simp add: at_block_def reading_def Let_def)
next
  case (Suc d)
  note at = Suc.prems(1) and w = Suc.prems(2,3) and S = Suc.prems(4,5,6) and st = Suc.prems(8)
  let ?i = "m_idx br" and ?e = "m_end_idx br"
  define T where "T = concat (map (piece chunks s t) [Suc ?i..<?e])"
  have i: "?i < ?e" using Suc.hyps(2) by simp
  have T: "concat (map (piece chunks s t) [?i..<?e]) = piece chunks s t ?i @ T" using upt_conv_Cons [OF i] by (simp add: T_def)
  note st = windowsD [OF w i] and eno = at [unfolded at_block_def reading_def Let_def]
  have len: "length (piece chunks s t ?i) = t ?i - s ?i" using st(2) by (simp add: piece_def)
  show ?case
  proof (cases "readn S < cnt")
    case False
    then have "store (zr_ptr S) [] buf = Some buf'" using Suc.prems(8) by simp
    then have "copied S br buf' 0 = S" using S by (simp add: copied_def store_def split: if_splits)
    then show ?thesis using False S eno by (subst read_loop.simps) (auto intro!: exI [of _ br])
  next
    case True
    define k where "k = min (t ?i - s ?i) (cnt - readn S)"
    have "length (take (cnt - readn S) (piece chunks s t ?i)) = k" by (simp add: len k_def min.commute)
    moreover have "take (cnt - readn S - (t ?i - s ?i)) T = take (cnt - (readn S + k)) T" by (simp add: k_def min_def)
    ultimately obtain b1 where
      b1: "store (zr_ptr S) (take (cnt - readn S) (piece chunks s t ?i)) buf = Some b1"
        "store (zr_ptr S + k) (take (cnt - (readn S + k)) T) b1 = Some buf'"
      using store_split [OF Suc.prems(8) [unfolded T take_append]] unfolding len by metis
    have rb: "read_block E (the_block zf stored s t ?i) cnt 3 S = Some (0, copied S br b1 k)"
      using read_block_spec [OF R at S True refl st b1(1), of 3] S(2) by (simp add: copied_def k_def)
    show ?thesis
    proof (cases "Suc ?i = ?e")
      case True
      from next_block_spec [OF R P at w] True obtain br' where n: "next_block E zf br = Some (None, br')" "m_eno br' = 0" by auto
      have "T = []" using True by (simp add: T_def)
      moreover from this have "buf' = b1" using b1(2) by (simp add: store_def split: if_splits)
      ultimately show ?thesis
        using n rb S \<open>readn S < cnt\<close> by (subst read_loop.simps) (auto simp: T len k_def min.commute read_loop_None copied_def intro!: exI [of _ br'])
    next
      case False
      from next_block_spec [OF R P at w] False obtain br1 where
        n: "next_block E zf br = Some (Some (the_block zf stored s t (Suc ?i)), br1)" "at_block content zf base chunks stored br1" "same_range br br1"
          "m_idx br1 = Suc ?i" by auto
      have e: "m_end_idx br1 = ?e" using n(3) by (simp add: same_range_def)
      have w1: "windows zf chunks br1 first s t" "first \<le> m_idx br1" using w n(4) by (simp_all add: windows_same [OF n(3)])
      have "d = m_end_idx br1 - m_idx br1" using Suc.hyps(2) e n(4) by simp
      moreover have "readn S + k \<le> cnt" using \<open>readn S < cnt\<close> by (simp add: k_def)
      ultimately obtain br' where
        br': "m_eno br' = 0" "read_loop E cnt (Some (the_block zf stored s t (Suc ?i))) (copied S br1 b1 k) =
          Some (0, copied S br' buf' (k + min (cnt - (readn S + k)) (length T)))"
        using Suc.hyps(1) [OF _ n(2) w1, of "copied S br1 b1 k" b1] b1(2) S(1) unfolding n(4) e T_def [symmetric] by auto
      have k: "k + min (cnt - (readn S + k)) (length T) = min (cnt - readn S) (t ?i - s ?i + length T)" unfolding k_def by linarith
      have cp: "(copied S br b1 k)\<lparr>zr_reader := br1\<rparr> = copied S br1 b1 k" by (simp add: copied_def)
      have "read_loop E cnt (Some (the_block zf stored s t ?i)) S = read_loop E cnt (Some (the_block zf stored s t (Suc ?i))) (copied S br1 b1 k)"
        using n(1) rb S \<open>readn S < cnt\<close> by (subst read_loop.simps) (simp add: cp)
      then show ?thesis using br' unfolding k by (auto simp: T len)
    qed
  qed
qed

end
