(* ===== verification/ZFile_Pread.thy ===== *)
theory ZFile_Pread
  imports ZFile_Read
begin

text \<open>
  What \<open>CompressionFile::pread\<close> returns: the bytes of the blocks, from the position \<open>read_start\<close> on.
\<close>

section \<open>The range of blocks\<close>

lemma find_begin_at:
  "i < length ss \<Longrightarrow> c + start_of ss i \<le> off \<Longrightarrow> off < c + start_of ss (Suc i) \<Longrightarrow> find_begin c k ss off = k + i"
proof (induction ss arbitrary: i c k)
  case (Cons x ss)
  show ?case
  proof (cases i)
    case 0
    then show ?thesis using Cons.prems by (simp add: start_of_def)
  next
    case (Suc j)
    have "x \<le> start_of (x # ss) i" using Suc by (simp add: start_of_def)
    then show ?thesis using Cons.prems Cons.IH [of j "c + x" "k + 1"] Suc by (simp add: start_of_def add.assoc)
  qed
qed simp

lemma find_end_at:
  "i < length ss \<Longrightarrow> c + start_of ss i \<le> off \<Longrightarrow> off < c + start_of ss (Suc i) \<Longrightarrow> find_end c k ss off = k + i + 1"
proof (induction ss arbitrary: i c k)
  case (Cons x ss)
  show ?case
  proof (cases i)
    case 0
    then show ?thesis using Cons.prems by (simp add: start_of_def)
  next
    case (Suc j)
    have "x \<le> start_of (x # ss) i" using Suc by (simp add: start_of_def)
    then show ?thesis using Cons.prems Cons.IH [of j "c + x" "k + 1"] Suc by (simp add: start_of_def add.assoc)
  qed
qed simp

lemma block_of:
  assumes "off < length (concat cs)"
  obtains i where "i < length cs" "start_of (map length cs) i \<le> off" "off < start_of (map length cs) (Suc i)"
proof -
  have "\<exists>i < length cs. start_of (map length cs) i \<le> off \<and> off < start_of (map length cs) (Suc i)" using assms
  proof (induction cs rule: rev_induct)
    case (snoc c cs)
    show ?case
    proof (cases "off < length (concat cs)")
      case True
      from snoc.IH [OF this] obtain i where "i < length cs" "start_of (map length cs) i \<le> off \<and> off < start_of (map length cs) (Suc i)" by blast
      then show ?thesis by (intro exI [of _ i]) (simp add: start_of_def)
    next
      case False
      then show ?thesis using snoc.prems by (intro exI [of _ "length cs"]) (simp add: start_of_def length_concat)
    qed
  qed simp
  then show thesis using that by blast
qed

text \<open>Blocks of one length.\<close>

lemma start_fixed:
  assumes "\<forall>i. Suc i < length cs \<longrightarrow> length (cs ! i) = b"
  shows "i < length cs \<Longrightarrow> start_of (map length cs) i = i * b"
  using assms by (induction i) simp_all

definition read_start :: "'f CompressionFile \<Rightarrow> nat \<Rightarrow> nat" where
  "read_start zf offset = (let bs = z_block_size (z_options (cf_ht zf)) in
     if z_flag Z_FASTCDC (cf_ht zf) \<or> offset < bs then offset else offset div bs * bs)"

definition block_s :: "'f CompressionFile \<Rightarrow> u8 list list \<Rightarrow> nat \<Rightarrow> nat \<Rightarrow> nat \<Rightarrow> nat" where
  "block_s zf chunks off b i = (if i = b then read_start zf off - start_of (map length chunks) b else 0)"

definition block_t :: "u8 list list \<Rightarrow> nat \<Rightarrow> nat \<Rightarrow> nat \<Rightarrow> nat" where
  "block_t chunks last_byte m i = (if i = m then Suc last_byte - start_of (map length chunks) m else length (chunks ! i))"

lemma range_of_reader:
  assumes R: "represents E content zf base chunks stored" and r: "off \<le> stop" "stop < length (concat chunks)"
  obtains br b m where "new_BlockReader zf off (Suc stop - off) = Some br" "m_begin_idx br = b" "m_idx br = b" "b < m_end_idx br"
    "m_end_idx br = Suc m" "m < length chunks" "m_eno br = 0" "m_verify br = (z_verify (z_options (cf_ht zf)) \<noteq> 0)"
    "m_block_size br = z_block_size (z_options (cf_ht zf))" "windows zf chunks br b (block_s zf chunks off b) (block_t chunks stop m)"
    "start_of (map length chunks) b \<le> read_start zf off" "read_start zf off \<le> off" "off < start_of (map length chunks) (Suc b)"
    "start_of (map length chunks) m \<le> stop" "stop < start_of (map length chunks) (Suc m)"
proof -
  let ?p = "start_of (map length chunks)" and ?bs = "z_block_size (z_options (cf_ht zf))"
  have "off < length (concat chunks)" using r by simp
  then obtain b where b: "b < length chunks" "?p b \<le> off" "off < ?p (Suc b)" by (rule block_of)
  from r(2) obtain m where m: "m < length chunks" "?p m \<le> stop" "stop < ?p (Suc m)" by (rule block_of)
  have bm: "b \<le> m"
  proof (rule ccontr)
    assume "\<not> b \<le> m"
    then have "?p (Suc m) \<le> ?p b" by (intro start_of_mono) simp
    then show False using b(2) m(3) r(1) by simp
  qed
  have bs: "0 < ?bs" and tot: "length (concat chunks) < 2 ^ 63" and le: "\<forall>i < length chunks. length (chunks ! i) \<le> ?bs" using R by (auto simp: represents_def)
  have sub: "sub64 x y = x - y" if "y \<le> x" "x \<le> stop" for x y using that r tot by (intro sub64_eq) simp_all
  show thesis
  proof (cases "z_flag Z_FASTCDC (cf_ht zf)")
    case True
    then have raw: "raw_block_sizes zf = map length chunks" using R by (simp add: represents_def)
    have v: "variable_blocks zf" using True raw b(1) by (auto simp: variable_blocks_def)
    define br where "br = \<lparr>m_buf_offset = 0, m_begin_idx = b, m_original_begin_idx = b, m_idx = b, m_end_idx = Suc m, m_original_offset = off,
       m_end = stop, m_verify = (z_verify (z_options (cf_ht zf)) \<noteq> 0), m_block_size = ?bs, m_eno = 0, m_buf = []\<rparr>"
    have "find_begin 0 0 (map length chunks) off = b" "find_end 0 0 (map length chunks) stop = Suc m"
      using find_begin_at [of b "map length chunks" 0 off 0] find_end_at [of m "map length chunks" 0 stop 0] b m by simp_all
    then have new: "new_BlockReader zf off (Suc stop - off) = Some br" using v raw r(1) by (simp add: new_BlockReader_def br_def Let_def)
    have io: "get_inblock_offset zf x i = Some (x - ?p i)" if "i < length chunks" "?p i \<le> x" "x \<le> stop" for x i
      using v raw that sub [of "?p i" x] by (simp add: get_inblock_offset_def start_of_def)
    have st: "read_start zf off = off" using True by (simp add: read_start_def Let_def)
    have W: "windows zf chunks br b (block_s zf chunks off b) (block_t chunks stop m)"
      using io [OF b(1,2) r(1)] io [OF m(1,2)] b m bm r(1) by (auto simp: windows_def br_def block_s_def block_t_def st)
    show thesis using that [OF new _ _ _ _ m(1) _ _ _ W _ _ b(3) m(2,3)] b(2) bm st by (simp add: br_def)
  next
    case False
    then have fixed: "\<forall>i. Suc i < length chunks \<longrightarrow> length (chunks ! i) = ?bs" using R by (simp add: represents_def)
    note sf = start_fixed [OF fixed]
    have div: "x div ?bs = i" "x mod ?bs = x - ?p i" if "i < length chunks" "?p i \<le> x" "x < ?p (Suc i)" for x i
    proof -
      have "x < i * ?bs + ?bs" using that le sf [OF that(1)] by (metis add_le_cancel_left length_map nth_map order_less_le_trans start_of_simps(2))
      then show "x div ?bs = i" using that(2) sf [OF that(1)] by (metis div_nat_eqI mult.commute mult_Suc add.commute)
      then show "x mod ?bs = x - ?p i" using sf [OF that(1)] by (metis minus_div_mult_eq_mod)
    qed
    have v: "\<not> variable_blocks zf" using False by (simp add: variable_blocks_def)
    define br where "br = \<lparr>m_buf_offset = 0, m_begin_idx = b, m_original_begin_idx = 0, m_idx = b, m_end_idx = Suc m, m_original_offset = off,
       m_end = stop, m_verify = (z_verify (z_options (cf_ht zf)) \<noteq> 0), m_block_size = ?bs, m_eno = 0, m_buf = []\<rparr>"
    have new: "new_BlockReader zf off (Suc stop - off) = Some br"
      using v r(1) bs div(1) [OF b] div(1) [OF m] by (simp add: new_BlockReader_def br_def Let_def)
    have io: "get_inblock_offset zf x i = Some (x - ?p i)" if "i < length chunks" "?p i \<le> x" "x < ?p (Suc i)" for x i
      using v bs div(2) [OF that] by (simp add: get_inblock_offset_def)
    have st: "read_start zf off = (if b = 0 then off else ?p b)"
      using False div(1) [OF b] sf [OF b(1)] bs by (auto simp: read_start_def Let_def div_eq_0_iff div_greater_zero_iff)
    have W: "windows zf chunks br b (block_s zf chunks off b) (block_t chunks stop m)"
      using io [OF b] io [OF m] b m bm r(1) by (auto simp: windows_def br_def block_s_def block_t_def st)
    show thesis using that [OF new _ _ _ _ m(1) _ _ _ W _ _ b(3) m(2,3)] b(2) bm st by (simp add: br_def)
  qed
qed

text \<open>The bytes that a read of \<open>count\<close> bytes at \<open>off\<close> returns.\<close>

definition read_bytes :: "'f CompressionFile \<Rightarrow> u8 list list \<Rightarrow> nat \<Rightarrow> nat \<Rightarrow> u8 list" where
  "read_bytes zf chunks count off = take (min count (length (concat chunks) - off)) (drop (read_start zf off) (concat chunks))"

lemma pread_bytes:
  assumes R: "represents E content zf base chunks stored" and P: "full_reads (io E) content"
    and st: "store 0 (read_bytes zf chunks count off) buf = Some buf'"
  shows "zfile_pread E zf (Some buf) count off = Some (int (min count (length (concat chunks) - off)), Some buf', zf)"
proof (cases "count = 0 \<or> length (concat chunks) \<le> off")
  case True
  then have "buf' = buf" using st by (auto simp: read_bytes_def store_def)
  then show ?thesis using R True by (auto simp: zfile_pread_def represents_def Let_def)
next
  case False
  define n where "n = min count (length (concat chunks) - off)"
  define stop where "stop = off + n - 1"
  have n: "0 < n" "n = Suc stop - off" "off \<le> stop" "stop < length (concat chunks)" using False by (auto simp: n_def stop_def)
  from range_of_reader [OF R n(3,4)] obtain br b m where br: "new_BlockReader zf off (Suc stop - off) = Some br" "m_begin_idx br = b" "m_idx br = b"
    "b < m_end_idx br" "m_end_idx br = Suc m" "m < length chunks" "m_eno br = 0" "m_verify br = (z_verify (z_options (cf_ht zf)) \<noteq> 0)"
    "m_block_size br = z_block_size (z_options (cf_ht zf))" "windows zf chunks br b (block_s zf chunks off b) (block_t chunks stop m)"
    "start_of (map length chunks) b \<le> read_start zf off" "read_start zf off \<le> off" "off < start_of (map length chunks) (Suc b)"
    "start_of (map length chunks) m \<le> stop" "stop < start_of (map length chunks) (Suc m)" by blast
  let ?p = "start_of (map length chunks)" and ?s = "block_s zf chunks off b" and ?t = "block_t chunks stop m" and ?rs = "read_start zf off"
  have bm: "b \<le> m" "m_end_idx br \<le> length chunks" using br(4,5,6) by simp_all
  from first_block_spec [OF R P br(2,3,4) bm(2) br(7,8,9,10)] obtain br1 where
    f: "first_block E zf br = Some (Some (the_block zf stored ?s ?t b), br1)" "at_block content zf base chunks stored br1" "same_range br br1" "m_idx br1 = b"
    by blast
  have "concat (map (piece chunks ?s ?t) [b..<Suc m]) =
    concat (map (\<lambda>i. drop (if i = b then ?rs - ?p b else 0) (take (if i = m then Suc stop - ?p m else length (chunks ! i)) (chunks ! i))) [b..<Suc m])"
    by (intro arg_cong [where f = concat] map_cong refl) (simp only: piece_def block_s_def block_t_def)
  also have "\<dots> = drop (?p b + (?rs - ?p b)) (take (?p m + (Suc stop - ?p m)) (concat chunks))"
    using br(6,11,12,13,14,15) bm by (intro concat_window) simp_all
  finally have T: "concat (map (piece chunks ?s ?t) [b..<Suc m]) = drop ?rs (take (Suc stop) (concat chunks))" using br(11,14) by simp
  have len: "length (drop ?rs (take (Suc stop) (concat chunks))) = Suc stop - ?rs" using n(4) by simp
  have d: "take n (drop ?rs (take (Suc stop) (concat chunks))) = read_bytes zf chunks count off"
  proof -
    have "n \<le> Suc stop - ?rs" using br(12) n(2) by simp
    then have "take n (drop ?rs (take (Suc stop) (concat chunks))) = take n (drop ?rs (concat chunks))" by (simp only: drop_take take_take min.absorb1)
    then show ?thesis by (simp only: read_bytes_def n_def)
  qed
  define S where "S = \<lparr>zr_file = zf, zr_reader = br1, zr_buf = Some buf, zr_ptr = 0, readn = 0\<rparr>"
  have w1: "windows zf chunks br1 b ?s ?t" using br(10) by (simp add: windows_same [OF f(3)])
  have e1: "m_end_idx br1 = Suc m" using f(3) br(5) by (simp add: same_range_def)
  have "\<exists>br'. m_eno br' = 0 \<and> read_loop E n (Some (the_block zf stored ?s ?t b)) S = Some (0, copied S br' buf' (min n (Suc stop - ?rs)))"
    using read_loop_spec [OF R P f(2) w1, of S buf n buf'] st unfolding f(4) e1 T len by (simp add: S_def d)
  moreover have "min n (Suc stop - ?rs) = n" using n(2) br(12) by simp
  ultimately obtain br' where br': "m_eno br' = 0" "read_loop E n (Some (the_block zf stored ?s ?t b)) S = Some (0, copied S br' buf' n)" by metis
  have tot: "z_original_file_size (cf_ht zf) = length (concat chunks)" "\<not> z_block_size (z_options (cf_ht zf)) > MAX_READ_SIZE"
    using R by (simp_all add: represents_def)
  have cnt: "(if off + count > length (concat chunks) then int (length (concat chunks)) - int off else int count) = int n" using False by (auto simp: n_def)
  have rl: "read_loop E n (Some (the_block zf stored ?s ?t b)) \<lparr>zr_file = zf, zr_reader = br1, zr_buf = Some buf, zr_ptr = 0, readn = 0\<rparr> =
    Some (0, copied S br' buf' n)" using br'(2) by (simp only: S_def)
  have "zfile_pread E zf (Some buf) count off = Some (int n, Some buf', zf)"
    unfolding zfile_pread_def Let_def tot(1) cnt using n(1) br(1) [folded n(2)] f(1) br'(1) rl tot(2)
    by (simp add: S_def copied_def)
  then show ?thesis by (simp only: n_def)
qed

lemma read_start_exact: "z_flag Z_FASTCDC (cf_ht zf) \<or> off < z_block_size (z_options (cf_ht zf)) \<or> z_block_size (z_options (cf_ht zf)) dvd off \<Longrightarrow>
    read_start zf off = off"
  by (auto simp: read_start_def Let_def)

lemma read_bytes_exact: "read_start zf off = off \<Longrightarrow> read_bytes zf chunks count off = take count (drop off (concat chunks))"
  by (simp add: read_bytes_def min_def)

end
