(* ===== verification/ZFile_Compress.thy ===== *)
theory ZFile_Compress
  imports ZFile_Pread
begin

text \<open>
  Writing compressed files: \<open>zfile_compress\<close>, \<open>zfile_decompress\<close>, \<open>zfile_validation_check\<close> and the streaming
  \<open>ZFileBuilder\<close> of \<open>overlaybd/zfile/zfile.cpp\<close>.
\<close>

section \<open>Compressing a file\<close>

text \<open>
  The variables of \<open>zfile_compress\<close>: the two files, the globals of the FastCDC library, the lengths of the blocks
  stored and before compression, and the offsets. The lengths are written as 4 bytes each.
\<close>

record 'f zcomp =
  zc_file :: 'f
  zc_as :: 'f
  zc_cdc :: fastcdc_globals
  block_len :: "nat list"
  raw_block_len :: "nat list"
  zc_moffset :: nat
  infile_size :: nat

definition u32s_bytes :: "nat list \<Rightarrow> u8 list" where
  "u32s_bytes ns = concat (map (le_bytes 4) ns)"

text \<open>The blocks of a batch are written, each with the checksum of its compressed bytes.\<close>

fun write_blocks :: "'f zenv \<Rightarrow> bool \<Rightarrow> (u8 list \<times> nat) list \<Rightarrow> 'f zcomp \<Rightarrow> int \<times> 'f zcomp" where
  "write_blocks E crc32_verify [] s = (0, s)"
| "write_blocks E crc32_verify ((bs, raw) # rest) s =
     (let (ret, f) = io_write (io E) (zc_as s) bs; s = s\<lparr>zc_as := f\<rparr> in
      if ret < int (length bs) then (- 1, s)
      else
        let (ret, f) = (if crc32_verify then io_write (io E) f (u32_bytes (crc32c_salt E bs)) else (4, f));
            n = length bs + (if crc32_verify then 4 else 0); s = s\<lparr>zc_as := f\<rparr> in
        if ret < 4 then (- 1, s)
        else write_blocks E crc32_verify rest
          (s\<lparr>block_len := block_len s @ [n], raw_block_len := raw_block_len s @ [raw], zc_moffset := zc_moffset s + n\<rparr>))"

definition compress_chunks :: "'f zenv \<Rightarrow> compressor \<Rightarrow> bool \<Rightarrow> nat \<Rightarrow> u8 list \<Rightarrow> nat list \<Rightarrow> 'f zcomp \<Rightarrow> int \<times> 'f zcomp" where
  "compress_chunks E c crc32_verify buf_size src raw_chunk_len s =
     (case compress_batch E c src raw_chunk_len (length raw_chunk_len * buf_size) of
        None \<Rightarrow> (- 1, s)
      | Some bss \<Rightarrow> write_blocks E crc32_verify (zip bss raw_chunk_len) s)"

text \<open>
  The chunking loop with FastCDC over the bytes that were read. The result has the start of the current batch and
  its lengths.
\<close>

partial_function (option) fastcdc_loop ::
    "'f zenv \<Rightarrow> compressor \<Rightarrow> FastCDCChunker \<Rightarrow> bool \<Rightarrow> nat \<Rightarrow> u8 list \<Rightarrow> nat \<Rightarrow> nat \<Rightarrow> nat list \<Rightarrow> 'f zcomp \<Rightarrow> (int \<times> nat \<times> nat list \<times> 'f zcomp) option" where
  "fastcdc_loop E c chunker crc32_verify buf_size raw_data offset batch_start lens s =
     (if offset < length raw_data then do {
        let remaining = length raw_data - offset;
        (g, chunk_size) \<leftarrow> next_chunk chunker (zc_cdc s) (Some (drop offset raw_data)) remaining;
        let chunk_size = (if chunk_size = 0 \<or> chunk_size > remaining then remaining else chunk_size);
        let s = s\<lparr>zc_cdc := g\<rparr>;
        let lens = lens @ [chunk_size];
        let offset = offset + chunk_size;
        if length lens \<ge> nbatch c then
          let (ret, s) = compress_chunks E c crc32_verify buf_size (drop batch_start raw_data) lens s in
          if ret \<noteq> 0 then Some (- 1, batch_start, lens, s)
          else fastcdc_loop E c chunker crc32_verify buf_size raw_data offset offset [] s
        else fastcdc_loop E c chunker crc32_verify buf_size raw_data offset batch_start lens s
      } else Some (0, batch_start, lens, s))"

text \<open>Blocks of one size. With the size 0 the loop would write past the array of lengths.\<close>

partial_function (option) fixed_chunks :: "nat \<Rightarrow> nat \<Rightarrow> nat list option" where
  "fixed_chunks block_size n =
     (if n = 0 then Some []
      else if n < block_size then Some [n]
      else do { r \<leftarrow> fixed_chunks block_size (n - block_size); Some (block_size # r) })"

partial_function (option) compress_loop ::
    "'f zenv \<Rightarrow> compressor \<Rightarrow> FastCDCChunker option \<Rightarrow> bool \<Rightarrow> nat \<Rightarrow> nat \<Rightarrow> 'f zcomp \<Rightarrow> (int \<times> 'f zcomp) option" where
  "compress_loop E c chunker crc32_verify block_size buf_size s = do {
     let (got, raw_data, f) = io_read E (zc_file s) (trunc 32 (block_size * nbatch c));
     let s = s\<lparr>zc_file := f\<rparr>;
     if got = 0 then Some (0, s)
     else if got < 0 then Some (- 1, s)
     else do {
       let s = s\<lparr>infile_size := infile_size s + nat got\<rparr>;
       (ret, src, lens, s) \<leftarrow> (case chunker of
           Some ch \<Rightarrow> do {
             (ret, batch_start, lens, s) \<leftarrow> fastcdc_loop E c ch crc32_verify buf_size raw_data 0 0 [] s;
             Some (ret, drop batch_start raw_data, lens, s)
           }
         | None \<Rightarrow> do { lens \<leftarrow> fixed_chunks block_size (nat got); Some (0, raw_data, lens, s) });
       if ret \<noteq> 0 then Some (- 1, s)
       else do {
         let (ret, s) = (if lens \<noteq> [] then compress_chunks E c crc32_verify buf_size src lens s else (0, s));
         if ret \<noteq> 0 then Some (- 1, s)
         else compress_loop E c chunker crc32_verify block_size buf_size s
       }
     }
   }"

text \<open>
  The end of the file: the index, with FastCDC the lengths before compression, the trailer, and on request the
  header once more with what is known now.
\<close>

definition write_index_trailer ::
    "'f zenv \<Rightarrow> bool \<Rightarrow> nat list option \<Rightarrow> nat list \<Rightarrow> nat \<Rightarrow> nat \<Rightarrow> ZHeaderTrailer \<Rightarrow> 'f \<Rightarrow> int \<times> 'f" where
  "write_index_trailer E rewrite raw lens moff rawlen pht f =
     (let index = u32s_bytes lens; (ret, f) = io_write (io E) f index in
      if ret \<noteq> int (length index) then (- 1, f)
      else
        let pht = pht\<lparr>z_index_crc := crc32c E index\<rparr>;
            (ok, f) = (case raw of None \<Rightarrow> (True, f)
              | Some ns \<Rightarrow> let (ret, f) = io_write (io E) f (u32s_bytes ns) in (ret = int (length (u32s_bytes ns)), f)) in
        if \<not> ok then (- 1, f)
        else
          let pht = pht\<lparr>z_index_offset := moff, z_index_size := length lens, z_original_file_size := rawlen\<rparr>;
              (ret, f, pht) = z_write_header_trailer E f False True True pht None in
          if ret < 0 then (- 1, f)
          else if rewrite then
            let (ret, f, pht) = z_write_header_trailer E f True False True pht (Some 0) in
            if ret < 0 then (- 1, f) else (0, f)
          else (0, f))"

text \<open>
  \<open>zfile_compress\<close>: null pointers are \<open>None\<close>. The compressor is created for the block size of the arguments,
  which with FastCDC is not the size that the header gets.
\<close>

definition zfile_compress ::
    "'f zenv \<Rightarrow> (u8 list \<Rightarrow> u8 list) \<Rightarrow> 'f option \<Rightarrow> 'f option \<Rightarrow> CompressArgs option \<Rightarrow> bool \<times> fastcdc_globals \<Rightarrow>
     (int \<times> 'f option \<times> 'f option \<times> bool \<times> fastcdc_globals) option" where
  "zfile_compress E MD5 file as args cdc =
     (case (args, file, as) of
        (Some args, Some file, Some as) \<Rightarrow>
          let opt = z_opt args;
              opt = (if use_fastcdc args then opt\<lparr>z_block_size := unat (fastcdc_max_size args)\<rparr> else opt) in
          (case create_compressor E (z_opt args) of
             None \<Rightarrow> Some (- 1, Some file, Some as, cdc)
           | Some c \<Rightarrow>
               let pht = z_new opt;
                   pht = (if use_fastcdc args then z_set_flag Z_FASTCDC True pht else pht);
                   (ret, as, pht) = z_write_header_trailer E as True False True pht None in
               if ret < 0 then Some (- 1, Some file, Some as, cdc)
               else do {
                 let block_size = z_block_size opt;
                 let (chunker, cdc) = (if use_fastcdc args
                   then let (ch, cdc) = new_FastCDCChunker MD5 (fastcdc_min_size args) (fastcdc_avg_size args) (fastcdc_max_size args) cdc in (Some ch, cdc)
                   else (None, cdc));
                 let buf_size = block_size + BUF_SIZE;
                 (ret, s) \<leftarrow> compress_loop E c chunker (z_verify opt \<noteq> 0) block_size buf_size
                   \<lparr>zc_file = file, zc_as = as, zc_cdc = snd cdc, block_len = [], raw_block_len = [], zc_moffset = Z_SPACE + z_dict_size opt, infile_size = 0\<rparr>;
                 let cdc = (fst cdc, zc_cdc s);
                 if ret \<noteq> 0 then Some (- 1, Some (zc_file s), Some (zc_as s), cdc)
                 else
                   let (ret, as) = write_index_trailer E (overwrite_header args) (if use_fastcdc args then Some (raw_block_len s) else None)
                     (block_len s) (zc_moffset s) (infile_size s) pht (zc_as s) in
                   Some (ret, Some (zc_file s), Some as, cdc)
               })
      | _ \<Rightarrow> Some (- 1, file, as, cdc))"

section \<open>Decompressing and checking\<close>

text \<open>The buffer starts with any bytes (zeros here); only what has been read into it is written.\<close>

partial_function (option) decompress_loop ::
    "'f zenv \<Rightarrow> nat \<Rightarrow> nat \<Rightarrow> nat \<Rightarrow> 'f CompressionFile \<Rightarrow> u8 list \<Rightarrow> 'f \<Rightarrow> (int \<times> 'f) option" where
  "decompress_loop E raw_data_size block_size offset zf raw_buf dst =
     (if offset < raw_data_size then do {
        let len = min block_size (raw_data_size - offset);
        (got, buf, zf) \<leftarrow> zfile_pread E zf (Some raw_buf) len offset;
        if got \<le> 0 then Some (- 1, dst)
        else do {
          raw_buf \<leftarrow> buf;
          let n = min (nat got) len;
          let (writen, dst) = io_write (io E) dst (take n raw_buf);
          if writen \<noteq> int n then Some (- 1, dst)
          else decompress_loop E raw_data_size block_size (offset + n) zf raw_buf dst
        }
      } else Some (0, dst))"

text \<open>A failing \<open>fstat\<close> leaves its buffer uninitialised.\<close>

definition zfile_decompress :: "'f zenv \<Rightarrow> 'f \<Rightarrow> 'f \<Rightarrow> (int \<times> 'f) option" where
  "zfile_decompress E src dst = do {
     r \<leftarrow> zfile_open E src True False;
     case r of
       None \<Rightarrow> Some (- 1, dst)
     | Some zf \<Rightarrow> do {
         bug_on (fst (io_size (io E) (cf_file zf)) \<noteq> 0);
         let block_size = z_block_size (z_options (cf_ht zf));
         decompress_loop E (z_original_file_size (cf_ht zf)) block_size 0 zf (replicate block_size 0) dst
       }
   }"

partial_function (option) validation_loop :: "'f zenv \<Rightarrow> nat \<Rightarrow> nat \<Rightarrow> nat \<Rightarrow> 'f CompressionFile \<Rightarrow> u8 list \<Rightarrow> int option" where
  "validation_loop E raw_data_size block_size offset zf raw_buf =
     (if offset < raw_data_size then do {
        let len = min block_size (raw_data_size - offset);
        (got, buf, zf) \<leftarrow> zfile_pread E zf (Some raw_buf) len offset;
        raw_buf \<leftarrow> buf;
        if got \<noteq> int len then Some (- 1)
        else validation_loop E raw_data_size block_size (offset + block_size) zf raw_buf
      } else Some 0)"

definition zfile_validation_check :: "'f zenv \<Rightarrow> 'f \<Rightarrow> int option" where
  "zfile_validation_check E src = do {
     r \<leftarrow> zfile_open E src True False;
     case r of
       None \<Rightarrow> Some (- 1)
     | Some zf \<Rightarrow>
         if z_verify (z_options (cf_ht zf)) = 0 then Some (- 1)
         else do {
           let zf = zf\<lparr>valid := FLAG_VALID_CRC_CHECK\<rparr>;
           bug_on (fst (io_size (io E) (cf_file zf)) \<noteq> 0);
           let block_size = z_block_size (z_options (cf_ht zf));
           validation_loop E (z_original_file_size (cf_ht zf)) block_size 0 zf (replicate block_size 0)
         }
   }"

section \<open>The streaming builder\<close>

record 'f ZFileBuilder =
  m_dest :: 'f
  zb_moffset :: nat
  raw_data_size :: nat
  m_buf_size :: nat
  m_args :: CompressArgs
  m_opt :: CompressOptions
  m_compressor :: "compressor option"
  m_block_len :: "nat list"
  reserved_buf :: "u8 list"
  m_ht :: ZHeaderTrailer

text \<open>\<open>reserved_buf\<close> are the \<open>reserved_size\<close> bytes in use of the buffer.\<close>

definition new_ZFileBuilder :: "'f \<Rightarrow> CompressArgs \<Rightarrow> 'f ZFileBuilder" where
  "new_ZFileBuilder f args = \<lparr>m_dest = f, zb_moffset = 0, raw_data_size = 0, m_buf_size = 0, m_args = args, m_opt = z_opt args, m_compressor = None,
     m_block_len = [], reserved_buf = [], m_ht = z_new (z_opt args)\<rparr>"

definition builder_init :: "'f zenv \<Rightarrow> 'f ZFileBuilder \<Rightarrow> int \<times> 'f ZFileBuilder" where
  "builder_init E b =
     (let b = b\<lparr>m_compressor := create_compressor E (z_opt (m_args b))\<rparr> in
      if m_compressor b = None then (- 1, b)
      else
        let (ret, f, h) = z_write_header_trailer E (m_dest b) True False True (z_new (m_opt b)) None;
            b = b\<lparr>m_dest := f, m_ht := h\<rparr> in
        if ret < 0 then (- 1, b)
        else (0, b\<lparr>zb_moffset := Z_SPACE, m_buf_size := z_block_size (m_opt b) + BUF_SIZE\<rparr>))"

text \<open>\<open>compress_data\<close>: the compressed bytes, with their checksum behind them; it has to fit into the buffer.\<close>

definition compress_data :: "'f zenv \<Rightarrow> compressor \<Rightarrow> u8 list \<Rightarrow> nat \<Rightarrow> bool \<Rightarrow> u8 list option option" where
  "compress_data E c buf dest_len gen_crc =
     (case compress_batch E c buf [length buf] dest_len of
        Some [bs] \<Rightarrow>
          if bs = [] then Some None
          else if gen_crc then do { bug_on (length bs + 4 > dest_len); Some (Some (bs @ u32_bytes (crc32c_salt E bs))) }
          else Some (Some bs)
      | _ \<Rightarrow> Some None)"

definition write_buffer :: "'f zenv \<Rightarrow> u8 list \<Rightarrow> 'f ZFileBuilder \<Rightarrow> (int \<times> 'f ZFileBuilder) option" where
  "write_buffer E buf b = do {
     c \<leftarrow> m_compressor b;
     r \<leftarrow> compress_data E c buf (m_buf_size b) (z_verify (m_opt b) \<noteq> 0);
     Some (case r of
       None \<Rightarrow> (- 1, b)
     | Some bs \<Rightarrow>
         let (ret, f) = io_write (io E) (m_dest b) bs; b = b\<lparr>m_dest := f\<rparr> in
         if ret \<noteq> int (length bs) then (- 1, b)
         else (0, b\<lparr>m_block_len := m_block_len b @ [length bs], zb_moffset := zb_moffset b + length bs\<rparr>))
   }"

text \<open>The loop over whole blocks; the rest is kept.\<close>

partial_function (option) write_loop :: "'f zenv \<Rightarrow> u8 list \<Rightarrow> 'f ZFileBuilder \<Rightarrow> (int \<times> 'f ZFileBuilder) option" where
  "write_loop E buf b =
     (if buf = [] then Some (0, b)
      else let n = z_block_size (m_opt b) in
      if n > length buf then Some (0, b\<lparr>reserved_buf := buf\<rparr>)
      else do {
        (ret, b) \<leftarrow> write_buffer E (take n buf) b;
        if ret \<noteq> 0 then Some (- 1, b) else write_loop E (drop n buf) b
      })"

definition builder_write :: "'f zenv \<Rightarrow> u8 list \<Rightarrow> 'f ZFileBuilder \<Rightarrow> (int \<times> 'f ZFileBuilder) option" where
  "builder_write E buf b = do {
     let b = b\<lparr>raw_data_size := raw_data_size b + length buf\<rparr>;
     if reserved_buf b \<noteq> [] \<and> length (reserved_buf b) + length buf < z_block_size (m_opt b)
     then Some (int (length buf), b\<lparr>reserved_buf := reserved_buf b @ buf\<rparr>)
     else do {
       (ret, buf', b) \<leftarrow> (if reserved_buf b \<noteq> [] then do {
            bug_on (length (reserved_buf b) > z_block_size (m_opt b));
            let delta = z_block_size (m_opt b) - length (reserved_buf b);
            (ret, b) \<leftarrow> write_buffer E (reserved_buf b @ take delta buf) b;
            Some (ret, drop delta buf, if ret \<noteq> 0 then b else b\<lparr>reserved_buf := []\<rparr>)
          } else Some (0, buf, b));
       if ret \<noteq> 0 then Some (- 1, b)
       else do {
         (ret, b) \<leftarrow> write_loop E buf' b;
         Some (if ret \<noteq> 0 then - 1 else int (length buf), b)
       }
     }
   }"

text \<open>\<open>close\<close> calls \<open>fini\<close>.\<close>

definition builder_fini :: "'f zenv \<Rightarrow> 'f ZFileBuilder \<Rightarrow> (int \<times> 'f ZFileBuilder) option" where
  "builder_fini E b = do {
     (ret, b) \<leftarrow> (if reserved_buf b \<noteq> [] then write_buffer E (reserved_buf b) b else Some (0, b));
     if ret \<noteq> 0 then Some (- 1, b)
     else
       let (ret, f) = write_index_trailer E (overwrite_header (m_args b)) None (m_block_len b) (zb_moffset b) (raw_data_size b) (m_ht b) (m_dest b) in
       Some (ret, b\<lparr>m_dest := f\<rparr>)
   }"

text \<open>A whole use of the builder: the constructor and \<open>init\<close> of \<open>new_zfile_builder\<close>, writes, \<open>close\<close>.\<close>

fun builder_writes :: "'f zenv \<Rightarrow> u8 list list \<Rightarrow> 'f ZFileBuilder \<Rightarrow> (int \<times> 'f ZFileBuilder) option" where
  "builder_writes E [] b = builder_fini E b"
| "builder_writes E (buf # bufs) b = do {
     (ret, b) \<leftarrow> builder_write E buf b;
     if ret < 0 then Some (- 1, b) else builder_writes E bufs b
   }"

definition new_zfile_builder :: "'f zenv \<Rightarrow> 'f \<Rightarrow> CompressArgs \<Rightarrow> 'f ZFileBuilder option" where
  "new_zfile_builder E f args = (let (ret, b) = builder_init E (new_ZFileBuilder f args) in if ret \<noteq> 0 then None else Some b)"


section \<open>A file that was written is opened\<close>

lemma u32s_of_bytes: "\<forall>n \<in> set ns. n < 2 ^ 32 \<Longrightarrow> u32s_of (length ns) (u32s_bytes ns @ rest) = ns"
proof (induction ns)
  case (Cons n ns)
  have "le_nat (le_bytes 4 n) = n" using Cons.prems by (intro le_nat_id) simp
  then show ?case using Cons by (simp add: u32s_bytes_def del: le_bytes.simps le_nat.simps)
qed simp

lemma length_u32s_bytes [simp]: "length (u32s_bytes ns) = 4 * length ns"
  by (induction ns) (simp_all add: u32s_bytes_def del: le_bytes.simps)

lemma read_index_spec:
  assumes "full_reads (io E) content"
  shows "off + n \<le> length (content f) \<Longrightarrow> read_index E f off n = (True, take n (drop off (content f)))"
proof (induction n arbitrary: off rule: less_induct)
  case (less n)
  show ?case
  proof (cases "n = 0")
    case True
    then show ?thesis by (simp add: read_index.simps)
  next
    case False
    let ?c = "min n (2 ^ 20)"
    have c: "n - ?c < n" "off + ?c + (n - ?c) \<le> length (content f)" "?c \<le> length (content f) - off" using False less.prems by auto
    have "io_pread (io E) f ?c off = (int ?c, take ?c (drop off (content f)))"
      using io_pread_full [OF assms, of f ?c off] c(3) by (simp only: min.absorb1)
    moreover note less.IH [OF c(1,2)]
    moreover have "take ?c (drop off (content f)) @ take (n - ?c) (drop (off + ?c) (content f)) = take n (drop off (content f))"
      using take_add [of ?c "n - ?c" "drop off (content f)"] by (simp add: add.commute)
    ultimately show ?thesis using False by (subst read_index.simps) (simp only: Let_def prod.case if_False simp_thms)
  qed
qed

text \<open>The header \<open>h\<close> that counts: the trailer, or the header if it was written again.\<close>

definition head_of :: "'f zenv \<Rightarrow> ZHeaderTrailer \<Rightarrow> ZHeaderTrailer \<Rightarrow> ZHeaderTrailer \<Rightarrow> bool" where
  "head_of E h0 t h \<longleftrightarrow> z_ok h0 \<and> z_verify_magic h0 \<and> z_flag Z_HEADER h0 \<and> z_is_valid E (z_page h0) \<and> z_flag Z_TYPE h0 \<and>
     z_ok t \<and> z_verify_magic t \<and> \<not> z_flag Z_HEADER t \<and> z_flag Z_TYPE t \<and> z_flag Z_SEALED t \<and>
     h = (if z_flag Z_HEADER_OVERWRITE h0 then h0 else t)"

definition z_image :: "'f zenv \<Rightarrow> u8 list \<Rightarrow> ZHeaderTrailer \<Rightarrow> u8 list \<Rightarrow> nat list \<Rightarrow> u8 list \<Rightarrow> bool" where
  "z_image E c h body lens raw \<longleftrightarrow> (\<exists>h0 t. head_of E h0 t h \<and> c = z_page h0 @ body @ u32s_bytes lens @ raw @ z_page t) \<and>
     z_index_offset h = Z_SPACE + length body \<and> z_index_size h = length lens \<and> z_index_crc h = crc32c E (u32s_bytes lens) \<and>
     length c < 2 ^ 63 \<and> (\<forall>n \<in> set lens. n < 2 ^ 32) \<and> z_dict_size (z_options h) = 0 \<and>
     0 < z_block_size (z_options h) \<and> z_block_size (z_options h) \<le> MAX_READ_SIZE \<and>
     groups_fit (65536 div z_block_size (z_options h)) (if z_verify (z_options h) \<noteq> 0 then 4 else 0) lens"

lemma load_jump_table_image:
  assumes P: "file_laws (io E) content pos" "full_reads (io E) content" and im: "z_image E (content f) h body lens raw"
  shows "load_jump_table E f = Some (Some (h, table_of (65536 div z_block_size (z_options h)) Z_SPACE lens))"
proof -
  from im obtain h0 t where ht: "head_of E h0 t h" and c: "content f = z_page h0 @ body @ u32s_bytes lens @ raw @ z_page t" by (auto simp: z_image_def)
  have h0: "z_ok h0" "z_verify_magic h0" "z_flag Z_HEADER h0" "z_is_valid E (z_page h0)" "z_flag Z_TYPE h0"
    and t: "z_ok t" "z_verify_magic t" "\<not> z_flag Z_HEADER t" "z_flag Z_TYPE t" "z_flag Z_SEALED t" using ht by (simp_all add: head_of_def)
  let ?L = "length (content f)"
  have h: "z_index_offset h = Z_SPACE + length body" "z_index_size h = length lens" "z_index_crc h = crc32c E (u32s_bytes lens)" "?L < 2 ^ 63"
    "\<forall>n \<in> set lens. n < 2 ^ 32" "z_dict_size (z_options h) = 0" "0 < z_block_size (z_options h)" "z_block_size (z_options h) \<le> 65536"
    "groups_fit (65536 div z_block_size (z_options h)) (if z_verify (z_options h) \<noteq> 0 then 4 else 0) lens"
    using im by (simp_all add: z_image_def MAX_READ_SIZE_def)
  have L: "?L = Z_SPACE + length body + 4 * length lens + length raw + Z_SPACE" using h0(1) t(1) by (simp add: c)
  have p0: "io_pread (io E) f Z_SPACE 0 = (int Z_SPACE, z_page h0)" using io_pread_full [OF P(2), of f Z_SPACE 0] h0(1) by (simp add: c)
  have pt: "io_pread (io E) f Z_SPACE (?L - Z_SPACE) = (int Z_SPACE, z_page t)"
    using io_pread_full [OF P(2), of f Z_SPACE "?L - Z_SPACE"] L t(1) h0(1) by (simp add: c)
  have sz: "io_size (io E) f = (0, ?L)" using P(1) by (simp add: file_laws_def)
  have z: "z_of (z_page h0) = h0" "z_of (z_page t) = t" using z_of_page [OF h0(1), of "[]"] z_of_page [OF t(1), of "[]"] by simp_all
  have idx: "take (length lens * 4) (drop (Z_SPACE + length body) (content f)) = u32s_bytes lens" using h0(1) by (simp add: c)
  have "read_index E f (Z_SPACE + length body) (length lens * 4) = (True, u32s_bytes lens)"
    using read_index_spec [OF P(2), of "Z_SPACE + length body" "length lens * 4" f] L idx by simp
  moreover have "u32s_of (length lens) (u32s_bytes lens) = lens" using u32s_of_bytes [OF h(5), of "[]"] by simp
  moreover have "build lens (Z_SPACE + 0) (z_block_size (z_options h)) (z_verify (z_options h) \<noteq> 0) =
    Some (0, table_of (65536 div z_block_size (z_options h)) Z_SPACE lens)" using build_spec [OF h(7,8)] h(9) by simp
  moreover have "\<not> length lens * 4 \<ge> 2 ^ 64" using L h(4) by simp
  moreover have "\<not> trunc 64 (length lens * 4) > sub64 (?L - Z_SPACE) (Z_SPACE + length body)"
  proof -
    have "sub64 (?L - Z_SPACE) (Z_SPACE + length body) = ?L - Z_SPACE - (Z_SPACE + length body)" using L h(4) by (intro sub64_eq) simp_all
    moreover have "trunc 64 (length lens * 4) = length lens * 4" using L h(4) by (intro trunc_id) simp
    ultimately show ?thesis using L by simp
  qed
  moreover have "\<not> ?L < Z_SPACE" using L by simp
  moreover have "h = (if z_flag Z_HEADER_OVERWRITE h0 then h0 else t)" using ht by (simp add: head_of_def)
  ultimately show ?thesis
    using h0 t z p0 pt sz h(1,2,3,6)
    by (cases "z_flag Z_HEADER_OVERWRITE h0") (simp_all add: load_jump_table_def Let_def)
qed


definition encoded :: "'f zenv \<Rightarrow> compressor \<Rightarrow> CompressOptions \<Rightarrow> u8 list \<Rightarrow> u8 list \<Rightarrow> bool" where
  "encoded E c opt chunk st \<longleftrightarrow> (\<exists>code. code \<noteq> [] \<and> st = code @ (if z_verify opt \<noteq> 0 then u32_bytes (crc32c_salt E code) else []) \<and>
     decompress E c code (z_block_size opt) = Some chunk) \<and> length st \<le> MAX_READ_SIZE \<and> chunk \<noteq> [] \<and> length chunk \<le> z_block_size opt"

definition fixed_size :: "nat \<Rightarrow> u8 list list \<Rightarrow> bool" where
  "fixed_size n chunks \<longleftrightarrow> (\<forall>i. Suc i < length chunks \<longrightarrow> length (chunks ! i) = n)"

lemma zfile_open_image:
  assumes P: "file_laws (io E) content pos" "full_reads (io E) content"
    and im: "z_image E (content f) h (concat stored) (map length stored) (if z_flag Z_FASTCDC h then u32s_bytes (map length chunks) else [])"
    and st: "list_all2 (encoded E c (z_options h)) chunks stored" and c: "create_compressor E (z_options h) = Some c"
    and tot: "z_original_file_size h = length (concat chunks)" "length (concat chunks) < 2 ^ 63"
    and g: "65536 div z_block_size (z_options h) = 2 ^ k" and fx: "\<not> z_flag Z_FASTCDC h \<Longrightarrow> fixed_size (z_block_size (z_options h)) chunks"
  obtains zf where "zfile_open E f verify own = Some (Some zf)" "represents E content zf Z_SPACE chunks stored" "cf_ht zf = h" "cf_file zf = f"
proof -
  let ?jt = "table_of (65536 div z_block_size (z_options h)) Z_SPACE (map length stored)"
  define zf where "zf = \<lparr>jump_table = ?jt, raw_block_sizes = (if z_flag Z_FASTCDC h then map length chunks else []), cf_ht = h, cf_file = f,
    cf_compressor = Some c, cf_ownership = own, valid = FLAG_VALID_TRUE\<rparr>"
  have len: "length stored = length chunks" using st by (simp add: list_all2_lengthD)
  have enc: "encoded E c (z_options h) (chunks ! i) (stored ! i)" if "i < length chunks" for i using list_all2_nthD [OF st that] .
  from im obtain h0 t where hd: "head_of E h0 t h" and con: "content f = z_page h0 @ concat stored @ u32s_bytes (map length stored) @
    (if z_flag Z_FASTCDC h then u32s_bytes (map length chunks) else []) @ z_page t" unfolding z_image_def by blast
  have im': "z_index_size h = length chunks" "z_index_offset h = Z_SPACE + length (concat stored)" "length (content f) < 2 ^ 63"
    "0 < z_block_size (z_options h)" "z_block_size (z_options h) \<le> MAX_READ_SIZE" using im len by (simp_all add: z_image_def)
  have h0: "z_ok h0" using hd by (simp add: head_of_def)
  have raw: "io_pread (io E) f (length chunks * 4) (Z_SPACE + length (concat stored) + length chunks * 4) =
      (int (length chunks * 4), u32s_bytes (map length chunks))" if "z_flag Z_FASTCDC h"
    using io_pread_full [OF P(2), of f "length chunks * 4" "Z_SPACE + length (concat stored) + length chunks * 4"] that h0 len
    by (simp add: con mult.commute)
  have "\<forall>n \<in> set (map length chunks). n < 2 ^ 32"
  proof
    fix n assume "n \<in> set (map length chunks)"
    then obtain i where i: "i < length chunks" "n = length (chunks ! i)" by (auto simp: in_set_conv_nth)
    then have "n \<le> MAX_READ_SIZE" using enc [OF i(1)] im'(5) by (simp add: encoded_def)
    then show "n < 2 ^ 32" by (simp add: MAX_READ_SIZE_def)
  qed
  from u32s_of_bytes [OF this, of "[]"] have u: "u32s_of (length chunks) (u32s_bytes (map length chunks)) = map length chunks" by simp
  have op: "zfile_open E f verify own = Some (Some zf)"
    using load_jump_table_image [OF P im] raw u im'(1,2) c
    by (cases "z_flag Z_FASTCDC h") (simp_all add: zfile_open_def zfile_open_ro.simps Let_def zf_def)
  have all: "\<forall>i < length chunks. stored_as E zf (chunks ! i) (stored ! i) \<and> chunks ! i \<noteq> [] \<and> length (chunks ! i) \<le> z_block_size (z_options h)"
    using enc by (auto simp: encoded_def stored_as_def zf_def)
  have bytes: "take (length (concat stored)) (drop Z_SPACE (content f)) = concat stored" using h0 by (simp add: con)
  have sz: "Z_SPACE + length (concat stored) < 2 ^ 64" using im'(3) h0 by (simp add: con)
  have jt: "\<forall>i \<le> length chunks. jt_at ?jt i = Some (Z_SPACE + start_of (map length stored) i)" using jt_at_spec [OF g] len by simp
  have "represents E content zf Z_SPACE chunks stored"
    unfolding represents_def using len all bytes sz jt tot im'(4,5) fx by (simp add: zf_def fixed_size_def)
  then show thesis using op that [of zf] by (simp add: zf_def)
qed

end
