(* ===== verification/ZFile_Roundtrip.thy ===== *)
theory ZFile_Roundtrip
  imports ZFile_Compress
begin

text \<open>
  What \<open>zfile_compress\<close> and the builder write is read back by \<open>zfile_open_ro\<close>, \<open>pread\<close> and \<open>zfile_decompress\<close>.
\<close>

section \<open>The assumptions\<close>

text \<open>
  A codec gives back what it compressed, when the buffer for the compressed bytes has the size that it asks for;
  the files are transferred completely.
\<close>

definition codec_law :: "codec \<Rightarrow> nat \<Rightarrow> bool" where
  "codec_law cd n \<longleftrightarrow> (\<forall>src cap. src \<noteq> [] \<and> length src \<le> n \<and> bound cd n \<le> cap \<longrightarrow>
     (\<exists>code. encode cd src cap = (int (length code), code) \<and> code \<noteq> [] \<and> length code \<le> bound cd n \<and>
        (\<forall>k \<ge> n. decode cd code k = (int (length src), src))))"

definition sequential_reads :: "'f zenv \<Rightarrow> ('f \<Rightarrow> u8 list) \<Rightarrow> ('f \<Rightarrow> nat) \<Rightarrow> bool" where
  "sequential_reads E content pos \<longleftrightarrow> (\<forall>f n. \<exists>f'. io_read E f n = (int (min n (length (content f) - pos f)), take n (drop (pos f) (content f)), f') \<and>
     content f' = content f \<and> pos f' = pos f + min n (length (content f) - pos f))"

definition full_pwrites :: "'f photon \<Rightarrow> bool" where
  "full_pwrites P \<longleftrightarrow> (\<forall>f bs off. fst (io_pwrite P f bs off) = int (length bs))"

definition whole_io :: "'f zenv \<Rightarrow> ('f \<Rightarrow> u8 list) \<Rightarrow> ('f \<Rightarrow> nat) \<Rightarrow> bool" where
  "whole_io E content pos \<longleftrightarrow> file_laws (io E) content pos \<and> full_reads (io E) content \<and> full_writes (io E) \<and> full_pwrites (io E) \<and>
     sequential_reads E content pos"

text \<open>
  The options for which everything fits: the block size divides 65536 into a power of two, the stored blocks
  fit into the buffers and the groups of the jump table.
\<close>

definition max_stored :: "'f zenv \<Rightarrow> CompressOptions \<Rightarrow> nat" where
  "max_stored E opt = bound (codecs E (z_algo opt)) (z_block_size opt) + 4"

definition options_ok :: "'f zenv \<Rightarrow> CompressOptions \<Rightarrow> bool" where
  "options_ok E opt \<longleftrightarrow> (z_algo opt = LZ4 \<or> z_algo opt = ZSTD) \<and> opt_ok opt \<and> z_dict_size opt = 0 \<and>
     0 < z_block_size opt \<and> z_block_size opt \<le> MAX_READ_SIZE \<and> codec_law (codecs E (z_algo opt)) (z_block_size opt) \<and>
     max_stored E opt \<le> z_block_size opt + BUF_SIZE \<and> max_stored E opt \<le> MAX_READ_SIZE \<and>
     (\<exists>k. 65536 div z_block_size opt = 2 ^ k) \<and> (65536 div z_block_size opt - 1) * max_stored E opt < uinttype_max"

section \<open>Groups of bounded blocks\<close>

lemma start_of_step:
  assumes "\<forall>n \<in> set ns. n \<le> B" "i \<le> j" "j \<le> length ns"
  shows "start_of ns j - start_of ns i \<le> (j - i) * B"
proof -
  have "start_of ns j = start_of ns i + sum_list (take (j - i) (drop i ns))"
    using assms(2) by (metis le_add_diff_inverse start_of_def sum_list_append take_add)
  moreover have "sum_list (take (j - i) (drop i ns)) \<le> (j - i) * B"
  proof -
    have "sum_list ms \<le> length ms * B" if "set ms \<subseteq> set ns" for ms using that assms(1) by (induction ms) auto
    moreover have "set (take (j - i) (drop i ns)) \<subseteq> set ns" by (meson order_trans set_drop_subset set_take_subset)
    ultimately have "sum_list (take (j - i) (drop i ns)) \<le> length (take (j - i) (drop i ns)) * B" by blast
    also have "\<dots> \<le> (j - i) * B" by (intro mult_le_mono1) simp
    finally show ?thesis .
  qed
  ultimately show ?thesis by simp
qed

lemma groups_fit_bounded:
  assumes ns: "\<forall>n \<in> set ns. mn < n \<and> n \<le> B" and g: "(g - 1) * B < uinttype_max" "0 < g"
  shows "groups_fit g mn ns"
  unfolding groups_fit_def
proof (intro allI impI conjI)
  fix j assume j: "j < length ns"
  then show "mn < ns ! j" using ns by simp
  have m: "Suc j - Suc j div g * g = Suc j mod g" by (simp add: minus_div_mult_eq_mod)
  have "start_of ns (Suc j) - start_of ns (Suc j div g * g) \<le> (Suc j - Suc j div g * g) * B"
    using ns j div_times_less_eq_dividend [of "Suc j" g] by (intro start_of_step) auto
  also have "\<dots> \<le> (g - 1) * B" unfolding m using g(2) by (intro mult_le_mono1) (metis Suc_leI diff_Suc_1 diff_le_mono mod_less_divisor)
  finally show "start_of ns (Suc j) - start_of ns (Suc j div g * g) < uinttype_max" using g(1) by simp
qed

section \<open>The end of the file\<close>

lemma full_pwrite:
  assumes "file_laws P content pos" "full_pwrites P"
  obtains f' where "io_pwrite P f bs off = (int (length bs), f')" "content f' = overwrite (content f) off bs" "pos f' = pos f"
proof -
  obtain r f' where w: "io_pwrite P f bs off = (r, f')" by (cases "io_pwrite P f bs off")
  then have "r = int (length bs)" using assms(2) by (metis full_pwrites_def fst_conv)
  then show thesis using assms(1) w that [of f'] by (auto simp: file_laws_def)
qed

text \<open>A header as it is written first.\<close>

definition first_header :: "'f zenv \<Rightarrow> CompressOptions \<Rightarrow> bool \<Rightarrow> ZHeaderTrailer \<Rightarrow> bool" where
  "first_header E opt cdc h \<longleftrightarrow> z_ok h \<and> z_verify_magic h \<and> z_flag Z_HEADER h \<and> z_is_valid E (z_page h) \<and> z_flag Z_TYPE h \<and>
     \<not> z_flag Z_HEADER_OVERWRITE h \<and> z_flag Z_FASTCDC h = cdc \<and> z_options h = opt"

lemma overwrite_front: "length bs = length xs \<Longrightarrow> overwrite (xs @ ys) 0 bs = bs @ ys"
  by (cases bs) (simp_all add: overwrite_def)

lemma write_index_trailer_spec:
  assumes W: "whole_io E content pos" and h0: "first_header E opt (raw \<noteq> None) h0" and opt: "options_ok E opt"
    and f: "content f = z_page h0 @ body" "pos f = length (content f)"
    and lens: "\<forall>n \<in> set lens. (if z_verify opt \<noteq> 0 then 4 else 0) < n \<and> n \<le> max_stored E opt"
    and small: "length body < 2 ^ 60" "length lens < 2 ^ 50" "length (case raw of None \<Rightarrow> [] | Some ns \<Rightarrow> ns) < 2 ^ 50" "n < 2 ^ 60"
  obtains f' h where "write_index_trailer E rewrite raw lens (Z_SPACE + length body) n h0 f = (0, f')"
    "z_image E (content f') h body lens (case raw of None \<Rightarrow> [] | Some ns \<Rightarrow> u32s_bytes ns)"
    "z_options h = opt" "z_flag Z_FASTCDC h = (raw \<noteq> None)" "z_original_file_size h = n"
proof -
  let ?idx = "u32s_bytes lens" and ?raw = "case raw of None \<Rightarrow> [] | Some ns \<Rightarrow> u32s_bytes ns"
  have P: "file_laws (io E) content pos" "full_reads (io E) content" "full_writes (io E)" "full_pwrites (io E)" using W by (simp_all add: whole_io_def)
  from full_write [OF P(1,3) f(2), of ?idx] obtain f1 where f1: "io_write (io E) f ?idx = (int (length ?idx), f1)"
    "content f1 = content f @ ?idx" "pos f1 = length (content f1)" by metis
  have "\<exists>f2. (case raw of None \<Rightarrow> (True, f1) | Some ns \<Rightarrow> let (ret, f) = io_write (io E) f1 (u32s_bytes ns) in (ret = int (length (u32s_bytes ns)), f)) = (True, f2) \<and>
    content f2 = content f1 @ ?raw \<and> pos f2 = length (content f2)"
  proof (cases raw)
    case None
    then show ?thesis using f1 by simp
  next
    case (Some ns)
    from full_write [OF P(1,3) f1(3), of "u32s_bytes ns"] obtain f2 where "io_write (io E) f1 (u32s_bytes ns) = (int (length (u32s_bytes ns)), f2)"
      "content f2 = content f1 @ u32s_bytes ns" "pos f2 = length (content f2)" by metis
    then show ?thesis using Some by (intro exI [of _ f2]) simp
  qed
  then obtain f2 where f2: "(case raw of None \<Rightarrow> (True, f1) | Some ns \<Rightarrow> let (ret, f) = io_write (io E) f1 (u32s_bytes ns) in (ret = int (length (u32s_bytes ns)), f)) = (True, f2)"
    "content f2 = content f1 @ ?raw" "pos f2 = length (content f2)" by blast
  define h1 where "h1 = h0\<lparr>z_index_crc := crc32c E ?idx, z_index_offset := Z_SPACE + length body, z_index_size := length lens, z_original_file_size := n\<rparr>"
  have h0': "z_ok h0" "z_verify_magic h0" "z_flag Z_HEADER h0" "z_is_valid E (z_page h0)" "z_flag Z_TYPE h0" "\<not> z_flag Z_HEADER_OVERWRITE h0"
    "z_flag Z_FASTCDC h0 = (raw \<noteq> None)" "z_options h0 = opt" using h0 by (simp_all add: first_header_def)
  have h1: "z_ok h1" "z_verify_magic h1" "z_flag a h1 = z_flag a h0" "z_options h1 = opt" "z_index_offset h1 = Z_SPACE + length body"
    "z_index_size h1 = length lens" "z_original_file_size h1 = n" "z_index_crc h1 = crc32c E ?idx" for a
    using h0' small by (simp_all add: h1_def z_ok_def z_verify_magic_def z_flag_def Z_SPACE_def)
  obtain t where t: "z_write_header_trailer E f2 False True True h1 None =
      (case (case None of None \<Rightarrow> io_write (io E) f2 (z_page t) | Some p \<Rightarrow> io_pwrite (io E) f2 (z_page t) p) of (r, f) \<Rightarrow> (r, f, t))"
    "z_ok t" "z_verify_magic t" "\<not> z_flag Z_HEADER t" "z_flag Z_TYPE t" "z_flag Z_SEALED t" "\<not> z_flag Z_HEADER_OVERWRITE t" "z_flag Z_FASTCDC t = (raw \<noteq> None)"
    "z_index_offset t = Z_SPACE + length body" "z_index_size t = length lens" "z_options t = opt" "z_original_file_size t = n" "z_index_crc t = crc32c E ?idx"
    by (rule z_write_spec [OF h1(1), of E f2 False True True None "[]"], erule that) (use h0' h1 in simp_all)
  from full_write [OF P(1,3) f2(3), of "z_page t"] obtain f3 where f3: "io_write (io E) f2 (z_page t) = (int (length (z_page t)), f3)"
    "content f3 = content f2 @ z_page t" "pos f3 = length (content f3)" by metis
  have c3: "content f3 = z_page h0 @ body @ ?idx @ ?raw @ z_page t" using f f1 f2 f3 by simp
  have rawlen: "length ?raw < 4 * 2 ^ 50" using small(3) by (cases raw) simp_all
  have im: "z_image E c h body lens ?raw" if "head_of E hd tr h" "c = z_page hd @ body @ ?idx @ ?raw @ z_page tr" "z_index_offset h = Z_SPACE + length body"
    "z_index_size h = length lens" "z_options h = opt" "z_index_crc h = crc32c E ?idx" for c h hd tr
  proof -
    have "length c < 2 ^ 63" using that(1,2) small rawlen by (simp add: head_of_def Z_SPACE_def)
    moreover have "\<forall>n \<in> set lens. n < 2 ^ 32" using lens opt by (force simp: options_ok_def MAX_READ_SIZE_def)
    moreover have "groups_fit (65536 div z_block_size opt) (if z_verify opt \<noteq> 0 then 4 else 0) lens"
      using lens opt by (intro groups_fit_bounded) (auto simp: options_ok_def)
    ultimately show ?thesis using that opt unfolding z_image_def by (auto simp: options_ok_def)
  qed
  show thesis
  proof (cases rewrite)
    case False
    have "head_of E h0 t t" using h0' t by (simp add: head_of_def)
    from im [OF this c3 t(9,10,11,13)] have "z_image E (content f3) t body lens ?raw" .
    moreover have "write_index_trailer E rewrite raw lens (Z_SPACE + length body) n h0 f = (0, f3)"
      using False f1(1) f2(1) f3(1) t(1) by (simp add: write_index_trailer_def Let_def h1_def)
    ultimately show thesis using that t by blast
  next
    case True
    obtain h where h: "z_write_header_trailer E f3 True False True t (Some 0) =
        (case (case Some 0 of None \<Rightarrow> io_write (io E) f3 (z_page h) | Some p \<Rightarrow> io_pwrite (io E) f3 (z_page h) p) of (r, f) \<Rightarrow> (r, f, h))"
      "z_ok h" "z_is_valid E (z_page h)" "z_verify_magic h" "z_flag Z_HEADER h" "z_flag Z_TYPE h" "z_flag Z_HEADER_OVERWRITE h" "z_flag Z_FASTCDC h = (raw \<noteq> None)"
      "z_index_offset h = Z_SPACE + length body" "z_index_size h = length lens" "z_options h = opt" "z_original_file_size h = n" "z_index_crc h = crc32c E ?idx"
      by (rule z_write_spec [OF t(2), of E f3 True False True "Some 0" "[]"], erule that) (use t in simp_all)
    from full_pwrite [OF P(1,4), of f3 "z_page h" 0] obtain f4 where f4: "io_pwrite (io E) f3 (z_page h) 0 = (int (length (z_page h)), f4)"
      "content f4 = overwrite (content f3) 0 (z_page h)" by metis
    have c4: "content f4 = z_page h @ body @ ?idx @ ?raw @ z_page t" unfolding f4(2) c3 using h0' h(2) by (intro overwrite_front) simp
    have "head_of E h t h" using h t by (simp add: head_of_def)
    from im [OF this c4 h(9,10,11,13)] have "z_image E (content f4) h body lens ?raw" .
    moreover have "write_index_trailer E rewrite raw lens (Z_SPACE + length body) n h0 f = (0, f4)"
      using True f1(1) f2(1) f3(1) t(1) h(1) f4(1) by (simp add: write_index_trailer_def Let_def h1_def)
    ultimately show thesis using that h by blast
  qed
qed


section \<open>One block\<close>

definition written :: "'f zenv \<Rightarrow> CompressOptions \<Rightarrow> u8 list \<Rightarrow> u8 list \<Rightarrow> bool" where
  "written E opt chunk st \<longleftrightarrow> (\<exists>c. create_compressor E opt = Some c \<and> encoded E c opt chunk st) \<and> length st \<le> max_stored E opt \<and>
     (if z_verify opt \<noteq> 0 then 4 else 0) < length st"

text \<open>A compressor for files with these options; it can have been created for another block size.\<close>

definition compressor_ok :: "'f zenv \<Rightarrow> CompressOptions \<Rightarrow> compressor \<Rightarrow> bool" where
  "compressor_ok E opt c \<longleftrightarrow> c_algo c = z_algo opt \<and> max_dst_size c \<le> z_block_size opt + BUF_SIZE"

lemma compress_one:
  assumes opt: "options_ok E opt" and c: "compressor_ok E opt c" and ch: "chunk \<noteq> []" "length chunk \<le> z_block_size opt"
  obtains code where "compress_batch E c (chunk @ rest) [length chunk] (z_block_size opt + BUF_SIZE) = Some [code]" "code \<noteq> []"
    "written E opt chunk (code @ (if z_verify opt \<noteq> 0 then u32_bytes (crc32c_salt E code) else []))"
    "length code + 4 \<le> max_stored E opt"
proof -
  let ?cd = "codecs E (z_algo opt)" and ?bs = "z_block_size opt"
  have law: "codec_law ?cd ?bs" "bound ?cd ?bs + 4 = max_stored E opt" "max_stored E opt \<le> ?bs + BUF_SIZE" "max_stored E opt \<le> MAX_READ_SIZE"
    "z_algo opt = LZ4 \<or> z_algo opt = ZSTD" using opt by (auto simp: options_ok_def max_stored_def)
  have "bound ?cd ?bs \<le> ?bs + BUF_SIZE" using law(2,3) by simp
  with law(1) ch obtain code where code: "encode ?cd chunk (?bs + BUF_SIZE) = (int (length code), code)" "code \<noteq> []" "length code \<le> bound ?cd ?bs"
    "\<And>k. ?bs \<le> k \<Longrightarrow> decode ?cd code k = (int (length chunk), chunk)" unfolding codec_law_def by blast
  have cb: "compress_batch E c (chunk @ rest) [length chunk] (?bs + BUF_SIZE) = Some [code]"
    using code(1,2) c by (simp add: compress_batch_def do_compress_def compressor_ok_def Let_def)
  obtain c' where c': "create_compressor E opt = Some c'" "c_algo c' = z_algo opt" "src_blk_size c' = ?bs" using law(5) by (auto simp: create_compressor_def)
  have "decompress E c' code ?bs = Some chunk" using code(4) [of ?bs] c' ch(1) by (simp add: decompress_def)
  moreover have "length (code @ (if z_verify opt \<noteq> 0 then u32_bytes (crc32c_salt E code) else [])) \<le> max_stored E opt"
    using code(3) law(2) by simp
  ultimately have "written E opt chunk (code @ (if z_verify opt \<noteq> 0 then u32_bytes (crc32c_salt E code) else []))"
    using c'(1) code(2) ch law(4) unfolding written_def encoded_def by auto
  then show thesis using that [OF cb code(2)] code(3) law(2) by simp
qed

section \<open>The chunks of a file\<close>

text \<open>The chunks \<open>cs\<close> have been written.\<close>

definition extends :: "'f zenv \<Rightarrow> CompressOptions \<Rightarrow> ('f \<Rightarrow> u8 list) \<Rightarrow> ('f \<Rightarrow> nat) \<Rightarrow> 'f zcomp \<Rightarrow> u8 list list \<Rightarrow> 'f zcomp \<Rightarrow> bool" where
  "extends E opt content pos s cs s' \<longleftrightarrow> (\<exists>sts. list_all2 (written E opt) cs sts \<and> content (zc_as s') = content (zc_as s) @ concat sts \<and>
     block_len s' = block_len s @ map length sts \<and> zc_moffset s' = zc_moffset s + length (concat sts)) \<and>
     pos (zc_as s') = length (content (zc_as s')) \<and> raw_block_len s' = raw_block_len s @ map length cs \<and> MaxSize (zc_cdc s') = MaxSize (zc_cdc s)"

lemma extends_refl: "pos (zc_as s) = length (content (zc_as s)) \<Longrightarrow> extends E opt content pos s [] s"
  by (simp add: extends_def)

lemma extends_trans: "extends E opt content pos s cs s' \<Longrightarrow> extends E opt content pos s' ds s'' \<Longrightarrow> extends E opt content pos s (cs @ ds) s''"
proof -
  assume a: "extends E opt content pos s cs s'" and b: "extends E opt content pos s' ds s''"
  from a obtain sts where s: "list_all2 (written E opt) cs sts" "content (zc_as s') = content (zc_as s) @ concat sts"
     "block_len s' = block_len s @ map length sts" "zc_moffset s' = zc_moffset s + length (concat sts)" unfolding extends_def by blast
  from b obtain us where u: "list_all2 (written E opt) ds us" "content (zc_as s'') = content (zc_as s') @ concat us"
     "block_len s'' = block_len s' @ map length us" "zc_moffset s'' = zc_moffset s' + length (concat us)" unfolding extends_def by blast
  have "list_all2 (written E opt) (cs @ ds) (sts @ us)" using s(1) u(1) by (rule list_all2_appendI)
  then show ?thesis using a b s u unfolding extends_def by (intro conjI exI [of _ "sts @ us"]) (simp_all add: add.assoc)
qed

lemma extends_fields: "extends E opt content pos s cs (s'\<lparr>zc_file := x, infile_size := y\<rparr>) = extends E opt content pos s cs s'"
  "extends E opt content pos (s\<lparr>zc_file := x, infile_size := y\<rparr>) cs s' = extends E opt content pos s cs s'"
  by (simp_all add: extends_def)

lemma compress_chunks_one:
  assumes W: "whole_io E content pos" and opt: "options_ok E opt" and c: "compressor_ok E opt c" and ch: "chunk \<noteq> []" "length chunk \<le> z_block_size opt"
    and s: "pos (zc_as s) = length (content (zc_as s))"
  obtains s' where "compress_chunks E c (z_verify opt \<noteq> 0) (z_block_size opt + BUF_SIZE) (chunk @ rest) [length chunk] s = (0, s')"
    "extends E opt content pos s [chunk] s'" "zc_file s' = zc_file s" "infile_size s' = infile_size s" "zc_cdc s' = zc_cdc s"
proof -
  have P: "file_laws (io E) content pos" "full_writes (io E)" using W by (simp_all add: whole_io_def)
  from compress_one [OF opt c ch, of rest] obtain code where code: "compress_batch E c (chunk @ rest) [length chunk] (z_block_size opt + BUF_SIZE) = Some [code]"
    "written E opt chunk (code @ (if z_verify opt \<noteq> 0 then u32_bytes (crc32c_salt E code) else []))" by metis
  from full_write [OF P s, of code] obtain f1 where f1: "io_write (io E) (zc_as s) code = (int (length code), f1)" "content f1 = content (zc_as s) @ code"
    "pos f1 = length (content f1)" by metis
  let ?crc = "if z_verify opt \<noteq> 0 then u32_bytes (crc32c_salt E code) else []"
  have "\<exists>f2. (if z_verify opt \<noteq> 0 then io_write (io E) f1 (u32_bytes (crc32c_salt E code)) else (4, f1)) = (4, f2) \<and> content f2 = content f1 @ ?crc \<and>
    pos f2 = length (content f2)"
  proof (cases "z_verify opt = 0")
    case False
    from full_write [OF P f1(3), of "u32_bytes (crc32c_salt E code)"] obtain f2 where
      "io_write (io E) f1 (u32_bytes (crc32c_salt E code)) = (4, f2)" "content f2 = content f1 @ u32_bytes (crc32c_salt E code)" "pos f2 = length (content f2)" by auto
    then show ?thesis using False by simp
  qed (use f1 in simp)
  then obtain f2 where f2: "(if z_verify opt \<noteq> 0 then io_write (io E) f1 (u32_bytes (crc32c_salt E code)) else (4, f1)) = (4, f2)"
    "content f2 = content f1 @ ?crc" "pos f2 = length (content f2)" by blast
  define s' where "s' = s\<lparr>zc_as := f2, block_len := block_len s @ [length (code @ ?crc)], raw_block_len := raw_block_len s @ [length chunk],
    zc_moffset := zc_moffset s + length (code @ ?crc)\<rparr>"
  have l: "length (code @ ?crc) = length code + (if z_verify opt \<noteq> 0 then 4 else 0)" by simp
  have "compress_chunks E c (z_verify opt \<noteq> 0) (z_block_size opt + BUF_SIZE) (chunk @ rest) [length chunk] s = (0, s')"
    using code(1) f1(1) f2(1) l by (simp add: compress_chunks_def Let_def s'_def split del: if_split)
  moreover have "extends E opt content pos s [chunk] s'"
    unfolding extends_def using code(2) f1 f2 by (intro conjI exI [of _ "[code @ ?crc]"]) (simp_all add: s'_def)
  ultimately show thesis using that [of s'] by (simp add: s'_def)
qed


definition chunker_ok :: "FastCDCChunker \<Rightarrow> bool" where
  "chunker_ok ch \<longleftrightarrow> 0 < unat (m_max_size ch) \<and> unat (m_max_size ch) < 2 ^ 31 \<and> unat (m_min_size ch) \<le> unat (m_max_size ch)"

lemma fastcdc_loop_spec:
  assumes W: "whole_io E content pos" and opt: "options_ok E opt" and c: "compressor_ok E opt c" and ch: "chunker_ok ch"
    and raw: "length raw \<le> z_block_size opt"
  shows "off \<le> length raw \<Longrightarrow> MaxSize (zc_cdc s) = m_max_size ch \<Longrightarrow> pos (zc_as s) = length (content (zc_as s)) \<Longrightarrow>
    \<exists>s' cs. fastcdc_loop E c ch (z_verify opt \<noteq> 0) (z_block_size opt + BUF_SIZE) raw off off [] s = Some (0, length raw, [], s') \<and>
      extends E opt content pos s cs s' \<and> concat cs = drop off raw \<and> zc_file s' = zc_file s \<and> infile_size s' = infile_size s"
proof (induction "length raw - off" arbitrary: off s rule: less_induct)
  case less
  show ?case
  proof (cases "off < length raw")
    case False
    then have "off = length raw" using less.prems(1) by simp
    then show ?thesis using extends_refl [of pos s content E opt] less.prems(3)
      by (subst fastcdc_loop.simps) (auto intro!: exI [of _ s] exI [of _ "[]"])
  next
    case True
    let ?n = "length raw - off"
    have n: "0 < ?n" "?n \<le> length (drop off raw)" using True by simp_all
    have C: "0 < unat (m_max_size ch)" "unat (m_max_size ch) < 2 ^ 31" "unat (m_min_size ch) \<le> unat (m_max_size ch)"
      using ch by (simp_all add: chunker_ok_def)
    from next_chunk_laws [OF less.prems(2) C n] obtain g k where
      nc: "next_chunk ch (zc_cdc s) (Some (drop off raw)) ?n = Some (g, k)" "MaxSize g = m_max_size ch" "0 < k" "k \<le> ?n" by blast
    let ?s = "s\<lparr>zc_cdc := g\<rparr>" and ?chunk = "take k (drop off raw)"
    have chunk: "?chunk \<noteq> []" "length ?chunk = k" using nc(3,4) n by auto
    have le: "length ?chunk \<le> z_block_size opt" using chunk(2) nc(4) raw by simp
    have pos: "pos (zc_as ?s) = length (content (zc_as ?s))" using less.prems(3) by simp
    from compress_chunks_one [OF W opt c chunk(1) le pos, of "drop k (drop off raw)"] obtain s1 where
      s1: "compress_chunks E c (z_verify opt \<noteq> 0) (z_block_size opt + BUF_SIZE) (drop off raw) [k] ?s = (0, s1)"
        "extends E opt content pos ?s [?chunk] s1" "zc_file s1 = zc_file ?s" "infile_size s1 = infile_size ?s" "zc_cdc s1 = zc_cdc ?s"
      unfolding chunk(2) append_take_drop_id by blast
    have ex: "extends E opt content pos s [?chunk] s1" using s1(2) by (simp add: extends_def nc(2) less.prems(2))
    have d: "length raw - (off + k) < length raw - off" "off + k \<le> length raw" using nc(3,4) True by simp_all
    have p1: "pos (zc_as s1) = length (content (zc_as s1))" using s1(2) by (simp add: extends_def)
    have m1: "MaxSize (zc_cdc s1) = m_max_size ch" using s1(5) nc(2) by simp
    from less.hyps [OF d m1 p1] obtain s' cs where
      IH: "fastcdc_loop E c ch (z_verify opt \<noteq> 0) (z_block_size opt + BUF_SIZE) raw (off + k) (off + k) [] s1 = Some (0, length raw, [], s')"
        "extends E opt content pos s1 cs s'" "concat cs = drop (off + k) raw" "zc_file s' = zc_file s1" "infile_size s' = infile_size s1" by blast
    have "fastcdc_loop E c ch (z_verify opt \<noteq> 0) (z_block_size opt + BUF_SIZE) raw off off [] s = Some (0, length raw, [], s')"
      using True nc s1(1) IH(1) by (subst fastcdc_loop.simps) (simp add: Let_def nbatch_def)
    moreover have "extends E opt content pos s (?chunk # cs) s'" using extends_trans [OF ex IH(2)] by simp
    moreover have "concat (?chunk # cs) = drop off raw" using IH(3) by (simp add: add.commute flip: drop_drop)
    ultimately show ?thesis using IH(4,5) s1(3,4) by auto
  qed
qed

lemma fixed_chunks_one: "0 < n \<Longrightarrow> n \<le> bs \<Longrightarrow> fixed_chunks bs n = Some [n]"
  by (subst fixed_chunks.simps) (auto simp: fixed_chunks.simps)

text \<open>The chunks of one buffer.\<close>

definition one_buffer :: "CompressOptions \<Rightarrow> FastCDCChunker option \<Rightarrow> u8 list \<Rightarrow> u8 list list \<Rightarrow> bool" where
  "one_buffer opt chunker raw cs \<longleftrightarrow> concat cs = raw \<and> (chunker = None \<longrightarrow> cs = [raw])"

lemma one_buffer_spec:
  assumes W: "whole_io E content pos" and opt: "options_ok E opt" and c: "compressor_ok E opt c"
    and ch: "\<And>ch. chunker = Some ch \<Longrightarrow> chunker_ok ch \<and> MaxSize (zc_cdc s) = m_max_size ch"
    and raw: "raw \<noteq> []" "length raw \<le> z_block_size opt" and s: "pos (zc_as s) = length (content (zc_as s))"
  obtains src lens s1 s' cs where
    "(case chunker of
           Some ch \<Rightarrow> do {
             (ret, batch_start, lens, s) \<leftarrow> fastcdc_loop E c ch (z_verify opt \<noteq> 0) (z_block_size opt + BUF_SIZE) raw 0 0 [] s;
             Some (ret, drop batch_start raw, lens, s)
           }
         | None \<Rightarrow> do { lens \<leftarrow> fixed_chunks (z_block_size opt) (length raw); Some (0, raw, lens, s) }) = Some (0, src, lens, s1)"
    "(if lens \<noteq> [] then compress_chunks E c (z_verify opt \<noteq> 0) (z_block_size opt + BUF_SIZE) src lens s1 else (0, s1)) = (0, s')"
    "extends E opt content pos s cs s'" "one_buffer opt chunker raw cs" "zc_file s' = zc_file s" "infile_size s' = infile_size s"
proof (cases chunker)
  case None
  from compress_chunks_one [OF W opt c raw s, of "[]"] obtain s' where
    s': "compress_chunks E c (z_verify opt \<noteq> 0) (z_block_size opt + BUF_SIZE) raw [length raw] s = (0, s')"
      "extends E opt content pos s [raw] s'" "zc_file s' = zc_file s" "infile_size s' = infile_size s" by auto
  show thesis
    by (rule that [of raw "[length raw]" s s' "[raw]"]) (use None raw s' in \<open>simp_all add: fixed_chunks_one one_buffer_def\<close>)
next
  case (Some ch')
  from fastcdc_loop_spec [OF W opt c _ raw(2), of ch' 0 s] ch [OF Some] s obtain s' cs where
    s': "fastcdc_loop E c ch' (z_verify opt \<noteq> 0) (z_block_size opt + BUF_SIZE) raw 0 0 [] s = Some (0, length raw, [], s')"
      "extends E opt content pos s cs s'" "concat cs = raw" "zc_file s' = zc_file s" "infile_size s' = infile_size s" by auto
  show thesis
    by (rule that [of "[]" "[]" s' s' cs]) (use Some s' in \<open>simp_all add: one_buffer_def\<close>)
qed

lemma compress_loop_spec:
  assumes W: "whole_io E content pos" and opt: "options_ok E opt" and c: "compressor_ok E opt c"
    and ch: "\<And>ch. chunker = Some ch \<Longrightarrow> chunker_ok ch"
  shows "(\<And>ch. chunker = Some ch \<Longrightarrow> MaxSize (zc_cdc s) = m_max_size ch) \<Longrightarrow> pos (zc_as s) = length (content (zc_as s)) \<Longrightarrow>
    \<exists>s' cs. compress_loop E c chunker (z_verify opt \<noteq> 0) (z_block_size opt) (z_block_size opt + BUF_SIZE) s = Some (0, s') \<and>
      extends E opt content pos s cs s' \<and> concat cs = drop (pos (zc_file s)) (content (zc_file s)) \<and>
      infile_size s' = infile_size s + length (concat cs) \<and> (chunker = None \<longrightarrow> fixed_size (z_block_size opt) cs)"
proof (induction "length (content (zc_file s)) - pos (zc_file s)" arbitrary: s rule: less_induct)
  case less
  let ?bs = "z_block_size opt" and ?f = "zc_file s"
  have bs: "0 < ?bs" "trunc 32 (?bs * nbatch c) = ?bs" using opt by (auto simp: options_ok_def MAX_READ_SIZE_def nbatch_def intro!: trunc_id)
  from W obtain f where rd: "io_read E ?f ?bs = (int (min ?bs (length (content ?f) - pos ?f)), take ?bs (drop (pos ?f) (content ?f)), f)"
    "content f = content ?f" "pos f = pos ?f + min ?bs (length (content ?f) - pos ?f)" unfolding whole_io_def sequential_reads_def by metis
  define raw where "raw = take ?bs (drop (pos ?f) (content ?f))"
  have n: "length raw = min ?bs (length (content ?f) - pos ?f)" by (simp add: raw_def min.commute)
  note rd = rd [folded raw_def n]
  show ?case
  proof (cases "raw = []")
    case True
    then have "drop (pos ?f) (content ?f) = []" using bs(1) by (simp add: raw_def)
    moreover have "extends E opt content pos s [] (s\<lparr>zc_file := f\<rparr>)" using less.prems(2) by (simp add: extends_def)
    ultimately show ?thesis using True rd bs(2)
      by (subst compress_loop.simps) (auto simp: Let_def fixed_size_def intro!: exI [of _ "s\<lparr>zc_file := f\<rparr>"] exI [of _ "[]"])
  next
    case False
    then have pos: "0 < length raw" by simp
    let ?s = "s\<lparr>zc_file := f, infile_size := infile_size s + length raw\<rparr>"
    have ch1: "chunker = Some ch' \<Longrightarrow> chunker_ok ch' \<and> MaxSize (zc_cdc ?s) = m_max_size ch'" for ch' using ch less.prems(1) by simp
    have p1: "pos (zc_as ?s) = length (content (zc_as ?s))" using less.prems(2) by simp
    have le: "length raw \<le> ?bs" using n by simp
    obtain src lens s1 s2 cs where
      o: "(case chunker of
           Some ch \<Rightarrow> do {
             (ret, batch_start, lens, s) \<leftarrow> fastcdc_loop E c ch (z_verify opt \<noteq> 0) (?bs + BUF_SIZE) raw 0 0 [] ?s;
             Some (ret, drop batch_start raw, lens, s)
           }
         | None \<Rightarrow> do { lens \<leftarrow> fixed_chunks ?bs (length raw); Some (0, raw, lens, ?s) }) = Some (0, src, lens, s1)"
      "(if lens \<noteq> [] then compress_chunks E c (z_verify opt \<noteq> 0) (?bs + BUF_SIZE) src lens s1 else (0, s1)) = (0, s2)"
      "extends E opt content pos ?s cs s2" "one_buffer opt chunker raw cs" "zc_file s2 = zc_file ?s" "infile_size s2 = infile_size ?s"
      using one_buffer_spec [OF W opt c ch1 False le p1] by blast
    have f2: "zc_file s2 = f" using o(5) by simp
    have dec: "length (content (zc_file s2)) - pos (zc_file s2) < length (content ?f) - pos ?f" using pos n rd(2,3) by (simp add: f2 min_def split: if_splits)
    have m2: "\<And>ch. chunker = Some ch \<Longrightarrow> MaxSize (zc_cdc s2) = m_max_size ch" using less.prems(1) o(3) by (simp add: extends_def)
    have p2: "pos (zc_as s2) = length (content (zc_as s2))" using o(3) by (simp add: extends_def)
    from less.hyps [OF dec m2 p2] obtain s' ds where
      IH: "compress_loop E c chunker (z_verify opt \<noteq> 0) ?bs (?bs + BUF_SIZE) s2 = Some (0, s')" "extends E opt content pos s2 ds s'"
        "concat ds = drop (pos f) (content f)" "infile_size s' = infile_size s2 + length (concat ds)" "chunker = None \<longrightarrow> fixed_size ?bs ds"
      by (auto simp: f2)
    have step: "compress_loop E c chunker (z_verify opt \<noteq> 0) ?bs (?bs + BUF_SIZE) s =
      compress_loop E c chunker (z_verify opt \<noteq> 0) ?bs (?bs + BUF_SIZE) s2"
    proof -
      have "(s\<lparr>zc_file := f\<rparr>)\<lparr>infile_size := infile_size (s\<lparr>zc_file := f\<rparr>) + nat (int (length raw))\<rparr> = ?s" by simp
      moreover have "(int (length raw) = 0) = False" "(int (length raw) < 0) = False" using pos by simp_all
      ultimately show ?thesis
        by (subst compress_loop.simps) (simp only: rd(1) bs(2) Let_def prod.case o(1,2) nat_int Option.bind.simps if_False simp_thms)
    qed
    have ex: "extends E opt content pos s (cs @ ds) s'"
      using extends_trans [OF o(3) IH(2)] by (simp add: extends_fields)
    have all: "concat (cs @ ds) = drop (pos ?f) (content ?f)"
    proof -
      have "drop (pos f) (content f) = drop ?bs (drop (pos ?f) (content ?f))"
        using rd(2,3) n by (auto simp: min_def add.commute split: if_splits)
      then show ?thesis using IH(3) o(4) by (simp add: one_buffer_def raw_def del: drop_drop)
    qed
    have "fixed_size ?bs (cs @ ds)" if "chunker = None"
    proof -
      have cs: "cs = [raw]" "fixed_size ?bs ds" using that o(4) IH(5) by (simp_all add: one_buffer_def)
      have "length raw = ?bs" if "ds \<noteq> []"
      proof (rule ccontr)
        assume "length raw \<noteq> ?bs"
        then have "drop (pos f) (content f) = []" using n rd(2,3) by (auto simp: min_def split: if_splits)
        moreover have "\<forall>d \<in> set ds. d \<noteq> []" using IH(2) unfolding extends_def by (auto simp: list_all2_conv_all_nth in_set_conv_nth written_def encoded_def)
        ultimately show False using IH(3) that by (cases ds) auto
      qed
      then show ?thesis using cs by (auto simp: fixed_size_def nth_Cons split: nat.split)
    qed
    moreover have "infile_size s' = infile_size s + length (concat (cs @ ds))" using IH(4) o(4,6) by (simp add: one_buffer_def)
    ultimately show ?thesis using step IH(1) ex all by (intro exI [of _ s'] exI [of _ "cs @ ds"]) metis
  qed
qed


section \<open>The whole file\<close>

text \<open>The options that the header gets, and the arguments that work.\<close>

definition header_options :: "CompressArgs \<Rightarrow> CompressOptions" where
  "header_options args = (if use_fastcdc args then (z_opt args)\<lparr>z_block_size := unat (fastcdc_max_size args)\<rparr> else z_opt args)"

definition args_ok :: "'f zenv \<Rightarrow> CompressArgs \<Rightarrow> bool" where
  "args_ok E args \<longleftrightarrow> options_ok E (header_options args) \<and>
     bound (codecs E (z_algo (z_opt args))) (z_block_size (z_opt args)) \<le> z_block_size (header_options args) + BUF_SIZE \<and>
     (use_fastcdc args \<longrightarrow> fastcdc_min_size args \<le> fastcdc_max_size args)"

text \<open>The file holds \<open>data\<close>.\<close>

definition holds :: "'f zenv \<Rightarrow> ('f \<Rightarrow> u8 list) \<Rightarrow> CompressOptions \<Rightarrow> bool \<Rightarrow> 'f \<Rightarrow> u8 list \<Rightarrow> bool" where
  "holds E content opt cdc f data \<longleftrightarrow> (\<forall>verify own. \<exists>zf chunks stored. zfile_open E f verify own = Some (Some zf) \<and>
     represents E content zf Z_SPACE chunks stored \<and> concat chunks = data \<and> z_options (cf_ht zf) = opt \<and> z_flag Z_FASTCDC (cf_ht zf) = cdc \<and> cf_file zf = f)"

lemma written_lengths:
  assumes "list_all2 (written E opt) cs sts" "max_stored E opt \<le> MAX_READ_SIZE"
  shows "length sts = length cs" "length cs \<le> length (concat cs)" "length (concat sts) \<le> length cs * MAX_READ_SIZE"
    "\<forall>n \<in> set (map length sts). (if z_verify opt \<noteq> 0 then 4 else 0) < n \<and> n \<le> max_stored E opt"
  using assms(1)
proof (induction cs sts rule: list_all2_induct)
  case (Cons c cs st sts)
  have c: "0 < length c" "length st \<le> max_stored E opt" "(if z_verify opt \<noteq> 0 then 4 else 0) < length st"
    using Cons.hyps(1) by (auto simp: written_def encoded_def)
  { case 1 show ?case using Cons.IH(1) by simp }
  { case 2 show ?case using Cons.IH(2) c(1) by (simp add: Suc_le_eq add_less_le_mono order_le_less_trans) }
  { case 3 show ?case using Cons.IH(3) c(2) assms(2) by simp }
  { case 4 show ?case using Cons.IH(4) c(2,3) by simp }
qed simp_all

lemma finish_holds:
  assumes W: "whole_io E content pos" and h0: "first_header E opt (raw \<noteq> None) h0" and opt: "options_ok E opt"
    and f: "content f = z_page h0 @ concat sts" "pos f = length (content f)" and cs: "list_all2 (written E opt) cs sts"
    and raw: "raw = None \<or> raw = Some (map length cs)" and fx: "raw = None \<Longrightarrow> fixed_size (z_block_size opt) cs"
    and small: "length (concat cs) < 2 ^ 40"
  obtains f' where "write_index_trailer E rewrite raw (map length sts) (Z_SPACE + length (concat sts)) (length (concat cs)) h0 f = (0, f')"
    "holds E content opt (raw \<noteq> None) f' (concat cs)"
proof -
  have P: "file_laws (io E) content pos" "full_reads (io E) content" using W by (simp_all add: whole_io_def)
  have mx: "max_stored E opt \<le> MAX_READ_SIZE" using opt by (simp add: options_ok_def)
  note l = written_lengths [OF cs mx]
  have "length (concat sts) \<le> length (concat cs) * MAX_READ_SIZE" using l(2,3) by (meson mult_le_mono1 order_trans)
  then have b: "length (concat sts) < 2 ^ 60" using small by (simp add: MAX_READ_SIZE_def)
  have b2: "length (map length sts) < 2 ^ 50" "length (case raw of None \<Rightarrow> [] | Some ns \<Rightarrow> ns) < 2 ^ 50" "length (concat cs) < 2 ^ 60"
    using l(1,2) small raw by auto
  obtain f' h where f': "write_index_trailer E rewrite raw (map length sts) (Z_SPACE + length (concat sts)) (length (concat cs)) h0 f = (0, f')"
    "z_image E (content f') h (concat sts) (map length sts) (case raw of None \<Rightarrow> [] | Some ns \<Rightarrow> u32s_bytes ns)"
    "z_options h = opt" "z_flag Z_FASTCDC h = (raw \<noteq> None)" "z_original_file_size h = length (concat cs)"
    by (rule write_index_trailer_spec [OF W h0 opt f l(4) b b2])
  have im: "z_image E (content f') h (concat sts) (map length sts) (if z_flag Z_FASTCDC h then u32s_bytes (map length cs) else [])"
    using f'(2,4) raw by auto
  obtain c where c: "create_compressor E opt = Some c" using opt by (auto simp: options_ok_def create_compressor_def)
  have enc: "list_all2 (encoded E c (z_options h)) cs sts" using cs by (rule list_all2_mono) (use c f'(3) in \<open>auto simp: written_def\<close>)
  obtain k where k: "65536 div z_block_size opt = 2 ^ k" using opt by (auto simp: options_ok_def)
  have "holds E content opt (raw \<noteq> None) f' (concat cs)"
    unfolding holds_def
  proof (intro allI)
    fix verify own
    obtain zf where "zfile_open E f' verify own = Some (Some zf)" "represents E content zf Z_SPACE cs sts" "cf_ht zf = h" "cf_file zf = f'"
      by (rule zfile_open_image [OF P im enc, of k verify own]) (use c k f'(3-5) small fx in simp_all)
    then show "\<exists>zf chunks stored. zfile_open E f' verify own = Some (Some zf) \<and> represents E content zf Z_SPACE chunks stored \<and> concat chunks = concat cs \<and>
      z_options (cf_ht zf) = opt \<and> z_flag Z_FASTCDC (cf_ht zf) = (raw \<noteq> None) \<and> cf_file zf = f'" using f'(3,4) by blast
  qed
  then show thesis using that f'(1) by blast
qed


lemma z_new_ok: "opt_ok opt \<Longrightarrow> z_ok (z_new opt)"
  by (simp add: z_ok_def z_new_def Z_MAGIC0_def Z_MAGIC1_def)

lemma write_first:
  assumes W: "whole_io E content pos" and opt: "opt_ok opt" and as: "content as = []" "pos as = 0"
  obtains as' h where "z_write_header_trailer E as True False True (if cdc then z_set_flag Z_FASTCDC True (z_new opt) else z_new opt) None = (int Z_SPACE, as', h)"
    "first_header E opt cdc h" "content as' = z_page h" "pos as' = length (content as')"
proof -
  have P: "file_laws (io E) content pos" "full_writes (io E)" using W by (simp_all add: whole_io_def)
  define p where "p = (if cdc then z_set_flag Z_FASTCDC True (z_new opt) else z_new opt)"
  have no: "\<not> z_flag a (z_new opt)" for a by (simp add: z_flag_def z_new_def)
  have p: "z_ok p" "z_verify_magic p" "z_options p = opt" "z_flag Z_FASTCDC p = cdc" "\<not> z_flag Z_HEADER_OVERWRITE p"
    using z_new_ok [OF opt] no by (simp_all add: p_def z_flag_set z_shifts) (simp_all add: z_new_def z_verify_magic_def)
  obtain h where h: "z_write_header_trailer E as True False True p None =
      (case (case None of None \<Rightarrow> io_write (io E) as (z_page h) | Some q \<Rightarrow> io_pwrite (io E) as (z_page h) q) of (r, f) \<Rightarrow> (r, f, h))"
    "first_header E opt cdc h"
    by (rule z_write_spec [OF p(1), of E as True False True None "[]"], erule that) (use p in \<open>simp_all add: first_header_def\<close>)
  have "pos as = length (content as)" using as by simp
  from full_write [OF P this, of "z_page h"] obtain f where f: "io_write (io E) as (z_page h) = (int (length (z_page h)), f)"
    "content f = content as @ z_page h" "pos f = length (content f)" by metis
  have "length (z_page h) = Z_SPACE" using h(2) by (simp add: first_header_def)
  then show thesis using h f as that [of f h] by (simp add: p_def)
qed

lemma zfile_compress_holds:
  assumes W: "whole_io E content pos" and args: "args_ok E args" and as: "content as = []" "pos as = 0"
    and src: "pos file = 0" "length (content file) < 2 ^ 40"
  obtains file' as' cdc' where "zfile_compress E MD5 (Some file) (Some as) (Some args) cdc = Some (0, Some file', Some as', cdc')"
    "holds E content (header_options args) (use_fastcdc args) as' (content file)"
proof -
  let ?opt = "header_options args"
  have opt: "options_ok E ?opt" "opt_ok ?opt" "z_algo ?opt = z_algo (z_opt args)" "z_dict_size ?opt = 0" "z_verify ?opt = z_verify (z_opt args)"
    using args by (simp_all add: args_ok_def options_ok_def header_options_def split: if_splits)
  obtain c where c: "create_compressor E (z_opt args) = Some c" "compressor_ok E ?opt c"
    using opt(1,3) args by (auto simp: options_ok_def create_compressor_def compressor_ok_def args_ok_def)
  obtain as1 h0 where w: "z_write_header_trailer E as True False True (if use_fastcdc args then z_set_flag Z_FASTCDC True (z_new ?opt) else z_new ?opt) None =
      (int Z_SPACE, as1, h0)" "first_header E ?opt (use_fastcdc args) h0" "content as1 = z_page h0" "pos as1 = length (content as1)"
    by (rule write_first [OF W opt(2) as])
  define r where "r = (if use_fastcdc args
    then let (ch, cdc) = new_FastCDCChunker MD5 (fastcdc_min_size args) (fastcdc_avg_size args) (fastcdc_max_size args) cdc in (Some ch, cdc) else (None, cdc))"
  obtain chunker cdc1 where r': "r = (chunker, cdc1)" by (cases r)
  let ?s = "\<lparr>zc_file = file, zc_as = as1, zc_cdc = snd cdc1, block_len = [], raw_block_len = [], zc_moffset = Z_SPACE + z_dict_size ?opt, infile_size = 0\<rparr>"
  have ch: "chunker_ok ch \<and> MaxSize (zc_cdc ?s) = m_max_size ch" if "chunker = Some ch" for ch
  proof -
    have fc: "use_fastcdc args" using that r' by (auto simp: r_def split: if_splits)
    then have "z_block_size ?opt = unat (fastcdc_max_size args)" by (simp add: header_options_def)
    then show ?thesis using that r' fc opt(1) args
      by (auto simp: r_def new_FastCDCChunker_def Let_def chunker_ok_def options_ok_def args_ok_def MAX_READ_SIZE_def word_le_nat_alt split: prod.splits)
  qed
  have cn: "chunker = None \<longleftrightarrow> \<not> use_fastcdc args" using r' by (auto simp: r_def split: prod.splits)
  have p: "pos (zc_as ?s) = length (content (zc_as ?s))" using w(4) by simp
  have c1: "chunker_ok ch'" if "chunker = Some ch'" for ch' using ch [OF that] by blast
  have c2: "MaxSize (zc_cdc ?s) = m_max_size ch'" if "chunker = Some ch'" for ch' using ch [OF that] by blast
  obtain s' cs where s': "compress_loop E c chunker (z_verify ?opt \<noteq> 0) (z_block_size ?opt) (z_block_size ?opt + BUF_SIZE) ?s = Some (0, s')"
    "extends E ?opt content pos ?s cs s'" "concat cs = drop (pos (zc_file ?s)) (content (zc_file ?s))"
    "infile_size s' = infile_size ?s + length (concat cs)" "chunker = None \<longrightarrow> fixed_size (z_block_size ?opt) cs"
    using compress_loop_spec [OF W opt(1) c(2) c1 c2 p] by blast
  have data: "concat cs = content file" "infile_size s' = length (concat cs)" using s'(3,4) src(1) by simp_all
  from s'(2) obtain sts where sts: "list_all2 (written E ?opt) cs sts" "content (zc_as s') = z_page h0 @ concat sts" "block_len s' = map length sts"
    "zc_moffset s' = Z_SPACE + length (concat sts)" "pos (zc_as s') = length (content (zc_as s'))" "raw_block_len s' = map length cs"
    unfolding extends_def using w(3) opt(4) by auto
  let ?raw = "if use_fastcdc args then Some (raw_block_len s') else None"
  have raw: "(?raw \<noteq> None) = use_fastcdc args" "?raw = None \<or> ?raw = Some (map length cs)" using sts(6) by simp_all
  have h0: "first_header E ?opt (?raw \<noteq> None) h0" using w(2) raw(1) by simp
  have fx: "fixed_size (z_block_size ?opt) cs" if "?raw = None" using that s'(5) cn raw(1) by auto
  have small: "length (concat cs) < 2 ^ 40" using data src(2) by simp
  obtain f' where f': "write_index_trailer E (overwrite_header args) ?raw (map length sts) (Z_SPACE + length (concat sts)) (length (concat cs)) h0 (zc_as s') = (0, f')"
    "holds E content ?opt (?raw \<noteq> None) f' (concat cs)"
    by (rule finish_holds [OF W h0 opt(1) sts(2,5,1) raw(2) fx small])
  have "zfile_compress E MD5 (Some file) (Some as) (Some args) cdc = Some (0, Some (zc_file s'), Some f', (fst cdc1, zc_cdc s'))"
    unfolding zfile_compress_def option.case prod.case Let_def header_options_def [symmetric] c(1) w(1) r_def [unfolded Let_def, symmetric] r'
    using s'(1) f'(1) by (simp add: sts(3,4) data(2))
  moreover have "holds E content ?opt (use_fastcdc args) f' (content file)" using f'(2) unfolding raw(1) data(1) .
  ultimately show thesis by (rule that)
qed


section \<open>Reading back\<close>

lemma store_front: "length bs \<le> length buf \<Longrightarrow> store 0 bs buf = Some (bs @ drop (length bs) buf)"
  by (simp add: store_def)

lemma pread_exact:
  assumes R: "represents E content zf base chunks stored" and P: "full_reads (io E) content"
    and off: "read_start zf off = off" and buf: "count \<le> length buf"
  defines "d \<equiv> take count (drop off (concat chunks))"
  shows "zfile_pread E zf (Some buf) count off = Some (int (length d), Some (d @ drop (length d) buf), zf)"
proof -
  have d: "read_bytes zf chunks count off = d" using read_bytes_exact [OF off] by (simp add: d_def)
  have "length d = min count (length (concat chunks) - off)" "length d \<le> length buf" using buf by (simp_all add: d_def min.commute)
  then show ?thesis using pread_bytes [OF R P, of count off buf] store_front [of d buf] by (simp add: d)
qed

lemma decompress_loop_spec:
  assumes R: "represents E content zf base chunks stored" and W: "whole_io E content pos"
  shows "z_block_size (z_options (cf_ht zf)) dvd off \<or> length (concat chunks) \<le> off \<Longrightarrow> length buf = z_block_size (z_options (cf_ht zf)) \<Longrightarrow>
    pos dst = length (content dst) \<Longrightarrow>
    \<exists>dst'. decompress_loop E (length (concat chunks)) (z_block_size (z_options (cf_ht zf))) off zf buf dst = Some (0, dst') \<and>
      content dst' = content dst @ drop off (concat chunks)"
proof (induction "length (concat chunks) - off" arbitrary: off buf dst rule: less_induct)
  case less
  let ?bs = "z_block_size (z_options (cf_ht zf))" and ?D = "concat chunks"
  have P: "file_laws (io E) content pos" "full_reads (io E) content" "full_writes (io E)" using W by (simp_all add: whole_io_def)
  have bs: "0 < ?bs" using R by (simp add: represents_def)
  show ?case
  proof (cases "off < length ?D")
    case False
    then show ?thesis by (subst decompress_loop.simps) simp
  next
    case True
    let ?len = "min ?bs (length ?D - off)"
    define d where "d = take ?len (drop off ?D)"
    have d: "length d = ?len" "0 < ?len" using True bs by (simp_all add: d_def)
    have "read_start zf off = off" using less.prems(1) True by (intro read_start_exact) auto
    moreover have "?len \<le> length buf" using less.prems(2) by simp
    ultimately have pr: "zfile_pread E zf (Some buf) ?len off = Some (int ?len, Some (d @ drop ?len buf), zf)"
      using pread_exact [OF R P(2)] d(1) unfolding d_def by metis
    from full_write [OF P(1,3) less.prems(3), of d] obtain dst1 where
      w: "io_write (io E) dst d = (int (length d), dst1)" "content dst1 = content dst @ d" "pos dst1 = length (content dst1)" by metis
    have dec: "length ?D - (off + ?len) < length ?D - off" using d(2) True by simp
    have dv: "?bs dvd off + ?len \<or> length ?D \<le> off + ?len" using less.prems(1) True by (auto simp: min_def)
    have lb: "length (d @ drop ?len buf) = ?bs" using d(1) less.prems(2) by simp
    from less.hyps [OF dec dv lb w(3)] obtain dst' where
      IH: "decompress_loop E (length ?D) ?bs (off + ?len) zf (d @ drop ?len buf) dst1 = Some (0, dst')" "content dst' = content dst1 @ drop (off + ?len) ?D" by blast
    have "d @ drop (off + ?len) ?D = drop off ?D" by (metis add.commute append_take_drop_id d_def drop_drop)
    then have "content dst' = content dst @ drop off ?D" using IH(2) w(2) by simp
    moreover have "decompress_loop E (length ?D) ?bs off zf buf dst = Some (0, dst')"
      using True pr d w(1) IH(1) by (subst decompress_loop.simps) (simp add: Let_def)
    ultimately show ?thesis by blast
  qed
qed

lemma decompress_holds:
  assumes "holds E content opt cdc f data" "whole_io E content pos" "pos dst = length (content dst)"
  shows "\<exists>dst'. zfile_decompress E f dst = Some (0, dst') \<and> content dst' = content dst @ data"
proof -
  from assms(1) obtain zf chunks stored where zf: "zfile_open E f True False = Some (Some zf)" "represents E content zf Z_SPACE chunks stored"
    "concat chunks = data" "cf_file zf = f" unfolding holds_def by metis
  have "io_size (io E) f = (0, length (content f))" using assms(2) by (simp add: whole_io_def file_laws_def)
  moreover have "z_original_file_size (cf_ht zf) = length (concat chunks)" using zf(2) by (simp add: represents_def)
  ultimately show ?thesis
    using zf(1,3,4) decompress_loop_spec [OF zf(2) assms(2), of 0 "replicate (z_block_size (z_options (cf_ht zf))) 0" dst] assms(3)
    by (auto simp: zfile_decompress_def Let_def)
qed

section \<open>The builder\<close>

definition building :: "'f zenv \<Rightarrow> ('f \<Rightarrow> u8 list) \<Rightarrow> ('f \<Rightarrow> nat) \<Rightarrow> CompressArgs \<Rightarrow> u8 list list \<Rightarrow> 'f ZFileBuilder \<Rightarrow> bool" where
  "building E content pos args cs b \<longleftrightarrow> (\<exists>sts. list_all2 (written E (z_opt args)) cs sts \<and> content (m_dest b) = z_page (m_ht b) @ concat sts \<and>
     m_block_len b = map length sts \<and> zb_moffset b = Z_SPACE + length (concat sts)) \<and> pos (m_dest b) = length (content (m_dest b)) \<and>
     first_header E (z_opt args) False (m_ht b) \<and> m_opt b = z_opt args \<and> m_args b = args \<and> m_buf_size b = z_block_size (z_opt args) + BUF_SIZE \<and>
     (\<exists>c. m_compressor b = Some c \<and> compressor_ok E (z_opt args) c)"

lemma building_fields [simp]: "building E content pos args cs (b\<lparr>raw_data_size := n\<rparr>) = building E content pos args cs b"
  "building E content pos args cs (b\<lparr>reserved_buf := r\<rparr>) = building E content pos args cs b"
  by (simp_all add: building_def)

lemma new_builder:
  assumes W: "whole_io E content pos" and opt: "options_ok E (z_opt args)" and f: "content f = []" "pos f = 0"
  obtains b where "new_zfile_builder E f args = Some b" "building E content pos args [] b" "reserved_buf b = []" "raw_data_size b = 0"
proof -
  have o: "opt_ok (z_opt args)" using opt by (simp add: options_ok_def)
  obtain c where c: "create_compressor E (z_opt args) = Some c" "compressor_ok E (z_opt args) c"
    using opt by (auto simp: options_ok_def create_compressor_def compressor_ok_def max_stored_def)
  obtain f1 h where w: "z_write_header_trailer E f True False True (z_new (z_opt args)) None = (int Z_SPACE, f1, h)"
    "first_header E (z_opt args) False h" "content f1 = z_page h" "pos f1 = length (content f1)"
    using write_first [OF W o f, of False] by (metis (full_types))
  show thesis
    by (rule that, use c w in \<open>simp add: new_zfile_builder_def builder_init_def new_ZFileBuilder_def Let_def\<close>)
      (use c w in \<open>simp_all add: building_def\<close>)
qed

lemma write_buffer_spec:
  assumes W: "whole_io E content pos" and opt: "options_ok E (z_opt args)" and b: "building E content pos args cs b"
    and ch: "chunk \<noteq> []" "length chunk \<le> z_block_size (z_opt args)"
  obtains b' where "write_buffer E chunk b = Some (0, b')" "building E content pos args (cs @ [chunk]) b'" "reserved_buf b' = reserved_buf b"
    "raw_data_size b' = raw_data_size b"
proof -
  let ?opt = "z_opt args"
  have P: "file_laws (io E) content pos" "full_writes (io E)" using W by (simp_all add: whole_io_def)
  from b obtain sts c where s: "list_all2 (written E ?opt) cs sts" "content (m_dest b) = z_page (m_ht b) @ concat sts"
     "m_block_len b = map length sts" "zb_moffset b = Z_SPACE + length (concat sts)" "pos (m_dest b) = length (content (m_dest b))"
     "first_header E ?opt False (m_ht b)" "m_opt b = ?opt" "m_args b = args" "m_buf_size b = z_block_size ?opt + BUF_SIZE"
     "m_compressor b = Some c" "compressor_ok E ?opt c" unfolding building_def by blast
  from compress_one [OF opt s(11) ch, of "[]"] obtain code where code:
    "compress_batch E c chunk [length chunk] (z_block_size ?opt + BUF_SIZE) = Some [code]" "code \<noteq> []"
    "written E ?opt chunk (code @ (if z_verify ?opt \<noteq> 0 then u32_bytes (crc32c_salt E code) else []))" "length code + 4 \<le> max_stored E ?opt" by auto
  have "\<not> length code + 4 > z_block_size ?opt + BUF_SIZE" using code(4) opt by (simp add: options_ok_def)
  then have cd: "compress_data E c chunk (z_block_size ?opt + BUF_SIZE) (z_verify ?opt \<noteq> 0) =
      Some (Some (code @ (if z_verify ?opt \<noteq> 0 then u32_bytes (crc32c_salt E code) else [])))" using code(1,2) by (simp add: compress_data_def)
  define st where "st = code @ (if z_verify ?opt \<noteq> 0 then u32_bytes (crc32c_salt E code) else [])"
  from full_write [OF P s(5), of st] obtain f where f: "io_write (io E) (m_dest b) st = (int (length st), f)" "content f = content (m_dest b) @ st"
    "pos f = length (content f)" by metis
  let ?b = "b\<lparr>m_dest := f, m_block_len := m_block_len b @ [length st], zb_moffset := zb_moffset b + length st\<rparr>"
  have "write_buffer E chunk b = Some (0, ?b)" using s(7,9,10) cd f(1) unfolding st_def [symmetric] by (simp add: write_buffer_def)
  moreover have "building E content pos args (cs @ [chunk]) ?b"
  proof -
    have "list_all2 (written E ?opt) (cs @ [chunk]) (sts @ [st])" using s(1) code(3) by (intro list_all2_appendI) (simp_all add: st_def)
    then show ?thesis using s f unfolding building_def by (intro conjI exI [of _ "sts @ [st]"] exI [of _ c]) simp_all
  qed
  ultimately show thesis using that by simp
qed

definition filled :: "nat \<Rightarrow> u8 list list \<Rightarrow> bool" where
  "filled n cs \<longleftrightarrow> (\<forall>c \<in> set cs. length c = n)"

lemma write_loop_spec:
  assumes W: "whole_io E content pos" and opt: "options_ok E (z_opt args)"
  shows "building E content pos args cs b \<Longrightarrow> reserved_buf b = [] \<Longrightarrow>
    \<exists>b' ds. write_loop E buf b = Some (0, b') \<and> building E content pos args (cs @ ds) b' \<and> concat ds @ reserved_buf b' = buf \<and>
      filled (z_block_size (z_opt args)) ds \<and> length (reserved_buf b') < z_block_size (z_opt args) \<and> raw_data_size b' = raw_data_size b"
proof (induction "length buf" arbitrary: buf b cs rule: less_induct)
  case less
  let ?bs = "z_block_size (z_opt args)"
  have bs: "0 < ?bs" "m_opt b = z_opt args" using opt less.prems(1) by (auto simp: options_ok_def building_def)
  consider "buf = []" | "buf \<noteq> []" "?bs > length buf" | "buf \<noteq> []" "?bs \<le> length buf" by linarith
  then show ?case
  proof cases
    case 1
    then show ?thesis using less.prems bs by (subst write_loop.simps) (auto simp: filled_def intro!: exI [of _ b] exI [of _ "[]"])
  next
    case 2
    then show ?thesis using less.prems bs
      by (subst write_loop.simps) (auto simp: filled_def intro!: exI [of _ "b\<lparr>reserved_buf := buf\<rparr>"] exI [of _ "[]"])
  next
    case 3
    let ?chunk = "take ?bs buf"
    have ch: "?chunk \<noteq> []" "length ?chunk \<le> ?bs" using 3 bs by auto
    from write_buffer_spec [OF W opt less.prems(1) ch] obtain b1 where
      b1: "write_buffer E ?chunk b = Some (0, b1)" "building E content pos args (cs @ [?chunk]) b1" "reserved_buf b1 = []" "raw_data_size b1 = raw_data_size b"
      using less.prems(2) by auto
    have "length (drop ?bs buf) < length buf" using 3 bs by simp
    from less.hyps [OF this b1(2,3)] obtain b' ds where
      IH: "write_loop E (drop ?bs buf) b1 = Some (0, b')" "building E content pos args ((cs @ [?chunk]) @ ds) b'" "concat ds @ reserved_buf b' = drop ?bs buf"
        "filled ?bs ds" "length (reserved_buf b') < ?bs" "raw_data_size b' = raw_data_size b1" by blast
    have "write_loop E buf b = Some (0, b')" using 3 bs b1(1) IH(1) by (subst write_loop.simps) (simp add: Let_def)
    moreover have "concat (?chunk # ds) @ reserved_buf b' = buf" using IH(3) by simp
    moreover have "filled ?bs (?chunk # ds)" using IH(4) 3 by (simp add: filled_def)
    ultimately show ?thesis using IH(2,5,6) b1(4) by (intro exI [of _ b'] exI [of _ "?chunk # ds"]) simp
  qed
qed


text \<open>The builder after the bytes \<open>data\<close> have been written to it.\<close>

definition session :: "'f zenv \<Rightarrow> ('f \<Rightarrow> u8 list) \<Rightarrow> ('f \<Rightarrow> nat) \<Rightarrow> CompressArgs \<Rightarrow> u8 list \<Rightarrow> 'f ZFileBuilder \<Rightarrow> bool" where
  "session E content pos args data b \<longleftrightarrow> (\<exists>cs. building E content pos args cs b \<and> filled (z_block_size (z_opt args)) cs \<and>
     data = concat cs @ reserved_buf b) \<and> length (reserved_buf b) < z_block_size (z_opt args) \<and> raw_data_size b = length data"

lemma filled_append: "filled n (cs @ ds) \<longleftrightarrow> filled n cs \<and> filled n ds"
  by (auto simp: filled_def)

lemma builder_write_spec:
  assumes W: "whole_io E content pos" and opt: "options_ok E (z_opt args)" and s: "session E content pos args data b"
  obtains b' where "builder_write E buf b = Some (int (length buf), b')" "session E content pos args (data @ buf) b'"
proof -
  let ?bs = "z_block_size (z_opt args)" and ?b = "b\<lparr>raw_data_size := raw_data_size b + length buf\<rparr>"
  from s obtain cs where cs: "building E content pos args cs b" "filled ?bs cs" "data = concat cs @ reserved_buf b" "length (reserved_buf b) < ?bs"
    "raw_data_size b = length data" unfolding session_def by blast
  have b: "building E content pos args cs ?b" "m_opt b = z_opt args" using cs(1) by (simp, simp add: building_def)
  show thesis
  proof (cases "reserved_buf b \<noteq> [] \<and> length (reserved_buf b) + length buf < ?bs")
    case True
    have "builder_write E buf b = Some (int (length buf), ?b\<lparr>reserved_buf := reserved_buf b @ buf\<rparr>)"
      using True b(2) by (simp add: builder_write_def Let_def)
    moreover have "session E content pos args (data @ buf) (?b\<lparr>reserved_buf := reserved_buf b @ buf\<rparr>)"
      using True b(1) cs by (auto simp: session_def)
    ultimately show thesis by (rule that)
  next
    case False
    have "\<exists>b1 buf' ds. (if reserved_buf ?b \<noteq> [] then do {
            bug_on (length (reserved_buf ?b) > z_block_size (m_opt ?b));
            let delta = z_block_size (m_opt ?b) - length (reserved_buf ?b);
            (ret, b) \<leftarrow> write_buffer E (reserved_buf ?b @ take delta buf) ?b;
            Some (ret, drop delta buf, if ret \<noteq> 0 then b else b\<lparr>reserved_buf := []\<rparr>)
          } else Some (0, buf, ?b)) = Some (0, buf', b1) \<and> building E content pos args (cs @ ds) b1 \<and> filled ?bs ds \<and>
        reserved_buf b @ buf = concat ds @ buf' \<and> reserved_buf b1 = [] \<and> raw_data_size b1 = raw_data_size ?b"
    proof (cases "reserved_buf b = []")
      case True
      then show ?thesis using b(1) by (intro exI [of _ ?b] exI [of _ buf] exI [of _ "[]"]) (simp add: filled_def)
    next
      case ne: False
      let ?d = "?bs - length (reserved_buf b)"
      let ?chunk = "reserved_buf b @ take ?d buf"
      have ch: "?chunk \<noteq> []" "length ?chunk = ?bs" "length ?chunk \<le> ?bs" using ne False cs(4) by auto
      from write_buffer_spec [OF W opt b(1) ch(1,3)] obtain b1 where
        b1: "write_buffer E ?chunk ?b = Some (0, b1)" "building E content pos args (cs @ [?chunk]) b1" "raw_data_size b1 = raw_data_size ?b" by blast
      show ?thesis using ne b(2) cs(4) b1 ch(2)
        by (intro exI [of _ "b1\<lparr>reserved_buf := []\<rparr>"] exI [of _ "drop ?d buf"] exI [of _ "[?chunk]"]) (simp add: filled_def Let_def)
    qed
    then obtain b1 buf' ds where b1: "(if reserved_buf ?b \<noteq> [] then do {
            bug_on (length (reserved_buf ?b) > z_block_size (m_opt ?b));
            let delta = z_block_size (m_opt ?b) - length (reserved_buf ?b);
            (ret, b) \<leftarrow> write_buffer E (reserved_buf ?b @ take delta buf) ?b;
            Some (ret, drop delta buf, if ret \<noteq> 0 then b else b\<lparr>reserved_buf := []\<rparr>)
          } else Some (0, buf, ?b)) = Some (0, buf', b1)" "building E content pos args (cs @ ds) b1" "filled ?bs ds"
      "reserved_buf b @ buf = concat ds @ buf'" "reserved_buf b1 = []" "raw_data_size b1 = raw_data_size ?b" by blast
    from write_loop_spec [OF W opt b1(2,5), of buf'] obtain b' es where
      b': "write_loop E buf' b1 = Some (0, b')" "building E content pos args ((cs @ ds) @ es) b'" "concat es @ reserved_buf b' = buf'" "filled ?bs es"
        "length (reserved_buf b') < ?bs" "raw_data_size b' = raw_data_size b1" by blast
    have nc: "\<not> (reserved_buf ?b \<noteq> [] \<and> length (reserved_buf ?b) + length buf < z_block_size (m_opt ?b))" using False b(2) by simp
    have "builder_write E buf b = Some (int (length buf), b')"
      unfolding builder_write_def Let_def if_not_P [OF nc] using b1(1) [unfolded Let_def] b'(1) by simp
    moreover have "length (reserved_buf b) + length buf = length (concat ds) + (length (concat es) + length (reserved_buf b'))"
      using arg_cong [OF b1(4), of length] unfolding b'(3) [symmetric] by simp
    then have "session E content pos args (data @ buf) b'"
      unfolding session_def using b' b1(3,4,6) cs(2,3,5) by (intro conjI exI [of _ "(cs @ ds) @ es"]) (auto simp: filled_append)
    ultimately show thesis by (rule that)
  qed
qed

lemma builder_fini_holds:
  assumes W: "whole_io E content pos" and opt: "options_ok E (z_opt args)" and s: "session E content pos args data b" and small: "length data < 2 ^ 40"
  shows "\<exists>b'. builder_fini E b = Some (0, b') \<and> holds E content (z_opt args) False (m_dest b') data"
proof -
  let ?bs = "z_block_size (z_opt args)" and ?opt = "z_opt args"
  from s obtain cs where cs: "building E content pos args cs b" "filled ?bs cs" "data = concat cs @ reserved_buf b" "length (reserved_buf b) < ?bs"
    "raw_data_size b = length data" unfolding session_def by blast
  define last_one where "last_one = (if reserved_buf b = [] then [] else [reserved_buf b])"
  have "\<exists>b1. (if reserved_buf b \<noteq> [] then write_buffer E (reserved_buf b) b else Some (0, b)) = Some (0, b1) \<and>
    building E content pos args (cs @ last_one) b1 \<and> raw_data_size b1 = raw_data_size b"
  proof (cases "reserved_buf b = []")
    case True
    then show ?thesis using cs(1) by (simp add: last_one_def)
  next
    case False
    have le: "length (reserved_buf b) \<le> ?bs" using cs(4) by simp
    from write_buffer_spec [OF W opt cs(1) False le] obtain b1 where
      "write_buffer E (reserved_buf b) b = Some (0, b1)" "building E content pos args (cs @ [reserved_buf b]) b1" "raw_data_size b1 = raw_data_size b" by blast
    then show ?thesis using False by (simp add: last_one_def)
  qed
  then obtain b1 where b1: "(if reserved_buf b \<noteq> [] then write_buffer E (reserved_buf b) b else Some (0, b)) = Some (0, b1)"
    "building E content pos args (cs @ last_one) b1" "raw_data_size b1 = raw_data_size b" by blast
  from b1(2) obtain sts where st: "list_all2 (written E ?opt) (cs @ last_one) sts" "content (m_dest b1) = z_page (m_ht b1) @ concat sts"
     "m_block_len b1 = map length sts" "zb_moffset b1 = Z_SPACE + length (concat sts)" "pos (m_dest b1) = length (content (m_dest b1))"
     "first_header E ?opt False (m_ht b1)" "m_args b1 = args" unfolding building_def by blast
  have data: "concat (cs @ last_one) = data" using cs(3) by (simp add: last_one_def)
  have fx: "fixed_size ?bs (cs @ last_one)"
    using cs(2) by (auto simp: fixed_size_def filled_def last_one_def nth_append split: if_splits)
  have h0: "first_header E ?opt ((None :: nat list option) \<noteq> None) (m_ht b1)" using st(6) by simp
  have sm: "length (concat (cs @ last_one)) < 2 ^ 40" using small by (simp only: data)
  obtain f' where f': "write_index_trailer E (overwrite_header args) None (map length sts) (Z_SPACE + length (concat sts)) (length (concat (cs @ last_one))) (m_ht b1) (m_dest b1) = (0, f')"
    "holds E content ?opt ((None :: nat list option) \<noteq> None) f' (concat (cs @ last_one))"
    by (rule finish_holds [OF W h0 opt st(2,5,1) _ fx sm]) simp_all
  have "builder_fini E b = Some (0, b1\<lparr>m_dest := f'\<rparr>)"
    using b1(1,3) f'(1) st(3,4,7) cs(5) unfolding data by (simp add: builder_fini_def)
  then show ?thesis using f'(2) unfolding data by auto
qed

lemma builder_writes_holds:
  assumes W: "whole_io E content pos" and opt: "options_ok E (z_opt args)"
  shows "session E content pos args data b \<Longrightarrow> length (data @ concat bufs) < 2 ^ 40 \<Longrightarrow>
    \<exists>b'. builder_writes E bufs b = Some (0, b') \<and> holds E content (z_opt args) False (m_dest b') (data @ concat bufs)"
proof (induction bufs arbitrary: data b)
  case Nil
  then show ?case using builder_fini_holds [OF W opt Nil(1)] by simp
next
  case (Cons buf bufs)
  from builder_write_spec [OF W opt Cons.prems(1), of buf] obtain b1 where
    b1: "builder_write E buf b = Some (int (length buf), b1)" "session E content pos args (data @ buf) b1" by blast
  have "length ((data @ buf) @ concat bufs) < 2 ^ 40" using Cons.prems(2) by simp
  from Cons.IH [OF b1(2) this] show ?case using b1(1) by simp
qed

end
