(* ===== verification/CRC32C.thy ===== *)
theory CRC32C
  imports Prelude
begin

text \<open>
  The checksum of compressed files (\<open>overlaybd/zfile/crc32/crc32c.cpp\<close>): the table driven routines for one byte and
  for eight bytes at a time, and the routine for the crc32 instruction of the processor. All three compute the same
  bit by bit division. A buffer is a list; \<open>addr\<close> is its address, which decides about the alignment.
\<close>

section \<open>The tables\<close>

definition crc32Table :: "u32 list" where
  "crc32Table =
   [0x0, 0xf26b8303, 0xe13b70f7, 0x1350f3f4, 0xc79a971f, 0x35f1141c, 0x26a1e7e8, 0xd4ca64eb,
    0x8ad958cf, 0x78b2dbcc, 0x6be22838, 0x9989ab3b, 0x4d43cfd0, 0xbf284cd3, 0xac78bf27, 0x5e133c24,
    0x105ec76f, 0xe235446c, 0xf165b798, 0x30e349b, 0xd7c45070, 0x25afd373, 0x36ff2087, 0xc494a384,
    0x9a879fa0, 0x68ec1ca3, 0x7bbcef57, 0x89d76c54, 0x5d1d08bf, 0xaf768bbc, 0xbc267848, 0x4e4dfb4b,
    0x20bd8ede, 0xd2d60ddd, 0xc186fe29, 0x33ed7d2a, 0xe72719c1, 0x154c9ac2, 0x61c6936, 0xf477ea35,
    0xaa64d611, 0x580f5512, 0x4b5fa6e6, 0xb93425e5, 0x6dfe410e, 0x9f95c20d, 0x8cc531f9, 0x7eaeb2fa,
    0x30e349b1, 0xc288cab2, 0xd1d83946, 0x23b3ba45, 0xf779deae, 0x5125dad, 0x1642ae59, 0xe4292d5a,
    0xba3a117e, 0x4851927d, 0x5b016189, 0xa96ae28a, 0x7da08661, 0x8fcb0562, 0x9c9bf696, 0x6ef07595,
    0x417b1dbc, 0xb3109ebf, 0xa0406d4b, 0x522bee48, 0x86e18aa3, 0x748a09a0, 0x67dafa54, 0x95b17957,
    0xcba24573, 0x39c9c670, 0x2a993584, 0xd8f2b687, 0xc38d26c, 0xfe53516f, 0xed03a29b, 0x1f682198,
    0x5125dad3, 0xa34e59d0, 0xb01eaa24, 0x42752927, 0x96bf4dcc, 0x64d4cecf, 0x77843d3b, 0x85efbe38,
    0xdbfc821c, 0x2997011f, 0x3ac7f2eb, 0xc8ac71e8, 0x1c661503, 0xee0d9600, 0xfd5d65f4, 0xf36e6f7,
    0x61c69362, 0x93ad1061, 0x80fde395, 0x72966096, 0xa65c047d, 0x5437877e, 0x4767748a, 0xb50cf789,
    0xeb1fcbad, 0x197448ae, 0xa24bb5a, 0xf84f3859, 0x2c855cb2, 0xdeeedfb1, 0xcdbe2c45, 0x3fd5af46,
    0x7198540d, 0x83f3d70e, 0x90a324fa, 0x62c8a7f9, 0xb602c312, 0x44694011, 0x5739b3e5, 0xa55230e6,
    0xfb410cc2, 0x92a8fc1, 0x1a7a7c35, 0xe811ff36, 0x3cdb9bdd, 0xceb018de, 0xdde0eb2a, 0x2f8b6829,
    0x82f63b78, 0x709db87b, 0x63cd4b8f, 0x91a6c88c, 0x456cac67, 0xb7072f64, 0xa457dc90, 0x563c5f93,
    0x82f63b7, 0xfa44e0b4, 0xe9141340, 0x1b7f9043, 0xcfb5f4a8, 0x3dde77ab, 0x2e8e845f, 0xdce5075c,
    0x92a8fc17, 0x60c37f14, 0x73938ce0, 0x81f80fe3, 0x55326b08, 0xa759e80b, 0xb4091bff, 0x466298fc,
    0x1871a4d8, 0xea1a27db, 0xf94ad42f, 0xb21572c, 0xdfeb33c7, 0x2d80b0c4, 0x3ed04330, 0xccbbc033,
    0xa24bb5a6, 0x502036a5, 0x4370c551, 0xb11b4652, 0x65d122b9, 0x97baa1ba, 0x84ea524e, 0x7681d14d,
    0x2892ed69, 0xdaf96e6a, 0xc9a99d9e, 0x3bc21e9d, 0xef087a76, 0x1d63f975, 0xe330a81, 0xfc588982,
    0xb21572c9, 0x407ef1ca, 0x532e023e, 0xa145813d, 0x758fe5d6, 0x87e466d5, 0x94b49521, 0x66df1622,
    0x38cc2a06, 0xcaa7a905, 0xd9f75af1, 0x2b9cd9f2, 0xff56bd19, 0xd3d3e1a, 0x1e6dcdee, 0xec064eed,
    0xc38d26c4, 0x31e6a5c7, 0x22b65633, 0xd0ddd530, 0x417b1db, 0xf67c32d8, 0xe52cc12c, 0x1747422f,
    0x49547e0b, 0xbb3ffd08, 0xa86f0efc, 0x5a048dff, 0x8ecee914, 0x7ca56a17, 0x6ff599e3, 0x9d9e1ae0,
    0xd3d3e1ab, 0x21b862a8, 0x32e8915c, 0xc083125f, 0x144976b4, 0xe622f5b7, 0xf5720643, 0x7198540,
    0x590ab964, 0xab613a67, 0xb831c993, 0x4a5a4a90, 0x9e902e7b, 0x6cfbad78, 0x7fab5e8c, 0x8dc0dd8f,
    0xe330a81a, 0x115b2b19, 0x20bd8ed, 0xf0605bee, 0x24aa3f05, 0xd6c1bc06, 0xc5914ff2, 0x37faccf1,
    0x69e9f0d5, 0x9b8273d6, 0x88d28022, 0x7ab90321, 0xae7367ca, 0x5c18e4c9, 0x4f48173d, 0xbd23943e,
    0xf36e6f75, 0x105ec76, 0x12551f82, 0xe03e9c81, 0x34f4f86a, 0xc69f7b69, 0xd5cf889d, 0x27a40b9e,
    0x79b737ba, 0x8bdcb4b9, 0x988c474d, 0x6ae7c44e, 0xbe2da0a5, 0x4c4623a6, 0x5f16d052, 0xad7d5351]"

definition sctp_crc_tableil8_o32 :: "u32 list" where
  "sctp_crc_tableil8_o32 =
   [0x0, 0xf26b8303, 0xe13b70f7, 0x1350f3f4, 0xc79a971f, 0x35f1141c, 0x26a1e7e8, 0xd4ca64eb,
    0x8ad958cf, 0x78b2dbcc, 0x6be22838, 0x9989ab3b, 0x4d43cfd0, 0xbf284cd3, 0xac78bf27, 0x5e133c24,
    0x105ec76f, 0xe235446c, 0xf165b798, 0x30e349b, 0xd7c45070, 0x25afd373, 0x36ff2087, 0xc494a384,
    0x9a879fa0, 0x68ec1ca3, 0x7bbcef57, 0x89d76c54, 0x5d1d08bf, 0xaf768bbc, 0xbc267848, 0x4e4dfb4b,
    0x20bd8ede, 0xd2d60ddd, 0xc186fe29, 0x33ed7d2a, 0xe72719c1, 0x154c9ac2, 0x61c6936, 0xf477ea35,
    0xaa64d611, 0x580f5512, 0x4b5fa6e6, 0xb93425e5, 0x6dfe410e, 0x9f95c20d, 0x8cc531f9, 0x7eaeb2fa,
    0x30e349b1, 0xc288cab2, 0xd1d83946, 0x23b3ba45, 0xf779deae, 0x5125dad, 0x1642ae59, 0xe4292d5a,
    0xba3a117e, 0x4851927d, 0x5b016189, 0xa96ae28a, 0x7da08661, 0x8fcb0562, 0x9c9bf696, 0x6ef07595,
    0x417b1dbc, 0xb3109ebf, 0xa0406d4b, 0x522bee48, 0x86e18aa3, 0x748a09a0, 0x67dafa54, 0x95b17957,
    0xcba24573, 0x39c9c670, 0x2a993584, 0xd8f2b687, 0xc38d26c, 0xfe53516f, 0xed03a29b, 0x1f682198,
    0x5125dad3, 0xa34e59d0, 0xb01eaa24, 0x42752927, 0x96bf4dcc, 0x64d4cecf, 0x77843d3b, 0x85efbe38,
    0xdbfc821c, 0x2997011f, 0x3ac7f2eb, 0xc8ac71e8, 0x1c661503, 0xee0d9600, 0xfd5d65f4, 0xf36e6f7,
    0x61c69362, 0x93ad1061, 0x80fde395, 0x72966096, 0xa65c047d, 0x5437877e, 0x4767748a, 0xb50cf789,
    0xeb1fcbad, 0x197448ae, 0xa24bb5a, 0xf84f3859, 0x2c855cb2, 0xdeeedfb1, 0xcdbe2c45, 0x3fd5af46,
    0x7198540d, 0x83f3d70e, 0x90a324fa, 0x62c8a7f9, 0xb602c312, 0x44694011, 0x5739b3e5, 0xa55230e6,
    0xfb410cc2, 0x92a8fc1, 0x1a7a7c35, 0xe811ff36, 0x3cdb9bdd, 0xceb018de, 0xdde0eb2a, 0x2f8b6829,
    0x82f63b78, 0x709db87b, 0x63cd4b8f, 0x91a6c88c, 0x456cac67, 0xb7072f64, 0xa457dc90, 0x563c5f93,
    0x82f63b7, 0xfa44e0b4, 0xe9141340, 0x1b7f9043, 0xcfb5f4a8, 0x3dde77ab, 0x2e8e845f, 0xdce5075c,
    0x92a8fc17, 0x60c37f14, 0x73938ce0, 0x81f80fe3, 0x55326b08, 0xa759e80b, 0xb4091bff, 0x466298fc,
    0x1871a4d8, 0xea1a27db, 0xf94ad42f, 0xb21572c, 0xdfeb33c7, 0x2d80b0c4, 0x3ed04330, 0xccbbc033,
    0xa24bb5a6, 0x502036a5, 0x4370c551, 0xb11b4652, 0x65d122b9, 0x97baa1ba, 0x84ea524e, 0x7681d14d,
    0x2892ed69, 0xdaf96e6a, 0xc9a99d9e, 0x3bc21e9d, 0xef087a76, 0x1d63f975, 0xe330a81, 0xfc588982,
    0xb21572c9, 0x407ef1ca, 0x532e023e, 0xa145813d, 0x758fe5d6, 0x87e466d5, 0x94b49521, 0x66df1622,
    0x38cc2a06, 0xcaa7a905, 0xd9f75af1, 0x2b9cd9f2, 0xff56bd19, 0xd3d3e1a, 0x1e6dcdee, 0xec064eed,
    0xc38d26c4, 0x31e6a5c7, 0x22b65633, 0xd0ddd530, 0x417b1db, 0xf67c32d8, 0xe52cc12c, 0x1747422f,
    0x49547e0b, 0xbb3ffd08, 0xa86f0efc, 0x5a048dff, 0x8ecee914, 0x7ca56a17, 0x6ff599e3, 0x9d9e1ae0,
    0xd3d3e1ab, 0x21b862a8, 0x32e8915c, 0xc083125f, 0x144976b4, 0xe622f5b7, 0xf5720643, 0x7198540,
    0x590ab964, 0xab613a67, 0xb831c993, 0x4a5a4a90, 0x9e902e7b, 0x6cfbad78, 0x7fab5e8c, 0x8dc0dd8f,
    0xe330a81a, 0x115b2b19, 0x20bd8ed, 0xf0605bee, 0x24aa3f05, 0xd6c1bc06, 0xc5914ff2, 0x37faccf1,
    0x69e9f0d5, 0x9b8273d6, 0x88d28022, 0x7ab90321, 0xae7367ca, 0x5c18e4c9, 0x4f48173d, 0xbd23943e,
    0xf36e6f75, 0x105ec76, 0x12551f82, 0xe03e9c81, 0x34f4f86a, 0xc69f7b69, 0xd5cf889d, 0x27a40b9e,
    0x79b737ba, 0x8bdcb4b9, 0x988c474d, 0x6ae7c44e, 0xbe2da0a5, 0x4c4623a6, 0x5f16d052, 0xad7d5351]"

definition sctp_crc_tableil8_o40 :: "u32 list" where
  "sctp_crc_tableil8_o40 =
   [0x0, 0x13a29877, 0x274530ee, 0x34e7a899, 0x4e8a61dc, 0x5d28f9ab, 0x69cf5132, 0x7a6dc945,
    0x9d14c3b8, 0x8eb65bcf, 0xba51f356, 0xa9f36b21, 0xd39ea264, 0xc03c3a13, 0xf4db928a, 0xe7790afd,
    0x3fc5f181, 0x2c6769f6, 0x1880c16f, 0xb225918, 0x714f905d, 0x62ed082a, 0x560aa0b3, 0x45a838c4,
    0xa2d13239, 0xb173aa4e, 0x859402d7, 0x96369aa0, 0xec5b53e5, 0xfff9cb92, 0xcb1e630b, 0xd8bcfb7c,
    0x7f8be302, 0x6c297b75, 0x58ced3ec, 0x4b6c4b9b, 0x310182de, 0x22a31aa9, 0x1644b230, 0x5e62a47,
    0xe29f20ba, 0xf13db8cd, 0xc5da1054, 0xd6788823, 0xac154166, 0xbfb7d911, 0x8b507188, 0x98f2e9ff,
    0x404e1283, 0x53ec8af4, 0x670b226d, 0x74a9ba1a, 0xec4735f, 0x1d66eb28, 0x298143b1, 0x3a23dbc6,
    0xdd5ad13b, 0xcef8494c, 0xfa1fe1d5, 0xe9bd79a2, 0x93d0b0e7, 0x80722890, 0xb4958009, 0xa737187e,
    0xff17c604, 0xecb55e73, 0xd852f6ea, 0xcbf06e9d, 0xb19da7d8, 0xa23f3faf, 0x96d89736, 0x857a0f41,
    0x620305bc, 0x71a19dcb, 0x45463552, 0x56e4ad25, 0x2c896460, 0x3f2bfc17, 0xbcc548e, 0x186eccf9,
    0xc0d23785, 0xd370aff2, 0xe797076b, 0xf4359f1c, 0x8e585659, 0x9dface2e, 0xa91d66b7, 0xbabffec0,
    0x5dc6f43d, 0x4e646c4a, 0x7a83c4d3, 0x69215ca4, 0x134c95e1, 0xee0d96, 0x3409a50f, 0x27ab3d78,
    0x809c2506, 0x933ebd71, 0xa7d915e8, 0xb47b8d9f, 0xce1644da, 0xddb4dcad, 0xe9537434, 0xfaf1ec43,
    0x1d88e6be, 0xe2a7ec9, 0x3acdd650, 0x296f4e27, 0x53028762, 0x40a01f15, 0x7447b78c, 0x67e52ffb,
    0xbf59d487, 0xacfb4cf0, 0x981ce469, 0x8bbe7c1e, 0xf1d3b55b, 0xe2712d2c, 0xd69685b5, 0xc5341dc2,
    0x224d173f, 0x31ef8f48, 0x50827d1, 0x16aabfa6, 0x6cc776e3, 0x7f65ee94, 0x4b82460d, 0x5820de7a,
    0xfbc3faf9, 0xe861628e, 0xdc86ca17, 0xcf245260, 0xb5499b25, 0xa6eb0352, 0x920cabcb, 0x81ae33bc,
    0x66d73941, 0x7575a136, 0x419209af, 0x523091d8, 0x285d589d, 0x3bffc0ea, 0xf186873, 0x1cbaf004,
    0xc4060b78, 0xd7a4930f, 0xe3433b96, 0xf0e1a3e1, 0x8a8c6aa4, 0x992ef2d3, 0xadc95a4a, 0xbe6bc23d,
    0x5912c8c0, 0x4ab050b7, 0x7e57f82e, 0x6df56059, 0x1798a91c, 0x43a316b, 0x30dd99f2, 0x237f0185,
    0x844819fb, 0x97ea818c, 0xa30d2915, 0xb0afb162, 0xcac27827, 0xd960e050, 0xed8748c9, 0xfe25d0be,
    0x195cda43, 0xafe4234, 0x3e19eaad, 0x2dbb72da, 0x57d6bb9f, 0x447423e8, 0x70938b71, 0x63311306,
    0xbb8de87a, 0xa82f700d, 0x9cc8d894, 0x8f6a40e3, 0xf50789a6, 0xe6a511d1, 0xd242b948, 0xc1e0213f,
    0x26992bc2, 0x353bb3b5, 0x1dc1b2c, 0x127e835b, 0x68134a1e, 0x7bb1d269, 0x4f567af0, 0x5cf4e287,
    0x4d43cfd, 0x1776a48a, 0x23910c13, 0x30339464, 0x4a5e5d21, 0x59fcc556, 0x6d1b6dcf, 0x7eb9f5b8,
    0x99c0ff45, 0x8a626732, 0xbe85cfab, 0xad2757dc, 0xd74a9e99, 0xc4e806ee, 0xf00fae77, 0xe3ad3600,
    0x3b11cd7c, 0x28b3550b, 0x1c54fd92, 0xff665e5, 0x759baca0, 0x663934d7, 0x52de9c4e, 0x417c0439,
    0xa6050ec4, 0xb5a796b3, 0x81403e2a, 0x92e2a65d, 0xe88f6f18, 0xfb2df76f, 0xcfca5ff6, 0xdc68c781,
    0x7b5fdfff, 0x68fd4788, 0x5c1aef11, 0x4fb87766, 0x35d5be23, 0x26772654, 0x12908ecd, 0x13216ba,
    0xe64b1c47, 0xf5e98430, 0xc10e2ca9, 0xd2acb4de, 0xa8c17d9b, 0xbb63e5ec, 0x8f844d75, 0x9c26d502,
    0x449a2e7e, 0x5738b609, 0x63df1e90, 0x707d86e7, 0xa104fa2, 0x19b2d7d5, 0x2d557f4c, 0x3ef7e73b,
    0xd98eedc6, 0xca2c75b1, 0xfecbdd28, 0xed69455f, 0x97048c1a, 0x84a6146d, 0xb041bcf4, 0xa3e32483]"

definition sctp_crc_tableil8_o48 :: "u32 list" where
  "sctp_crc_tableil8_o48 =
   [0x0, 0xa541927e, 0x4f6f520d, 0xea2ec073, 0x9edea41a, 0x3b9f3664, 0xd1b1f617, 0x74f06469,
    0x38513ec5, 0x9d10acbb, 0x773e6cc8, 0xd27ffeb6, 0xa68f9adf, 0x3ce08a1, 0xe9e0c8d2, 0x4ca15aac,
    0x70a27d8a, 0xd5e3eff4, 0x3fcd2f87, 0x9a8cbdf9, 0xee7cd990, 0x4b3d4bee, 0xa1138b9d, 0x45219e3,
    0x48f3434f, 0xedb2d131, 0x79c1142, 0xa2dd833c, 0xd62de755, 0x736c752b, 0x9942b558, 0x3c032726,
    0xe144fb14, 0x4405696a, 0xae2ba919, 0xb6a3b67, 0x7f9a5f0e, 0xdadbcd70, 0x30f50d03, 0x95b49f7d,
    0xd915c5d1, 0x7c5457af, 0x967a97dc, 0x333b05a2, 0x47cb61cb, 0xe28af3b5, 0x8a433c6, 0xade5a1b8,
    0x91e6869e, 0x34a714e0, 0xde89d493, 0x7bc846ed, 0xf382284, 0xaa79b0fa, 0x40577089, 0xe516e2f7,
    0xa9b7b85b, 0xcf62a25, 0xe6d8ea56, 0x43997828, 0x37691c41, 0x92288e3f, 0x78064e4c, 0xdd47dc32,
    0xc76580d9, 0x622412a7, 0x880ad2d4, 0x2d4b40aa, 0x59bb24c3, 0xfcfab6bd, 0x16d476ce, 0xb395e4b0,
    0xff34be1c, 0x5a752c62, 0xb05bec11, 0x151a7e6f, 0x61ea1a06, 0xc4ab8878, 0x2e85480b, 0x8bc4da75,
    0xb7c7fd53, 0x12866f2d, 0xf8a8af5e, 0x5de93d20, 0x29195949, 0x8c58cb37, 0x66760b44, 0xc337993a,
    0x8f96c396, 0x2ad751e8, 0xc0f9919b, 0x65b803e5, 0x1148678c, 0xb409f5f2, 0x5e273581, 0xfb66a7ff,
    0x26217bcd, 0x8360e9b3, 0x694e29c0, 0xcc0fbbbe, 0xb8ffdfd7, 0x1dbe4da9, 0xf7908dda, 0x52d11fa4,
    0x1e704508, 0xbb31d776, 0x511f1705, 0xf45e857b, 0x80aee112, 0x25ef736c, 0xcfc1b31f, 0x6a802161,
    0x56830647, 0xf3c29439, 0x19ec544a, 0xbcadc634, 0xc85da25d, 0x6d1c3023, 0x8732f050, 0x2273622e,
    0x6ed23882, 0xcb93aafc, 0x21bd6a8f, 0x84fcf8f1, 0xf00c9c98, 0x554d0ee6, 0xbf63ce95, 0x1a225ceb,
    0x8b277743, 0x2e66e53d, 0xc448254e, 0x6109b730, 0x15f9d359, 0xb0b84127, 0x5a968154, 0xffd7132a,
    0xb3764986, 0x1637dbf8, 0xfc191b8b, 0x595889f5, 0x2da8ed9c, 0x88e97fe2, 0x62c7bf91, 0xc7862def,
    0xfb850ac9, 0x5ec498b7, 0xb4ea58c4, 0x11abcaba, 0x655baed3, 0xc01a3cad, 0x2a34fcde, 0x8f756ea0,
    0xc3d4340c, 0x6695a672, 0x8cbb6601, 0x29faf47f, 0x5d0a9016, 0xf84b0268, 0x1265c21b, 0xb7245065,
    0x6a638c57, 0xcf221e29, 0x250cde5a, 0x804d4c24, 0xf4bd284d, 0x51fcba33, 0xbbd27a40, 0x1e93e83e,
    0x5232b292, 0xf77320ec, 0x1d5de09f, 0xb81c72e1, 0xccec1688, 0x69ad84f6, 0x83834485, 0x26c2d6fb,
    0x1ac1f1dd, 0xbf8063a3, 0x55aea3d0, 0xf0ef31ae, 0x841f55c7, 0x215ec7b9, 0xcb7007ca, 0x6e3195b4,
    0x2290cf18, 0x87d15d66, 0x6dff9d15, 0xc8be0f6b, 0xbc4e6b02, 0x190ff97c, 0xf321390f, 0x5660ab71,
    0x4c42f79a, 0xe90365e4, 0x32da597, 0xa66c37e9, 0xd29c5380, 0x77ddc1fe, 0x9df3018d, 0x38b293f3,
    0x7413c95f, 0xd1525b21, 0x3b7c9b52, 0x9e3d092c, 0xeacd6d45, 0x4f8cff3b, 0xa5a23f48, 0xe3ad36,
    0x3ce08a10, 0x99a1186e, 0x738fd81d, 0xd6ce4a63, 0xa23e2e0a, 0x77fbc74, 0xed517c07, 0x4810ee79,
    0x4b1b4d5, 0xa1f026ab, 0x4bdee6d8, 0xee9f74a6, 0x9a6f10cf, 0x3f2e82b1, 0xd50042c2, 0x7041d0bc,
    0xad060c8e, 0x8479ef0, 0xe2695e83, 0x4728ccfd, 0x33d8a894, 0x96993aea, 0x7cb7fa99, 0xd9f668e7,
    0x9557324b, 0x3016a035, 0xda386046, 0x7f79f238, 0xb899651, 0xaec8042f, 0x44e6c45c, 0xe1a75622,
    0xdda47104, 0x78e5e37a, 0x92cb2309, 0x378ab177, 0x437ad51e, 0xe63b4760, 0xc158713, 0xa954156d,
    0xe5f54fc1, 0x40b4ddbf, 0xaa9a1dcc, 0xfdb8fb2, 0x7b2bebdb, 0xde6a79a5, 0x3444b9d6, 0x91052ba8]"

definition sctp_crc_tableil8_o56 :: "u32 list" where
  "sctp_crc_tableil8_o56 =
   [0x0, 0xdd45aab8, 0xbf672381, 0x62228939, 0x7b2231f3, 0xa6679b4b, 0xc4451272, 0x1900b8ca,
    0xf64463e6, 0x2b01c95e, 0x49234067, 0x9466eadf, 0x8d665215, 0x5023f8ad, 0x32017194, 0xef44db2c,
    0xe964b13d, 0x34211b85, 0x560392bc, 0x8b463804, 0x924680ce, 0x4f032a76, 0x2d21a34f, 0xf06409f7,
    0x1f20d2db, 0xc2657863, 0xa047f15a, 0x7d025be2, 0x6402e328, 0xb9474990, 0xdb65c0a9, 0x6206a11,
    0xd725148b, 0xa60be33, 0x6842370a, 0xb5079db2, 0xac072578, 0x71428fc0, 0x136006f9, 0xce25ac41,
    0x2161776d, 0xfc24ddd5, 0x9e0654ec, 0x4343fe54, 0x5a43469e, 0x8706ec26, 0xe524651f, 0x3861cfa7,
    0x3e41a5b6, 0xe3040f0e, 0x81268637, 0x5c632c8f, 0x45639445, 0x98263efd, 0xfa04b7c4, 0x27411d7c,
    0xc805c650, 0x15406ce8, 0x7762e5d1, 0xaa274f69, 0xb327f7a3, 0x6e625d1b, 0xc40d422, 0xd1057e9a,
    0xaba65fe7, 0x76e3f55f, 0x14c17c66, 0xc984d6de, 0xd0846e14, 0xdc1c4ac, 0x6fe34d95, 0xb2a6e72d,
    0x5de23c01, 0x80a796b9, 0xe2851f80, 0x3fc0b538, 0x26c00df2, 0xfb85a74a, 0x99a72e73, 0x44e284cb,
    0x42c2eeda, 0x9f874462, 0xfda5cd5b, 0x20e067e3, 0x39e0df29, 0xe4a57591, 0x8687fca8, 0x5bc25610,
    0xb4868d3c, 0x69c32784, 0xbe1aebd, 0xd6a40405, 0xcfa4bccf, 0x12e11677, 0x70c39f4e, 0xad8635f6,
    0x7c834b6c, 0xa1c6e1d4, 0xc3e468ed, 0x1ea1c255, 0x7a17a9f, 0xdae4d027, 0xb8c6591e, 0x6583f3a6,
    0x8ac7288a, 0x57828232, 0x35a00b0b, 0xe8e5a1b3, 0xf1e51979, 0x2ca0b3c1, 0x4e823af8, 0x93c79040,
    0x95e7fa51, 0x48a250e9, 0x2a80d9d0, 0xf7c57368, 0xeec5cba2, 0x3380611a, 0x51a2e823, 0x8ce7429b,
    0x63a399b7, 0xbee6330f, 0xdcc4ba36, 0x181108e, 0x1881a844, 0xc5c402fc, 0xa7e68bc5, 0x7aa3217d,
    0x52a0c93f, 0x8fe56387, 0xedc7eabe, 0x30824006, 0x2982f8cc, 0xf4c75274, 0x96e5db4d, 0x4ba071f5,
    0xa4e4aad9, 0x79a10061, 0x1b838958, 0xc6c623e0, 0xdfc69b2a, 0x2833192, 0x60a1b8ab, 0xbde41213,
    0xbbc47802, 0x6681d2ba, 0x4a35b83, 0xd9e6f13b, 0xc0e649f1, 0x1da3e349, 0x7f816a70, 0xa2c4c0c8,
    0x4d801be4, 0x90c5b15c, 0xf2e73865, 0x2fa292dd, 0x36a22a17, 0xebe780af, 0x89c50996, 0x5480a32e,
    0x8585ddb4, 0x58c0770c, 0x3ae2fe35, 0xe7a7548d, 0xfea7ec47, 0x23e246ff, 0x41c0cfc6, 0x9c85657e,
    0x73c1be52, 0xae8414ea, 0xcca69dd3, 0x11e3376b, 0x8e38fa1, 0xd5a62519, 0xb784ac20, 0x6ac10698,
    0x6ce16c89, 0xb1a4c631, 0xd3864f08, 0xec3e5b0, 0x17c35d7a, 0xca86f7c2, 0xa8a47efb, 0x75e1d443,
    0x9aa50f6f, 0x47e0a5d7, 0x25c22cee, 0xf8878656, 0xe1873e9c, 0x3cc29424, 0x5ee01d1d, 0x83a5b7a5,
    0xf90696d8, 0x24433c60, 0x4661b559, 0x9b241fe1, 0x8224a72b, 0x5f610d93, 0x3d4384aa, 0xe0062e12,
    0xf42f53e, 0xd2075f86, 0xb025d6bf, 0x6d607c07, 0x7460c4cd, 0xa9256e75, 0xcb07e74c, 0x16424df4,
    0x106227e5, 0xcd278d5d, 0xaf050464, 0x7240aedc, 0x6b401616, 0xb605bcae, 0xd4273597, 0x9629f2f,
    0xe6264403, 0x3b63eebb, 0x59416782, 0x8404cd3a, 0x9d0475f0, 0x4041df48, 0x22635671, 0xff26fcc9,
    0x2e238253, 0xf36628eb, 0x9144a1d2, 0x4c010b6a, 0x5501b3a0, 0x88441918, 0xea669021, 0x37233a99,
    0xd867e1b5, 0x5224b0d, 0x6700c234, 0xba45688c, 0xa345d046, 0x7e007afe, 0x1c22f3c7, 0xc167597f,
    0xc747336e, 0x1a0299d6, 0x782010ef, 0xa565ba57, 0xbc65029d, 0x6120a825, 0x302211c, 0xde478ba4,
    0x31035088, 0xec46fa30, 0x8e647309, 0x5321d9b1, 0x4a21617b, 0x9764cbc3, 0xf54642fa, 0x2803e842]"

definition sctp_crc_tableil8_o64 :: "u32 list" where
  "sctp_crc_tableil8_o64 =
   [0x0, 0x38116fac, 0x7022df58, 0x4833b0f4, 0xe045beb0, 0xd854d11c, 0x906761e8, 0xa8760e44,
    0xc5670b91, 0xfd76643d, 0xb545d4c9, 0x8d54bb65, 0x2522b521, 0x1d33da8d, 0x55006a79, 0x6d1105d5,
    0x8f2261d3, 0xb7330e7f, 0xff00be8b, 0xc711d127, 0x6f67df63, 0x5776b0cf, 0x1f45003b, 0x27546f97,
    0x4a456a42, 0x725405ee, 0x3a67b51a, 0x276dab6, 0xaa00d4f2, 0x9211bb5e, 0xda220baa, 0xe2336406,
    0x1ba8b557, 0x23b9dafb, 0x6b8a6a0f, 0x539b05a3, 0xfbed0be7, 0xc3fc644b, 0x8bcfd4bf, 0xb3debb13,
    0xdecfbec6, 0xe6ded16a, 0xaeed619e, 0x96fc0e32, 0x3e8a0076, 0x69b6fda, 0x4ea8df2e, 0x76b9b082,
    0x948ad484, 0xac9bbb28, 0xe4a80bdc, 0xdcb96470, 0x74cf6a34, 0x4cde0598, 0x4edb56c, 0x3cfcdac0,
    0x51eddf15, 0x69fcb0b9, 0x21cf004d, 0x19de6fe1, 0xb1a861a5, 0x89b90e09, 0xc18abefd, 0xf99bd151,
    0x37516aae, 0xf400502, 0x4773b5f6, 0x7f62da5a, 0xd714d41e, 0xef05bbb2, 0xa7360b46, 0x9f2764ea,
    0xf236613f, 0xca270e93, 0x8214be67, 0xba05d1cb, 0x1273df8f, 0x2a62b023, 0x625100d7, 0x5a406f7b,
    0xb8730b7d, 0x806264d1, 0xc851d425, 0xf040bb89, 0x5836b5cd, 0x6027da61, 0x28146a95, 0x10050539,
    0x7d1400ec, 0x45056f40, 0xd36dfb4, 0x3527b018, 0x9d51be5c, 0xa540d1f0, 0xed736104, 0xd5620ea8,
    0x2cf9dff9, 0x14e8b055, 0x5cdb00a1, 0x64ca6f0d, 0xccbc6149, 0xf4ad0ee5, 0xbc9ebe11, 0x848fd1bd,
    0xe99ed468, 0xd18fbbc4, 0x99bc0b30, 0xa1ad649c, 0x9db6ad8, 0x31ca0574, 0x79f9b580, 0x41e8da2c,
    0xa3dbbe2a, 0x9bcad186, 0xd3f96172, 0xebe80ede, 0x439e009a, 0x7b8f6f36, 0x33bcdfc2, 0xbadb06e,
    0x66bcb5bb, 0x5eadda17, 0x169e6ae3, 0x2e8f054f, 0x86f90b0b, 0xbee864a7, 0xf6dbd453, 0xcecabbff,
    0x6ea2d55c, 0x56b3baf0, 0x1e800a04, 0x269165a8, 0x8ee76bec, 0xb6f60440, 0xfec5b4b4, 0xc6d4db18,
    0xabc5decd, 0x93d4b161, 0xdbe70195, 0xe3f66e39, 0x4b80607d, 0x73910fd1, 0x3ba2bf25, 0x3b3d089,
    0xe180b48f, 0xd991db23, 0x91a26bd7, 0xa9b3047b, 0x1c50a3f, 0x39d46593, 0x71e7d567, 0x49f6bacb,
    0x24e7bf1e, 0x1cf6d0b2, 0x54c56046, 0x6cd40fea, 0xc4a201ae, 0xfcb36e02, 0xb480def6, 0x8c91b15a,
    0x750a600b, 0x4d1b0fa7, 0x528bf53, 0x3d39d0ff, 0x954fdebb, 0xad5eb117, 0xe56d01e3, 0xdd7c6e4f,
    0xb06d6b9a, 0x887c0436, 0xc04fb4c2, 0xf85edb6e, 0x5028d52a, 0x6839ba86, 0x200a0a72, 0x181b65de,
    0xfa2801d8, 0xc2396e74, 0x8a0ade80, 0xb21bb12c, 0x1a6dbf68, 0x227cd0c4, 0x6a4f6030, 0x525e0f9c,
    0x3f4f0a49, 0x75e65e5, 0x4f6dd511, 0x777cbabd, 0xdf0ab4f9, 0xe71bdb55, 0xaf286ba1, 0x9739040d,
    0x59f3bff2, 0x61e2d05e, 0x29d160aa, 0x11c00f06, 0xb9b60142, 0x81a76eee, 0xc994de1a, 0xf185b1b6,
    0x9c94b463, 0xa485dbcf, 0xecb66b3b, 0xd4a70497, 0x7cd10ad3, 0x44c0657f, 0xcf3d58b, 0x34e2ba27,
    0xd6d1de21, 0xeec0b18d, 0xa6f30179, 0x9ee26ed5, 0x36946091, 0xe850f3d, 0x46b6bfc9, 0x7ea7d065,
    0x13b6d5b0, 0x2ba7ba1c, 0x63940ae8, 0x5b856544, 0xf3f36b00, 0xcbe204ac, 0x83d1b458, 0xbbc0dbf4,
    0x425b0aa5, 0x7a4a6509, 0x3279d5fd, 0xa68ba51, 0xa21eb415, 0x9a0fdbb9, 0xd23c6b4d, 0xea2d04e1,
    0x873c0134, 0xbf2d6e98, 0xf71ede6c, 0xcf0fb1c0, 0x6779bf84, 0x5f68d028, 0x175b60dc, 0x2f4a0f70,
    0xcd796b76, 0xf56804da, 0xbd5bb42e, 0x854adb82, 0x2d3cd5c6, 0x152dba6a, 0x5d1e0a9e, 0x650f6532,
    0x81e60e7, 0x300f0f4b, 0x783cbfbf, 0x402dd013, 0xe85bde57, 0xd04ab1fb, 0x9879010f, 0xa0686ea3]"

definition sctp_crc_tableil8_o72 :: "u32 list" where
  "sctp_crc_tableil8_o72 =
   [0x0, 0xef306b19, 0xdb8ca0c3, 0x34bccbda, 0xb2f53777, 0x5dc55c6e, 0x697997b4, 0x8649fcad,
    0x6006181f, 0x8f367306, 0xbb8ab8dc, 0x54bad3c5, 0xd2f32f68, 0x3dc34471, 0x97f8fab, 0xe64fe4b2,
    0xc00c303e, 0x2f3c5b27, 0x1b8090fd, 0xf4b0fbe4, 0x72f90749, 0x9dc96c50, 0xa975a78a, 0x4645cc93,
    0xa00a2821, 0x4f3a4338, 0x7b8688e2, 0x94b6e3fb, 0x12ff1f56, 0xfdcf744f, 0xc973bf95, 0x2643d48c,
    0x85f4168d, 0x6ac47d94, 0x5e78b64e, 0xb148dd57, 0x370121fa, 0xd8314ae3, 0xec8d8139, 0x3bdea20,
    0xe5f20e92, 0xac2658b, 0x3e7eae51, 0xd14ec548, 0x570739e5, 0xb83752fc, 0x8c8b9926, 0x63bbf23f,
    0x45f826b3, 0xaac84daa, 0x9e748670, 0x7144ed69, 0xf70d11c4, 0x183d7add, 0x2c81b107, 0xc3b1da1e,
    0x25fe3eac, 0xcace55b5, 0xfe729e6f, 0x1142f576, 0x970b09db, 0x783b62c2, 0x4c87a918, 0xa3b7c201,
    0xe045beb, 0xe13430f2, 0xd588fb28, 0x3ab89031, 0xbcf16c9c, 0x53c10785, 0x677dcc5f, 0x884da746,
    0x6e0243f4, 0x813228ed, 0xb58ee337, 0x5abe882e, 0xdcf77483, 0x33c71f9a, 0x77bd440, 0xe84bbf59,
    0xce086bd5, 0x213800cc, 0x1584cb16, 0xfab4a00f, 0x7cfd5ca2, 0x93cd37bb, 0xa771fc61, 0x48419778,
    0xae0e73ca, 0x413e18d3, 0x7582d309, 0x9ab2b810, 0x1cfb44bd, 0xf3cb2fa4, 0xc777e47e, 0x28478f67,
    0x8bf04d66, 0x64c0267f, 0x507ceda5, 0xbf4c86bc, 0x39057a11, 0xd6351108, 0xe289dad2, 0xdb9b1cb,
    0xebf65579, 0x4c63e60, 0x307af5ba, 0xdf4a9ea3, 0x5903620e, 0xb6330917, 0x828fc2cd, 0x6dbfa9d4,
    0x4bfc7d58, 0xa4cc1641, 0x9070dd9b, 0x7f40b682, 0xf9094a2f, 0x16392136, 0x2285eaec, 0xcdb581f5,
    0x2bfa6547, 0xc4ca0e5e, 0xf076c584, 0x1f46ae9d, 0x990f5230, 0x763f3929, 0x4283f2f3, 0xadb399ea,
    0x1c08b7d6, 0xf338dccf, 0xc7841715, 0x28b47c0c, 0xaefd80a1, 0x41cdebb8, 0x75712062, 0x9a414b7b,
    0x7c0eafc9, 0x933ec4d0, 0xa7820f0a, 0x48b26413, 0xcefb98be, 0x21cbf3a7, 0x1577387d, 0xfa475364,
    0xdc0487e8, 0x3334ecf1, 0x788272b, 0xe8b84c32, 0x6ef1b09f, 0x81c1db86, 0xb57d105c, 0x5a4d7b45,
    0xbc029ff7, 0x5332f4ee, 0x678e3f34, 0x88be542d, 0xef7a880, 0xe1c7c399, 0xd57b0843, 0x3a4b635a,
    0x99fca15b, 0x76ccca42, 0x42700198, 0xad406a81, 0x2b09962c, 0xc439fd35, 0xf08536ef, 0x1fb55df6,
    0xf9fab944, 0x16cad25d, 0x22761987, 0xcd46729e, 0x4b0f8e33, 0xa43fe52a, 0x90832ef0, 0x7fb345e9,
    0x59f09165, 0xb6c0fa7c, 0x827c31a6, 0x6d4c5abf, 0xeb05a612, 0x435cd0b, 0x308906d1, 0xdfb96dc8,
    0x39f6897a, 0xd6c6e263, 0xe27a29b9, 0xd4a42a0, 0x8b03be0d, 0x6433d514, 0x508f1ece, 0xbfbf75d7,
    0x120cec3d, 0xfd3c8724, 0xc9804cfe, 0x26b027e7, 0xa0f9db4a, 0x4fc9b053, 0x7b757b89, 0x94451090,
    0x720af422, 0x9d3a9f3b, 0xa98654e1, 0x46b63ff8, 0xc0ffc355, 0x2fcfa84c, 0x1b736396, 0xf443088f,
    0xd200dc03, 0x3d30b71a, 0x98c7cc0, 0xe6bc17d9, 0x60f5eb74, 0x8fc5806d, 0xbb794bb7, 0x544920ae,
    0xb206c41c, 0x5d36af05, 0x698a64df, 0x86ba0fc6, 0xf3f36b, 0xefc39872, 0xdb7f53a8, 0x344f38b1,
    0x97f8fab0, 0x78c891a9, 0x4c745a73, 0xa344316a, 0x250dcdc7, 0xca3da6de, 0xfe816d04, 0x11b1061d,
    0xf7fee2af, 0x18ce89b6, 0x2c72426c, 0xc3422975, 0x450bd5d8, 0xaa3bbec1, 0x9e87751b, 0x71b71e02,
    0x57f4ca8e, 0xb8c4a197, 0x8c786a4d, 0x63480154, 0xe501fdf9, 0xa3196e0, 0x3e8d5d3a, 0xd1bd3623,
    0x37f2d291, 0xd8c2b988, 0xec7e7252, 0x34e194b, 0x8507e5e6, 0x6a378eff, 0x5e8b4525, 0xb1bb2e3c]"

definition sctp_crc_tableil8_o80 :: "u32 list" where
  "sctp_crc_tableil8_o80 =
   [0x0, 0x68032cc8, 0xd0065990, 0xb8057558, 0xa5e0c5d1, 0xcde3e919, 0x75e69c41, 0x1de5b089,
    0x4e2dfd53, 0x262ed19b, 0x9e2ba4c3, 0xf628880b, 0xebcd3882, 0x83ce144a, 0x3bcb6112, 0x53c84dda,
    0x9c5bfaa6, 0xf458d66e, 0x4c5da336, 0x245e8ffe, 0x39bb3f77, 0x51b813bf, 0xe9bd66e7, 0x81be4a2f,
    0xd27607f5, 0xba752b3d, 0x2705e65, 0x6a7372ad, 0x7796c224, 0x1f95eeec, 0xa7909bb4, 0xcf93b77c,
    0x3d5b83bd, 0x5558af75, 0xed5dda2d, 0x855ef6e5, 0x98bb466c, 0xf0b86aa4, 0x48bd1ffc, 0x20be3334,
    0x73767eee, 0x1b755226, 0xa370277e, 0xcb730bb6, 0xd696bb3f, 0xbe9597f7, 0x690e2af, 0x6e93ce67,
    0xa100791b, 0xc90355d3, 0x7106208b, 0x19050c43, 0x4e0bcca, 0x6ce39002, 0xd4e6e55a, 0xbce5c992,
    0xef2d8448, 0x872ea880, 0x3f2bddd8, 0x5728f110, 0x4acd4199, 0x22ce6d51, 0x9acb1809, 0xf2c834c1,
    0x7ab7077a, 0x12b42bb2, 0xaab15eea, 0xc2b27222, 0xdf57c2ab, 0xb754ee63, 0xf519b3b, 0x6752b7f3,
    0x349afa29, 0x5c99d6e1, 0xe49ca3b9, 0x8c9f8f71, 0x917a3ff8, 0xf9791330, 0x417c6668, 0x297f4aa0,
    0xe6ecfddc, 0x8eefd114, 0x36eaa44c, 0x5ee98884, 0x430c380d, 0x2b0f14c5, 0x930a619d, 0xfb094d55,
    0xa8c1008f, 0xc0c22c47, 0x78c7591f, 0x10c475d7, 0xd21c55e, 0x6522e996, 0xdd279cce, 0xb524b006,
    0x47ec84c7, 0x2fefa80f, 0x97eadd57, 0xffe9f19f, 0xe20c4116, 0x8a0f6dde, 0x320a1886, 0x5a09344e,
    0x9c17994, 0x61c2555c, 0xd9c72004, 0xb1c40ccc, 0xac21bc45, 0xc422908d, 0x7c27e5d5, 0x1424c91d,
    0xdbb77e61, 0xb3b452a9, 0xbb127f1, 0x63b20b39, 0x7e57bbb0, 0x16549778, 0xae51e220, 0xc652cee8,
    0x959a8332, 0xfd99affa, 0x459cdaa2, 0x2d9ff66a, 0x307a46e3, 0x58796a2b, 0xe07c1f73, 0x887f33bb,
    0xf56e0ef4, 0x9d6d223c, 0x25685764, 0x4d6b7bac, 0x508ecb25, 0x388de7ed, 0x808892b5, 0xe88bbe7d,
    0xbb43f3a7, 0xd340df6f, 0x6b45aa37, 0x34686ff, 0x1ea33676, 0x76a01abe, 0xcea56fe6, 0xa6a6432e,
    0x6935f452, 0x136d89a, 0xb933adc2, 0xd130810a, 0xccd53183, 0xa4d61d4b, 0x1cd36813, 0x74d044db,
    0x27180901, 0x4f1b25c9, 0xf71e5091, 0x9f1d7c59, 0x82f8ccd0, 0xeafbe018, 0x52fe9540, 0x3afdb988,
    0xc8358d49, 0xa036a181, 0x1833d4d9, 0x7030f811, 0x6dd54898, 0x5d66450, 0xbdd31108, 0xd5d03dc0,
    0x8618701a, 0xee1b5cd2, 0x561e298a, 0x3e1d0542, 0x23f8b5cb, 0x4bfb9903, 0xf3feec5b, 0x9bfdc093,
    0x546e77ef, 0x3c6d5b27, 0x84682e7f, 0xec6b02b7, 0xf18eb23e, 0x998d9ef6, 0x2188ebae, 0x498bc766,
    0x1a438abc, 0x7240a674, 0xca45d32c, 0xa246ffe4, 0xbfa34f6d, 0xd7a063a5, 0x6fa516fd, 0x7a63a35,
    0x8fd9098e, 0xe7da2546, 0x5fdf501e, 0x37dc7cd6, 0x2a39cc5f, 0x423ae097, 0xfa3f95cf, 0x923cb907,
    0xc1f4f4dd, 0xa9f7d815, 0x11f2ad4d, 0x79f18185, 0x6414310c, 0xc171dc4, 0xb412689c, 0xdc114454,
    0x1382f328, 0x7b81dfe0, 0xc384aab8, 0xab878670, 0xb66236f9, 0xde611a31, 0x66646f69, 0xe6743a1,
    0x5daf0e7b, 0x35ac22b3, 0x8da957eb, 0xe5aa7b23, 0xf84fcbaa, 0x904ce762, 0x2849923a, 0x404abef2,
    0xb2828a33, 0xda81a6fb, 0x6284d3a3, 0xa87ff6b, 0x17624fe2, 0x7f61632a, 0xc7641672, 0xaf673aba,
    0xfcaf7760, 0x94ac5ba8, 0x2ca92ef0, 0x44aa0238, 0x594fb2b1, 0x314c9e79, 0x8949eb21, 0xe14ac7e9,
    0x2ed97095, 0x46da5c5d, 0xfedf2905, 0x96dc05cd, 0x8b39b544, 0xe33a998c, 0x5b3fecd4, 0x333cc01c,
    0x60f48dc6, 0x8f7a10e, 0xb0f2d456, 0xd8f1f89e, 0xc5144817, 0xad1764df, 0x15121187, 0x7d113d4f]"

definition sctp_crc_tableil8_o88 :: "u32 list" where
  "sctp_crc_tableil8_o88 =
   [0x0, 0x493c7d27, 0x9278fa4e, 0xdb448769, 0x211d826d, 0x6821ff4a, 0xb3657823, 0xfa590504,
    0x423b04da, 0xb0779fd, 0xd043fe94, 0x997f83b3, 0x632686b7, 0x2a1afb90, 0xf15e7cf9, 0xb86201de,
    0x847609b4, 0xcd4a7493, 0x160ef3fa, 0x5f328edd, 0xa56b8bd9, 0xec57f6fe, 0x37137197, 0x7e2f0cb0,
    0xc64d0d6e, 0x8f717049, 0x5435f720, 0x1d098a07, 0xe7508f03, 0xae6cf224, 0x7528754d, 0x3c14086a,
    0xd006599, 0x443c18be, 0x9f789fd7, 0xd644e2f0, 0x2c1de7f4, 0x65219ad3, 0xbe651dba, 0xf759609d,
    0x4f3b6143, 0x6071c64, 0xdd439b0d, 0x947fe62a, 0x6e26e32e, 0x271a9e09, 0xfc5e1960, 0xb5626447,
    0x89766c2d, 0xc04a110a, 0x1b0e9663, 0x5232eb44, 0xa86bee40, 0xe1579367, 0x3a13140e, 0x732f6929,
    0xcb4d68f7, 0x827115d0, 0x593592b9, 0x1009ef9e, 0xea50ea9a, 0xa36c97bd, 0x782810d4, 0x31146df3,
    0x1a00cb32, 0x533cb615, 0x8878317c, 0xc1444c5b, 0x3b1d495f, 0x72213478, 0xa965b311, 0xe059ce36,
    0x583bcfe8, 0x1107b2cf, 0xca4335a6, 0x837f4881, 0x79264d85, 0x301a30a2, 0xeb5eb7cb, 0xa262caec,
    0x9e76c286, 0xd74abfa1, 0xc0e38c8, 0x453245ef, 0xbf6b40eb, 0xf6573dcc, 0x2d13baa5, 0x642fc782,
    0xdc4dc65c, 0x9571bb7b, 0x4e353c12, 0x7094135, 0xfd504431, 0xb46c3916, 0x6f28be7f, 0x2614c358,
    0x1700aeab, 0x5e3cd38c, 0x857854e5, 0xcc4429c2, 0x361d2cc6, 0x7f2151e1, 0xa465d688, 0xed59abaf,
    0x553baa71, 0x1c07d756, 0xc743503f, 0x8e7f2d18, 0x7426281c, 0x3d1a553b, 0xe65ed252, 0xaf62af75,
    0x9376a71f, 0xda4ada38, 0x10e5d51, 0x48322076, 0xb26b2572, 0xfb575855, 0x2013df3c, 0x692fa21b,
    0xd14da3c5, 0x9871dee2, 0x4335598b, 0xa0924ac, 0xf05021a8, 0xb96c5c8f, 0x6228dbe6, 0x2b14a6c1,
    0x34019664, 0x7d3deb43, 0xa6796c2a, 0xef45110d, 0x151c1409, 0x5c20692e, 0x8764ee47, 0xce589360,
    0x763a92be, 0x3f06ef99, 0xe44268f0, 0xad7e15d7, 0x572710d3, 0x1e1b6df4, 0xc55fea9d, 0x8c6397ba,
    0xb0779fd0, 0xf94be2f7, 0x220f659e, 0x6b3318b9, 0x916a1dbd, 0xd856609a, 0x312e7f3, 0x4a2e9ad4,
    0xf24c9b0a, 0xbb70e62d, 0x60346144, 0x29081c63, 0xd3511967, 0x9a6d6440, 0x4129e329, 0x8159e0e,
    0x3901f3fd, 0x703d8eda, 0xab7909b3, 0xe2457494, 0x181c7190, 0x51200cb7, 0x8a648bde, 0xc358f6f9,
    0x7b3af727, 0x32068a00, 0xe9420d69, 0xa07e704e, 0x5a27754a, 0x131b086d, 0xc85f8f04, 0x8163f223,
    0xbd77fa49, 0xf44b876e, 0x2f0f0007, 0x66337d20, 0x9c6a7824, 0xd5560503, 0xe12826a, 0x472eff4d,
    0xff4cfe93, 0xb67083b4, 0x6d3404dd, 0x240879fa, 0xde517cfe, 0x976d01d9, 0x4c2986b0, 0x515fb97,
    0x2e015d56, 0x673d2071, 0xbc79a718, 0xf545da3f, 0xf1cdf3b, 0x4620a21c, 0x9d642575, 0xd4585852,
    0x6c3a598c, 0x250624ab, 0xfe42a3c2, 0xb77edee5, 0x4d27dbe1, 0x41ba6c6, 0xdf5f21af, 0x96635c88,
    0xaa7754e2, 0xe34b29c5, 0x380faeac, 0x7133d38b, 0x8b6ad68f, 0xc256aba8, 0x19122cc1, 0x502e51e6,
    0xe84c5038, 0xa1702d1f, 0x7a34aa76, 0x3308d751, 0xc951d255, 0x806daf72, 0x5b29281b, 0x1215553c,
    0x230138cf, 0x6a3d45e8, 0xb179c281, 0xf845bfa6, 0x21cbaa2, 0x4b20c785, 0x906440ec, 0xd9583dcb,
    0x613a3c15, 0x28064132, 0xf342c65b, 0xba7ebb7c, 0x4027be78, 0x91bc35f, 0xd25f4436, 0x9b633911,
    0xa777317b, 0xee4b4c5c, 0x350fcb35, 0x7c33b612, 0x866ab316, 0xcf56ce31, 0x14124958, 0x5d2e347f,
    0xe54c35a1, 0xac704886, 0x7734cfef, 0x3e08b2c8, 0xc451b7cc, 0x8d6dcaeb, 0x56294d82, 0x1f1530a5]"

section \<open>The routines\<close>

text \<open>\<open>crc = table[(crc ^ *p_buf++) & 0xff] ^ (crc >> 8)\<close>, and a loop over \<open>n\<close> bytes.\<close>

definition table_step :: "u32 list \<Rightarrow> u32 \<Rightarrow> u8 \<Rightarrow> u32" where
  "table_step tab crc b = tab ! unat ((crc XOR ucast b) AND 0xff) XOR drop_bit 8 crc"

fun byte_loop :: "(u32 \<Rightarrow> u8 \<Rightarrow> u32) \<Rightarrow> nat \<Rightarrow> u32 \<Rightarrow> u8 list \<Rightarrow> (u32 \<times> u8 list) option" where
  "byte_loop step 0 crc p = Some (crc, p)"
| "byte_loop step (Suc n) crc [] = None"
| "byte_loop step (Suc n) crc (b # p) = byte_loop step n (step crc b) p"

definition singletable_crc32c :: "u32 \<Rightarrow> u8 list \<Rightarrow> nat \<Rightarrow> u32 option" where
  "singletable_crc32c crc buf sz = map_option fst (byte_loop (table_step crc32Table) sz crc buf)"

definition load32 :: "u8 list \<Rightarrow> u32 option" where
  "load32 p = (case p of
     b0 # b1 # b2 # b3 # _ \<Rightarrow> Some (ucast b0 OR push_bit 8 (ucast b1) OR push_bit 16 (ucast b2) OR push_bit 24 (ucast b3))
   | _ \<Rightarrow> None)"

fun eight_loop :: "nat \<Rightarrow> u32 \<Rightarrow> u8 list \<Rightarrow> (u32 \<times> u8 list) option" where
  "eight_loop 0 crc p = Some (crc, p)"
| "eight_loop (Suc n) crc p = do {
     a \<leftarrow> load32 p;
     let crc = crc XOR a;
     let p = drop 4 p;
     let term1 = sctp_crc_tableil8_o88 ! unat (crc AND 0xff) XOR sctp_crc_tableil8_o80 ! unat (drop_bit 8 crc AND 0xff);
     let term2 = drop_bit 16 crc;
     let crc = term1 XOR sctp_crc_tableil8_o72 ! unat (term2 AND 0xff) XOR sctp_crc_tableil8_o64 ! unat (drop_bit 8 term2 AND 0xff);
     b \<leftarrow> load32 p;
     let term1 = sctp_crc_tableil8_o56 ! unat (b AND 0xff) XOR sctp_crc_tableil8_o48 ! unat (drop_bit 8 b AND 0xff);
     let term2 = drop_bit 16 b;
     let crc = crc XOR term1 XOR sctp_crc_tableil8_o40 ! unat (term2 AND 0xff) XOR sctp_crc_tableil8_o32 ! unat (drop_bit 8 term2 AND 0xff);
     eight_loop n crc (drop 4 p)
   }"

text \<open>The lengths are of type \<open>uint32_t\<close>.\<close>

definition sub32 :: "nat \<Rightarrow> nat \<Rightarrow> nat" where
  "sub32 a b = (a + 2 ^ 32 - b) mod 2 ^ 32"

definition crc32c_sb8_64_bit :: "u32 \<Rightarrow> u8 list \<Rightarrow> nat \<Rightarrow> nat \<Rightarrow> u32 option" where
  "crc32c_sb8_64_bit crc p len init_bytes = do {
     let running_length = sub32 len init_bytes div 8 * 8;
     let end_bytes = sub32 (sub32 len init_bytes) running_length;
     (crc, p) \<leftarrow> byte_loop (table_step sctp_crc_tableil8_o32) init_bytes crc p;
     (crc, p) \<leftarrow> eight_loop (running_length div 8) crc p;
     (crc, p) \<leftarrow> byte_loop (table_step sctp_crc_tableil8_o32) end_bytes crc p;
     Some crc
   }"

definition multitable_crc32c :: "nat \<Rightarrow> u32 \<Rightarrow> u8 list \<Rightarrow> nat \<Rightarrow> u32 option" where
  "multitable_crc32c addr crc buffer len =
     (if len = 0 then Some crc else crc32c_sb8_64_bit crc buffer len (4 - addr mod 4))"

definition crc32c_sw :: "nat \<Rightarrow> u8 list \<Rightarrow> nat \<Rightarrow> u32 \<Rightarrow> u32 option" where
  "crc32c_sw addr buffer nbytes crc =
     (if nbytes < 4 then singletable_crc32c crc buffer nbytes else multitable_crc32c addr crc buffer (nbytes mod 2 ^ 32))"

text \<open>The instructions of the processor for one and for eight bytes.\<close>

record intrinsics =
  crc32qi :: "u32 \<Rightarrow> u8 \<Rightarrow> u32"
  crc32di :: "u64 \<Rightarrow> u64 \<Rightarrow> u64"

definition load64 :: "u8 list \<Rightarrow> u64 option" where
  "load64 p = do { a \<leftarrow> load32 p; b \<leftarrow> load32 (drop 4 p); Some (ucast a OR push_bit 32 (ucast b)) }"

fun word_loop :: "intrinsics \<Rightarrow> nat \<Rightarrow> u32 \<Rightarrow> u8 list \<Rightarrow> (u32 \<times> u8 list) option" where
  "word_loop H 0 crc p = Some (crc, p)"
| "word_loop H (Suc n) crc p = do { w \<leftarrow> load64 p; word_loop H n (ucast (crc32di H (ucast crc) w)) (drop 8 p) }"

definition crc32c_hw :: "intrinsics \<Rightarrow> nat \<Rightarrow> u8 list \<Rightarrow> nat \<Rightarrow> u32 \<Rightarrow> u32 option" where
  "crc32c_hw H addr data nbytes crc = do {
     let mask = addr mod 8;
     let limit = (if mask \<noteq> 0 then min nbytes (8 - mask) else 0);
     (crc, p) \<leftarrow> byte_loop (crc32qi H) limit crc data;
     (crc, p) \<leftarrow> word_loop H ((nbytes - limit) div 8) crc p;
     (crc, p) \<leftarrow> byte_loop (crc32qi H) ((nbytes - limit) mod 8) crc p;
     Some crc
   }"

text \<open>\<open>crc_init\<close> chooses the routine when the program starts (in a build without DSA and ISA-L).\<close>

definition crc32c_func :: "bool \<Rightarrow> intrinsics \<Rightarrow> nat \<Rightarrow> u8 list \<Rightarrow> nat \<Rightarrow> u32 \<Rightarrow> u32 option" where
  "crc32c_func sse42 H = (if sse42 then crc32c_hw H else crc32c_sw)"

section \<open>The division\<close>

text \<open>One bit, with the reflected polynomial 0x1EDC6F41; one byte; a list of bytes.\<close>

definition crc_bit :: "u32 \<Rightarrow> u32" where
  "crc_bit c = (if bit c 0 then drop_bit 1 c XOR 0x82f63b78 else drop_bit 1 c)"

abbreviation shifted :: "nat \<Rightarrow> u32 \<Rightarrow> u32" where
  "shifted n \<equiv> crc_bit ^^ n"

definition crc_byte :: "u32 \<Rightarrow> u8 \<Rightarrow> u32" where
  "crc_byte c b = shifted 8 (c XOR ucast b)"

definition crc_of :: "u32 \<Rightarrow> u8 list \<Rightarrow> u32" where
  "crc_of c bs = foldl crc_byte c bs"

lemma crc_bit_xor: "crc_bit (a XOR b) = crc_bit a XOR crc_bit b"
  by (auto simp: crc_bit_def bit_xor_iff drop_bit_xor ac_simps)

lemma shifted_xor: "shifted n (a XOR b) = shifted n a XOR shifted n b"
  by (induction n) (simp_all add: crc_bit_xor)

lemma shifted_0 [simp]: "shifted n 0 = 0"
  by (induction n) (simp_all add: crc_bit_def)

lemma shifted_add: "shifted (m + n) c = shifted m (shifted n c)"
  by (simp add: funpow_add)

lemma shifted_zeros: "take_bit n c = 0 \<Longrightarrow> shifted n c = drop_bit n c"
proof (induction n arbitrary: c)
  case (Suc n)
  have "\<not> bit c 0" using Suc.prems by (metis bit_take_bit_iff bit_0_eq zero_less_Suc bot_apply bot_bool_def)
  then have "crc_bit c = drop_bit 1 c" by (simp add: crc_bit_def)
  moreover have "take_bit n (drop_bit 1 c) = 0" using Suc.prems by (simp add: take_bit_drop_bit)
  ultimately show ?case using Suc.IH [of "drop_bit 1 c"] by (simp add: funpow_swap1 drop_bit_drop_bit add.commute)
qed simp

text \<open>A byte as a word of 32 bits.\<close>

lemma shifted_push: "n \<le> 24 \<Longrightarrow> take_bit 8 x = x \<Longrightarrow> shifted n (push_bit n x) = (x :: u32)"
proof -
  assume n: "n \<le> 24" and t: "take_bit 8 x = x"
  have "drop_bit n (push_bit n x) = x"
  proof (rule bit_word_eqI)
    fix k assume "k < LENGTH(32)"
    have "bit x k \<Longrightarrow> k < 8" using t by (metis bit_take_bit_iff)
    then show "bit (drop_bit n (push_bit n x)) k = bit x k" using n by (auto simp: bit_simps)
  qed
  moreover have "take_bit n (push_bit n x) = 0" by (rule bit_word_eqI) (auto simp: bit_simps)
  ultimately show ?thesis using shifted_zeros by simp
qed

lemma shifted_high: "m \<le> 24 \<Longrightarrow> take_bit 8 x = x \<Longrightarrow> m \<le> n \<Longrightarrow> shifted n (push_bit m x) = shifted (n - m) (x :: u32)"
  using shifted_add [of "n - m" m "push_bit m x"] by (simp add: shifted_push)

lemma byte_word [simp]: "take_bit 8 (ucast b :: u32) = ucast (b :: u8)" "take_bit 8 (x AND 0xff) = (x AND 0xff :: u32)"
proof -
  show "take_bit 8 (ucast b :: u32) = ucast b" by (rule bit_word_eqI) (auto simp: bit_simps dest: bit_imp_le_length)
  have "x AND 0xff = take_bit 8 x" by (simp add: take_bit_eq_mask mask_eq_exp_minus_1)
  then show "take_bit 8 (x AND 0xff) = (x AND 0xff)" by simp
qed

lemma and_ff: "x AND 0xff = take_bit 8 (x :: u32)"
  by (simp add: take_bit_eq_mask mask_eq_exp_minus_1)

lemma word_bytes: "(x :: u32) = (x AND 0xff) XOR push_bit 8 (drop_bit 8 x AND 0xff) XOR push_bit 16 (drop_bit 16 x AND 0xff) XOR push_bit 24 (drop_bit 8 (drop_bit 16 x) AND 0xff)"
  unfolding and_ff by (rule bit_word_eqI) (auto simp: bit_simps)

lemma shifted_bytes:
  assumes "32 \<le> n"
  shows "shifted n x = shifted n (x AND 0xff) XOR shifted (n - 8) (drop_bit 8 x AND 0xff) XOR shifted (n - 16) (drop_bit 16 x AND 0xff) XOR
    shifted (n - 24) (drop_bit 8 (drop_bit 16 x) AND 0xff)"
proof -
  have "shifted n x = shifted n ((x AND 0xff) XOR push_bit 8 (drop_bit 8 x AND 0xff) XOR push_bit 16 (drop_bit 16 x AND 0xff) XOR push_bit 24 (drop_bit 8 (drop_bit 16 x) AND 0xff))"
    using word_bytes [of x] by metis
  moreover have "shifted n (push_bit m (y AND 0xff)) = shifted (n - m) (y AND 0xff)" if "m \<le> 24" for m and y :: u32
  proof -
    have "m \<le> n" using that assms by linarith
    then show ?thesis by (rule shifted_high [OF that byte_word(2)])
  qed
  ultimately show ?thesis by (simp only: shifted_xor)
qed

lemma shifted_8: "shifted 8 x = shifted 8 (x AND 0xff) XOR drop_bit 8 x"
proof -
  have x: "x = (x AND 0xff) XOR push_bit 8 (drop_bit 8 x)" unfolding and_ff by (rule bit_word_eqI) (auto simp: bit_simps)
  have "take_bit 8 (push_bit 8 (drop_bit 8 x)) = 0" by (rule bit_word_eqI) (auto simp: bit_simps)
  from shifted_zeros [OF this] have "shifted 8 (push_bit 8 (drop_bit 8 x)) = drop_bit 8 (push_bit 8 (drop_bit 8 x))" .
  also have "\<dots> = drop_bit 8 x" by (rule bit_word_eqI) (auto simp: bit_simps dest: bit_imp_le_length)
  finally have h: "shifted 8 (push_bit 8 (drop_bit 8 x)) = drop_bit 8 x" .
  have "shifted 8 x = shifted 8 ((x AND 0xff) XOR push_bit 8 (drop_bit 8 x))" using x by metis
  then show ?thesis by (simp only: shifted_xor h)
qed

section \<open>The tables are right\<close>

text \<open>All combinations of generators, the first one for the highest bit.\<close>

fun span :: "u32 list \<Rightarrow> u32 list" where
  "span [] = [0]"
| "span (g # gs) = (let ts = span gs in ts @ map ((XOR) g) ts)"

definition units :: "u32 list" where
  "units = [128, 64, 32, 16, 8, 4, 2, 1]"

lemma span_shifted: "map (shifted n) (span gs) = span (map (shifted n) gs)"
proof (induction gs)
  case (Cons g gs)
  have "map (shifted n) (map ((XOR) g) ts) = map ((XOR) (shifted n g)) (map (shifted n) ts)" for ts by (simp add: shifted_xor)
  then show ?case using Cons.IH by (simp only: span.simps Let_def map_append list.map)
qed simp

lemma span_units: "span units = map of_nat [0..<256]"
  by (simp add: units_def upt_rec Let_def)

definition table_for :: "nat \<Rightarrow> u32 list \<Rightarrow> bool" where
  "table_for n tab \<longleftrightarrow> tab = map (shifted n) (map of_nat [0..<256])"

lemma table_forI: "tab = span gs \<Longrightarrow> gs = map (shifted n) units \<Longrightarrow> table_for n tab"
  unfolding table_for_def span_units [symmetric] span_shifted by simp

lemma table_for_lookup: "table_for n tab \<Longrightarrow> tab ! unat (x AND 0xff) = shifted n (x AND 0xff)"
proof -
  assume t: "table_for n tab"
  have "unat (x AND 0xff) < 2 ^ 8" unfolding and_ff unsigned_take_bit_eq by (rule take_bit_nat_less_exp)
  then have "unat (x AND 0xff) < 256" by simp
  then show ?thesis using t by (simp add: table_for_def)
qed
text \<open>The entries for single bits: eight steps of the division lead from the ones of a table to those of the next.\<close>

definition gens8 :: "u32 list" where
  "gens8 = [0x82f63b78, 0x417b1dbc, 0x20bd8ede, 0x105ec76f, 0x8ad958cf, 0xc79a971f, 0xe13b70f7, 0xf26b8303]"

definition gens16 :: "u32 list" where
  "gens16 = [0xfbc3faf9, 0xff17c604, 0x7f8be302, 0x3fc5f181, 0x9d14c3b8, 0x4e8a61dc, 0x274530ee, 0x13a29877]"

definition gens24 :: "u32 list" where
  "gens24 = [0x8b277743, 0xc76580d9, 0xe144fb14, 0x70a27d8a, 0x38513ec5, 0x9edea41a, 0x4f6f520d, 0xa541927e]"

definition gens32 :: "u32 list" where
  "gens32 = [0x52a0c93f, 0xaba65fe7, 0xd725148b, 0xe964b13d, 0xf64463e6, 0x7b2231f3, 0xbf672381, 0xdd45aab8]"

definition gens40 :: "u32 list" where
  "gens40 = [0x6ea2d55c, 0x37516aae, 0x1ba8b557, 0x8f2261d3, 0xc5670b91, 0xe045beb0, 0x7022df58, 0x38116fac]"

definition gens48 :: "u32 list" where
  "gens48 = [0x1c08b7d6, 0xe045beb, 0x85f4168d, 0xc00c303e, 0x6006181f, 0xb2f53777, 0xdb8ca0c3, 0xef306b19]"

definition gens56 :: "u32 list" where
  "gens56 = [0xf56e0ef4, 0x7ab7077a, 0x3d5b83bd, 0x9c5bfaa6, 0x4e2dfd53, 0xa5e0c5d1, 0xd0065990, 0x68032cc8]"

definition gens64 :: "u32 list" where
  "gens64 = [0x34019664, 0x1a00cb32, 0xd006599, 0x847609b4, 0x423b04da, 0x211d826d, 0x9278fa4e, 0x493c7d27]"

lemma crc32Table_span: "crc32Table = span gens8"
  by (simp add: crc32Table_def gens8_def Let_def)

lemma o32_span: "sctp_crc_tableil8_o32 = span gens8"
  unfolding crc32Table_span [symmetric] by (simp only: sctp_crc_tableil8_o32_def crc32Table_def)

lemma o40_span: "sctp_crc_tableil8_o40 = span gens16"
  by (simp add: sctp_crc_tableil8_o40_def gens16_def Let_def)

lemma o48_span: "sctp_crc_tableil8_o48 = span gens24"
  by (simp add: sctp_crc_tableil8_o48_def gens24_def Let_def)

lemma o56_span: "sctp_crc_tableil8_o56 = span gens32"
  by (simp add: sctp_crc_tableil8_o56_def gens32_def Let_def)

lemma o64_span: "sctp_crc_tableil8_o64 = span gens40"
  by (simp add: sctp_crc_tableil8_o64_def gens40_def Let_def)

lemma o72_span: "sctp_crc_tableil8_o72 = span gens48"
  by (simp add: sctp_crc_tableil8_o72_def gens48_def Let_def)

lemma o80_span: "sctp_crc_tableil8_o80 = span gens56"
  by (simp add: sctp_crc_tableil8_o80_def gens56_def Let_def)

lemma o88_span: "sctp_crc_tableil8_o88 = span gens64"
  by (simp add: sctp_crc_tableil8_o88_def gens64_def Let_def)

lemma shifted_byte: "shifted 8 c = crc_bit (crc_bit (crc_bit (crc_bit (crc_bit (crc_bit (crc_bit (crc_bit c)))))))"
  by (simp add: numeral_eq_Suc)

lemma gens8_units: "gens8 = map (shifted 8) units"
  by (simp add: gens8_def units_def shifted_byte crc_bit_def)

lemma gens16_step: "gens16 = map (shifted 8) gens8"
  by (simp add: gens16_def gens8_def shifted_byte crc_bit_def)

lemma gens24_step: "gens24 = map (shifted 8) gens16"
  by (simp add: gens24_def gens16_def shifted_byte crc_bit_def)

lemma gens32_step: "gens32 = map (shifted 8) gens24"
  by (simp add: gens32_def gens24_def shifted_byte crc_bit_def)

lemma gens40_step: "gens40 = map (shifted 8) gens32"
  by (simp add: gens40_def gens32_def shifted_byte crc_bit_def)

lemma gens48_step: "gens48 = map (shifted 8) gens40"
  by (simp add: gens48_def gens40_def shifted_byte crc_bit_def)

lemma gens56_step: "gens56 = map (shifted 8) gens48"
  by (simp add: gens56_def gens48_def shifted_byte crc_bit_def)

lemma gens64_step: "gens64 = map (shifted 8) gens56"
  by (simp add: gens64_def gens56_def shifted_byte crc_bit_def)

lemma gens_next: "gs = map (shifted n) units \<Longrightarrow> map (shifted 8) gs = map (shifted (n + 8)) units"
  by (simp add: shifted_add [of 8] add.commute [of n])

lemma gens_units:
  "gens16 = map (shifted 16) units" "gens24 = map (shifted 24) units" "gens32 = map (shifted 32) units" "gens40 = map (shifted 40) units"
  "gens48 = map (shifted 48) units" "gens56 = map (shifted 56) units" "gens64 = map (shifted 64) units"
proof -
  show 16: "gens16 = map (shifted 16) units" using gens_next [OF gens8_units] by (simp only: gens16_step) simp
  show 24: "gens24 = map (shifted 24) units" using gens_next [OF 16] by (simp only: gens24_step) simp
  show 32: "gens32 = map (shifted 32) units" using gens_next [OF 24] by (simp only: gens32_step) simp
  show 40: "gens40 = map (shifted 40) units" using gens_next [OF 32] by (simp only: gens40_step) simp
  show 48: "gens48 = map (shifted 48) units" using gens_next [OF 40] by (simp only: gens48_step) simp
  show 56: "gens56 = map (shifted 56) units" using gens_next [OF 48] by (simp only: gens56_step) simp
  show 64: "gens64 = map (shifted 64) units" using gens_next [OF 56] by (simp only: gens64_step) simp
qed

lemma tables:
  "table_for 8 crc32Table" "table_for 8 sctp_crc_tableil8_o32" "table_for 16 sctp_crc_tableil8_o40" "table_for 24 sctp_crc_tableil8_o48"
  "table_for 32 sctp_crc_tableil8_o56" "table_for 40 sctp_crc_tableil8_o64" "table_for 48 sctp_crc_tableil8_o72" "table_for 56 sctp_crc_tableil8_o80"
  "table_for 64 sctp_crc_tableil8_o88"
  by (rule table_forI, (rule crc32Table_span o32_span o40_span o48_span o56_span o64_span o72_span o80_span o88_span), (rule gens8_units gens_units))+
section \<open>The routines compute the division\<close>

lemma drop_byte [simp]: "drop_bit 8 (ucast (b :: u8) :: u32) = 0"
  by (rule bit_word_eqI) (auto simp: bit_simps dest: bit_imp_le_length)

lemma table_step_byte: "table_for 8 tab \<Longrightarrow> table_step tab crc b = crc_byte crc b"
  using shifted_8 [of "crc XOR ucast b"] by (simp add: table_step_def crc_byte_def table_for_lookup drop_bit_xor)

lemma crc_of_Nil [simp]: "crc_of c [] = c"
  by (simp add: crc_of_def)

lemma crc_of_Cons [simp]: "crc_of c (b # bs) = crc_of (crc_byte c b) bs"
  by (simp add: crc_of_def)

lemma crc_of_append: "crc_of c (as @ bs) = crc_of (crc_of c as) bs"
  by (simp add: crc_of_def)

lemma byte_loop_spec:
  assumes "\<And>c b. step c b = crc_byte c b"
  shows "n \<le> length p \<Longrightarrow> byte_loop step n crc p = Some (crc_of crc (take n p), drop n p)"
proof (induction n arbitrary: crc p)
  case (Suc n)
  then show ?case by (cases p) (auto simp: assms)
qed simp

definition word_of :: "u8 list \<Rightarrow> u32" where
  "word_of p = ucast (p ! 0) OR push_bit 8 (ucast (p ! 1)) OR push_bit 16 (ucast (p ! 2)) OR push_bit 24 (ucast (p ! 3))"

lemma four_elements: "4 \<le> length p \<Longrightarrow> \<exists>a b c d q. p = a # b # c # d # q"
  by (auto simp: Suc_le_length_iff numeral_eq_Suc)

lemma load32_spec: "4 \<le> length p \<Longrightarrow> load32 p = Some (word_of p)"
  using four_elements [of p] by (auto simp: load32_def word_of_def)

lemma word_of_xor:
  "word_of (a # b # c # d # q) = ucast a XOR push_bit 8 (ucast b) XOR push_bit 16 (ucast c) XOR push_bit 24 (ucast d)"
  unfolding word_of_def by (rule bit_word_eqI) (auto simp: bit_simps dest: bit_imp_le_length)

text \<open>Four bytes at once are one step of 32 bits.\<close>

lemma crc_of_word:
  assumes "4 \<le> length p"
  shows "crc_of crc (take 4 p) = shifted 32 (crc XOR word_of p)"
proof -
  obtain a b c d q where p: "p = a # b # c # d # q" using four_elements [OF assms] by blast
  have s: "shifted 8 (shifted n x) = shifted (n + 8) x" for n x using shifted_add [of 8 n x] by (simp add: add.commute)
  have h: "shifted 32 (push_bit m (ucast (b :: u8))) = shifted (32 - m) (ucast b)" if "m \<le> 24" for m b
    using that shifted_high [OF that byte_word(1), of 32 b] by simp
  have "crc_of crc (take 4 p) = shifted 32 crc XOR shifted 32 (ucast a) XOR shifted 24 (ucast b) XOR shifted 16 (ucast c) XOR shifted 8 (ucast d)"
    by (simp add: p crc_byte_def shifted_xor s ac_simps take_Cons')
  then show ?thesis by (simp add: p word_of_xor shifted_xor h ac_simps)
qed

lemma crc_of_two_words:
  assumes "8 \<le> length p"
  shows "crc_of crc (take 8 p) = shifted 64 (crc XOR word_of p) XOR shifted 32 (word_of (drop 4 p))"
proof -
  have t: "take 8 p = take 4 p @ take 4 (drop 4 p)" using take_add [of 4 4 p] by simp
  have "4 \<le> length p" "4 \<le> length (drop 4 p)" using assms by simp_all
  then show ?thesis by (simp add: t crc_of_append crc_of_word shifted_xor flip: shifted_add)
qed

lemma eight_loop_spec: "8 * n \<le> length p \<Longrightarrow> eight_loop n crc p = Some (crc_of crc (take (8 * n) p), drop (8 * n) p)"
proof (induction n arbitrary: crc p)
  case (Suc n)
  have l: "8 \<le> length p" "4 \<le> length p" "4 \<le> length (drop 4 p)" "8 * n \<le> length (drop 8 p)" using Suc.prems by simp_all
  have t: "take (8 * Suc n) p = take 8 p @ take (8 * n) (drop 8 p)" using take_add [of 8 "8 * n" p] by simp
  let ?x = "crc XOR word_of p" and ?y = "word_of (drop 4 p)"
  have "crc_of crc (take 8 p) = shifted 64 ?x XOR shifted 32 ?y" using crc_of_two_words [OF l(1)] .
  also have "\<dots> = (shifted 64 (?x AND 0xff) XOR shifted 56 (drop_bit 8 ?x AND 0xff) XOR shifted 48 (drop_bit 16 ?x AND 0xff) XOR
      shifted 40 (drop_bit 8 (drop_bit 16 ?x) AND 0xff)) XOR
    (shifted 32 (?y AND 0xff) XOR shifted 24 (drop_bit 8 ?y AND 0xff) XOR shifted 16 (drop_bit 16 ?y AND 0xff) XOR
      shifted 8 (drop_bit 8 (drop_bit 16 ?y) AND 0xff))"
    using shifted_bytes [of 64 ?x] shifted_bytes [of 32 ?y] by (simp del: drop_bit_drop_bit)
  finally have e: "crc_of crc (take 8 p) = \<dots>" .
  have step: "eight_loop (Suc n) crc p = eight_loop n (crc_of crc (take 8 p)) (drop 8 p)"
    using l(2,3) unfolding e
    by (simp add: load32_spec Let_def table_for_lookup [OF tables(2)] table_for_lookup [OF tables(3)] table_for_lookup [OF tables(4)]
      table_for_lookup [OF tables(5)] table_for_lookup [OF tables(6)] table_for_lookup [OF tables(7)] table_for_lookup [OF tables(8)]
      table_for_lookup [OF tables(9)] xor.assoc del: drop_bit_drop_bit)
  show ?case unfolding step Suc.IH [OF l(4)] t crc_of_append by (simp add: add.commute)
qed simp

lemma sub32_eq: "b \<le> a \<Longrightarrow> a < 2 ^ 32 \<Longrightarrow> sub32 a b = a - b"
proof -
  assume ab: "b \<le> a" "a < 2 ^ 32"
  then have "a + 2 ^ 32 - b = (a - b) + 2 ^ 32" by (simp del: numeral_nat)
  then have "sub32 a b = (a - b) mod 2 ^ 32" by (simp only: sub32_def mod_add_self2)
  then show ?thesis using ab by (simp add: less_imp_diff_less)
qed

lemma crc_of_three:
  "crc_of (crc_of (crc_of crc (take i p)) (take j (drop i p))) (take k (drop j (drop i p))) = crc_of crc (take (i + (j + k)) p)"
  by (simp add: take_add crc_of_append add.commute)

lemma crc32c_sw_spec:
  assumes "nbytes \<le> length data" "nbytes < 2 ^ 32"
  shows "crc32c_sw addr data nbytes crc = Some (crc_of crc (take nbytes data))"
proof (cases "nbytes < 4")
  case True
  then show ?thesis
    using assms(1) by (simp add: crc32c_sw_def singletable_crc32c_def byte_loop_spec table_step_byte tables)
next
  case False
  define i where "i = 4 - addr mod 4"
  have i: "i \<le> 4" "i \<le> nbytes" using False by (simp_all add: i_def)
  define m where "m = (nbytes - i) div 8"
  have s: "sub32 nbytes i = nbytes - i" "sub32 (nbytes - i) (8 * m) = nbytes - i - 8 * m"
    using i assms(2) by (simp_all add: sub32_eq m_def)
  have m: "8 * m \<le> length (drop i data)" "nbytes - i - 8 * m \<le> length (drop (8 * m) (drop i data))" "i + (8 * m + (nbytes - i - 8 * m)) = nbytes"
    using i assms(1) div_times_less_eq_dividend [of "nbytes - i" 8] by (simp_all add: m_def)
  have "crc32c_sb8_64_bit crc data nbytes i = Some (crc_of (crc_of (crc_of crc (take i data)) (take (8 * m) (drop i data)))
      (take (nbytes - i - 8 * m) (drop (8 * m) (drop i data))))"
    using i assms(1) m(1,2) s m_def
    by (simp add: crc32c_sb8_64_bit_def Let_def byte_loop_spec table_step_byte tables eight_loop_spec mult.commute [of _ 8] del: drop_drop)
  also have "\<dots> = Some (crc_of crc (take nbytes data))" by (simp only: crc_of_three m(3))
  finally show ?thesis using False assms(2) by (simp add: crc32c_sw_def multitable_crc32c_def i_def)
qed

text \<open>What the instructions are documented to do: CRC32C of one byte, and of eight bytes in the order of memory.\<close>

definition crc_instructions :: "intrinsics \<Rightarrow> bool" where
  "crc_instructions H \<longleftrightarrow> (\<forall>c b. crc32qi H c b = crc_byte c b) \<and>
     (\<forall>c p w. load64 p = Some w \<longrightarrow> ucast (crc32di H (ucast c) w) = crc_of c (take 8 p))"

lemma load64_spec: "8 \<le> length p \<Longrightarrow> \<exists>w. load64 p = Some w"
  by (simp add: load64_def load32_spec)

lemma word_loop_spec:
  assumes "crc_instructions H"
  shows "8 * n \<le> length p \<Longrightarrow> word_loop H n crc p = Some (crc_of crc (take (8 * n) p), drop (8 * n) p)"
proof (induction n arbitrary: crc p)
  case (Suc n)
  have l: "8 \<le> length p" "8 * n \<le> length (drop 8 p)" using Suc.prems by simp_all
  have t: "take (8 * Suc n) p = take 8 p @ take (8 * n) (drop 8 p)" using take_add [of 8 "8 * n" p] by simp
  obtain w where w: "load64 p = Some w" using load64_spec [OF l(1)] by blast
  then have "ucast (crc32di H (ucast crc) w) = crc_of crc (take 8 p)" using assms unfolding crc_instructions_def by blast
  then have step: "word_loop H (Suc n) crc p = word_loop H n (crc_of crc (take 8 p)) (drop 8 p)" using w by simp
  show ?case unfolding step Suc.IH [OF l(2)] t crc_of_append by (simp add: add.commute)
qed simp

lemma crc32c_hw_spec:
  assumes H: "crc_instructions H" and "nbytes \<le> length data"
  shows "crc32c_hw H addr data nbytes crc = Some (crc_of crc (take nbytes data))"
proof -
  define i where "i = (if addr mod 8 \<noteq> 0 then min nbytes (8 - addr mod 8) else 0)"
  have i: "i \<le> nbytes" by (simp add: i_def)
  define m where "m = (nbytes - i) div 8"
  have m: "8 * m \<le> length (drop i data)" "(nbytes - i) mod 8 \<le> length (drop (8 * m) (drop i data))" "i + (8 * m + (nbytes - i) mod 8) = nbytes"
  proof -
    have r: "(nbytes - i) mod 8 = nbytes - i - 8 * m" by (simp add: m_def minus_mult_div_eq_mod)
    have "8 * m \<le> nbytes - i" by (simp add: m_def)
    then show "8 * m \<le> length (drop i data)" "(nbytes - i) mod 8 \<le> length (drop (8 * m) (drop i data))" "i + (8 * m + (nbytes - i) mod 8) = nbytes"
      using i assms(2) unfolding r by simp_all
  qed
  have b: "\<And>c b. crc32qi H c b = crc_byte c b" using H by (simp add: crc_instructions_def)
  have "crc32c_hw H addr data nbytes crc = Some (crc_of (crc_of (crc_of crc (take i data)) (take (8 * m) (drop i data)))
      (take ((nbytes - i) mod 8) (drop (8 * m) (drop i data))))"
    unfolding crc32c_hw_def Let_def i_def [symmetric] m_def [symmetric]
    using i assms(2) m(1,2) by (simp add: byte_loop_spec [of "crc32qi H", OF b] word_loop_spec [OF H] del: drop_drop)
  also have "\<dots> = Some (crc_of crc (take nbytes data))" by (simp only: crc_of_three m(3))
  finally show ?thesis .
qed

text \<open>An instance of the instructions.\<close>

definition model_intrinsics :: intrinsics where
  "model_intrinsics = \<lparr>crc32qi = crc_byte, crc32di = (\<lambda>c w. ucast (shifted 64 (ucast c XOR ucast w) XOR shifted 32 (ucast (drop_bit 32 w))))\<rparr>"

lemma model_intrinsics_ok: "crc_instructions model_intrinsics"
proof -
  have "ucast (crc32di model_intrinsics (ucast c) w) = crc_of c (take 8 p)" if "load64 p = Some w" for c p w
  proof -
    have l: "8 \<le> length p" using that by (auto simp: load64_def load32_def bind_eq_Some_conv split: list.splits)
    then have w: "w = ucast (word_of p) OR push_bit 32 (ucast (word_of (drop 4 p)))" using that by (simp add: load64_def load32_spec)
    have low: "ucast w = word_of p" unfolding w by (rule bit_word_eqI) (auto simp: bit_simps)
    have high: "ucast (drop_bit 32 w) = word_of (drop 4 p)" unfolding w by (rule bit_word_eqI) (auto simp: bit_simps dest: bit_imp_le_length)
    have "ucast (ucast x :: u64) = x" for x :: u32 by (rule bit_word_eqI) (auto simp: bit_simps)
    then show ?thesis by (simp add: model_intrinsics_def low high crc_of_two_words [OF l])
  qed
  then show ?thesis by (simp add: crc_instructions_def model_intrinsics_def)
qed

section \<open>Errors that are found\<close>

lemma xor_cancel: "(x :: u32) XOR y = x XOR z \<Longrightarrow> y = z"
proof (rule bit_word_eqI)
  fix n assume "x XOR y = x XOR z"
  then have "bit (x XOR y) n = bit (x XOR z) n" by simp
  then show "bit y n = bit z n" by (auto simp: bit_xor_iff)
qed

lemma crc_bit_0_iff: "crc_bit x = 0 \<Longrightarrow> x = 0"
proof -
  assume x: "crc_bit x = 0"
  have n: "\<not> bit x 0"
  proof
    assume "bit x 0"
    then have "0x82f63b78 XOR drop_bit 1 x = 0x82f63b78 XOR 0x82f63b78" using x by (simp add: crc_bit_def xor.commute)
    then have "drop_bit 1 x = 0x82f63b78" by (rule xor_cancel)
    then have "bit (drop_bit 1 x) 31" by simp
    then show False by (auto simp: bit_simps dest: bit_imp_le_length)
  qed
  then have d: "drop_bit 1 x = 0" using x by (simp add: crc_bit_def)
  have "\<not> bit x k" for k
  proof (cases k)
    case (Suc j)
    have "bit (drop_bit 1 x) j = bit x k" by (simp add: Suc bit_drop_bit_eq)
    then show ?thesis using d by simp
  qed (simp add: n)
  then show "x = 0" by (intro bit_word_eqI) simp
qed

lemma shifted_0_iff: "shifted n x = 0 \<Longrightarrow> x = 0"
  by (induction n) (auto dest: crc_bit_0_iff)

lemma shifted_inj: "shifted n x = shifted n y \<Longrightarrow> x = y"
  using shifted_0_iff [of n "x XOR y"] xor_cancel [of x y x] by (simp add: shifted_xor)

lemma crc_of_state: "crc_of a bs = crc_of b bs \<Longrightarrow> a = b"
proof (induction bs arbitrary: a b)
  case (Cons x bs)
  then have "crc_byte a x = crc_byte b x" using Cons.IH by simp
  then have "a XOR ucast x = b XOR ucast x" unfolding crc_byte_def by (rule shifted_inj)
  then show ?case using xor_cancel [of "ucast x" a b] by (simp add: xor.commute)
qed simp

lemma crc_of_four: "length p = 4 \<Longrightarrow> crc_of c p = shifted 32 (c XOR word_of p)"
  using crc_of_word [of p c] by simp

lemma word_of_inj:
  assumes "length p = 4" "length q = 4" "word_of p = word_of q"
  shows "p = q"
proof -
  have b: "bit (word_of r) (8 * i + k) = bit (r ! i) k" if "i < 4" "k < 8" for r i k
  proof -
    have "i = 0 \<or> i = 1 \<or> i = 2 \<or> i = 3" using that(1) by linarith
    then show ?thesis using that(2) by (auto simp: word_of_def bit_simps dest: bit_imp_le_length)
  qed
  have "p ! i = q ! i" if "i < 4" for i
  proof (rule bit_word_eqI)
    fix k assume "k < LENGTH(8)"
    then show "bit (p ! i) k = bit (q ! i) k" using b [OF that, of k p] b [OF that, of k q] assms(3) by simp
  qed
  then show ?thesis using assms(1,2) by (intro nth_equalityI) simp_all
qed

lemma crc_of_short:
  assumes "length u = length v" "length u \<le> 4" "crc_of c u = crc_of c v"
  shows "u = v"
proof -
  define z where "z = replicate (4 - length u) (0 :: u8)"
  have l: "length (u @ z) = 4" "length (v @ z) = 4" using assms(1,2) by (simp_all add: z_def)
  have "crc_of c (u @ z) = crc_of c (v @ z)" using assms(3) by (simp add: crc_of_append)
  then have "shifted 32 (c XOR word_of (u @ z)) = shifted 32 (c XOR word_of (v @ z))" using crc_of_four [OF l(1)] crc_of_four [OF l(2)] by simp
  then have "c XOR word_of (u @ z) = c XOR word_of (v @ z)" by (rule shifted_inj)
  then have "word_of (u @ z) = word_of (v @ z)" by (rule xor_cancel)
  then have "u @ z = v @ z" by (rule word_of_inj [OF l])
  then show ?thesis by simp
qed

lemma crc_burst: "length u = length v \<Longrightarrow> length u \<le> 4 \<Longrightarrow> crc_of c (pre @ u @ post) = crc_of c (pre @ v @ post) \<Longrightarrow> u = v"
  by (auto simp: crc_of_append dest!: crc_of_state crc_of_short [rotated 2])

section \<open>Properties\<close>

lemma crc32c_func_spec:
  assumes "crc_instructions H" "nbytes \<le> length data" "nbytes < 2 ^ 32"
  shows "crc32c_func sse42 H addr data nbytes crc = Some (crc_of crc (take nbytes data))"
  using crc32c_sw_spec [OF assms(2,3)] crc32c_hw_spec [OF assms(1,2)] by (simp add: crc32c_func_def)

text \<open>
  Property C22: whichever routine is chosen when the program starts, and wherever the buffer lies, the checksum of fewer
  than 4 GB is the bit by bit division by the CRC32C polynomial of the bytes, continued from the given value: the
  tables and the handling of unaligned bytes and of the rest are right, and no byte outside of the buffer is read.
\<close>

theorem crc32c_is_division:
  assumes "crc_instructions H" "nbytes \<le> length data" "nbytes < 2 ^ 32"
  shows "crc32c_func sse42 H addr data nbytes crc = Some (foldl (\<lambda>c b. (crc_bit ^^ 8) (c XOR ucast b)) crc (take nbytes data))"
proof -
  have "(\<lambda>c b. (crc_bit ^^ 8) (c XOR ucast b)) = crc_byte" by (simp only: crc_byte_def [abs_def])
  then show ?thesis using crc32c_func_spec [OF assms] by (simp only: crc_of_def)
qed

lemma crc32c_is_division_witness:
  "crc32c_func False model_intrinsics 3 [49, 50, 51, 52, 53, 54, 55, 56, 57, 0] 9 0xffffffff = Some 0x1cf96d7c"
proof -
  let ?d = "[49, 50, 51, 52, 53, 54, 55, 56, 57, 0] :: u8 list"
  have "crc32c_func False model_intrinsics 3 ?d 9 0xffffffff = Some (foldl (\<lambda>c b. (crc_bit ^^ 8) (c XOR ucast b)) 0xffffffff (take 9 ?d))"
    by (rule crc32c_is_division [OF model_intrinsics_ok]) simp_all
  also have "foldl (\<lambda>c b. (crc_bit ^^ 8) (c XOR ucast b)) 0xffffffff (take 9 ?d) = (0x1cf96d7c :: u32)"
    by (simp add: shifted_byte crc_bit_def)
  finally show ?thesis .
qed

text \<open>
  Property C28: a change that is confined to four consecutive bytes is found: the checksums of the two buffers differ,
  even if one is computed by the instructions and the other by the tables.
\<close>

theorem burst_errors_found:
  assumes "crc_instructions H" "length u = length v" "length u \<le> 4" "u \<noteq> v" "nbytes = length (pre @ u @ post)" "nbytes < 2 ^ 32"
  shows "crc32c_func sse42 H addr (pre @ u @ post) nbytes crc \<noteq> crc32c_func sse42' H addr' (pre @ v @ post) nbytes crc"
proof
  assume e: "crc32c_func sse42 H addr (pre @ u @ post) nbytes crc = crc32c_func sse42' H addr' (pre @ v @ post) nbytes crc"
  have "nbytes \<le> length (pre @ u @ post)" "nbytes \<le> length (pre @ v @ post)" using assms(2,5) by simp_all
  from e [unfolded crc32c_func_spec [OF assms(1) this(1) assms(6)] crc32c_func_spec [OF assms(1) this(2) assms(6)]]
  have "crc_of crc (pre @ u @ post) = crc_of crc (pre @ v @ post)" using assms(2,5) by simp
  then show False using crc_burst [OF assms(2,3)] assms(4) by blast
qed

lemma burst_errors_found_witness:
  "crc32c_func True model_intrinsics 0 [1, 2, 3, 4, 5, 6, 7, 8, 9] 9 0 \<noteq> crc32c_func False model_intrinsics 5 [1, 2, 3, 0, 5, 0, 7, 8, 9] 9 0"
  using burst_errors_found [OF model_intrinsics_ok, of "[4, 5, 6]" "[0, 5, 0]" 9 "[1, 2, 3]" "[7, 8, 9]" True 0 0 False 5] by simp

end
