(* ===== verification/ZFile_Properties.thy ===== *)
theory ZFile_Properties
  imports ZFile_Roundtrip CRC32C
begin

text \<open>
  The properties of compressed files, with an instance of the environment on which their assumptions hold.
\<close>

section \<open>An instance of the environment\<close>

text \<open>A codec that stores the bytes as they are, files in memory, and the checksum that \<open>CRC32C\<close> proves of the code.\<close>

definition plain_codec :: codec where
  "plain_codec = \<lparr>encode = (\<lambda>src cap. (int (length src), src)), decode = (\<lambda>code n. (int (length code), code)), bound = (\<lambda>n. n)\<rparr>"

definition memory_env :: "(u8 list \<times> nat) zenv" where
  "memory_env = \<lparr>io = memory_photon,
     io_read = (\<lambda>(c, p) n. (int (min n (length c - p)), take n (drop p c), c, p + min n (length c - p))),
     io_evict = (\<lambda>f. (0, f)), crc32c_extend = (\<lambda>bs w. crc_of w bs), codecs = (\<lambda>algo. plain_codec)\<rparr>"

definition sample_options :: "nat \<Rightarrow> CompressOptions" where
  "sample_options n = \<lparr>z_block_size = n, z_algo = LZ4, z_level = 0, z_use_dict = 0, z_dict_size = 0, z_verify = 1\<rparr>"

definition sample_args :: "bool \<Rightarrow> nat \<Rightarrow> CompressArgs" where
  "sample_args cdc n = \<lparr>z_opt = sample_options n, overwrite_header = True, use_fastcdc = cdc, fastcdc_min_size = 2048, fastcdc_avg_size = 8192,
     fastcdc_max_size = 32768\<rparr>"

lemma plain_codec_law: "codec_law plain_codec n"
  by (auto simp: codec_law_def plain_codec_def)

lemma memory_env_whole: "whole_io memory_env fst snd"
proof -
  have "full_writes (io memory_env)" "full_pwrites (io memory_env)"
    by (auto simp: full_writes_def full_pwrites_def memory_env_def memory_photon_def)
  moreover have "sequential_reads memory_env fst snd" by (auto simp: sequential_reads_def memory_env_def)
  ultimately show ?thesis using memory_photon_laws by (simp add: whole_io_def memory_env_def)
qed

lemma sample_options_ok: "options_ok memory_env (sample_options 4096)" "options_ok memory_env (sample_options 32768)"
proof -
  have "(65536 :: nat) div 4096 = 2 ^ 4" "(65536 :: nat) div 32768 = 2 ^ 1" by simp_all
  then have "\<exists>k. (65536 :: nat) div 4096 = 2 ^ k" "\<exists>k. (65536 :: nat) div 32768 = 2 ^ k" by blast+
  moreover have "max_stored memory_env (sample_options n) = n + 4" for n
    by (simp add: max_stored_def memory_env_def plain_codec_def sample_options_def)
  moreover have "codec_law (codecs memory_env a) n" for a n using plain_codec_law by (simp add: memory_env_def)
  ultimately show "options_ok memory_env (sample_options 4096)" "options_ok memory_env (sample_options 32768)"
    by (simp_all only: options_ok_def) (simp_all add: sample_options_def opt_ok_def LZ4_def MAX_READ_SIZE_def BUF_SIZE_def uinttype_max_def)
qed

lemma sample_args_ok: "args_ok memory_env (sample_args False 4096)" "args_ok memory_env (sample_args True 4096)"
  using sample_options_ok
  by (simp_all add: args_ok_def sample_args_def header_options_def sample_options_def memory_env_def plain_codec_def BUF_SIZE_def)

section \<open>Round trips\<close>

text \<open>The result of a read: the bytes are at the front of the buffer.\<close>

definition filled_with :: "u8 list \<Rightarrow> u8 list \<Rightarrow> u8 list" where
  "filled_with d buf = d @ drop (length d) buf"

text \<open>Where a read starts: with FastCDC where it should, otherwise only in the first block or at the start of a block.\<close>

definition start_position :: "bool \<Rightarrow> nat \<Rightarrow> nat \<Rightarrow> nat" where
  "start_position cdc bs off = (if cdc \<or> off < bs then off else off div bs * bs)"

lemma start_position_le: "start_position cdc bs off \<le> off"
  by (simp add: start_position_def)

lemma holds_pread:
  assumes "holds E content opt cdc f data" "whole_io E content pos" "count \<le> length buf"
  shows "\<exists>zf. zfile_open E f verify own = Some (Some zf) \<and>
    zfile_pread E zf (Some buf) count off =
      (let d = take (min count (length data - off)) (drop (start_position cdc (z_block_size opt) off) data) in Some (int (length d), Some (filled_with d buf), zf))"
proof -
  from assms(1) obtain zf chunks stored where zf: "zfile_open E f verify own = Some (Some zf)" "represents E content zf Z_SPACE chunks stored"
    "concat chunks = data" "z_options (cf_ht zf) = opt" "z_flag Z_FASTCDC (cf_ht zf) = cdc" unfolding holds_def by blast
  have P: "full_reads (io E) content" using assms(2) by (simp add: whole_io_def)
  let ?n = "min count (length data - off)" and ?p = "start_position cdc (z_block_size opt) off"
  define d where "d = take ?n (drop ?p data)"
  have rs: "read_start zf off = ?p" using zf(4,5) by (simp add: read_start_def start_position_def Let_def)
  have d: "read_bytes zf chunks count off = d" by (simp add: read_bytes_def rs zf(3) d_def)
  have "?n \<le> length data - ?p" using start_position_le [of cdc "z_block_size opt" off] by simp
  then have len: "length d = ?n" by (simp add: d_def)
  then have "length d \<le> length buf" using assms(3) by simp
  then have "zfile_pread E zf (Some buf) count off = Some (int (length d), Some (filled_with d buf), zf)"
    using pread_bytes [OF zf(2) P, of count off buf] store_front [of d buf] len by (simp add: d zf(3) filled_with_def)
  then show ?thesis using zf(1) unfolding d_def [symmetric] Let_def by blast
qed

lemma start_position_exact: "cdc \<or> bs dvd off \<Longrightarrow> start_position cdc bs off = off"
  by (auto simp: start_position_def)




text \<open>
  Property C39: without FastCDC a read beyond the first block that does not start at a block returns the bytes
  from the start of that block, not from the offset that was asked for.
\<close>

theorem zfile_unaligned_read:
  assumes W: "whole_io E content pos" and "args_ok E args" "content as = []" "pos as = 0" "pos src = 0" "length (content src) < 2 ^ 40"
    and "\<not> use_fastcdc args" "z_block_size (z_opt args) \<le> off" "count \<le> length buf"
  shows "\<exists>src' as' cdc' zf. zfile_compress E MD5 (Some src) (Some as) (Some args) cdc = Some (0, Some src', Some as', cdc') \<and>
    zfile_open E as' verify own = Some (Some zf) \<and>
    zfile_pread E zf (Some buf) count off =
      (let d = take (min count (length (content src) - off)) (drop (off div z_block_size (z_opt args) * z_block_size (z_opt args)) (content src)) in
       Some (int (length d), Some (filled_with d buf), zf))"
proof -
  obtain src' as' cdc' where z: "zfile_compress E MD5 (Some src) (Some as) (Some args) cdc = Some (0, Some src', Some as', cdc')"
    "holds E content (header_options args) (use_fastcdc args) as' (content src)"
    by (rule zfile_compress_holds [OF assms(1-6)])
  have "start_position (use_fastcdc args) (z_block_size (header_options args)) off = off div z_block_size (z_opt args) * z_block_size (z_opt args)"
    using assms(7,8) by (simp add: start_position_def header_options_def)
  then show ?thesis using z(1) holds_pread [OF z(2) W assms(9), of verify own off] by auto
qed





lemma zfile_unaligned_read_witness:
  "\<exists>src' as' cdc' zf. zfile_compress memory_env id (Some (replicate 4096 7 @ [1, 2, 3], 0)) (Some ([], 0)) (Some (sample_args False 4096)) (False, globals0) =
      Some (0, Some src', Some as', cdc') \<and> zfile_open memory_env as' True False = Some (Some zf) \<and>
    zfile_pread memory_env zf (Some [0, 0]) 2 4097 = Some (2, Some [1, 2], zf) \<and> take 2 (drop 4097 (replicate 4096 7 @ [1, 2, 3])) = [2, 3 :: u8]"
proof -
  have len: "length (fst (replicate 4096 7 @ [1, 2, 3] :: u8 list, 0 :: nat)) < 2 ^ 40" by simp
  have u: "\<not> use_fastcdc (sample_args False 4096)" "z_block_size (z_opt (sample_args False 4096)) \<le> 4097" by (simp_all add: sample_args_def sample_options_def)
  show ?thesis
    using zfile_unaligned_read [OF memory_env_whole sample_args_ok(1) _ _ _ len u, of "([], 0)" 2 "[0, 0]" id "(False, globals0)" True False]
    by (auto simp: filled_with_def sample_args_def sample_options_def drop_append)
qed

section \<open>The jump table\<close>

text \<open>
  Property C23: for a block size that divides 65536 into a power of two, and stored lengths of which every group
  fits into 16 bits, the jump table gives the exact position of every block and of the end.
\<close>

theorem jump_table_exact:
  assumes "0 < block_size" "block_size \<le> 65536" "65536 div block_size = 2 ^ k" "groups_fit (65536 div block_size) (if crc then 4 else 0) lens" "i \<le> length lens"
  shows "\<exists>jt. build lens base block_size crc = Some (0, jt) \<and> jt_at jt i = Some (base + sum_list (take i lens))"
  using build_spec [OF assms(1,2,4)] jt_at_spec [OF assms(3,5)] by (simp add: start_of_def)

lemma jump_table_exact_witness:
  "\<exists>jt. build [100, 200, 300] 512 32768 True = Some (0, jt) \<and> jt_at jt 3 = Some (512 + sum_list (take 3 [100, 200, 300]))"
proof -
  have p: "(65536 :: nat) div 32768 = 2 ^ 1" by simp
  have m: "Suc j mod 2 \<noteq> 0 \<Longrightarrow> start_of [100, 200, 300] (Suc j) - start_of [100, 200, 300] (Suc j div 2 * 2) < 65535" if "j < 3" for j
    using that by (auto simp: start_of_def less_Suc_eq numeral_3_eq_3 numeral_2_eq_2)
  have "groups_fit (65536 div 32768) (if True then 4 else 0) [100, 200, 300]"
    using m by (auto simp: groups_fit_def uinttype_max_def less_Suc_eq)
  from jump_table_exact [OF _ _ p this, of 3 512] show ?thesis by simp
qed

text \<open>
  For other block sizes the table is built without an error, but the index in the group is computed
  as if the group size were a power of two: with blocks of 20000 bytes (groups of three) the position of
  the second block is that of the first.
\<close>

theorem jump_table_bad_group:
  "\<exists>jt. build [100, 100, 100] 512 20000 False = Some (0, jt) \<and> jt_at jt 1 = Some 512 \<and> jt_at jt 0 = Some 512"
  by (simp add: build_def jt_at_def uinttype_max_def Let_def)


section \<open>Damaged and oversized blocks\<close>

lemma reload_same: "reload E zf br = Some (r, zf', br') \<Longrightarrow>
    cf_ht zf' = cf_ht zf \<and> cf_compressor zf' = cf_compressor zf \<and> valid zf' = valid zf \<and> m_buf_offset br' = m_buf_offset br"
proof -
  assume a: "reload E zf br = Some (r, zf', br')"
  then obtain n p where np: "get_blocks_length zf (m_idx br) (m_idx br + 1) = Some n" "jt_at (jump_table zf) (m_idx br) = Some p"
    by (auto simp: reload_def bind_eq_Some_conv simp del: One_nat_def)
  obtain t f where t: "io_trim (io E) (cf_file zf) p n = (t, f)" by (cases "io_trim (io E) (cf_file zf) p n")
  obtain k bs where k: "io_pread (io E) f n p = (k, bs)" by (cases "io_pread (io E) f n p")
  show ?thesis using a np t k by (auto simp: reload_def Let_def bind_eq_Some_conv simp del: One_nat_def split: if_splits)
qed

text \<open>The block at the current position of the buffer has the checksum that is stored behind it, and decompresses to \<open>chunk\<close>.\<close>

definition checked :: "'f zenv \<Rightarrow> 'f CompressionFile \<Rightarrow> BlockReader \<Rightarrow> block \<Rightarrow> u8 list \<Rightarrow> bool" where
  "checked E zf br blk chunk \<longleftrightarrow> (\<exists>data cs c. buf_slice (m_buf br) (m_buf_offset br) (blk_compressed_size blk) = Some data \<and>
     compressed_size zf br = Some cs \<and> buf_slice (m_buf br) (m_buf_offset br + cs) 4 = Some (u32_bytes (crc32c_salt E data)) \<and>
     cf_compressor zf = Some c \<and> decompress E c data (z_block_size (z_options (cf_ht zf))) = Some chunk)"

definition delivered :: "'f zenv \<Rightarrow> block \<Rightarrow> 'f zread \<Rightarrow> u8 list \<Rightarrow> 'f zread \<Rightarrow> bool" where
  "delivered E blk s buf s' \<longleftrightarrow> (\<exists>chunk part. checked E (zr_file s') (zr_reader s') blk chunk \<and>
    (part = chunk \<or> (\<exists>n \<le> cp_len blk. buf_slice chunk (cp_begin blk) n = Some part)) \<and> store (zr_ptr s) part buf = zr_buf s')"

lemma read_block_attempt:
  assumes "read_block E blk cnt retry s = Some (0, s')" and v: "z_verify (z_options (cf_ht (zr_file s))) \<noteq> 0" "valid (zr_file s) = FLAG_VALID_TRUE"
    and buf: "zr_buf s = Some buf"
  shows "delivered E blk s buf s' \<or> (\<exists>r res zf br. retry = Suc r \<and> reload E (zr_file s) (zr_reader s) = Some (res, zf, br) \<and>
    read_block E blk cnt r (s\<lparr>zr_file := zf, zr_reader := br\<rparr>) = Some (0, s'))"
proof -
  define A where "A = (\<lambda>p. case retry of
        0 \<Rightarrow> Some (- 1, s)
      | Suc r \<Rightarrow> if \<not> p then Some (- 1, s) else do {
          (res, zf, br) \<leftarrow> reload E (zr_file s) (zr_reader s);
          let s = s\<lparr>zr_file := zf, zr_reader := br\<rparr>;
          if res < 0 then Some (- 1, s) else read_block E blk cnt r s
        })"
  let ?zf = "zr_file s" and ?br = "zr_reader s"
  have A: "\<exists>r res zf br. retry = Suc r \<and> reload E ?zf ?br = Some (res, zf, br) \<and> read_block E blk cnt r (s\<lparr>zr_file := zf, zr_reader := br\<rparr>) = Some (0, s')"
    if "A p = Some (0, s')" for p
    using that by (cases retry) (auto simp: A_def Let_def bind_eq_Some_conv split: if_splits)
  note rb = assms(1) [unfolded read_block.simps [of E blk cnt retry s] Let_def prod.case]
  obtain data where d1: "buf_slice (m_buf ?br) (m_buf_offset ?br) (blk_compressed_size blk) = Some data"
    using rb by (cases "buf_slice (m_buf ?br) (m_buf_offset ?br) (blk_compressed_size blk)") simp_all
  obtain cs where d2: "compressed_size ?zf ?br = Some cs" using rb d1 v by (cases "compressed_size ?zf ?br") simp_all
  obtain code where d3: "buf_slice (m_buf ?br) (m_buf_offset ?br + cs) 4 = Some code"
    using rb d1 d2 v by (cases "buf_slice (m_buf ?br) (m_buf_offset ?br + cs) 4") simp_all
  note d = d1 d2 d3
  note flags = FLAG_VALID_TRUE_def FLAG_VALID_CRC_CHECK_def
  show ?thesis
  proof (cases "u32_bytes (crc32c_salt E data) = code")
    case False
    then have "A True = Some (0, s')" using rb d v buf by (cases retry) (simp_all add: A_def flags Let_def)
    then show ?thesis using A by blast
  next
    case True
    let ?k = "if readn s + cp_len blk > cnt then cnt - readn s else cp_len blk"
    have k: "?k \<le> cp_len blk" by (simp, linarith)
    obtain c where c: "cf_compressor ?zf = Some c" using rb d v buf True by (cases "cf_compressor ?zf") (simp_all add: flags)
    show ?thesis
    proof (cases "decompress E c data (z_block_size (z_options (cf_ht ?zf)))")
      case None
      then have "A True = Some (0, s')" using rb d v buf True c by (cases retry) (simp_all add: A_def flags Let_def)
      then show ?thesis using A by blast
    next
      case (Some bs)
      let ?S = "if cp_len blk = z_block_size (z_options (cf_ht ?zf)) \<and> ?k = cp_len blk then store (zr_ptr s) bs buf
                   else do {
                     part \<leftarrow> buf_slice bs (cp_begin blk) ?k;
                     store (zr_ptr s) part buf
                   }"
      obtain b where b: "?S = Some b" "s' = s\<lparr>zr_buf := Some b, zr_ptr := zr_ptr s + ?k, readn := readn s + ?k\<rparr>"
        using rb d v buf True c Some by (cases ?S) (simp_all add: flags split del: if_split)
      have "checked E (zr_file s') (zr_reader s') blk bs" using d True c Some b(2) by (auto simp: checked_def)
      moreover have "\<exists>part. (part = bs \<or> (\<exists>n \<le> cp_len blk. buf_slice bs (cp_begin blk) n = Some part)) \<and> store (zr_ptr s) part buf = zr_buf s'"
      proof (cases "cp_len blk = z_block_size (z_options (cf_ht ?zf)) \<and> ?k = cp_len blk")
        case True
        then show ?thesis using b unfolding if_P [OF True] by auto
      next
        case False
        from b(1) obtain part where "buf_slice bs (cp_begin blk) ?k = Some part" "store (zr_ptr s) part buf = Some b"
          unfolding if_not_P [OF False] by (auto simp: bind_eq_Some_conv split del: if_split)
        then show ?thesis using k b(2) by (intro exI [of _ part]) (auto split del: if_split)
      qed
      ultimately show ?thesis unfolding delivered_def by blast
    qed
  qed
qed

text \<open>
  Property C21: with checksums a block is only used when its bytes agree with the stored checksum, after up to
  three reloads, whatever the file returns: what reaches the caller is the decompressed block or its part.
\<close>

theorem read_block_checked:
  assumes "read_block E blk cnt retry s = Some (0, s')" "z_verify (z_options (cf_ht (zr_file s))) \<noteq> 0" "valid (zr_file s) = FLAG_VALID_TRUE"
    and "zr_buf s = Some buf"
  shows "\<exists>chunk part. checked E (zr_file s') (zr_reader s') blk chunk \<and>
    (part = chunk \<or> (\<exists>n \<le> cp_len blk. buf_slice chunk (cp_begin blk) n = Some part)) \<and> store (zr_ptr s) part buf = zr_buf s'"
  using assms unfolding delivered_def [symmetric]
proof (induction retry arbitrary: s)
  case 0
  then show ?case using read_block_attempt [OF 0] by simp
next
  case (Suc r)
  show ?case
  proof (rule ccontr)
    assume n: "\<not> delivered E blk s buf s'"
    from read_block_attempt [OF Suc.prems] n obtain res zf br where
      r: "reload E (zr_file s) (zr_reader s) = Some (res, zf, br)" "read_block E blk cnt r (s\<lparr>zr_file := zf, zr_reader := br\<rparr>) = Some (0, s')" by auto
    have "delivered E blk (s\<lparr>zr_file := zf, zr_reader := br\<rparr>) buf s'"
      using reload_same [OF r(1)] Suc.prems(2-4) by (intro Suc.IH [OF r(2)]) simp_all
    then show False using n by (simp add: delivered_def)
  qed
qed


text \<open>One block of one byte with its checksum.\<close>

definition one_byte_file :: "(u8 list \<times> nat) CompressionFile" where
  "one_byte_file = \<lparr>jump_table = table_of 16 512 [5], raw_block_sizes = [], cf_ht = z_new (sample_options 4096), cf_file = ([], 0),
     cf_compressor = create_compressor memory_env (sample_options 4096), cf_ownership = False, valid = FLAG_VALID_TRUE\<rparr>"

definition one_byte_read :: "(u8 list \<times> nat) zread" where
  "one_byte_read = \<lparr>zr_file = one_byte_file, zr_reader = \<lparr>m_buf_offset = 0, m_begin_idx = 0, m_original_begin_idx = 0, m_idx = 0, m_end_idx = 1,
     m_original_offset = 0, m_end = 0, m_verify = True, m_block_size = 4096, m_eno = 0, m_buf = [5, 215, 196, 112, 67]\<rparr>,
     zr_buf = Some [0], zr_ptr = 0, readn = 0\<rparr>"

lemma read_block_checked_witness:
  "\<exists>s' chunk part. read_block memory_env \<lparr>blk_compressed_size = 1, cp_begin = 0, cp_len = 1\<rparr> 1 3 one_byte_read = Some (0, s') \<and>
    checked memory_env (zr_file s') (zr_reader s') \<lparr>blk_compressed_size = 1, cp_begin = 0, cp_len = 1\<rparr> chunk \<and> store 0 part [0] = zr_buf s'"
proof -
  let ?blk = "\<lparr>blk_compressed_size = 1, cp_begin = 0, cp_len = 1\<rparr>"
  have jt: "jt_at (table_of 16 512 [5]) i = Some (512 + start_of [5] i)" if "i \<le> 1" for i
    using jt_at_spec [of 16 4 i "[5]" 512] that by simp
  have cs: "compressed_size one_byte_file (zr_reader one_byte_read) = Some 1"
    using jt [of 0] jt [of 1] sub64_eq [of 512 517] sub64_eq [of 4 5]
    by (simp add: compressed_size_def get_blocks_length_def one_byte_file_def one_byte_read_def start_of_def)
  have crc: "u32_bytes (crc32c_salt memory_env [5]) = [215, 196, 112, 67]"
  proof -
    have four: "(4 :: nat) = Suc (Suc (Suc (Suc 0)))" by simp
    have "crc32c_salt memory_env [5] = 1131463895"
      by (simp add: crc32c_salt_def memory_env_def NOI_WELL_KNOWN_PRIME_def crc_byte_def shifted_byte crc_bit_def)
    then show ?thesis by (simp only: u32_bytes_def four le_bytes.simps) simp
  qed
  let ?s' = "one_byte_read\<lparr>zr_buf := Some [5], zr_ptr := 1, readn := 1\<rparr>"
  have "read_block memory_env ?blk 1 3 one_byte_read = Some (0, ?s')"
    using cs crc by (subst read_block.simps)
      (simp add: Let_def one_byte_read_def one_byte_file_def z_new_def sample_options_def buf_slice_def FLAG_VALID_TRUE_def FLAG_VALID_CRC_CHECK_def
        create_compressor_def LZ4_def decompress_def memory_env_def plain_codec_def store_def)
  moreover have "z_verify (z_options (cf_ht (zr_file one_byte_read))) \<noteq> 0" "valid (zr_file one_byte_read) = FLAG_VALID_TRUE" "zr_buf one_byte_read = Some [0]"
    "zr_ptr one_byte_read = 0"
    by (simp_all add: one_byte_read_def one_byte_file_def z_new_def sample_options_def)
  ultimately show ?thesis using read_block_checked [of memory_env ?blk 1 3 one_byte_read ?s' "[0]"] by metis
qed

lemma oversized_pread:
  assumes n: "MAX_READ_SIZE + 4 < n" "n < 2 ^ 32"
    and zf: "jump_table zf = table_of 1 Z_SPACE [n]" "z_block_size (z_options (cf_ht zf)) = MAX_READ_SIZE" "0 < z_original_file_size (cf_ht zf)"
      "variable_blocks zf \<longrightarrow> 0 < hd (raw_block_sizes zf)"
  shows "zfile_pread E zf buf 1 0 = Some (- 1, buf, zf)"
proof -
  have jt: "jt_at (table_of 1 Z_SPACE [n]) i = Some (Z_SPACE + start_of [n] i)" if "i \<le> 1" for i using jt_at_spec [of 1 0 i "[n]" Z_SPACE] that by simp
  define br where "br = \<lparr>m_buf_offset = 0, m_begin_idx = 0, m_original_begin_idx = 0, m_idx = 0, m_end_idx = 1, m_original_offset = 0,
     m_end = 0, m_verify = (z_verify (z_options (cf_ht zf)) \<noteq> 0), m_block_size = MAX_READ_SIZE, m_eno = 0, m_buf = []\<rparr>"
  have new: "new_BlockReader zf 0 1 = Some br"
  proof (cases "variable_blocks zf")
    case True
    then obtain x xs where "raw_block_sizes zf = x # xs" "0 < x" using zf(4) by (cases "raw_block_sizes zf") (auto simp: variable_blocks_def)
    then show ?thesis using True zf(2) by (simp add: new_BlockReader_def br_def Let_def)
  next
    case False
    then show ?thesis using zf(2) by (simp add: new_BlockReader_def br_def Let_def MAX_READ_SIZE_def)
  qed
  have l: "get_blocks_length zf 0 1 = Some n" "get_blocks_length zf 0 0 = Some 0"
    using jt [of 0] jt [of 1] zf(1) n(2) sub64_eq [of Z_SPACE "Z_SPACE + n"] sub64_eq [of Z_SPACE Z_SPACE]
    by (simp_all add: get_blocks_length_def start_of_def Z_SPACE_def)
  have cs: "compressed_size zf r = Some (sub64 n (if m_verify r then 4 else 0))" if "m_idx r = 0" for r
    using l(1) that by (simp add: compressed_size_def)
  have big: "MAX_READ_SIZE < sub64 n (if v then 4 else 0)" for v
    using n sub64_eq [of 4 n] sub64_eq [of 0 n] by (cases v) simp_all
  have cur: "get_current_block zf r = Some (None, r\<lparr>m_buf_offset := 0, m_eno := ERANGE\<rparr>)" if "m_begin_idx r = 0" "m_idx r = 0" for r
    using l(2) cs big that by (simp add: get_current_block_def Let_def MAX_READ_SIZE_def)
  have "\<exists>r. first_block E zf br = Some (None, r) \<and> m_eno r \<noteq> 0"
  proof -
    obtain k bs where k: "io_pread (io E) (cf_file zf) (min MAX_READ_SIZE n) Z_SPACE = (k, bs)"
      by (cases "io_pread (io E) (cf_file zf) (min MAX_READ_SIZE n) Z_SPACE")
    show ?thesis
      using l(1) jt [of 0] zf(1) k cur
      by (auto simp: first_block_def read_blocks_def Let_def br_def start_of_def ERANGE_def EIO_def simp del: One_nat_def)
  qed
  then obtain r where "first_block E zf br = Some (None, r)" "m_eno r \<noteq> 0" by blast
  then show ?thesis using zf(2,3) new by (simp add: zfile_pread_def Let_def read_loop_None)
qed



end
