(* ===== verification/Spec2Isabelle.thy ===== *)
theory Spec2Isabelle
  imports FastCDC OCF_Lru OCF_Alock OCF_Status OCF_Metadata OCF_Engine OCF_Hash_Locks LSMT_Device LSMT_Commit ZFile_Properties
begin

text \<open>
  Verification of the core of DADI (overlaybd) with content-defined chunking. The program serves a
  container image as a block device. An image is a stack of layers; each layer is a log-structured file
  whose index maps segments of the device to segments of the file (\<open>src/overlaybd/src/overlaybd/lsmt\<close>).
  Layers can be stored compressed (\<open>zfile\<close>), cut into chunks by FastCDC
  (\<open>src/overlaybd/FastCDC-c\<close>, \<open>zfile/fastcdc_wrapper.cpp\<close>), and are cached on a local device by the
  Open CAS Framework (\<open>src/overlaybd/src/overlaybd/cache/ocf_cache/ocf\<close>, OCF below).

  \<^bold>\<open>Theories.\<close>

  \<^item> \<open>Prelude\<close>: C integers as words, reads of a buffer and assertions as \<open>option\<close> values, shared lemmas.
  \<^item> \<open>FastCDC\<close>: \<open>fastcdc.c\<close> (the gear table, \<open>fastCDC_init\<close> and the four chunkers, MD5 is a parameter) and
    the class \<open>FastCDCChunker\<close>. The chunkers return the first cut point of the gear hash; the routines
    that handle two bytes at a time agree with the plain ones; a cut depends on the last 64 bytes only;
    chunks have the stated sizes; with a small maximum the scan leaves the announced length.
  \<^item> \<open>Index_Lists\<close>: doubly linked lists threaded through arrays, used by the next theories.
  \<^item> \<open>OCF_Lru\<close>: one LRU list of \<open>ocf_lru.c\<close> with its hot half. Every sequence of operations refines the
    abstract list in most-recently-used order.
  \<^item> \<open>OCF_Status\<close>: the valid and dirty bits of the sectors of a line (\<open>metadata_bit.h\<close>,
    \<open>metadata_status.h\<close>), for every width, as sets of sectors.
  \<^item> \<open>OCF_Metadata\<close>: the collision table (\<open>metadata_collision.c\<close>): the mapping between logical and
    physical lines, the hash function, and the lists of the hash buckets.
  \<^item> \<open>OCF_Alock\<close>: the asynchronous lock of cache lines (\<open>utils_alock.c\<close>,
    \<open>ocf_cache_line_concurrency.c\<close>) as a step relation over requests: mutual exclusion, no lost
    wake-up, all-or-nothing fast path, initialisation, and a defect of an error path.
  \<^item> \<open>OCF_Hash_Locks\<close>: the global and hash bucket locks of the metadata (\<open>ocf_metadata_concurrency.c\<close>) and
    the iteration over the buckets of a request: ascending order, termination, freedom from deadlock,
    lock and unlock as a round trip, error paths of the initialisation.
  \<^item> \<open>OCF_Eviction\<close>: the lists of all partitions, movement of lines between them, population of the free
    list (\<open>ocf_lru.c\<close>).
  \<^item> \<open>OCF_Cache_Line\<close>: the operations on a cache line (\<open>utils_cache_line.c\<close>, \<open>metadata_misc.c\<close>, mapping
    and eviction), which use all of the above. The invariant of the whole cache state, its preservation
    by every operation, and the refinement of an abstract cache.
  \<^item> \<open>LSMT_Index\<close>: segments, the read-only index \<open>Index\<close>, the writable index \<open>Index0\<close> and
    \<open>foreach_segments\<close> (\<open>lsmt/index.h\<close>, \<open>lsmt/index.cpp\<close>). The interface of an index is the locale
    \<open>memory_index\<close>; the iteration is proved once in it.
  \<^item> \<open>LSMT_Layers\<close>: \<open>LevelIndex\<close>, \<open>ComboIndex\<close>, the merge of layers, compression, and the functions that
    create indexes; \<open>ComboIndex\<close> is another interpretation of \<open>memory_index\<close>.

  \<^item> \<open>OCF_Request\<close>: requests and their lookup (\<open>ocf_request.c\<close>, \<open>engine_common.c\<close>): the walk along a collision
    list is a linear search, the verdicts about a request are exact.
  \<^item> \<open>OCF_Engine\<close>: what the engines do with the lines of a request (\<open>utils_cache_line.h\<close>,
    \<open>utils_user_part.c\<close>): marking sectors, purging, moving to a partition.
  \<^item> \<open>LSMT_Format\<close>: the bytes of mappings, headers and trailers (\<open>lsmt/file.cpp\<close>), and the operations on files
    that the layers use. Decoding inverts encoding.
  \<^item> \<open>LSMT_File\<close>: the classes \<open>LSMTReadOnlyFile\<close> and \<open>LSMTFile\<close>: \<open>pread\<close>, \<open>pwrite\<close>, \<open>fallocate\<close>, the log of
    mappings with its group commit. The abstract device is a function from block numbers to blocks;
    the lemmas \<open>LSMT_\<dots>_spec\<close> state the effect of each operation on the device and the log.
  \<^item> \<open>LSMT_Device\<close>: a file object refines the device over sequences of operations; errors of writes, short
    reads, and three defects.
  \<^item> \<open>LSMT_Load\<close>: \<open>create_file_rw\<close>, \<open>open_file_rw\<close>, \<open>open_file_ro\<close>: a layer that was written and synced is found
    again; a torn log overflows a buffer.
  \<^item> \<open>LSMT_Commit\<close>: \<open>compact\<close>, with which layers are committed and flattened. The new file can be
    opened and has the blocks of the old device.
  \<^item> \<open>CRC32C\<close>: the checksum of compressed files (\<open>zfile/crc32/crc32c.cpp\<close>) with its nine tables. The routines for one
    byte, for eight bytes and for the instructions of the processor compute the same division by the CRC32C
    polynomial, which finds every change within four consecutive bytes.
  \<^item> \<open>ZFile_Format\<close>: the bytes of header and trailer of a compressed file with their digests, the class
    \<open>JumpTable\<close>, and the compressors (\<open>zfile/zfile.cpp\<close>, \<open>zfile/compressor.cpp\<close>). A header is read back; the jump
    table gives the exact position of every block if its group size is a power of two.
  \<^item> \<open>ZFile_Read\<close>: \<open>zfile_open_ro\<close>, the class \<open>BlockReader\<close> and \<open>CompressionFile::pread\<close> with checksums and reloads. The
    invariant \<open>represents\<close> relates a file object to the blocks it holds.
  \<^item> \<open>ZFile_Pread\<close>: \<open>pread\<close> of a file object that represents blocks terminates and returns the bytes of a window of
    their concatenation.
  \<^item> \<open>ZFile_Compress\<close>: \<open>zfile_compress\<close> with fixed blocks and with FastCDC, \<open>zfile_decompress\<close>,
    \<open>zfile_validation_check\<close>, and the streaming \<open>ZFileBuilder\<close>.
  \<^item> \<open>ZFile_Roundtrip\<close>: what \<open>zfile_compress\<close> and the builder write is opened again as an object that represents the
    bytes of the source.
  \<^item> \<open>ZFile_Properties\<close>: round trips over writing, opening and reading; only checked bytes are delivered; defects
    of unaligned reads, of the jump table and of blocks that grow. It has an instance of the environment.

  \<^bold>\<open>Modelling.\<close> A C struct or C++ class is a record, an enumeration a datatype. Where an overflow or a
  bit pattern matters an integer is a word or is truncated explicitly; counters that only count are
  integers. \<open>None\<close> stands for everything after which the C program has no defined behaviour: a failed
  \<open>ENV_BUG_ON\<close> or \<open>assert\<close>, an access outside of an array, a division by zero, a signed overflow, or a
  loop that does not end. So a theorem that an operation is \<open>Some\<close> says that it terminates and that none of
  this happens. Return codes and null pointers are values of their own. Loops whose termination is not
  structural are \<open>partial_function\<close>s or functions with a measure; no fuel is used. Atomic variables and
  spin locks make the sections they protect atomic; these sections are the steps of the step relations.

  \<^bold>\<open>Parameters.\<close> MD5 in \<open>fastCDC_init\<close>, the success of allocations and of the initialisation of locks, the
  time, the callbacks of \<open>foreach_segments\<close>, and the metadata geometry of a cache are arguments of the
  definitions. Files and UUIDs belong to the library Photon; their methods are the fields of the record
  \<open>photon\<close>. \<open>file_laws\<close> states what POSIX promises of them, \<open>full_reads\<close> and \<open>full_writes\<close> that a transfer is
  not interrupted; \<open>memory_photon\<close> is an instance. For compressed files the record \<open>zenv\<close> adds sequential reads
  (\<open>sequential_reads\<close>), eviction, the checksum \<open>crc32c_extend\<close> (a pointer that is set when the program starts; nothing is assumed of it, and
  \<open>CRC32C\<close> has the functions it points to), and the libraries LZ4
  and zstd as codecs: \<open>codec_law\<close> says that a block of at most the block size is encoded within the announced
  bound and decoded again. \<open>options_ok\<close> and \<open>args_ok\<close> collect the conditions on the options of a compressed file: a
  power-of-two number of blocks in a group, no dictionary, and stored blocks that the jump table and the
  buffers hold. \<open>memory_env\<close> is an instance. In \<open>CRC32C\<close> the instructions of the processor
  are a parameter; \<open>crc_instructions\<close> states what they are documented to do.

  \<^bold>\<open>Not modelled.\<close> Network access and the formats behind it
  (\<open>registryfs\<close>, \<open>gzip\<close>, \<open>tar\<close>, \<open>erofs\<close>), the multi-threaded builder of compressed files and the QAT hardware, the image
  service and its configuration, the cache front ends and the page pool of OCF; in OCF the I/O engines, the
  cleaning policies, the promotion policies, sequential cutoff, statistics, the metadata storage and the
  management interface; in \<open>lsmt/file.cpp\<close> sparse and warp files (apart from loading their mappings),
  sealing, stacking and merging files, and concurrent callers. The command line tools, the Go snapshotter, and vendored code (\<open>CLI11\<close>, \<open>lz4\<close>,
  \<open>isa-l\<close>, \<open>uthash\<close>) are left aside.
\<close>

end
